(* ===== verification/DK_Prelude.thy ===== *)
theory DK_Prelude
  imports Main "HOL-Library.Word" "HOL-Library.Char_ord" "HOL-Library.List_Lexorder"
    "HOL-Library.Sublist"
begin

text \<open>
  What the components share: the Rust standard library operations the code calls on strings
  (byte lists), on \<open>u64\<close> counters and on \<open>BTreeMap\<close>, with the lemmas that carry the component
  proofs.

  A Rust \<open>String\<close> is its list of UTF-8 bytes, so \<open>len\<close> and the order of \<open>BTreeMap\<close> keys are those
  of the list. An ordered map is the list of its rows in key order, which is what iterating the
  Rust map yields. The interface \<open>ordered_map\<close> states what its operations promise.
\<close>

named_theorems devkit_wf
named_theorems devkit_map

section \<open>Machine integers\<close>

type_synonym u64 = "64 word"
type_synonym u32 = "32 word"
type_synonym u16 = "16 word"

text \<open>Rust's \<open>saturating_sub\<close> and \<open>checked_add\<close> on unsigned integers.\<close>

definition sat_sub :: "'a::len word \<Rightarrow> 'a word \<Rightarrow> 'a word" where
  "sat_sub a b = (if a < b then 0 else a - b)"

definition checked_add :: "'a::len word \<Rightarrow> 'a word \<Rightarrow> 'a word option" where
  "checked_add a b = (if unat a + unat b < 2 ^ LENGTH('a) then Some (a + b) else None)"

lemma unat_sat_sub: "unat (sat_sub a b) = unat a - unat b"
  by (simp add: sat_sub_def unat_sub word_le_nat_alt not_less word_less_nat_alt)

lemma sat_sub_self [simp]: "sat_sub a a = 0"
  by (simp add: sat_sub_def)

lemma checked_add_Some:
  "checked_add a b = Some c \<Longrightarrow> unat c = unat a + unat b"
  by (auto simp: checked_add_def unat_word_ariths split: if_splits)

lemma checked_add_one_None:
  fixes a :: "'a::len word"
  assumes "checked_add a 1 = None"
  shows "Suc (unat a) = 2 ^ LENGTH('a)"
proof -
  have "2 ^ LENGTH('a) \<le> unat a + 1"
    using assms by (auto simp: checked_add_def split: if_splits)
  moreover have "unat a < 2 ^ LENGTH('a)" by (rule unsigned_less)
  ultimately show ?thesis by linarith
qed

section \<open>Strings\<close>

text \<open>Rust's \<open>str::strip_prefix\<close> and \<open>str::starts_with\<close>.\<close>

fun strip_prefix :: "'a list \<Rightarrow> 'a list \<Rightarrow> 'a list option" where
  "strip_prefix [] s = Some s"
| "strip_prefix (p # ps) [] = None"
| "strip_prefix (p # ps) (c # cs) = (if p = c then strip_prefix ps cs else None)"

lemma strip_prefix_Some [simp]: "strip_prefix p s = Some r \<longleftrightarrow> s = p @ r"
  by (induction p s rule: strip_prefix.induct) auto

lemma strip_prefix_None: "strip_prefix p s = None \<longleftrightarrow> (\<forall>r. s \<noteq> p @ r)"
  by (metis not_None_eq strip_prefix_Some)

lemma strip_prefix_append [simp]: "strip_prefix p (p @ r) = Some r"
  by simp

lemma strip_prefix_self [simp]: "strip_prefix p p = Some []"
  by simp

text \<open>
  The idiom \<open>s.strip_prefix(p).is_some_and(|rest| rest.starts_with('/'))\<close>, which the lock model
  writes for paths and for holders.
\<close>

definition slash_below :: "string \<Rightarrow> string \<Rightarrow> bool" where
  "slash_below p s =
     (case strip_prefix p s of Some (c # _) \<Rightarrow> c = CHR ''/'' | _ \<Rightarrow> False)"

lemma slash_below_iff: "slash_below p s \<longleftrightarrow> (\<exists>r. s = p @ CHR ''/'' # r)"
proof (cases "strip_prefix p s")
  case None
  then have "\<not> slash_below p s" by (simp add: slash_below_def)
  with None show ?thesis by (auto simp: strip_prefix_None)
next
  case (Some r)
  then show ?thesis by (cases r) (auto simp: slash_below_def)
qed

lemma slash_below_trans: "slash_below a b \<Longrightarrow> slash_below b c \<Longrightarrow> slash_below a c"
  by (auto simp: slash_below_iff)

lemma slash_below_irrefl [simp]: "\<not> slash_below a a"
  by (simp add: slash_below_iff)

lemma slash_below_asym: "slash_below a b \<Longrightarrow> \<not> slash_below b a"
  by (auto simp: slash_below_iff)

lemma slash_below_linear:
  assumes "slash_below a c" and "slash_below b c"
  shows "a = b \<or> slash_below a b \<or> slash_below b a"
proof -
  obtain r where r: "c = a @ CHR ''/'' # r"
    using assms(1) by (auto simp: slash_below_iff)
  obtain t where t: "c = b @ CHR ''/'' # t"
    using assms(2) by (auto simp: slash_below_iff)
  have "a @ CHR ''/'' # r = b @ CHR ''/'' # t" using r t by (rule subst)
  then obtain u where
    u: "a = b @ u \<and> u @ CHR ''/'' # r = CHR ''/'' # t \<or>
      a @ u = b \<and> CHR ''/'' # r = u @ CHR ''/'' # t"
    unfolding append_eq_append_conv2 by blast
  show ?thesis
  proof (cases u)
    case Nil
    with u show ?thesis by auto
  next
    case (Cons x v)
    with u have "a = b @ CHR ''/'' # v \<or> b = a @ CHR ''/'' # v" by auto
    then show ?thesis unfolding slash_below_iff by blast
  qed
qed

text \<open>Rust's \<open>split\<close> on one character and \<open>join\<close>: a split always yields at least one piece.\<close>

fun split_on :: "'a \<Rightarrow> 'a list \<Rightarrow> 'a list list" where
  "split_on c [] = [[]]"
| "split_on c (x # xs) =
     (if x = c then [] # split_on c xs
      else case split_on c xs of [] \<Rightarrow> [[x]] | p # ps \<Rightarrow> (x # p) # ps)"

fun join :: "'a list \<Rightarrow> 'a list list \<Rightarrow> 'a list" where
  "join sep [] = []"
| "join sep [p] = p"
| "join sep (p # q # ps) = p @ sep @ join sep (q # ps)"

lemma split_on_not_Nil [simp]: "split_on c s \<noteq> []"
  by (induction s) (auto split: list.split)

lemma join_Cons: "ps \<noteq> [] \<Longrightarrow> join sep (p # ps) = p @ sep @ join sep ps"
  by (cases ps) auto

lemma join_head: "join sep ((x # p) # ps) = x # join sep (p # ps)"
  by (cases ps) auto

lemma join_split_on [simp]: "join [c] (split_on c s) = s"
proof (induction s)
  case (Cons x xs)
  then show ?case
    by (cases "split_on c xs") (auto simp: join_Cons join_head)
qed simp

lemma split_on_inj: "split_on c s = split_on c t \<Longrightarrow> s = t"
  by (metis join_split_on)

lemma split_on_no_sep: "c \<notin> set s \<Longrightarrow> split_on c s = [s]"
  by (induction s) auto

lemma split_on_append_sep:
  "split_on c (a @ c # b) = split_on c a @ split_on c b"
proof (induction a)
  case (Cons x a)
  then show ?case by (cases "split_on c a") auto
qed simp

lemma split_on_pieces: "p \<in> set (split_on c s) \<Longrightarrow> c \<notin> set p"
proof (induction s arbitrary: p)
  case (Cons x xs)
  then show ?case
    by (cases "split_on c xs") (auto split: if_splits)
qed simp

lemma split_on_join:
  "ps \<noteq> [] \<Longrightarrow> (\<forall>p\<in>set ps. c \<notin> set p) \<Longrightarrow> split_on c (join [c] ps) = ps"
proof (induction ps)
  case (Cons p ps)
  then show ?case
    by (cases ps) (auto simp: split_on_no_sep split_on_append_sep)
qed simp

text \<open>A string is below another at a slash exactly when its components extend the other's.\<close>

lemma slash_below_split:
  "slash_below a b \<longleftrightarrow> strict_prefix (split_on (CHR ''/'') a) (split_on (CHR ''/'') b)"
  (is "_ \<longleftrightarrow> strict_prefix (?s a) (?s b)")
proof
  assume "slash_below a b"
  then show "strict_prefix (?s a) (?s b)"
    by (auto simp: slash_below_iff split_on_append_sep strict_prefix_def prefix_def)
next
  assume "strict_prefix (?s a) (?s b)"
  then obtain ps where ps: "?s b = ?s a @ ps" "ps \<noteq> []"
    by (auto simp: strict_prefix_def prefix_def)
  have "\<forall>p\<in>set ps. CHR ''/'' \<notin> set p"
    using ps(1) split_on_pieces [of _ "CHR ''/''" b] by auto
  then have "?s (a @ CHR ''/'' # join ''/'' ps) = ?s b"
    using ps by (simp add: split_on_append_sep split_on_join)
  then have "b = a @ CHR ''/'' # join ''/'' ps"
    by (metis split_on_inj)
  then show "slash_below a b" by (auto simp: slash_below_iff)
qed

lemma split_on_eq_iff: "split_on c a = split_on c b \<longleftrightarrow> a = b"
  by (auto dest: split_on_inj)

section \<open>BTreeMap\<close>

type_synonym ('k, 'v) btree = "('k \<times> 'v) list"

definition bt_get :: "('k, 'v) btree \<Rightarrow> 'k \<Rightarrow> 'v option" where
  "bt_get m k = map_of m k"

fun bt_insert :: "'k::linorder \<Rightarrow> 'v \<Rightarrow> ('k, 'v) btree \<Rightarrow> ('k, 'v) btree" where
  "bt_insert k v [] = [(k, v)]"
| "bt_insert k v (row # m) =
     (if fst row < k then row # bt_insert k v m
      else (k, v) # (if fst row = k then m else row # m))"

definition bt_remove :: "'k \<Rightarrow> ('k, 'v) btree \<Rightarrow> ('k, 'v) btree" where
  "bt_remove k m = filter (\<lambda>row. fst row \<noteq> k) m"

definition bt_retain :: "('k \<Rightarrow> 'v \<Rightarrow> bool) \<Rightarrow> ('k, 'v) btree \<Rightarrow> ('k, 'v) btree" where
  "bt_retain P m = filter (\<lambda>row. P (fst row) (snd row)) m"

definition bt_map_values :: "('v \<Rightarrow> 'w) \<Rightarrow> ('k, 'v) btree \<Rightarrow> ('k, 'w) btree" where
  "bt_map_values f m = map (\<lambda>row. (fst row, f (snd row))) m"

abbreviation bt_keys :: "('k, 'v) btree \<Rightarrow> 'k list" where
  "bt_keys m \<equiv> map fst m"

abbreviation bt_values :: "('k, 'v) btree \<Rightarrow> 'v list" where
  "bt_values m \<equiv> map snd m"

definition bt_wf :: "('k::linorder, 'v) btree \<Rightarrow> bool" where
  "bt_wf m = sorted_wrt (<) (map fst m)"

lemma bt_wf_Nil [simp, devkit_wf]: "bt_wf []"
  by (simp add: bt_wf_def)

lemma bt_wf_Cons: "bt_wf (row # m) \<longleftrightarrow> (\<forall>r\<in>set m. fst row < fst r) \<and> bt_wf m"
  by (auto simp: bt_wf_def)

lemma bt_wf_distinct: "bt_wf m \<Longrightarrow> distinct (map fst m)"
  by (induction m) (auto simp: bt_wf_Cons)

lemma bt_get_Some: "bt_wf m \<Longrightarrow> bt_get m k = Some v \<longleftrightarrow> (k, v) \<in> set m"
  by (simp add: bt_get_def bt_wf_distinct)

lemma bt_get_None: "bt_get m k = None \<longleftrightarrow> k \<notin> set (map fst m)"
  by (simp add: bt_get_def map_of_eq_None_iff)

lemma bt_get_in_set: "bt_get m k = Some v \<Longrightarrow> (k, v) \<in> set m"
  by (simp add: bt_get_def map_of_SomeD)

lemma bt_keys_insert: "fst ` set (bt_insert k v m) = insert k (fst ` set m)"
  by (induction m) auto

lemma bt_get_Cons: "bt_get (row # m) j = (if fst row = j then Some (snd row) else bt_get m j)"
  by (simp add: bt_get_def)

lemma bt_insert_get [devkit_map]:
  "bt_get (bt_insert k v m) j = (if j = k then Some v else bt_get m j)"
proof (induction m)
  case Nil
  then show ?case by (simp add: bt_get_def)
next
  case (Cons row m)
  then show ?case by (auto simp: bt_get_Cons)
qed

lemma bt_insert_wf [devkit_wf]: "bt_wf m \<Longrightarrow> bt_wf (bt_insert k v m)"
proof (induction m)
  case (Cons row m)
  have rest: "\<forall>r\<in>set m. fst row < fst r" "bt_wf m"
    using Cons.prems by (simp_all add: bt_wf_Cons)
  consider "fst row < k" | "fst row = k" | "k < fst row" by force
  then show ?case
  proof cases
    case 1
    have "fst row < fst r" if "r \<in> set (bt_insert k v m)" for r
    proof -
      have "fst r \<in> insert k (fst ` set m)"
        using that bt_keys_insert [of k v m] by (metis image_eqI)
      then show ?thesis using 1 rest(1) by auto
    qed
    with 1 rest Cons.IH show ?thesis by (simp add: bt_wf_Cons)
  next
    case 2
    with rest show ?thesis by (simp add: bt_wf_Cons)
  next
    case 3
    with rest show ?thesis by (force simp: bt_wf_Cons)
  qed
qed (simp add: bt_wf_def)

lemma bt_insert_set:
  "bt_wf m \<Longrightarrow> set (bt_insert k v m) = insert (k, v) {row \<in> set m. fst row \<noteq> k}"
proof (induction m)
  case (Cons row m)
  have rest: "\<forall>r\<in>set m. fst row < fst r" "bt_wf m"
    using Cons.prems by (simp_all add: bt_wf_Cons)
  consider "fst row < k" | "fst row = k" | "k < fst row" by force
  then show ?case
  proof cases
    case 1
    with Cons.IH [OF rest(2)] show ?thesis by auto
  next
    case 2
    have "\<forall>r\<in>set m. fst r \<noteq> k" using 2 rest(1) by fastforce
    then have "{r \<in> set m. fst r \<noteq> k} = set m" by blast
    with 2 show ?thesis by auto
  next
    case 3
    have "\<forall>r\<in>set m. fst r \<noteq> k"
    proof
      fix r assume "r \<in> set m"
      with rest(1) have "fst row < fst r" by blast
      with 3 have "k < fst r" by (rule less_trans)
      then show "fst r \<noteq> k" by simp
    qed
    then have "{r \<in> set m. fst r \<noteq> k} = set m" by blast
    with 3 have "{r \<in> set (row # m). fst r \<noteq> k} = set (row # m)" by auto
    then have "insert (k, v) {r \<in> set (row # m). fst r \<noteq> k} = insert (k, v) (set (row # m))"
      by (rule arg_cong)
    moreover have "\<not> fst row < k" "fst row \<noteq> k" using 3 by order+
    then have "bt_insert k v (row # m) = (k, v) # row # m" by simp
    ultimately show ?thesis by (simp only: list.set)
  qed
qed simp

lemma bt_remove_get [devkit_map]:
  "bt_get (bt_remove k m) j = (if j = k then None else bt_get m j)"
  by (induction m) (auto simp: bt_remove_def bt_get_def)

lemma bt_filter_wf: "bt_wf m \<Longrightarrow> bt_wf (filter P m)"
  by (induction m) (auto simp: bt_wf_Cons)

lemma bt_remove_wf [devkit_wf]: "bt_wf m \<Longrightarrow> bt_wf (bt_remove k m)"
  by (simp add: bt_remove_def bt_filter_wf)

lemma bt_retain_wf [devkit_wf]: "bt_wf m \<Longrightarrow> bt_wf (bt_retain P m)"
  by (simp add: bt_retain_def bt_filter_wf)

lemma bt_map_values_wf [devkit_wf]: "bt_wf m \<Longrightarrow> bt_wf (bt_map_values f m)"
  by (simp add: bt_map_values_def bt_wf_def comp_def)

lemma bt_remove_set [simp]: "set (bt_remove k m) = {row \<in> set m. fst row \<noteq> k}"
  by (auto simp: bt_remove_def)

lemma bt_retain_set [simp]: "set (bt_retain P m) = {row \<in> set m. P (fst row) (snd row)}"
  by (auto simp: bt_retain_def)

lemma bt_get_map_values [devkit_map]:
  "bt_get (bt_map_values f m) k = map_option f (bt_get m k)"
  by (induction m) (auto simp: bt_map_values_def bt_get_Cons, simp add: bt_get_def)

lemma bt_get_retain [devkit_map]:
  "bt_wf m \<Longrightarrow> bt_get (bt_retain P m) k =
     (case bt_get m k of Some v \<Rightarrow> if P k v then Some v else None | None \<Rightarrow> None)"
proof (induction m)
  case Nil
  then show ?case by (simp add: bt_get_def bt_retain_def)
next
  case (Cons row m)
  have "bt_get m (fst row) = None"
    using Cons.prems by (force simp: bt_wf_Cons bt_get_None)
  with Cons show ?case
    by (auto simp: bt_retain_def bt_get_Cons bt_wf_Cons split: option.splits)
qed

lemma bt_remove_all_set:
  "set (fold bt_remove ks m) = {row \<in> set m. fst row \<notin> set ks}"
  by (induction ks arbitrary: m) auto

lemma bt_remove_all_wf [devkit_wf]: "bt_wf m \<Longrightarrow> bt_wf (fold bt_remove ks m)"
  by (induction ks arbitrary: m) (auto intro: bt_remove_wf)

lemma bt_map_values_values: "snd ` set (bt_map_values f m) = f ` snd ` set m"
  by (simp add: bt_map_values_def image_image)

text \<open>The interface a client of an ordered map relies on.\<close>

locale ordered_map =
  fixes get :: "'m \<Rightarrow> 'k::linorder \<Rightarrow> 'v option"
    and ins :: "'k \<Rightarrow> 'v \<Rightarrow> 'm \<Rightarrow> 'm"
    and del :: "'k \<Rightarrow> 'm \<Rightarrow> 'm"
    and rows :: "'m \<Rightarrow> ('k \<times> 'v) list"
    and wf :: "'m \<Rightarrow> bool"
  assumes rows_sorted: "wf m \<Longrightarrow> sorted_wrt (<) (map fst (rows m))"
    and get_rows: "wf m \<Longrightarrow> get m k = Some v \<longleftrightarrow> (k, v) \<in> set (rows m)"
    and get_ins: "wf m \<Longrightarrow> get (ins k v m) j = (if j = k then Some v else get m j)"
    and get_del: "wf m \<Longrightarrow> get (del k m) j = (if j = k then None else get m j)"
    and wf_ins: "wf m \<Longrightarrow> wf (ins k v m)"
    and wf_del: "wf m \<Longrightarrow> wf (del k m)"
begin

lemma rows_ins:
  "wf m \<Longrightarrow> set (rows (ins k v m)) = insert (k, v) {r \<in> set (rows m). fst r \<noteq> k}"
proof (rule set_eqI)
  fix r assume m: "wf m"
  have "r \<in> set (rows (ins k v m)) \<longleftrightarrow> get (ins k v m) (fst r) = Some (snd r)"
    using get_rows [OF wf_ins [OF m]] by simp
  also have "\<dots> \<longleftrightarrow> (if fst r = k then v = snd r else get m (fst r) = Some (snd r))"
    by (simp add: get_ins [OF m])
  also have "\<dots> \<longleftrightarrow> r \<in> insert (k, v) {r \<in> set (rows m). fst r \<noteq> k}"
    using get_rows [OF m] by (cases r) auto
  finally show "r \<in> set (rows (ins k v m)) \<longleftrightarrow> r \<in> insert (k, v) {r \<in> set (rows m). fst r \<noteq> k}" .
qed

text \<open>Removing a list of keys leaves the other rows as they were.\<close>

lemma get_del_all:
  "wf m \<Longrightarrow> wf (fold del ks m) \<and>
     get (fold del ks m) j = (if j \<in> set ks then None else get m j)"
proof (induction ks arbitrary: m)
  case (Cons k ks)
  then show ?case using Cons.IH [OF wf_del [OF Cons.prems, of k]] by (simp add: get_del)
qed simp

lemma ins_same_wf: "wf m \<Longrightarrow> get m k = Some v \<Longrightarrow> get (ins k v m) = get m"
  by (rule ext) (simp add: get_ins)

end

interpretation bt: ordered_map bt_get bt_insert bt_remove "\<lambda>m. m" bt_wf
  by unfold_locales
    (auto simp: bt_get_Some bt_insert_get bt_remove_get bt_insert_wf bt_remove_wf, simp add: bt_wf_def)

section \<open>Lists and options\<close>

lemma filter_eq_Nil_iff: "filter P xs = [] \<longleftrightarrow> (\<forall>x\<in>set xs. \<not> P x)"
  by (simp add: filter_empty_conv)

lemma find_Some_set: "find P xs = Some x \<Longrightarrow> x \<in> set xs \<and> P x"
  by (auto simp: find_Some_iff)

lemma find_None_all: "find P xs = None \<Longrightarrow> x \<in> set xs \<Longrightarrow> \<not> P x"
  by (auto simp: find_None_iff)

lemma in_map_filter: "y \<in> set (List.map_filter f xs) \<longleftrightarrow> (\<exists>x\<in>set xs. f x = Some y)"
  by (induction xs) (auto split: option.splits)

lemma map_sum_Inr: "map_sum f g x = Inr y \<longleftrightarrow> (\<exists>z. x = Inr z \<and> y = g z)"
  by (cases x) auto

end
