(* ===== verification/Lock_Model.thy ===== *)
theory Lock_Model
  imports DK_Prelude
begin

text \<open>
  The advisory lock registry of \<open>crates/devkit-locks/src/model.rs\<close>: who holds which path under
  which project root, and the operations on the table of rows.

  \<open>LockEntry\<close>, \<open>LockData\<close> (the source's \<open>Data\<close>) and the outcome types follow the structs; the
  table is the \<open>BTreeMap\<close> of the prelude. A liveness probe (\<open>pid_alive\<close>, a system call) is the
  argument \<open>alive\<close>, and the clock the argument \<open>now\<close>: within one operation the operating system is
  assumed to answer each probe the same way. The claims of a table are its
  \<open>(root, path, holder)\<close> triples; \<open>exclusive\<close> is the registry's safety property: no two rows of
  one root overlap unless their holders are on one session line.
\<close>

section \<open>Data\<close>

record LockEntry =
  le_path :: string
  le_root :: string
  le_holder :: string
  le_pid :: "u32 option"
  le_note :: "string option"
  le_ts :: u64
  le_ttl :: u64

record LockData =
  ld_version :: u32
  ld_locks :: "(string, LockEntry) btree"

record Acquired =
  aq_path :: string
  aq_ttl_secs :: u64

record AlreadyHeld =
  ah_path :: string
  ah_ttl_secs :: u64

datatype RefusedBecause = SameSessionLine | OtherSession

record Refusal =
  rf_path :: string
  rf_held_by :: string
  rf_reason :: RefusedBecause

record Conflict =
  cf_path :: string
  cf_held_by :: string
  cf_age_secs :: u64
  cf_note :: "string option"

datatype WriteDecision = WriteAcquired | AllowedByOwnership | Denied "Conflict list"

record AcquireOutcome =
  ao_acquired :: "Acquired list"
  ao_already_held :: "AlreadyHeld list"
  ao_conflicts :: "Conflict list"

section \<open>Paths and holders\<close>

definition key_for :: "string \<Rightarrow> string \<Rightarrow> string" where
  "key_for root path = root @ [CHR 0x00] @ path"

definition paths_overlap :: "string \<Rightarrow> string \<Rightarrow> bool" where
  "paths_overlap a b =
     (if a = b \<or> a = ''.'' \<or> b = ''.'' then True
      else let (short, long) = (if length a \<le> length b then (a, b) else (b, a))
           in slash_below short long)"

definition is_ancestor_or_self :: "string \<Rightarrow> string \<Rightarrow> bool" where
  "is_ancestor_or_self existing writer \<longleftrightarrow> existing = writer \<or> slash_below existing writer"

definition on_one_ancestry_line :: "string \<Rightarrow> string \<Rightarrow> bool" where
  "on_one_ancestry_line a b \<longleftrightarrow> is_ancestor_or_self a b \<or> is_ancestor_or_self b a"

definition covers_children :: "string \<Rightarrow> string \<Rightarrow> bool" where
  "covers_children claim dir \<longleftrightarrow> claim = ''.'' \<or> claim = dir \<or> slash_below claim dir"

section \<open>Operations\<close>

definition entry_dead :: "(u32 \<Rightarrow> bool) \<Rightarrow> LockEntry \<Rightarrow> u64 \<Rightarrow> bool" where
  "entry_dead alive e now =
     (if le_ttl e \<noteq> 0 \<and> sat_sub now (le_ts e) \<ge> le_ttl e then True
      else case le_pid e of Some pid \<Rightarrow> \<not> alive pid | None \<Rightarrow> False)"

definition prune_dead :: "(u32 \<Rightarrow> bool) \<Rightarrow> u64 \<Rightarrow> LockData \<Rightarrow> nat \<times> LockData" where
  "prune_dead alive now d =
     (let before = length (ld_locks d);
          locks = bt_retain (\<lambda>_ e. \<not> entry_dead alive e now) (ld_locks d)
      in (before - length locks, d\<lparr>ld_locks := locks\<rparr>))"

definition check :: "(u32 \<Rightarrow> bool) \<Rightarrow> LockData \<Rightarrow> string \<Rightarrow> string list \<Rightarrow> string \<Rightarrow> u64 \<Rightarrow> Conflict list"
  where
  "check alive d root paths holder now =
     concat (map (\<lambda>req.
       map (\<lambda>e. \<lparr>cf_path = req, cf_held_by = le_holder e,
                 cf_age_secs = sat_sub now (le_ts e), cf_note = le_note e\<rparr>)
         (filter (\<lambda>e. le_root e = root
              \<and> \<not> on_one_ancestry_line (le_holder e) holder
              \<and> \<not> entry_dead alive e now
              \<and> paths_overlap (le_path e) req)
            (bt_values (ld_locks d)))) paths)"

definition check_covering ::
  "(u32 \<Rightarrow> bool) \<Rightarrow> LockData \<Rightarrow> string \<Rightarrow> string list \<Rightarrow> string \<Rightarrow> u64 \<Rightarrow> Conflict list" where
  "check_covering alive d root dirs holder now =
     concat (map (\<lambda>dir.
       map (\<lambda>e. \<lparr>cf_path = le_path e, cf_held_by = le_holder e,
                 cf_age_secs = sat_sub now (le_ts e), cf_note = le_note e\<rparr>)
         (filter (\<lambda>e. le_root e = root
              \<and> \<not> on_one_ancestry_line (le_holder e) holder
              \<and> \<not> entry_dead alive e now
              \<and> covers_children (le_path e) dir)
            (bt_values (ld_locks d)))) dirs)"

text \<open>
  The loop of \<open>try_acquire\<close> over the requested paths, threading the table; it returns the new
  table, the rows taken and the rows found already held.
\<close>

fun acquire_rows ::
  "(u32 \<Rightarrow> bool) \<Rightarrow> string \<Rightarrow> string \<Rightarrow> u32 option \<Rightarrow> string option \<Rightarrow> u64 \<Rightarrow> u64 \<Rightarrow>
   (string, LockEntry) btree \<Rightarrow> string list \<Rightarrow>
   (string, LockEntry) btree \<times> Acquired list \<times> AlreadyHeld list" where
  "acquire_rows alive root holder pid note ttl now m [] = (m, [], [])"
| "acquire_rows alive root holder pid note ttl now m (req # reqs) =
     (let key = key_for root req in
      case bt_get m key of
        Some e \<Rightarrow>
          if le_holder e \<noteq> holder \<and> \<not> entry_dead alive e now
          then (let (m', acq, held) =
                  acquire_rows alive root holder pid note ttl now
                    (bt_insert key (e\<lparr>le_ts := now\<rparr>) m) reqs
                in (m', acq, \<lparr>ah_path = req, ah_ttl_secs = le_ttl e\<rparr> # held))
          else (let (m', acq, held) =
                  acquire_rows alive root holder pid note ttl now
                    (bt_insert key \<lparr>le_path = req, le_root = root, le_holder = holder, le_pid = pid,
                       le_note = note, le_ts = now, le_ttl = ttl\<rparr> m) reqs
                in (m', \<lparr>aq_path = req, aq_ttl_secs = ttl\<rparr> # acq, held))
      | None \<Rightarrow>
          (let (m', acq, held) =
             acquire_rows alive root holder pid note ttl now
               (bt_insert key \<lparr>le_path = req, le_root = root, le_holder = holder, le_pid = pid,
                  le_note = note, le_ts = now, le_ttl = ttl\<rparr> m) reqs
           in (m', \<lparr>aq_path = req, aq_ttl_secs = ttl\<rparr> # acq, held)))"

definition try_acquire ::
  "(u32 \<Rightarrow> bool) \<Rightarrow> LockData \<Rightarrow> string \<Rightarrow> string list \<Rightarrow> string \<Rightarrow> u32 option \<Rightarrow> string option \<Rightarrow>
   u64 \<Rightarrow> u64 \<Rightarrow> AcquireOutcome \<times> LockData" where
  "try_acquire alive d root paths holder pid note ttl now =
     (let conflicts = check alive d root paths holder now in
      if conflicts \<noteq> []
      then (\<lparr>ao_acquired = [], ao_already_held = [], ao_conflicts = conflicts\<rparr>, d)
      else let (m, acq, held) =
             acquire_rows alive root holder pid note ttl now (ld_locks d) paths
           in (\<lparr>ao_acquired = acq, ao_already_held = held, ao_conflicts = []\<rparr>, d\<lparr>ld_locks := m\<rparr>))"

fun release_rows ::
  "string \<Rightarrow> string \<Rightarrow> bool \<Rightarrow> (string, LockEntry) btree \<Rightarrow> string list \<Rightarrow>
   (string, LockEntry) btree \<times> string list \<times> Refusal list" where
  "release_rows root holder force m [] = (m, [], [])"
| "release_rows root holder force m (req # reqs) =
     (let key = key_for root req in
      case bt_get m key of
        Some e \<Rightarrow>
          if le_holder e = holder \<or> force
          then (let (m', released, refused) =
                  release_rows root holder force (bt_remove key m) reqs
                in (m', req # released, refused))
          else (let (m', released, refused) = release_rows root holder force m reqs
                in (m', released,
                    \<lparr>rf_path = req, rf_held_by = le_holder e,
                     rf_reason = (if on_one_ancestry_line (le_holder e) holder
                                  then SameSessionLine else OtherSession)\<rparr> # refused))
      | None \<Rightarrow> release_rows root holder force m reqs)"

definition do_release ::
  "LockData \<Rightarrow> string \<Rightarrow> string list \<Rightarrow> string \<Rightarrow> bool \<Rightarrow> (string list \<times> Refusal list) \<times> LockData" where
  "do_release d root paths holder force =
     (let (m, released, refused) = release_rows root holder force (ld_locks d) paths
      in ((released, refused), d\<lparr>ld_locks := m\<rparr>))"

definition dead_keys :: "(u32 \<Rightarrow> bool) \<Rightarrow> LockData \<Rightarrow> u64 \<Rightarrow> string list" where
  "dead_keys alive d now =
     map fst (filter (\<lambda>row. entry_dead alive (snd row) now) (ld_locks d))"

definition release_all :: "LockData \<Rightarrow> string \<Rightarrow> string list \<times> LockData" where
  "release_all d holder =
     (map le_path (filter (\<lambda>e. le_holder e = holder) (bt_values (ld_locks d))),
      d\<lparr>ld_locks := bt_retain (\<lambda>_ e. le_holder e \<noteq> holder) (ld_locks d)\<rparr>)"

definition write_blockers ::
  "(u32 \<Rightarrow> bool) \<Rightarrow> LockData \<Rightarrow> string \<Rightarrow> string \<Rightarrow> string \<Rightarrow> u64 \<Rightarrow> Conflict list" where
  "write_blockers alive d root path writer now =
     map (\<lambda>e. \<lparr>cf_path = path, cf_held_by = le_holder e,
               cf_age_secs = sat_sub now (le_ts e), cf_note = le_note e\<rparr>)
       (filter (\<lambda>e. le_root e = root
            \<and> \<not> entry_dead alive e now
            \<and> paths_overlap (le_path e) path
            \<and> \<not> is_ancestor_or_self (le_holder e) writer)
          (bt_values (ld_locks d)))"

definition decide_write ::
  "(u32 \<Rightarrow> bool) \<Rightarrow> LockData \<Rightarrow> string \<Rightarrow> string \<Rightarrow> string \<Rightarrow> u32 option \<Rightarrow> string option \<Rightarrow>
   u64 \<Rightarrow> u64 \<Rightarrow> WriteDecision \<times> LockData" where
  "decide_write alive d root path writer pid note ttl now =
     (let blockers = write_blockers alive d root path writer now in
      if blockers \<noteq> [] then (Denied blockers, d)
      else
        let touched = (\<lambda>e. le_root e = root \<and> \<not> entry_dead alive e now
                          \<and> paths_overlap (le_path e) path);
            covered = list_ex (\<lambda>e. touched e \<and> covers_children (le_path e) path)
                        (bt_values (ld_locks d));
            locks = bt_map_values (\<lambda>e. if touched e then e\<lparr>le_ts := now\<rparr> else e) (ld_locks d)
        in if covered then (AllowedByOwnership, d\<lparr>ld_locks := locks\<rparr>)
           else (WriteAcquired,
                 d\<lparr>ld_locks := bt_insert (key_for root path)
                     \<lparr>le_path = path, le_root = root, le_holder = writer, le_pid = pid,
                      le_note = note, le_ts = now, le_ttl = ttl\<rparr> locks\<rparr>))"

definition release_prefix :: "LockData \<Rightarrow> string \<Rightarrow> string list \<times> LockData" where
  "release_prefix d pre =
     (let matching = map (\<lambda>row. (fst row, le_path (snd row)))
            (filter (\<lambda>row. is_ancestor_or_self pre (le_holder (snd row))) (ld_locks d))
      in (map snd matching,
          d\<lparr>ld_locks := fold bt_remove (map fst matching) (ld_locks d)\<rparr>))"

section \<open>Paths and holders: the component view\<close>

abbreviation components :: "string \<Rightarrow> string list" where
  "components \<equiv> split_on (CHR ''/'')"

lemma ancestor_prefix:
  "is_ancestor_or_self a b \<longleftrightarrow> prefix (components a) (components b)"
  by (auto simp: is_ancestor_or_self_def slash_below_split split_on_eq_iff
      prefix_order.le_less)

lemma ancestor_refl [simp]: "is_ancestor_or_self a a"
  by (simp add: is_ancestor_or_self_def)

lemma ancestor_trans:
  "is_ancestor_or_self a b \<Longrightarrow> is_ancestor_or_self b c \<Longrightarrow> is_ancestor_or_self a c"
  by (auto simp: ancestor_prefix)

lemma line_refl [simp]: "on_one_ancestry_line a a"
  by (simp add: on_one_ancestry_line_def)

lemma line_sym: "on_one_ancestry_line a b = on_one_ancestry_line b a"
  by (auto simp: on_one_ancestry_line_def)

lemma slash_below_length: "slash_below a b \<Longrightarrow> length a < length b"
  by (auto simp: slash_below_iff)

lemma overlap_iff:
  "paths_overlap a b \<longleftrightarrow> a = ''.'' \<or> b = ''.'' \<or> on_one_ancestry_line a b"
  using slash_below_length [of a b] slash_below_length [of b a]
  by (auto simp: paths_overlap_def on_one_ancestry_line_def is_ancestor_or_self_def)

lemma overlap_sym: "paths_overlap a b = paths_overlap b a"
  by (auto simp: overlap_iff line_sym)

lemma overlap_refl [simp]: "paths_overlap a a"
  by (simp add: paths_overlap_def)

lemma covers_overlap: "covers_children claim dir \<Longrightarrow> paths_overlap claim dir"
  by (auto simp: covers_children_def overlap_iff on_one_ancestry_line_def is_ancestor_or_self_def)

section \<open>Well-formed tables and exclusion\<close>

definition lock_wf :: "(string, LockEntry) btree \<Rightarrow> bool" where
  "lock_wf m \<longleftrightarrow> bt_wf m \<and> (\<forall>(k, e)\<in>set m. k = key_for (le_root e) (le_path e))"

definition claims :: "(string, LockEntry) btree \<Rightarrow> (string \<times> string \<times> string) set" where
  "claims m = (\<lambda>e. (le_root e, le_path e, le_holder e)) ` snd ` set m"

definition compatible :: "string \<times> string \<times> string \<Rightarrow> string \<times> string \<times> string \<Rightarrow> bool" where
  "compatible c1 c2 \<longleftrightarrow>
     (fst c1 = fst c2 \<and> paths_overlap (fst (snd c1)) (fst (snd c2)) \<longrightarrow>
        on_one_ancestry_line (snd (snd c1)) (snd (snd c2)))"

definition exclusive :: "(string \<times> string \<times> string) set \<Rightarrow> bool" where
  "exclusive C \<longleftrightarrow> (\<forall>c1\<in>C. \<forall>c2\<in>C. compatible c1 c2)"

definition lock_inv :: "LockData \<Rightarrow> bool" where
  "lock_inv d \<longleftrightarrow> lock_wf (ld_locks d) \<and> exclusive (claims (ld_locks d))"

lemma compatible_sym: "compatible c1 c2 = compatible c2 c1"
  by (auto simp: compatible_def overlap_sym line_sym)

lemma exclusive_mono: "exclusive D \<Longrightarrow> C \<subseteq> D \<Longrightarrow> exclusive C"
  by (auto simp: exclusive_def)

lemma exclusive_insert:
  "exclusive C \<Longrightarrow> (\<And>c'. c' \<in> C \<Longrightarrow> compatible c c') \<Longrightarrow> exclusive (insert c C)"
proof -
  assume "exclusive C" and c: "\<And>c'. c' \<in> C \<Longrightarrow> compatible c c'"
  moreover have "compatible c c" by (simp add: compatible_def)
  ultimately show ?thesis
    by (auto simp: exclusive_def dest: compatible_sym [THEN iffD1] c)
qed

lemma lock_wf_bt: "lock_wf m \<Longrightarrow> bt_wf m"
  by (simp add: lock_wf_def)

lemma lock_wf_filter: "lock_wf m \<Longrightarrow> lock_wf (filter P m)"
  by (auto simp: lock_wf_def bt_filter_wf)

lemma lock_wf_insert:
  "lock_wf m \<Longrightarrow> k = key_for (le_root e) (le_path e) \<Longrightarrow> lock_wf (bt_insert k e m)"
  by (auto simp: lock_wf_def bt_insert_wf bt_insert_set)

lemma lock_wf_get:
  "lock_wf m \<Longrightarrow> bt_get m k = Some e \<Longrightarrow> k = key_for (le_root e) (le_path e)"
  by (auto simp: lock_wf_def dest!: bt_get_in_set)

lemma claims_filter: "claims (filter P m) \<subseteq> claims m"
  by (auto simp: claims_def)

lemma claims_insert:
  "bt_wf m \<Longrightarrow>
   claims (bt_insert k e m) \<subseteq> insert (le_root e, le_path e, le_holder e) (claims m)"
  by (auto simp: claims_def bt_insert_set image_iff)

lemma claims_renew:
  "bt_wf m \<Longrightarrow> bt_get m k = Some e \<Longrightarrow> claims (bt_insert k (e\<lparr>le_ts := t\<rparr>) m) \<subseteq> claims m"
  by (force simp: claims_def bt_insert_set dest: bt_get_in_set)

lemma claims_map_values:
  "(\<And>e. (le_root (f e), le_path (f e), le_holder (f e)) = (le_root e, le_path e, le_holder e)) \<Longrightarrow>
   claims (bt_map_values f m) = claims m"
  by (simp add: claims_def bt_map_values_def image_image)

lemma lock_wf_map_values:
  "(\<And>e. le_root (f e) = le_root e \<and> le_path (f e) = le_path e) \<Longrightarrow>
   lock_wf m \<Longrightarrow> lock_wf (bt_map_values f m)"
  by (auto simp: lock_wf_def bt_map_values_wf) (auto simp: bt_map_values_def)

lemma lock_inv_filter:
  "lock_inv d \<Longrightarrow> lock_inv (d\<lparr>ld_locks := filter P (ld_locks d)\<rparr>)"
  by (auto simp: lock_inv_def lock_wf_filter intro: exclusive_mono [OF _ claims_filter])

end
