(* ===== verification/Lock_Safety.thy ===== *)
theory Lock_Safety
  imports Lock_Model
begin

text \<open>
  What the operations of \<^theory_text>\<open>Lock_Model\<close> do to a table: each keeps the invariant \<open>lock_inv\<close> (the
  ones that take rows after the dead ones are pruned), and its outcome says what it did on every
  branch. The last section states the properties of single operations.
\<close>

section \<open>Pruning\<close>

definition all_live :: "(u32 \<Rightarrow> bool) \<Rightarrow> u64 \<Rightarrow> LockData \<Rightarrow> bool" where
  "all_live alive now d \<longleftrightarrow> (\<forall>e\<in>snd ` set (ld_locks d). \<not> entry_dead alive e now)"

lemma prune_dead_eq:
  "snd (prune_dead alive now d) =
     d\<lparr>ld_locks := filter (\<lambda>row. \<not> entry_dead alive (snd row) now) (ld_locks d)\<rparr>"
  by (simp add: prune_dead_def Let_def bt_retain_def)

lemma prune_dead_inv: "lock_inv d \<Longrightarrow> lock_inv (snd (prune_dead alive now d))"
  by (simp add: prune_dead_eq lock_inv_filter)

lemma prune_dead_live: "all_live alive now (snd (prune_dead alive now d))"
  by (auto simp: prune_dead_eq all_live_def)

lemma prune_dead_rows:
  "set (ld_locks (snd (prune_dead alive now d))) =
     {row \<in> set (ld_locks d). \<not> entry_dead alive (snd row) now}"
  by (auto simp: prune_dead_eq)

lemma prune_dead_count: "fst (prune_dead alive now d) = length (dead_keys alive d now)"
  using sum_length_filter_compl [of "\<lambda>row. entry_dead alive (snd row) now" "ld_locks d"]
  by (simp add: prune_dead_def Let_def bt_retain_def dead_keys_def)

lemma fresh_row_live:
  assumes "case pid of Some p \<Rightarrow> alive p | None \<Rightarrow> True"
  shows "\<not> entry_dead alive
     \<lparr>le_path = p, le_root = r, le_holder = h, le_pid = pid, le_note = n, le_ts = now, le_ttl = ttl\<rparr> now"
  using assms by (auto simp: entry_dead_def split: option.splits)

lemma renewed_row_live: "\<not> entry_dead alive e now \<Longrightarrow> \<not> entry_dead alive (e\<lparr>le_ts := now\<rparr>) now"
  by (auto simp: entry_dead_def split: if_splits option.splits)

section \<open>Conflicts\<close>

lemma check_Nil_iff:
  "check alive d root paths holder now = [] \<longleftrightarrow>
     (\<forall>req\<in>set paths. \<forall>e\<in>snd ` set (ld_locks d).
        le_root e = root \<and> \<not> entry_dead alive e now \<and> paths_overlap (le_path e) req \<longrightarrow>
          on_one_ancestry_line (le_holder e) holder)"
  by (auto simp: check_def filter_eq_Nil_iff)

lemma check_mem:
  "c \<in> set (check alive d root paths holder now) \<longleftrightarrow>
     (\<exists>e\<in>snd ` set (ld_locks d). cf_path c \<in> set paths \<and> le_root e = root
        \<and> \<not> on_one_ancestry_line (le_holder e) holder \<and> \<not> entry_dead alive e now
        \<and> paths_overlap (le_path e) (cf_path c)
        \<and> cf_held_by c = le_holder e \<and> cf_age_secs c = sat_sub now (le_ts e)
        \<and> cf_note c = le_note e)"
  by (auto simp: check_def image_iff) force+

lemma blockers_Nil_iff:
  "write_blockers alive d root path writer now = [] \<longleftrightarrow>
     (\<forall>e\<in>snd ` set (ld_locks d).
        le_root e = root \<and> \<not> entry_dead alive e now \<and> paths_overlap (le_path e) path \<longrightarrow>
          is_ancestor_or_self (le_holder e) writer)"
  by (auto simp: write_blockers_def filter_eq_Nil_iff)

lemma blockers_mem:
  "c \<in> set (write_blockers alive d root path writer now) \<Longrightarrow>
     \<exists>e\<in>snd ` set (ld_locks d). le_root e = root \<and> \<not> entry_dead alive e now
        \<and> paths_overlap (le_path e) path \<and> \<not> is_ancestor_or_self (le_holder e) writer
        \<and> cf_held_by c = le_holder e"
  by (auto simp: write_blockers_def)

section \<open>Acquiring\<close>

text \<open>What the loop of \<open>try_acquire\<close> keeps: the requests stay compatible with every row.\<close>

definition acquirable :: "string \<Rightarrow> string list \<Rightarrow> string \<Rightarrow> (string, LockEntry) btree \<Rightarrow> bool" where
  "acquirable root paths holder m \<longleftrightarrow>
     lock_wf m \<and> exclusive (claims m) \<and>
     (\<forall>req\<in>set paths. \<forall>c\<in>claims m. compatible (root, req, holder) c)"

lemma acquirable_insert:
  assumes "acquirable root paths holder m" and "req \<in> set paths"
    and "le_root e = root" "le_path e = req" "le_holder e = holder"
  shows "acquirable root paths holder (bt_insert (key_for root req) e m)"
proof -
  have m: "lock_wf m" "exclusive (claims m)"
    and c: "\<And>r c. r \<in> set paths \<Longrightarrow> c \<in> claims m \<Longrightarrow> compatible (root, r, holder) c"
    using assms(1) by (auto simp: acquirable_def)
  have sub: "claims (bt_insert (key_for root req) e m) \<subseteq> insert (root, req, holder) (claims m)"
    using claims_insert [OF lock_wf_bt [OF m(1)], of "key_for root req" e] assms by simp
  have "exclusive (insert (root, req, holder) (claims m))"
    by (rule exclusive_insert [OF m(2)]) (rule c [OF assms(2)])
  then have "exclusive (claims (bt_insert (key_for root req) e m))"
    using sub by (rule exclusive_mono)
  moreover have "compatible (root, r, holder) (root, req, holder)" for r
    by (simp add: compatible_def)
  ultimately show ?thesis
    using m sub c assms by (auto simp: acquirable_def lock_wf_insert)
qed

lemma acquirable_renew:
  assumes "acquirable root paths holder m" and "bt_get m k = Some e"
  shows "acquirable root paths holder (bt_insert k (e\<lparr>le_ts := t\<rparr>) m)"
proof -
  have wf: "lock_wf m" using assms(1) by (simp add: acquirable_def)
  have "claims (bt_insert k (e\<lparr>le_ts := t\<rparr>) m) \<subseteq> claims m"
    using lock_wf_bt [OF wf] assms(2) by (rule claims_renew)
  moreover have "lock_wf (bt_insert k (e\<lparr>le_ts := t\<rparr>) m)"
    using wf by (rule lock_wf_insert) (simp add: lock_wf_get [OF wf assms(2)])
  ultimately show ?thesis
    using assms(1) by (auto simp: acquirable_def intro: exclusive_mono)
qed

lemma acquire_rows_acquirable:
  "acquirable root paths holder m \<Longrightarrow> set reqs \<subseteq> set paths \<Longrightarrow>
   acquirable root paths holder (fst (acquire_rows alive root holder pid memo ttl now m reqs))"
proof (induction reqs arbitrary: m)
  case (Cons req reqs)
  then show ?case
    by (auto simp: Let_def acquirable_insert acquirable_renew split: option.splits prod.splits)
      (metis Cons.IH acquirable_insert acquirable_renew fst_conv LockEntry.select_convs(1-3))+
qed simp

lemma check_acquirable:
  assumes "lock_inv d" and "all_live alive now d"
    and "check alive d root paths holder now = []"
  shows "acquirable root paths holder (ld_locks d)"
  using assms
  by (auto simp: acquirable_def lock_inv_def compatible_def claims_def all_live_def check_Nil_iff
      overlap_sym line_sym)

text \<open>\<open>try_acquire\<close> on a pruned table keeps the invariant.\<close>

lemma try_acquire_inv:
  assumes "lock_inv d" and "all_live alive now d"
  shows "lock_inv (snd (try_acquire alive d root paths holder pid memo ttl now))"
proof (cases "check alive d root paths holder now = []")
  case True
  have "acquirable root paths holder
      (fst (acquire_rows alive root holder pid memo ttl now (ld_locks d) paths))"
    by (rule acquire_rows_acquirable [OF check_acquirable [OF assms True]]) simp
  with True show ?thesis
    by (auto simp: try_acquire_def Let_def acquirable_def lock_inv_def split: prod.splits)
next
  case False
  with assms show ?thesis by (simp add: try_acquire_def Let_def)
qed

text \<open>The loop accounts for every request: each is either taken or found already held.\<close>

lemma acquire_rows_get:
  assumes "acquire_rows alive root holder pid memo ttl now m reqs = (m', acq, held)"
    and "k \<notin> key_for root ` set reqs"
  shows "bt_get m' k = bt_get m k"
  using assms
proof (induction reqs arbitrary: m acq held)
  case (Cons req reqs)
  then show ?case
    by (auto simp: Let_def bt_insert_get split: option.splits prod.splits if_splits)
qed simp

lemma key_for_inj [simp]: "key_for root a = key_for root b \<longleftrightarrow> a = b"
  by (simp add: key_for_def)

lemma acquire_rows_accounts:
  assumes "acquire_rows alive root holder pid memo ttl now m reqs = (m', acq, held)"
  shows "set (map aq_path acq) \<union> set (map ah_path held) = set reqs
    \<and> length acq + length held = length reqs"
  using assms
proof (induction reqs arbitrary: m acq held)
  case (Cons req reqs)
  then show ?case
    by (auto simp: Let_def split: option.splits prod.splits if_splits) fastforce+
qed simp

text \<open>After the loop each requested path has a row, live, on the caller's line.\<close>

definition held_for :: "(u32 \<Rightarrow> bool) \<Rightarrow> u64 \<Rightarrow> string \<Rightarrow> string \<Rightarrow> (string, LockEntry) btree \<Rightarrow> string \<Rightarrow> bool"
  where
  "held_for alive now root holder m req \<longleftrightarrow>
     (\<exists>e. bt_get m (key_for root req) = Some e \<and> \<not> entry_dead alive e now \<and>
          le_ts e = now \<and> le_root e = root \<and> le_path e = req \<and>
          on_one_ancestry_line (le_holder e) holder)"

lemma lock_wf_get_row:
  assumes "lock_wf m" and "bt_get m (key_for root req) = Some e" and "le_root e = root"
  shows "le_path e = req"
  using lock_wf_get [OF assms(1,2)] assms(3) by simp

lemma acquire_rows_keeps_held:
  assumes "acquire_rows alive root holder pid memo ttl now m reqs = (m', acq, held)"
    and "held_for alive now root holder m req"
    and "case pid of Some p \<Rightarrow> alive p | None \<Rightarrow> True"
  shows "held_for alive now root holder m' req"
  using assms
proof (induction reqs arbitrary: m acq held)
  case (Cons r reqs)
  have step: "held_for alive now root holder
      (bt_insert (key_for root r) \<lparr>le_path = r, le_root = root, le_holder = holder, le_pid = pid,
         le_note = memo, le_ts = now, le_ttl = ttl\<rparr> m) req"
    using Cons.prems(2,3) by (auto simp: held_for_def bt_insert_get fresh_row_live)
  have renew: "held_for alive now root holder (bt_insert (key_for root r) (e\<lparr>le_ts := now\<rparr>) m) req"
    if "bt_get m (key_for root r) = Some e" "\<not> entry_dead alive e now" for e
    using Cons.prems(2) that by (auto simp: held_for_def bt_insert_get renewed_row_live)
  show ?case
    using Cons.prems(1) step renew Cons.IH [OF _ _ Cons.prems(3)]
    by (auto simp: Let_def split: option.splits prod.splits if_splits)
qed simp

definition nul_free :: "string \<Rightarrow> bool" where
  "nul_free s \<longleftrightarrow> CHR 0x00 \<notin> set s"

definition rows_nul_free :: "(string, LockEntry) btree \<Rightarrow> bool" where
  "rows_nul_free m \<longleftrightarrow> (\<forall>e\<in>snd ` set m. nul_free (le_root e))"

lemma key_for_nul_inj:
  assumes "nul_free r" and "nul_free r'"
  shows "key_for r p = key_for r' p' \<longleftrightarrow> r = r' \<and> p = p'"
proof -
  have "split_on (CHR 0x00) (key_for r p) = r # split_on (CHR 0x00) p"
      "split_on (CHR 0x00) (key_for r' p') = r' # split_on (CHR 0x00) p'"
    using assms by (simp_all add: key_for_def nul_free_def split_on_append_sep split_on_no_sep)
  then have "key_for r p = key_for r' p' \<Longrightarrow> r = r'" by auto
  then show ?thesis by auto
qed

lemma row_of_key:
  assumes "lock_wf m" "rows_nul_free m" "nul_free root" "bt_get m (key_for root req) = Some e"
  shows "le_root e = root \<and> le_path e = req"
proof -
  have "nul_free (le_root e)"
    using assms(2,4) by (force simp: rows_nul_free_def dest: bt_get_in_set)
  with lock_wf_get [OF assms(1,4)] assms(3) show ?thesis by (simp add: key_for_nul_inj)
qed

lemma rows_nul_free_insert:
  "bt_wf m \<Longrightarrow> rows_nul_free m \<Longrightarrow> nul_free (le_root e) \<Longrightarrow> rows_nul_free (bt_insert k e m)"
  by (auto simp: rows_nul_free_def bt_insert_set)

lemma kept_row_on_line:
  assumes "acquirable root paths holder m" "req \<in> set paths" "(k, e) \<in> set m"
    and "le_root e = root" "le_path e = req"
  shows "on_one_ancestry_line (le_holder e) holder"
proof -
  have "(root, req, le_holder e) \<in> claims m" using assms(3-5) by (force simp: claims_def)
  then have "compatible (root, req, holder) (root, req, le_holder e)"
    using assms(1,2) by (auto simp: acquirable_def)
  then show ?thesis by (simp add: compatible_def line_sym)
qed

lemma acquire_rows_holds:
  assumes "acquire_rows alive root holder pid memo ttl now m reqs = (m', acq, held)"
    and "acquirable root paths holder m" "set reqs \<subseteq> set paths"
    and "rows_nul_free m" "nul_free root"
    and "case pid of Some p \<Rightarrow> alive p | None \<Rightarrow> True"
  shows "\<forall>req\<in>set reqs. held_for alive now root holder m' req"
  using assms
proof (induction reqs arbitrary: m acq held)
  case (Cons r reqs)
  let ?new = "\<lparr>le_path = r, le_root = root, le_holder = holder, le_pid = pid,
         le_note = memo, le_ts = now, le_ttl = ttl\<rparr>"
  have wf: "lock_wf m" using Cons.prems(2) by (simp add: acquirable_def)
  have r: "r \<in> set paths" "set reqs \<subseteq> set paths" using Cons.prems(3) by auto
  have new: "held_for alive now root holder m' r \<and> (\<forall>req\<in>set reqs. held_for alive now root holder m' req)"
    if rec: "acquire_rows alive root holder pid memo ttl now (bt_insert (key_for root r) ?new m) reqs = (m', a, h)"
    for a h
  proof -
    have "acquirable root paths holder (bt_insert (key_for root r) ?new m)"
      using acquirable_insert [OF Cons.prems(2) r(1)] by simp
    moreover have "rows_nul_free (bt_insert (key_for root r) ?new m)"
      using Cons.prems(4,5) by (simp add: rows_nul_free_insert lock_wf_bt [OF wf])
    moreover have "held_for alive now root holder (bt_insert (key_for root r) ?new m) r"
      using Cons.prems(6) by (auto simp: held_for_def bt_insert_get fresh_row_live)
    ultimately show ?thesis
      using Cons.IH [OF rec _ r(2) _ Cons.prems(5,6)]
        acquire_rows_keeps_held [OF rec _ Cons.prems(6)] by blast
  qed
  have renew: "held_for alive now root holder m' r \<and> (\<forall>req\<in>set reqs. held_for alive now root holder m' req)"
    if rec: "acquire_rows alive root holder pid memo ttl now
        (bt_insert (key_for root r) (e\<lparr>le_ts := now\<rparr>) m) reqs = (m', a, h)"
      and e: "bt_get m (key_for root r) = Some e" "\<not> entry_dead alive e now" for a h e
  proof -
    have row: "le_root e = root \<and> le_path e = r"
      by (rule row_of_key [OF wf Cons.prems(4,5) e(1)])
    have line: "on_one_ancestry_line (le_holder e) holder"
      using kept_row_on_line [OF Cons.prems(2) r(1) bt_get_in_set [OF e(1)]] row by simp
    have "acquirable root paths holder (bt_insert (key_for root r) (e\<lparr>le_ts := now\<rparr>) m)"
      using Cons.prems(2) e(1) by (rule acquirable_renew)
    moreover have "rows_nul_free (bt_insert (key_for root r) (e\<lparr>le_ts := now\<rparr>) m)"
      using Cons.prems(4,5) row by (simp add: rows_nul_free_insert lock_wf_bt [OF wf])
    moreover have "held_for alive now root holder (bt_insert (key_for root r) (e\<lparr>le_ts := now\<rparr>) m) r"
      using row line renewed_row_live [OF e(2)] by (auto simp: held_for_def bt_insert_get)
    ultimately show ?thesis
      using Cons.IH [OF rec _ r(2) _ Cons.prems(5,6)]
        acquire_rows_keeps_held [OF rec _ Cons.prems(6)] by blast
  qed
  show ?case
    using Cons.prems(1) new renew
    by (auto simp: Let_def split: option.splits prod.splits if_splits)
qed simp

section \<open>Deciding a write\<close>

lemma decide_write_inv:
  assumes "lock_inv d" and "all_live alive now d"
  shows "lock_inv (snd (decide_write alive d root path writer pid memo ttl now))"
proof (cases "write_blockers alive d root path writer now = []")
  case True
  let ?touch = "\<lambda>e. if le_root e = root \<and> \<not> entry_dead alive e now \<and> paths_overlap (le_path e) path
      then e\<lparr>le_ts := now\<rparr> else e"
  let ?m = "bt_map_values ?touch (ld_locks d)"
  have m: "lock_wf ?m" "claims ?m = claims (ld_locks d)"
    using assms(1) by (auto simp: lock_inv_def intro!: lock_wf_map_values claims_map_values)
  have ok: "compatible (root, path, writer) c" if "c \<in> claims (ld_locks d)" for c
    using that True assms(2)
    by (auto simp: claims_def compatible_def blockers_Nil_iff all_live_def overlap_sym
        on_one_ancestry_line_def)
  have "exclusive (insert (root, path, writer) (claims ?m))"
    unfolding m(2) using assms(1) by (intro exclusive_insert ok) (auto simp: lock_inv_def)
  moreover have "claims (bt_insert (key_for root path)
      \<lparr>le_path = path, le_root = root, le_holder = writer, le_pid = pid,
       le_note = memo, le_ts = now, le_ttl = ttl\<rparr> ?m) \<subseteq> insert (root, path, writer) (claims ?m)"
    using claims_insert [OF lock_wf_bt [OF m(1)], of "key_for root path"
        "\<lparr>le_path = path, le_root = root, le_holder = writer, le_pid = pid,
          le_note = memo, le_ts = now, le_ttl = ttl\<rparr>"] by simp
  ultimately show ?thesis
    using True assms(1) m
    by (auto simp: decide_write_def Let_def lock_inv_def lock_wf_insert intro: exclusive_mono)
next
  case False
  with assms show ?thesis by (simp add: decide_write_def Let_def)
qed

section \<open>Releasing\<close>

lemma release_rows_wf: "bt_wf m \<Longrightarrow> bt_wf (fst (release_rows root holder force m reqs))"
  by (induction reqs arbitrary: m)
    (auto simp: Let_def case_prod_beta bt_remove_wf split: option.splits)

lemma release_rows_subset: "set (fst (release_rows root holder force m reqs)) \<subseteq> set m"
proof (induction reqs arbitrary: m)
  case (Cons r reqs)
  have "set (fst (release_rows root holder force (bt_remove (key_for root r) m) reqs)) \<subseteq> set m"
    using Cons.IH [of "bt_remove (key_for root r) m"] by auto
  with Cons.IH [of m] show ?case
    by (auto simp: Let_def case_prod_beta split: option.splits)
qed simp

lemma lock_wf_subset: "lock_wf m \<Longrightarrow> bt_wf m' \<Longrightarrow> set m' \<subseteq> set m \<Longrightarrow> lock_wf m'"
  by (auto simp: lock_wf_def)

lemma claims_subset: "set m' \<subseteq> set m \<Longrightarrow> claims m' \<subseteq> claims m"
  by (auto simp: claims_def)

lemma lock_inv_wf: "lock_inv d \<Longrightarrow> lock_wf (ld_locks d)"
  by (simp add: lock_inv_def)

lemma lock_inv_subset:
  "lock_inv d \<Longrightarrow> bt_wf m' \<Longrightarrow> set m' \<subseteq> set (ld_locks d) \<Longrightarrow> lock_inv (d\<lparr>ld_locks := m'\<rparr>)"
  by (auto simp: lock_inv_def intro: lock_wf_subset exclusive_mono [OF _ claims_subset])

lemma do_release_inv: "lock_inv d \<Longrightarrow> lock_inv (snd (do_release d root paths holder force))"
  by (simp add: do_release_def case_prod_beta lock_inv_subset release_rows_subset release_rows_wf
      lock_wf_bt lock_inv_wf)

lemma release_all_inv: "lock_inv d \<Longrightarrow> lock_inv (snd (release_all d holder))"
  by (simp add: release_all_def bt_retain_def lock_inv_filter)

lemma release_prefix_inv: "lock_inv d \<Longrightarrow> lock_inv (snd (release_prefix d pre))"
  by (auto simp: release_prefix_def Let_def bt_remove_all_set bt_remove_all_wf lock_wf_bt lock_inv_wf
      intro!: lock_inv_subset)

lemmas lock_inv_ops = prune_dead_inv try_acquire_inv decide_write_inv do_release_inv
  release_all_inv release_prefix_inv

section \<open>Properties of single operations\<close>

text \<open>
  Two paths overlap exactly when one is the project root, or the components of one are a
  prefix of the components of the other: the byte-wise test of the code is the component-wise
  ancestor test.
\<close>

theorem paths_overlap_components:
  "paths_overlap a b \<longleftrightarrow>
     a = ''.'' \<or> b = ''.'' \<or> prefix (components a) (components b) \<or> prefix (components b) (components a)"
  by (auto simp: overlap_iff on_one_ancestry_line_def ancestor_prefix)

text \<open>A name one component long, as a file created in a directory has.\<close>

definition fresh_name :: "string \<Rightarrow> bool" where
  "fresh_name n \<longleftrightarrow> n \<noteq> [] \<and> CHR ''/'' \<notin> set n \<and> n \<noteq> ''.''"

definition child_path :: "string \<Rightarrow> string \<Rightarrow> string" where
  "child_path dir n = (if dir = ''.'' then n else dir @ CHR ''/'' # n)"

lemma slash_below_child:
  assumes "CHR ''/'' \<notin> set n"
  shows "slash_below c (dir @ CHR ''/'' # n) \<longleftrightarrow> c = dir \<or> slash_below c dir"
proof -
  have "components (dir @ CHR ''/'' # n) = components dir @ [n]"
    using assms by (simp add: split_on_append_sep split_on_no_sep)
  then have "slash_below c (dir @ CHR ''/'' # n) \<longleftrightarrow> prefix (components c) (components dir)"
    by (auto simp: slash_below_split strict_prefix_def)
  then show ?thesis
    by (auto simp: slash_below_split split_on_eq_iff prefix_order.le_less)
qed

lemma not_slash_below_component: "CHR ''/'' \<notin> set n \<Longrightarrow> \<not> slash_below c n"
  by (auto simp: slash_below_iff)

lemma two_children:
  assumes "slash_below (d @ CHR ''/'' # n) c \<or> c = d @ CHR ''/'' # n"
    and "slash_below (d @ CHR ''/'' # n') c \<or> c = d @ CHR ''/'' # n'"
    and "CHR ''/'' \<notin> set n" "CHR ''/'' \<notin> set n'"
  shows "n = n'"
proof -
  have "prefix (components d @ [n]) (components c)" "prefix (components d @ [n']) (components c)"
    using assms
    by (auto simp: slash_below_split split_on_append_sep split_on_no_sep strict_prefix_def)
  then show ?thesis by (auto simp: prefix_def)
qed

lemma two_components:
  assumes "slash_below n c \<or> c = n" and "slash_below n' c \<or> c = n'"
    and "CHR ''/'' \<notin> set n" "CHR ''/'' \<notin> set n'"
  shows "n = n'"
proof -
  have "prefix [n] (components c)" "prefix [n'] (components c)"
    using assms by (auto simp: slash_below_split split_on_no_sep strict_prefix_def)
  then show ?thesis by (auto simp: prefix_def)
qed

lemma uncovered_child:
  assumes "\<not> covers_children claim dir"
  shows "\<not> paths_overlap claim (child_path dir ''a'') \<or> \<not> paths_overlap claim (child_path dir ''b'')"
proof (cases "dir = ''.''")
  case True
  then show ?thesis
    using assms two_components [of "''a''" claim "''b''"]
    by (auto simp: child_path_def covers_children_def overlap_iff on_one_ancestry_line_def
        is_ancestor_or_self_def not_slash_below_component)
next
  case False
  then show ?thesis
    using assms two_children [of dir "''a''" claim "''b''"]
    by (auto simp: child_path_def covers_children_def overlap_iff on_one_ancestry_line_def
        is_ancestor_or_self_def slash_below_child append_eq_Cons_conv)
qed

text \<open>
  A claim covers the children of a directory exactly when there is no fresh name under the
  directory that the claim does not overlap, so \<open>check_covering\<close> and the \<open>covered\<close> test of
  \<open>decide_write\<close> are the overlap test quantified over every file that could be created there.
\<close>

theorem covers_children_fresh:
  "covers_children claim dir \<longleftrightarrow>
     (\<nexists>n. fresh_name n \<and> \<not> paths_overlap claim (child_path dir n))"
proof
  assume "covers_children claim dir"
  then show "\<nexists>n. fresh_name n \<and> \<not> paths_overlap claim (child_path dir n)"
    by (auto simp: covers_children_def child_path_def fresh_name_def overlap_iff slash_below_child
        on_one_ancestry_line_def is_ancestor_or_self_def not_slash_below_component)
next
  have "fresh_name ''a'' \<and> fresh_name ''b''" by (simp add: fresh_name_def)
  then show "\<nexists>n. fresh_name n \<and> \<not> paths_overlap claim (child_path dir n) \<Longrightarrow> covers_children claim dir"
    using uncovered_child by blast
qed

text \<open>
  An acquire takes all the paths it asks for or none. A request that meets a conflict leaves
  the registry as it was and reports only conflicts; otherwise every requested path is accounted
  for, taken or already held, and no row of another key changes.
\<close>

theorem try_acquire_all_or_nothing:
  "case try_acquire alive d root paths holder pid memo ttl now of (out, d') \<Rightarrow>
     (if ao_conflicts out = []
      then set (map aq_path (ao_acquired out)) \<union> set (map ah_path (ao_already_held out)) = set paths
        \<and> length (ao_acquired out) + length (ao_already_held out) = length paths
        \<and> (\<forall>k\<in>- key_for root ` set paths. bt_get (ld_locks d') k = bt_get (ld_locks d) k)
      else d' = d \<and> ao_acquired out = [] \<and> ao_already_held out = [])"
proof (cases "check alive d root paths holder now = []")
  case True
  obtain m acq held where
    rows: "acquire_rows alive root holder pid memo ttl now (ld_locks d) paths = (m, acq, held)"
    by (metis prod_cases3)
  show ?thesis
    using acquire_rows_accounts [OF rows] acquire_rows_get [OF rows]
    by (simp add: try_acquire_def True rows)
next
  case False
  then show ?thesis by (simp add: try_acquire_def Let_def)
qed

theorem try_acquire_all_or_nothing_witness:
  "bt_get (ld_locks (snd (try_acquire (\<lambda>_. True) \<lparr>ld_version = 1, ld_locks = []\<rparr> ''/r'' [''a''] ''S'' None None 60 7)))
     (key_for ''/r'' ''b'') = None"
  using try_acquire_all_or_nothing
    [where alive = "\<lambda>_. True" and d = "\<lparr>ld_version = 1, ld_locks = []\<rparr>" and root = "''/r''"
      and paths = "[''a'']" and holder = "''S''" and pid = None and memo = None and ttl = 60 and now = 7]
  by (simp add: try_acquire_def check_def Let_def bt_get_def key_for_def)

text \<open>An acquire that met no conflict leaves a live row for each path, on the caller's line.\<close>

lemma try_acquire_grants:
  assumes "lock_inv d" and "all_live alive now d"
    and "rows_nul_free (ld_locks d)" and "nul_free root"
    and "case pid of Some p \<Rightarrow> alive p | None \<Rightarrow> True"
    and "try_acquire alive d root paths holder pid memo ttl now = (out, d')"
    and "ao_conflicts out = []"
  shows "\<forall>req\<in>set paths. held_for alive now root holder (ld_locks d') req"
proof -
  have ok: "check alive d root paths holder now = []"
    using assms(6,7) by (auto simp: try_acquire_def Let_def split: if_splits)
  obtain m acq held where
    rows: "acquire_rows alive root holder pid memo ttl now (ld_locks d) paths = (m, acq, held)"
    by (metis prod_cases3)
  have "ld_locks d' = m" using assms(6) by (auto simp: try_acquire_def ok rows)
  then show ?thesis
    using acquire_rows_holds [OF rows check_acquirable [OF assms(1,2) ok] subset_refl assms(3-5)]
    by simp
qed

text \<open>A sample table: \<open>S/a\<close> holds \<open>src\<close> of \<open>/r\<close> since 5, for a minute.\<close>

definition demo_row :: LockEntry where
  "demo_row = \<lparr>le_path = ''src'', le_root = ''/r'', le_holder = ''S/a'', le_pid = None, le_note = None,
     le_ts = 5, le_ttl = 60\<rparr>"

definition demo_locks :: LockData where
  "demo_locks = \<lparr>ld_version = 1, ld_locks = [(key_for ''/r'' ''src'', demo_row)]\<rparr>"

lemma demo_locks_ok:
  "lock_inv demo_locks" "all_live (\<lambda>_. True) 9 demo_locks" "rows_nul_free (ld_locks demo_locks)"
  by (auto simp: demo_locks_def demo_row_def lock_inv_def lock_wf_def bt_wf_def claims_def
      exclusive_def compatible_def all_live_def entry_dead_def sat_sub_def rows_nul_free_def nul_free_def)

lemma demo_line: "on_one_ancestry_line ''S/a'' ''S''" "\<not> on_one_ancestry_line ''S/a'' ''T''"
  by (simp_all add: on_one_ancestry_line_def is_ancestor_or_self_def slash_below_def)

text \<open>
  What one enforced write decides. A denial changes nothing and names only live rows that overlap
  the path and whose holder is no ancestor of the writer; ownership is granted only over a live
  row at or above the path whose holder is the writer or its ancestor, renewed now; otherwise the
  writer gets a row of its own.
\<close>

theorem decide_write_outcome:
  "case decide_write alive d root path writer pid memo ttl now of
     (Denied cs, d') \<Rightarrow> d' = d \<and> cs \<noteq> []
       \<and> (\<forall>c\<in>set cs. \<exists>e\<in>snd ` set (ld_locks d). le_root e = root \<and> \<not> entry_dead alive e now
            \<and> paths_overlap (le_path e) path \<and> \<not> is_ancestor_or_self (le_holder e) writer
            \<and> cf_held_by c = le_holder e)
   | (AllowedByOwnership, d') \<Rightarrow>
       (\<exists>e\<in>snd ` set (ld_locks d'). le_root e = root \<and> \<not> entry_dead alive e now \<and> le_ts e = now
            \<and> covers_children (le_path e) path \<and> is_ancestor_or_self (le_holder e) writer)
   | (WriteAcquired, d') \<Rightarrow>
       bt_get (ld_locks d') (key_for root path) =
         Some \<lparr>le_path = path, le_root = root, le_holder = writer, le_pid = pid, le_note = memo,
               le_ts = now, le_ttl = ttl\<rparr>"
proof (cases "write_blockers alive d root path writer now = []")
  case True
  let ?touched = "\<lambda>e. le_root e = root \<and> \<not> entry_dead alive e now \<and> paths_overlap (le_path e) path"
  let ?f = "\<lambda>e. if ?touched e then e\<lparr>le_ts := now\<rparr> else e"
  show ?thesis
  proof (cases "list_ex (\<lambda>e. ?touched e \<and> covers_children (le_path e) path) (bt_values (ld_locks d))")
    case covered: True
    then obtain e where e: "e \<in> snd ` set (ld_locks d)" "?touched e" "covers_children (le_path e) path"
      by (auto simp: list_ex_iff)
    have own: "is_ancestor_or_self (le_holder e) writer"
      using True e by (auto simp: blockers_Nil_iff)
    have "?f e \<in> snd ` set (bt_map_values ?f (ld_locks d))"
      unfolding bt_map_values_values using e(1) by (rule imageI)
    then have mem: "e\<lparr>le_ts := now\<rparr> \<in> snd ` set (bt_map_values ?f (ld_locks d))"
      using e(2) by simp
    have run: "decide_write alive d root path writer pid memo ttl now =
        (AllowedByOwnership, d\<lparr>ld_locks := bt_map_values ?f (ld_locks d)\<rparr>)"
      using True covered by (simp add: decide_write_def Let_def)
    have "\<exists>e\<in>snd ` set (bt_map_values ?f (ld_locks d)). le_root e = root \<and> \<not> entry_dead alive e now
        \<and> le_ts e = now \<and> covers_children (le_path e) path \<and> is_ancestor_or_self (le_holder e) writer"
      using e own renewed_row_live [of alive e now] by (intro bexI [OF _ mem]) simp
    then show ?thesis unfolding run by simp
  next
    case False
    then show ?thesis using True by (simp add: decide_write_def Let_def bt_insert_get)
  qed
next
  case False
  show ?thesis
  proof -
    have "\<forall>c\<in>set (write_blockers alive d root path writer now). \<exists>e\<in>snd ` set (ld_locks d).
        le_root e = root \<and> \<not> entry_dead alive e now \<and> paths_overlap (le_path e) path
        \<and> \<not> is_ancestor_or_self (le_holder e) writer \<and> cf_held_by c = le_holder e"
      by (intro ballI blockers_mem)
    with False show ?thesis by (simp only: decide_write_def Let_def if_True prod.case WriteDecision.case simp_thms)
  qed
qed

lemma demo_denied:
  "decide_write (\<lambda>_. True) demo_locks ''/r'' ''src/x'' ''T'' None None 30 9 =
     (Denied [\<lparr>cf_path = ''src/x'', cf_held_by = ''S/a'', cf_age_secs = 4, cf_note = None\<rparr>], demo_locks)"
  by (simp add: decide_write_def write_blockers_def demo_locks_def demo_row_def entry_dead_def sat_sub_def
      paths_overlap_def is_ancestor_or_self_def slash_below_def)

theorem decide_write_outcome_witness:
  "\<exists>e\<in>snd ` set (ld_locks demo_locks). paths_overlap (le_path e) ''src/x''
     \<and> \<not> is_ancestor_or_self (le_holder e) ''T'' \<and> le_holder e = ''S/a''"
  using decide_write_outcome [where alive = "\<lambda>_. True" and d = demo_locks and root = "''/r''"
      and path = "''src/x''" and writer = "''T''" and pid = None and memo = None and ttl = 30 and now = 9]
  unfolding demo_denied by auto

text \<open>The loop of \<open>release\<close>: which rows go and which requests are reported.\<close>

lemma release_rows_exact:
  assumes "bt_wf m" and "release_rows root holder force m reqs = (m', released, refused)"
  shows "set m' = {row \<in> set m. \<not> (fst row \<in> key_for root ` set reqs \<and> (le_holder (snd row) = holder \<or> force))}
    \<and> set released = {r \<in> set reqs. \<exists>e. bt_get m (key_for root r) = Some e \<and> (le_holder e = holder \<or> force)}
    \<and> set (map rf_path refused) =
        {r \<in> set reqs. \<exists>e. bt_get m (key_for root r) = Some e \<and> le_holder e \<noteq> holder \<and> \<not> force}"
  using assms
proof (induction reqs arbitrary: m released refused)
  case (Cons r reqs)
  note get = bt_get_Some [OF Cons.prems(1)]
  have uniq: "snd row = e" if "bt_get m (fst row) = Some e" "row \<in> set m" for row e
    using that get [of "fst row" "snd row"] by simp
  consider (free) "bt_get m (key_for root r) = None"
    | (own) e where "bt_get m (key_for root r) = Some e" "le_holder e = holder \<or> force"
    | (other) e where "bt_get m (key_for root r) = Some e" "\<not> (le_holder e = holder \<or> force)"
    by (cases "bt_get m (key_for root r)") auto
  then show ?case
  proof cases
    case free
    then have rec: "release_rows root holder force m reqs = (m', released, refused)"
      using Cons.prems(2) by (simp add: Let_def)
    have "\<forall>row\<in>set m. fst row \<noteq> key_for root r"
      using free by (force simp: bt_get_None)
    with Cons.IH [OF Cons.prems(1) rec] free show ?thesis by auto
  next
    case own
    obtain rel where
      rec: "release_rows root holder force (bt_remove (key_for root r) m) reqs = (m', rel, refused)"
      and rel: "released = r # rel"
      using Cons.prems(2) own by (auto simp: Let_def split: prod.splits)
    have "le_holder (snd row) = holder \<or> force" if "row \<in> set m" "fst row = key_for root r" for row
      using uniq [of row e] that own by simp
    with Cons.IH [OF bt_remove_wf [OF Cons.prems(1)] rec] own rel show ?thesis
      by (auto simp: bt_remove_get split: if_splits)
  next
    case other
    obtain ref rf where
      rec: "release_rows root holder force m reqs = (m', released, ref)"
      and ref: "refused = rf # ref" "rf_path rf = r"
      using Cons.prems(2) other by (auto simp: Let_def split: prod.splits)
    have "\<not> (le_holder (snd row) = holder \<or> force)" if "row \<in> set m" "fst row = key_for root r" for row
      using uniq [of row e] that other by simp
    with Cons.IH [OF Cons.prems(1) rec] other ref show ?thesis by auto
  qed
qed simp

text \<open>
  A release removes exactly the requested rows the caller holds, or every requested row under
  \<open>force\<close>; the other rows are untouched, and the two result lists are the requested paths
  with a row that was removed and with a row that was refused.
\<close>

theorem do_release_exact:
  assumes "bt_wf (ld_locks d)"
    and "do_release d root paths holder force = ((released, refused), d')"
  shows "set (ld_locks d') = {row \<in> set (ld_locks d).
            \<not> (fst row \<in> key_for root ` set paths \<and> (le_holder (snd row) = holder \<or> force))}
    \<and> set released = {r \<in> set paths. \<exists>e. bt_get (ld_locks d) (key_for root r) = Some e
                         \<and> (le_holder e = holder \<or> force)}
    \<and> set (map rf_path refused) = {r \<in> set paths. \<exists>e. bt_get (ld_locks d) (key_for root r) = Some e
                         \<and> le_holder e \<noteq> holder \<and> \<not> force}"
proof -
  obtain m where rows: "release_rows root holder force (ld_locks d) paths = (m, released, refused)"
    and "ld_locks d' = m"
    using assms(2) by (auto simp: do_release_def split: prod.splits)
  with release_rows_exact [OF assms(1) rows] show ?thesis by simp
qed

lemma demo_release:
  "do_release demo_locks ''/r'' [''src''] ''T'' False =
     (([], [\<lparr>rf_path = ''src'', rf_held_by = ''S/a'', rf_reason = OtherSession\<rparr>]), demo_locks)"
  by (simp add: do_release_def demo_locks_def demo_row_def bt_get_def demo_line)

theorem do_release_exact_witness:
  "set (ld_locks (snd (do_release demo_locks ''/r'' [''src''] ''T'' False))) = {(key_for ''/r'' ''src'', demo_row)}"
proof -
  have "set (ld_locks (snd (do_release demo_locks ''/r'' [''src''] ''T'' False))) = {row \<in> set (ld_locks demo_locks).
     \<not> (fst row \<in> key_for ''/r'' ` set [''src''] \<and> (le_holder (snd row) = ''T'' \<or> False))}"
    using do_release_exact [OF lock_wf_bt [OF lock_inv_wf [OF demo_locks_ok(1)]] demo_release, THEN conjunct1]
    unfolding demo_release snd_conv .
  moreover have "set (ld_locks demo_locks) = {(key_for ''/r'' ''src'', demo_row)}"
    by (simp add: demo_locks_def)
  moreover have "le_holder demo_row \<noteq> ''T''" by (simp add: demo_row_def)
  ultimately show ?thesis by auto
qed

text \<open>
  The lifecycle release of a session frees exactly the rows of the holder and of the agents below it, in
  every root, and the paths it reports are theirs.
\<close>

theorem release_prefix_exact:
  assumes "bt_wf (ld_locks d)" and "release_prefix d pre = (freed, d')"
  shows "set (ld_locks d') =
      {row \<in> set (ld_locks d). \<not> prefix (components pre) (components (le_holder (snd row)))}
    \<and> freed = map (le_path \<circ> snd) (filter (\<lambda>row. is_ancestor_or_self pre (le_holder (snd row))) (ld_locks d))"
proof -
  let ?P = "\<lambda>row. is_ancestor_or_self pre (le_holder (snd row))"
  have inj: "inj_on fst (set (ld_locks d))"
    using bt_wf_distinct [OF assms(1)] by (simp add: distinct_map)
  have d': "set (ld_locks d') = {row \<in> set (ld_locks d). fst row \<notin> fst ` {r \<in> set (ld_locks d). ?P r}}"
    using assms(2) by (clarsimp simp: release_prefix_def Let_def bt_remove_all_set comp_def)
  have freed: "freed = map (le_path \<circ> snd) (filter ?P (ld_locks d))"
    using assms(2) by (simp add: release_prefix_def Let_def comp_def split: prod.splits)
  have "fst row \<in> fst ` {r \<in> set (ld_locks d). ?P r} \<longleftrightarrow> ?P row" if "row \<in> set (ld_locks d)" for row
    using inj_on_image_mem_iff [OF inj that, of "{r \<in> set (ld_locks d). ?P r}"] that by auto
  with d' freed show ?thesis by (auto simp: ancestor_prefix)
qed

lemma demo_release_prefix:
  "release_prefix demo_locks ''S'' = ([''src''], demo_locks\<lparr>ld_locks := []\<rparr>)"
  by (simp add: release_prefix_def demo_locks_def demo_row_def is_ancestor_or_self_def slash_below_def
      bt_remove_def)

theorem release_prefix_exact_witness:
  "set (ld_locks (demo_locks\<lparr>ld_locks := []\<rparr>)) =
     {row \<in> set (ld_locks demo_locks). \<not> prefix (components ''S'') (components (le_holder (snd row)))}"
  using release_prefix_exact [OF lock_wf_bt [OF lock_inv_wf [OF demo_locks_ok(1)]] demo_release_prefix]
  by (rule conjunct1)

end
