(* ===== verification/Doc_Store.thy ===== *)
theory Doc_Store
  imports DK_Prelude "HOL-Library.AList"
begin

text \<open>
  The flock-guarded JSON document store of \<open>crates/devkit-common/src/store.rs\<close> and the two drivers
  of a registry: \<open>FlockStore\<close> (the file, behind the daemon's gate) and \<open>MemoryStore\<close> (the daemon's
  copy, written through), which \<open>devkit-locks\<close> and \<open>devkit-ports\<close> write out once each over their
  own \<open>Data\<close>.

  A file's content is the JSON value \<open>serde_json\<close> reads from its text, or one of the forms that is
  no JSON. Which system calls succeed is the argument \<open>io\<close>, so every \<open>?\<close> of the code is a branch.
  A payload type is a record \<open>document\<close>, the trait's methods with its serialised form. The locale
  \<open>document\<close> states that a document survives its round trip; the locale \<open>store\<close> is the contract of
  the \<open>Store\<close> trait, and both drivers are shown to keep it for every document.
\<close>

section \<open>JSON values\<close>

datatype json =
    JNull
  | JBool bool
  | JNum int
  | JFrac
  | JStr string
  | JArr "json list"
  | JObj "(string \<times> json) list"

text \<open>
  \<open>JFrac\<close> stands for a number that is no integer, which no reader here accepts. Reading text into
  a \<open>Value\<close> keeps the order of an object's keys and the last of the values a repeated key has.
\<close>

definition value_rows :: "(string \<times> json) list \<Rightarrow> (string \<times> json) list" where
  "value_rows kvs = fold (\<lambda>(k, v) m. AList.update k v m) kvs []"

definition value_get :: "json \<Rightarrow> string \<Rightarrow> json option" where
  "value_get j k = (case j of JObj kvs \<Rightarrow> map_of (value_rows kvs) k | _ \<Rightarrow> None)"

text \<open>
  A derived \<open>Deserialize\<close> reads a struct field by field: an unknown key is skipped, a repeated one
  is an error, and a missing one takes the field's default when it has one.
\<close>

datatype field_read = Missing | Found json | Repeated

definition struct_field :: "(string \<times> json) list \<Rightarrow> string \<Rightarrow> field_read" where
  "struct_field kvs k =
     (case filter (\<lambda>kv. fst kv = k) kvs of [] \<Rightarrow> Missing | [kv] \<Rightarrow> Found (snd kv) | _ \<Rightarrow> Repeated)"

definition read_field :: "(json \<Rightarrow> 'a option) \<Rightarrow> 'a option \<Rightarrow> (string \<times> json) list \<Rightarrow> string \<Rightarrow> 'a option"
  where
  "read_field rd dflt kvs k =
     (case struct_field kvs k of Missing \<Rightarrow> dflt | Found j \<Rightarrow> rd j | Repeated \<Rightarrow> None)"

text \<open>
  A derived struct reads from an object, or from an array of its fields in their order: what the array lacks at its end must have a
  default of its own (\<open>#[serde(default)]\<close>), and it has no more elements than the struct has fields.
\<close>

definition struct_rows :: "(string \<times> bool) list \<Rightarrow> json \<Rightarrow> (string \<times> json) list option" where
  "struct_rows fields j =
     (case j of
        JObj kvs \<Rightarrow> Some kvs
      | JArr js \<Rightarrow>
          if length js \<le> length fields \<and> list_all snd (drop (length js) fields) then Some (zip (map fst fields) js) else None
      | _ \<Rightarrow> None)"

lemma struct_rows_simps [simp]: "struct_rows fields (JObj kvs) = Some kvs" "struct_rows fields JNull = None"
  by (simp_all add: struct_rows_def)

fun of_str :: "json \<Rightarrow> string option" where
  "of_str (JStr s) = Some s"
| "of_str _ = None"

fun of_uint :: "json \<Rightarrow> ('a::len) word option" where
  "of_uint (JNum n) = (if 0 \<le> n \<and> n < 2 ^ LENGTH('a) then Some (word_of_int n) else None)"
| "of_uint _ = None"

fun of_option :: "(json \<Rightarrow> 'a option) \<Rightarrow> json \<Rightarrow> 'a option option" where
  "of_option rd JNull = Some None"
| "of_option rd j = map_option Some (rd j)"

definition to_uint :: "('a::len) word \<Rightarrow> json" where
  "to_uint w = JNum (uint w)"

definition to_option :: "('a \<Rightarrow> json) \<Rightarrow> 'a option \<Rightarrow> json" where
  "to_option f x = (case x of None \<Rightarrow> JNull | Some v \<Rightarrow> f v)"

lemma of_uint_to_uint [simp]: "of_uint (to_uint w) = Some (w :: 'a::len word)"
  by (simp add: to_uint_def)

lemma of_option_to_option:
  "(\<And>v. x = Some v \<Longrightarrow> rd (f v) = Some v \<and> f v \<noteq> JNull) \<Longrightarrow> of_option rd (to_option f x) = Some x"
  by (cases x; cases "f (the x)") (auto simp: to_option_def)

lemma of_option_uint [simp]: "of_option of_uint (to_option to_uint x) = Some x"
  by (rule of_option_to_option) (simp add: to_uint_def)

lemma of_option_str [simp]: "of_option of_str (to_option JStr x) = Some x"
  by (rule of_option_to_option) simp

text \<open>
  A map field: each key is read by \<open>rk\<close>, each value by \<open>rv\<close>; one unreadable entry fails the
  whole, and a repeated key keeps its last value.
\<close>

fun read_map :: "(string \<Rightarrow> 'k::linorder option) \<Rightarrow> (json \<Rightarrow> 'v option) \<Rightarrow> (string \<times> json) list \<Rightarrow>
    ('k, 'v) btree \<Rightarrow> ('k, 'v) btree option" where
  "read_map rk rv [] m = Some m"
| "read_map rk rv ((k, j) # kvs) m =
     (case (rk k, rv j) of (Some k', Some v) \<Rightarrow> read_map rk rv kvs (bt_insert k' v m) | _ \<Rightarrow> None)"

fun of_map :: "(string \<Rightarrow> 'k::linorder option) \<Rightarrow> (json \<Rightarrow> 'v option) \<Rightarrow> json \<Rightarrow> ('k, 'v) btree option" where
  "of_map rk rv (JObj kvs) = read_map rk rv kvs []"
| "of_map rk rv _ = None"

definition to_map :: "('k \<Rightarrow> string) \<Rightarrow> ('v \<Rightarrow> json) \<Rightarrow> ('k, 'v) btree \<Rightarrow> json" where
  "to_map wk wv m = JObj (map (\<lambda>row. (wk (fst row), wv (snd row))) m)"

lemma bt_insert_last:
  "(\<And>r. r \<in> set m \<Longrightarrow> fst r < k) \<Longrightarrow> bt_insert k v m = m @ [(k, v)]"
  by (induction m) auto

lemma read_map_append:
  assumes "bt_wf (acc @ m)"
    and "\<And>k v. (k, v) \<in> set m \<Longrightarrow> rk (wk k) = Some k \<and> rv (wv v) = Some v"
  shows "read_map rk rv (map (\<lambda>row. (wk (fst row), wv (snd row))) m) acc = Some (acc @ m)"
  using assms
proof (induction m arbitrary: acc)
  case (Cons row m)
  have "\<forall>r\<in>set acc. fst r < fst row"
    using Cons.prems(1) by (auto simp: bt_wf_def sorted_wrt_append)
  then have "bt_insert (fst row) (snd row) acc = acc @ [row]"
    by (simp add: bt_insert_last)
  moreover have "rk (wk (fst row)) = Some (fst row) \<and> rv (wv (snd row)) = Some (snd row)"
    using Cons.prems(2) [of "fst row" "snd row"] by simp
  moreover have "rk (wk k) = Some k \<and> rv (wv v) = Some v" if "(k, v) \<in> set m" for k v
    using Cons.prems(2) [of k v] that by simp
  ultimately show ?case
    using Cons.IH [of "acc @ [row]"] Cons.prems(1) by simp
qed simp

lemma of_map_to_map:
  assumes "bt_wf m"
    and "\<And>k v. (k, v) \<in> set m \<Longrightarrow> rk (wk k) = Some k \<and> rv (wv v) = Some v"
  shows "of_map rk rv (to_map wk wv m) = Some m"
  using read_map_append [of "[]" m rk wk rv wv] assms by (simp add: to_map_def)

lemma read_map_wf: "read_map rk rv kvs m = Some m' \<Longrightarrow> bt_wf m \<Longrightarrow> bt_wf m'"
  by (induction rk rv kvs m rule: read_map.induct) (auto split: option.splits intro: bt_insert_wf)

lemma of_map_wf: "of_map rk rv j = Some m \<Longrightarrow> bt_wf m"
  by (cases j) (auto intro: read_map_wf)

section \<open>Documents and the file\<close>

datatype content = Text json | NotJson | Blank | NotUtf8

record 'd document =
  doc_default :: 'd
  doc_stamp :: "'d \<Rightarrow> 'd"
  doc_salvage :: "content \<Rightarrow> 'd option"
  doc_of_json :: "json \<Rightarrow> 'd option"
  doc_to_json :: "'d \<Rightarrow> json"

definition salvage_map :: "content \<Rightarrow> string \<Rightarrow> (string \<Rightarrow> 'k::linorder option) \<Rightarrow> (json \<Rightarrow> 'v option) \<Rightarrow>
    ('k, 'v) btree option" where
  "salvage_map raw fld parse_key rv =
     (case raw of
        Text j \<Rightarrow>
          (case value_get j fld of
             Some (JObj kvs) \<Rightarrow>
               Some (fold (\<lambda>(k, val) out.
                       case (parse_key k, rv val) of (Some key, Some entry) \<Rightarrow> bt_insert key entry out
                       | _ \<Rightarrow> out) (value_rows kvs) [])
           | _ \<Rightarrow> None)
      | _ \<Rightarrow> None)"

lemma salvage_rows_wf:
  "bt_wf m \<Longrightarrow> bt_wf (fold (\<lambda>(k, val) out.
     case (rk k, rv val) of (Some key, Some entry) \<Rightarrow> bt_insert key entry out | _ \<Rightarrow> out) kvs m)"
  by (induction kvs arbitrary: m) (auto split: option.splits simp: bt_insert_wf)

lemma salvage_map_wf: "salvage_map raw fld rk rv = Some m \<Longrightarrow> bt_wf m"
  using salvage_rows_wf [OF bt_wf_Nil, of rk rv]
  by (auto simp: salvage_map_def split: content.splits option.splits json.splits)

lemma value_rows_distinct: "distinct (map fst (value_rows kvs))"
proof -
  have "distinct (map fst m) \<Longrightarrow> distinct (map fst (fold (\<lambda>(k, v) m. AList.update k v m) kvs m))" for m
    by (induction kvs arbitrary: m) (auto simp: distinct_update)
  then show ?thesis by (simp add: value_rows_def)
qed

lemma value_rows_of: "map_of (value_rows kvs) = map_of (rev kvs)"
proof -
  have "map_of (fold (\<lambda>(k, v) m. AList.update k v m) kvs m) = map_of m ++ map_of (rev kvs)" for m
    by (induction kvs arbitrary: m) (auto simp: update_conv' map_add_assoc [symmetric] fun_eq_iff map_add_def
        split: option.splits)
  then show ?thesis by (simp add: value_rows_def)
qed

lemma salvage_rows_get:
  assumes "bt_wf m" and "distinct (map fst kvs)"
  shows "bt_get (fold (\<lambda>(k, val) out.
      case (Some k, rv val) of (Some key, Some entry) \<Rightarrow> bt_insert key entry out | _ \<Rightarrow> out) kvs m) k =
    (case Option.bind (map_of kvs k) rv of Some e \<Rightarrow> Some e | None \<Rightarrow> bt_get m k)"
  using assms
proof (induction kvs arbitrary: m)
  case (Cons kv kvs)
  have "map_of kvs (fst kv) = None"
    using Cons.prems(2) by (auto simp: map_of_eq_None_iff)
  with Cons show ?case
    by (cases "rv (snd kv)") (auto simp: case_prod_beta bt_insert_get bt_insert_wf split: option.splits)
qed simp

text \<open>Salvaging under verbatim keys recovers exactly the entries that parse.\<close>

lemma salvage_map_get:
  assumes "value_get j fld = Some (JObj kvs)"
  obtains m where "salvage_map (Text j) fld Some rv = Some m"
    and "\<And>k. bt_get m k = Option.bind (map_of (rev kvs) k) rv"
proof
  let ?m = "fold (\<lambda>(k, val) out.
      case (Some k, rv val) of (Some key, Some entry) \<Rightarrow> bt_insert key entry out | _ \<Rightarrow> out) (value_rows kvs) []"
  show "salvage_map (Text j) fld Some rv = Some ?m"
    using assms by (simp add: salvage_map_def)
  show "bt_get ?m k = Option.bind (map_of (rev kvs) k) rv" for k
    using salvage_rows_get [OF bt_wf_Nil value_rows_distinct, of rv kvs k]
    by (simp add: value_rows_of bt_get_def split: option.split)
qed

record doc_fs =
  fs_data :: "content option"
  fs_bak :: "content option"

record io =
  io_dir :: bool
  io_lock :: bool
  io_read :: bool
  io_backup :: bool
  io_tmp :: bool
  io_rename :: bool

datatype 'e store_error =
    ReadFailed | ParseFailed | LockFailed | WriteFailed | DaemonHoldsLock | Op 'e

text \<open>\<open>read\<close>: what \<open>load\<close> and \<open>with_lock\<close> start from; it never fails.\<close>

definition doc_read :: "'d document \<Rightarrow> io \<Rightarrow> doc_fs \<Rightarrow> 'd \<times> doc_fs" where
  "doc_read doc io fs =
     (case fs_data fs of
        None \<Rightarrow> (doc_default doc, fs)
      | Some s \<Rightarrow>
          if \<not> io_read io \<or> s = NotUtf8 \<or> s = Blank then (doc_default doc, fs)
          else case (case s of Text j \<Rightarrow> doc_of_json doc j | _ \<Rightarrow> None) of
                 Some d \<Rightarrow> (d, fs)
               | None \<Rightarrow>
                   (case doc_salvage doc s of
                      Some d \<Rightarrow> (d, fs)
                    | None \<Rightarrow>
                        (doc_default doc,
                         if io_backup io then fs\<lparr>fs_data := None, fs_bak := Some s\<rparr> else fs)))"

definition read_strict :: "io \<Rightarrow> doc_fs \<Rightarrow> 'e store_error + content option" where
  "read_strict io fs =
     (case fs_data fs of
        None \<Rightarrow> Inr None
      | Some s \<Rightarrow> if \<not> io_read io \<or> s = NotUtf8 then Inl ReadFailed else Inr (Some s))"

definition try_load :: "'d document \<Rightarrow> io \<Rightarrow> doc_fs \<Rightarrow> 'e store_error + 'd" where
  "try_load doc io fs =
     (case read_strict io fs of
        Inl e \<Rightarrow> Inl e
      | Inr None \<Rightarrow> Inr (doc_default doc)
      | Inr (Some s) \<Rightarrow>
          if s = Blank then Inr (doc_default doc)
          else case (case s of Text j \<Rightarrow> doc_of_json doc j | _ \<Rightarrow> None) of
                 Some d \<Rightarrow> Inr d | None \<Rightarrow> Inl ParseFailed)"

text \<open>\<open>write\<close>: the temporary file, then the rename over the target.\<close>

definition doc_write :: "'d document \<Rightarrow> io \<Rightarrow> 'd \<Rightarrow> doc_fs \<Rightarrow> ('e store_error + unit) \<times> doc_fs" where
  "doc_write doc io d fs =
     (if \<not> io_tmp io then (Inl WriteFailed, fs)
      else if \<not> io_rename io then (Inl WriteFailed, fs)
      else (Inr (), fs\<lparr>fs_data := Some (Text (doc_to_json doc d))\<rparr>))"

definition with_file_lock :: "io \<Rightarrow> (doc_fs \<Rightarrow> ('e store_error + 'a) \<times> doc_fs) \<Rightarrow> doc_fs \<Rightarrow>
    ('e store_error + 'a) \<times> doc_fs" where
  "with_file_lock io f fs =
     (if \<not> io_dir io \<or> \<not> io_lock io then (Inl LockFailed, fs) else f fs)"

definition with_lock_via :: "'d document \<Rightarrow> io \<Rightarrow> (doc_fs \<Rightarrow> ('e store_error + 'd) \<times> doc_fs) \<Rightarrow>
    ('d \<Rightarrow> 'e + 'a \<times> 'd) \<Rightarrow> doc_fs \<Rightarrow> ('e store_error + 'a) \<times> doc_fs" where
  "with_lock_via doc io load f fs =
     with_file_lock io (\<lambda>fs.
       case load fs of
         (Inl e, fs1) \<Rightarrow> (Inl e, fs1)
       | (Inr d, fs1) \<Rightarrow>
           (case f d of
              Inl e \<Rightarrow> (Inl (Op e), fs1)
            | Inr (out, d') \<Rightarrow>
                (case doc_write doc io (doc_stamp doc d') fs1 of
                   (Inl e, fs2) \<Rightarrow> (Inl e, fs2)
                 | (Inr _, fs2) \<Rightarrow> (Inr out, fs2)))) fs"

definition with_lock :: "'d document \<Rightarrow> io \<Rightarrow> ('d \<Rightarrow> 'e + 'a \<times> 'd) \<Rightarrow> doc_fs \<Rightarrow>
    ('e store_error + 'a) \<times> doc_fs" where
  "with_lock doc io f fs =
     with_lock_via doc io (\<lambda>fs. case doc_read doc io fs of (d, fs1) \<Rightarrow> (Inr d, fs1)) f fs"

definition with_lock_strict :: "'d document \<Rightarrow> io \<Rightarrow> ('d \<Rightarrow> 'e + 'a \<times> 'd) \<Rightarrow> doc_fs \<Rightarrow>
    ('e store_error + 'a) \<times> doc_fs" where
  "with_lock_strict doc io f fs = with_lock_via doc io (\<lambda>fs. (try_load doc io fs, fs)) f fs"

section \<open>The two drivers\<close>

text \<open>
  \<open>FlockStore::commit\<close>: the shared gate on \<open>devkitd.lock\<close> first, refused while a daemon holds it
  exclusively (\<open>gate\<close> is whether \<open>try_read\<close> succeeds), then the file's read-modify-write.
\<close>

definition flock_snapshot :: "'d document \<Rightarrow> io \<Rightarrow> doc_fs \<Rightarrow> 'd \<times> doc_fs" where
  "flock_snapshot doc io fs = doc_read doc io fs"

definition flock_commit :: "'d document \<Rightarrow> io \<Rightarrow> bool \<Rightarrow> ('d \<Rightarrow> 'e + 'a \<times> 'd) \<Rightarrow> doc_fs \<Rightarrow>
    ('e store_error + 'a) \<times> doc_fs" where
  "flock_commit doc io gate f fs =
     (if \<not> io_dir io then (Inl LockFailed, fs)
      else if \<not> gate then (Inl DaemonHoldsLock, fs)
      else with_lock doc io f fs)"

record 'd mem_store =
  ms_state :: 'd
  ms_fs :: doc_fs

definition mem_snapshot :: "'d mem_store \<Rightarrow> 'd" where
  "mem_snapshot ms = ms_state ms"

definition mem_read :: "'d mem_store \<Rightarrow> 'd \<times> 'd mem_store" where
  "mem_read ms = (mem_snapshot ms, ms)"

definition mem_commit :: "'d document \<Rightarrow> io \<Rightarrow> ('d \<Rightarrow> 'e + 'a \<times> 'd) \<Rightarrow> 'd mem_store \<Rightarrow>
    ('e store_error + 'a) \<times> 'd mem_store" where
  "mem_commit doc io f ms =
     (case f (ms_state ms) of
        Inl e \<Rightarrow> (Inl (Op e), ms)
      | Inr (out, next_d) \<Rightarrow>
          (case doc_write doc io (doc_stamp doc next_d) (ms_fs ms) of
             (Inl e, fs) \<Rightarrow> (Inl e, ms\<lparr>ms_fs := fs\<rparr>)
           | (Inr _, fs) \<Rightarrow> (Inr out, ms\<lparr>ms_state := doc_stamp doc next_d, ms_fs := fs\<rparr>)))"

lemma mem_read_simps [simp]: "fst (mem_read ms) = ms_state ms" "snd (mem_read ms) = ms"
  by (simp_all add: mem_read_def mem_snapshot_def)

section \<open>Documents that survive their round trip\<close>

text \<open>What a clean read of the file yields, and the reads that are clean.\<close>

definition reading :: "io \<Rightarrow> io" where
  "reading io = io\<lparr>io_read := True\<rparr>"

definition clean_io :: io where
  "clean_io = \<lparr>io_dir = True, io_lock = True, io_read = True, io_backup = True, io_tmp = True, io_rename = True\<rparr>"

definition file_view :: "'d document \<Rightarrow> doc_fs \<Rightarrow> 'd" where
  "file_view doc fs = fst (doc_read doc clean_io fs)"

lemma reading_simps [simp]:
  "io_read (reading io)" "io_tmp (reading io) = io_tmp io" "io_rename (reading io) = io_rename io"
  "io_dir (reading io) = io_dir io" "io_lock (reading io) = io_lock io" "io_backup (reading io) = io_backup io"
  by (simp_all add: reading_def)

lemma doc_read_view: "io_read io \<Longrightarrow> fst (doc_read doc io fs) = file_view doc fs"
  by (auto simp: doc_read_def file_view_def clean_io_def split: option.splits content.splits)

lemma doc_read_keeps_view: "file_view doc (snd (doc_read doc io fs)) = file_view doc fs"
  by (auto simp: doc_read_def file_view_def clean_io_def split: option.splits content.splits)

lemma doc_write_ok:
  "doc_write doc io d fs = (Inr u, fs') \<Longrightarrow> fs' = fs\<lparr>fs_data := Some (Text (doc_to_json doc d))\<rparr>"
  by (auto simp: doc_write_def split: if_splits)

lemma doc_write_err: "doc_write doc io d fs = (Inl e, fs') \<Longrightarrow> e = WriteFailed \<and> fs' = fs"
  by (auto simp: doc_write_def split: if_splits)

text \<open>The contract of the \<open>Store\<close> trait, over whatever state a driver keeps.\<close>

locale store =
  fixes view :: "'s \<Rightarrow> 'd"
    and commit :: "('d \<Rightarrow> 'e + 'a \<times> 'd) \<Rightarrow> 's \<Rightarrow> ('e store_error + 'a) \<times> 's"
    and stamp :: "'d \<Rightarrow> 'd"
    and wf :: "'d \<Rightarrow> bool"
    and ok :: "'s \<Rightarrow> bool"
  assumes view_wf: "ok s \<Longrightarrow> wf (view s)"
    and commit_ok: "ok s \<Longrightarrow> commit f s = (Inr a, s') \<Longrightarrow>
        (\<And>d b d'. wf d \<Longrightarrow> f d = Inr (b, d') \<Longrightarrow> wf d') \<Longrightarrow>
        ok s' \<and> (\<exists>d. f (view s) = Inr (a, d) \<and> view s' = stamp d)"
    and commit_err: "ok s \<Longrightarrow> commit f s = (Inl e, s') \<Longrightarrow> ok s' \<and> view s' = view s"
    and commit_op: "ok s \<Longrightarrow> commit f s = (Inl (Op x), s') \<Longrightarrow> f (view s) = Inl x"
begin

text \<open>Whatever an operation keeps of the payload, a commit of it keeps of the store.\<close>

lemma commit_invariant:
  assumes "ok s" and "I (view s)"
    and "\<And>d b d'. wf d \<Longrightarrow> I d \<Longrightarrow> f d = Inr (b, d') \<Longrightarrow> I (stamp d')"
    and "\<And>d b d'. wf d \<Longrightarrow> f d = Inr (b, d') \<Longrightarrow> wf d'"
  shows "ok (snd (commit f s)) \<and> I (view (snd (commit f s)))"
proof (cases "commit f s")
  case (Pair r s')
  show ?thesis
  proof (cases r)
    case (Inl e)
    with commit_err [OF assms(1)] Pair assms(2) show ?thesis by auto
  next
    case (Inr a)
    have "commit f s = (Inr a, s')" using Inr Pair by simp
    then have "ok s' \<and> (\<exists>d. f (view s) = Inr (a, d) \<and> view s' = stamp d)"
      by (rule commit_ok [OF assms(1)]) (rule assms(4))
    then obtain d where "ok s'" "f (view s) = Inr (a, d)" "view s' = stamp d" by blast
    with assms(2,3) view_wf [OF assms(1)] Pair show ?thesis by auto
  qed
qed

lemma commit_result:
  assumes "ok s" and "\<And>d b d'. wf d \<Longrightarrow> f d = Inr (b, d') \<Longrightarrow> wf d'"
  shows "(case commit f s of
      (Inr a, s') \<Rightarrow> \<exists>d. f (view s) = Inr (a, d) \<and> view s' = stamp d
    | (Inl _, s') \<Rightarrow> view s' = view s)"
proof (cases "commit f s")
  case (Pair r s')
  show ?thesis
  proof (cases r)
    case (Inl e)
    with commit_err [OF assms(1)] Pair show ?thesis by simp
  next
    case (Inr a)
    have "commit f s = (Inr a, s')" using Inr Pair by simp
    then have "ok s' \<and> (\<exists>d. f (view s) = Inr (a, d) \<and> view s' = stamp d)"
      by (rule commit_ok [OF assms(1)]) (rule assms(2))
    with Inr Pair show ?thesis by simp
  qed
qed

end

locale document =
  fixes doc :: "'d document"
    and wf :: "'d \<Rightarrow> bool"
  assumes roundtrip: "wf d \<Longrightarrow> doc_of_json doc (doc_to_json doc d) = Some d"
    and wf_default: "wf (doc_default doc)"
    and wf_stamp: "wf d \<Longrightarrow> wf (doc_stamp doc d)"
    and wf_read: "doc_of_json doc j = Some d \<Longrightarrow> wf d"
    and wf_salvage: "doc_salvage doc c = Some d \<Longrightarrow> wf d"
begin

lemma file_view_wf: "wf (file_view doc fs)"
  using wf_default wf_read wf_salvage
  by (auto simp: file_view_def doc_read_def split: option.splits content.splits)

lemma file_view_written: "wf d \<Longrightarrow> file_view doc (fs\<lparr>fs_data := Some (Text (doc_to_json doc d))\<rparr>) = d"
  by (simp add: file_view_def doc_read_def clean_io_def roundtrip)

text \<open>
  Under any faults of the file system, a predicate the default document has and the operation keeps
  is kept by the file: a read that fails starts from the default.
\<close>

lemma flock_commit_keeps:
  assumes "I (doc_default doc)" and "I (file_view doc fs)"
    and "\<And>d b d'. wf d \<Longrightarrow> I d \<Longrightarrow> f d = Inr (b, d') \<Longrightarrow> I (doc_stamp doc d') \<and> wf d'"
  shows "I (file_view doc (snd (flock_commit doc io gate f fs)))"
proof -
  obtain d fs1 where rd: "doc_read doc io fs = (d, fs1)" by force
  have view1: "file_view doc fs1 = file_view doc fs"
    using doc_read_keeps_view [of doc io fs] rd by simp
  have "d = doc_default doc \<or> d = file_view doc fs"
    using doc_read_view [of io doc fs] rd by (auto simp: doc_read_def split: option.splits content.splits if_splits)
  then have d: "I d" "wf d"
    using assms(1,2) wf_default file_view_wf by auto
  show ?thesis
  proof (cases "f d")
    case (Inl e)
    then show ?thesis
      using rd view1 assms(2)
      by (simp add: flock_commit_def with_lock_def with_lock_via_def with_file_lock_def)
  next
    case (Inr r)
    obtain b d' where r: "r = (b, d')" by force
    with assms(3) [OF d(2,1)] Inr have d': "I (doc_stamp doc d')" "wf d'" by auto
    then show ?thesis
      using rd view1 assms(2) Inr r
      by (simp add: flock_commit_def with_lock_def with_lock_via_def with_file_lock_def doc_write_def
          file_view_written wf_stamp)
  qed
qed

lemma with_lock_ok:
  fixes f :: "'d \<Rightarrow> 'e + 'a \<times> 'd"
  assumes "with_lock doc (reading io) f fs = (Inr a, fs')"
    and "\<And>d b d'. wf d \<Longrightarrow> f d = Inr (b, d') \<Longrightarrow> wf d'"
  shows "\<exists>d. f (file_view doc fs) = Inr (a, d) \<and> file_view doc fs' = doc_stamp doc d"
proof -
  obtain fs1 where rd: "doc_read doc (reading io) fs = (file_view doc fs, fs1)"
    using doc_read_view [of "reading io" doc fs] by (cases "doc_read doc (reading io) fs") auto
  then obtain d where d: "f (file_view doc fs) = Inr (a, d)"
    and w: "doc_write doc (reading io) (doc_stamp doc d) fs1 = (Inr () :: 'e store_error + unit, fs')"
    using assms(1)
    by (auto simp: with_lock_def with_lock_via_def with_file_lock_def split: if_splits sum.splits prod.splits)
  have "wf (doc_stamp doc d)"
    by (rule wf_stamp [OF assms(2) [OF file_view_wf d]])
  with doc_write_ok [OF w] have "file_view doc fs' = doc_stamp doc d"
    by (simp add: file_view_written)
  with d show ?thesis by blast
qed

lemma with_lock_err:
  assumes "with_lock doc (reading io) f fs = (Inl e, fs')"
  shows "file_view doc fs' = file_view doc fs \<and> (\<forall>e'. e = Op e' \<longrightarrow> f (file_view doc fs) = Inl e')"
proof -
  obtain fs1 where rd: "doc_read doc (reading io) fs = (file_view doc fs, fs1)"
    using doc_read_view [of "reading io" doc fs] by (cases "doc_read doc (reading io) fs") auto
  have "file_view doc fs1 = file_view doc fs"
    using doc_read_keeps_view [of doc "reading io" fs] rd by simp
  with rd assms show ?thesis
    by (auto simp: with_lock_def with_lock_via_def with_file_lock_def doc_write_def
        split: if_splits sum.splits prod.splits)
qed

end

text \<open>Every document gives two stores: its file behind the gate, and the daemon's memory.\<close>

sublocale document \<subseteq> flock: store "file_view doc" "flock_commit doc (reading io) gate" "doc_stamp doc" wf "\<lambda>_. True"
  for io :: io and gate :: bool
  by unfold_locales
    (auto simp: file_view_wf flock_commit_def split: if_splits dest: with_lock_ok with_lock_err)

definition mem_synced :: "'d document \<Rightarrow> ('d \<Rightarrow> bool) \<Rightarrow> 'd mem_store \<Rightarrow> bool" where
  "mem_synced doc P ms \<longleftrightarrow> P (ms_state ms) \<and> file_view doc (ms_fs ms) = ms_state ms"

sublocale document \<subseteq> memory: store ms_state "mem_commit doc io" "doc_stamp doc" wf "mem_synced doc wf"
  for io :: io
  by unfold_locales
    (auto simp: mem_synced_def mem_commit_def wf_stamp file_view_written split: sum.splits prod.splits
      dest!: doc_write_ok doc_write_err)

section \<open>The strict lock\<close>

definition unreadable :: "'d document \<Rightarrow> io \<Rightarrow> doc_fs \<Rightarrow> bool" where
  "unreadable doc io fs \<longleftrightarrow>
     (\<exists>s. fs_data fs = Some s \<and>
        (\<not> io_read io \<or> s = NotUtf8 \<or> s = NotJson \<or> (\<exists>j. s = Text j \<and> doc_of_json doc j = None)))"

context document
begin

lemma try_load_wf: "(try_load doc io fs :: 'e store_error + 'd) = Inr d \<Longrightarrow> wf d"
  using wf_default wf_read
  by (auto simp: try_load_def split: sum.splits option.splits content.splits if_splits)

lemma try_load_written:
  "wf d \<Longrightarrow> try_load doc clean_io (fs\<lparr>fs_data := Some (Text (doc_to_json doc d))\<rparr>) = Inr d"
  by (simp add: try_load_def read_strict_def clean_io_def roundtrip)

text \<open>What a strict operation that succeeds read, and that the next one reads what it wrote.\<close>

lemma strict_outcome:
  fixes f :: "'d \<Rightarrow> 'e + 'a \<times> 'd"
  assumes keeps: "\<forall>d b d'. wf d \<longrightarrow> f d = Inr (b, d') \<longrightarrow> wf d'"
  shows "case with_lock_strict doc io f fs of
      (Inl _, fs') \<Rightarrow> fs' = fs
    | (Inr a, fs') \<Rightarrow> \<exists>d d'. (try_load doc io fs :: 'e store_error + 'd) = Inr d \<and> wf d \<and> f d = Inr (a, d') \<and> wf d'
        \<and> fs' = fs\<lparr>fs_data := Some (Text (doc_to_json doc (doc_stamp doc d')))\<rparr>
        \<and> (try_load doc clean_io fs' :: 'e store_error + 'd) = Inr (doc_stamp doc d')"
proof (cases "with_lock_strict doc io f fs")
  case (Pair r fs')
  show ?thesis
  proof (cases r)
    case (Inl e)
    with Pair show ?thesis
      by (auto simp: with_lock_strict_def with_lock_via_def with_file_lock_def doc_write_def
          split: if_splits sum.splits prod.splits)
  next
    case (Inr a)
    with Pair obtain d d' where d: "(try_load doc io fs :: 'e store_error + 'd) = Inr d" "f d = Inr (a, d')"
      "fs' = fs\<lparr>fs_data := Some (Text (doc_to_json doc (doc_stamp doc d')))\<rparr>"
      by (auto simp: with_lock_strict_def with_lock_via_def with_file_lock_def doc_write_def
          split: if_splits sum.splits prod.splits)
    then have "wf d" by (intro try_load_wf)
    moreover from this d(2) keeps have "wf d'" by blast
    ultimately have "wf d \<and> wf d' \<and> (try_load doc clean_io fs' :: 'e store_error + 'd) = Inr (doc_stamp doc d')"
      using d(3) by (simp add: try_load_written wf_stamp)
    with d have "\<exists>d d'. (try_load doc io fs :: 'e store_error + 'd) = Inr d \<and> wf d \<and> f d = Inr (a, d') \<and> wf d'
        \<and> fs' = fs\<lparr>fs_data := Some (Text (doc_to_json doc (doc_stamp doc d')))\<rparr>
        \<and> (try_load doc clean_io fs' :: 'e store_error + 'd) = Inr (doc_stamp doc d')" by blast
    then show ?thesis unfolding Pair Inr by simp
  qed
qed

end

lemma try_load_unreadable:
  "unreadable doc io fs \<Longrightarrow> try_load doc io fs = Inl ReadFailed \<or> try_load doc io fs = Inl ParseFailed"
  by (cases "io_read io") (auto simp: try_load_def read_strict_def unreadable_def)

text \<open>
  The strict lock never overwrites what it cannot read: over a file that fails to read, to decode or
  to parse it returns an error with every byte left where it was, and its operation does not run;
  a save that fails, or an operation that does, leaves the file too.
\<close>

theorem with_lock_strict_safe:
  fixes f :: "'d \<Rightarrow> 'e + 'a \<times> 'd"
  shows "(unreadable doc io fs \<longrightarrow> (\<exists>e. with_lock_strict doc io f fs = (Inl e, fs) \<and> (\<forall>x. e \<noteq> Op x)))
    \<and> (\<forall>e fs'. with_lock_strict doc io f fs = (Inl e, fs') \<longrightarrow> fs' = fs)
    \<and> (\<forall>a fs'. with_lock_strict doc io f fs = (Inr a, fs') \<longrightarrow>
          (\<exists>d d'. (try_load doc io fs :: 'e store_error + 'd) = Inr d \<and> f d = Inr (a, d')
             \<and> fs' = fs\<lparr>fs_data := Some (Text (doc_to_json doc (doc_stamp doc d')))\<rparr>))"
proof (intro conjI)
  show "unreadable doc io fs \<longrightarrow> (\<exists>e. with_lock_strict doc io f fs = (Inl e, fs) \<and> (\<forall>x. e \<noteq> Op x))"
  proof
    assume u: "unreadable doc io fs"
    then have "(try_load doc io fs :: 'e store_error + 'd) = Inl ReadFailed
        \<or> (try_load doc io fs :: 'e store_error + 'd) = Inl ParseFailed"
      by (rule try_load_unreadable)
    then show "\<exists>e. with_lock_strict doc io f fs = (Inl e, fs) \<and> (\<forall>x. e \<noteq> Op x)"
      by (auto simp: with_lock_strict_def with_lock_via_def with_file_lock_def)
  qed
  show "\<forall>e fs'. with_lock_strict doc io f fs = (Inl e, fs') \<longrightarrow> fs' = fs"
    by (auto simp: with_lock_strict_def with_lock_via_def with_file_lock_def doc_write_def
        split: if_splits sum.splits prod.splits)
  show "\<forall>a fs'. with_lock_strict doc io f fs = (Inr a, fs') \<longrightarrow>
      (\<exists>d d'. (try_load doc io fs :: 'e store_error + 'd) = Inr d \<and> f d = Inr (a, d')
         \<and> fs' = fs\<lparr>fs_data := Some (Text (doc_to_json doc (doc_stamp doc d')))\<rparr>)"
    by (auto simp: with_lock_strict_def with_lock_via_def with_file_lock_def doc_write_def
        split: if_splits sum.splits prod.splits)
qed

definition demo_doc :: "u32 document" where
  "demo_doc = \<lparr>doc_default = 0, doc_stamp = id, doc_salvage = \<lambda>_. None, doc_of_json = of_uint, doc_to_json = to_uint\<rparr>"

theorem with_lock_strict_safe_witness:
  "\<exists>e :: unit store_error. with_lock_strict demo_doc clean_io (\<lambda>d. Inr ((), d + 1))
      \<lparr>fs_data = Some NotJson, fs_bak = None\<rparr> = (Inl e, \<lparr>fs_data = Some NotJson, fs_bak = None\<rparr>)"
  using with_lock_strict_safe [THEN conjunct1, of demo_doc clean_io "\<lparr>fs_data = Some NotJson, fs_bak = None\<rparr>"
      "\<lambda>d. Inr ((), d + 1) :: unit + unit \<times> u32"]
  by (auto simp: unreadable_def)

text \<open>
  A file that is no UTF-8 is no parse failure: \<open>read\<close> starts from the default and leaves it without
  a backup, and the commit that follows writes over it.
\<close>

lemma undecodable_overwritten:
  "doc_read doc clean_io \<lparr>fs_data = Some NotUtf8, fs_bak = b\<rparr> =
     (doc_default doc, \<lparr>fs_data = Some NotUtf8, fs_bak = b\<rparr>)"
  "with_lock doc clean_io (\<lambda>d. Inr ((), d)) \<lparr>fs_data = Some NotUtf8, fs_bak = b\<rparr> =
     (Inr (), \<lparr>fs_data = Some (Text (doc_to_json doc (doc_stamp doc (doc_default doc)))), fs_bak = b\<rparr>)"
  by (simp_all add: doc_read_def with_lock_def with_lock_via_def with_file_lock_def doc_write_def clean_io_def)

end
