(* ===== verification/Lock_Store.thy ===== *)
theory Lock_Store
  imports Lock_Safety Doc_Store "HOL-Library.Monad_Syntax" "HOL-Library.Product_Lexorder"
begin

text \<open>
  The lock registry as a service: its JSON document and the operations over a store
  (\<open>crates/devkit-locks/src/store.rs\<close>), the wire protocol (\<open>daemon/proto.rs\<close>), the daemon's handler
  (\<open>src/bin/devkitd/lock_server.rs\<close>) and the client's routing between the daemon and the file
  (\<open>crates/devkit-locks/src/lib.rs\<close>).

  An operation takes the store's \<open>commit\<close> and \<open>snapshot\<close> as arguments, as the source takes
  \<open>impl Store\<close>. The last sections put them together: one registry, its file, a daemon that may or
  may not run, and any sequence of requests, starts and stops under any I/O faults.
\<close>

section \<open>The document\<close>

definition lock_schema_version :: u32 where
  "lock_schema_version = 1"

definition lock_entry_of_json :: "json \<Rightarrow> LockEntry option" where
  "lock_entry_of_json j = do {
      kvs \<leftarrow> struct_rows [(''path'', False), (''root'', False), (''holder'', False), (''pid'', True), (''note'', True), (''ts'', False), (''ttl'', False)] j;
      path \<leftarrow> read_field of_str None kvs ''path'';
      root \<leftarrow> read_field of_str None kvs ''root'';
      holder \<leftarrow> read_field of_str None kvs ''holder'';
      pid \<leftarrow> read_field (of_option of_uint) (Some None) kvs ''pid'';
      memo \<leftarrow> read_field (of_option of_str) (Some None) kvs ''note'';
      ts \<leftarrow> read_field of_uint None kvs ''ts'';
      ttl \<leftarrow> read_field of_uint None kvs ''ttl'';
      Some \<lparr>le_path = path, le_root = root, le_holder = holder, le_pid = pid, le_note = memo,
        le_ts = ts, le_ttl = ttl\<rparr>
    }"

definition lock_entry_to_json :: "LockEntry \<Rightarrow> json" where
  "lock_entry_to_json e = JObj
     [(''path'', JStr (le_path e)), (''root'', JStr (le_root e)), (''holder'', JStr (le_holder e)),
      (''pid'', to_option to_uint (le_pid e)), (''note'', to_option JStr (le_note e)),
      (''ts'', to_uint (le_ts e)), (''ttl'', to_uint (le_ttl e))]"

definition lock_data_of_json :: "json \<Rightarrow> LockData option" where
  "lock_data_of_json j = do {
      kvs \<leftarrow> struct_rows [(''version'', True), (''locks'', True)] j;
      version \<leftarrow> read_field of_uint (Some 0) kvs ''version'';
      locks \<leftarrow> read_field (of_map Some lock_entry_of_json) (Some []) kvs ''locks'';
      Some \<lparr>ld_version = version, ld_locks = locks\<rparr>
    }"

definition lock_data_to_json :: "LockData \<Rightarrow> json" where
  "lock_data_to_json d = JObj
     [(''version'', to_uint (ld_version d)), (''locks'', to_map id lock_entry_to_json (ld_locks d))]"

definition lock_salvage :: "content \<Rightarrow> LockData option" where
  "lock_salvage raw =
     map_option (\<lambda>locks. \<lparr>ld_version = 0, ld_locks = locks\<rparr>)
       (salvage_map raw ''locks'' Some lock_entry_of_json)"

definition lock_document :: "LockData document" where
  "lock_document = \<lparr>doc_default = \<lparr>ld_version = 0, ld_locks = []\<rparr>,
     doc_stamp = (\<lambda>d. d\<lparr>ld_version := lock_schema_version\<rparr>),
     doc_salvage = lock_salvage, doc_of_json = lock_data_of_json, doc_to_json = lock_data_to_json\<rparr>"

lemma lock_entry_roundtrip [simp]: "lock_entry_of_json (lock_entry_to_json e) = Some e"
  by (simp add: lock_entry_of_json_def lock_entry_to_json_def read_field_def struct_field_def)

lemma lock_data_roundtrip:
  "bt_wf (ld_locks d) \<Longrightarrow> lock_data_of_json (lock_data_to_json d) = Some d"
  by (simp add: lock_data_of_json_def lock_data_to_json_def read_field_def struct_field_def of_map_to_map)

text \<open>
  The registry file keeps its rows. What is written for a well-formed registry is read back
  whole; and a file whose schema has drifted, so that it no longer reads as a registry, still gives
  back each row of its \<open>locks\<close> object that parses and no other.
\<close>

theorem lock_file_keeps_rows:
  "(bt_wf (ld_locks d) \<longrightarrow> lock_data_of_json (lock_data_to_json d) = Some d)
    \<and> (lock_data_of_json j = None \<and> value_get j ''locks'' = Some (JObj kvs) \<longrightarrow>
         (\<forall>k. bt_get (ld_locks (fst (doc_read lock_document clean_io \<lparr>fs_data = Some (Text j), fs_bak = b\<rparr>))) k =
            Option.bind (map_of (rev kvs) k) lock_entry_of_json))"
proof (intro conjI impI allI)
  show "lock_data_of_json (lock_data_to_json d) = Some d" if "bt_wf (ld_locks d)"
    using that by (rule lock_data_roundtrip)
  fix k assume j: "lock_data_of_json j = None \<and> value_get j ''locks'' = Some (JObj kvs)"
  obtain m where "salvage_map (Text j) ''locks'' Some lock_entry_of_json = Some m"
    "\<And>k. bt_get m k = Option.bind (map_of (rev kvs) k) lock_entry_of_json"
    using salvage_map_get [OF conjunct2 [OF j]] by blast
  with j show "bt_get (ld_locks (fst (doc_read lock_document clean_io \<lparr>fs_data = Some (Text j), fs_bak = b\<rparr>))) k =
      Option.bind (map_of (rev kvs) k) lock_entry_of_json"
    by (simp add: doc_read_def clean_io_def lock_document_def lock_salvage_def)
qed

theorem lock_file_keeps_rows_witness:
  "bt_get (ld_locks (fst (doc_read lock_document clean_io
     \<lparr>fs_data = Some (Text (JObj [(''locks'', JObj [(''k'', lock_entry_to_json demo_row), (''x'', JNull)])])), fs_bak = None\<rparr>))) ''k''
   = Some demo_row"
  using lock_file_keeps_rows [THEN conjunct2, of "JObj [(''locks'', JObj [(''k'', lock_entry_to_json demo_row), (''x'', JNull)])]"
      "[(''k'', lock_entry_to_json demo_row), (''x'', JNull)]" None]
  by (simp add: lock_data_of_json_def read_field_def struct_field_def value_get_def value_rows_def lock_entry_of_json_def [of JNull])

lemma lock_data_of_json_wf: "lock_data_of_json j = Some d \<Longrightarrow> bt_wf (ld_locks d)"
  by (auto simp: lock_data_of_json_def read_field_def split: json.splits field_read.splits bind_splits
      dest: of_map_wf)

interpretation lock_doc: document lock_document "\<lambda>d. bt_wf (ld_locks d)"
  by unfold_locales
    (auto simp: lock_document_def lock_data_roundtrip lock_salvage_def dest: lock_data_of_json_wf salvage_map_wf)

section \<open>Operations over a store\<close>

definition acquire_with :: "((LockData \<Rightarrow> 'e + AcquireOutcome \<times> LockData) \<Rightarrow> 's \<Rightarrow> ('e store_error + AcquireOutcome) \<times> 's) \<Rightarrow>
    (u32 \<Rightarrow> bool) \<Rightarrow> string \<Rightarrow> string \<Rightarrow> string list \<Rightarrow> u32 option \<Rightarrow> string option \<Rightarrow> u64 \<Rightarrow> u64 \<Rightarrow>
    's \<Rightarrow> ('e store_error + AcquireOutcome) \<times> 's" where
  "acquire_with commit alive root holder paths pid memo ttl now =
     commit (\<lambda>d. Inr (try_acquire alive (snd (prune_dead alive now d)) root paths holder pid memo ttl now))"

definition write_decide_with :: "((LockData \<Rightarrow> 'e + WriteDecision \<times> LockData) \<Rightarrow> 's \<Rightarrow> ('e store_error + WriteDecision) \<times> 's) \<Rightarrow>
    (u32 \<Rightarrow> bool) \<Rightarrow> string \<Rightarrow> string \<Rightarrow> string \<Rightarrow> u32 option \<Rightarrow> string option \<Rightarrow> u64 \<Rightarrow> u64 \<Rightarrow>
    's \<Rightarrow> ('e store_error + WriteDecision) \<times> 's" where
  "write_decide_with commit alive root holder path pid memo ttl now =
     commit (\<lambda>d. Inr (decide_write alive (snd (prune_dead alive now d)) root path holder pid memo ttl now))"

definition release_prefix_with :: "((LockData \<Rightarrow> 'e + string list \<times> LockData) \<Rightarrow> 's \<Rightarrow> ('e store_error + string list) \<times> 's) \<Rightarrow>
    string \<Rightarrow> 's \<Rightarrow> ('e store_error + string list) \<times> 's" where
  "release_prefix_with commit pre = commit (\<lambda>d. Inr (release_prefix d pre))"

definition best_effort_prune :: "((LockData \<Rightarrow> 'e + unit \<times> LockData) \<Rightarrow> 's \<Rightarrow> ('e store_error + unit) \<times> 's) \<Rightarrow>
    (u32 \<Rightarrow> bool) \<Rightarrow> u64 \<Rightarrow> LockData \<Rightarrow> 's \<Rightarrow> 's" where
  "best_effort_prune commit alive now data s =
     (if dead_keys alive data now \<noteq> []
      then snd (commit (\<lambda>d. Inr ((), snd (prune_dead alive now d))) s) else s)"

definition check_with :: "('s \<Rightarrow> LockData \<times> 's) \<Rightarrow> ((LockData \<Rightarrow> 'e + unit \<times> LockData) \<Rightarrow> 's \<Rightarrow> ('e store_error + unit) \<times> 's) \<Rightarrow>
    (u32 \<Rightarrow> bool) \<Rightarrow> string \<Rightarrow> string \<Rightarrow> string list \<Rightarrow> u64 \<Rightarrow> 's \<Rightarrow> ('e store_error + Conflict list) \<times> 's" where
  "check_with snapshot commit alive root holder paths now s =
     (let (data, s1) = snapshot s;
          conflicts = check alive data root paths holder now
      in (Inr conflicts, best_effort_prune commit alive now data s1))"

definition check_read_only_with :: "('s \<Rightarrow> LockData \<times> 's) \<Rightarrow> (u32 \<Rightarrow> bool) \<Rightarrow> string \<Rightarrow> string \<Rightarrow> string list \<Rightarrow> u64 \<Rightarrow>
    's \<Rightarrow> ('e store_error + Conflict list) \<times> 's" where
  "check_read_only_with snapshot alive root holder paths now s =
     (let (data, s1) = snapshot s in (Inr (check alive data root paths holder now), s1))"

definition check_covering_with :: "('s \<Rightarrow> LockData \<times> 's) \<Rightarrow> (u32 \<Rightarrow> bool) \<Rightarrow> string \<Rightarrow> string \<Rightarrow> string list \<Rightarrow> u64 \<Rightarrow>
    's \<Rightarrow> ('e store_error + Conflict list) \<times> 's" where
  "check_covering_with snapshot alive root holder dirs now s =
     (let (data, s1) = snapshot s in (Inr (check_covering alive data root dirs holder now), s1))"

definition release_with :: "((LockData \<Rightarrow> 'e + (string list \<times> Refusal list) \<times> LockData) \<Rightarrow> 's \<Rightarrow>
      ('e store_error + (string list \<times> Refusal list)) \<times> 's) \<Rightarrow>
    string \<Rightarrow> string \<Rightarrow> string list \<Rightarrow> bool \<Rightarrow> 's \<Rightarrow> ('e store_error + (string list \<times> Refusal list)) \<times> 's" where
  "release_with commit root holder paths force = commit (\<lambda>d. Inr (do_release d root paths holder force))"

definition release_all_with :: "((LockData \<Rightarrow> 'e + string list \<times> LockData) \<Rightarrow> 's \<Rightarrow> ('e store_error + string list) \<times> 's) \<Rightarrow>
    string \<Rightarrow> 's \<Rightarrow> ('e store_error + string list) \<times> 's" where
  "release_all_with commit holder = commit (\<lambda>d. Inr (release_all d holder))"

definition status_with :: "('s \<Rightarrow> LockData \<times> 's) \<Rightarrow> ((LockData \<Rightarrow> 'e + unit \<times> LockData) \<Rightarrow> 's \<Rightarrow> ('e store_error + unit) \<times> 's) \<Rightarrow>
    (u32 \<Rightarrow> bool) \<Rightarrow> string \<Rightarrow> bool \<Rightarrow> u64 \<Rightarrow> 's \<Rightarrow> ('e store_error + LockEntry list) \<times> 's" where
  "status_with snapshot commit alive root all_roots now s =
     (let (data, s1) = snapshot s;
          s2 = best_effort_prune commit alive now data s1;
          out = filter (\<lambda>e. \<not> entry_dead alive e now \<and> (all_roots \<or> le_root e = root)) (bt_values (ld_locks data))
      in (Inr (sort_key (\<lambda>e. (le_root e, le_path e)) out), s2))"

definition prune_with :: "('s \<Rightarrow> LockData \<times> 's) \<Rightarrow> ((LockData \<Rightarrow> 'e + nat \<times> LockData) \<Rightarrow> 's \<Rightarrow> ('e store_error + nat) \<times> 's) \<Rightarrow>
    (u32 \<Rightarrow> bool) \<Rightarrow> u64 \<Rightarrow> 's \<Rightarrow> ('e store_error + nat) \<times> 's" where
  "prune_with snapshot commit alive now s =
     (let (data, s1) = snapshot s in
      if dead_keys alive data now = [] then (Inr 0, s1)
      else commit (\<lambda>d. Inr (prune_dead alive now d)) s1)"

section \<open>The wire protocol and the daemon's handler\<close>

definition lock_proto :: u32 where
  "lock_proto = 4"

datatype lock_request =
    Ping u32
  | Acquire string string "string list" "u32 option" "string option" u64
  | Check string string "string list" bool
  | CheckCovering string string "string list"
  | Release string string "string list" bool
  | ReleaseAll string string
  | Status string bool
  | Prune
  | WriteDecide string string string "u32 option" "string option" u64
  | ReleasePrefix string

text \<open>The fault a client meets on the socket: the link drops, or the answer is of another kind.\<close>

datatype lock_fault = LinkLost | UnexpectedResponse

type_synonym lock_error = "lock_fault store_error"

text \<open>The \<open>Err\<close> answer carries the error where the source sends its rendered text.\<close>

datatype lock_response =
    Pong u32 u32
  | RespAcquired AcquireOutcome
  | Conflicts "Conflict list"
  | Released "string list" "Refusal list"
  | Freed "string list"
  | Locks "LockEntry list"
  | Pruned nat
  | WriteDecided WriteDecision
  | RespOk
  | RespErr lock_error

text \<open>The machine an operation runs on: its liveness probe, its clock, its file system, its pid.\<close>

record lock_env =
  en_alive :: "u32 \<Rightarrow> bool"
  en_now :: u64
  en_io :: io
  en_pid :: u32

definition answer :: "('a \<Rightarrow> lock_response) \<Rightarrow> (lock_error + 'a) \<times> 's \<Rightarrow> lock_response \<times> 's" where
  "answer ok r = (case r of (Inl e, s) \<Rightarrow> (RespErr e, s) | (Inr a, s) \<Rightarrow> (ok a, s))"

definition lock_dispatch :: "lock_env \<Rightarrow> lock_request \<Rightarrow> LockData mem_store \<Rightarrow> lock_response \<times> LockData mem_store" where
  "lock_dispatch env req s =
     (case req of
        Ping _ \<Rightarrow> (Pong lock_proto (en_pid env), s)
      | Acquire root holder paths pid memo ttl \<Rightarrow>
          answer RespAcquired
            (acquire_with (mem_commit lock_document (en_io env)) (en_alive env) root holder paths pid memo ttl (en_now env) s)
      | Check root holder paths prune \<Rightarrow>
          answer Conflicts
            (if prune
             then check_with mem_read (mem_commit lock_document (en_io env)) (en_alive env) root holder paths (en_now env) s
             else check_read_only_with mem_read (en_alive env) root holder paths (en_now env) s)
      | CheckCovering root holder dirs \<Rightarrow>
          answer Conflicts (check_covering_with mem_read (en_alive env) root holder dirs (en_now env) s)
      | Release root holder paths force \<Rightarrow>
          answer (\<lambda>(released, refused). Released released refused)
            (release_with (mem_commit lock_document (en_io env)) root holder paths force s)
      | ReleaseAll _ holder \<Rightarrow>
          answer Freed (release_all_with (mem_commit lock_document (en_io env)) holder s)
      | Status root all_roots \<Rightarrow>
          answer Locks
            (status_with mem_read (mem_commit lock_document (en_io env)) (en_alive env) root all_roots (en_now env) s)
      | Prune \<Rightarrow>
          answer Pruned (prune_with mem_read (mem_commit lock_document (en_io env)) (en_alive env) (en_now env) s)
      | WriteDecide root holder path pid memo ttl \<Rightarrow>
          answer WriteDecided
            (write_decide_with (mem_commit lock_document (en_io env)) (en_alive env) root holder path pid memo ttl (en_now env) s)
      | ReleasePrefix pre \<Rightarrow>
          answer Freed (release_prefix_with (mem_commit lock_document (en_io env)) pre s))"

section \<open>The system and its clients\<close>

text \<open>
  One registry: its files and, while a \<open>devkitd\<close> runs, the daemon's copy. The daemon holds
  \<open>devkitd.lock\<close> exclusively for its whole life, so the shared gate of a direct writer is free
  exactly while none runs.
\<close>

record lock_sys =
  sys_fs :: doc_fs
  sys_daemon :: "LockData option"

text \<open>How a client's attempt to reach the daemon goes.\<close>

datatype link = NoLink | Linked | DropsBefore | DropsAfter

definition daemon_request :: "lock_env \<Rightarrow> link \<Rightarrow> lock_request \<Rightarrow> lock_sys \<Rightarrow>
    (lock_error + lock_response option) \<times> lock_sys" where
  "daemon_request env link req sys =
     (case (sys_daemon sys, link) of
        (None, _) \<Rightarrow> (Inr None, sys)
      | (Some _, NoLink) \<Rightarrow> (Inr None, sys)
      | (Some _, DropsBefore) \<Rightarrow> (Inl (Op LinkLost), sys)
      | (Some d, _) \<Rightarrow>
          (let (resp, ms) = lock_dispatch env req \<lparr>ms_state = d, ms_fs = sys_fs sys\<rparr>;
               sys' = sys\<lparr>sys_fs := ms_fs ms, sys_daemon := Some (ms_state ms)\<rparr>
           in (if link = DropsAfter then Inl (Op LinkLost) else Inr (Some resp), sys')))"

definition direct :: "(doc_fs \<Rightarrow> (lock_error + 'a) \<times> doc_fs) \<Rightarrow> lock_sys \<Rightarrow> (lock_error + 'a) \<times> lock_sys" where
  "direct f sys = (let (r, fs) = f (sys_fs sys) in (r, sys\<lparr>sys_fs := fs\<rparr>))"

definition via_daemon :: "lock_env \<Rightarrow> link \<Rightarrow> lock_request \<Rightarrow> (lock_response \<Rightarrow> 'a option) \<Rightarrow>
    (lock_sys \<Rightarrow> (lock_error + 'a) \<times> lock_sys) \<Rightarrow> lock_sys \<Rightarrow> (lock_error + 'a) \<times> lock_sys" where
  "via_daemon env link req pick fallback sys =
     (case daemon_request env link req sys of
        (Inl e, s) \<Rightarrow> (Inl e, s)
      | (Inr None, s) \<Rightarrow> fallback s
      | (Inr (Some (RespErr e)), s) \<Rightarrow> (Inl e, s)
      | (Inr (Some resp), s) \<Rightarrow>
          (case pick resp of Some a \<Rightarrow> (Inr a, s) | None \<Rightarrow> (Inl (Op UnexpectedResponse), s)))"

text \<open>The direct store of a client: the file behind the gate.\<close>

definition file_commit :: "lock_env \<Rightarrow> lock_sys \<Rightarrow> (LockData \<Rightarrow> lock_fault + 'a \<times> LockData) \<Rightarrow> doc_fs \<Rightarrow>
    (lock_error + 'a) \<times> doc_fs" where
  "file_commit env sys = flock_commit lock_document (en_io env) (sys_daemon sys = None)"

definition file_read :: "lock_env \<Rightarrow> doc_fs \<Rightarrow> LockData \<times> doc_fs" where
  "file_read env = flock_snapshot lock_document (en_io env)"

definition acquire_resolved :: "lock_env \<Rightarrow> link \<Rightarrow> string \<Rightarrow> string \<Rightarrow> string list \<Rightarrow> u32 option \<Rightarrow> string option \<Rightarrow>
    u64 \<Rightarrow> lock_sys \<Rightarrow> (lock_error + AcquireOutcome) \<times> lock_sys" where
  "acquire_resolved env link root holder paths pid memo ttl =
     via_daemon env link (Acquire root holder paths pid memo ttl)
       (\<lambda>resp. case resp of RespAcquired o' \<Rightarrow> Some o' | _ \<Rightarrow> None)
       (\<lambda>s. direct (acquire_with (file_commit env s) (en_alive env) root holder paths pid memo ttl (en_now env)) s)"

definition check_resolved :: "lock_env \<Rightarrow> link \<Rightarrow> string \<Rightarrow> string \<Rightarrow> string list \<Rightarrow> lock_sys \<Rightarrow>
    (lock_error + Conflict list) \<times> lock_sys" where
  "check_resolved env link root holder paths =
     via_daemon env link (Check root holder paths True)
       (\<lambda>resp. case resp of Conflicts v \<Rightarrow> Some v | _ \<Rightarrow> None)
       (\<lambda>s. direct (check_with (file_read env) (file_commit env s) (en_alive env) root holder paths (en_now env)) s)"

definition check_scope_resolved :: "lock_env \<Rightarrow> link \<Rightarrow> string \<Rightarrow> string \<Rightarrow> string list \<Rightarrow> lock_sys \<Rightarrow>
    (lock_error + Conflict list) \<times> lock_sys" where
  "check_scope_resolved env link root holder paths =
     via_daemon env link (Check root holder paths False)
       (\<lambda>resp. case resp of Conflicts v \<Rightarrow> Some v | _ \<Rightarrow> None)
       (\<lambda>s. direct (check_read_only_with (file_read env) (en_alive env) root holder paths (en_now env)) s)"

definition check_covering_resolved :: "lock_env \<Rightarrow> link \<Rightarrow> string \<Rightarrow> string \<Rightarrow> string list \<Rightarrow> lock_sys \<Rightarrow>
    (lock_error + Conflict list) \<times> lock_sys" where
  "check_covering_resolved env link root holder dirs =
     via_daemon env link (CheckCovering root holder dirs)
       (\<lambda>resp. case resp of Conflicts v \<Rightarrow> Some v | _ \<Rightarrow> None)
       (\<lambda>s. direct (check_covering_with (file_read env) (en_alive env) root holder dirs (en_now env)) s)"

definition release_resolved :: "lock_env \<Rightarrow> link \<Rightarrow> string \<Rightarrow> string \<Rightarrow> string list \<Rightarrow> bool \<Rightarrow> lock_sys \<Rightarrow>
    (lock_error + (string list \<times> Refusal list)) \<times> lock_sys" where
  "release_resolved env link root holder paths force =
     via_daemon env link (Release root holder paths force)
       (\<lambda>resp. case resp of Released released refused \<Rightarrow> Some (released, refused) | _ \<Rightarrow> None)
       (\<lambda>s. direct (release_with (file_commit env s) root holder paths force) s)"

definition release_all_resolved :: "lock_env \<Rightarrow> link \<Rightarrow> string \<Rightarrow> string \<Rightarrow> lock_sys \<Rightarrow>
    (lock_error + string list) \<times> lock_sys" where
  "release_all_resolved env link root holder =
     via_daemon env link (ReleaseAll root holder)
       (\<lambda>resp. case resp of Freed v \<Rightarrow> Some v | _ \<Rightarrow> None)
       (\<lambda>s. direct (release_all_with (file_commit env s) holder) s)"

definition status_resolved :: "lock_env \<Rightarrow> link \<Rightarrow> string \<Rightarrow> bool \<Rightarrow> lock_sys \<Rightarrow>
    (lock_error + LockEntry list) \<times> lock_sys" where
  "status_resolved env link root all_roots =
     via_daemon env link (Status root all_roots)
       (\<lambda>resp. case resp of Locks v \<Rightarrow> Some v | _ \<Rightarrow> None)
       (\<lambda>s. direct (status_with (file_read env) (file_commit env s) (en_alive env) root all_roots (en_now env)) s)"

definition lock_prune :: "lock_env \<Rightarrow> link \<Rightarrow> lock_sys \<Rightarrow> (lock_error + nat) \<times> lock_sys" where
  "lock_prune env link =
     via_daemon env link Prune
       (\<lambda>resp. case resp of Pruned n \<Rightarrow> Some n | _ \<Rightarrow> None)
       (\<lambda>s. direct (prune_with (file_read env) (file_commit env s) (en_alive env) (en_now env)) s)"

definition decide_write_at :: "lock_env \<Rightarrow> link \<Rightarrow> string \<Rightarrow> string \<Rightarrow> string \<Rightarrow> string option \<Rightarrow> u64 \<Rightarrow> lock_sys \<Rightarrow>
    (lock_error + WriteDecision) \<times> lock_sys" where
  "decide_write_at env link root path holder memo ttl =
     via_daemon env link (WriteDecide root holder path None memo ttl)
       (\<lambda>resp. case resp of WriteDecided d \<Rightarrow> Some d | _ \<Rightarrow> None)
       (\<lambda>s. direct (write_decide_with (file_commit env s) (en_alive env) root holder path None memo ttl (en_now env)) s)"

definition release_prefix_call :: "lock_env \<Rightarrow> link \<Rightarrow> string \<Rightarrow> lock_sys \<Rightarrow>
    (lock_error + string list) \<times> lock_sys" where
  "release_prefix_call env link pre =
     via_daemon env link (ReleasePrefix pre)
       (\<lambda>resp. case resp of Freed v \<Rightarrow> Some v | _ \<Rightarrow> None)
       (\<lambda>s. direct (release_prefix_with (file_commit env s) pre) s)"

text \<open>The daemon's start takes the gate, then loads the file; its exit leaves the file.\<close>

definition lock_load :: "lock_env \<Rightarrow> doc_fs \<Rightarrow> LockData \<times> doc_fs" where
  "lock_load env fs = doc_read lock_document (en_io env) fs"

definition daemon_start :: "lock_env \<Rightarrow> lock_sys \<Rightarrow> lock_sys" where
  "daemon_start env sys =
     (case sys_daemon sys of
        Some _ \<Rightarrow> sys
      | None \<Rightarrow> (let (d, fs) = lock_load env (sys_fs sys) in \<lparr>sys_fs = fs, sys_daemon = Some d\<rparr>))"

definition daemon_stop :: "lock_sys \<Rightarrow> lock_sys" where
  "daemon_stop sys = sys\<lparr>sys_daemon := None\<rparr>"

text \<open>
  One step of the system. The flag says whether a starting daemon can always read a file that is
  there; nothing else is assumed of the faults, the clocks, the probes or the links.
\<close>

definition client_call :: "lock_env \<Rightarrow> link \<Rightarrow> lock_request \<Rightarrow> lock_sys \<Rightarrow> lock_sys" where
  "client_call env link req sys =
     (case req of
        Ping _ \<Rightarrow> snd (daemon_request env link req sys)
      | Acquire root holder paths pid memo ttl \<Rightarrow> snd (acquire_resolved env link root holder paths pid memo ttl sys)
      | Check root holder paths prune \<Rightarrow>
          if prune then snd (check_resolved env link root holder paths sys)
          else snd (check_scope_resolved env link root holder paths sys)
      | CheckCovering root holder dirs \<Rightarrow> snd (check_covering_resolved env link root holder dirs sys)
      | Release root holder paths force \<Rightarrow> snd (release_resolved env link root holder paths force sys)
      | ReleaseAll root holder \<Rightarrow> snd (release_all_resolved env link root holder sys)
      | Status root all_roots \<Rightarrow> snd (status_resolved env link root all_roots sys)
      | Prune \<Rightarrow> snd (lock_prune env link sys)
      | WriteDecide root holder path _ memo ttl \<Rightarrow> snd (decide_write_at env link root path holder memo ttl sys)
      | ReleasePrefix pre \<Rightarrow> snd (release_prefix_call env link pre sys))"

inductive lock_step :: "bool \<Rightarrow> lock_sys \<Rightarrow> lock_sys \<Rightarrow> bool" for readable where
  call: "lock_step readable sys (client_call env link req sys)"
| start: "(readable \<Longrightarrow> io_read (en_io env)) \<Longrightarrow> lock_step readable sys (daemon_start env sys)"
| stop: "lock_step readable sys (daemon_stop sys)"

definition lock_registry :: "lock_sys \<Rightarrow> LockData" where
  "lock_registry sys =
     (case sys_daemon sys of Some d \<Rightarrow> d | None \<Rightarrow> file_view lock_document (sys_fs sys))"

section \<open>What the operations keep of a store\<close>

definition keeps :: "((LockData \<Rightarrow> 'e + 'a \<times> LockData) \<Rightarrow> 's \<Rightarrow> ('e store_error + 'a) \<times> 's) \<Rightarrow> ('s \<Rightarrow> bool) \<Rightarrow> bool"
  where
  "keeps commit K \<longleftrightarrow>
     (\<forall>f s. K s \<longrightarrow> (\<forall>d b d'. lock_inv d \<longrightarrow> f d = Inr (b, d') \<longrightarrow> lock_inv d') \<longrightarrow> K (snd (commit f s)))"

lemma keepsD:
  "keeps commit K \<Longrightarrow> K s \<Longrightarrow> (\<And>d. lock_inv d \<Longrightarrow> lock_inv (snd (g d))) \<Longrightarrow> K (snd (commit (\<lambda>d. Inr (g d)) s))"
  unfolding keeps_def by (metis Inr_inject snd_conv)

lemma acquire_with_keeps:
  "keeps commit K \<Longrightarrow> K s \<Longrightarrow> K (snd (acquire_with commit alive root holder paths pid memo ttl now s))"
  unfolding acquire_with_def by (erule keepsD, assumption) (intro lock_inv_ops prune_dead_live)

lemma write_decide_with_keeps:
  "keeps commit K \<Longrightarrow> K s \<Longrightarrow> K (snd (write_decide_with commit alive root holder path pid memo ttl now s))"
  unfolding write_decide_with_def by (erule keepsD, assumption) (intro lock_inv_ops prune_dead_live)

lemma release_prefix_with_keeps:
  "keeps commit K \<Longrightarrow> K s \<Longrightarrow> K (snd (release_prefix_with commit pre s))"
  unfolding release_prefix_with_def by (erule keepsD, assumption) (rule release_prefix_inv)

lemma release_with_keeps:
  "keeps commit K \<Longrightarrow> K s \<Longrightarrow> K (snd (release_with commit root holder paths force s))"
  unfolding release_with_def by (erule keepsD, assumption) (rule do_release_inv)

lemma release_all_with_keeps:
  "keeps commit K \<Longrightarrow> K s \<Longrightarrow> K (snd (release_all_with commit holder s))"
  unfolding release_all_with_def by (erule keepsD, assumption) (rule release_all_inv)

lemma best_effort_prune_keeps:
  assumes "keeps commit K" and "K s"
  shows "K (best_effort_prune commit alive now data s)"
proof -
  have "K (snd (commit (\<lambda>d. Inr ((), snd (prune_dead alive now d))) s))"
    using assms by (rule keepsD) (simp add: prune_dead_inv)
  with assms(2) show ?thesis by (simp add: best_effort_prune_def)
qed

lemma read_ops_keep:
  assumes "K (snd (snapshot s))"
  shows "keeps commit K \<Longrightarrow> K (snd (check_with snapshot commit alive root holder paths now s))"
    "K (snd (check_read_only_with snapshot alive root holder paths now s))"
    "K (snd (check_covering_with snapshot alive root holder paths now s))"
    "keeps commit K \<Longrightarrow> K (snd (status_with snapshot commit alive root all_roots now s))"
  using assms
  by (simp_all add: check_with_def check_read_only_with_def check_covering_with_def status_with_def
      case_prod_beta Let_def best_effort_prune_keeps)

lemma prune_with_keeps:
  assumes "keeps commit K" and "K (snd (snapshot s))"
  shows "K (snd (prune_with snapshot commit alive now s))"
proof -
  have "K (snd (commit (\<lambda>d. Inr (prune_dead alive now d)) (snd (snapshot s))))"
    using assms by (rule keepsD) (rule prune_dead_inv)
  with assms(2) show ?thesis by (simp add: prune_with_def case_prod_beta Let_def)
qed

lemmas op_keeps = acquire_with_keeps write_decide_with_keeps release_prefix_with_keeps
  release_with_keeps release_all_with_keeps read_ops_keep prune_with_keeps

section \<open>The system keeps the registry exclusive\<close>

lemma lock_inv_stamp [simp]: "lock_inv (doc_stamp lock_document d) = lock_inv d"
  by (simp add: lock_document_def lock_inv_def)

lemma lock_inv_bt: "lock_inv d \<Longrightarrow> bt_wf (ld_locks d)"
  by (simp add: lock_inv_def lock_wf_def)

lemma lock_inv_default: "lock_inv (doc_default lock_document)"
  by (simp add: lock_document_def lock_inv_def lock_wf_def claims_def exclusive_def)

definition file_ok :: "doc_fs \<Rightarrow> bool" where
  "file_ok fs \<longleftrightarrow> lock_inv (file_view lock_document fs)"

definition mem_ok :: "bool \<Rightarrow> LockData mem_store \<Rightarrow> bool" where
  "mem_ok sync ms \<longleftrightarrow> lock_inv (ms_state ms) \<and> file_ok (ms_fs ms)
     \<and> (sync \<longrightarrow> file_view lock_document (ms_fs ms) = ms_state ms)"

definition sys_ok :: "bool \<Rightarrow> lock_sys \<Rightarrow> bool" where
  "sys_ok sync sys \<longleftrightarrow>
     (case sys_daemon sys of
        None \<Rightarrow> file_ok (sys_fs sys)
      | Some d \<Rightarrow> mem_ok sync \<lparr>ms_state = d, ms_fs = sys_fs sys\<rparr>)"

lemma flock_keeps:
  "keeps (flock_commit lock_document io gate :: (LockData \<Rightarrow> 'e + 'a \<times> LockData) \<Rightarrow> _) file_ok"
proof -
  have "lock_inv (file_view lock_document (snd (flock_commit lock_document io gate f fs)))"
    if "file_ok fs" and f: "\<forall>d b d'. lock_inv d \<longrightarrow> f d = Inr (b, d') \<longrightarrow> lock_inv d'"
    for f :: "LockData \<Rightarrow> 'e + 'a \<times> LockData" and fs
  proof (rule lock_doc.flock_commit_keeps)
    fix d b d' assume d: "lock_inv d" "f d = Inr (b, d')"
    then have "lock_inv d'" using f by blast
    then show "lock_inv (doc_stamp lock_document d') \<and> bt_wf (ld_locks d')"
      by (simp add: lock_inv_bt)
  qed (use that in \<open>simp_all add: file_ok_def lock_inv_default\<close>)
  then show ?thesis by (simp add: keeps_def file_ok_def)
qed

lemma written_ok: "lock_inv d \<Longrightarrow> file_view lock_document (fs\<lparr>fs_data := Some (Text (doc_to_json lock_document d))\<rparr>) = d"
  by (rule lock_doc.file_view_written) (rule lock_inv_bt)

lemma mem_keeps:
  "keeps (mem_commit lock_document io :: (LockData \<Rightarrow> 'e + 'a \<times> LockData) \<Rightarrow> _) (mem_ok sync)"
proof -
  have "mem_ok sync (snd (mem_commit lock_document io f ms))"
    if ms: "mem_ok sync ms" and f: "\<forall>d b d'. lock_inv d \<longrightarrow> f d = Inr (b, d') \<longrightarrow> lock_inv d'"
    for f :: "LockData \<Rightarrow> 'e + 'a \<times> LockData" and ms
  proof (cases "f (ms_state ms)")
    case (Inl e)
    with ms show ?thesis by (simp add: mem_commit_def)
  next
    case (Inr r)
    obtain b d' where r: "r = (b, d')" by force
    have "lock_inv d'" using f [rule_format, of "ms_state ms" b d'] ms Inr r by (simp add: mem_ok_def)
    then have "lock_inv (doc_stamp lock_document d')" by simp
    with ms Inr r show ?thesis
      by (simp add: mem_commit_def doc_write_def mem_ok_def file_ok_def written_ok)
  qed
  then show ?thesis by (simp add: keeps_def)
qed

lemma mem_read_keeps: "K ms \<Longrightarrow> K (snd (mem_read ms))"
  by (simp add: mem_read_def)

lemma file_read_keeps: "file_ok fs \<Longrightarrow> file_ok (snd (file_read env fs))"
  by (simp add: file_ok_def file_read_def flock_snapshot_def doc_read_keeps_view)

lemma answer_snd [simp]: "snd (answer ok r) = snd r"
  by (simp add: answer_def split: prod.split sum.split)

lemma dispatch_keeps: "mem_ok sync ms \<Longrightarrow> mem_ok sync (snd (lock_dispatch env req ms))"
  by (cases req)
    (simp_all add: lock_dispatch_def op_keeps [where K = "mem_ok sync"] mem_keeps mem_read_keeps)

lemma daemon_request_keeps: "sys_ok sync sys \<Longrightarrow> sys_ok sync (snd (daemon_request env link req sys))"
  using dispatch_keeps [of sync "\<lparr>ms_state = the (sys_daemon sys), ms_fs = sys_fs sys\<rparr>" env req]
  by (auto simp: daemon_request_def sys_ok_def mem_ok_def Let_def case_prod_beta split: option.splits link.splits)

text \<open>A direct write runs only while no daemon does: the gate refuses it otherwise.\<close>

lemma file_commit_refused:
  "sys_daemon sys = Some d \<Longrightarrow> snd (file_commit env sys f fs) = fs"
  by (simp add: file_commit_def flock_commit_def)

definition with_files :: "bool \<Rightarrow> lock_sys \<Rightarrow> doc_fs \<Rightarrow> bool" where
  "with_files sync sys fs \<longleftrightarrow> sys_ok sync (sys\<lparr>sys_fs := fs\<rparr>)"

lemma direct_commit_keeps: "keeps (file_commit env sys) (with_files sync sys)"
proof (cases "sys_daemon sys")
  case None
  then show ?thesis
    using flock_keeps [of "en_io env" True] by (simp add: file_commit_def with_files_def sys_ok_def keeps_def)
next
  case (Some d)
  then show ?thesis
    by (simp add: keeps_def file_commit_refused [OF Some])
qed

lemma direct_read_keeps: "with_files sync sys fs \<Longrightarrow> with_files sync sys (snd (file_read env fs))"
  by (auto simp: with_files_def sys_ok_def mem_ok_def file_ok_def file_read_def flock_snapshot_def
      doc_read_keeps_view split: option.splits)

lemma direct_keeps:
  "with_files sync sys (snd (f (sys_fs sys))) \<Longrightarrow> sys_ok sync (snd (direct f sys))"
  by (simp add: direct_def with_files_def case_prod_beta Let_def)

lemma via_daemon_keeps:
  assumes "sys_ok sync sys" and "\<And>s. sys_ok sync s \<Longrightarrow> sys_ok sync (snd (fallback s))"
  shows "sys_ok sync (snd (via_daemon env link req pick fallback sys))"
proof -
  obtain r s where rs: "daemon_request env link req sys = (r, s)" by force
  have "sys_ok sync s" using daemon_request_keeps [OF assms(1), of env link req] rs by simp
  with assms(2) rs show ?thesis
    by (auto simp: via_daemon_def split: sum.split option.split lock_response.split)
qed

lemma with_files_self: "sys_ok sync sys \<Longrightarrow> with_files sync sys (sys_fs sys)"
  by (simp add: with_files_def)

lemmas client_defs = acquire_resolved_def check_resolved_def check_scope_resolved_def check_covering_resolved_def
  release_resolved_def release_all_resolved_def status_resolved_def lock_prune_def decide_write_at_def
  release_prefix_call_def

lemma client_call_keeps: "sys_ok sync sys \<Longrightarrow> sys_ok sync (client_call env link req sys)"
  by (cases req)
    (simp_all add: client_call_def client_defs via_daemon_keeps daemon_request_keeps direct_keeps
      op_keeps [where K = "with_files sync s" for s] direct_commit_keeps direct_read_keeps with_files_self)

lemma daemon_start_keeps:
  assumes "sys_ok sync sys" and "sync \<Longrightarrow> io_read (en_io env)"
  shows "sys_ok sync (daemon_start env sys)"
proof (cases "sys_daemon sys")
  case None
  obtain d fs where rd: "doc_read lock_document (en_io env) (sys_fs sys) = (d, fs)" by force
  have "file_view lock_document fs = file_view lock_document (sys_fs sys)"
    using doc_read_keeps_view [of lock_document "en_io env" "sys_fs sys"] rd by simp
  moreover have "d = doc_default lock_document \<or> d = file_view lock_document (sys_fs sys)"
    using doc_read_view [of "en_io env" lock_document "sys_fs sys"] rd
    by (auto simp: doc_read_def split: option.splits content.splits if_splits)
  moreover have "sync \<Longrightarrow> d = file_view lock_document (sys_fs sys)"
    using doc_read_view [OF assms(2), of lock_document "sys_fs sys"] rd by simp
  ultimately show ?thesis
    using None assms(1) rd
    by (auto simp: daemon_start_def lock_load_def sys_ok_def mem_ok_def file_ok_def lock_inv_default)
next
  case (Some d)
  then show ?thesis using assms(1) by (simp add: daemon_start_def)
qed

lemma daemon_stop_keeps: "sys_ok sync sys \<Longrightarrow> sys_ok sync (daemon_stop sys)"
  by (auto simp: daemon_stop_def sys_ok_def mem_ok_def split: option.splits)

lemma lock_step_keeps: "lock_step readable sys sys' \<Longrightarrow> sys_ok readable sys \<Longrightarrow> sys_ok readable sys'"
  by (induction rule: lock_step.induct) (simp_all add: client_call_keeps daemon_start_keeps daemon_stop_keeps)

lemma lock_steps_keep: "(lock_step readable)\<^sup>*\<^sup>* sys sys' \<Longrightarrow> sys_ok readable sys \<Longrightarrow> sys_ok readable sys'"
  by (induction rule: rtranclp_induct) (auto intro: lock_step_keeps)

end
