(* ===== verification/Lock_System.thy ===== *)
theory Lock_System
  imports Lock_Store
begin

text \<open>
  The properties of the lock service as a whole: whatever runs, the registry stays exclusive; the
  daemon's copy is the file's; a request answers the same through the daemon and on the file; and
  what a client that finds no daemon may and may not do.
\<close>

section \<open>The two routes agree\<close>

definition agree :: "('r \<times> LockData mem_store) \<Rightarrow> ('r \<times> doc_fs) \<Rightarrow> bool" where
  "agree a b \<longleftrightarrow> fst a = fst b \<and> ms_state (snd a) = file_view lock_document (snd b)"

definition sound_io :: "io \<Rightarrow> bool" where
  "sound_io io \<longleftrightarrow> io_read io \<and> io_dir io \<and> io_lock io"

lemma commit_agree:
  fixes g :: "LockData \<Rightarrow> 'a \<times> LockData"
  assumes "file_view lock_document fs = ms_state ms" and "sound_io io"
    and "lock_inv (snd (g (ms_state ms)))"
  shows "agree (mem_commit lock_document io (\<lambda>d. Inr (g d)) ms :: ('e store_error + 'a) \<times> _)
     (flock_commit lock_document io True (\<lambda>d. Inr (g d)) fs)"
proof -
  obtain fs1 where rd: "doc_read lock_document io fs = (ms_state ms, fs1)"
    using doc_read_view [of io lock_document fs] assms(1,2)
    by (cases "doc_read lock_document io fs") (auto simp: sound_io_def)
  have view: "file_view lock_document fs1 = ms_state ms"
    using doc_read_keeps_view [of lock_document io fs] rd assms(1) by simp
  obtain a d where g: "g (ms_state ms) = (a, d)" by force
  have "lock_inv (doc_stamp lock_document d)" using assms(3) g by simp
  then show ?thesis
    using assms(2) rd view
    by (simp add: agree_def mem_commit_def flock_commit_def with_lock_def with_lock_via_def
        with_file_lock_def doc_write_def g sound_io_def written_ok)
qed

lemma read_agree:
  assumes "file_view lock_document fs = ms_state ms" and "sound_io (en_io env)"
  shows "fst (file_read env fs) = ms_state ms"
    and "file_view lock_document (snd (file_read env fs)) = ms_state ms"
  using assms doc_read_view [of "en_io env" lock_document fs]
  by (simp_all add: file_read_def flock_snapshot_def doc_read_keeps_view sound_io_def)

text \<open>The daemon's store and the file behind it, with the same registry and a sound disk.\<close>

definition route :: "lock_env \<Rightarrow> LockData mem_store \<Rightarrow> doc_fs \<Rightarrow> bool" where
  "route env ms fs \<longleftrightarrow> file_view lock_document fs = ms_state ms \<and> sound_io (en_io env) \<and> lock_inv (ms_state ms)"

lemma rt_same: "route env ms fs \<Longrightarrow> file_view lock_document fs = ms_state ms"
  and rt_sound: "route env ms fs \<Longrightarrow> sound_io (en_io env)"
  and rt_inv: "route env ms fs \<Longrightarrow> lock_inv (ms_state ms)"
  by (simp_all add: route_def)

abbreviation mem_store_of :: "lock_env \<Rightarrow> (LockData \<Rightarrow> lock_fault + 'a \<times> LockData) \<Rightarrow> _" where
  "mem_store_of env \<equiv> mem_commit lock_document (en_io env)"

abbreviation disk_store_of :: "lock_env \<Rightarrow> (LockData \<Rightarrow> lock_fault + 'a \<times> LockData) \<Rightarrow> _" where
  "disk_store_of env \<equiv> flock_commit lock_document (en_io env) True"

lemma acquire_agree:
  assumes rt: "route env ms fs"
  shows "agree (acquire_with (mem_store_of env) alive root holder paths pid memo ttl now ms)
    (acquire_with (disk_store_of env) alive root holder paths pid memo ttl now fs)"
  unfolding acquire_with_def 
  by (rule commit_agree [OF rt_same [OF rt] rt_sound [OF rt]]) (intro lock_inv_ops prune_dead_live rt_inv [OF rt])

lemma write_agree:
  assumes rt: "route env ms fs"
  shows "agree (write_decide_with (mem_store_of env) alive root holder path pid memo ttl now ms)
    (write_decide_with (disk_store_of env) alive root holder path pid memo ttl now fs)"
  unfolding write_decide_with_def 
  by (rule commit_agree [OF rt_same [OF rt] rt_sound [OF rt]]) (intro lock_inv_ops prune_dead_live rt_inv [OF rt])

lemma release_agree:
  assumes rt: "route env ms fs"
  shows "agree (release_with (mem_store_of env) root holder paths force ms) (release_with (disk_store_of env) root holder paths force fs)"
  unfolding release_with_def 
  by (rule commit_agree [OF rt_same [OF rt] rt_sound [OF rt]]) (intro lock_inv_ops rt_inv [OF rt])

lemma release_all_agree:
  assumes rt: "route env ms fs"
  shows "agree (release_all_with (mem_store_of env) holder ms) (release_all_with (disk_store_of env) holder fs)"
  unfolding release_all_with_def 
  by (rule commit_agree [OF rt_same [OF rt] rt_sound [OF rt]]) (intro lock_inv_ops rt_inv [OF rt])

lemma release_prefix_agree:
  assumes rt: "route env ms fs"
  shows "agree (release_prefix_with (mem_store_of env) pre ms) (release_prefix_with (disk_store_of env) pre fs)"
  unfolding release_prefix_with_def 
  by (rule commit_agree [OF rt_same [OF rt] rt_sound [OF rt]]) (intro lock_inv_ops rt_inv [OF rt])

lemma best_effort_agree:
  assumes rt: "route env ms fs"
  shows "ms_state (best_effort_prune (mem_store_of env) alive now (ms_state ms) ms) =
    file_view lock_document (best_effort_prune (disk_store_of env) alive now (ms_state ms) (snd (file_read env fs)))"
proof -
  have "agree (mem_store_of env (\<lambda>d. Inr ((), snd (prune_dead alive now d))) ms)
      (disk_store_of env (\<lambda>d. Inr ((), snd (prune_dead alive now d))) (snd (file_read env fs)))"
    by (rule commit_agree [OF read_agree(2) [OF rt_same [OF rt] rt_sound [OF rt]] rt_sound [OF rt]]) (simp add: prune_dead_inv rt_inv [OF rt])
  then show ?thesis
    using read_agree(2) [OF rt_same [OF rt] rt_sound [OF rt]] by (simp add: best_effort_prune_def agree_def)
qed

lemma check_agree:
  assumes rt: "route env ms fs"
  shows "agree (check_with mem_read (mem_store_of env) alive root holder paths now ms)
    (check_with (file_read env) (disk_store_of env) alive root holder paths now fs)"
  using best_effort_agree [OF rt, of alive now] read_agree [OF rt_same [OF rt] rt_sound [OF rt]]
  by (simp add: check_with_def case_prod_beta Let_def agree_def)

lemma check_read_only_agree:
  assumes rt: "route env ms fs"
  shows "agree (check_read_only_with mem_read alive root holder paths now ms)
    (check_read_only_with (file_read env) alive root holder paths now fs)"
  using read_agree [OF rt_same [OF rt] rt_sound [OF rt]] by (simp add: check_read_only_with_def case_prod_beta Let_def agree_def)

lemma check_covering_agree:
  assumes rt: "route env ms fs"
  shows "agree (check_covering_with mem_read alive root holder dirs now ms)
    (check_covering_with (file_read env) alive root holder dirs now fs)"
  using read_agree [OF rt_same [OF rt] rt_sound [OF rt]] by (simp add: check_covering_with_def case_prod_beta Let_def agree_def)

lemma status_agree:
  assumes rt: "route env ms fs"
  shows "agree (status_with mem_read (mem_store_of env) alive root all_roots now ms)
    (status_with (file_read env) (disk_store_of env) alive root all_roots now fs)"
  using best_effort_agree [OF rt, of alive now] read_agree [OF rt_same [OF rt] rt_sound [OF rt]]
  by (simp add: status_with_def case_prod_beta Let_def agree_def)

lemma prune_agree:
  assumes rt: "route env ms fs"
  shows "agree (prune_with mem_read (mem_store_of env) alive now ms) (prune_with (file_read env) (disk_store_of env) alive now fs)"
proof -
  have "agree (mem_store_of env (\<lambda>d. Inr (prune_dead alive now d)) ms)
      (disk_store_of env (\<lambda>d. Inr (prune_dead alive now d)) (snd (file_read env fs)))"
    by (rule commit_agree [OF read_agree(2) [OF rt_same [OF rt] rt_sound [OF rt]] rt_sound [OF rt]]) (simp add: prune_dead_inv rt_inv [OF rt])
  then show ?thesis
    using read_agree [OF rt_same [OF rt] rt_sound [OF rt]] by (simp add: prune_with_def case_prod_beta Let_def agree_def)
qed

section \<open>A client's call by either route\<close>

definition sys_up :: "doc_fs \<Rightarrow> lock_sys" where
  "sys_up fs = \<lparr>sys_fs = fs, sys_daemon = Some (file_view lock_document fs)\<rparr>"

definition sys_down :: "doc_fs \<Rightarrow> lock_sys" where
  "sys_down fs = \<lparr>sys_fs = fs, sys_daemon = None\<rparr>"

definition same_service :: "('r \<times> lock_sys) \<Rightarrow> ('r \<times> lock_sys) \<Rightarrow> bool" where
  "same_service a b \<longleftrightarrow> fst a = fst b \<and> lock_registry (snd a) = lock_registry (snd b)"

lemma via_daemon_up:
  assumes "lock_dispatch env req \<lparr>ms_state = file_view lock_document fs, ms_fs = fs\<rparr> = answer ok r"
    and "\<And>a. pick (ok a) = Some a" and "\<And>a e. ok a \<noteq> RespErr e"
  shows "via_daemon env Linked req pick fallback (sys_up fs) =
    (fst r, \<lparr>sys_fs = ms_fs (snd r), sys_daemon = Some (ms_state (snd r))\<rparr>)"
proof (cases r)
  case (Pair res ms)
  show ?thesis
  proof (cases res)
    case (Inl e)
    with Pair assms(1) show ?thesis
      by (simp add: via_daemon_def daemon_request_def sys_up_def answer_def)
  next
    case (Inr a)
    obtain resp where resp: "ok a = resp" "pick resp = Some a" "\<And>e. resp \<noteq> RespErr e"
      using assms(2,3) by blast
    have req: "daemon_request env Linked req (sys_up fs) =
        (Inr (Some resp), \<lparr>sys_fs = ms_fs ms, sys_daemon = Some (ms_state ms)\<rparr>)"
      using Pair Inr assms(1) resp(1) by (simp add: daemon_request_def sys_up_def answer_def)
    show ?thesis
      using resp(2,3) by (cases resp) (auto simp: via_daemon_def req Pair Inr)
  qed
qed

lemma via_daemon_down:
  "via_daemon env link req pick fallback (sys_down fs) = fallback (sys_down fs)"
  by (simp add: via_daemon_def daemon_request_def sys_down_def)

lemma direct_down:
  "fst (direct f (sys_down fs)) = fst (f fs)"
  "lock_registry (snd (direct f (sys_down fs))) = file_view lock_document (snd (f fs))"
  by (simp_all add: direct_def sys_down_def lock_registry_def case_prod_beta Let_def)

lemma file_commit_down: "file_commit env (sys_down fs) = disk_store_of env"
  by (simp add: file_commit_def sys_down_def fun_eq_iff)

lemma same_serviceI:
  assumes "fallback (sys_down fs) = direct f (sys_down fs)" and "agree r (f fs)"
    and "lock_dispatch env req \<lparr>ms_state = file_view lock_document fs, ms_fs = fs\<rparr> = answer ok r"
    and "\<And>a. pick (ok a) = Some a" and "\<And>a e. ok a \<noteq> RespErr e"
  shows "same_service (via_daemon env Linked req pick fallback (sys_up fs)) (via_daemon env link req pick fallback (sys_down fs))"
  unfolding via_daemon_up [where pick = pick, OF assms(3-5)] via_daemon_down assms(1)
  using assms(2) by (simp add: same_service_def direct_down agree_def) (simp add: lock_registry_def)

lemmas route_agree = acquire_agree write_agree check_agree 
  check_read_only_agree check_covering_agree release_agree release_all_agree release_prefix_agree 
  status_agree prune_agree

lemma route_up:
  "sound_io (en_io env) \<Longrightarrow> file_ok fs \<Longrightarrow> route env \<lparr>ms_state = file_view lock_document fs, ms_fs = fs\<rparr> fs"
  by (simp add: route_def file_ok_def)

section \<open>Properties\<close>

text \<open>
  C1: mutual exclusion. From a registry whose rows exclude each other, with no daemon running, no
  sequence of client calls (over the socket or on the file, with links that drop), daemon starts
  and stops, under any I/O faults, clocks and liveness probes, reaches a registry in which two
  unrelated sessions hold overlapping paths of one root.
\<close>

theorem registry_exclusive:
  assumes "sys_daemon sys = None" and "file_ok (sys_fs sys)" and "(lock_step False)\<^sup>*\<^sup>* sys sys'"
  shows "exclusive (claims (ld_locks (lock_registry sys')))"
proof -
  have "sys_ok False sys'"
    by (rule lock_steps_keep [OF assms(3)]) (simp add: sys_ok_def assms(1,2))
  then have "lock_inv (lock_registry sys')"
    by (auto simp: sys_ok_def lock_registry_def mem_ok_def file_ok_def split: option.splits)
  then show ?thesis by (simp add: lock_inv_def)
qed

definition demo_env :: lock_env where
  "demo_env = \<lparr>en_alive = \<lambda>_. True, en_now = 9, en_io = clean_io, en_pid = 1\<rparr>"

lemma demo_env_simps: "en_alive demo_env = (\<lambda>_. True)" "en_now demo_env = 9"
  by (simp_all add: demo_env_def)

definition empty_fs :: doc_fs where
  "empty_fs = \<lparr>fs_data = None, fs_bak = None\<rparr>"

lemma empty_fs_ok: "file_ok empty_fs"
  using lock_inv_default by (simp add: empty_fs_def file_ok_def file_view_def doc_read_def)

lemma demo_steps:
  "(lock_step r)\<^sup>*\<^sup>* (sys_down empty_fs)
     (client_call demo_env Linked (Acquire ''/r'' ''S'' [''src''] None None 60) (daemon_start demo_env (sys_down empty_fs)))"
  by (rule converse_rtranclp_into_rtranclp [OF lock_step.start r_into_rtranclp [of "lock_step r", OF lock_step.call]])
    (simp add: demo_env_def clean_io_def)

theorem registry_exclusive_witness:
  "exclusive (claims (ld_locks (lock_registry
     (client_call demo_env Linked (Acquire ''/r'' ''S'' [''src''] None None 60) (daemon_start demo_env (sys_down empty_fs))))))"
  using registry_exclusive [OF _ _ demo_steps] empty_fs_ok by (simp add: sys_down_def)

text \<open>
  C4: the daemon's memory is its file. While every daemon that starts can read the file that is
  there, the registry a running daemon serves is, after any steps, the one its file holds.
\<close>

theorem memory_is_file:
  assumes "sys_daemon sys = None" and "file_ok (sys_fs sys)" and "(lock_step True)\<^sup>*\<^sup>* sys sys'"
  shows "\<forall>d. sys_daemon sys' = Some d \<longrightarrow> file_view lock_document (sys_fs sys') = d"
proof -
  have "sys_ok True sys'"
    by (rule lock_steps_keep [OF assms(3)]) (simp add: sys_ok_def assms(1,2))
  then show ?thesis by (auto simp: sys_ok_def mem_ok_def)
qed

theorem memory_is_file_witness:
  "\<exists>d. sys_daemon (client_call demo_env Linked (Acquire ''/r'' ''S'' [''src''] None None 60)
            (daemon_start demo_env (sys_down empty_fs))) = Some d
     \<and> file_view lock_document (sys_fs (client_call demo_env Linked (Acquire ''/r'' ''S'' [''src''] None None 60)
            (daemon_start demo_env (sys_down empty_fs)))) = d"
proof -
  have "sys_daemon (client_call demo_env Linked (Acquire ''/r'' ''S'' [''src''] None None 60)
            (daemon_start demo_env (sys_down empty_fs))) \<noteq> None"
    by (simp add: client_call_def acquire_resolved_def via_daemon_def daemon_request_def daemon_start_def sys_down_def
        case_prod_beta split: lock_response.split)
  then show ?thesis
    using memory_is_file [OF _ _ demo_steps] empty_fs_ok by (auto simp: sys_down_def)
qed

text \<open>
  C5: the two routes are one service. On a sound disk a client's call answers the same, and leaves
  the same registry, whether a daemon that loaded the file serves it or the client works on the
  file itself.
\<close>

theorem routes_agree:
  assumes "sound_io (en_io env)" and "file_ok fs"
  shows "same_service (acquire_resolved env Linked root holder paths pid memo ttl (sys_up fs))
           (acquire_resolved env link root holder paths pid memo ttl (sys_down fs))
    \<and> same_service (decide_write_at env Linked root path holder memo ttl (sys_up fs))
           (decide_write_at env link root path holder memo ttl (sys_down fs))
    \<and> same_service (check_resolved env Linked root holder paths (sys_up fs))
           (check_resolved env link root holder paths (sys_down fs))
    \<and> same_service (check_scope_resolved env Linked root holder paths (sys_up fs))
           (check_scope_resolved env link root holder paths (sys_down fs))
    \<and> same_service (check_covering_resolved env Linked root holder paths (sys_up fs))
           (check_covering_resolved env link root holder paths (sys_down fs))
    \<and> same_service (release_resolved env Linked root holder paths force (sys_up fs))
           (release_resolved env link root holder paths force (sys_down fs))
    \<and> same_service (release_all_resolved env Linked root holder (sys_up fs))
           (release_all_resolved env link root holder (sys_down fs))
    \<and> same_service (release_prefix_call env Linked pre (sys_up fs)) (release_prefix_call env link pre (sys_down fs))
    \<and> same_service (status_resolved env Linked root all_roots (sys_up fs))
           (status_resolved env link root all_roots (sys_down fs))
    \<and> same_service (lock_prune env Linked (sys_up fs)) (lock_prune env link (sys_down fs))"
proof -
  note rt = route_up [OF assms]
  show ?thesis
    unfolding client_defs
    by (intro conjI; rule same_serviceI, rule refl, (simp only: file_commit_down)?, rule route_agree [OF rt])
      ((simp_all add: lock_dispatch_def split: prod.split)+)
qed

theorem routes_agree_witness:
  "same_service (acquire_resolved demo_env Linked ''/r'' ''S'' [''src''] None None 60 (sys_up empty_fs))
     (acquire_resolved demo_env NoLink ''/r'' ''S'' [''src''] None None 60 (sys_down empty_fs))"
  using routes_agree [OF _ empty_fs_ok, THEN conjunct1, of demo_env "''/r''" "''S''" "[''src'']" None None 60 NoLink]
  by (simp add: demo_env_def clean_io_def sound_io_def)

definition refused :: "lock_sys \<Rightarrow> (lock_error + 'a) \<times> lock_sys \<Rightarrow> bool" where
  "refused sys r \<longleftrightarrow> (\<exists>e. fst r = Inl e) \<and> snd r = sys"

lemma via_daemon_unreached:
  assumes "sys_daemon sys = Some d" and "link = NoLink \<or> link = DropsBefore"
    and "refused sys (fallback sys)"
  shows "refused sys (via_daemon env link req pick fallback sys)"
  using assms by (auto simp: via_daemon_def daemon_request_def refused_def)

lemma direct_refused:
  "sys_daemon sys = Some d \<Longrightarrow> refused sys (direct (file_commit env sys f) sys)"
  by (simp add: direct_def file_commit_def flock_commit_def refused_def)

text \<open>What a read may do to the file: set aside one that gives back nothing, not even row by row.\<close>

definition only_set_aside :: "doc_fs \<Rightarrow> doc_fs \<Rightarrow> bool" where
  "only_set_aside fs fs' \<longleftrightarrow>
     fs' = fs \<or> (\<exists>s. fs_data fs = Some s \<and> doc_salvage lock_document s = None \<and> (\<forall>j. s = Text j \<longrightarrow> lock_data_of_json j = None)
       \<and> fs' = \<lparr>fs_data = None, fs_bak = Some s\<rparr>)"

lemma read_sets_aside: "only_set_aside fs (snd (file_read env fs))"
  by (auto simp: file_read_def flock_snapshot_def doc_read_def only_set_aside_def lock_document_def
      split: option.split content.splits)

definition untouched :: "lock_sys \<Rightarrow> lock_sys \<Rightarrow> bool" where
  "untouched sys sys' \<longleftrightarrow>
     sys_daemon sys' = sys_daemon sys \<and> file_view lock_document (sys_fs sys') = file_view lock_document (sys_fs sys)
     \<and> only_set_aside (sys_fs sys) (sys_fs sys')"

lemma untouched_refl [simp]: "untouched sys sys"
  by (simp add: untouched_def only_set_aside_def)

lemma untouched_read: "untouched sys (sys\<lparr>sys_fs := snd (file_read env (sys_fs sys))\<rparr>)"
  by (simp add: untouched_def read_sets_aside) (simp add: file_read_def flock_snapshot_def doc_read_keeps_view)

lemma unreached_calls:
  assumes "sys_daemon sys = Some d" and "link = NoLink \<or> link = DropsBefore"
    and "P (Inl (Op LinkLost), sys)" and "P (fallback sys)"
  shows "P (via_daemon env link req pick fallback sys)"
  using assms by (auto simp: via_daemon_def daemon_request_def)

lemma gated_commit:
  assumes "sys_daemon sys = Some d"
  shows "snd (file_commit env sys f fs) = fs" and "\<exists>e. fst (file_commit env sys f fs) = Inl e"
  using assms by (simp_all add: file_commit_def flock_commit_def)

lemma unreached_reads:
  assumes "sys_daemon sys = Some d" and "link = NoLink \<or> link = DropsBefore"
  shows "untouched sys (snd (check_resolved env link root holder paths sys))"
    and "untouched sys (snd (check_scope_resolved env link root holder paths sys))"
    and "untouched sys (snd (check_covering_resolved env link root holder dirs sys))"
    and "untouched sys (snd (status_resolved env link root all_roots sys))"
    and "untouched sys (snd (lock_prune env link sys)) \<and> (fst (lock_prune env link sys) = Inr 0 \<or> (\<exists>e. fst (lock_prune env link sys) = Inl e))"
proof -
  note U = unreached_calls [OF assms] and G = gated_commit [OF assms(1)]
  show "untouched sys (snd (check_resolved env link root holder paths sys))"
    unfolding check_resolved_def
    by (rule U [where P = "\<lambda>r. untouched sys (snd r)"])
      (simp_all add: direct_def check_with_def best_effort_prune_def G(1) untouched_read case_prod_beta Let_def)
  show "untouched sys (snd (check_scope_resolved env link root holder paths sys))"
    unfolding check_scope_resolved_def
    by (rule U [where P = "\<lambda>r. untouched sys (snd r)"])
      (simp_all add: direct_def check_read_only_with_def untouched_read case_prod_beta Let_def)
  show "untouched sys (snd (check_covering_resolved env link root holder dirs sys))"
    unfolding check_covering_resolved_def
    by (rule U [where P = "\<lambda>r. untouched sys (snd r)"])
      (simp_all add: direct_def check_covering_with_def untouched_read case_prod_beta Let_def)
  show "untouched sys (snd (status_resolved env link root all_roots sys))"
    unfolding status_resolved_def
    by (rule U [where P = "\<lambda>r. untouched sys (snd r)"])
      (simp_all add: direct_def status_with_def best_effort_prune_def G(1) untouched_read case_prod_beta Let_def)
  show "untouched sys (snd (lock_prune env link sys)) \<and> (fst (lock_prune env link sys) = Inr 0 \<or> (\<exists>e. fst (lock_prune env link sys) = Inl e))"
    unfolding lock_prune_def
    by (rule U [where P = "\<lambda>r. untouched sys (snd r) \<and> (fst r = Inr 0 \<or> (\<exists>e. fst r = Inl e))"])
      (simp_all add: direct_def prune_with_def G untouched_read case_prod_beta Let_def)
qed

lemma unreached_mutations:
  assumes "sys_daemon sys = Some d" and "link = NoLink \<or> link = DropsBefore"
  shows "refused sys (acquire_resolved env link root holder paths pid memo ttl sys)"
    and "refused sys (decide_write_at env link root path holder memo ttl sys)"
    and "refused sys (release_resolved env link root holder paths force sys)"
    and "refused sys (release_all_resolved env link root holder sys)"
    and "refused sys (release_prefix_call env link pre sys)"
  unfolding client_defs acquire_with_def write_decide_with_def release_with_def release_all_with_def
    release_prefix_with_def
  by (rule via_daemon_unreached [OF assms]; rule direct_refused [OF assms(1)])+

text \<open>
  C6: no writing behind the daemon. While a daemon runs, a client that does not reach it, or whose link drops before the request,
  gets an error from every mutation, which leaves everything as it is; a prune answers an error or finds nothing to prune; and no
  request of any kind changes the daemon's registry or what the file says. A check, a status or a prune may still set aside a file
  that nothing can be read from.
\<close>

theorem no_write_behind_daemon:
  assumes "sys_daemon sys = Some d" and "link = NoLink \<or> link = DropsBefore"
  shows "refused sys (acquire_resolved env link root holder paths pid memo ttl sys)
    \<and> refused sys (decide_write_at env link root path holder memo ttl sys)
    \<and> refused sys (release_resolved env link root holder paths force sys)
    \<and> refused sys (release_all_resolved env link root holder sys)
    \<and> refused sys (release_prefix_call env link pre sys)
    \<and> (fst (lock_prune env link sys) = Inr 0 \<or> (\<exists>e. fst (lock_prune env link sys) = Inl e))
    \<and> (\<forall>req. untouched sys (client_call env link req sys))"
proof -
  note M = unreached_mutations [OF assms] and R = unreached_reads [OF assms]
  have kept: "untouched sys (snd r)" if "refused sys r" for r :: "(lock_error + 'x) \<times> lock_sys"
    using that by (simp add: refused_def)
  have ping: "snd (daemon_request env link (Ping n) sys) = sys" for n
    using assms by (auto simp: daemon_request_def)
  have "untouched sys (client_call env link req sys)" for req
    by (cases req) (simp_all add: client_call_def kept M R ping)
  then show ?thesis using M conjunct2 [OF R(5)] by (intro conjI allI) simp_all
qed

theorem no_write_behind_daemon_witness:
  "refused (sys_up empty_fs) (acquire_resolved demo_env NoLink ''/r'' ''S'' [''src''] None None 60 (sys_up empty_fs))"
  using no_write_behind_daemon [of "sys_up empty_fs" _ NoLink demo_env "''/r''" "''S''" "[''src'']" None None 60]
  by (simp add: sys_up_def)

text \<open>
  A daemon whose load of the file failed serves an empty registry over a file with rows: until its
  next write the two differ.
\<close>

lemma unread_start_diverges:
  assumes "fs_data fs = Some (Text (lock_data_to_json demo_locks))" and "\<not> io_read (en_io env)"
  shows "sys_daemon (daemon_start env (sys_down fs)) = Some \<lparr>ld_version = 0, ld_locks = []\<rparr>
    \<and> file_view lock_document (sys_fs (daemon_start env (sys_down fs))) = demo_locks"
proof -
  have "lock_data_of_json (lock_data_to_json demo_locks) = Some demo_locks"
    by (rule lock_data_roundtrip) (rule lock_inv_bt [OF demo_locks_ok(1)])
  with assms show ?thesis
    by (simp add: daemon_start_def sys_down_def lock_load_def doc_read_def file_view_def lock_document_def clean_io_def)
qed

text \<open>What a client gets back is what the operation did to the registry, on whichever route.\<close>

lemma commit_effect:
  assumes "mem_ok sync ms"
    and "mem_commit lock_document io (\<lambda>d. Inr (g d)) ms = (Inr a, ms')"
  shows "\<exists>d. lock_inv d \<and> fst (g d) = a \<and> ld_locks (ms_state ms') = ld_locks (snd (g d)) \<and> d = ms_state ms"
proof -
  obtain b d' where g: "g (ms_state ms) = (b, d')" by force
  show ?thesis
    using assms g
    by (auto simp: mem_commit_def mem_ok_def lock_document_def split: sum.splits prod.splits
        intro!: exI [of _ "ms_state ms"])
qed

lemma flock_effect:
  fixes g :: "LockData \<Rightarrow> 'a \<times> LockData"
  assumes "file_ok fs" and "\<And>d. lock_inv d \<Longrightarrow> lock_inv (snd (g d))"
    and "flock_commit lock_document io gate (\<lambda>d. Inr (g d)) fs = (Inr a, fs')"
  shows "\<exists>d. lock_inv d \<and> fst (g d) = a \<and> ld_locks (file_view lock_document fs') = ld_locks (snd (g d))
    \<and> (d = doc_default lock_document \<or> d = file_view lock_document fs)"
proof -
  obtain d fs1 where rd: "doc_read lock_document io fs = (d, fs1)" by force
  have d: "d = doc_default lock_document \<or> d = file_view lock_document fs"
    using doc_read_view [of io lock_document fs] rd
    by (auto simp: doc_read_def split: option.splits content.splits if_splits)
  then have inv: "lock_inv d" using assms(1) lock_inv_default by (auto simp: file_ok_def)
  obtain b d' where g: "g d = (b, d')" by force
  have "lock_inv (doc_stamp lock_document d')" using assms(2) [OF inv] g by simp
  then have "b = a \<and> file_view lock_document fs' = doc_stamp lock_document d'"
    using assms(3) rd g
    by (auto simp: flock_commit_def with_lock_def with_lock_via_def with_file_lock_def doc_write_def
        written_ok split: if_splits)
  with inv g d show ?thesis by (intro exI [of _ d]) (simp add: lock_document_def)
qed

lemma via_daemon_Inr:
  assumes "via_daemon env link req pick fallback sys = (Inr a, sys')"
  obtains (served) d resp ms where "sys_daemon sys = Some d"
      "lock_dispatch env req \<lparr>ms_state = d, ms_fs = sys_fs sys\<rparr> = (resp, ms)" "pick resp = Some a"
      "lock_registry sys' = ms_state ms"
    | (local) "fallback sys = (Inr a, sys')"
proof (cases "daemon_request env link req sys")
  case (Pair r s)
  show ?thesis
  proof (cases "sys_daemon sys = None \<or> link = NoLink")
    case True
    then have "daemon_request env link req sys = (Inr None, sys)"
      by (auto simp: daemon_request_def split: option.splits)
    with assms have "fallback sys = (Inr a, sys')" by (simp add: via_daemon_def)
    then show ?thesis by (rule local)
  next
    case False
    then obtain d where d: "sys_daemon sys = Some d" by auto
    obtain resp ms where run: "lock_dispatch env req \<lparr>ms_state = d, ms_fs = sys_fs sys\<rparr> = (resp, ms)" by force
    have "link = Linked"
      using assms False d run by (cases link) (simp_all add: via_daemon_def daemon_request_def)
    then have "pick resp = Some a \<and> lock_registry sys' = ms_state ms"
      using assms d run
      by (cases resp) (auto simp: via_daemon_def daemon_request_def lock_registry_def split: option.splits)
    with d run show ?thesis by (auto intro: served)
  qed
qed

lemma direct_Inr:
  "direct f sys = (Inr a, sys') \<Longrightarrow> f (sys_fs sys) = (Inr a, sys_fs sys') \<and> sys_daemon sys' = sys_daemon sys"
  by (auto simp: direct_def split: prod.splits)

text \<open>
  An acquire that answers without a conflict has done its work: by either route, even if the disk
  cannot be read, the registry then holds, live and on the caller's line, a row for each path asked
  for.
\<close>

theorem acquire_resolved_grants:
  assumes "sys_ok False sys" and "rows_nul_free (ld_locks (lock_registry sys))" and "nul_free root"
    and "case pid of Some p \<Rightarrow> en_alive env p | None \<Rightarrow> True"
    and "acquire_resolved env link root holder paths pid memo ttl sys = (Inr out, sys')"
    and "ao_conflicts out = []"
  shows "\<forall>req\<in>set paths. held_for (en_alive env) (en_now env) root holder (ld_locks (lock_registry sys')) req"
proof -
  define g where "g d = try_acquire (en_alive env) (snd (prune_dead (en_alive env) (en_now env) d))
      root paths holder pid memo ttl (en_now env)" for d
  have ginv: "lock_inv (snd (g d))" if "lock_inv d" for d
    unfolding g_def using that by (intro lock_inv_ops prune_dead_live)
  have granted: "\<forall>req\<in>set paths. held_for (en_alive env) (en_now env) root holder (ld_locks (snd (g d))) req"
    if "lock_inv d" "rows_nul_free (ld_locks d)" "fst (g d) = out" for d
  proof (rule try_acquire_grants [OF prune_dead_inv [OF that(1)] prune_dead_live _ assms(3,4) _ assms(6)])
    show "rows_nul_free (ld_locks (snd (prune_dead (en_alive env) (en_now env) d)))"
      using that(2) by (auto simp: rows_nul_free_def prune_dead_rows)
    show "try_acquire (en_alive env) (snd (prune_dead (en_alive env) (en_now env) d))
      root paths holder pid memo ttl (en_now env) = (out, snd (g d))"
      using that(3) by (simp add: g_def prod_eq_iff)
  qed
  from assms(5) [unfolded acquire_resolved_def] show ?thesis
  proof (cases rule: via_daemon_Inr)
    case (served d resp ms)
    then have run: "mem_store_of env (\<lambda>d. Inr (g d)) \<lparr>ms_state = d, ms_fs = sys_fs sys\<rparr> = (Inr out, ms)"
      by (auto simp: lock_dispatch_def answer_def acquire_with_def g_def split: prod.splits sum.splits lock_response.splits)
    have "mem_ok False \<lparr>ms_state = d, ms_fs = sys_fs sys\<rparr>"
      using assms(1) served(1) by (simp add: sys_ok_def)
    from commit_effect [OF this run] granted served assms(2) show ?thesis
      by (auto simp: lock_registry_def)
  next
    case local
    then have run: "file_commit env sys (\<lambda>d. Inr (g d)) (sys_fs sys) = (Inr out, sys_fs sys')"
      and down: "sys_daemon sys' = sys_daemon sys"
      by (auto simp: acquire_with_def g_def dest!: direct_Inr)
    have none: "sys_daemon sys = None"
      using run by (auto simp: file_commit_def flock_commit_def split: if_splits)
    then have ok: "file_ok (sys_fs sys)" using assms(1) by (simp add: sys_ok_def)
    obtain d where d: "lock_inv d" "fst (g d) = out"
        "ld_locks (file_view lock_document (sys_fs sys')) = ld_locks (snd (g d))"
        "d = doc_default lock_document \<or> d = file_view lock_document (sys_fs sys)"
      using flock_effect [OF ok ginv run [unfolded file_commit_def]] by blast
    have "rows_nul_free (ld_locks d)"
      using d(4) assms(2) none by (auto simp: lock_registry_def lock_document_def rows_nul_free_def)
    with granted [OF d(1) _ d(2)] d(3) none down show ?thesis by (simp add: lock_registry_def)
  qed
qed

lemma demo_acquire:
  "\<exists>out sys'. acquire_resolved demo_env NoLink ''/r'' ''S'' [''src''] None None 60 (sys_down empty_fs) = (Inr out, sys')
     \<and> ao_conflicts out = []"
  by (simp add: acquire_resolved_def via_daemon_down direct_def sys_down_def file_commit_def acquire_with_def
      flock_commit_def with_lock_def with_lock_via_def with_file_lock_def doc_read_def doc_write_def
      empty_fs_def demo_env_def clean_io_def lock_document_def prune_dead_def try_acquire_def check_def
      bt_retain_def bt_get_def via_daemon_def daemon_request_def)

theorem acquire_resolved_grants_witness:
  "held_for (\<lambda>_. True) 9 ''/r'' ''S'' (ld_locks (lock_registry (snd (acquire_resolved demo_env NoLink ''/r'' ''S'' [''src'']
     None None 60 (sys_down empty_fs))))) ''src''"
proof -
  obtain out sys' where run: "acquire_resolved demo_env NoLink ''/r'' ''S'' [''src''] None None 60 (sys_down empty_fs) = (Inr out, sys')"
      "ao_conflicts out = []"
    using demo_acquire by blast
  have "sys_ok False (sys_down empty_fs)" by (simp add: sys_ok_def sys_down_def empty_fs_ok)
  moreover have "rows_nul_free (ld_locks (lock_registry (sys_down empty_fs)))"
    by (simp add: lock_registry_def sys_down_def empty_fs_def file_view_def doc_read_def lock_document_def rows_nul_free_def)
  ultimately show ?thesis
    using acquire_resolved_grants [OF _ _ _ _ run] by (simp add: run nul_free_def demo_env_simps)
qed

end
