(* ===== verification/DK_Text.thy ===== *)
theory DK_Text
  imports DK_Prelude
begin

text \<open>
  The text operations of the Rust standard library that the port registry and its commands use:
  decimal numerals (\<open>to_string\<close>, \<open>parse\<close>), \<open>split_whitespace\<close>, \<open>contains\<close>, and the last component of a path
  (\<open>paths::leaf\<close> over \<open>Path::file_name\<close>).
\<close>

section \<open>Decimal numerals\<close>

definition digit_char :: "nat \<Rightarrow> char" where
  "digit_char n = char_of (48 + n)"

definition digit_val :: "char \<Rightarrow> nat option" where
  "digit_val c = (let n = of_char c :: nat in if 48 \<le> n \<and> n \<le> 57 then Some (n - 48) else None)"

fun dec :: "nat \<Rightarrow> string" where
  "dec n = (if n < 10 then [digit_char n] else dec (n div 10) @ [digit_char (n mod 10)])"

declare dec.simps [simp del]

fun undec :: "nat \<Rightarrow> string \<Rightarrow> nat option" where
  "undec acc [] = Some acc"
| "undec acc (c # cs) = (case digit_val c of Some v \<Rightarrow> undec (10 * acc + v) cs | None \<Rightarrow> None)"

lemma digit_val_char [simp]: "n < 10 \<Longrightarrow> digit_val (digit_char n) = Some n"
  by (simp add: digit_val_def digit_char_def)

lemma undec_append:
  "undec acc (xs @ ys) = (case undec acc xs of Some a \<Rightarrow> undec a ys | None \<Rightarrow> None)"
  by (induction acc xs rule: undec.induct) (auto split: option.split)

lemma undec_dec_acc: "undec 0 (dec n) = Some n"
proof (induction n rule: dec.induct)
  case (1 n)
  show ?case
  proof (cases "n < 10")
    case True
    then show ?thesis by (subst dec.simps) simp
  next
    case False
    with 1 have "undec 0 (dec (n div 10)) = Some (n div 10)" by simp
    with False show ?thesis by (subst dec.simps) (simp add: undec_append)
  qed
qed

lemma dec_not_Nil [simp]: "dec n \<noteq> []"
  by (subst dec.simps) simp

lemma dec_zero: "dec 0 = ''0''"
  by (subst dec.simps) (simp add: digit_char_def char_of_def bit_0)

lemma dec_hd: "0 < n \<Longrightarrow> \<exists>c cs. dec n = c # cs \<and> c \<noteq> CHR ''0'' \<and> c \<noteq> CHR ''+''"
proof (induction n rule: dec.induct)
  case (1 n)
  show ?case
  proof (cases "n < 10")
    case True
    then have "dec n = [digit_char n]" by (subst dec.simps) simp
    moreover have "digit_val (CHR ''0'') = Some 0" "digit_val (CHR ''+'') = None"
      by (simp_all add: digit_val_def)
    then have "digit_char n \<noteq> CHR ''0''" "digit_char n \<noteq> CHR ''+''"
      using digit_val_char [OF True] \<open>0 < n\<close> by auto
    ultimately show ?thesis by simp
  next
    case False
    then have "0 < n div 10" by linarith
    then obtain c cs where "dec (n div 10) = c # cs" "c \<noteq> CHR ''0''" "c \<noteq> CHR ''+''"
      using 1(1) [OF False] by auto
    with False show ?thesis by (subst dec.simps) simp
  qed
qed

text \<open>\<open>str::parse::<u16>\<close> takes a leading \<open>+\<close> and leading zeros; a JSON object's integer key does not.\<close>

definition parse_uint :: "string \<Rightarrow> ('a::len) word option" where
  "parse_uint s =
     (let ds = (case s of c # cs \<Rightarrow> if c = CHR ''+'' then cs else s | [] \<Rightarrow> [])
      in if ds = [] then None
         else case undec 0 ds of
                Some n \<Rightarrow> if n < 2 ^ LENGTH('a) then Some (word_of_nat n) else None
              | None \<Rightarrow> None)"

definition json_key_uint :: "string \<Rightarrow> ('a::len) word option" where
  "json_key_uint s =
     (case s of
        [] \<Rightarrow> None
      | c # cs \<Rightarrow> if c = CHR ''+'' \<or> c = CHR ''0'' \<and> cs \<noteq> [] then None else parse_uint s)"

definition show_uint :: "('a::len) word \<Rightarrow> string" where
  "show_uint w = dec (unat w)"

lemma parse_show_uint [simp]: "parse_uint (show_uint w) = Some (w :: 'a::len word)"
proof -
  obtain c cs where s: "dec (unat w) = c # cs" "c \<noteq> CHR ''+''"
  proof (cases "unat w = 0")
    case True
    then have "dec (unat w) = [CHR ''0'']" by (simp add: dec_zero)
    then show ?thesis by (auto intro: that)
  next
    case False
    then show ?thesis using dec_hd [of "unat w"] by (auto intro: that)
  qed
  then have "undec 0 (c # cs) = Some (unat w)" using undec_dec_acc [of "unat w"] by simp
  with s show ?thesis
    by (simp add: parse_uint_def show_uint_def Let_def)
qed

lemma json_key_show_uint [simp]: "json_key_uint (show_uint w) = Some (w :: 'a::len word)"
proof (cases "unat w = 0")
  case True
  then have "dec (unat w) = [CHR ''0'']" by (simp add: dec_zero)
  then show ?thesis using parse_show_uint [of w] by (simp add: json_key_uint_def show_uint_def)
next
  case False
  then obtain c cs where "dec (unat w) = c # cs" "c \<noteq> CHR ''0''" "c \<noteq> CHR ''+''"
    using dec_hd [of "unat w"] by auto
  then show ?thesis using parse_show_uint [of w] by (simp add: json_key_uint_def show_uint_def)
qed

section \<open>Whitespace\<close>

text \<open>
  The characters of Unicode's \<open>White_Space\<close> as their UTF-8 bytes; \<open>split_whitespace\<close> gives the words
  between them. No sequence is a prefix of another, and none but the space itself holds a space.
\<close>

definition ws_seqs :: "string list" where
  "ws_seqs =
     [[CHR 0x09], [CHR 0x0A], [CHR 0x0B], [CHR 0x0C], [CHR 0x0D], [CHR 0x20],
      [CHR 0xC2, CHR 0x85], [CHR 0xC2, CHR 0xA0], [CHR 0xE1, CHR 0x9A, CHR 0x80],
      [CHR 0xE2, CHR 0x80, CHR 0x80], [CHR 0xE2, CHR 0x80, CHR 0x81], [CHR 0xE2, CHR 0x80, CHR 0x82],
      [CHR 0xE2, CHR 0x80, CHR 0x83], [CHR 0xE2, CHR 0x80, CHR 0x84], [CHR 0xE2, CHR 0x80, CHR 0x85],
      [CHR 0xE2, CHR 0x80, CHR 0x86], [CHR 0xE2, CHR 0x80, CHR 0x87], [CHR 0xE2, CHR 0x80, CHR 0x88],
      [CHR 0xE2, CHR 0x80, CHR 0x89], [CHR 0xE2, CHR 0x80, CHR 0x8A], [CHR 0xE2, CHR 0x80, CHR 0xA8],
      [CHR 0xE2, CHR 0x80, CHR 0xA9], [CHR 0xE2, CHR 0x80, CHR 0xAF], [CHR 0xE2, CHR 0x81, CHR 0x9F],
      [CHR 0xE3, CHR 0x80, CHR 0x80]]"

definition ws_len :: "string \<Rightarrow> nat" where
  "ws_len s = (case find (\<lambda>p. prefix p s) ws_seqs of Some p \<Rightarrow> length p | None \<Rightarrow> 0)"

lemma ws_seqs_space: "p \<in> set ws_seqs \<Longrightarrow> p \<noteq> [] \<and> (CHR '' '' \<in> set p \<longrightarrow> p = '' '')"
  by (auto simp: ws_seqs_def)

lemma ws_len_zero: "ws_len s = 0 \<longleftrightarrow> (\<forall>p\<in>set ws_seqs. \<not> prefix p s)"
proof
  assume z: "ws_len s = 0"
  show "\<forall>p\<in>set ws_seqs. \<not> prefix p s"
  proof (cases "find (\<lambda>p. prefix p s) ws_seqs")
    case None
    then show ?thesis by (auto simp: find_None_iff)
  next
    case (Some p)
    then have "p \<in> set ws_seqs" by (auto dest: find_Some_set)
    with z Some ws_seqs_space [of p] show ?thesis by (simp add: ws_len_def)
  qed
next
  assume "\<forall>p\<in>set ws_seqs. \<not> prefix p s"
  then have "find (\<lambda>p. prefix p s) ws_seqs = None" by (simp add: find_None_iff)
  then show "ws_len s = 0" by (simp add: ws_len_def)
qed

lemma ws_len_append: "ws_len (s @ z) = 0 \<Longrightarrow> ws_len s = 0"
  unfolding ws_len_zero using prefix_prefix [of _ s z] by blast

lemma ws_len_space: "ws_len (CHR '' '' # s) = 1"
proof -
  have "find (\<lambda>p. prefix p (CHR '' '' # s)) ws_seqs = Some '' ''" by (simp add: ws_seqs_def)
  then show ?thesis by (simp add: ws_len_def)
qed

lemma ws_len_before_space:
  assumes "s \<noteq> []" and "ws_len s = 0"
  shows "ws_len (s @ CHR '' '' # y) = 0"
  unfolding ws_len_zero
proof (intro ballI notI)
  fix p assume p: "p \<in> set ws_seqs" "prefix p (s @ CHR '' '' # y)"
  have no: "\<not> prefix p s" using assms(2) p(1) by (simp add: ws_len_zero)
  from p(2) no obtain r where r: "p = s @ r" "prefix r (CHR '' '' # y)" "r \<noteq> []"
    by (auto simp: prefix_append)
  then have "CHR '' '' \<in> set p" by (cases r) auto
  then have "p = '' ''" using ws_seqs_space [OF p(1)] by simp
  with r assms(1) no show False by (cases s) auto
qed

function ws_words :: "string \<Rightarrow> string \<Rightarrow> string list" where
  "ws_words cur [] = (if cur = [] then [] else [cur])"
| "ws_words cur (c # cs) =
     (if ws_len (c # cs) = 0 then ws_words (cur @ [c]) cs
      else (if cur = [] then [] else [cur]) @ ws_words [] (drop (ws_len (c # cs)) (c # cs)))"
  by pat_completeness auto

termination by (relation "measure (length \<circ> snd)") auto

declare ws_words.simps(2) [simp del]

definition one_line :: "string \<Rightarrow> string" where
  "one_line s = join '' '' (ws_words [] s)"

text \<open>A word: not empty, and no whitespace starts in it.\<close>

definition ws_free :: "string \<Rightarrow> bool" where
  "ws_free w \<longleftrightarrow> (\<forall>s. s \<noteq> [] \<and> suffix s w \<longrightarrow> ws_len s = 0)"

lemma ws_free_Cons: "ws_free (c # w) \<longleftrightarrow> ws_len (c # w) = 0 \<and> ws_free w"
  by (auto simp: ws_free_def suffix_Cons)

lemma ws_words_word:
  "ws_free w \<Longrightarrow> ws_words cur (w @ CHR '' '' # rest) = (if cur @ w = [] then [] else [cur @ w]) @ ws_words [] rest"
proof (induction w arbitrary: cur)
  case Nil
  show ?case by (simp add: ws_words.simps(2) ws_len_space)
next
  case (Cons c w)
  then have "ws_len (c # w) = 0" "ws_free w" by (simp_all add: ws_free_Cons)
  moreover have "ws_len (c # w @ CHR '' '' # rest) = 0"
    using ws_len_before_space [of "c # w" rest] calculation(1) by simp
  ultimately show ?case using Cons.IH [of "cur @ [c]"] by (simp add: ws_words.simps(2))
qed

lemma ws_words_last: "ws_free w \<Longrightarrow> ws_words cur w = (if cur @ w = [] then [] else [cur @ w])"
  by (induction w arbitrary: cur) (simp_all add: ws_words.simps(2) ws_free_Cons)

lemma ws_words_join:
  "\<forall>w\<in>set ws. w \<noteq> [] \<and> ws_free w \<Longrightarrow> ws_words [] (join '' '' ws) = ws"
proof (induction ws)
  case (Cons w ws)
  then show ?case
    using ws_words_word [of w "[]" "join '' '' ws"] ws_words_last [of w "[]"]
    by (cases ws) (auto simp: join_Cons)
qed simp

lemma ws_words_free:
  assumes "\<And>z. suffix z cur \<Longrightarrow> z \<noteq> [] \<Longrightarrow> ws_len (z @ s) = 0"
  shows "w \<in> set (ws_words cur s) \<Longrightarrow> w \<noteq> [] \<and> ws_free w"
  using assms
proof (induction cur s rule: ws_words.induct)
  case (1 cur)
  then show ?case by (auto simp: ws_free_def split: if_splits)
next
  case (2 cur c cs)
  show ?case
  proof (cases "ws_len (c # cs) = 0")
    case True
    have "ws_len (z @ cs) = 0" if z: "suffix z (cur @ [c])" "z \<noteq> []" for z
    proof -
      from z obtain z' where "z = z' @ [c]" "suffix z' cur"
        by (auto simp: suffix_snoc)
      with 2(4) [of z'] True show ?thesis by (cases "z' = []") auto
    qed
    with 2(1) [OF True] 2(3) True show ?thesis by (simp add: ws_words.simps(2))
  next
    case False
    have "ws_free cur" using 2(4) ws_len_append by (auto simp: ws_free_def)
    with 2(2) [OF False] 2(3) False show ?thesis by (auto simp: ws_words.simps(2) split: if_splits)
  qed
qed

lemma one_line_idem [simp]: "one_line (one_line s) = one_line s"
  using ws_words_free [of "[]" s] ws_words_join [of "ws_words [] s"]
  by (simp add: one_line_def)

text \<open>\<open>trim\<close>: no whitespace character at either end. \<open>eq_ignore_ascii_case\<close> folds ASCII letters only.\<close>

function trim_start :: "string \<Rightarrow> string" where
  "trim_start s = (if ws_len s = 0 \<or> s = [] then s else trim_start (drop (ws_len s) s))"
  by pat_completeness auto

termination by (relation "measure length") auto

function trim_end :: "string \<Rightarrow> string" where
  "trim_end s =
     (case find (\<lambda>p. suffix p s) ws_seqs of
        Some p \<Rightarrow> if p = [] then s else trim_end (take (length s - length p) s)
      | None \<Rightarrow> s)"
  by pat_completeness auto

termination
  by (relation "measure length") (auto dest!: find_Some_set suffix_length_le simp flip: length_greater_0_conv)

declare trim_start.simps [simp del] trim_end.simps [simp del]

definition trim :: "string \<Rightarrow> string" where
  "trim s = trim_end (trim_start s)"

definition ascii_lower :: "char \<Rightarrow> char" where
  "ascii_lower c = (let n = of_char c :: nat in if 65 \<le> n \<and> n \<le> 90 then char_of (n + 32) else c)"

definition eq_ascii_case :: "string \<Rightarrow> string \<Rightarrow> bool" where
  "eq_ascii_case a b \<longleftrightarrow> map ascii_lower a = map ascii_lower b"

section \<open>Substrings and paths\<close>

fun contains :: "string \<Rightarrow> string \<Rightarrow> bool" where
  "contains [] t = (t = [])"
| "contains (c # cs) t = (prefix t (c # cs) \<or> contains cs t)"

definition leaf :: "string \<Rightarrow> string option" where
  "leaf path =
     (case rev (filter (\<lambda>c. c \<noteq> [] \<and> c \<noteq> ''.'') (split_on (CHR ''/'') path)) of
        [] \<Rightarrow> None
      | c # _ \<Rightarrow> if c = ''..'' then None else Some c)"

lemma contains_iff: "contains s t \<longleftrightarrow> sublist t s"
  by (induction s) (auto simp: sublist_Cons_right)

end
