(* ===== verification/Path_Model.thy ===== *)
theory Path_Model
  imports DK_Text
begin

text \<open>
  What the source uses of \<open>std::path\<close> on Unix: a path is its bytes, read as components. \<open>components\<close> skips repeated separators
  and every \<open>.\<close> but a leading one; \<open>parent\<close> cuts the text of the last component and what trails the one before it; \<open>join\<close>
  gives way to an absolute path. Two paths are equal, and one starts with another, by their components.
\<close>

datatype Component = RootDir | CurDir | ParentDir | Normal string

definition is_absolute :: "string \<Rightarrow> bool" where
  "is_absolute p \<longleftrightarrow> (case p of c # _ \<Rightarrow> c = CHR ''/'' | [] \<Rightarrow> False)"

definition leading_cur :: "string \<Rightarrow> bool" where
  "leading_cur p \<longleftrightarrow> hd (split_on (CHR ''/'') p) = ''.''"

definition is_piece :: "string \<Rightarrow> bool" where
  "is_piece c \<longleftrightarrow> c \<noteq> [] \<and> c \<noteq> ''.''"

definition piece_component :: "string \<Rightarrow> Component" where
  "piece_component c = (if c = ''..'' then ParentDir else Normal c)"

definition path_components :: "string \<Rightarrow> Component list" where
  "path_components p =
     (if is_absolute p then [RootDir] else if leading_cur p then [CurDir] else [])
       @ map piece_component (filter is_piece (split_on (CHR ''/'') p))"

definition same_components :: "string \<Rightarrow> string \<Rightarrow> bool" where
  "same_components a b \<longleftrightarrow> path_components a = path_components b"

definition path_join :: "string \<Rightarrow> string \<Rightarrow> string" where
  "path_join a b =
     (if is_absolute b then b
      else if a = [] \<or> last a = CHR ''/'' then a @ b
      else a @ CHR ''/'' # b)"

text \<open>\<open>strip_prefix\<close> and \<open>starts_with\<close>: the components that follow those of the base.\<close>

definition strip_base :: "string \<Rightarrow> string \<Rightarrow> Component list option" where
  "strip_base base p = strip_prefix (path_components base) (path_components p)"

definition starts_with :: "string \<Rightarrow> string \<Rightarrow> bool" where
  "starts_with p base \<longleftrightarrow> strip_base base p \<noteq> None"

text \<open>The parent: back over separators and dots, over one component, and back again.\<close>

definition body_start :: "string \<Rightarrow> nat" where
  "body_start p = (if is_absolute p \<or> leading_cur p then 1 else 0)"

definition back_piece :: "string \<Rightarrow> string" where
  "back_piece p = rev (takeWhile (\<lambda>c. c \<noteq> CHR ''/'') (rev (drop (body_start p) p)))"

definition cut_back :: "string \<Rightarrow> string" where
  "cut_back p =
     (let n = length (back_piece p)
      in take (length p - (if body_start p + n = length p then n else n + 1)) p)"

lemma cut_back_shorter: "body_start p < length p \<Longrightarrow> length (cut_back p) < length p"
  by (cases "back_piece p") (auto simp: cut_back_def)

function trim_back :: "string \<Rightarrow> string" where
  "trim_back p = (if body_start p < length p \<and> \<not> is_piece (back_piece p) then trim_back (cut_back p) else p)"
  by pat_completeness auto

termination by (relation "measure length") (auto intro: cut_back_shorter)

declare trim_back.simps [simp del]

definition path_parent :: "string \<Rightarrow> string option" where
  "path_parent p =
     (let q = trim_back p in
      if body_start q < length q then Some (trim_back (cut_back q))
      else if is_absolute q then None
      else if leading_cur q then Some []
      else None)"

definition file_name :: "string \<Rightarrow> string option" where
  "file_name p =
     (case rev (path_components p) of Normal s # _ \<Rightarrow> Some s | _ \<Rightarrow> None)"

lemma trim_back_length: "length (trim_back p) \<le> length p"
proof (induction p rule: trim_back.induct)
  case (1 p)
  show ?case
  proof (cases "body_start p < length p \<and> \<not> is_piece (back_piece p)")
    case True
    then have "length (trim_back (cut_back p)) \<le> length (cut_back p)" using 1 by blast
    also have "\<dots> < length p" using True by (intro cut_back_shorter) simp
    finally show ?thesis using True by (simp add: trim_back.simps [of p])
  qed (auto simp: trim_back.simps [of p])
qed

lemma path_parent_shorter: "path_parent p = Some q \<Longrightarrow> length q < length p"
proof -
  assume some: "path_parent p = Some q"
  let ?r = "trim_back p"
  have r: "length ?r \<le> length p" by (rule trim_back_length)
  show "length q < length p"
  proof (cases "body_start ?r < length ?r")
    case True
    then have "q = trim_back (cut_back ?r)" using some by (simp add: path_parent_def Let_def)
    then have "length q = length (trim_back (cut_back ?r))" by simp
    then show ?thesis
      using trim_back_length [of "cut_back ?r"] cut_back_shorter [OF True] r by linarith
  next
    case False
    then have "q = [] \<and> leading_cur ?r"
      using some by (auto simp: path_parent_def Let_def split: if_splits)
    moreover from this have "?r \<noteq> []" by (auto simp: leading_cur_def)
    ultimately show ?thesis using r by (cases ?r) auto
  qed
qed

function ancestors :: "string \<Rightarrow> string list" where
  "ancestors p = p # (case path_parent p of Some q \<Rightarrow> ancestors q | None \<Rightarrow> [])"
  by pat_completeness auto

termination by (relation "measure length") (auto intro: path_parent_shorter)

declare ancestors.simps [simp del]

end
