(* ===== verification/Caller.thy ===== *)
theory Caller
  imports DK_Text
begin

text \<open>
  Who is running a command, a coding agent or a person (\<open>crates/devkit-common/src/caller.rs\<close>), and the assignments that claim to
  be one of them, which rules over shell commands name. The environment is the argument \<open>vars\<close>.
\<close>

section \<open>Who calls\<close>

datatype Caller = Human | Agent

definition HARNESS_SESSION_VARS :: "string list" where
  "HARNESS_SESSION_VARS = [''CLAUDE_CODE_SESSION_ID'', ''CODEX_SESSION_ID'']"

definition nonempty_var :: "(string \<Rightarrow> string option) \<Rightarrow> string \<Rightarrow> string option" where
  "nonempty_var vars k = (case vars k of Some s \<Rightarrow> if s = [] then None else Some s | None \<Rightarrow> None)"

definition decide_caller :: "bool \<Rightarrow> bool \<Rightarrow> Caller" where
  "decide_caller harness_session is_tty = (if harness_session \<or> \<not> is_tty then Agent else Human)"

definition to_ascii_lowercase :: "string \<Rightarrow> string" where
  "to_ascii_lowercase s = map ascii_lower s"

definition parse_caller_override :: "string option \<Rightarrow> Caller option" where
  "parse_caller_override val =
     (case map_option (\<lambda>v. to_ascii_lowercase (trim v)) val of
        Some v \<Rightarrow> if v = ''agent'' then Some Agent else if v = ''human'' then Some Human else None
      | None \<Rightarrow> None)"

definition canonical_caller_assignment :: "string \<Rightarrow> string option" where
  "canonical_caller_assignment word =
     (case strip_prefix ''DEVKIT_CALLER='' word of
        None \<Rightarrow> None
      | Some v \<Rightarrow>
          (case parse_caller_override (Some v) of
             Some Human \<Rightarrow> Some ''DEVKIT_CALLER=human''
           | Some Agent \<Rightarrow> Some ''DEVKIT_CALLER=agent''
           | None \<Rightarrow> None))"

definition caller_assignment_could_read :: "string \<Rightarrow> string \<Rightarrow> bool option" where
  "caller_assignment_could_read canonical start =
     (case (strip_prefix ''DEVKIT_CALLER='' canonical, strip_prefix ''DEVKIT_CALLER='' start) of
        (Some v, Some s) \<Rightarrow>
          (let known = to_ascii_lowercase (trim_start s);
               word = trim_end known
           in Some (if length word < length known then word = v else prefix word v))
      | _ \<Rightarrow> None)"

definition resolve_caller :: "Caller option \<Rightarrow> bool \<Rightarrow> bool \<Rightarrow> Caller" where
  "resolve_caller over harness_session is_tty =
     (case over of
        Some c \<Rightarrow> if c = Human \<and> harness_session then Agent else c
      | None \<Rightarrow> decide_caller harness_session is_tty)"

definition caller :: "(string \<Rightarrow> string option) \<Rightarrow> bool \<Rightarrow> Caller" where
  "caller vars is_tty =
     resolve_caller (parse_caller_override (vars ''DEVKIT_CALLER''))
       (list_ex (\<lambda>v. nonempty_var vars v \<noteq> None) HARNESS_SESSION_VARS) is_tty"

section \<open>Trimming\<close>

text \<open>A text of whole whitespace characters, and one that does not stop within a whitespace character.\<close>

definition spaces :: "string \<Rightarrow> bool" where
  "spaces w \<longleftrightarrow> (\<exists>ps. set ps \<subseteq> set ws_seqs \<and> w = concat ps)"

definition char_boundary :: "string \<Rightarrow> bool" where
  "char_boundary s \<longleftrightarrow> (\<forall>p\<in>set ws_seqs. \<forall>n\<in>{0<..<length p}. \<not> suffix (take n p) s)"

lemma ws_prefix_free: "p \<in> set ws_seqs \<Longrightarrow> q \<in> set ws_seqs \<Longrightarrow> prefix p q \<Longrightarrow> p = q"
  by (simp add: ws_seqs_def) (elim disjE; simp)

lemma ws_suffix_free: "p \<in> set ws_seqs \<Longrightarrow> q \<in> set ws_seqs \<Longrightarrow> suffix p q \<Longrightarrow> p = q"
  by (simp add: ws_seqs_def) (elim disjE; simp add: suffix_def Cons_eq_append_conv)

lemma ws_not_empty: "p \<in> set ws_seqs \<Longrightarrow> p \<noteq> []"
  using ws_seqs_space by blast

lemma trim_end_unique:
  assumes "set ps \<subseteq> set ws_seqs" and "\<forall>p\<in>set ws_seqs. \<not> suffix p x"
  shows "trim_end (x @ concat ps) = x"
  using assms(1)
proof (induction ps rule: rev_induct)
  case Nil
  have "find (\<lambda>p. suffix p x) ws_seqs = None" using assms(2) by (simp add: find_None_iff)
  then show ?case by (simp add: trim_end.simps [of x])
next
  case (snoc p ps)
  let ?u = "x @ concat ps @ p"
  have p: "p \<in> set ws_seqs" "suffix p ?u" using snoc.prems by (auto simp: suffix_def)
  then have "find (\<lambda>p. suffix p ?u) ws_seqs \<noteq> None" by (auto simp: find_None_iff)
  then obtain q where q: "find (\<lambda>p. suffix p ?u) ws_seqs = Some q" by blast
  then have "q \<in> set ws_seqs" "suffix q ?u" by (auto simp: find_Some_iff)
  then have "q = p" using p ws_suffix_free suffix_same_cases [of p ?u q] by metis
  then have "trim_end ?u = trim_end (x @ concat ps)"
    using q ws_not_empty [OF p(1)] by (simp add: trim_end.simps [of ?u])
  then show ?case using snoc by simp
qed

lemma trim_end_parts: "\<exists>ps. set ps \<subseteq> set ws_seqs \<and> u = trim_end u @ concat ps \<and> (\<forall>p\<in>set ws_seqs. \<not> suffix p (trim_end u))"
proof (induction u rule: trim_end.induct)
  case (1 u)
  show ?case
  proof (cases "find (\<lambda>p. suffix p u) ws_seqs")
    case None
    then have "trim_end u = u" by (simp add: trim_end.simps [of u])
    with None show ?thesis by (intro exI [of _ "[]"]) (simp add: find_None_iff)
  next
    case (Some p)
    then have p: "p \<in> set ws_seqs" "suffix p u" by (auto simp: find_Some_iff)
    then obtain v where u: "u = v @ p" by (auto simp: suffix_def)
    have ne: "p \<noteq> []" by (rule ws_not_empty [OF p(1)])
    then have t: "trim_end u = trim_end v" using Some by (simp add: u trim_end.simps [of "v @ p"])
    obtain ps where "set ps \<subseteq> set ws_seqs \<and> v = trim_end v @ concat ps \<and> (\<forall>p\<in>set ws_seqs. \<not> suffix p (trim_end v))"
      using 1 [OF Some ne] u by auto
    then show ?thesis using p(1) u t by (intro exI [of _ "ps @ [p]"]) auto
  qed
qed

lemma trim_start_append:
  assumes "char_boundary s"
  shows "trim_start (s @ t) = (if trim_start s = [] then trim_start t else trim_start s @ t)"
  using assms
proof (induction s rule: trim_start.induct)
  case (1 s)
  show ?case
  proof (cases "s = []")
    case True
    then show ?thesis by (simp add: trim_start.simps [of "[]"])
  next
    case False
    have same: "prefix p (s @ t) \<longleftrightarrow> prefix p s" if p: "p \<in> set ws_seqs" for p
    proof
      assume "prefix p (s @ t)"
      then consider "prefix p s" | "strict_prefix s p"
        by (metis prefix_append prefix_order.le_less prefix_same_cases prefixI)
      then show "prefix p s"
      proof cases
        case 2
        then obtain r where r: "p = s @ r" "r \<noteq> []" by (auto simp: strict_prefix_def prefix_def)
        then have "take (length s) p = s" "length s \<in> {0<..<length p}" using False by auto
        then show ?thesis using 1(2) p unfolding char_boundary_def by (metis suffix_order.refl)
      qed
    qed (simp add: prefix_append)
    then have len: "ws_len (s @ t) = ws_len s"
      unfolding ws_len_def by (simp cong: find_cong)
    show ?thesis
    proof (cases "ws_len s = 0")
      case True
      then show ?thesis using False len by (simp add: trim_start.simps [of "s @ t"] trim_start.simps [of s])
    next
      case w: False
      have le: "ws_len s \<le> length s" by (auto simp: ws_len_def split: option.splits dest!: find_Some_iff [THEN iffD1] prefix_length_le)
      have "char_boundary (drop (ws_len s) s)"
        using 1(2) suffix_drop suffix_order.trans unfolding char_boundary_def by blast
      then have "trim_start (drop (ws_len s) s @ t) =
          (if trim_start (drop (ws_len s) s) = [] then trim_start t else trim_start (drop (ws_len s) s) @ t)"
        using 1(1) False w by blast
      then show ?thesis using False len w le by (simp add: trim_start.simps [of "s @ t"] trim_start.simps [of s])
    qed
  qed
qed

text \<open>Lower case changes no whitespace, and makes none.\<close>

lemma lower_ws: "p \<in> set ws_seqs \<Longrightarrow> to_ascii_lowercase p = p"
  by (simp add: ws_seqs_def) (elim disjE; simp add: to_ascii_lowercase_def ascii_lower_def)

lemma lower_is_ws: "p \<in> set ws_seqs \<Longrightarrow> to_ascii_lowercase z = p \<Longrightarrow> z = p"
proof -
  have eq: "ascii_lower c = b \<Longrightarrow> c = b" if "(of_char b :: nat) < 97 \<or> 122 < (of_char b :: nat)" for b c
    using that by (auto simp: ascii_lower_def Let_def split: if_splits)
  assume p: "p \<in> set ws_seqs" and z: "to_ascii_lowercase z = p"
  have "\<forall>b\<in>set p. (of_char b :: nat) < 97 \<or> 122 < (of_char b :: nat)"
    using p by (simp add: ws_seqs_def) (elim disjE; simp)
  moreover have "\<forall>c\<in>set z. ascii_lower c \<in> set p" using z by (auto simp: to_ascii_lowercase_def)
  ultimately have "map ascii_lower z = z" using eq by (intro map_idI) metis
  then show "z = p" using z by (simp add: to_ascii_lowercase_def)
qed

lemma lower_append: "to_ascii_lowercase (a @ b) = to_ascii_lowercase a @ to_ascii_lowercase b"
  by (simp add: to_ascii_lowercase_def)

lemma lower_spaces: "set ps \<subseteq> set ws_seqs \<Longrightarrow> to_ascii_lowercase (concat ps) = concat ps"
proof (induction ps)
  case Nil
  then show ?case by (simp add: to_ascii_lowercase_def)
qed (simp add: lower_append lower_ws)

lemma lower_suffix: "p \<in> set ws_seqs \<Longrightarrow> suffix p (to_ascii_lowercase u) \<Longrightarrow> suffix p u"
proof -
  assume p: "p \<in> set ws_seqs" "suffix p (to_ascii_lowercase u)"
  then obtain a b where "u = a @ b" "to_ascii_lowercase b = p"
    by (auto simp: suffix_def to_ascii_lowercase_def map_eq_append_conv)
  then show "suffix p u" using lower_is_ws [OF p(1)] by (auto simp: suffix_def)
qed

lemma lower_trim_end: "trim_end (to_ascii_lowercase u) = to_ascii_lowercase (trim_end u)"
proof -
  obtain ps where ps: "set ps \<subseteq> set ws_seqs" "u = trim_end u @ concat ps" "\<forall>p\<in>set ws_seqs. \<not> suffix p (trim_end u)"
    using trim_end_parts by blast
  have "to_ascii_lowercase u = to_ascii_lowercase (trim_end u) @ concat ps"
    using ps(2) lower_spaces [OF ps(1)] lower_append by metis
  then show ?thesis using trim_end_unique [OF ps(1)] lower_suffix ps(3) by metis
qed

section \<open>Assignments known by their start\<close>

definition caller_name :: "string \<Rightarrow> bool" where
  "caller_name v \<longleftrightarrow> v = ''human'' \<or> v = ''agent''"

lemma name_no_ws: "caller_name v \<Longrightarrow> p \<in> set ws_seqs \<Longrightarrow> set p \<inter> set v = {}"
  by (simp add: ws_seqs_def caller_name_def) (elim disjE; simp)

lemma name_whole: "caller_name v \<Longrightarrow> p \<in> set ws_seqs \<Longrightarrow> v = a @ p @ b \<Longrightarrow> False"
  using name_no_ws [of v p] ws_not_empty [of p] by (cases p) auto

lemma name_trim_end: "caller_name v \<Longrightarrow> to_ascii_lowercase x = v \<Longrightarrow> \<forall>p\<in>set ws_seqs. \<not> suffix p x"
proof (intro ballI notI)
  fix p assume v: "caller_name v" "to_ascii_lowercase x = v" and p: "p \<in> set ws_seqs" "suffix p x"
  then obtain a where "x = a @ p" by (auto simp: suffix_def)
  then have "v = to_ascii_lowercase a @ p @ []" using v(2) lower_ws [OF p(1)] by (simp add: lower_append)
  then show False using name_whole v(1) p(1) by blast
qed

lemma trim_name: "caller_name v \<Longrightarrow> trim_start (v @ t) = v @ t"
proof -
  assume v: "caller_name v"
  have "\<not> prefix p (v @ t)" if p: "p \<in> set ws_seqs" for p
    using name_no_ws [OF v p] ws_not_empty [OF p] v by (cases p; cases v) (auto simp: caller_name_def)
  then have "ws_len (v @ t) = 0" by (simp add: ws_len_zero)
  then show ?thesis by (simp add: trim_start.simps [of "v @ t"])
qed

text \<open>The start of some whitespace is whole unless it stops within a character.\<close>

lemma spaces_start:
  "r @ t = concat ps \<Longrightarrow> set ps \<subseteq> set ws_seqs \<Longrightarrow> char_boundary r \<Longrightarrow> \<exists>qs. set qs \<subseteq> set ws_seqs \<and> r = concat qs"
proof (induction ps arbitrary: r)
  case Nil
  then show ?case by (intro exI [of _ "[]"]) simp
next
  case (Cons p ps)
  consider z where "r = p @ z" "z @ t = concat ps" | z where "p = r @ z" "z \<noteq> []"
  proof -
    from Cons.prems(1) obtain us where "r = p @ us \<and> us @ t = concat ps \<or> r @ us = p \<and> t = us @ concat ps"
      by (auto simp: append_eq_append_conv2)
    then show thesis using that by (cases us) auto
  qed
  then show ?case
  proof cases
    case 1
    have "char_boundary z"
      using Cons.prems(3) unfolding 1(1) char_boundary_def by (metis suffix_append suffix_order.trans suffix_def)
    then obtain qs where "set qs \<subseteq> set ws_seqs" "z = concat qs" using Cons.IH [OF 1(2)] Cons.prems(2) by auto
    then show ?thesis using 1(1) Cons.prems(2) by (intro exI [of _ "p # qs"]) simp
  next
    case 2
    show ?thesis
    proof (cases "r = []")
      case False
      then have "take (length r) p = r" "length r \<in> {0<..<length p}" using 2 by auto
      moreover have "p \<in> set ws_seqs" using Cons.prems(2) by simp
      ultimately show ?thesis using Cons.prems(3) unfolding char_boundary_def by (metis suffix_order.refl)
    qed (auto intro: exI [of _ "[]"])
  qed
qed

lemma lower_name: "caller_name v \<Longrightarrow> to_ascii_lowercase v = v"
  by (auto simp: caller_name_def to_ascii_lowercase_def ascii_lower_def)

lemma length_lower [simp]: "length (to_ascii_lowercase s) = length s"
  by (simp add: to_ascii_lowercase_def)

lemma trim_shorter: "length (trim_end u) < length u \<longleftrightarrow> trim_end u \<noteq> u"
proof -
  obtain ps where "u = trim_end u @ concat ps" using trim_end_parts by blast
  then show ?thesis by (metis append_Nil2 append_eq_append_conv length_append less_add_same_cancel1 length_greater_0_conv less_irrefl)
qed

lemma trim_start_suffix: "suffix (trim_start s) s"
proof (induction s rule: trim_start.induct)
  case (1 s)
  then show ?case
    using suffix_drop [of "ws_len s" s] suffix_order.trans by (auto simp: trim_start.simps [of s])
qed

lemma trim_start_boundary: "char_boundary s \<Longrightarrow> char_boundary (trim_start s)"
  using trim_start_suffix suffix_order.trans unfolding char_boundary_def by blast

text \<open>Some rest makes the trimmed text read as a name exactly when it is that name and whitespace, or starts it.\<close>

lemma some_rest_reads:
  assumes v: "caller_name v" and u: "char_boundary u"
  shows "(\<exists>t. to_ascii_lowercase (trim_end (u @ t)) = v)
    \<longleftrightarrow> (if trim_end u \<noteq> u then to_ascii_lowercase (trim_end u) = v else prefix (to_ascii_lowercase u) v)"
    (is "?some \<longleftrightarrow> ?could")
proof
  assume ?some
  then obtain t where t: "to_ascii_lowercase (trim_end (u @ t)) = v" by blast
  define x where "x = trim_end (u @ t)"
  obtain ps where ps: "set ps \<subseteq> set ws_seqs" "u @ t = x @ concat ps" unfolding x_def using trim_end_parts by metis
  have x: "\<forall>p\<in>set ws_seqs. \<not> suffix p x" using name_trim_end [OF v] t x_def by blast
  from ps(2) obtain r where "x = u @ r \<or> u = x @ r \<and> r @ t = concat ps" by (auto simp: append_eq_append_conv2)
  then show ?could
  proof
    assume r: "x = u @ r"
    obtain qs where qs: "set qs \<subseteq> set ws_seqs" "u = trim_end u @ concat qs" using trim_end_parts by blast
    have whole: "v = to_ascii_lowercase (trim_end u) @ concat qs @ to_ascii_lowercase r"
      using t r qs lower_spaces [OF qs(1)] x_def lower_append by (metis append.assoc)
    have "qs = []" using name_whole [OF v, of "hd qs"] whole qs(1) by (cases qs) auto
    then have "trim_end u = u" using qs(2) by simp
    moreover have "prefix (to_ascii_lowercase u) v" using t r x_def lower_append by (metis prefixI)
    ultimately show ?could by simp
  next
    assume r: "u = x @ r \<and> r @ t = concat ps"
    have "char_boundary r"
      using u r unfolding char_boundary_def by (metis suffix_appendI)
    then obtain qs where qs: "set qs \<subseteq> set ws_seqs" "r = concat qs" using spaces_start r ps(1) by blast
    have "trim_end u = x" using trim_end_unique [OF qs(1) x] r qs(2) by simp
    then show ?could using t x_def by auto
  qed
next
  assume could: ?could
  show ?some
  proof (cases "trim_end u = u")
    case False
    then show ?thesis using could by (intro exI [of _ "[]"]) simp
  next
    case True
    then obtain r where r: "v = to_ascii_lowercase u @ r" using could by (auto simp: prefix_def)
    then have low: "to_ascii_lowercase (u @ r) = v"
      using r lower_name [OF v] by (simp add: lower_append)
    then have "trim_end (u @ r) = u @ r" using trim_end_unique [of "[]" "u @ r"] name_trim_end [OF v low] by simp
    then show ?thesis using low by (intro exI [of _ r]) simp
  qed
qed

text \<open>
  C20: what a half-known assignment may become. Of a \<open>DEVKIT_CALLER=\<close> assignment only the start is known, the rest being
  the value of some expansion: the answer is that it could read as the named caller exactly when some rest makes it read so.
\<close>

theorem could_read_exact:
  assumes "caller_name v" and "char_boundary s"
  shows "caller_assignment_could_read (''DEVKIT_CALLER='' @ v) (''DEVKIT_CALLER='' @ s) = Some True
    \<longleftrightarrow> (\<exists>t. canonical_caller_assignment (''DEVKIT_CALLER='' @ s @ t) = Some (''DEVKIT_CALLER='' @ v))"
proof -
  let ?u = "trim_start s" and ?low = to_ascii_lowercase
  have reads: "canonical_caller_assignment (''DEVKIT_CALLER='' @ w) = Some (''DEVKIT_CALLER='' @ v) \<longleftrightarrow> ?low (trim w) = v" for w
    using assms(1) by (auto simp: canonical_caller_assignment_def parse_caller_override_def caller_name_def)
  have could: "caller_assignment_could_read (''DEVKIT_CALLER='' @ v) (''DEVKIT_CALLER='' @ s) = Some True
      \<longleftrightarrow> (if trim_end ?u \<noteq> ?u then ?low (trim_end ?u) = v else prefix (?low ?u) v)"
    using trim_shorter [of ?u] by (auto simp: caller_assignment_could_read_def Let_def lower_trim_end length_lower)
  show ?thesis
  proof (cases "?u = []")
    case True
    have start: "trim_start (s @ v) = v"
      using trim_start_append [OF assms(2), of v] trim_name [OF assms(1), of "[]"] True by simp
    have "trim_end (v @ concat []) = v"
      by (rule trim_end_unique) (use name_trim_end [OF assms(1) lower_name [OF assms(1)]] in simp_all)
    then have "?low (trim (s @ v)) = v" using start lower_name [OF assms(1)] by (simp add: trim_def)
    moreover have "trim_end ([] @ concat []) = []"
      by (rule trim_end_unique) (use ws_not_empty in auto)
    ultimately show ?thesis unfolding could reads True by (auto simp: to_ascii_lowercase_def)
  next
    case False
    have "trim (s @ t) = trim_end (?u @ t)" for t using False trim_start_append [OF assms(2), of t] by (simp add: trim_def)
    then show ?thesis
      unfolding could reads using some_rest_reads [OF assms(1) trim_start_boundary [OF assms(2)]] by simp
  qed
qed

lemma ascii_boundary:
  assumes "\<forall>c\<in>set s. c \<notin> {CHR 0xC2, CHR 0xE1, CHR 0xE2, CHR 0xE3}"
  shows "char_boundary s"
  unfolding char_boundary_def
proof (intro ballI notI)
  fix p n assume p: "p \<in> set ws_seqs" "n \<in> {0<..<length p}" "suffix (take n p) s"
  then obtain c q m where "p = c # q" "n = Suc m" by (metis ws_not_empty greaterThanLessThan_iff gr0_conv_Suc neq_Nil_conv)
  then have "hd p \<in> set (take n p)" by simp
  then have "hd p \<in> set s" using p(3) by (auto simp: suffix_def)
  moreover have "1 < length p" using p(2) by auto
  then have "hd p \<in> {CHR 0xC2, CHR 0xE1, CHR 0xE2, CHR 0xE3}" using p(1) by (simp add: ws_seqs_def) (elim disjE; simp)
  ultimately show False using assms by blast
qed

theorem could_read_exact_witness:
  "(\<exists>t. canonical_caller_assignment (''DEVKIT_CALLER='' @ '' Hu'' @ t) = Some (''DEVKIT_CALLER='' @ ''human''))
   \<and> \<not> (\<exists>t. canonical_caller_assignment (''DEVKIT_CALLER='' @ ''hu '' @ t) = Some (''DEVKIT_CALLER='' @ ''human''))"
proof -
  have b: "char_boundary '' Hu''" "char_boundary ''hu ''" by (simp_all add: ascii_boundary)
  have "caller_assignment_could_read (''DEVKIT_CALLER='' @ ''human'') (''DEVKIT_CALLER='' @ '' Hu'') = Some True" by code_simp
  moreover have "caller_assignment_could_read (''DEVKIT_CALLER='' @ ''human'') (''DEVKIT_CALLER='' @ ''hu '') \<noteq> Some True" by code_simp
  ultimately show ?thesis
    using could_read_exact [of "''human''", OF _ b(1)] could_read_exact [of "''human''", OF _ b(2)] by (simp add: caller_name_def)
qed

text \<open>An agent is never taken for a person: only without a harness session, and on a terminal or by saying so.\<close>

lemma person_iff:
  "caller vars is_tty = Human \<longleftrightarrow>
     (\<forall>v\<in>set HARNESS_SESSION_VARS. nonempty_var vars v = None)
     \<and> (case parse_caller_override (vars ''DEVKIT_CALLER'') of Some c \<Rightarrow> c = Human | None \<Rightarrow> is_tty)"
  by (auto simp: caller_def resolve_caller_def decide_caller_def list_ex_iff split: option.split)

end
