(* ===== verification/Lock_Paths.thy ===== *)
theory Lock_Paths
  imports Lock_System Path_Model Caller
begin

text \<open>
  From what a caller types to a row of the registry: the key of a path under its project root and the identity of the holder
  (\<open>crates/devkit-locks/src/lib.rs\<close> and \<open>ident.rs\<close>), and the checkout a directory is in (\<open>Checkout\<close> of
  \<open>crates/devkit-common/src/vcs.rs\<close>).

  What the operating system and the version control answer is the record \<open>path_env\<close>: the current directory, whether a path is a
  directory, its canonical spelling, whether bytes are UTF-8 and how they read lossily, the checkout of a directory, and whether
  a repository stands behind a directory. The environment variables and the process are the arguments of the identity functions.
\<close>

section \<open>The operating system and the version control\<close>

datatype Ownership = Owned | Unowned | UnknownOwner

record path_env =
  pe_cwd :: "string option"
  pe_is_dir :: "string \<Rightarrow> bool"
  pe_canonical :: "string \<Rightarrow> string option"
  pe_utf8 :: "string \<Rightarrow> bool"
  pe_lossy :: "string \<Rightarrow> string"
  pe_git_root :: "string \<Rightarrow> string + string option"
  pe_ownership :: "string \<Rightarrow> Ownership"

record Worktree =
  wt_path :: string
  wt_branch :: string
  wt_bare :: bool
  wt_locked :: bool

section \<open>Checkouts\<close>

text \<open>\<open>Resolved\<close>: the listing, the index of the worktree that contains the start, and why there is no listing.\<close>

record Checkout =
  co_start :: string
  co_worktrees :: "Worktree list"
  co_here :: "nat option"
  co_error :: "string option"

definition containment :: "path_env \<Rightarrow> string \<Rightarrow> string \<Rightarrow> string option \<Rightarrow> (string \<times> string) option" where
  "containment env parent child child_canon =
     (if starts_with child parent then Some (parent, child)
      else case (pe_canonical env parent, child_canon) of
        (Some resolved_parent, Some resolved_child) \<Rightarrow>
          if starts_with resolved_child resolved_parent then Some (resolved_parent, resolved_child) else None
      | _ \<Rightarrow> None)"

fun deepest_from :: "path_env \<Rightarrow> string \<Rightarrow> nat \<Rightarrow> Worktree list \<Rightarrow> (nat \<times> nat) option \<Rightarrow> (nat \<times> nat) option" where
  "deepest_from env dir i [] best = best"
| "deepest_from env dir i (w # ws) best =
     deepest_from env dir (Suc i) ws
       (if wt_bare w then best
        else case containment env (wt_path w) dir (pe_canonical env dir) of
          None \<Rightarrow> best
        | Some (parent, child) \<Rightarrow>
            (let below = (case strip_base parent child of Some rel \<Rightarrow> length rel | None \<Rightarrow> 2 ^ 64 - 1)
             in if (case best of None \<Rightarrow> True | Some (_, seen) \<Rightarrow> below < seen) then Some (i, below) else best))"

definition longest_containing :: "path_env \<Rightarrow> Worktree list \<Rightarrow> string \<Rightarrow> nat option" where
  "longest_containing env all dir = map_option fst (deepest_from env dir 0 all None)"

definition checkout_resolve :: "path_env \<Rightarrow> string + Worktree list option \<Rightarrow> string \<Rightarrow> Checkout" where
  "checkout_resolve env listed start =
     (let (worktrees, error) =
        (case listed of Inr l \<Rightarrow> (case l of Some ws \<Rightarrow> ws | None \<Rightarrow> [], None) | Inl e \<Rightarrow> ([], Some e))
      in \<lparr>co_start = start, co_worktrees = worktrees, co_here = longest_containing env worktrees start, co_error = error\<rparr>)"

definition checkout_here :: "Checkout \<Rightarrow> Worktree option" where
  "checkout_here c = map_option (\<lambda>i. co_worktrees c ! i) (co_here c)"

definition checkout_root :: "Checkout \<Rightarrow> string option" where
  "checkout_root c = map_option (\<lambda>i. wt_path (co_worktrees c ! i)) (co_here c)"

definition main_worktree :: "Checkout \<Rightarrow> string option" where
  "main_worktree c = (case co_worktrees c of w # _ \<Rightarrow> if wt_bare w then None else Some (wt_path w) | [] \<Rightarrow> None)"

definition main_checkout :: "Checkout \<Rightarrow> string option" where
  "main_checkout c = (if co_here c \<noteq> Some 0 then main_worktree c else None)"

definition checkout_primary :: "Checkout \<Rightarrow> string option" where
  "checkout_primary c = (case main_checkout c of Some p \<Rightarrow> Some p | None \<Rightarrow> checkout_root c)"

datatype checkout_fault = CouldNotAsk string | NoRepository string

definition checkout_worktree :: "Checkout \<Rightarrow> checkout_fault + Worktree" where
  "checkout_worktree c =
     (case co_error c of
        Some e \<Rightarrow> Inl (CouldNotAsk e)
      | None \<Rightarrow> (case checkout_here c of Some w \<Rightarrow> Inr w | None \<Rightarrow> Inl (NoRepository (co_start c))))"

definition checkout_of :: "path_env \<Rightarrow> Checkout \<Rightarrow> string \<Rightarrow> string option" where
  "checkout_of env c dir =
     (case longest_containing env (co_worktrees c) dir of
        None \<Rightarrow> None
      | Some i \<Rightarrow>
          (let root = wt_path (co_worktrees c ! i)
           in case containment env root dir (pe_canonical env dir) of
                None \<Rightarrow> None
              | Some (parent, child) \<Rightarrow>
                  if \<forall>d\<in>set (takeWhile (\<lambda>d. \<not> same_components d parent) (ancestors child)). pe_ownership env d = Unowned
                  then Some root else None))"

section \<open>Keys\<close>

datatype path_fault = NoCurrentDir | OutsideRoot | NotUtf8

fun under_parts :: "(string \<Rightarrow> bool) \<Rightarrow> string list \<Rightarrow> Component list \<Rightarrow> path_fault + string list" where
  "under_parts utf8 parts [] = Inr parts"
| "under_parts utf8 parts (Normal s # rel) = (if utf8 s then under_parts utf8 (parts @ [s]) rel else Inl NotUtf8)"
| "under_parts utf8 parts (ParentDir # rel) = under_parts utf8 (butlast parts) rel"
| "under_parts utf8 parts (_ # rel) = under_parts utf8 parts rel"

definition rel_key :: "string list \<Rightarrow> string" where
  "rel_key parts = (if parts = [] then ''.'' else join ''/'' parts)"

definition normalize_under_root :: "path_env \<Rightarrow> string \<Rightarrow> string \<Rightarrow> path_fault + string" where
  "normalize_under_root env path root =
     (case strip_base root path of
        None \<Rightarrow> Inl OutsideRoot
      | Some rel \<Rightarrow> map_sum id rel_key (under_parts (pe_utf8 env) [] rel))"

definition component_text :: "Component \<Rightarrow> string" where
  "component_text c = (case c of RootDir \<Rightarrow> ''/'' | CurDir \<Rightarrow> ''.'' | ParentDir \<Rightarrow> ''..'' | Normal s \<Rightarrow> s)"

fun lexical_stack :: "Component list \<Rightarrow> bool \<Rightarrow> Component list \<Rightarrow> Component list" where
  "lexical_stack stack rooted [] = stack"
| "lexical_stack stack rooted (CurDir # cs) = lexical_stack stack rooted cs"
| "lexical_stack stack rooted (RootDir # cs) = lexical_stack (stack @ [RootDir]) True cs"
| "lexical_stack stack rooted (Normal s # cs) = lexical_stack (stack @ [Normal s]) rooted cs"
| "lexical_stack stack rooted (ParentDir # cs) =
     (case rev stack of
        Normal _ # _ \<Rightarrow> lexical_stack (butlast stack) rooted cs
      | ParentDir # _ \<Rightarrow> lexical_stack (if rooted then stack else stack @ [ParentDir]) rooted cs
      | [] \<Rightarrow> lexical_stack (if rooted then stack else stack @ [ParentDir]) rooted cs
      | _ \<Rightarrow> lexical_stack stack rooted cs)"

definition normalize_lexically :: "string \<Rightarrow> string" where
  "normalize_lexically p = foldl path_join [] (map component_text (lexical_stack [] False (path_components p)))"

definition existing_ancestor :: "path_env \<Rightarrow> string \<Rightarrow> string" where
  "existing_ancestor env start = (case find (pe_is_dir env) (ancestors start) of Some d \<Rightarrow> d | None \<Rightarrow> start)"

text \<open>The trailing names are kept newest first, the order in which they are pushed back.\<close>

function resolve_from :: "path_env \<Rightarrow> string list \<Rightarrow> string \<Rightarrow> string option" where
  "resolve_from env trailing cur =
     (case pe_canonical env cur of
        Some real \<Rightarrow> Some (foldl path_join real trailing)
      | None \<Rightarrow>
          (case (file_name cur, path_parent cur) of
             (Some name, Some up) \<Rightarrow> resolve_from env (name # trailing) up
           | _ \<Rightarrow> None))"
  by pat_completeness auto

termination by (relation "measure (length \<circ> snd \<circ> snd)") (auto intro: path_parent_shorter)

declare resolve_from.simps [simp del]

definition resolve_existing :: "path_env \<Rightarrow> string \<Rightarrow> string option" where
  "resolve_existing env p = resolve_from env [] p"

definition rel_under_root :: "path_env \<Rightarrow> string \<Rightarrow> string \<Rightarrow> path_fault + string" where
  "rel_under_root env path root =
     (case normalize_under_root env path root of
        Inr key \<Rightarrow> Inr key
      | Inl e \<Rightarrow>
          (case (resolve_existing env path, pe_canonical env root) of
             (Some path', Some root') \<Rightarrow> normalize_under_root env path' root'
           | _ \<Rightarrow> Inl e))"

definition normalize_arg :: "path_env \<Rightarrow> string \<Rightarrow> string \<Rightarrow> string \<Rightarrow> path_fault + string" where
  "normalize_arg env arg cwd root = rel_under_root env (if is_absolute arg then arg else path_join cwd arg) root"

definition find_root_from :: "path_env \<Rightarrow> string \<Rightarrow> string" where
  "find_root_from env start =
     (case pe_git_root env start of Inr (Some root) \<Rightarrow> root | Inr None \<Rightarrow> start | Inl _ \<Rightarrow> start)"

definition find_root_in :: "path_env \<Rightarrow> Checkout \<Rightarrow> string \<Rightarrow> string" where
  "find_root_in env c start =
     (case checkout_of env c start of
        Some root \<Rightarrow> root
      | None \<Rightarrow> (case co_error c of Some _ \<Rightarrow> start | None \<Rightarrow> find_root_from env start))"

section \<open>Who holds\<close>

record Candidate =
  ca_var :: string
  ca_value :: string

datatype Identity = Resolved string | Ambiguous "Candidate list"

definition or_first :: "Identity \<Rightarrow> string" where
  "or_first i =
     (case i of Resolved s \<Rightarrow> s | Ambiguous (c # _) \<Rightarrow> ca_value c | Ambiguous [] \<Rightarrow> ''unknown'')"

record identity_env =
  ie_harness_sessions :: "Candidate list"
  ie_devkit_session :: "string option"
  ie_tmux_pane :: "string option"
  ie_tty :: "string option"
  ie_ppid :: "string option"

fun distinct_candidates :: "Candidate list \<Rightarrow> Candidate list \<Rightarrow> Candidate list" where
  "distinct_candidates [] acc = acc"
| "distinct_candidates (c # cs) acc =
     distinct_candidates cs (if list_ex (\<lambda>d. ca_value d = ca_value c) acc then acc else acc @ [c])"

definition or_else :: "'a option \<Rightarrow> 'a option \<Rightarrow> 'a option" where
  "or_else a b = (case a of Some x \<Rightarrow> Some x | None \<Rightarrow> b)"

definition resolve_identity :: "string option \<Rightarrow> identity_env \<Rightarrow> Identity" where
  "resolve_identity as_flag ie =
     (case as_flag of
        Some f \<Rightarrow> Resolved f
      | None \<Rightarrow>
          (case distinct_candidates (ie_harness_sessions ie) [] of
             [c] \<Rightarrow> Resolved (ca_value c)
           | c # c' # cs \<Rightarrow> Ambiguous (c # c' # cs)
           | [] \<Rightarrow>
               Resolved (case or_else (ie_devkit_session ie) (or_else (ie_tmux_pane ie) (or_else (ie_tty ie) (ie_ppid ie))) of
                   Some s \<Rightarrow> s | None \<Rightarrow> ''unknown'')))"

definition decide_anchor_pid :: "u32 option \<Rightarrow> bool \<Rightarrow> u32 \<Rightarrow> u32 option" where
  "decide_anchor_pid tmux_pid is_tty ppid = (case tmux_pid of Some p \<Rightarrow> Some p | None \<Rightarrow> if is_tty then Some ppid else None)"

definition HARNESS_ENV_PREFIXES :: "string list" where
  "HARNESS_ENV_PREFIXES = [''CLAUDE_CODE_'', ''CODEX_'']"

definition harness_candidates :: "(string \<Rightarrow> string option) \<Rightarrow> Candidate list" where
  "harness_candidates vars =
     List.map_filter (\<lambda>v. map_option (\<lambda>x. \<lparr>ca_var = v, ca_value = x\<rparr>) (nonempty_var vars v)) HARNESS_SESSION_VARS"

definition harness_env_present :: "string list \<Rightarrow> bool" where
  "harness_env_present names = list_ex (\<lambda>k. list_ex (\<lambda>p. prefix p k) HARNESS_ENV_PREFIXES) names"

definition env_from_process :: "(string \<Rightarrow> string option) \<Rightarrow> string option \<Rightarrow> u32 option \<Rightarrow> identity_env" where
  "env_from_process vars tty ppid =
     \<lparr>ie_harness_sessions = harness_candidates vars, ie_devkit_session = nonempty_var vars ''DEVKIT_SESSION'',
      ie_tmux_pane = nonempty_var vars ''TMUX_PANE'', ie_tty = tty, ie_ppid = map_option show_uint ppid\<rparr>"

section \<open>The facade\<close>

datatype lock_refusal =
    PathFault path_fault
  | AmbiguousIdentity "Candidate list"
  | Registry lock_error

record Ctx =
  cx_root :: string
  cx_holder :: string
  cx_paths :: "string list"

fun normalize_args :: "path_env \<Rightarrow> string \<Rightarrow> string \<Rightarrow> string list \<Rightarrow> path_fault + string list" where
  "normalize_args env cwd root [] = Inr []"
| "normalize_args env cwd root (a # as) =
     (case normalize_arg env a cwd root of
        Inl e \<Rightarrow> Inl e
      | Inr p \<Rightarrow> map_sum id ((#) p) (normalize_args env cwd root as))"

definition lock_ctx :: "path_env \<Rightarrow> identity_env \<Rightarrow> string list \<Rightarrow> string option \<Rightarrow> bool \<Rightarrow> lock_refusal + Ctx" where
  "lock_ctx env ie paths_in as_flag strict =
     (case pe_cwd env of
        None \<Rightarrow> Inl (PathFault NoCurrentDir)
      | Some cwd \<Rightarrow>
          (let root = find_root_from env cwd in
           case normalize_args env cwd root paths_in of
             Inl e \<Rightarrow> Inl (PathFault e)
           | Inr paths \<Rightarrow>
               (case resolve_identity as_flag ie of
                  Ambiguous candidates \<Rightarrow>
                    if strict then Inl (AmbiguousIdentity candidates)
                    else Inr \<lparr>cx_root = pe_lossy env root, cx_holder = or_first (Ambiguous candidates), cx_paths = paths\<rparr>
                | Resolved s \<Rightarrow> Inr \<lparr>cx_root = pe_lossy env root, cx_holder = s, cx_paths = paths\<rparr>)))"

text \<open>A call with a context, or the context's refusal, which reaches nothing.\<close>

definition with_ctx :: "lock_refusal + 'c \<Rightarrow> ('c \<Rightarrow> lock_sys \<Rightarrow> (lock_error + 'a) \<times> lock_sys) \<Rightarrow> lock_sys \<Rightarrow>
    (lock_refusal + 'a) \<times> lock_sys" where
  "with_ctx c call sys =
     (case c of
        Inl e \<Rightarrow> (Inl e, sys)
      | Inr cx \<Rightarrow> (case call cx sys of (r, sys') \<Rightarrow> (map_sum Registry id r, sys')))"

definition lock_acquire :: "path_env \<Rightarrow> identity_env \<Rightarrow> u32 option \<Rightarrow> lock_env \<Rightarrow> link \<Rightarrow> string list \<Rightarrow> string option \<Rightarrow>
    string option \<Rightarrow> u64 \<Rightarrow> lock_sys \<Rightarrow> (lock_refusal + AcquireOutcome) \<times> lock_sys" where
  "lock_acquire env ie anchor le link paths_in as_flag memo ttl =
     with_ctx (lock_ctx env ie paths_in as_flag True)
       (\<lambda>c. acquire_resolved le link (cx_root c) (cx_holder c) (cx_paths c) anchor memo ttl)"

definition lock_check :: "path_env \<Rightarrow> identity_env \<Rightarrow> lock_env \<Rightarrow> link \<Rightarrow> string list \<Rightarrow> string option \<Rightarrow> lock_sys \<Rightarrow>
    (lock_refusal + Conflict list) \<times> lock_sys" where
  "lock_check env ie le link paths_in as_flag =
     with_ctx (lock_ctx env ie paths_in as_flag False)
       (\<lambda>c. check_resolved le link (cx_root c) (cx_holder c) (cx_paths c))"

definition lock_release :: "path_env \<Rightarrow> identity_env \<Rightarrow> lock_env \<Rightarrow> link \<Rightarrow> string list \<Rightarrow> string option \<Rightarrow> bool \<Rightarrow> lock_sys \<Rightarrow>
    (lock_refusal + string list \<times> Refusal list) \<times> lock_sys" where
  "lock_release env ie le link paths_in as_flag force =
     with_ctx (lock_ctx env ie paths_in as_flag True)
       (\<lambda>c. release_resolved le link (cx_root c) (cx_holder c) (cx_paths c) force)"

definition lock_release_all :: "path_env \<Rightarrow> identity_env \<Rightarrow> lock_env \<Rightarrow> link \<Rightarrow> string option \<Rightarrow> lock_sys \<Rightarrow>
    (lock_refusal + string list) \<times> lock_sys" where
  "lock_release_all env ie le link as_flag =
     with_ctx (lock_ctx env ie [] as_flag True) (\<lambda>c. release_all_resolved le link (cx_root c) (cx_holder c))"

definition find_root :: "path_env \<Rightarrow> path_fault + string" where
  "find_root env = (case pe_cwd env of None \<Rightarrow> Inl NoCurrentDir | Some cwd \<Rightarrow> Inr (find_root_from env cwd))"

definition lock_status :: "path_env \<Rightarrow> lock_env \<Rightarrow> link \<Rightarrow> bool \<Rightarrow> lock_sys \<Rightarrow> (lock_refusal + LockEntry list) \<times> lock_sys" where
  "lock_status env le link all_roots =
     with_ctx (map_sum PathFault (pe_lossy env) (find_root env)) (\<lambda>root. status_resolved le link root all_roots)"

section \<open>Resolving writes\<close>

text \<open>The roots found so far, keyed by directory; \<open>HashMap\<close> compares paths by their components.\<close>

record WriteResolver =
  wr_roots :: "(string \<times> string) list"
  wr_checkout :: "Checkout option"

definition root_for :: "path_env \<Rightarrow> string \<Rightarrow> WriteResolver \<Rightarrow> string \<times> WriteResolver" where
  "root_for env start wr =
     (case find (\<lambda>(dir, _). same_components dir start) (wr_roots wr) of
        Some (_, root) \<Rightarrow> (root, wr)
      | None \<Rightarrow>
          (let root = (case wr_checkout wr of Some c \<Rightarrow> find_root_in env c start | None \<Rightarrow> find_root_from env start)
           in (root, wr\<lparr>wr_roots := (start, root) # wr_roots wr\<rparr>)))"

definition absolute_path :: "path_env \<Rightarrow> string \<Rightarrow> path_fault + string" where
  "absolute_path env p =
     (if is_absolute p then Inr p
      else case pe_cwd env of Some cwd \<Rightarrow> Inr (path_join cwd p) | None \<Rightarrow> Inl NoCurrentDir)"

definition write_ctx :: "path_env \<Rightarrow> string \<Rightarrow> WriteResolver \<Rightarrow> (path_fault + string \<times> string) \<times> WriteResolver" where
  "write_ctx env path_in wr =
     (case absolute_path env path_in of
        Inl e \<Rightarrow> (Inl e, wr)
      | Inr path \<Rightarrow>
          (case root_for env (existing_ancestor env (case path_parent path of Some d \<Rightarrow> d | None \<Rightarrow> path)) wr of
             (root, wr') \<Rightarrow> (map_sum id (\<lambda>rel. (pe_lossy env root, rel)) (rel_under_root env path root), wr')))"

definition scope_key :: "path_env \<Rightarrow> string \<Rightarrow> bool \<Rightarrow> WriteResolver \<Rightarrow> (path_fault + string \<times> string) \<times> WriteResolver" where
  "scope_key env dir whole_checkout wr =
     (case absolute_path env dir of
        Inl e \<Rightarrow> (Inl e, wr)
      | Inr joined \<Rightarrow>
          (let path = normalize_lexically joined in
           case root_for env (existing_ancestor env path) wr of
             (root, wr') \<Rightarrow>
               (map_sum id (\<lambda>rel. (pe_lossy env root, rel))
                 (if whole_checkout then Inr ''.'' else rel_under_root env path root), wr')))"

type_synonym 'a resolved_call = "WriteResolver \<times> lock_sys \<Rightarrow> (lock_refusal + 'a) \<times> WriteResolver \<times> lock_sys"

definition resolving :: "(WriteResolver \<Rightarrow> (path_fault + string \<times> string) \<times> WriteResolver) \<Rightarrow>
    (WriteResolver \<Rightarrow> string \<Rightarrow> string \<Rightarrow> lock_sys \<Rightarrow> (lock_error + 'a) \<times> lock_sys) \<Rightarrow> 'a resolved_call" where
  "resolving key call =
     (\<lambda>(wr, sys). case key wr of
        (Inl e, wr') \<Rightarrow> (Inl (PathFault e), wr', sys)
      | (Inr (root, rel), wr') \<Rightarrow>
          (case call wr' root rel sys of (r, sys') \<Rightarrow> (map_sum Registry id r, wr', sys')))"

definition resolver_decide_write :: "path_env \<Rightarrow> lock_env \<Rightarrow> link \<Rightarrow> string \<Rightarrow> string \<Rightarrow> string option \<Rightarrow> u64 \<Rightarrow>
    WriteDecision resolved_call" where
  "resolver_decide_write env le link path_in holder memo ttl =
     resolving (write_ctx env path_in) (\<lambda>_ root path. decide_write_at le link root path holder memo ttl)"

definition resolver_check_scope :: "path_env \<Rightarrow> lock_env \<Rightarrow> link \<Rightarrow> string \<Rightarrow> bool \<Rightarrow> string \<Rightarrow> Conflict list resolved_call" where
  "resolver_check_scope env le link dir whole_checkout holder =
     resolving (scope_key env dir whole_checkout) (\<lambda>_ root rel. check_scope_resolved le link root holder [rel])"

definition resolver_check_covering :: "path_env \<Rightarrow> lock_env \<Rightarrow> link \<Rightarrow> string \<Rightarrow> string \<Rightarrow> Conflict list resolved_call" where
  "resolver_check_covering env le link dir holder =
     resolving (scope_key env dir False) (\<lambda>_ root rel. check_covering_resolved le link root holder [rel])"

definition is_checkout :: "path_env \<Rightarrow> WriteResolver \<Rightarrow> string \<Rightarrow> bool" where
  "is_checkout env wr root \<longleftrightarrow>
     (case wr_checkout wr of Some c \<Rightarrow> checkout_of env c root \<noteq> None | None \<Rightarrow> False)
     \<or> (case pe_git_root env root of Inr (Some _) \<Rightarrow> True | _ \<Rightarrow> False)"

definition claim_tree :: "path_env \<Rightarrow> lock_env \<Rightarrow> link \<Rightarrow> string \<Rightarrow> string \<Rightarrow> string option \<Rightarrow> u64 \<Rightarrow>
    WriteDecision option resolved_call" where
  "claim_tree env le link dir holder memo ttl =
     resolving (scope_key env dir False)
       (\<lambda>wr root rel sys.
          if rel = ''.'' \<or> \<not> is_checkout env wr root then (Inr None, sys)
          else case decide_write_at le link root rel holder memo ttl sys of (r, sys') \<Rightarrow> (map_sum id Some r, sys'))"

definition facade_decide_write :: "path_env \<Rightarrow> lock_env \<Rightarrow> link \<Rightarrow> string \<Rightarrow> string \<Rightarrow> string option \<Rightarrow> u64 \<Rightarrow> lock_sys \<Rightarrow>
    (lock_refusal + WriteDecision) \<times> lock_sys" where
  "facade_decide_write env le link path_in holder memo ttl sys =
     (case resolver_decide_write env le link path_in holder memo ttl (\<lparr>wr_roots = [], wr_checkout = None\<rparr>, sys) of
        (r, _, sys') \<Rightarrow> (r, sys'))"

end
