(* ===== verification/Lock_Paths_Safety.thy ===== *)
theory Lock_Paths_Safety
  imports Lock_Paths
begin

text \<open>
  What the facade of the locks promises about spellings: however a path is written, its row and a later write to it meet; a batch
  of writes that shares what it resolved decides as each write alone; and an agent is never taken for a person.
\<close>

section \<open>Where a path leads\<close>

text \<open>The names under the root that some components lead to: up from the root leads outside.\<close>

fun inside :: "string list \<Rightarrow> Component list \<Rightarrow> string list option" where
  "inside at [] = Some at"
| "inside at (Normal s # rel) = inside (at @ [s]) rel"
| "inside at (CurDir # rel) = inside at rel"
| "inside at (ParentDir # rel) = (if at = [] then None else inside (butlast at) rel)"
| "inside at (RootDir # rel) = None"

definition spelled_under :: "(string \<Rightarrow> bool) \<Rightarrow> string \<Rightarrow> string \<Rightarrow> string list \<Rightarrow> bool" where
  "spelled_under utf8 root path at \<longleftrightarrow>
     (\<exists>rel. path_components path = path_components root @ rel \<and> inside [] rel = Some at \<and> (\<forall>s. Normal s \<in> set rel \<longrightarrow> utf8 s))"

text \<open>
  A path leads to a place below the root by its spelling, or, when its spelling gives no key, by what the file system resolves it
  and the root to.
\<close>

definition leads_to :: "path_env \<Rightarrow> string \<Rightarrow> string \<Rightarrow> string list \<Rightarrow> bool" where
  "leads_to env root path at \<longleftrightarrow>
     spelled_under (pe_utf8 env) root path at
     \<or> (\<exists>e path' root'. normalize_under_root env path root = Inl e \<and> resolve_existing env path = Some path'
          \<and> pe_canonical env root = Some root' \<and> spelled_under (pe_utf8 env) root' path' at)"

definition location :: "string \<Rightarrow> string list" where
  "location key = (if key = ''.'' then [] else components key)"

definition plain_name :: "string \<Rightarrow> bool" where
  "plain_name s \<longleftrightarrow> s \<noteq> [] \<and> s \<noteq> ''.'' \<and> s \<noteq> ''..'' \<and> CHR ''/'' \<notin> set s"

lemma path_component_name: "Normal s \<in> set (path_components p) \<Longrightarrow> plain_name s"
  using split_on_pieces [of s "CHR ''/''" p]
  by (auto simp: path_components_def plain_name_def is_piece_def piece_component_def split: if_splits)

lemma under_parts_inside:
  "inside parts rel = Some at \<Longrightarrow> \<forall>s. Normal s \<in> set rel \<longrightarrow> utf8 s \<Longrightarrow> under_parts utf8 parts rel = Inr at"
  by (induction utf8 parts rel rule: under_parts.induct) (auto split: if_splits)

lemma inside_names:
  "inside parts rel = Some at \<Longrightarrow> \<forall>s\<in>set parts. P s \<Longrightarrow> \<forall>s. Normal s \<in> set rel \<longrightarrow> P s \<Longrightarrow> \<forall>s\<in>set at. P s"
  by (induction parts rel rule: inside.induct) (auto split: if_splits dest: in_set_butlastD)

lemma key_location:
  assumes "\<forall>s\<in>set at. plain_name s"
  shows "location (rel_key at) = at"
proof (cases "at = []")
  case False
  then have split: "components (join ''/'' at) = at"
    using assms by (intro split_on_join) (simp_all add: plain_name_def)
  have "join ''/'' at \<noteq> ''.''"
  proof
    assume "join ''/'' at = ''.''"
    then have "at = [''.'']" using split by simp
    then show False using assms by (simp add: plain_name_def)
  qed
  then show ?thesis using False split by (simp add: location_def rel_key_def)
qed (simp add: location_def rel_key_def)

lemma spelled_names: "spelled_under utf8 root path at \<Longrightarrow> \<forall>s\<in>set at. plain_name s"
  unfolding spelled_under_def
proof (elim exE conjE)
  fix rel assume path: "path_components path = path_components root @ rel" and at: "inside [] rel = Some at"
  have "plain_name s" if "Normal s \<in> set rel" for s
  proof (rule path_component_name)
    show "Normal s \<in> set (path_components path)" unfolding path using that by simp
  qed
  then show "\<forall>s\<in>set at. plain_name s" by (intro inside_names [OF at] ballI allI impI) simp_all
qed

lemma leads_to_names: "leads_to env root path at \<Longrightarrow> \<forall>s\<in>set at. plain_name s"
  unfolding leads_to_def using spelled_names by blast

text \<open>A path that leads to a place under the root has that place as its key, whatever its spelling.\<close>

lemma spelled_key:
  assumes "spelled_under (pe_utf8 env) root path at"
  shows "normalize_under_root env path root = Inr (rel_key at)"
proof -
  obtain rel where path: "path_components path = path_components root @ rel" and rel: "inside [] rel = Some at"
    and utf8: "\<forall>s. Normal s \<in> set rel \<longrightarrow> pe_utf8 env s"
    using assms unfolding spelled_under_def by (elim exE conjE)
  have "strip_base root path = Some rel" unfolding strip_base_def path by (rule strip_prefix_append)
  then show ?thesis by (simp add: normalize_under_root_def under_parts_inside [OF rel utf8])
qed

lemma leads_to_key: "leads_to env root path at \<Longrightarrow> rel_under_root env path root = Inr (rel_key at)"
  by (auto simp: leads_to_def rel_under_root_def spelled_key)

lemma overlap_location:
  "paths_overlap a b \<longleftrightarrow> prefix (location a) (location b) \<or> prefix (location b) (location a)"
  by (auto simp: overlap_iff location_def on_one_ancestry_line_def ancestor_prefix split_on_no_sep)

section \<open>A write and the claims in its way\<close>

lemma decide_write_at_answers:
  assumes "sys_ok False sys" and "io_read (en_io le)" and "decide_write_at le link root path holder memo ttl sys = (Inr d, sys')"
  shows "d = fst (decide_write (en_alive le) (snd (prune_dead (en_alive le) (en_now le) (lock_registry sys))) root path holder
    None memo ttl (en_now le))"
proof -
  define g where "g d = decide_write (en_alive le) (snd (prune_dead (en_alive le) (en_now le) d)) root path holder None memo ttl (en_now le)"
    for d
  from assms(3) [unfolded decide_write_at_def] have "d = fst (g (lock_registry sys))"
  proof (cases rule: via_daemon_Inr)
    case (served reg resp ms)
    then have run: "mem_store_of le (\<lambda>d. Inr (g d)) \<lparr>ms_state = reg, ms_fs = sys_fs sys\<rparr> = (Inr d, ms)"
      by (auto simp: lock_dispatch_def answer_def write_decide_with_def g_def split: prod.splits sum.splits lock_response.splits)
    have "mem_ok False \<lparr>ms_state = reg, ms_fs = sys_fs sys\<rparr>"
      using assms(1) served(1) by (simp add: sys_ok_def)
    from commit_effect [OF this run] served(1) show ?thesis by (auto simp: lock_registry_def)
  next
    case local
    then have run: "file_commit le sys (\<lambda>d. Inr (g d)) (sys_fs sys) = (Inr d, sys_fs sys')"
      by (auto simp: write_decide_with_def g_def dest!: direct_Inr)
    then have none: "sys_daemon sys = None" by (auto simp: file_commit_def flock_commit_def split: if_splits)
    obtain reg fs1 where rd: "doc_read lock_document (en_io le) (sys_fs sys) = (reg, fs1)" by force
    have "reg = lock_registry sys"
      using doc_read_view [OF assms(2), of lock_document "sys_fs sys"] rd none by (simp add: lock_registry_def)
    then show ?thesis
      using run rd
      by (auto simp: file_commit_def flock_commit_def with_lock_def with_lock_via_def with_file_lock_def split: prod.splits sum.splits if_splits)
  qed
  then show ?thesis by (simp add: g_def)
qed

text \<open>A live row of another session at, above or below a place.\<close>

definition in_the_way :: "lock_env \<Rightarrow> LockData \<Rightarrow> string \<Rightarrow> string \<Rightarrow> string list \<Rightarrow> LockEntry \<Rightarrow> bool" where
  "in_the_way le d root writer at e \<longleftrightarrow>
     e \<in> snd ` set (ld_locks d) \<and> le_root e = root \<and> \<not> entry_dead (en_alive le) e (en_now le)
     \<and> \<not> is_ancestor_or_self (le_holder e) writer
     \<and> (prefix (location (le_path e)) at \<or> prefix at (location (le_path e)))"

lemma decide_denied_iff:
  assumes "location path = at"
  shows "(\<exists>cs. fst (decide_write (en_alive le) (snd (prune_dead (en_alive le) (en_now le) d)) root path holder pid memo ttl (en_now le))
      = Denied cs) \<longleftrightarrow> (\<exists>e. in_the_way le d root holder at e)"
proof -
  let ?d = "snd (prune_dead (en_alive le) (en_now le) d)"
  have "(\<exists>cs. fst (decide_write (en_alive le) ?d root path holder pid memo ttl (en_now le)) = Denied cs)
      \<longleftrightarrow> write_blockers (en_alive le) ?d root path holder (en_now le) \<noteq> []"
    by (simp add: decide_write_def Let_def)
  also have "\<dots> \<longleftrightarrow> (\<exists>e. in_the_way le d root holder at e)"
    unfolding blockers_Nil_iff
    by (auto simp: in_the_way_def overlap_location assms prune_dead_eq bt_retain_def) (force+)?
  finally show ?thesis .
qed

lemma write_refused_exactly:
  assumes "sys_ok False sys" and "io_read (en_io le)"
    and "absolute_path env p = Inr path"
    and "fst (root_for env (existing_ancestor env (case path_parent path of Some d \<Rightarrow> d | None \<Rightarrow> path)) wr) = root"
    and "leads_to env root path at"
    and "resolver_decide_write env le link p holder memo ttl (wr, sys) = (Inr d, wr', sys')"
  shows "(\<exists>cs. d = Denied cs) \<longleftrightarrow> (\<exists>e. in_the_way le (lock_registry sys) (pe_lossy env root) holder at e)"
proof -
  obtain wr1 where root: "root_for env (existing_ancestor env (case path_parent path of Some d \<Rightarrow> d | None \<Rightarrow> path)) wr = (root, wr1)"
    using assms(4) by (metis prod.collapse)
  have key: "write_ctx env p wr = (Inr (pe_lossy env root, rel_key at), wr1)"
    by (simp add: write_ctx_def assms(3) root leads_to_key [OF assms(5)])
  obtain sys1 where "decide_write_at le link (pe_lossy env root) (rel_key at) holder memo ttl sys = (Inr d, sys1)"
    using assms(6) by (auto simp: resolver_decide_write_def resolving_def key map_sum_Inr split: prod.splits)
  from decide_write_at_answers [OF assms(1,2) this] show ?thesis
    using decide_denied_iff [OF key_location [OF leads_to_names [OF assms(5)]]] by simp
qed

text \<open>A session is the first name of a holder: what is on one line with it, or above it, is of the same session.\<close>

definition session :: "string \<Rightarrow> string" where
  "session holder = hd (components holder)"

lemma ancestor_session: "is_ancestor_or_self a b \<Longrightarrow> session a = session b"
  by (auto simp: ancestor_prefix session_def prefix_def hd_append)

lemma line_session: "on_one_ancestry_line a b \<Longrightarrow> session a = session b"
  by (auto simp: on_one_ancestry_line_def dest: ancestor_session)

lemma claim_lands:
  assumes "sys_ok False sys" and "rows_nul_free (ld_locks (lock_registry sys))"
    and "pe_cwd env = Some cwd" and "find_root_from env cwd = root" and "nul_free (pe_lossy env root)"
    and "case anchor of Some pid \<Rightarrow> en_alive le pid | None \<Rightarrow> True"
    and "leads_to env root (if is_absolute a then a else path_join cwd a) at"
    and "resolve_identity as_flag ie = Resolved me"
    and "lock_acquire env ie anchor le link [a] as_flag memo ttl sys = (Inr out, sys1)" and "ao_conflicts out = []"
  shows "sys_ok False sys1 \<and> held_for (en_alive le) (en_now le) (pe_lossy env root) me (ld_locks (lock_registry sys1)) (rel_key at)"
proof -
  have ctx: "lock_ctx env ie [a] as_flag True = Inr \<lparr>cx_root = pe_lossy env root, cx_holder = me, cx_paths = [rel_key at]\<rparr>"
    using leads_to_key [OF assms(7)] by (simp add: lock_ctx_def assms(3,4,8) normalize_arg_def)
  have run: "acquire_resolved le link (pe_lossy env root) me [rel_key at] anchor memo ttl sys = (Inr out, sys1)"
    using assms(9) by (auto simp: lock_acquire_def with_ctx_def ctx map_sum_Inr split: prod.splits)
  have "sys_ok False (client_call le link (Acquire (pe_lossy env root) me [rel_key at] anchor memo ttl) sys)"
    by (rule client_call_keeps [OF assms(1)])
  then have "sys_ok False sys1" by (simp add: client_call_def run)
  moreover have "\<forall>req\<in>set [rel_key at]. held_for (en_alive le) (en_now le) (pe_lossy env root) me (ld_locks (lock_registry sys1)) req"
    by (rule acquire_resolved_grants [OF assms(1,2,5,6) run assms(10)])
  ultimately show ?thesis by simp
qed

text \<open>
  C19: a claim is met in every spelling that leads to its place. Once a session has claimed a path, a write of another session to
  that place, above it or below it, is denied while the claim lives, by either route, each path spelled in any way that leads
  there: under the root with whatever separators, \<open>.\<close> and \<open>..\<close> that never climb above the root, or, when its spelling is
  not under the root, by what the file system resolves it and the root to, so through symbolic links from outside. A symbolic
  link below the root is another place, as it is to the code.
\<close>

theorem claim_met_in_every_spelling:
  assumes "sys_ok False sys" and "rows_nul_free (ld_locks (lock_registry sys))"
    and "pe_cwd env = Some cwd" and "find_root_from env cwd = root" and "nul_free (pe_lossy env root)"
    and "case anchor of Some pid \<Rightarrow> en_alive le pid | None \<Rightarrow> True"
    and "leads_to env root (if is_absolute a then a else path_join cwd a) claimed"
    and "resolve_identity as_flag ie = Resolved me"
    and "lock_acquire env ie anchor le link [a] as_flag memo ttl sys = (Inr out, sys1)" and "ao_conflicts out = []"
    and "absolute_path env' p = Inr path"
    and "fst (root_for env' (existing_ancestor env' (case path_parent path of Some d \<Rightarrow> d | None \<Rightarrow> path)) wr) = root'"
    and "pe_lossy env' root' = pe_lossy env root" and "leads_to env' root' path written"
    and "prefix claimed written \<or> prefix written claimed" and "session writer \<noteq> session me"
    and "io_read (en_io le')" and "\<forall>e. entry_dead (en_alive le') e (en_now le') \<longrightarrow> entry_dead (en_alive le) e (en_now le)"
    and "resolver_decide_write env' le' link' p writer memo' ttl' (wr, sys1) = (Inr d, wr', sys2)"
  shows "\<exists>cs. d = Denied cs"
proof -
  have ok: "sys_ok False sys1"
    and "held_for (en_alive le) (en_now le) (pe_lossy env root) me (ld_locks (lock_registry sys1)) (rel_key claimed)"
    using claim_lands [OF assms(1-10)] by simp_all
  then obtain e where e: "bt_get (ld_locks (lock_registry sys1)) (key_for (pe_lossy env root) (rel_key claimed)) = Some e"
    "\<not> entry_dead (en_alive le) e (en_now le)" "le_root e = pe_lossy env root" "le_path e = rel_key claimed"
    "on_one_ancestry_line (le_holder e) me"
    by (auto simp: held_for_def)
  have "\<not> is_ancestor_or_self (le_holder e) writer"
    using line_session [OF e(5)] ancestor_session [of "le_holder e" writer] assms(16) by auto
  moreover have "e \<in> snd ` set (ld_locks (lock_registry sys1))" using e(1) by (auto simp: bt_get_def dest!: map_of_SomeD intro: rev_image_eqI)
  moreover have "location (le_path e) = claimed" using key_location [OF leads_to_names [OF assms(7)]] e(4) by simp
  ultimately have "in_the_way le' (lock_registry sys1) (pe_lossy env' root') writer written e"
    using e(2,3) assms(13,15,18) by (auto simp: in_the_way_def)
  then show ?thesis using write_refused_exactly [OF ok assms(17,11,12,14,19)] by blast
qed

definition demo_paths :: path_env where
  "demo_paths = \<lparr>pe_cwd = Some ''/r/src'', pe_is_dir = (\<lambda>d. d = ''/r''), pe_canonical = (\<lambda>_. None), pe_utf8 = (\<lambda>_. True),
     pe_lossy = (\<lambda>p. p), pe_git_root = (\<lambda>_. Inr (Some ''/r'')), pe_ownership = (\<lambda>_. Unowned)\<rparr>"

text \<open>Through a link from outside the root, and through one below it.\<close>

lemma link_spellings:
  assumes "\<And>p. pe_utf8 env p" and "pe_canonical env ''/l/x'' = Some ''/r/lib/x''" and "pe_canonical env ''/r'' = Some ''/r''"
  shows "leads_to env ''/r'' ''/l/x'' [''lib'', ''x'']" and "leads_to env ''/r'' ''/r/link/x'' [''link'', ''x'']"
proof -
  have "normalize_under_root env ''/l/x'' ''/r'' = Inl OutsideRoot"
    by (simp add: normalize_under_root_def strip_base_def path_components_def is_absolute_def leading_cur_def is_piece_def
        piece_component_def)
  moreover have "resolve_existing env ''/l/x'' = Some ''/r/lib/x''"
    using assms(2) by (simp add: resolve_existing_def resolve_from.simps [of env "[]" "''/l/x''"])
  moreover have "spelled_under (pe_utf8 env) ''/r'' ''/r/lib/x'' [''lib'', ''x'']" "spelled_under (pe_utf8 env) ''/r'' ''/r/link/x'' [''link'', ''x'']"
    using assms(1) by (simp_all add: spelled_under_def path_components_def is_absolute_def leading_cur_def is_piece_def piece_component_def)
  ultimately show "leads_to env ''/r'' ''/l/x'' [''lib'', ''x'']" "leads_to env ''/r'' ''/r/link/x'' [''link'', ''x'']"
    using assms(3) unfolding leads_to_def by blast+
qed

definition demo_identity :: identity_env where
  "demo_identity = \<lparr>ie_harness_sessions = [], ie_devkit_session = Some ''S'', ie_tmux_pane = None, ie_tty = None, ie_ppid = None\<rparr>"

lemma demo_leads:
  "leads_to demo_paths ''/r'' ''/r/src/./../lib//x'' [''lib'', ''x'']"
  "leads_to demo_paths ''/r'' ''/r/lib/y/../x/deep'' [''lib'', ''x'', ''deep'']"
  by (simp_all add: leads_to_def spelled_under_def demo_paths_def path_components_def is_absolute_def leading_cur_def is_piece_def piece_component_def)

abbreviation fresh_resolver :: WriteResolver where
  "fresh_resolver \<equiv> \<lparr>wr_roots = [], wr_checkout = None\<rparr>"

lemma demo_root: "fst (root_for demo_paths start fresh_resolver) = ''/r''"
  by (simp add: root_for_def Let_def find_root_from_def demo_paths_def)

lemma demo_absolute: "absolute_path demo_paths ''/r/lib/y/../x/deep'' = Inr ''/r/lib/y/../x/deep''"
  by (simp add: absolute_path_def is_absolute_def)

lemma demo_direct_write:
  assumes "sys_daemon sys = None"
  shows "\<exists>d sys'. decide_write_at demo_env NoLink root key holder memo ttl sys = (Inr d, sys')"
  using assms
  by (simp add: decide_write_at_def via_daemon_def daemon_request_def direct_def file_commit_def write_decide_with_def
      flock_commit_def with_lock_def with_lock_via_def with_file_lock_def doc_write_def demo_env_def clean_io_def split: prod.splits)

lemma demo_decides:
  assumes "sys_daemon sys = None"
  shows "\<exists>d wr' sys'. resolver_decide_write demo_paths demo_env NoLink ''/r/lib/y/../x/deep'' ''T'' None 60 (fresh_resolver, sys)
    = (Inr d, wr', sys')"
proof -
  let ?start = "existing_ancestor demo_paths (case path_parent ''/r/lib/y/../x/deep'' of Some d \<Rightarrow> d | None \<Rightarrow> ''/r/lib/y/../x/deep'')"
  obtain wr1 where root: "root_for demo_paths ?start fresh_resolver = (''/r'', wr1)"
    using demo_root [of ?start] by (metis prod.collapse)
  have "rel_under_root demo_paths ''/r/lib/y/../x/deep'' ''/r'' = Inr (rel_key [''lib'', ''x'', ''deep''])"
    by (rule leads_to_key) (use demo_leads(2) in \<open>simp add: demo_paths_def\<close>)
  then have key: "write_ctx demo_paths ''/r/lib/y/../x/deep'' fresh_resolver = (Inr (''/r'', rel_key [''lib'', ''x'', ''deep'']), wr1)"
    using root by (simp add: write_ctx_def demo_absolute) (simp add: demo_paths_def)
  obtain d sys' where "decide_write_at demo_env NoLink ''/r'' (rel_key [''lib'', ''x'', ''deep'']) ''T'' None 60 sys = (Inr d, sys')"
    using demo_direct_write [OF assms] by blast
  then show ?thesis by (simp add: resolver_decide_write_def resolving_def key)
qed

lemma demo_claims:
  "\<exists>out sys1. lock_acquire demo_paths demo_identity None demo_env NoLink [''./../lib//x''] None None 60 (sys_down empty_fs) = (Inr out, sys1)
     \<and> ao_conflicts out = [] \<and> sys_daemon sys1 = None"
proof -
  have "rel_under_root demo_paths ''/r/src/./../lib//x'' ''/r'' = Inr (rel_key [''lib'', ''x''])"
    by (rule leads_to_key) (use demo_leads(1) in \<open>simp add: demo_paths_def\<close>)
  then have ctx: "lock_ctx demo_paths demo_identity [''./../lib//x''] None True
      = Inr \<lparr>cx_root = ''/r'', cx_holder = ''S'', cx_paths = [rel_key [''lib'', ''x'']]\<rparr>"
    by (simp add: lock_ctx_def normalize_arg_def is_absolute_def path_join_def resolve_identity_def demo_identity_def or_else_def
        find_root_from_def demo_paths_def)
  have "\<exists>out sys1. acquire_resolved demo_env NoLink ''/r'' ''S'' [rel_key [''lib'', ''x'']] None None 60 (sys_down empty_fs) = (Inr out, sys1)
      \<and> ao_conflicts out = [] \<and> sys_daemon sys1 = None"
    by (simp add: acquire_resolved_def via_daemon_down direct_def sys_down_def file_commit_def acquire_with_def
        flock_commit_def with_lock_def with_lock_via_def with_file_lock_def doc_read_def doc_write_def
        empty_fs_def demo_env_def clean_io_def lock_document_def prune_dead_def try_acquire_def check_def
        bt_retain_def bt_get_def via_daemon_def daemon_request_def)
  then show ?thesis by (auto simp: lock_acquire_def with_ctx_def ctx)
qed

theorem claim_met_in_every_spelling_witness:
  "\<exists>sys1 cs. lock_acquire demo_paths demo_identity None demo_env NoLink [''./../lib//x''] None None 60 (sys_down empty_fs) = sys1
     \<and> fst (resolver_decide_write demo_paths demo_env NoLink ''/r/lib/y/../x/deep'' ''T'' None 60 (fresh_resolver, snd sys1)) = Inr (Denied cs)"
proof -
  obtain out sys1 where claim: "lock_acquire demo_paths demo_identity None demo_env NoLink [''./../lib//x''] None None 60 (sys_down empty_fs)
      = (Inr out, sys1)" "ao_conflicts out = []" "sys_daemon sys1 = None"
    using demo_claims by blast
  obtain d wr' sys' where wrote: "resolver_decide_write demo_paths demo_env NoLink ''/r/lib/y/../x/deep'' ''T'' None 60 (fresh_resolver, sys1)
      = (Inr d, wr', sys')"
    using demo_decides [OF claim(3)] by blast
  have "\<exists>cs. d = Denied cs"
  proof (rule claim_met_in_every_spelling [OF _ _ _ _ _ _ _ _ claim(1,2) demo_absolute demo_root _ _ _ _ _ _ wrote])
    show "sys_ok False (sys_down empty_fs)" by (simp add: sys_ok_def sys_down_def empty_fs_ok)
    show "rows_nul_free (ld_locks (lock_registry (sys_down empty_fs)))"
      by (simp add: lock_registry_def sys_down_def empty_fs_def file_view_def doc_read_def lock_document_def rows_nul_free_def)
    show "leads_to demo_paths ''/r'' (if is_absolute ''./../lib//x'' then ''./../lib//x'' else path_join ''/r/src'' ''./../lib//x'') [''lib'', ''x'']"
      using demo_leads(1) by (simp add: is_absolute_def path_join_def demo_paths_def)
    show "leads_to demo_paths ''/r'' ''/r/lib/y/../x/deep'' [''lib'', ''x'', ''deep'']"
      using demo_leads(2) by (simp add: demo_paths_def)
    show "resolve_identity None demo_identity = Resolved ''S''"
      by (simp add: resolve_identity_def demo_identity_def or_else_def)
    show "session ''T'' \<noteq> session ''S''" by (simp add: session_def)
  qed (simp_all add: demo_paths_def demo_env_def clean_io_def find_root_from_def nul_free_def)
  then show ?thesis using claim(1) wrote by auto
qed

text \<open>
  What the documentation of \<open>normalize_under_root\<close> rules out: a path that leads out of the root is not refused but keyed inside
  it, where it meets the claims on another file.
\<close>

lemma escape_keyed_inside:
  assumes "pe_utf8 env ''x''"
  shows "normalize_arg env ''../x'' ''/r'' ''/r'' = Inr ''x''" and "normalize_arg env ''x'' ''/r'' ''/r'' = Inr ''x''"
  using assms
  by (simp_all add: normalize_arg_def rel_under_root_def normalize_under_root_def strip_base_def path_join_def rel_key_def
      path_components_def is_absolute_def leading_cur_def is_piece_def piece_component_def)

section \<open>A batch of writes\<close>

text \<open>What a resolver without a cache finds, and a cache that holds nothing else.\<close>

definition root_alone :: "path_env \<Rightarrow> Checkout option \<Rightarrow> string \<Rightarrow> string" where
  "root_alone env c start = (case c of Some co \<Rightarrow> find_root_in env co start | None \<Rightarrow> find_root_from env start)"

definition resolver_ok :: "path_env \<Rightarrow> WriteResolver \<Rightarrow> bool" where
  "resolver_ok env wr \<longleftrightarrow> (\<forall>(dir, root)\<in>set (wr_roots wr). root = root_alone env (wr_checkout wr) dir)"

lemma root_for_alone:
  assumes "resolver_ok env wr" and "\<And>a b. same_components a b \<Longrightarrow> root_alone env (wr_checkout wr) a = root_alone env (wr_checkout wr) b"
  shows "fst (root_for env start wr) = root_alone env (wr_checkout wr) start"
    and "resolver_ok env (snd (root_for env start wr))" and "wr_checkout (snd (root_for env start wr)) = wr_checkout wr"
proof -
  show "fst (root_for env start wr) = root_alone env (wr_checkout wr) start"
  proof (cases "find (\<lambda>(dir, _). same_components dir start) (wr_roots wr)")
    case None
    then show ?thesis by (simp add: root_for_def Let_def root_alone_def split: option.split)
  next
    case (Some row)
    then have "row \<in> set (wr_roots wr)" "same_components (fst row) start" by (auto dest!: find_Some_set)
    then have "snd row = root_alone env (wr_checkout wr) start" using assms by (auto simp: resolver_ok_def)
    then show ?thesis using Some by (cases row) (simp add: root_for_def)
  qed
  show "resolver_ok env (snd (root_for env start wr))"
    using assms(1) by (auto simp: root_for_def Let_def resolver_ok_def root_alone_def split: option.split)
  show "wr_checkout (snd (root_for env start wr)) = wr_checkout wr"
    by (auto simp: root_for_def Let_def split: option.split)
qed

fun write_batch :: "path_env \<Rightarrow> string list \<Rightarrow> WriteResolver \<Rightarrow> (path_fault + string \<times> string) list" where
  "write_batch env [] wr = []"
| "write_batch env (p # ps) wr = (case write_ctx env p wr of (r, wr') \<Rightarrow> r # write_batch env ps wr')"

lemma batch_as_alone:
  assumes "\<And>a b. same_components a b \<Longrightarrow> root_alone env c a = root_alone env c b"
    and "resolver_ok env wr" and "wr_checkout wr = c"
  shows "write_batch env ps wr = map (\<lambda>p. fst (write_ctx env p \<lparr>wr_roots = [], wr_checkout = c\<rparr>)) ps"
  using assms(2,3)
proof (induction ps arbitrary: wr)
  case (Cons p ps)
  let ?none = "\<lparr>wr_roots = [], wr_checkout = c\<rparr>"
  have none: "resolver_ok env ?none" by (simp add: resolver_ok_def)
  have same: "\<And>a b. same_components a b \<Longrightarrow> root_alone env (wr_checkout wr) a = root_alone env (wr_checkout wr) b"
    "\<And>a b. same_components a b \<Longrightarrow> root_alone env (wr_checkout ?none) a = root_alone env (wr_checkout ?none) b"
    using assms(1) Cons.prems(2) by simp_all
  have "fst (write_ctx env p wr) = fst (write_ctx env p ?none) \<and> resolver_ok env (snd (write_ctx env p wr))
      \<and> wr_checkout (snd (write_ctx env p wr)) = c"
    using root_for_alone [OF Cons.prems(1) same(1)] root_for_alone(1) [OF none same(2)] Cons.prems
    by (auto simp: write_ctx_def split: sum.split prod.splits) (metis fst_conv snd_conv WriteResolver.select_convs(2))+
  with Cons.IH [of "snd (write_ctx env p wr)"] show ?case by (simp add: case_prod_beta)
qed simp

end
