(* ===== verification/Port_Registry.thy ===== *)
theory Port_Registry
  imports Doc_Store DK_Text "HOL-Library.Monad_Syntax"
begin

text \<open>
  The port registry of \<open>crates/devkit-ports/src/registry.rs\<close>: which app of which worktree (the
  holder) reserves which port, its JSON document, the operations on the table, the operations over
  a store, and the selection \<open>down\<close> makes.

  The table is the \<open>BTreeMap<u16, Entry>\<close> of the prelude. What the operating system answers is the
  argument \<open>os\<close>: whether a holder's directory exists, a pid runs, a port accepts connections, and
  the time; within one operation it answers the same. A panic (no port left) is an error value.
\<close>

section \<open>Data\<close>

datatype Role = Workspace | Baseline

record Entry =
  pe_app :: string
  pe_holder :: string
  pe_role :: Role
  pe_pid :: "u32 option"
  pe_logfile :: "string option"
  pe_ts :: u64

record PortData =
  pd_version :: u32
  pd_entries :: "(u16, Entry) btree"

record os =
  os_holder_alive :: "string \<Rightarrow> bool"
  os_pid_alive :: "u32 \<Rightarrow> bool"
  os_listening :: "u16 \<Rightarrow> bool"
  os_now :: u64

datatype port_fault = NoFreePort u16

definition role_as_str :: "Role \<Rightarrow> string" where
  "role_as_str r = (case r of Workspace \<Rightarrow> ''workspace'' | Baseline \<Rightarrow> ''baseline'')"

definition port_schema_version :: u32 where
  "port_schema_version = 1"

definition reservation_grace_secs :: u64 where
  "reservation_grace_secs = 300"

definition new_entry :: "os \<Rightarrow> string \<Rightarrow> string \<Rightarrow> Role \<Rightarrow> Entry" where
  "new_entry os app holder role =
     \<lparr>pe_app = app, pe_holder = holder, pe_role = role, pe_pid = None, pe_logfile = None, pe_ts = os_now os\<rparr>"

section \<open>The document\<close>

text \<open>A unit variant reads from its name (or alias), or from an object with that one key and a null.\<close>

definition role_of_name :: "string \<Rightarrow> Role option" where
  "role_of_name s =
     (if s = ''workspace'' \<or> s = ''issue'' then Some Workspace else if s = ''baseline'' then Some Baseline else None)"

fun role_of_json :: "json \<Rightarrow> Role option" where
  "role_of_json (JStr s) = role_of_name s"
| "role_of_json (JObj [(s, JNull)]) = role_of_name s"
| "role_of_json _ = None"

definition entry_of_json :: "json \<Rightarrow> Entry option" where
  "entry_of_json j = do {
      kvs \<leftarrow> struct_rows [(''app'', False), (''holder'', False), (''role'', False), (''pid'', False), (''logfile'', False), (''ts'', False)] j;
      app \<leftarrow> read_field of_str None kvs ''app'';
      holder \<leftarrow> read_field of_str None kvs ''holder'';
      role \<leftarrow> read_field role_of_json None kvs ''role'';
      pid \<leftarrow> read_field (of_option of_uint) (Some None) kvs ''pid'';
      logfile \<leftarrow> read_field (of_option of_str) (Some None) kvs ''logfile'';
      ts \<leftarrow> read_field of_uint None kvs ''ts'';
      Some \<lparr>pe_app = app, pe_holder = holder, pe_role = role, pe_pid = pid, pe_logfile = logfile, pe_ts = ts\<rparr>
    }"

definition entry_to_json :: "Entry \<Rightarrow> json" where
  "entry_to_json e = JObj
     [(''app'', JStr (pe_app e)), (''holder'', JStr (pe_holder e)), (''role'', JStr (role_as_str (pe_role e))),
      (''pid'', to_option to_uint (pe_pid e)), (''logfile'', to_option JStr (pe_logfile e)), (''ts'', to_uint (pe_ts e))]"

definition port_data_of_json :: "json \<Rightarrow> PortData option" where
  "port_data_of_json j = do {
      kvs \<leftarrow> struct_rows [(''version'', True), (''entries'', True)] j;
      version \<leftarrow> read_field of_uint (Some 0) kvs ''version'';
      entries \<leftarrow> read_field (of_map json_key_uint entry_of_json) (Some []) kvs ''entries'';
      Some \<lparr>pd_version = version, pd_entries = entries\<rparr>
    }"

definition port_data_to_json :: "PortData \<Rightarrow> json" where
  "port_data_to_json d = JObj
     [(''version'', to_uint (pd_version d)), (''entries'', to_map show_uint entry_to_json (pd_entries d))]"

definition port_salvage :: "content \<Rightarrow> PortData option" where
  "port_salvage raw =
     map_option (\<lambda>entries. \<lparr>pd_version = 0, pd_entries = entries\<rparr>)
       (salvage_map raw ''entries'' parse_uint entry_of_json)"

definition port_document :: "PortData document" where
  "port_document = \<lparr>doc_default = \<lparr>pd_version = 0, pd_entries = []\<rparr>,
     doc_stamp = (\<lambda>d. d\<lparr>pd_version := port_schema_version\<rparr>),
     doc_salvage = port_salvage, doc_of_json = port_data_of_json, doc_to_json = port_data_to_json\<rparr>"

lemma role_roundtrip [simp]: "role_of_name (role_as_str r) = Some r"
  by (cases r) (simp_all add: role_of_name_def role_as_str_def)

lemma entry_roundtrip [simp]: "entry_of_json (entry_to_json e) = Some e"
  by (simp add: entry_of_json_def entry_to_json_def read_field_def struct_field_def)

lemma port_data_roundtrip:
  "bt_wf (pd_entries d) \<Longrightarrow> port_data_of_json (port_data_to_json d) = Some d"
  by (simp add: port_data_of_json_def port_data_to_json_def read_field_def struct_field_def of_map_to_map)

lemma port_data_of_json_wf: "port_data_of_json j = Some d \<Longrightarrow> bt_wf (pd_entries d)"
  by (auto simp: port_data_of_json_def read_field_def split: json.splits field_read.splits bind_splits
      dest: of_map_wf)

interpretation port_doc: document port_document "\<lambda>d. bt_wf (pd_entries d)"
  by unfold_locales
    (auto simp: port_document_def port_data_roundtrip port_salvage_def dest: port_data_of_json_wf salvage_map_wf)

section \<open>Operations on the table\<close>

definition live_entry :: "os \<Rightarrow> PortData \<Rightarrow> string \<Rightarrow> string \<Rightarrow> (u16 \<times> Entry) option" where
  "live_entry os data holder app =
     find (\<lambda>(port, e). pe_holder e = holder \<and> pe_app e = app \<and> pe_role e = Workspace
             \<and> (case pe_pid e of Some pid \<Rightarrow> os_pid_alive os pid | None \<Rightarrow> False)) (pd_entries data)"

definition live_port :: "os \<Rightarrow> PortData \<Rightarrow> string \<Rightarrow> string \<Rightarrow> u16 option" where
  "live_port os data holder app = map_option fst (live_entry os data holder app)"

definition entry_alive :: "os \<Rightarrow> u16 \<Rightarrow> Entry \<Rightarrow> bool" where
  "entry_alive os port e \<longleftrightarrow>
     os_holder_alive os (pe_holder e) \<and>
     (case pe_pid e of
        Some pid \<Rightarrow> os_pid_alive os pid
      | None \<Rightarrow> os_listening os port \<or> sat_sub (os_now os) (pe_ts e) < reservation_grace_secs)"

definition dead_ports :: "os \<Rightarrow> PortData \<Rightarrow> u16 list" where
  "dead_ports os d = map fst (filter (\<lambda>(port, e). \<not> entry_alive os port e) (pd_entries d))"

definition remove_ports :: "u16 list \<Rightarrow> PortData \<Rightarrow> PortData" where
  "remove_ports ports d = d\<lparr>pd_entries := fold bt_remove ports (pd_entries d)\<rparr>"

definition port_prune :: "os \<Rightarrow> PortData \<Rightarrow> PortData" where
  "port_prune os d = remove_ports (dead_ports os d) d"

definition holds :: "PortData \<Rightarrow> string \<Rightarrow> string \<Rightarrow> Role \<Rightarrow> u16 option" where
  "holds d holder app role =
     map_option fst
       (find (\<lambda>(_, e). pe_holder e = holder \<and> pe_app e = app \<and> pe_role e = role) (pd_entries d))"

lemma u16_below: "unat (p :: u16) < 65536"
  using unsigned_less [of p] by simp

text \<open>The scan for a free port: upwards from \<open>base\<close>, and a panic past the last port.\<close>

function scan_port :: "(u16 \<Rightarrow> bool) \<Rightarrow> u16 \<Rightarrow> u16 option" where
  "scan_port busy port =
     (if busy port
      then case checked_add port 1 of Some port' \<Rightarrow> scan_port busy port' | None \<Rightarrow> None
      else Some port)"
  by auto

termination
  by (relation "measure (\<lambda>(busy, port). 2 ^ 16 - unat port)")
    (auto dest!: checked_add_Some simp: u16_below intro!: diff_less_mono2)

declare scan_port.simps [simp del]

definition alloc_one :: "os \<Rightarrow> PortData \<Rightarrow> string \<Rightarrow> string \<Rightarrow> u16 \<Rightarrow> Role \<Rightarrow> port_fault + u16 \<times> PortData" where
  "alloc_one os d holder app base role =
     (case holds d holder app role of
        Some p \<Rightarrow> Inr (p, d)
      | None \<Rightarrow>
          (case scan_port (\<lambda>p. bt_get (pd_entries d) p \<noteq> None \<or> os_listening os p) base of
             None \<Rightarrow> Inl (NoFreePort base)
           | Some port \<Rightarrow>
               Inr (port, d\<lparr>pd_entries := bt_insert port (new_entry os app holder role) (pd_entries d)\<rparr>)))"

definition record_pid :: "os \<Rightarrow> PortData \<Rightarrow> u16 \<Rightarrow> string \<Rightarrow> string \<Rightarrow> Role \<Rightarrow> u32 \<Rightarrow> string \<Rightarrow> PortData" where
  "record_pid os d port app holder role pid logfile =
     (let e = (case bt_get (pd_entries d) port of Some e \<Rightarrow> e | None \<Rightarrow> new_entry os app holder role)
      in d\<lparr>pd_entries := bt_insert port
             (e\<lparr>pe_app := app, pe_holder := holder, pe_role := role, pe_pid := Some pid, pe_logfile := Some logfile\<rparr>)
             (pd_entries d)\<rparr>)"

definition release_ports :: "PortData \<Rightarrow> u16 list \<Rightarrow> u16 list \<times> PortData" where
  "release_ports d ports =
     (let freed = filter (\<lambda>p. bt_get (pd_entries d) p \<noteq> None) ports in (freed, remove_ports freed d))"

definition port_release :: "PortData \<Rightarrow> string \<Rightarrow> Role option \<Rightarrow> u16 list \<times> PortData" where
  "port_release d holder role =
     (let freed = map fst (filter (\<lambda>(_, e). pe_holder e = holder
                    \<and> (case role of None \<Rightarrow> True | Some r \<Rightarrow> pe_role e = r)) (pd_entries d))
      in (freed, remove_ports freed d))"

section \<open>Operations over a store\<close>

type_synonym 's port_reader = "'s \<Rightarrow> PortData \<times> 's"
type_synonym ('a, 's) port_commit =
  "(PortData \<Rightarrow> port_fault + 'a \<times> PortData) \<Rightarrow> 's \<Rightarrow> (port_fault store_error + 'a) \<times> 's"

definition snapshot_with :: "os \<Rightarrow> 's port_reader \<Rightarrow> (PortData, 's) port_commit \<Rightarrow> 's \<Rightarrow> (port_fault store_error + PortData) \<times> 's"
  where
  "snapshot_with os snapshot commit s =
     (let (data, s1) = snapshot s; dead = dead_ports os data in
      if dead = [] then (Inr data, s1)
      else case commit (\<lambda>d. let d' = remove_ports dead d in Inr (d', d')) s1 of
             (Inr pruned, s2) \<Rightarrow> (Inr pruned, s2)
           | (Inl _, s2) \<Rightarrow> (Inr (remove_ports dead data), s2))"

definition port_prune_with :: "os \<Rightarrow> 's port_reader \<Rightarrow> (unit, 's) port_commit \<Rightarrow> 's \<Rightarrow> (port_fault store_error + u16 list) \<times> 's"
  where
  "port_prune_with os snapshot commit s =
     (let (data, s1) = snapshot s; dead = dead_ports os data in
      if dead = [] then (Inr [], s1)
      else case commit (\<lambda>d. Inr ((), remove_ports dead d)) s1 of
             (Inl e, s2) \<Rightarrow> (Inl e, s2)
           | (Inr _, s2) \<Rightarrow> (Inr dead, s2))"

text \<open>
  \<open>alloc_with\<close>: the choice on a snapshot, outside the lock, then the reservation under it, where a
  choice another process has taken meanwhile is made again. \<open>os\<close> is the machine while ports are probed, \<open>os'\<close>
  the machine at the commit.
\<close>

fun choose_ports :: "os \<Rightarrow> string \<Rightarrow> Role \<Rightarrow> PortData \<Rightarrow> (string \<times> u16) list \<Rightarrow> (string \<times> u16) list \<Rightarrow>
    port_fault + (string \<times> u16) list" where
  "choose_ports os holder role data chosen [] = Inr chosen"
| "choose_ports os holder role data chosen ((app, base) # reqs) =
     (case holds data holder app role of
        Some p \<Rightarrow> choose_ports os holder role data (chosen @ [(app, p)]) reqs
      | None \<Rightarrow>
          (case scan_port (\<lambda>p. bt_get (pd_entries data) p \<noteq> None \<or> list_ex (\<lambda>(_, q). q = p) chosen
                               \<or> os_listening os p) base of
             None \<Rightarrow> Inl (NoFreePort base)
           | Some port \<Rightarrow>
               choose_ports os holder role
                 (data\<lparr>pd_entries := bt_insert port (new_entry os app holder role) (pd_entries data)\<rparr>)
                 (chosen @ [(app, port)]) reqs))"

fun reserve_ports :: "os \<Rightarrow> string \<Rightarrow> Role \<Rightarrow> (string \<times> u16) list \<Rightarrow> PortData \<Rightarrow> (string \<times> u16) list \<Rightarrow>
    port_fault + (string \<times> u16) list \<times> PortData" where
  "reserve_ports os holder role reqs d [] = Inr ([], d)"
| "reserve_ports os holder role reqs d ((app, port) # chosen) =
     (case (case holds d holder app role of
              Some p \<Rightarrow> Inr (p, d)
            | None \<Rightarrow>
                if bt_get (pd_entries d) port \<noteq> None
                then alloc_one os d holder app
                       (case find (\<lambda>(a, _). a = app) reqs of Some (_, b) \<Rightarrow> b | None \<Rightarrow> port) role
                else Inr (port, d\<lparr>pd_entries := bt_insert port (new_entry os app holder role) (pd_entries d)\<rparr>)) of
        Inl e \<Rightarrow> Inl e
      | Inr (p, d') \<Rightarrow>
          (case reserve_ports os holder role reqs d' chosen of
             Inl e \<Rightarrow> Inl e
           | Inr (out, d'') \<Rightarrow> Inr ((app, p) # out, d'')))"

definition alloc_with :: "os \<Rightarrow> os \<Rightarrow> 's port_reader \<Rightarrow> ((string \<times> u16) list, 's) port_commit \<Rightarrow> string \<Rightarrow>
    (string \<times> u16) list \<Rightarrow> Role \<Rightarrow> 's \<Rightarrow> (port_fault store_error + (string \<times> u16) list) \<times> 's" where
  "alloc_with os os' snapshot commit holder reqs role s =
     (let (data, s1) = snapshot s in
      case choose_ports os holder role data [] reqs of
        Inl e \<Rightarrow> (Inl (Op e), s1)
      | Inr chosen \<Rightarrow> commit (\<lambda>d. reserve_ports os' holder role reqs d chosen) s1)"

definition record_pid_with :: "os \<Rightarrow> (unit, 's) port_commit \<Rightarrow> u16 \<Rightarrow> string \<Rightarrow> string \<Rightarrow> Role \<Rightarrow> u32 \<Rightarrow> string \<Rightarrow>
    's \<Rightarrow> (port_fault store_error + unit) \<times> 's" where
  "record_pid_with os commit port app holder role pid logfile =
     commit (\<lambda>d. Inr ((), record_pid os d port app holder role pid logfile))"

definition port_release_with :: "(u16 list, 's) port_commit \<Rightarrow> string \<Rightarrow> Role option \<Rightarrow> 's \<Rightarrow>
    (port_fault store_error + u16 list) \<times> 's" where
  "port_release_with commit holder role = commit (\<lambda>d. Inr (port_release d holder role))"

definition release_ports_with :: "(u16 list, 's) port_commit \<Rightarrow> u16 list \<Rightarrow> 's \<Rightarrow>
    (port_fault store_error + u16 list) \<times> 's" where
  "release_ports_with commit ports = commit (\<lambda>d. Inr (release_ports d ports))"

section \<open>Selecting rows\<close>

definition listening_view :: "os \<Rightarrow> PortData \<Rightarrow> string option \<Rightarrow> (u16 \<times> bool) list" where
  "listening_view os data only_holder =
     map (\<lambda>(port, _). (port, os_listening os port))
       (filter (\<lambda>(_, e). case only_holder of None \<Rightarrow> True | Some h \<Rightarrow> pe_holder e = h) (pd_entries data))"

datatype Scope = Current string | AllHolders | Others string | Holders "string list"

definition scope_includes :: "Scope \<Rightarrow> string \<Rightarrow> bool" where
  "scope_includes sc holder =
     (case sc of
        Current h \<Rightarrow> holder = h
      | AllHolders \<Rightarrow> True
      | Others h \<Rightarrow> holder \<noteq> h
      | Holders hs \<Rightarrow> list_ex (\<lambda>h. h = holder) hs)"

record ColumnFilter =
  fl_app :: "string list"
  fl_port :: "u16 list"
  fl_role :: "Role option"
  fl_pid :: "u32 option"
  fl_listening :: "bool option"
  fl_older_than_secs :: "u64 option"

definition columns_match :: "os \<Rightarrow> ColumnFilter \<Rightarrow> u16 \<Rightarrow> Entry \<Rightarrow> u64 \<Rightarrow> bool" where
  "columns_match os c port e now =
     (if fl_app c \<noteq> [] \<and> \<not> list_ex (\<lambda>a. a = pe_app e) (fl_app c) then False
      else if fl_port c \<noteq> [] \<and> port \<notin> set (fl_port c) then False
      else if (case fl_role c of Some r \<Rightarrow> pe_role e \<noteq> r | None \<Rightarrow> False) then False
      else if (case fl_pid c of Some pid \<Rightarrow> pe_pid e \<noteq> Some pid | None \<Rightarrow> False) then False
      else if (case fl_listening c of Some want \<Rightarrow> os_listening os port \<noteq> want | None \<Rightarrow> False) then False
      else if (case fl_older_than_secs c of Some secs \<Rightarrow> sat_sub now (pe_ts e) < secs | None \<Rightarrow> False) then False
      else True)"

datatype Filter = AllRows | Tokens "string list" | Columns ColumnFilter

text \<open>\<open>str::to_lowercase\<close> follows Unicode; it is the argument \<open>lower\<close>.\<close>

definition row_contains :: "(string \<Rightarrow> string) \<Rightarrow> u16 \<Rightarrow> Entry \<Rightarrow> string \<Rightarrow> bool" where
  "row_contains lower port e token =
     (let lf = (case leaf (pe_holder e) of Some l \<Rightarrow> l | None \<Rightarrow> pe_holder e)
      in contains (lower lf) token
         \<or> contains (lower (pe_holder e)) token
         \<or> contains (lower (pe_app e)) token
         \<or> contains (show_uint port) token
         \<or> contains (role_as_str (pe_role e)) token
         \<or> (case pe_pid e of Some p \<Rightarrow> contains (show_uint p) token | None \<Rightarrow> False))"

definition filter_matches :: "(string \<Rightarrow> string) \<Rightarrow> os \<Rightarrow> Filter \<Rightarrow> u16 \<Rightarrow> Entry \<Rightarrow> u64 \<Rightarrow> bool" where
  "filter_matches lower os f port e now =
     (case f of
        AllRows \<Rightarrow> True
      | Tokens toks \<Rightarrow> list_ex (\<lambda>t. row_contains lower port e (lower t)) toks
      | Columns c \<Rightarrow> columns_match os c port e now)"

record DownSelector =
  ds_scope :: Scope
  ds_filter :: Filter

definition select_ports :: "(string \<Rightarrow> string) \<Rightarrow> os \<Rightarrow> PortData \<Rightarrow> DownSelector \<Rightarrow> u64 \<Rightarrow> u16 list" where
  "select_ports lower os data sel now =
     map fst
       (filter (\<lambda>(port, e). filter_matches lower os (ds_filter sel) port e now)
         (filter (\<lambda>(_, e). scope_includes (ds_scope sel) (pe_holder e)) (pd_entries data)))"

end
