(* ===== verification/Port_Safety.thy ===== *)
theory Port_Safety
  imports Port_Registry
begin

text \<open>
  What the port registry's operations do to its table: an allocation never takes a port that is
  reserved or in use, repeats its answer, and keeps every other row; pruning, releasing and
  selecting touch exactly the rows they name.
\<close>

section \<open>The scan\<close>

lemma scan_port_spec:
  "case scan_port busy base of
     Some p \<Rightarrow> \<not> busy p \<and> base \<le> p \<and> (\<forall>q. base \<le> q \<and> q < p \<longrightarrow> busy q)
   | None \<Rightarrow> \<forall>q. base \<le> q \<longrightarrow> busy q"
proof (induction busy base rule: scan_port.induct)
  case (1 busy port)
  show ?case
  proof (cases "busy port")
    case False
    then show ?thesis by (auto simp: scan_port.simps [of busy port])
  next
    case True
    show ?thesis
    proof (cases "checked_add port 1")
      case None
      have last: "q = port" if "port \<le> q" for q
        using checked_add_one_None [OF None] that u16_below [of q]
        by (simp add: word_le_nat_alt word_unat_eq_iff)
      have "scan_port busy port = None" using True None by (simp add: scan_port.simps [of busy port])
      then show ?thesis using True last by auto
    next
      case (Some port')
      have up: "unat port' = Suc (unat port)" using checked_add_Some [OF Some] by simp
      have eq: "scan_port busy port = scan_port busy port'"
        using True Some by (simp add: scan_port.simps [of busy port])
      have next_le: "port' \<le> q \<or> q = port" if "port \<le> q" for q
        using that up by (auto simp: word_le_nat_alt word_unat_eq_iff)
      have le: "port \<le> q" if "port' \<le> q" for q
        using that up by (simp add: word_le_nat_alt)
      show ?thesis
        using "1.IH" [OF True Some] True next_le le unfolding eq by (auto split: option.splits)
    qed
  qed
qed

lemma scan_port_Some: "scan_port busy base = Some p \<Longrightarrow> \<not> busy p"
  and scan_port_ge: "scan_port busy base = Some p \<Longrightarrow> base \<le> p"
  using scan_port_spec [where busy = busy and base = base] by simp_all

section \<open>Rows of a holder\<close>

definition held :: "PortData \<Rightarrow> string \<Rightarrow> string \<Rightarrow> Role \<Rightarrow> u16 \<Rightarrow> bool" where
  "held d holder app role p \<longleftrightarrow>
     (\<exists>e. bt_get (pd_entries d) p = Some e \<and> pe_holder e = holder \<and> pe_app e = app \<and> pe_role e = role)"

lemma holds_held:
  assumes wf: "bt_wf (pd_entries d)" and "holds d holder app role = Some p"
  shows "held d holder app role p"
proof -
  obtain e where "find (\<lambda>(_, e). pe_holder e = holder \<and> pe_app e = app \<and> pe_role e = role) (pd_entries d) = Some (p, e)"
    using assms(2) by (auto simp: holds_def)
  from find_Some_set [OF this] have "(p, e) \<in> set (pd_entries d)"
    "pe_holder e = holder \<and> pe_app e = app \<and> pe_role e = role" by simp_all
  then show ?thesis unfolding held_def bt_get_Some [OF wf] by blast
qed

lemma holds_None: "holds d holder app role = None \<Longrightarrow> \<not> held d holder app role p"
  by (force simp: holds_def held_def dest: find_None_all bt_get_in_set)

lemma held_insert:
  "held (d\<lparr>pd_entries := bt_insert q (new_entry os app' holder' role') (pd_entries d)\<rparr>) holder app role p \<Longrightarrow>
   p = q \<or> held d holder app role p"
  by (auto simp: held_def bt_insert_get split: if_splits)

section \<open>Allocation\<close>

text \<open>What one reservation does to a table, whichever branch it takes.\<close>

definition reserves :: "PortData \<Rightarrow> PortData \<Rightarrow> string \<Rightarrow> string \<Rightarrow> Role \<Rightarrow> u16 \<Rightarrow> bool" where
  "reserves d d' holder app role p \<longleftrightarrow>
     bt_wf (pd_entries d') \<and> held d' holder app role p \<and>
     (\<forall>k. k \<noteq> p \<longrightarrow> bt_get (pd_entries d') k = bt_get (pd_entries d) k) \<and>
     (bt_get (pd_entries d) p \<noteq> None \<longrightarrow> d' = d)"

lemma reserves_insert:
  assumes "bt_wf (pd_entries d)" and "bt_get (pd_entries d) p = None"
  shows "reserves d (d\<lparr>pd_entries := bt_insert p (new_entry os app holder role) (pd_entries d)\<rparr>) holder app role p"
  using assms by (auto simp: reserves_def held_def bt_insert_get bt_insert_wf new_entry_def)

lemma reserves_held: "bt_wf (pd_entries d) \<Longrightarrow> held d holder app role p \<Longrightarrow> reserves d d holder app role p"
  by (simp add: reserves_def)

lemma alloc_one_reserves:
  assumes "bt_wf (pd_entries d)" and "alloc_one os d holder app base role = Inr (p, d')"
  shows "reserves d d' holder app role p
    \<and> (bt_get (pd_entries d) p = None \<longrightarrow> base \<le> p \<and> \<not> os_listening os p)"
proof (cases "holds d holder app role")
  case (Some q)
  then have "held d holder app role q" using holds_held [OF assms(1)] by simp
  with Some assms show ?thesis by (auto simp: alloc_one_def held_def intro: reserves_held)
next
  case None
  let ?busy = "\<lambda>p. bt_get (pd_entries d) p \<noteq> None \<or> os_listening os p"
  have scan: "scan_port ?busy base = Some p"
    and d': "d' = d\<lparr>pd_entries := bt_insert p (new_entry os app holder role) (pd_entries d)\<rparr>"
    using None assms(2) by (auto simp: alloc_one_def split: option.splits)
  have "\<not> ?busy p" "base \<le> p"
    using scan_port_Some [OF scan] scan_port_ge [OF scan] by simp_all
  then show ?thesis
    using reserves_insert [OF assms(1)] d' by simp
qed

lemma reserve_one:
  assumes "bt_wf (pd_entries d)"
    and "(case holds d holder app role of
              Some p \<Rightarrow> Inr (p, d)
            | None \<Rightarrow>
                if bt_get (pd_entries d) port \<noteq> None then alloc_one os d holder app base role
                else Inr (port, d\<lparr>pd_entries := bt_insert port (new_entry os app holder role) (pd_entries d)\<rparr>)) =
         Inr (p, d')"
  shows "reserves d d' holder app role p
    \<and> (bt_get (pd_entries d) p = None \<longrightarrow> p = port \<or> \<not> os_listening os p)"
proof (cases "holds d holder app role")
  case (Some q)
  with assms show ?thesis
    using holds_held [OF assms(1) Some] by (auto simp: held_def intro: reserves_held)
next
  case None
  then show ?thesis
    using assms alloc_one_reserves [OF assms(1)] by (auto split: if_splits intro: reserves_insert)
qed

definition extends :: "PortData \<Rightarrow> PortData \<Rightarrow> bool" where
  "extends d d' \<longleftrightarrow> (\<forall>k e. bt_get (pd_entries d) k = Some e \<longrightarrow> bt_get (pd_entries d') k = Some e)"

lemma extends_refl [simp]: "extends d d"
  by (simp add: extends_def)

lemma extends_trans: "extends d d1 \<Longrightarrow> extends d1 d2 \<Longrightarrow> extends d d2"
  by (simp add: extends_def)

lemma reserves_extends: "reserves d d' holder app role p \<Longrightarrow> extends d d'"
  unfolding reserves_def extends_def by (metis option.distinct(1))

lemma held_extends: "held d holder app role p \<Longrightarrow> extends d d' \<Longrightarrow> held d' holder app role p"
  by (auto simp: held_def extends_def)

lemma reserve_ports_spec:
  assumes "bt_wf (pd_entries d)" and "reserve_ports os holder role reqs d chosen = Inr (out, d')"
  shows "bt_wf (pd_entries d') \<and> extends d d' \<and> map fst out = map fst chosen
    \<and> (\<forall>(a, p)\<in>set out. held d' holder a role p)
    \<and> (\<forall>p. bt_get (pd_entries d) p = None \<and> bt_get (pd_entries d') p \<noteq> None \<longrightarrow>
          p \<in> snd ` set out \<and> (p \<in> snd ` set chosen \<or> \<not> os_listening os p))"
  using assms
proof (induction chosen arbitrary: d out)
  case Nil
  then show ?case by auto
next
  case (Cons ap chosen)
  obtain app port where ap: "ap = (app, port)" by force
  obtain p d1 rest where
    one: "(case holds d holder app role of
              Some p \<Rightarrow> Inr (p, d)
            | None \<Rightarrow>
                if bt_get (pd_entries d) port \<noteq> None
                then alloc_one os d holder app (case find (\<lambda>(a, _). a = app) reqs of Some (_, b) \<Rightarrow> b | None \<Rightarrow> port) role
                else Inr (port, d\<lparr>pd_entries := bt_insert port (new_entry os app holder role) (pd_entries d)\<rparr>)) =
         Inr (p, d1)"
    and rest: "reserve_ports os holder role reqs d1 chosen = Inr (rest, d')" and out: "out = (app, p) # rest"
    using Cons.prems(2) unfolding ap by (auto split: sum.splits prod.splits)
  have r: "reserves d d1 holder app role p"
    and new: "bt_get (pd_entries d) p = None \<Longrightarrow> p = port \<or> \<not> os_listening os p"
    using reserve_one [OF Cons.prems(1) one] by auto
  have wf1: "bt_wf (pd_entries d1)" and h1: "held d1 holder app role p"
    and same: "k \<noteq> p \<Longrightarrow> bt_get (pd_entries d1) k = bt_get (pd_entries d) k" for k
    using r by (auto simp: reserves_def)
  note IH = Cons.IH [OF wf1 rest]
  have "extends d d'" using reserves_extends [OF r] IH extends_trans by blast
  moreover have "held d' holder app role p" using held_extends [OF h1] IH by simp
  moreover have "q \<in> snd ` set out \<and> (q \<in> snd ` set (ap # chosen) \<or> \<not> os_listening os q)"
    if "bt_get (pd_entries d) q = None" "bt_get (pd_entries d') q \<noteq> None" for q
  proof (cases "q = p")
    case True
    then show ?thesis using new that(1) by (auto simp: out ap)
  next
    case False
    then show ?thesis using IH same [OF False] that by (auto simp: out)
  qed
  ultimately show ?case using IH by (simp add: out ap)
qed

text \<open>A port chosen on the snapshot is the app's own, or nothing accepts on it.\<close>

lemma choose_ports_spec:
  assumes "bt_wf (pd_entries data)"
    and "\<And>a p. held data holder a role p \<Longrightarrow> held data0 holder a role p \<or> \<not> os_listening os p"
    and "\<forall>(a, p)\<in>set chosen. held data0 holder a role p \<or> \<not> os_listening os p"
    and "choose_ports os holder role data chosen reqs = Inr out"
  shows "map fst out = map fst chosen @ map fst reqs
    \<and> (\<forall>(a, p)\<in>set out. held data0 holder a role p \<or> \<not> os_listening os p)"
  using assms
proof (induction reqs arbitrary: data chosen)
  case Nil
  then show ?case by simp
next
  case (Cons ab reqs)
  obtain app base where ab: "ab = (app, base)" by force
  show ?case
  proof (cases "holds data holder app role")
    case (Some p)
    have "held data holder app role p" using holds_held [OF Cons.prems(1) Some] .
    then have "held data0 holder app role p \<or> \<not> os_listening os p" by (rule Cons.prems(2))
    then have "\<forall>(a, p)\<in>set (chosen @ [(app, p)]). held data0 holder a role p \<or> \<not> os_listening os p"
      using Cons.prems(3) by auto
    from Cons.IH [OF Cons.prems(1,2) this] Cons.prems(4) Some ab show ?thesis by simp
  next
    case None
    let ?busy = "\<lambda>p. bt_get (pd_entries data) p \<noteq> None \<or> list_ex (\<lambda>(_, q). q = p) chosen \<or> os_listening os p"
    obtain port where scan: "scan_port ?busy base = Some port"
      and rest: "choose_ports os holder role
          (data\<lparr>pd_entries := bt_insert port (new_entry os app holder role) (pd_entries data)\<rparr>)
          (chosen @ [(app, port)]) reqs = Inr out"
      using Cons.prems(4) None ab by (auto split: option.splits)
    have free: "\<not> os_listening os port" using scan_port_Some [OF scan] by simp
    have "map fst out = map fst (chosen @ [(app, port)]) @ map fst reqs
        \<and> (\<forall>(a, p)\<in>set out. held data0 holder a role p \<or> \<not> os_listening os p)"
    proof (rule Cons.IH [OF _ _ _ rest])
      show "held data0 holder a role p \<or> \<not> os_listening os p"
        if "held (data\<lparr>pd_entries := bt_insert port (new_entry os app holder role) (pd_entries data)\<rparr>) holder a role p" for a p
        using held_insert [OF that] Cons.prems(2) free by blast
      show "\<forall>(a, p)\<in>set (chosen @ [(app, port)]). held data0 holder a role p \<or> \<not> os_listening os p"
        using Cons.prems(3) free by auto
    qed (simp add: bt_insert_wf Cons.prems(1))
    then show ?thesis by (simp add: ab)
  qed
qed

lemma held_app_unique: "held d holder a role p \<Longrightarrow> held d holder b role p \<Longrightarrow> a = b"
  by (auto simp: held_def)

text \<open>Apps that differ are answered ports that differ.\<close>

lemma held_distinct:
  assumes "\<forall>(a, p)\<in>set out. held d holder a role p" and "distinct (map fst out)"
  shows "distinct (map snd out)"
  using assms
proof (induction out)
  case (Cons ap out)
  have "snd ap \<notin> snd ` set out"
  proof
    assume "snd ap \<in> snd ` set out"
    then obtain b where b: "(b, snd ap) \<in> set out" by force
    have "b = fst ap"
      using held_app_unique Cons.prems(1) b by (cases ap) fastforce
    with b Cons.prems(2) show False by force
  qed
  with Cons show ?case by simp
qed simp

text \<open>
  C2: an allocation is safe against whatever ran between its look at the registry and its commit. For
  any snapshot and any table found at the commit: every row of that table stays as it is; each app
  asked for is answered, in order, a port whose row then names the holder, the app and the role;
  different apps get different ports; and a port that gets a new row was the holder's own at the
  snapshot, or accepted no connection when it was probed: before the commit, or at the commit when
  the first choice had been taken. A listener that comes after the probe is not noticed.
\<close>

theorem alloc_never_takes:
  assumes "bt_wf (pd_entries data)" and "bt_wf (pd_entries d)"
    and "choose_ports os holder role data [] reqs = Inr chosen"
    and "reserve_ports os' holder role reqs d chosen = Inr (out, d')"
  shows "extends d d' \<and> map fst out = map fst reqs
    \<and> (\<forall>(a, p)\<in>set out. held d' holder a role p)
    \<and> (distinct (map fst reqs) \<longrightarrow> distinct (map snd out))
    \<and> (\<forall>p. bt_get (pd_entries d) p = None \<and> bt_get (pd_entries d') p \<noteq> None \<longrightarrow>
          p \<in> snd ` set out
          \<and> (if p \<in> snd ` set chosen then (\<exists>a. held data holder a role p) \<or> \<not> os_listening os p else \<not> os_listening os' p))"
proof -
  have c: "map fst chosen = map fst reqs"
    "\<forall>(a, p)\<in>set chosen. held data holder a role p \<or> \<not> os_listening os p"
    using choose_ports_spec [OF assms(1) _ _ assms(3), of data] by auto
  have r: "extends d d'" "map fst out = map fst chosen" "\<forall>(a, p)\<in>set out. held d' holder a role p"
    "\<forall>p. bt_get (pd_entries d) p = None \<and> bt_get (pd_entries d') p \<noteq> None \<longrightarrow>
          p \<in> snd ` set out \<and> (p \<in> snd ` set chosen \<or> \<not> os_listening os' p)"
    using reserve_ports_spec [OF assms(2,4)] by simp_all
  have "distinct (map snd out)" if "distinct (map fst reqs)"
    using held_distinct [OF r(3)] that r(2) c(1) by simp
  moreover have "(\<exists>a. held data holder a role p) \<or> \<not> os_listening os p" if "p \<in> snd ` set chosen" for p
    using c(2) that by fastforce
  ultimately show ?thesis
    using r(1,2,3,4) c(1) by (intro conjI allI impI) (simp_all, blast)
qed

text \<open>A sample machine and table: 9100 is reserved by a live server, 9101 is in use by a stranger.\<close>

definition demo_os :: os where
  "demo_os = \<lparr>os_holder_alive = \<lambda>h. h = ''/w'', os_pid_alive = \<lambda>p. p = 7, os_listening = \<lambda>p. p \<in> {9100, 9101}, os_now = 1000\<rparr>"

definition demo_port_row :: Entry where
  "demo_port_row = \<lparr>pe_app = ''api'', pe_holder = ''/w'', pe_role = Workspace, pe_pid = Some 7, pe_logfile = None, pe_ts = 1\<rparr>"

definition demo_ports :: PortData where
  "demo_ports = \<lparr>pd_version = 1, pd_entries = [(9100, demo_port_row)]\<rparr>"

definition demo_new :: Entry where
  "demo_new = new_entry demo_os ''web'' ''/w'' Workspace"

lemma demo_scan:
  "scan_port (\<lambda>p. bt_get (pd_entries demo_ports) p \<noteq> None \<or> list_ex (\<lambda>(_, q). q = p) [] \<or> os_listening demo_os p) 9100 = Some 9102"
  by (simp add: scan_port.simps checked_add_def demo_ports_def demo_os_def bt_get_def)

lemma demo_alloc:
  "choose_ports demo_os ''/w'' Workspace demo_ports [] [(''web'', 9100)] = Inr [(''web'', 9102)]"
  "reserve_ports demo_os ''/w'' Workspace [(''web'', 9100)] demo_ports [(''web'', 9102)] =
     Inr ([(''web'', 9102)], demo_ports\<lparr>pd_entries := [(9100, demo_port_row), (9102, demo_new)]\<rparr>)"
proof -
  have none: "holds demo_ports ''/w'' ''web'' Workspace = None"
    by (simp add: holds_def demo_ports_def demo_port_row_def)
  show "choose_ports demo_os ''/w'' Workspace demo_ports [] [(''web'', 9100)] = Inr [(''web'', 9102)]"
    unfolding choose_ports.simps none option.case demo_scan by simp
  show "reserve_ports demo_os ''/w'' Workspace [(''web'', 9100)] demo_ports [(''web'', 9102)] =
     Inr ([(''web'', 9102)], demo_ports\<lparr>pd_entries := [(9100, demo_port_row), (9102, demo_new)]\<rparr>)"
    by (simp add: none) (simp add: demo_ports_def bt_get_def demo_new_def)
qed

lemma demo_ports_wf: "bt_wf (pd_entries demo_ports)"
  by (simp add: demo_ports_def bt_wf_def)

theorem alloc_never_takes_witness:
  "extends demo_ports (demo_ports\<lparr>pd_entries := [(9100, demo_port_row), (9102, demo_new)]\<rparr>)"
  using alloc_never_takes [OF demo_ports_wf demo_ports_wf demo_alloc] by (rule conjunct1)

text \<open>
  Reserving one port, on every branch. A holder that has one for the app and role gets it again and
  nothing changes; otherwise it gets the least port from \<open>base\<close> up that is neither reserved nor in
  use, with a fresh row; the panic comes only when every port from \<open>base\<close> up is reserved or in use.
  Asking again, whatever the base and the machine then, answers the same port.
\<close>

theorem alloc_one_spec:
  assumes "bt_wf (pd_entries d)"
  shows "case alloc_one os d holder app base role of
      Inr (p, d') \<Rightarrow>
        (held d holder app role p \<and> d' = d \<or>
         (\<forall>q. \<not> held d holder app role q) \<and> base \<le> p \<and> bt_get (pd_entries d) p = None \<and> \<not> os_listening os p \<and>
         (\<forall>q. base \<le> q \<and> q < p \<longrightarrow> bt_get (pd_entries d) q \<noteq> None \<or> os_listening os q) \<and>
         d' = d\<lparr>pd_entries := bt_insert p (new_entry os app holder role) (pd_entries d)\<rparr>) \<and>
        (\<forall>os2 base2. alloc_one os2 d' holder app base2 role = Inr (p, d'))
    | Inl e \<Rightarrow> e = NoFreePort base \<and> (\<forall>q. \<not> held d holder app role q) \<and>
        (\<forall>q. base \<le> q \<longrightarrow> bt_get (pd_entries d) q \<noteq> None \<or> os_listening os q)"
proof (cases "holds d holder app role")
  case (Some p)
  then show ?thesis using holds_held [OF assms Some] by (simp add: alloc_one_def)
next
  case None
  let ?busy = "\<lambda>p. bt_get (pd_entries d) p \<noteq> None \<or> os_listening os p"
  have free: "\<forall>q. \<not> held d holder app role q" using holds_None [OF None] by blast
  show ?thesis
  proof (cases "scan_port ?busy base")
    case scan: None
    then show ?thesis
      using None free scan_port_spec [where busy = ?busy and base = base] by (simp add: alloc_one_def)
  next
    case (Some p)
    let ?d = "d\<lparr>pd_entries := bt_insert p (new_entry os app holder role) (pd_entries d)\<rparr>"
    have wf: "bt_wf (pd_entries ?d)" using assms by (simp add: bt_insert_wf)
    have mine: "held ?d holder app role p" by (simp add: held_def bt_insert_get new_entry_def)
    have "holds ?d holder app role = Some p"
    proof (cases "holds ?d holder app role")
      case None
      with holds_None [OF None] mine show ?thesis by simp
    next
      case (Some q)
      from held_insert [OF holds_held [OF wf Some]] free Some show ?thesis by simp
    qed
    then show ?thesis
      using None Some free scan_port_spec [where busy = ?busy and base = base] by (simp add: alloc_one_def)
  qed
qed

theorem alloc_one_spec_witness:
  "\<forall>os2 base2. alloc_one os2 demo_ports ''/w'' ''api'' base2 Workspace = Inr (9100, demo_ports)"
proof -
  have "alloc_one demo_os demo_ports ''/w'' ''api'' 9100 Workspace = Inr (9100, demo_ports)"
    by (simp add: alloc_one_def holds_def demo_ports_def demo_port_row_def)
  then show ?thesis
    using alloc_one_spec [OF demo_ports_wf, where os = demo_os and holder = "''/w''" and app = "''api''"
        and base = 9100 and role = Workspace] by simp
qed

section \<open>Pruning\<close>

lemma remove_ports_rows: "set (pd_entries (remove_ports ports d)) = {row \<in> set (pd_entries d). fst row \<notin> set ports}"
  by (simp add: remove_ports_def bt_remove_all_set)

lemma remove_ports_wf: "bt_wf (pd_entries d) \<Longrightarrow> bt_wf (pd_entries (remove_ports ports d))"
  by (simp add: remove_ports_def bt_remove_all_wf)

lemma rows_of_ports:
  assumes "bt_wf m"
  shows "{row \<in> set m. fst row \<notin> fst ` {r \<in> set m. P r}} = {row \<in> set m. \<not> P row}"
proof -
  have inj: "inj_on fst (set m)" using bt_wf_distinct [OF assms] by (simp add: distinct_map)
  have "fst row \<in> fst ` {r \<in> set m. P r} \<longleftrightarrow> P row" if "row \<in> set m" for row
    using inj_on_image_mem_iff [OF inj that, of "{r \<in> set m. P r}"] that by auto
  then show ?thesis by auto
qed

lemma dead_ports_set: "set (dead_ports os d) = fst ` {r \<in> set (pd_entries d). \<not> entry_alive os (fst r) (snd r)}"
  by (simp add: dead_ports_def case_prod_beta)

lemma prune_rows:
  "bt_wf (pd_entries d) \<Longrightarrow>
   set (pd_entries (port_prune os d)) = {r \<in> set (pd_entries d). entry_alive os (fst r) (snd r)}"
  unfolding port_prune_def remove_ports_rows dead_ports_set
  using rows_of_ports [of "pd_entries d" "\<lambda>r. \<not> entry_alive os (fst r) (snd r)"] by simp

lemma entry_alive_iff:
  "entry_alive os p e \<longleftrightarrow> os_holder_alive os (pe_holder e) \<and>
     (case pe_pid e of
        Some pid \<Rightarrow> os_pid_alive os pid
      | None \<Rightarrow> os_listening os p \<or> unat (os_now os) - unat (pe_ts e) < 300)"
  by (cases "pe_pid e") (simp_all add: entry_alive_def word_less_nat_alt unat_sat_sub reservation_grace_secs_def)

text \<open>
  A read of the registry never fails and shows exactly the live rows. Over the file, with or
  without a daemon holding the gate, and whether or not the removals could be saved, \<open>snapshot\<close>
  returns the table with the dead rows gone; a reservation without a pid counts as live while it is
  younger than the grace period or its port accepts.
\<close>

theorem snapshot_shows_live_rows:
  assumes "io_read io"
  shows "\<exists>d. fst (snapshot_with os (flock_snapshot port_document io) (flock_commit port_document io gate) fs) = Inr d
    \<and> set (pd_entries d) =
        {r \<in> set (pd_entries (file_view port_document fs)).
           os_holder_alive os (pe_holder (snd r)) \<and>
           (case pe_pid (snd r) of
              Some pid \<Rightarrow> os_pid_alive os pid
            | None \<Rightarrow> os_listening os (fst r) \<or> unat (os_now os) - unat (pe_ts (snd r)) < 300)}"
proof -
  let ?v = "file_view port_document fs"
  have wf: "bt_wf (pd_entries ?v)" by (rule port_doc.file_view_wf)
  obtain fs1 where rd: "doc_read port_document io fs = (?v, fs1)"
    using doc_read_view [OF assms, of port_document fs] by (cases "doc_read port_document io fs") auto
  have view1: "fst (doc_read port_document io fs1) = ?v"
    using doc_read_keeps_view [of port_document io fs] rd doc_read_view [OF assms, of port_document fs1] by simp
  have "fst (snapshot_with os (flock_snapshot port_document io) (flock_commit port_document io gate) fs) = Inr (port_prune os ?v)"
  proof (cases "dead_ports os ?v = []")
    case True
    then show ?thesis
      by (simp add: snapshot_with_def flock_snapshot_def rd port_prune_def remove_ports_def)
  next
    case False
    have "case flock_commit port_document io gate (\<lambda>d. let d' = remove_ports (dead_ports os ?v) d in Inr (d', d')) fs1
          :: (port_fault store_error + PortData) \<times> doc_fs of
        (Inr r, _) \<Rightarrow> r = port_prune os ?v | (Inl _, _) \<Rightarrow> True"
      using view1
      by (auto simp: flock_commit_def with_lock_def with_lock_via_def with_file_lock_def doc_write_def Let_def
          port_prune_def case_prod_beta)
    then show ?thesis
      using False by (auto simp: snapshot_with_def flock_snapshot_def rd Let_def port_prune_def
          split: prod.splits sum.splits)
  qed
  then show ?thesis
    using prune_rows [OF wf] by (simp add: entry_alive_iff)
qed

theorem snapshot_shows_live_rows_witness:
  "\<exists>d. fst (snapshot_with demo_os (flock_snapshot port_document clean_io) (flock_commit port_document clean_io False)
       \<lparr>fs_data = Some (Text (port_data_to_json demo_ports)), fs_bak = None\<rparr>) = Inr d
     \<and> set (pd_entries d) \<subseteq> set (pd_entries (file_view port_document
          \<lparr>fs_data = Some (Text (port_data_to_json demo_ports)), fs_bak = None\<rparr>))"
proof -
  have "io_read clean_io" by (simp add: clean_io_def)
  from snapshot_shows_live_rows [OF this, of demo_os False
      "\<lparr>fs_data = Some (Text (port_data_to_json demo_ports)), fs_bak = None\<rparr>"]
  show ?thesis by blast
qed

text \<open>
  The removals of a prune name ports, not rows. A port found dead in the snapshot and reserved anew
  by another holder before the commit loses its live reservation.
\<close>

lemma prune_removes_new_reservation:
  assumes "dead_ports os data = [p]" and "bt_get (pd_entries d) p = Some e" and "entry_alive os p e"
  shows "bt_get (pd_entries (remove_ports (dead_ports os data) d)) p = None"
  using assms by (simp add: remove_ports_def bt_remove_get)

section \<open>Releasing and selecting\<close>

text \<open>
  C28: a release frees exactly the rows it names. By holder and role it removes that holder's rows of
  the role (of any role when none is named) and reports their ports; by port it removes the listed
  ports that are present, reports those, and every other row stays.
\<close>

theorem release_exact:
  assumes "bt_wf (pd_entries d)"
  shows "(case port_release d holder role of (freed, d') \<Rightarrow>
      set (pd_entries d') = {r \<in> set (pd_entries d). \<not> (pe_holder (snd r) = holder \<and> (\<forall>x. role = Some x \<longrightarrow> pe_role (snd r) = x))}
      \<and> set freed = fst ` {r \<in> set (pd_entries d). pe_holder (snd r) = holder \<and> (\<forall>x. role = Some x \<longrightarrow> pe_role (snd r) = x)})
    \<and> (case release_ports d ports of (freed2, d2) \<Rightarrow>
      set (pd_entries d2) = {r \<in> set (pd_entries d). fst r \<notin> set ports}
      \<and> set freed2 = set ports \<inter> fst ` set (pd_entries d))"
proof -
  let ?P = "\<lambda>r :: u16 \<times> Entry. pe_holder (snd r) = holder \<and> (\<forall>x. role = Some x \<longrightarrow> pe_role (snd r) = x)"
  have "{row \<in> set (pd_entries d). fst row \<notin> fst ` {r \<in> set (pd_entries d). ?P r}} = {row \<in> set (pd_entries d). \<not> ?P row}"
    by (rule rows_of_ports [OF assms])
  moreover have "(case role of None \<Rightarrow> True | Some r \<Rightarrow> pe_role e = r) \<longleftrightarrow> (\<forall>x. role = Some x \<longrightarrow> pe_role e = x)" for e :: Entry
    by (cases role) auto
  ultimately have rel: "case port_release d holder role of (freed, d') \<Rightarrow>
      set (pd_entries d') = {r \<in> set (pd_entries d). \<not> ?P r} \<and> set freed = fst ` {r \<in> set (pd_entries d). ?P r}"
    by (simp add: port_release_def Let_def remove_ports_rows case_prod_beta)
  have "bt_get (pd_entries d) p \<noteq> None \<longleftrightarrow> p \<in> fst ` set (pd_entries d)" for p
    by (simp add: bt_get_None)
  then have "case release_ports d ports of (freed2, d2) \<Rightarrow>
      set (pd_entries d2) = {r \<in> set (pd_entries d). fst r \<notin> set ports}
      \<and> set freed2 = set ports \<inter> fst ` set (pd_entries d)"
    by (auto simp: release_ports_def Let_def remove_ports_rows)
  with rel show ?thesis by simp
qed

theorem release_exact_witness:
  "set (pd_entries (snd (port_release demo_ports ''/w'' None))) = {}"
  using release_exact [OF demo_ports_wf, THEN conjunct1, of "''/w''" None]
  by (simp add: case_prod_beta demo_ports_def demo_port_row_def)

text \<open>
  A recorded server is never lost. After \<open>record_pid\<close> the port's row names the app, the holder,
  the role, the pid and the log, whether or not the reservation had been pruned, and keeps its
  time when it had not; every other row stays.
\<close>

lemma record_pid_tracks:
  "(\<exists>t. bt_get (pd_entries (record_pid os d port app holder role pid logfile)) port =
      Some \<lparr>pe_app = app, pe_holder = holder, pe_role = role, pe_pid = Some pid, pe_logfile = Some logfile, pe_ts = t\<rparr>
      \<and> t = (case bt_get (pd_entries d) port of Some e \<Rightarrow> pe_ts e | None \<Rightarrow> os_now os))
    \<and> (\<forall>k. k \<noteq> port \<longrightarrow> bt_get (pd_entries (record_pid os d port app holder role pid logfile)) k = bt_get (pd_entries d) k)"
  by (auto simp: record_pid_def bt_insert_get new_entry_def Let_def split: option.split)

lemma select_sorted:
  assumes "bt_wf (pd_entries data)"
  shows "sorted_wrt (<) (select_ports lower os data sel now)"
proof -
  have "sorted_wrt (<) (map fst (filter P (pd_entries data)))" for P
    using bt_filter_wf [OF assms, of P] by (simp add: bt_wf_def sorted_wrt_map)
  then show ?thesis unfolding select_ports_def filter_filter .
qed

lemma select_mem:
  assumes "bt_wf (pd_entries data)"
  shows "p \<in> set (select_ports lower os data sel now) \<longleftrightarrow>
    (\<exists>e. bt_get (pd_entries data) p = Some e \<and> scope_includes (ds_scope sel) (pe_holder e)
       \<and> filter_matches lower os (ds_filter sel) p e now)"
  by (force simp: select_ports_def bt_get_Some [OF assms])

lemma columns_match_iff:
  "columns_match os c p e now \<longleftrightarrow>
      (fl_app c \<noteq> [] \<longrightarrow> pe_app e \<in> set (fl_app c)) \<and> (fl_port c \<noteq> [] \<longrightarrow> p \<in> set (fl_port c))
      \<and> (\<forall>r. fl_role c = Some r \<longrightarrow> pe_role e = r) \<and> (\<forall>i. fl_pid c = Some i \<longrightarrow> pe_pid e = Some i)
      \<and> (\<forall>l. fl_listening c = Some l \<longrightarrow> os_listening os p = l)
      \<and> (\<forall>s. fl_older_than_secs c = Some s \<longrightarrow> unat s \<le> unat now - unat (pe_ts e))"
  by (cases "fl_role c"; cases "fl_pid c"; cases "fl_listening c"; cases "fl_older_than_secs c")
    (simp_all add: columns_match_def list_ex_iff word_less_nat_alt unat_sat_sub)

text \<open>
  C29: what \<open>down\<close> selects. The ports are those of the rows in scope that pass the filter, each once
  and in order; the current worktree's and all the others' are disjoint and together are everyone's;
  and a column filter is the conjunction of the columns it names.
\<close>

theorem select_exact:
  assumes "bt_wf (pd_entries data)"
  shows "distinct (select_ports lower os data sel now)
    \<and> sorted (select_ports lower os data sel now)
    \<and> set (select_ports lower os data \<lparr>ds_scope = AllHolders, ds_filter = f\<rparr> now) =
        set (select_ports lower os data \<lparr>ds_scope = Current h, ds_filter = f\<rparr> now)
        \<union> set (select_ports lower os data \<lparr>ds_scope = Others h, ds_filter = f\<rparr> now)
    \<and> set (select_ports lower os data \<lparr>ds_scope = Current h, ds_filter = f\<rparr> now)
        \<inter> set (select_ports lower os data \<lparr>ds_scope = Others h, ds_filter = f\<rparr> now) = {}
    \<and> (p \<in> set (select_ports lower os data \<lparr>ds_scope = Holders hs, ds_filter = Columns c\<rparr> now) \<longleftrightarrow>
        (\<exists>e. bt_get (pd_entries data) p = Some e \<and> pe_holder e \<in> set hs
          \<and> (fl_app c \<noteq> [] \<longrightarrow> pe_app e \<in> set (fl_app c)) \<and> (fl_port c \<noteq> [] \<longrightarrow> p \<in> set (fl_port c))
          \<and> (\<forall>r. fl_role c = Some r \<longrightarrow> pe_role e = r) \<and> (\<forall>i. fl_pid c = Some i \<longrightarrow> pe_pid e = Some i)
          \<and> (\<forall>l. fl_listening c = Some l \<longrightarrow> os_listening os p = l)
          \<and> (\<forall>s. fl_older_than_secs c = Some s \<longrightarrow> unat s \<le> unat now - unat (pe_ts e))))"
proof (intro conjI)
  show "distinct (select_ports lower os data sel now)" "sorted (select_ports lower os data sel now)"
    using select_sorted [OF assms, of lower os sel now] by (simp_all add: strict_sorted_iff)
  show "set (select_ports lower os data \<lparr>ds_scope = AllHolders, ds_filter = f\<rparr> now) =
        set (select_ports lower os data \<lparr>ds_scope = Current h, ds_filter = f\<rparr> now)
        \<union> set (select_ports lower os data \<lparr>ds_scope = Others h, ds_filter = f\<rparr> now)"
    by (auto simp: select_mem [OF assms] scope_includes_def)
  show "set (select_ports lower os data \<lparr>ds_scope = Current h, ds_filter = f\<rparr> now)
        \<inter> set (select_ports lower os data \<lparr>ds_scope = Others h, ds_filter = f\<rparr> now) = {}"
    by (auto simp: select_mem [OF assms] scope_includes_def)
  show "p \<in> set (select_ports lower os data \<lparr>ds_scope = Holders hs, ds_filter = Columns c\<rparr> now) \<longleftrightarrow>
        (\<exists>e. bt_get (pd_entries data) p = Some e \<and> pe_holder e \<in> set hs
          \<and> (fl_app c \<noteq> [] \<longrightarrow> pe_app e \<in> set (fl_app c)) \<and> (fl_port c \<noteq> [] \<longrightarrow> p \<in> set (fl_port c))
          \<and> (\<forall>r. fl_role c = Some r \<longrightarrow> pe_role e = r) \<and> (\<forall>i. fl_pid c = Some i \<longrightarrow> pe_pid e = Some i)
          \<and> (\<forall>l. fl_listening c = Some l \<longrightarrow> os_listening os p = l)
          \<and> (\<forall>s. fl_older_than_secs c = Some s \<longrightarrow> unat s \<le> unat now - unat (pe_ts e)))"
    by (simp add: select_mem [OF assms] scope_includes_def filter_matches_def columns_match_iff list_ex_iff)
qed

theorem select_exact_witness:
  "sorted (select_ports id demo_os demo_ports \<lparr>ds_scope = AllHolders, ds_filter = AllRows\<rparr> 5)"
  using select_exact [OF demo_ports_wf] by blast

end
