(* ===== verification/Supervisor.thy ===== *)
theory Supervisor
  imports Port_Safety
begin

text \<open>
  The daemon's supervision table of \<open>src/bin/devkitd/supervisor.rs\<close>: the children it watches, the
  crash-loop budget, the health probes and the memory limits.

  The table is a \<open>HashMap\<close>; it is modelled as its list of rows in iteration order, which the
  lemmas leave open. An \<open>Instant\<close> is the number of time units since some start, so \<open>duration_since\<close>
  is the truncated difference. Whether a process is gone and how much memory its tree uses are
  arguments.
\<close>

section \<open>Data\<close>

record Key =
  ky_holder :: string
  ky_app :: string
  ky_role :: Role

record Launch =
  la_argv :: "string list"
  la_cwd :: string
  la_env :: "(string, string) btree"

datatype Watch = Owned | Adopted

record Child =
  ch_pid :: u32
  ch_port :: u16
  ch_logfile :: string
  ch_watch :: Watch
  ch_restarts :: "nat list"
  ch_warned_mem :: bool
  ch_launch :: "Launch option"
  ch_armed :: bool
  ch_probe_failures :: u32
  ch_mem_over :: u32
  ch_mem_gave_up :: bool

datatype MemAction = Restart Key u32 u64 | GiveUp Key u64

record Supervisor =
  su_children :: "(Key \<times> Child) list"
  su_max_restarts :: u32
  su_window :: nat
  su_mem_warn :: u64
  su_mem_limit :: u64

abbreviation child_of :: "Supervisor \<Rightarrow> Key \<Rightarrow> Child option" where
  "child_of s \<equiv> map_of (su_children s)"

section \<open>Operations\<close>

definition sup_new :: "u32 \<Rightarrow> nat \<Rightarrow> u64 \<Rightarrow> u64 \<Rightarrow> Supervisor" where
  "sup_new max_restarts window mem_warn mem_limit =
     \<lparr>su_children = [], su_max_restarts = max_restarts, su_window = window,
      su_mem_warn = mem_warn, su_mem_limit = mem_limit\<rparr>"

definition any_live :: "Supervisor \<Rightarrow> bool" where
  "any_live s \<longleftrightarrow> su_children s \<noteq> []"

definition insert_owned :: "Key \<Rightarrow> u32 \<Rightarrow> u16 \<Rightarrow> string \<Rightarrow> Launch \<Rightarrow> Supervisor \<Rightarrow> Supervisor" where
  "insert_owned key pid port logfile launch s =
     s\<lparr>su_children := AList.update key
        \<lparr>ch_pid = pid, ch_port = port, ch_logfile = logfile, ch_watch = Owned, ch_restarts = [],
         ch_warned_mem = False, ch_launch = Some launch, ch_armed = False, ch_probe_failures = 0,
         ch_mem_over = 0, ch_mem_gave_up = False\<rparr> (su_children s)\<rparr>"

definition insert_adopted :: "Key \<Rightarrow> u32 \<Rightarrow> u16 \<Rightarrow> string \<Rightarrow> Supervisor \<Rightarrow> Supervisor" where
  "insert_adopted key pid port logfile s =
     s\<lparr>su_children := AList.update key
        \<lparr>ch_pid = pid, ch_port = port, ch_logfile = logfile, ch_watch = Adopted, ch_restarts = [],
         ch_warned_mem = False, ch_launch = None, ch_armed = False, ch_probe_failures = 0,
         ch_mem_over = 0, ch_mem_gave_up = False\<rparr> (su_children s)\<rparr>"

definition sup_remove :: "Key \<Rightarrow> Supervisor \<Rightarrow> u32 option \<times> Supervisor" where
  "sup_remove key s =
     (map_option ch_pid (child_of s key), s\<lparr>su_children := AList.delete key (su_children s)\<rparr>)"

definition sup_contains :: "Supervisor \<Rightarrow> Key \<Rightarrow> bool" where
  "sup_contains s key \<longleftrightarrow> child_of s key \<noteq> None"

definition logfile_of :: "Supervisor \<Rightarrow> Key \<Rightarrow> string option" where
  "logfile_of s key = map_option ch_logfile (child_of s key)"

definition launch_of :: "Supervisor \<Rightarrow> Key \<Rightarrow> (Launch \<times> string \<times> u16) option" where
  "launch_of s key =
     (case child_of s key of
        None \<Rightarrow> None
      | Some c \<Rightarrow> map_option (\<lambda>l. (l, ch_logfile c, ch_port c)) (ch_launch c))"

text \<open>\<open>get_mut\<close> and an update of the child, when there is one.\<close>

definition change_child :: "Key \<Rightarrow> (Child \<Rightarrow> Child) \<Rightarrow> Supervisor \<Rightarrow> Supervisor" where
  "change_child key f s =
     s\<lparr>su_children := map (\<lambda>(k, c). (k, if k = key then f c else c)) (su_children s)\<rparr>"

definition set_pid :: "Key \<Rightarrow> u32 \<Rightarrow> Supervisor \<Rightarrow> Supervisor" where
  "set_pid key pid =
     change_child key (\<lambda>c. c\<lparr>ch_pid := pid, ch_watch := Owned, ch_armed := False, ch_probe_failures := 0,
       ch_mem_over := 0, ch_mem_gave_up := False\<rparr>)"

definition recent :: "nat \<Rightarrow> nat \<Rightarrow> nat list \<Rightarrow> nat list" where
  "recent now window ts = filter (\<lambda>t. now - t < window) ts"

definition may_restart :: "nat \<Rightarrow> Key \<Rightarrow> Supervisor \<Rightarrow> bool \<times> Supervisor" where
  "may_restart now key s =
     (case child_of s key of
        None \<Rightarrow> (False, s)
      | Some c \<Rightarrow>
          (let ts = recent now (su_window s) (ch_restarts c) in
           if (of_nat (length ts) :: u32) < su_max_restarts s
           then (True, change_child key (\<lambda>c. c\<lparr>ch_restarts := ts @ [now]\<rparr>) s)
           else (False, change_child key (\<lambda>c. c\<lparr>ch_restarts := ts\<rparr>) s)))"

definition can_restart :: "nat \<Rightarrow> Key \<Rightarrow> Supervisor \<Rightarrow> bool \<times> Supervisor" where
  "can_restart now key s =
     (case child_of s key of
        None \<Rightarrow> (False, s)
      | Some c \<Rightarrow>
          (let ts = recent now (su_window s) (ch_restarts c) in
           ((of_nat (length ts) :: u32) < su_max_restarts s,
            change_child key (\<lambda>c. c\<lparr>ch_restarts := ts\<rparr>) s)))"

definition reap_once :: "(Watch \<Rightarrow> u32 \<Rightarrow> bool) \<Rightarrow> Supervisor \<Rightarrow> Key list" where
  "reap_once gone s =
     map fst (filter (\<lambda>(_, c). ch_pid c \<noteq> 0 \<and> gone (ch_watch c) (ch_pid c)) (su_children s))"

definition probe_targets :: "Supervisor \<Rightarrow> (Key \<times> u16) list" where
  "probe_targets s =
     map (\<lambda>(k, c). (k, ch_port c)) (filter (\<lambda>(_, c). ch_launch c \<noteq> None \<and> ch_pid c \<noteq> 0) (su_children s))"

definition record_probe :: "Key \<Rightarrow> bool \<Rightarrow> u32 \<Rightarrow> Supervisor \<Rightarrow> u32 option \<times> Supervisor" where
  "record_probe key ok threshold s =
     (case child_of s key of
        None \<Rightarrow> (None, s)
      | Some c \<Rightarrow>
          if ok then (None, change_child key (\<lambda>c. c\<lparr>ch_armed := True, ch_probe_failures := 0\<rparr>) s)
          else if \<not> ch_armed c then (None, s)
          else (let n = ch_probe_failures c + 1 in
                if n \<ge> threshold then (Some (ch_pid c), change_child key (\<lambda>c. c\<lparr>ch_probe_failures := 0\<rparr>) s)
                else (None, change_child key (\<lambda>c. c\<lparr>ch_probe_failures := n\<rparr>) s)))"

text \<open>One pass over the children, which updates each and collects what it reports.\<close>

fun pass :: "(Key \<Rightarrow> Child \<Rightarrow> Child \<times> 'a list) \<Rightarrow> (Key \<times> Child) list \<Rightarrow> (Key \<times> Child) list \<times> 'a list" where
  "pass f [] = ([], [])"
| "pass f ((k, c) # cs) = (let (c', out) = f k c; (cs', outs) = pass f cs in ((k, c') # cs', out @ outs))"

definition memory_breaches :: "(u32 \<Rightarrow> u64) \<Rightarrow> Supervisor \<Rightarrow> (Key \<times> u64) list \<times> Supervisor" where
  "memory_breaches rss_of s =
     (if su_mem_warn s = 0 then ([], s)
      else let (cs, breaches) = pass (\<lambda>key c.
               if ch_pid c = 0 then (c, [])
               else let rss = rss_of (ch_pid c) in
                    if rss \<ge> su_mem_warn s
                    then (if \<not> ch_warned_mem c then (c\<lparr>ch_warned_mem := True\<rparr>, [(key, rss)]) else (c, []))
                    else (c\<lparr>ch_warned_mem := False\<rparr>, [])) (su_children s)
           in (breaches, s\<lparr>su_children := cs\<rparr>))"

definition sat_add1 :: "u32 \<Rightarrow> u32" where
  "sat_add1 n = (if n = - 1 then n else n + 1)"

definition mem_tick :: "(u32 \<Rightarrow> u64) \<Rightarrow> u64 \<Rightarrow> u32 \<Rightarrow> Key \<Rightarrow> Child \<Rightarrow> Child \<times> (Key \<times> u64) list" where
  "mem_tick rss_of limit limit_ticks key c =
     (if ch_launch c = None \<or> ch_pid c = 0 then (c, [])
      else let rss = rss_of (ch_pid c) in
           if rss \<ge> limit
           then let n = sat_add1 (ch_mem_over c)
                in (c\<lparr>ch_mem_over := n\<rparr>, if n \<ge> limit_ticks then [(key, rss)] else [])
           else (c\<lparr>ch_mem_over := 0, ch_mem_gave_up := False\<rparr>, []))"

fun mem_resolve :: "nat \<Rightarrow> (Key \<times> u64) list \<Rightarrow> Supervisor \<Rightarrow> MemAction list \<times> Supervisor" where
  "mem_resolve now [] s = ([], s)"
| "mem_resolve now ((key, rss) # cands) s =
     (let (allowed, s1) = can_restart now key s in
      case child_of s1 key of
        None \<Rightarrow> mem_resolve now cands s1
      | Some c \<Rightarrow>
          if allowed
          then let (acts, s2) = mem_resolve now cands (change_child key (\<lambda>c. c\<lparr>ch_mem_over := 0\<rparr>) s1)
               in (Restart key (ch_pid c) rss # acts, s2)
          else if \<not> ch_mem_gave_up c
          then let (acts, s2) = mem_resolve now cands
                     (change_child key (\<lambda>c. c\<lparr>ch_mem_over := 0, ch_mem_gave_up := True\<rparr>) s1)
               in (GiveUp key rss # acts, s2)
          else mem_resolve now cands (change_child key (\<lambda>c. c\<lparr>ch_mem_over := 0\<rparr>) s1))"

definition mem_limit_actions :: "nat \<Rightarrow> (u32 \<Rightarrow> u64) \<Rightarrow> u32 \<Rightarrow> Supervisor \<Rightarrow> MemAction list \<times> Supervisor" where
  "mem_limit_actions now rss_of limit_ticks s =
     (if su_mem_limit s = 0 then ([], s)
      else let (cs, cands) = pass (mem_tick rss_of (su_mem_limit s) limit_ticks) (su_children s)
           in mem_resolve now cands (s\<lparr>su_children := cs\<rparr>))"

definition adopted_keys :: "Supervisor \<Rightarrow> Key list" where
  "adopted_keys s = map fst (su_children s)"

lemma child_of_change [simp]:
  "child_of (change_child key f s) k = (if k = key then map_option f (child_of s k) else child_of s k)"
proof -
  have "map_of (map (\<lambda>(k, c). (k, if k = key then f c else c)) cs) k =
      (if k = key then map_option f (map_of cs k) else map_of cs k)" for cs :: "(Key \<times> Child) list"
    by (induction cs) auto
  then show ?thesis by (simp add: change_child_def)
qed

lemma change_child_fields [simp]:
  "su_max_restarts (change_child key f s) = su_max_restarts s"
  "su_window (change_child key f s) = su_window s"
  "su_mem_limit (change_child key f s) = su_mem_limit s"
  by (simp_all add: change_child_def)

lemma pass_eq:
  "pass f cs = (map (\<lambda>(k, c). (k, fst (f k c))) cs, concat (map (\<lambda>(k, c). snd (f k c)) cs))"
  by (induction cs) (auto simp: case_prod_beta Let_def)

lemma map_of_map_keyed: "map_of (map (\<lambda>(k, c). (k, g k c)) cs) k = map_option (g k) (map_of cs k)"
  by (induction cs) auto

section \<open>The crash-loop budget\<close>

text \<open>
  The life of the table: everything that is done to it, in any order. A \<open>Peek\<close> is \<open>can_restart\<close>, an \<open>Ask\<close> is
  \<open>may_restart\<close>, and a respawn sets the process of a key.
\<close>

datatype sup_event =
    TrackOwned Key u32 u16 string Launch
  | TrackAdopted Key u32 u16 string
  | Untrack Key
  | SetPid Key u32
  | Ask nat Key
  | Peek nat Key
  | Probe Key bool u32
  | MemWarn "u32 \<Rightarrow> u64"
  | MemLimit nat "u32 \<Rightarrow> u64" u32

fun event_time :: "sup_event \<Rightarrow> nat option" where
  "event_time (Ask t _) = Some t"
| "event_time (Peek t _) = Some t"
| "event_time (MemLimit t _ _) = Some t"
| "event_time _ = None"

fun sup_apply :: "sup_event \<Rightarrow> Supervisor \<Rightarrow> Supervisor" where
  "sup_apply (TrackOwned k pid port logfile launch) s = insert_owned k pid port logfile launch s"
| "sup_apply (TrackAdopted k pid port logfile) s = insert_adopted k pid port logfile s"
| "sup_apply (Untrack k) s = snd (sup_remove k s)"
| "sup_apply (SetPid k pid) s = set_pid k pid s"
| "sup_apply (Ask t k) s = snd (may_restart t k s)"
| "sup_apply (Peek t k) s = snd (can_restart t k s)"
| "sup_apply (Probe k ok threshold) s = snd (record_probe k ok threshold s)"
| "sup_apply (MemWarn rss_of) s = snd (memory_breaches rss_of s)"
| "sup_apply (MemLimit t rss_of limit_ticks) s = snd (mem_limit_actions t rss_of limit_ticks s)"

text \<open>The times at which a key was granted a restart since it was last tracked.\<close>

fun grants :: "Key \<Rightarrow> Supervisor \<Rightarrow> nat list \<Rightarrow> sup_event \<Rightarrow> nat list" where
  "grants key s H (TrackOwned k _ _ _ _) = (if k = key then [] else H)"
| "grants key s H (TrackAdopted k _ _ _) = (if k = key then [] else H)"
| "grants key s H (Ask t k) = (if k = key \<and> fst (may_restart t k s) then H @ [t] else H)"
| "grants key s H _ = H"

fun granted :: "Key \<Rightarrow> Supervisor \<Rightarrow> nat list \<Rightarrow> sup_event list \<Rightarrow> nat list" where
  "granted key s H [] = H"
| "granted key s H (e # es) = granted key (sup_apply e s) (grants key s H e) es"

definition in_window :: "nat \<Rightarrow> nat \<Rightarrow> nat list \<Rightarrow> nat list" where
  "in_window w u ts = filter (\<lambda>t. t \<le> u \<and> u - t < w) ts"

lemma in_window_append: "in_window w u (a @ b) = in_window w u a @ in_window w u b"
  by (simp add: in_window_def)

lemma in_window_recent:
  assumes "t \<le> u" and "\<forall>h\<in>set H. h \<le> t"
  shows "in_window w u (recent t w H) = in_window w u H"
proof -
  have "t - h < w" if "h \<le> u" "u - h < w" for h using that assms(1) by simp
  then show ?thesis by (auto simp: in_window_def recent_def intro!: filter_cong)
qed

lemma recent_is_window: "\<forall>h\<in>set H. h \<le> t \<Longrightarrow> recent t w H = in_window w t H"
  by (auto simp: in_window_def recent_def intro!: filter_cong)

text \<open>What the child's list says of the grants \<open>H\<close> made up to \<open>now\<close>.\<close>

definition accounts :: "Supervisor \<Rightarrow> Key \<Rightarrow> nat list \<Rightarrow> nat \<Rightarrow> bool" where
  "accounts s key H now \<longleftrightarrow>
     (\<forall>h\<in>set H. h \<le> now) \<and>
     (\<forall>u. length (in_window (su_window s) u H) \<le> unat (su_max_restarts s)) \<and>
     (\<exists>c. child_of s key = Some c \<and> (\<forall>h\<in>set (ch_restarts c). h \<le> now) \<and>
        (\<forall>u\<ge>now. in_window (su_window s) u (ch_restarts c) = in_window (su_window s) u H))"

lemma accounts_prune:
  assumes "accounts s key H now" and "now \<le> t" and "child_of s key = Some c"
  shows "accounts (change_child key (\<lambda>c. c\<lparr>ch_restarts := recent t (su_window s) (ch_restarts c)\<rparr>) s) key H t"
proof -
  have r: "\<forall>h\<in>set (ch_restarts c). h \<le> t" using assms by (auto simp: accounts_def)
  have "in_window (su_window s) u (recent t (su_window s) (ch_restarts c)) = in_window (su_window s) u H" if "t \<le> u" for u
    using in_window_recent [OF that r] assms that by (simp add: accounts_def)
  then show ?thesis using assms r by (auto simp: accounts_def recent_def)
qed

lemma accounts_recent:
  assumes "accounts s key H now" and "now \<le> t" and "child_of s key = Some c"
  shows "recent t (su_window s) (ch_restarts c) = in_window (su_window s) t H"
proof -
  have "\<forall>h\<in>set (ch_restarts c). h \<le> t" using assms by (auto simp: accounts_def)
  with assms show ?thesis by (simp add: recent_is_window accounts_def)
qed

lemma accounts_grant:
  assumes "accounts s key H now" and "now \<le> t" and "child_of s key = Some c"
    and "length (recent t (su_window s) (ch_restarts c)) < unat (su_max_restarts s)"
  shows "accounts (change_child key (\<lambda>c. c\<lparr>ch_restarts := recent t (su_window s) (ch_restarts c) @ [t]\<rparr>) s) key (H @ [t]) t"
proof -
  let ?w = "su_window s"
  have r: "\<forall>h\<in>set (ch_restarts c). h \<le> t" and h: "\<forall>h\<in>set H. h \<le> t"
    using assms by (auto simp: accounts_def)
  have "length (in_window ?w u (H @ [t])) \<le> unat (su_max_restarts s)" for u
  proof (cases "t \<le> u")
    case True
    have "in_window ?w u H = in_window ?w u (recent t ?w H)"
      using in_window_recent [OF True h] by simp
    also have "\<dots> = in_window ?w u (recent t ?w (ch_restarts c))"
      using recent_is_window [OF h, of ?w] accounts_recent [OF assms(1-3)] by simp
    finally have "length (in_window ?w u H) \<le> length (recent t ?w (ch_restarts c))"
      by (simp add: in_window_def)
    then show ?thesis using assms(4) by (simp add: in_window_def)
  next
    case False
    then show ?thesis using assms(1) by (simp add: accounts_def in_window_def)
  qed
  moreover have "in_window ?w u (recent t ?w (ch_restarts c) @ [t]) = in_window ?w u (H @ [t])" if "t \<le> u" for u
    using in_window_recent [OF that r] assms that by (simp add: accounts_def in_window_append)
  ultimately show ?thesis using assms r h by (auto simp: accounts_def recent_def)
qed

lemma of_nat_less_max:
  assumes "n \<le> unat (m :: u32)"
  shows "(of_nat n :: u32) < m \<longleftrightarrow> n < unat m"
proof -
  have "unat (of_nat n :: u32) = n"
    using le_less_trans [OF assms unsigned_less [of m]] by (simp add: unat_of_nat take_bit_nat_eq_self)
  then show ?thesis by (simp add: word_less_nat_alt)
qed

text \<open>What holds of the grants of a key at any time, tracked or not.\<close>

definition budget_inv :: "Supervisor \<Rightarrow> Key \<Rightarrow> nat list \<Rightarrow> nat \<Rightarrow> bool" where
  "budget_inv s key H now \<longleftrightarrow>
     (\<forall>h\<in>set H. h \<le> now) \<and> (\<forall>u. length (in_window (su_window s) u H) \<le> unat (su_max_restarts s))
     \<and> (child_of s key \<noteq> None \<longrightarrow> accounts s key H now)"

text \<open>A step that leaves the history of a key, or only drops from it what is past the window.\<close>

definition history_kept :: "nat option \<Rightarrow> Key \<Rightarrow> Supervisor \<Rightarrow> Supervisor \<Rightarrow> bool" where
  "history_kept t key s s' \<longleftrightarrow>
     su_window s' = su_window s \<and> su_max_restarts s' = su_max_restarts s
     \<and> (case child_of s' key of
          None \<Rightarrow> True
        | Some c' \<Rightarrow>
            (\<exists>c. child_of s key = Some c
              \<and> (ch_restarts c' = ch_restarts c \<or> (\<exists>u. t = Some u \<and> ch_restarts c' = recent u (su_window s) (ch_restarts c)))))"

lemma recent_recent [simp]: "recent t w (recent t w H) = recent t w H"
  by (simp add: recent_def)

lemma history_kept_refl [simp]: "history_kept t key s s"
  by (simp add: history_kept_def split: option.split)

lemma history_kept_trans: "history_kept t key a b \<Longrightarrow> history_kept t key b c \<Longrightarrow> history_kept t key a c"
  by (auto simp: history_kept_def split: option.splits)

lemma history_kept_change:
  "(\<And>c. ch_restarts (f c) = ch_restarts c) \<Longrightarrow> history_kept t key s (change_child k f s)"
  by (auto simp: history_kept_def split: option.split)

lemma can_restart_history: "history_kept (Some t) key s (snd (can_restart t k s))"
  by (auto simp: can_restart_def history_kept_def Let_def split: option.split)

lemma mem_resolve_history: "history_kept (Some t) key s (snd (mem_resolve t cands s))"
proof (induction t cands s rule: mem_resolve.induct)
  case (2 now k rss cands s)
  obtain ok s1 where can: "can_restart now k s = (ok, s1)" by force
  then have one: "history_kept (Some now) key s s1" using can_restart_history [of now key s k] by simp
  have onward: "history_kept (Some now) key s s2" if "history_kept (Some now) key (change_child k f s1) s2" "\<And>c. ch_restarts (f c) = ch_restarts c"
    for f s2
    using history_kept_trans [OF history_kept_trans [OF one history_kept_change [of f]] that(1)] that(2) by blast
  show ?case
  proof (cases "child_of s1 k")
    case None
    then show ?thesis using 2(1) [OF can [symmetric] refl] one can by (auto intro: history_kept_trans)
  next
    case (Some c)
    then show ?thesis
      using 2(2-4) [OF can [symmetric] refl, of c] can
        onward [of "ch_mem_over_update (\<lambda>_. 0)"] onward [of "\<lambda>c. c\<lparr>ch_mem_over := 0, ch_mem_gave_up := True\<rparr>"]
      by (cases ok; cases "ch_mem_gave_up c") (simp_all add: case_prod_beta Let_def)
  qed
qed simp

lemma pass_history:
  assumes "\<And>k c. ch_restarts (fst (f k c)) = ch_restarts c"
  shows "history_kept t key s (s\<lparr>su_children := fst (pass f (su_children s))\<rparr>)"
proof -
  have "child_of (s\<lparr>su_children := fst (pass f (su_children s))\<rparr>) key = map_option (\<lambda>c. fst (f key c)) (child_of s key)"
    by (simp add: pass_eq map_of_map_keyed [where g = "\<lambda>k c. fst (f k c)"])
  then show ?thesis using assms by (auto simp: history_kept_def split: option.split)
qed

lemma history_step:
  assumes "\<And>t. e \<noteq> Ask t key" and "\<And>pid port logfile launch. e \<noteq> TrackOwned key pid port logfile launch"
    and "\<And>pid port logfile. e \<noteq> TrackAdopted key pid port logfile"
  shows "history_kept (event_time e) key s (sup_apply e s)"
proof (cases e)
  case (MemWarn rss_of)
  let ?f = "\<lambda>k c. if ch_pid c = 0 then (c, []) else let rss = rss_of (ch_pid c) in
      if rss \<ge> su_mem_warn s then (if \<not> ch_warned_mem c then (c\<lparr>ch_warned_mem := True\<rparr>, [(k, rss)]) else (c, []))
      else (c\<lparr>ch_warned_mem := False\<rparr>, [])"
  have "history_kept None key s (s\<lparr>su_children := fst (pass ?f (su_children s))\<rparr>)" by (rule pass_history) (simp add: Let_def)
  then show ?thesis by (simp add: MemWarn memory_breaches_def case_prod_beta)
next
  case (MemLimit t rss_of limit_ticks)
  let ?f = "mem_tick rss_of (su_mem_limit s) limit_ticks"
  have "history_kept (Some t) key s (s\<lparr>su_children := fst (pass ?f (su_children s))\<rparr>)"
    by (rule pass_history) (simp add: mem_tick_def Let_def)
  then show ?thesis
    using history_kept_trans [OF _ mem_resolve_history] by (simp add: MemLimit mem_limit_actions_def case_prod_beta)
next
  case (Ask t k)
  then show ?thesis using assms(1) [of t] by (auto simp: may_restart_def history_kept_def Let_def split: option.split)
next
  case (Peek t k)
  then show ?thesis using can_restart_history by simp
next
  case (Probe k ok threshold)
  then show ?thesis by (auto simp: record_probe_def Let_def intro: history_kept_change split: option.split)
next
  case (SetPid k pid)
  then show ?thesis by (auto simp: set_pid_def intro: history_kept_change)
next
  case (TrackOwned k pid port logfile launch)
  then have "k \<noteq> key" using assms(2) by blast
  then show ?thesis by (simp add: TrackOwned history_kept_def insert_owned_def update_conv' split: option.split)
next
  case (TrackAdopted k pid port logfile)
  then have "k \<noteq> key" using assms(3) by blast
  then show ?thesis by (simp add: TrackAdopted history_kept_def insert_adopted_def update_conv' split: option.split)
qed (auto simp: history_kept_def sup_remove_def delete_conv' split: option.split)

lemma budget_history:
  assumes "budget_inv s key H now" and "history_kept t key s s'" and "now \<le> (case t of Some u \<Rightarrow> u | None \<Rightarrow> now)"
  shows "budget_inv s' key H (case t of Some u \<Rightarrow> u | None \<Rightarrow> now)"
proof -
  let ?u = "case t of Some u \<Rightarrow> u | None \<Rightarrow> now"
  have fields: "su_window s' = su_window s" "su_max_restarts s' = su_max_restarts s" using assms(2) by (simp_all add: history_kept_def)
  have "accounts s' key H ?u" if c': "child_of s' key = Some c'" for c'
  proof -
    obtain c where c: "child_of s key = Some c"
      and r: "ch_restarts c' = ch_restarts c \<or> (\<exists>u. t = Some u \<and> ch_restarts c' = recent u (su_window s) (ch_restarts c))"
      using assms(2) c' by (auto simp: history_kept_def)
    then have acc: "accounts s key H now" using assms(1) by (simp add: budget_inv_def)
    have past: "\<forall>h\<in>set (ch_restarts c). h \<le> ?u" using acc c assms(3) by (fastforce simp: accounts_def)
    have "in_window (su_window s) u (ch_restarts c') = in_window (su_window s) u H" if "?u \<le> u" for u
      using r in_window_recent [OF that past] acc c assms(3) that by (auto simp: accounts_def)
    moreover have "\<forall>h\<in>set (ch_restarts c'). h \<le> ?u" using r past by (auto simp: recent_def)
    moreover have "\<forall>h\<in>set H. h \<le> ?u" using acc assms(3) by (fastforce simp: accounts_def)
    ultimately show ?thesis using acc c' by (simp add: accounts_def fields)
  qed
  moreover have "\<forall>h\<in>set H. h \<le> ?u" using assms(1,3) by (fastforce simp: budget_inv_def)
  ultimately show ?thesis using assms(1) by (auto simp: budget_inv_def fields)
qed

lemma budget_ask:
  assumes "budget_inv s key H now" and "now \<le> t"
  shows "budget_inv (snd (may_restart t key s)) key (if fst (may_restart t key s) then H @ [t] else H) t"
proof (cases "child_of s key")
  case None
  then show ?thesis using assms by (fastforce simp: may_restart_def budget_inv_def)
next
  case (Some c)
  let ?ts = "recent t (su_window s) (ch_restarts c)"
  have acc: "accounts s key H now" using assms(1) Some by (simp add: budget_inv_def)
  have "length ?ts \<le> unat (su_max_restarts s)"
    using accounts_recent [OF acc assms(2) Some] acc by (simp add: accounts_def)
  note cmp = of_nat_less_max [OF this]
  have inv: "budget_inv s' key H' t" if "accounts s' key H' t" for s' H' using that by (auto simp: budget_inv_def accounts_def)
  show ?thesis
  proof (cases "length ?ts < unat (su_max_restarts s)")
    case True
    have "accounts (change_child key (\<lambda>c'. c'\<lparr>ch_restarts := ?ts @ [t]\<rparr>) s) key (H @ [t]) t"
      using accounts_grant [OF acc assms(2) Some True] Some by (auto simp: accounts_def)
    then show ?thesis using inv Some True cmp by (simp add: may_restart_def Let_def)
  next
    case False
    have "accounts (change_child key (\<lambda>c'. c'\<lparr>ch_restarts := ?ts\<rparr>) s) key H t"
      using accounts_prune [OF acc assms(2) Some] Some by (auto simp: accounts_def)
    then show ?thesis using inv Some False cmp by (simp add: may_restart_def Let_def)
  qed
qed

lemma budget_tracked: "child_of s' key = Some c \<Longrightarrow> ch_restarts c = [] \<Longrightarrow> budget_inv s' key [] now"
  by (simp add: budget_inv_def accounts_def in_window_def)

lemma budget_step:
  assumes "budget_inv s key H now" and "now \<le> (case event_time e of Some t \<Rightarrow> t | None \<Rightarrow> now)"
  shows "budget_inv (sup_apply e s) key (grants key s H e) (case event_time e of Some t \<Rightarrow> t | None \<Rightarrow> now)"
proof -
  consider (ask) t where "e = Ask t key" | (owned) pid port logfile launch where "e = TrackOwned key pid port logfile launch"
    | (adopted) pid port logfile where "e = TrackAdopted key pid port logfile"
    | (other) "\<And>t. e \<noteq> Ask t key" "\<And>pid port logfile launch. e \<noteq> TrackOwned key pid port logfile launch"
        "\<And>pid port logfile. e \<noteq> TrackAdopted key pid port logfile"
    by blast
  then show ?thesis
  proof cases
    case ask
    then show ?thesis using budget_ask [OF assms(1), of t] assms(2) by simp
  next
    case owned
    then show ?thesis by (auto simp: insert_owned_def update_conv' intro: budget_tracked)
  next
    case adopted
    then show ?thesis by (auto simp: insert_adopted_def update_conv' intro: budget_tracked)
  next
    case other
    then have "grants key s H e = H" by (cases e) auto
    then show ?thesis using budget_history [OF assms(1) history_step [OF other] assms(2)] by simp
  qed
qed

lemma sup_apply_fields: "su_window (sup_apply e s) = su_window s \<and> su_max_restarts (sup_apply e s) = su_max_restarts s"
proof (cases "\<exists>k. (\<exists>t. e = Ask t k) \<or> (\<exists>pid port logfile launch. e = TrackOwned k pid port logfile launch)
    \<or> (\<exists>pid port logfile. e = TrackAdopted k pid port logfile)")
  case True
  then show ?thesis
    by (auto simp: may_restart_def insert_owned_def insert_adopted_def Let_def split: option.split)
next
  case False
  then have "history_kept (event_time e) key s (sup_apply e s)" for key by (intro history_step) blast+
  then show ?thesis by (simp add: history_kept_def)
qed

lemma granted_bounded:
  assumes "budget_inv s key H now" and "sorted (List.map_filter event_time es)" and "\<forall>t\<in>set (List.map_filter event_time es). now \<le> t"
  shows "length (in_window (su_window s) u (granted key s H es)) \<le> unat (su_max_restarts s)"
  using assms
proof (induction es arbitrary: s H now)
  case Nil
  then show ?case by (simp add: budget_inv_def)
next
  case (Cons e es)
  let ?now = "case event_time e of Some t \<Rightarrow> t | None \<Rightarrow> now"
  have step: "budget_inv (sup_apply e s) key (grants key s H e) ?now"
    by (rule budget_step [OF Cons.prems(1)]) (use Cons.prems(3) in \<open>auto simp: List.map_filter_simps split: option.splits\<close>)
  have "su_window (sup_apply e s) = su_window s" "su_max_restarts (sup_apply e s) = su_max_restarts s"
    using sup_apply_fields by simp_all
  then show ?case
    using Cons.IH [OF step] Cons.prems(2,3) by (auto simp: List.map_filter_simps split: option.splits)
qed

text \<open>
  C3: the crash-loop budget. Whatever is done to the table, at times that do not go back, a key is granted at most
  \<open>max_restarts\<close> restarts in any window of the configured length since it was last tracked: neither a respawn, nor a probe, nor a
  memory action, nor what happens to other keys gives it more.
\<close>

theorem crash_loop_budget:
  assumes "sorted (List.map_filter event_time es)"
  shows "length (filter (\<lambda>t. t \<le> u \<and> u - t < window) (granted key (sup_new max_restarts window mem_warn mem_limit) [] es))
    \<le> unat max_restarts"
proof -
  let ?s = "sup_new max_restarts window mem_warn mem_limit"
  have "budget_inv ?s key [] 0" by (simp add: budget_inv_def in_window_def sup_new_def)
  from granted_bounded [OF this assms, of u] show ?thesis by (simp add: in_window_def sup_new_def)
qed

definition demo_key :: Key where
  "demo_key = \<lparr>ky_holder = ''/w'', ky_app = ''api'', ky_role = Workspace\<rparr>"

definition demo_launch :: Launch where
  "demo_launch = \<lparr>la_argv = [''api''], la_cwd = ''/w'', la_env = []\<rparr>"

definition demo_sup :: Supervisor where
  "demo_sup = insert_owned demo_key 7 9100 ''log'' demo_launch (sup_new 1 60 0 0)"

definition demo_life :: "sup_event list" where
  "demo_life = [TrackOwned demo_key 7 9100 ''log'' demo_launch, Ask 5 demo_key, SetPid demo_key 8, Ask 7 demo_key, Ask 70 demo_key]"

text \<open>One restart each minute: the one asked for two seconds after a respawn is refused.\<close>

theorem crash_loop_budget_witness:
  "length (filter (\<lambda>t. t \<le> 9 \<and> 9 - t < 60) (granted demo_key (sup_new 1 60 0 0) [] demo_life)) \<le> 1
   \<and> granted demo_key (sup_new 1 60 0 0) [] demo_life = [5, 70]"
proof -
  have "sorted (List.map_filter event_time demo_life)" by (simp add: demo_life_def List.map_filter_simps)
  from crash_loop_budget [OF this, of 9 60 demo_key 1 0 0] show ?thesis
    by (simp add: demo_life_def sup_new_def insert_owned_def may_restart_def recent_def set_pid_def change_child_def Let_def)
qed

section \<open>Health probes\<close>

fun probe_run :: "Key \<Rightarrow> u32 \<Rightarrow> Supervisor \<Rightarrow> bool list \<Rightarrow> u32 option list" where
  "probe_run key th s [] = []"
| "probe_run key th s (ok # oks) = (let (r, s') = record_probe key ok th s in r # probe_run key th s' oks)"

definition trailing_failures :: "bool list \<Rightarrow> nat" where
  "trailing_failures h = length (takeWhile Not (rev h))"

lemma trailing_snoc [simp]:
  "trailing_failures (h @ [True]) = 0" "trailing_failures (h @ [False]) = Suc (trailing_failures h)"
  by (simp_all add: trailing_failures_def)

lemma probe_run_history:
  assumes "child_of s key = Some c" and "ch_armed c \<Longrightarrow> True \<in> set h"
    and "unat (ch_probe_failures c) \<le> trailing_failures h"
    and "i < length oks" and "probe_run key th s oks ! i = Some pid"
  shows "pid = ch_pid c \<and> True \<in> set (h @ take (Suc i) oks)
    \<and> unat th \<le> trailing_failures (h @ take (Suc i) oks)"
  using assms
proof (induction oks arbitrary: s c h i)
  case (Cons ok oks)
  obtain r s' where step: "record_probe key ok th s = (r, s')" by force
  have inc: "unat (ch_probe_failures c + 1) \<le> Suc (unat (ch_probe_failures c))"
    by (simp add: unat_word_ariths)
  show ?case
  proof (cases i)
    case 0
    then have "r = Some pid" using Cons.prems(5) step by simp
    then have f: "\<not> ok" "ch_armed c" "th \<le> ch_probe_failures c + 1" "pid = ch_pid c"
      using step Cons.prems(1) by (auto simp: record_probe_def Let_def split: if_splits)
    have "unat th \<le> Suc (trailing_failures h)"
      using f(3) inc Cons.prems(3) by (simp add: word_le_nat_alt)
    then show ?thesis using 0 f Cons.prems(2) by simp
  next
    case (Suc j)
    have j: "j < length oks" "probe_run key th s' oks ! j = Some pid"
      using Cons.prems(4,5) Suc step by simp_all
    obtain c' where c': "child_of s' key = Some c'" "ch_pid c' = ch_pid c"
      "ch_armed c' \<Longrightarrow> True \<in> set (h @ [ok])"
      "unat (ch_probe_failures c') \<le> trailing_failures (h @ [ok])"
    proof (cases ok)
      case True
      then show ?thesis
        using step Cons.prems(1) by (intro that [of "c\<lparr>ch_armed := True, ch_probe_failures := 0\<rparr>"])
          (auto simp: record_probe_def)
    next
      case False
      consider "\<not> ch_armed c" | "ch_armed c" "th \<le> ch_probe_failures c + 1" | "ch_armed c" "\<not> th \<le> ch_probe_failures c + 1"
        by blast
      then show ?thesis
      proof cases
        case 1
        then show ?thesis using False step Cons.prems(1-3) by (intro that [of c]) (auto simp: record_probe_def)
      next
        case 2
        then show ?thesis using False step Cons.prems(1,2)
          by (intro that [of "c\<lparr>ch_probe_failures := 0\<rparr>"]) (auto simp: record_probe_def Let_def)
      next
        case 3
        then show ?thesis using False step Cons.prems(1-3) inc
          by (intro that [of "c\<lparr>ch_probe_failures := ch_probe_failures c + 1\<rparr>"]) (auto simp: record_probe_def Let_def)
      qed
    qed
    from Cons.IH [OF c'(1) c'(3,4) j] Suc c'(2) show ?thesis by simp
  qed
qed simp

lemma probe_run_fails:
  assumes "child_of s key = Some c" and "ch_armed c" and "unat (ch_probe_failures c) + n = unat th" and "0 < n"
  shows "probe_run key th s (replicate n False) = replicate (n - 1) None @ [Some (ch_pid c)]"
  using assms
proof (induction n arbitrary: s c)
  case (Suc n)
  have "unat (ch_probe_failures c) + 1 < 2 ^ 32"
  proof -
    have "unat th < 2 ^ 32" using unsigned_less [of th] by simp
    then show ?thesis using Suc.prems(3) by linarith
  qed
  then have inc: "unat (ch_probe_failures c + 1) = Suc (unat (ch_probe_failures c))"
    by (simp add: unat_word_ariths)
  show ?case
  proof (cases "n = 0")
    case True
    then have "th \<le> ch_probe_failures c + 1" using Suc.prems(3) inc by (simp add: word_le_nat_alt)
    with True Suc.prems(1,2) show ?thesis by (simp add: record_probe_def Let_def)
  next
    case False
    let ?s = "change_child key (\<lambda>c. c\<lparr>ch_probe_failures := ch_probe_failures c + 1\<rparr>) s"
    have "\<not> th \<le> ch_probe_failures c + 1" using Suc.prems(3) inc False by (simp add: word_le_nat_alt)
    then have step: "record_probe key False th s = (None, change_child key (\<lambda>c'. c'\<lparr>ch_probe_failures := ch_probe_failures c + 1\<rparr>) s)"
      using Suc.prems(1,2) by (simp add: record_probe_def Let_def)
    have "probe_run key th (change_child key (\<lambda>c'. c'\<lparr>ch_probe_failures := ch_probe_failures c + 1\<rparr>) s) (replicate n False)
        = replicate (n - 1) None @ [Some (ch_pid (c\<lparr>ch_probe_failures := ch_probe_failures c + 1\<rparr>))]"
      using Suc.prems False inc by (intro Suc.IH) simp_all
    with step False show ?thesis by (cases n) simp_all
  qed
qed simp

lemma probe_run_append:
  "\<exists>s'. (\<forall>c. child_of s key = Some c \<longrightarrow> (\<exists>c'. child_of s' key = Some c' \<and> ch_pid c' = ch_pid c)) \<and>
     (\<forall>bs. probe_run key th s (as @ bs) = probe_run key th s as @ probe_run key th s' bs)"
proof (induction as arbitrary: s)
  case Nil
  show ?case by (intro exI [of _ s]) simp
next
  case (Cons ok oks)
  obtain r s1 where step: "record_probe key ok th s = (r, s1)" by force
  obtain s' where s': "\<forall>c. child_of s1 key = Some c \<longrightarrow> (\<exists>c'. child_of s' key = Some c' \<and> ch_pid c' = ch_pid c)"
    "\<forall>bs. probe_run key th s1 (oks @ bs) = probe_run key th s1 oks @ probe_run key th s' bs"
    using Cons.IH [of s1] by blast
  have "\<exists>c1. child_of s1 key = Some c1 \<and> ch_pid c1 = ch_pid c" if "child_of s key = Some c" for c
    using step that by (auto simp: record_probe_def Let_def split: if_splits)
  with s' step show ?case by (intro exI [of _ s']) fastforce
qed

text \<open>
  The health probe. A signal goes to the child's own pid, only once it has answered a probe, and
  only after at least \<open>threshold\<close> failures in a row; and after a success, \<open>threshold\<close> failures in a
  row do signal it, at the last one and not before.
\<close>

theorem probe_signals_hung:
  assumes "child_of s key = Some c" and "\<not> ch_armed c" and "ch_probe_failures c = 0" and "0 < th"
  shows "(\<forall>i<length oks. \<forall>pid. probe_run key th s oks ! i = Some pid \<longrightarrow>
      pid = ch_pid c \<and> True \<in> set (take (Suc i) oks) \<and> unat th \<le> trailing_failures (take (Suc i) oks))
    \<and> drop (Suc (length oks)) (probe_run key th s (oks @ True # replicate (unat th) False)) =
        replicate (unat th - 1) None @ [Some (ch_pid c)]"
proof
  show "\<forall>i<length oks. \<forall>pid. probe_run key th s oks ! i = Some pid \<longrightarrow>
      pid = ch_pid c \<and> True \<in> set (take (Suc i) oks) \<and> unat th \<le> trailing_failures (take (Suc i) oks)"
    using probe_run_history [OF assms(1), of "[]"] assms(2,3) by simp
  obtain s' c' where s': "child_of s' key = Some c'" "ch_pid c' = ch_pid c"
    "\<And>bs. probe_run key th s (oks @ bs) = probe_run key th s oks @ probe_run key th s' bs"
    using probe_run_append [of s key th oks] assms(1) by blast
  have len: "length (probe_run key th s oks) = length oks" for s oks
    by (induction oks arbitrary: s) (simp_all add: case_prod_beta Let_def)
  have "0 < unat th" using assms(4) by (simp add: word_less_nat_alt)
  then have "probe_run key th (change_child key (\<lambda>c. c\<lparr>ch_armed := True, ch_probe_failures := 0\<rparr>) s') (replicate (unat th) False)
      = replicate (unat th - 1) None @ [Some (ch_pid (c'\<lparr>ch_armed := True, ch_probe_failures := 0\<rparr>))]"
    using s'(1) by (intro probe_run_fails) simp_all
  then show "drop (Suc (length oks)) (probe_run key th s (oks @ True # replicate (unat th) False)) =
        replicate (unat th - 1) None @ [Some (ch_pid c)]"
    using s' by (simp add: len record_probe_def)
qed

theorem probe_signals_hung_witness:
  "\<exists>c. child_of demo_sup demo_key = Some c
     \<and> drop 1 (probe_run demo_key 3 demo_sup ([] @ True # replicate (unat (3 :: u32)) False)) =
         replicate (unat (3 :: u32) - 1) None @ [Some (ch_pid c)]"
proof -
  obtain c where c: "child_of demo_sup demo_key = Some c" "\<not> ch_armed c" "ch_probe_failures c = 0"
    by (simp add: demo_sup_def insert_owned_def sup_new_def)
  have "drop (Suc (length ([] :: bool list))) (probe_run demo_key 3 demo_sup ([] @ True # replicate (unat (3 :: u32)) False)) =
      replicate (unat (3 :: u32) - 1) None @ [Some (ch_pid c)]"
    by (rule probe_signals_hung [OF c, THEN conjunct2]) simp
  with c(1) show ?thesis by (intro exI [of _ c]) simp
qed

section \<open>Memory limits\<close>

fun action_key :: "MemAction \<Rightarrow> Key" where
  "action_key (Restart k _ _) = k"
| "action_key (GiveUp k _) = k"

definition budget_left :: "nat \<Rightarrow> Supervisor \<Rightarrow> Child \<Rightarrow> bool" where
  "budget_left now s c \<longleftrightarrow> (of_nat (length (recent now (su_window s) (ch_restarts c))) :: u32) < su_max_restarts s"

text \<open>An action and the child it was decided for.\<close>

definition justified :: "nat \<Rightarrow> Supervisor \<Rightarrow> (Key \<times> u64) list \<Rightarrow> MemAction \<Rightarrow> bool" where
  "justified now s cands a \<longleftrightarrow>
     (case a of
        Restart k pid rss \<Rightarrow> (k, rss) \<in> set cands \<and> (\<exists>c. child_of s k = Some c \<and> pid = ch_pid c \<and> budget_left now s c)
      | GiveUp k rss \<Rightarrow> (k, rss) \<in> set cands \<and> (\<exists>c. child_of s k = Some c \<and> \<not> ch_mem_gave_up c \<and> \<not> budget_left now s c))"

lemma fst_mem: "(k, v) \<in> A \<Longrightarrow> k \<in> fst ` A"
  by force

lemma justified_later:
  assumes "justified now sm cands a" and "\<And>k. k \<noteq> key \<Longrightarrow> child_of sm k = child_of s k"
    and "key \<notin> fst ` set cands" and "su_window sm = su_window s" "su_max_restarts sm = su_max_restarts s"
  shows "justified now s ((key, rss) # cands) a"
proof -
  have "child_of sm k = child_of s k" if "(k, r) \<in> set cands" for k r
    using that assms(2,3) by force
  with assms(1,4,5) show ?thesis
    by (auto simp: justified_def budget_left_def split: MemAction.splits)
qed

lemma mem_resolve_justified:
  assumes "distinct (map fst cands)" and "mem_resolve now cands s = (acts, s')"
  shows "(\<forall>a\<in>set acts. justified now s cands a) \<and> distinct (map action_key acts)"
  using assms
proof (induction cands arbitrary: s acts s')
  case (Cons kr cands)
  obtain key rss where kr: "kr = (key, rss)" by force
  have fresh: "key \<notin> fst ` set cands" "distinct (map fst cands)" using Cons.prems(1) kr by auto
  have tail: "(\<forall>a\<in>set acts2. justified now s (kr # cands) a) \<and> distinct (map action_key acts2) \<and> key \<notin> action_key ` set acts2"
    if run: "mem_resolve now cands (change_child key f sm) = (acts2, s2)"
      and sm: "sm = s \<or> (\<exists>g. sm = change_child key g s)" for f sm acts2 s2
  proof -
    have IH: "\<forall>a\<in>set acts2. justified now (change_child key f sm) cands a" "distinct (map action_key acts2)"
      using Cons.IH [OF fresh(2) run] by simp_all
    have "justified now s (kr # cands) a" if "a \<in> set acts2" for a
      unfolding kr
      by (rule justified_later [OF bspec [OF IH(1) that] _ fresh(1)]) (use sm in auto)
    moreover have "action_key a \<noteq> key" if "a \<in> set acts2" for a
      using bspec [OF IH(1) that] fresh(1) by (cases a) (auto simp: justified_def dest: fst_mem)
    ultimately show ?thesis using IH(2) by blast
  qed
  show ?case
  proof (cases "child_of s key")
    case None
    then have run: "mem_resolve now cands s = (acts, s')"
      using Cons.prems(2) kr by (simp add: can_restart_def)
    have "justified now s (kr # cands) a" if "a \<in> set acts" for a
      unfolding kr
      by (rule justified_later [OF bspec [OF conjunct1 [OF Cons.IH [OF fresh(2) run]] that] _ fresh(1)]) simp_all
    then show ?thesis using Cons.IH [OF fresh(2) run] by blast
  next
    case (Some c)
    let ?s1 = "change_child key (\<lambda>c'. c'\<lparr>ch_restarts := recent now (su_window s) (ch_restarts c)\<rparr>) s"
    have can: "can_restart now key s = (budget_left now s c, ?s1)"
      using Some by (simp add: can_restart_def budget_left_def Let_def)
    note tl = tail [where sm = ?s1]
    consider "budget_left now s c" | "\<not> budget_left now s c" "\<not> ch_mem_gave_up c" | "\<not> budget_left now s c" "ch_mem_gave_up c"
      by blast
    then show ?thesis
    proof cases
      case 1
      obtain acts2 s2 where r: "mem_resolve now cands (change_child key (\<lambda>c. c\<lparr>ch_mem_over := 0\<rparr>) ?s1) = (acts2, s2)" by force
      have "acts = Restart key (ch_pid c) rss # acts2" using Cons.prems(2) kr can Some 1 r by simp
      then show ?thesis using tl [OF r] 1 Some kr by (auto simp: justified_def)
    next
      case 2
      obtain acts2 s2 where r: "mem_resolve now cands (change_child key (\<lambda>c. c\<lparr>ch_mem_over := 0, ch_mem_gave_up := True\<rparr>) ?s1) = (acts2, s2)" by force
      have "acts = GiveUp key rss # acts2" using Cons.prems(2) kr can Some 2 r by simp
      then show ?thesis using tl [OF r] 2 Some kr by (auto simp: justified_def)
    next
      case 3
      then have "mem_resolve now cands (change_child key (\<lambda>c. c\<lparr>ch_mem_over := 0\<rparr>) ?s1) = (acts, s')"
        using Cons.prems(2) kr can Some by simp
      from tl [OF this] show ?thesis by blast
    qed
  qed
qed simp

lemma mem_tick_snd: "snd (mem_tick rss_of limit lt k c) = [] \<or> snd (mem_tick rss_of limit lt k c) = [(k, rss_of (ch_pid c))]"
  by (simp add: mem_tick_def Let_def)

lemma pass_cands_distinct:
  assumes "distinct (map fst cs)"
  shows "distinct (map fst (concat (map (\<lambda>(k, c). snd (mem_tick rss_of limit lt k c)) cs)))
    \<and> fst ` set (concat (map (\<lambda>(k, c). snd (mem_tick rss_of limit lt k c)) cs)) \<subseteq> fst ` set cs"
  using assms
proof (induction cs)
  case (Cons kc cs)
  obtain k c where kc: "kc = (k, c)" by force
  define L where "L = concat (map (\<lambda>(k, c). snd (mem_tick rss_of limit lt k c)) cs)"
  have "distinct (map fst L)" "fst ` set L \<subseteq> fst ` set cs" "k \<notin> fst ` set cs"
    using Cons by (simp_all add: L_def kc)
  moreover have "concat (map (\<lambda>(k, c). snd (mem_tick rss_of limit lt k c)) (kc # cs)) =
      snd (mem_tick rss_of limit lt k c) @ L"
    by (simp add: L_def kc)
  ultimately show ?case
    using mem_tick_snd [of rss_of limit lt k c] by (elim disjE) (auto simp: kc)
qed simp

text \<open>
  The memory limit. In one tick a child gets at most one action. A restart goes only to a child the
  daemon can respawn, by its own pid, whose tree is at or over the limit and has been for
  \<open>limit_ticks\<close> ticks counting this one, while its crash-loop budget lasts; the warning that gives up comes
  only when the budget is spent, and once per episode. With no limit set nothing happens.
\<close>

theorem mem_actions_justified:
  assumes "distinct (map fst (su_children s))" and "mem_limit_actions now rss_of limit_ticks s = (acts, s')"
  shows "distinct (map action_key acts) \<and> (su_mem_limit s = 0 \<longrightarrow> acts = [])
    \<and> (\<forall>a\<in>set acts. \<exists>c. child_of s (action_key a) = Some c \<and> ch_launch c \<noteq> None \<and> ch_pid c \<noteq> 0
         \<and> su_mem_limit s \<le> rss_of (ch_pid c) \<and> limit_ticks \<le> sat_add1 (ch_mem_over c)
         \<and> (case a of Restart _ pid rss \<Rightarrow> pid = ch_pid c \<and> rss = rss_of pid \<and> budget_left now s c
            | GiveUp _ rss \<Rightarrow> rss = rss_of (ch_pid c) \<and> \<not> ch_mem_gave_up c \<and> \<not> budget_left now s c))"
proof (cases "su_mem_limit s = 0")
  case True
  then show ?thesis using assms(2) by (simp add: mem_limit_actions_def)
next
  case False
  let ?t = "mem_tick rss_of (su_mem_limit s) limit_ticks"
  let ?s = "s\<lparr>su_children := map (\<lambda>(k, c). (k, fst (?t k c))) (su_children s)\<rparr>"
  let ?cands = "concat (map (\<lambda>(k, c). snd (?t k c)) (su_children s))"
  have run: "mem_resolve now ?cands ?s = (acts, s')"
    using assms(2) False by (simp add: mem_limit_actions_def pass_eq)
  note J = mem_resolve_justified [OF conjunct1 [OF pass_cands_distinct [OF assms(1)]] run]
  have ticked: "child_of ?s k = map_option (\<lambda>c. fst (?t k c)) (child_of s k)" for k
    by (simp add: map_of_map_keyed [where g = "\<lambda>k c. fst (mem_tick rss_of (su_mem_limit s) limit_ticks k c)"])
  have fields: "ch_pid (fst (?t k c)) = ch_pid c" "ch_restarts (fst (?t k c)) = ch_restarts c" for k c
    by (simp_all add: mem_tick_def Let_def)
  have cand: "\<exists>c. child_of s k = Some c \<and> ch_launch c \<noteq> None \<and> ch_pid c \<noteq> 0 \<and> rss = rss_of (ch_pid c)
        \<and> su_mem_limit s \<le> rss \<and> limit_ticks \<le> sat_add1 (ch_mem_over c) \<and> ch_mem_gave_up (fst (?t k c)) = ch_mem_gave_up c"
    if mem: "(k, rss) \<in> set ?cands" for k rss
  proof -
    obtain k' c where "(k', c) \<in> set (su_children s)" "(k, rss) \<in> set (snd (?t k' c))"
    proof -
      have "\<exists>x\<in>set (su_children s). (k, rss) \<in> set (case x of (k, c) \<Rightarrow> snd (?t k c))"
        using mem by simp
      then obtain x where "x \<in> set (su_children s)" "(k, rss) \<in> set (case x of (k, c) \<Rightarrow> snd (?t k c))" by blast
      then show ?thesis by (cases x) (auto intro: that)
    qed
    moreover from this(2) have "k' = k"
      using mem_tick_snd [of rss_of "su_mem_limit s" limit_ticks k' c] by auto
    ultimately have "(k, c) \<in> set (su_children s)" "(k, rss) \<in> set (snd (?t k c))" by simp_all
    then show ?thesis using assms(1)
      by (intro exI [of _ c]) (auto simp: mem_tick_def Let_def split: if_splits)
  qed
  have "\<exists>c. child_of s (action_key a) = Some c \<and> ch_launch c \<noteq> None \<and> ch_pid c \<noteq> 0
         \<and> su_mem_limit s \<le> rss_of (ch_pid c) \<and> limit_ticks \<le> sat_add1 (ch_mem_over c)
         \<and> (case a of Restart _ pid rss \<Rightarrow> pid = ch_pid c \<and> rss = rss_of pid \<and> budget_left now s c
            | GiveUp _ rss \<Rightarrow> rss = rss_of (ch_pid c) \<and> \<not> ch_mem_gave_up c \<and> \<not> budget_left now s c)"
    if just: "justified now ?s ?cands a" for a
  proof (cases a)
    case (Restart k pid rss)
    have mem: "(k, rss) \<in> set ?cands"
      and child: "\<exists>c. child_of ?s k = Some c \<and> pid = ch_pid c \<and> budget_left now ?s c"
      using just unfolding justified_def Restart MemAction.case by (rule conjunct1, elim conjunct2)
    obtain c where c: "child_of s k = Some c" "ch_launch c \<noteq> None" "ch_pid c \<noteq> 0" "rss = rss_of (ch_pid c)"
      "su_mem_limit s \<le> rss" "limit_ticks \<le> sat_add1 (ch_mem_over c)"
      using cand [OF mem] by blast
    have "pid = ch_pid c \<and> budget_left now s c"
      using child c(1) unfolding ticked by (simp add: fields budget_left_def)
    with c show ?thesis by (simp add: Restart)
  next
    case (GiveUp k rss)
    have mem: "(k, rss) \<in> set ?cands"
      and child: "\<exists>c. child_of ?s k = Some c \<and> \<not> ch_mem_gave_up c \<and> \<not> budget_left now ?s c"
      using just unfolding justified_def GiveUp MemAction.case by (rule conjunct1, elim conjunct2)
    obtain c where c: "child_of s k = Some c" "ch_launch c \<noteq> None" "ch_pid c \<noteq> 0" "rss = rss_of (ch_pid c)"
      "su_mem_limit s \<le> rss" "limit_ticks \<le> sat_add1 (ch_mem_over c)" "ch_mem_gave_up (fst (?t k c)) = ch_mem_gave_up c"
      using cand [OF mem] by blast
    have "\<not> ch_mem_gave_up c \<and> \<not> budget_left now s c"
      using child c(1,7) unfolding ticked by (simp add: fields budget_left_def)
    with c show ?thesis by (simp add: GiveUp)
  qed
  then show ?thesis using J False by blast
qed

theorem mem_actions_justified_witness:
  "distinct (map action_key (fst (mem_limit_actions 9 (\<lambda>_. 200) 1 (demo_sup\<lparr>su_mem_limit := 100\<rparr>))))
    \<and> fst (mem_limit_actions 9 (\<lambda>_. 200) 1 (demo_sup\<lparr>su_mem_limit := 100\<rparr>)) = [Restart demo_key 7 200]"
proof -
  have "distinct (map fst (su_children (demo_sup\<lparr>su_mem_limit := 100\<rparr>)))"
    by (simp add: demo_sup_def insert_owned_def sup_new_def)
  from mem_actions_justified [OF this surjective_pairing]
  have "distinct (map action_key (fst (mem_limit_actions 9 (\<lambda>_. 200) 1 (demo_sup\<lparr>su_mem_limit := 100\<rparr>))))"
    by blast
  then show ?thesis
    by (simp add: mem_limit_actions_def demo_sup_def insert_owned_def sup_new_def mem_tick_def sat_add1_def
        can_restart_def recent_def change_child_def Let_def)
qed

end
