(* ===== verification/Devkitd.thy ===== *)
theory Devkitd
  imports Supervisor
begin

text \<open>
  The daemon's request handlers over the port registry (\<open>src/bin/devkitd/server.rs\<close>) and its
  lifecycle around the supervision table (\<open>src/bin/devkitd/main.rs\<close>): adopting, restarting,
  stopping, going idle.

  The daemon's state is its registry store, its supervision table, its open connections and its
  shutdown flag. A handler is one step; what it does to processes is the list of its effects. What
  the machine answers during the step is the argument \<open>dv\<close>: liveness (and what it has become by the commit of an allocation), which system calls succeed,
  the clock, the pid a spawn gives, whether the server came up, and what a log's tail holds. The
  respawn of a crashed server is also given as its two halves, since it spawns without the table's lock.
\<close>

section \<open>State\<close>

record daemon =
  dm_store :: "PortData mem_store"
  dm_sup :: Supervisor
  dm_conns :: nat
  dm_last_activity :: nat
  dm_idle_timeout :: nat
  dm_shutdown :: bool

record machine =
  dv_os :: os
  dv_commit_os :: os
  dv_io :: io
  dv_now :: nat
  dv_spawn :: "u32 option"
  dv_ready :: bool
  dv_tail :: "string \<Rightarrow> nat \<Rightarrow> string"
  dv_pid :: u32

datatype effect = Spawned Key u32 | Stopped u32

record Supervised =
  sv_port :: u16
  sv_pid :: u32
  sv_ready :: bool
  sv_spawned :: bool

datatype daemon_error =
    StoreError "port_fault store_error"
  | NoPortReturned
  | SpawnFailed
  | NoTrackedLog string

datatype port_request =
    PingPort u32
  | Alloc string "(string \<times> u16) list" Role
  | RecordPid u16 string string Role u32 string
  | ReleaseHolder string "Role option"
  | ReleasePorts "u16 list"
  | Snapshot
  | PrunePorts
  | Supervise string string Role "string list" string "(string, string) btree" string u16
  | Down string "Role option"
  | DownPorts "u16 list"
  | Tail string string "Role option" nat
  | Shutdown

datatype port_response =
    PongPort u32 u32
  | Ports "(string \<times> u16) list"
  | SnapshotOf PortData
  | FreedPorts "u16 list"
  | SupervisedAs Supervised
  | Lines string
  | OkPort
  | ErrPort daemon_error

definition port_proto :: u32 where
  "port_proto = 5"

section \<open>The registry behind the daemon\<close>

abbreviation port_store_commit :: "machine \<Rightarrow> (PortData \<Rightarrow> port_fault + 'a \<times> PortData) \<Rightarrow> PortData mem_store \<Rightarrow>
    (port_fault store_error + 'a) \<times> PortData mem_store" where
  "port_store_commit dv \<equiv> mem_commit port_document (dv_io dv)"

definition key_of :: "Entry \<Rightarrow> Key" where
  "key_of e = \<lparr>ky_holder = pe_holder e, ky_app = pe_app e, ky_role = pe_role e\<rparr>"

definition respond :: "('a \<Rightarrow> port_response) \<Rightarrow> daemon \<Rightarrow> (port_fault store_error + 'a) \<times> PortData mem_store \<Rightarrow>
    port_response \<times> daemon" where
  "respond ok dm r =
     (case r of (Inl e, st) \<Rightarrow> (ErrPort (StoreError e), dm\<lparr>dm_store := st\<rparr>)
      | (Inr a, st) \<Rightarrow> (ok a, dm\<lparr>dm_store := st\<rparr>))"

section \<open>Supervise\<close>

definition supervise_app :: "machine \<Rightarrow> string \<Rightarrow> string \<Rightarrow> Role \<Rightarrow> string list \<Rightarrow> string \<Rightarrow> (string, string) btree \<Rightarrow>
    string \<Rightarrow> u16 \<Rightarrow> daemon \<Rightarrow> port_response \<times> daemon \<times> effect list" where
  "supervise_app dv holder app role argv cwd env logfile base_port dm =
     (case alloc_with (dv_os dv) (dv_commit_os dv) mem_read (port_store_commit dv) holder [(app, base_port)] role (dm_store dm) of
        (Inl e, st) \<Rightarrow> (ErrPort (StoreError e), dm\<lparr>dm_store := st\<rparr>, [])
      | (Inr ports, st) \<Rightarrow>
          (case find (\<lambda>(a, _). a = app) ports of
             None \<Rightarrow> (ErrPort NoPortReturned, dm\<lparr>dm_store := st\<rparr>, [])
           | Some (_, port) \<Rightarrow>
               (case (case bt_get (pd_entries (mem_snapshot st)) port of
                        None \<Rightarrow> None
                      | Some e \<Rightarrow>
                          if pe_holder e = holder \<and> pe_app e = app \<and> pe_role e = role
                          then (case pe_pid e of
                                  None \<Rightarrow> None
                                | Some pid \<Rightarrow> if os_pid_alive (dv_os dv) pid then Some pid else None)
                          else None) of
                  Some pid \<Rightarrow>
                    (SupervisedAs \<lparr>sv_port = port, sv_pid = pid, sv_ready = os_listening (dv_os dv) port, sv_spawned = False\<rparr>,
                     dm\<lparr>dm_store := st\<rparr>, [])
                | None \<Rightarrow>
                    (let key = \<lparr>ky_holder = holder, ky_app = app, ky_role = role\<rparr> in
                     case dv_spawn dv of
                       None \<Rightarrow> (ErrPort SpawnFailed, dm\<lparr>dm_store := st\<rparr>, [])
                     | Some pid \<Rightarrow>
                         (case record_pid_with (dv_os dv) (port_store_commit dv) port app holder role pid logfile st of
                            (Inl e, st') \<Rightarrow> (ErrPort (StoreError e), dm\<lparr>dm_store := st'\<rparr>, [Spawned key pid])
                          | (Inr _, st') \<Rightarrow>
                              (SupervisedAs \<lparr>sv_port = port, sv_pid = pid, sv_ready = dv_ready dv, sv_spawned = True\<rparr>,
                               dm\<lparr>dm_store := st',
                                  dm_sup := insert_owned key pid port logfile
                                    \<lparr>la_argv = argv, la_cwd = cwd, la_env = env\<rparr> (dm_sup dm)\<rparr>,
                               [Spawned key pid]))))))"

section \<open>Stopping\<close>

text \<open>Each key leaves the table before its child is signalled.\<close>

fun stop_keys :: "Key list \<Rightarrow> Supervisor \<Rightarrow> Supervisor \<times> effect list" where
  "stop_keys [] s = (s, [])"
| "stop_keys (k # ks) s =
     (case sup_remove k s of
        (Some pid, s1) \<Rightarrow> (let (s2, effs) = stop_keys ks s1 in (s2, Stopped pid # effs))
      | (None, s1) \<Rightarrow> stop_keys ks s1)"

definition keys_in :: "(u16 \<times> Entry \<Rightarrow> bool) \<Rightarrow> port_fault store_error + PortData \<Rightarrow> Key list" where
  "keys_in P r =
     (case r of Inl _ \<Rightarrow> [] | Inr d \<Rightarrow> map (\<lambda>row. key_of (snd row)) (filter P (pd_entries d)))"

text \<open>
  The three parts of a stop, between which other requests and ticks may run: reading which keys, taking them out of the table and
  signalling their children, and releasing the rows.
\<close>

definition down_snapshot :: "machine \<Rightarrow> (u16 \<times> Entry \<Rightarrow> bool) \<Rightarrow> daemon \<Rightarrow> Key list \<times> daemon" where
  "down_snapshot dv P dm =
     (let (r, st) = snapshot_with (dv_os dv) mem_read (port_store_commit dv) (dm_store dm) in (keys_in P r, dm\<lparr>dm_store := st\<rparr>))"

definition down_table :: "Key list \<Rightarrow> daemon \<Rightarrow> daemon \<times> effect list" where
  "down_table keys dm = (let (tbl, effs) = stop_keys keys (dm_sup dm) in (dm\<lparr>dm_sup := tbl\<rparr>, effs))"

definition of_holder :: "string \<Rightarrow> Role option \<Rightarrow> u16 \<times> Entry \<Rightarrow> bool" where
  "of_holder holder role row \<longleftrightarrow>
     pe_holder (snd row) = holder \<and> (case role of None \<Rightarrow> True | Some x \<Rightarrow> pe_role (snd row) = x)"

definition release_holder :: "machine \<Rightarrow> string \<Rightarrow> Role option \<Rightarrow> daemon \<Rightarrow> port_response \<times> daemon" where
  "release_holder dv holder role dm = respond FreedPorts dm (port_release_with (port_store_commit dv) holder role (dm_store dm))"

definition release_listed :: "machine \<Rightarrow> u16 list \<Rightarrow> daemon \<Rightarrow> port_response \<times> daemon" where
  "release_listed dv ports dm = respond FreedPorts dm (release_ports_with (port_store_commit dv) ports (dm_store dm))"

definition down :: "machine \<Rightarrow> string \<Rightarrow> Role option \<Rightarrow> daemon \<Rightarrow> port_response \<times> daemon \<times> effect list" where
  "down dv holder role dm =
     (let (keys, dm1) = down_snapshot dv (of_holder holder role) dm;
          (dm2, effs) = down_table keys dm1;
          (resp, dm3) = release_holder dv holder role dm2
      in (resp, dm3, effs))"

definition down_ports :: "machine \<Rightarrow> u16 list \<Rightarrow> daemon \<Rightarrow> port_response \<times> daemon \<times> effect list" where
  "down_ports dv ports dm =
     (let (keys, dm1) = down_snapshot dv (\<lambda>row. fst row \<in> set ports) dm;
          (dm2, effs) = down_table keys dm1;
          (resp, dm3) = release_listed dv ports dm2
      in (resp, dm3, effs))"

definition tail_log :: "machine \<Rightarrow> string \<Rightarrow> string \<Rightarrow> Role option \<Rightarrow> nat \<Rightarrow> daemon \<Rightarrow> port_response \<times> daemon" where
  "tail_log dv holder app role lines dm =
     (case snapshot_with (dv_os dv) mem_read (port_store_commit dv) (dm_store dm) of
        (Inl e, st) \<Rightarrow> (ErrPort (StoreError e), dm\<lparr>dm_store := st\<rparr>)
      | (Inr d, st) \<Rightarrow>
          (case (case find (\<lambda>e. pe_holder e = holder \<and> pe_app e = app
                       \<and> (case role of None \<Rightarrow> True | Some r \<Rightarrow> pe_role e = r)) (bt_values (pd_entries d)) of
                   None \<Rightarrow> None | Some e \<Rightarrow> pe_logfile e) of
             Some p \<Rightarrow> (Lines (dv_tail dv p lines), dm\<lparr>dm_store := st\<rparr>)
           | None \<Rightarrow> (ErrPort (NoTrackedLog app), dm\<lparr>dm_store := st\<rparr>)))"

section \<open>Dispatch\<close>

definition no_effects :: "port_response \<times> daemon \<Rightarrow> port_response \<times> daemon \<times> effect list" where
  "no_effects r = (fst r, snd r, [])"

definition port_dispatch :: "machine \<Rightarrow> port_request \<Rightarrow> daemon \<Rightarrow> (port_response \<times> daemon \<times> effect list) \<times> bool" where
  "port_dispatch dv req dm =
     (case req of
        PingPort _ \<Rightarrow> ((PongPort port_proto (dv_pid dv), dm, []), False)
      | Alloc holder reqs role \<Rightarrow>
          (no_effects (respond Ports dm (alloc_with (dv_os dv) (dv_commit_os dv) mem_read (port_store_commit dv) holder reqs role (dm_store dm))), False)
      | RecordPid port app holder role pid logfile \<Rightarrow>
          (no_effects (respond (\<lambda>_. OkPort) dm
             (record_pid_with (dv_os dv) (port_store_commit dv) port app holder role pid logfile (dm_store dm))), False)
      | ReleaseHolder holder role \<Rightarrow>
          (no_effects (respond FreedPorts dm (port_release_with (port_store_commit dv) holder role (dm_store dm))), False)
      | ReleasePorts ports \<Rightarrow>
          (no_effects (respond FreedPorts dm (release_ports_with (port_store_commit dv) ports (dm_store dm))), False)
      | Snapshot \<Rightarrow>
          (no_effects (respond SnapshotOf dm (snapshot_with (dv_os dv) mem_read (port_store_commit dv) (dm_store dm))), False)
      | PrunePorts \<Rightarrow>
          (no_effects (respond FreedPorts dm (port_prune_with (dv_os dv) mem_read (port_store_commit dv) (dm_store dm))), False)
      | Supervise holder app role argv cwd env logfile base_port \<Rightarrow>
          (supervise_app dv holder app role argv cwd env logfile base_port dm, False)
      | Down holder role \<Rightarrow> (down dv holder role dm, False)
      | DownPorts ports \<Rightarrow> (down_ports dv ports dm, False)
      | Tail holder app role lines \<Rightarrow> (no_effects (tail_log dv holder app role lines dm), False)
      | Shutdown \<Rightarrow> ((OkPort, dm\<lparr>dm_shutdown := True\<rparr>, []), True))"

section \<open>Lifecycle\<close>

definition is_idle :: "nat \<Rightarrow> daemon \<Rightarrow> bool" where
  "is_idle now dm \<longleftrightarrow>
     dm_conns dm = 0 \<and> \<not> any_live (dm_sup dm) \<and> now - dm_last_activity dm \<ge> dm_idle_timeout dm"

definition conn_open :: "nat \<Rightarrow> daemon \<Rightarrow> daemon" where
  "conn_open now dm = dm\<lparr>dm_conns := dm_conns dm + 1, dm_last_activity := now\<rparr>"

definition conn_drop :: "nat \<Rightarrow> daemon \<Rightarrow> daemon" where
  "conn_drop now dm = dm\<lparr>dm_conns := dm_conns dm - 1, dm_last_activity := now\<rparr>"

definition adopt :: "os \<Rightarrow> PortData \<Rightarrow> Supervisor \<Rightarrow> Supervisor" where
  "adopt os data tbl =
     fold (\<lambda>(port, e) s.
       case (pe_pid e, pe_logfile e) of
         (Some pid, Some log) \<Rightarrow> if os_pid_alive os pid then insert_adopted (key_of e) pid port log s else s
       | _ \<Rightarrow> s) (pd_entries data) tbl"

text \<open>The two halves of \<open>respawn\<close>: what it reads under the table's lock, and what it does after.\<close>

definition respawn_finish :: "machine \<Rightarrow> Key \<Rightarrow> Launch \<times> string \<times> u16 \<Rightarrow> daemon \<Rightarrow> daemon \<times> effect list" where
  "respawn_finish dv key spec dm =
     (case spec of (launch, log, port) \<Rightarrow>
        (case dv_spawn dv of
           None \<Rightarrow> (dm, [])
         | Some pid \<Rightarrow>
             (dm\<lparr>dm_store := snd (record_pid_with (dv_os dv) (port_store_commit dv) port (ky_app key) (ky_holder key)
                                    (ky_role key) pid log (dm_store dm)),
                 dm_sup := set_pid key pid (dm_sup dm)\<rparr>,
              [Spawned key pid])))"

definition respawn :: "machine \<Rightarrow> Key \<Rightarrow> daemon \<Rightarrow> daemon \<times> effect list" where
  "respawn dv key dm =
     (case launch_of (dm_sup dm) key of
        None \<Rightarrow> (dm, [])
      | Some spec \<Rightarrow> respawn_finish dv key spec dm)"

definition restart :: "machine \<Rightarrow> Key \<Rightarrow> daemon \<Rightarrow> daemon \<times> effect list" where
  "restart dv key dm =
     (if \<not> sup_contains (dm_sup dm) key then (dm, [])
      else if launch_of (dm_sup dm) key = None then (dm\<lparr>dm_sup := snd (sup_remove key (dm_sup dm))\<rparr>, [])
      else case may_restart (dv_now dv) key (dm_sup dm) of
             (False, s) \<Rightarrow> (dm\<lparr>dm_sup := snd (sup_remove key s)\<rparr>, [])
           | (True, s) \<Rightarrow> respawn dv key (dm\<lparr>dm_sup := s\<rparr>))"

text \<open>One tick of the reap loop: every child found gone, in turn.\<close>

fun restart_all :: "machine \<Rightarrow> Key list \<Rightarrow> daemon \<Rightarrow> daemon \<times> effect list" where
  "restart_all dv [] dm = (dm, [])"
| "restart_all dv (k # ks) dm =
     (let (dm1, effs1) = restart dv k dm; (dm2, effs2) = restart_all dv ks dm1 in (dm2, effs1 @ effs2))"

definition reap_tick :: "machine \<Rightarrow> (Watch \<Rightarrow> u32 \<Rightarrow> bool) \<Rightarrow> daemon \<Rightarrow> daemon \<times> effect list" where
  "reap_tick dv gone dm = restart_all dv (reap_once gone (dm_sup dm)) dm"

end
