(* ===== verification/Devkitd_Safety.thy ===== *)
theory Devkitd_Safety
  imports Devkitd
begin

text \<open>
  What the daemon's handlers do: which processes they start and stop, what they leave in the
  supervision table and in the registry, on every branch. The last section states where a stop
  request and a crash cross: three orders of events the code handles otherwise than it says.
\<close>

section \<open>The registry store in memory\<close>

lemma mem_commit_cases:
  "mem_commit port_document io (\<lambda>d. Inr (g d)) st =
     (if io_tmp io \<and> io_rename io
      then (Inr (fst (g (ms_state st))),
            \<lparr>ms_state = doc_stamp port_document (snd (g (ms_state st))),
             ms_fs = (ms_fs st)\<lparr>fs_data := Some (Text (doc_to_json port_document (doc_stamp port_document (snd (g (ms_state st))))))\<rparr>\<rparr>)
      else (Inl WriteFailed, st))"
  by (auto simp: mem_commit_def doc_write_def case_prod_beta)

lemma stamp_entries [simp]: "pd_entries (doc_stamp port_document d) = pd_entries d"
  by (simp add: port_document_def)

lemma snapshot_mem:
  "snapshot_with os mem_read (mem_commit port_document io) st = (r, st') \<Longrightarrow>
   r = Inr (port_prune os (ms_state st))
   \<and> (pd_entries (ms_state st') = pd_entries (ms_state st) \<or> pd_entries (ms_state st') = pd_entries (port_prune os (ms_state st)))"
  unfolding snapshot_with_def Let_def mem_commit_cases
  by (auto simp: case_prod_beta port_prune_def remove_ports_def split: if_splits)

lemma stamp_wf: "bt_wf (pd_entries d) \<Longrightarrow> bt_wf (pd_entries (port_prune os d))"
  by (simp add: port_prune_def remove_ports_wf)

section \<open>Stopping keys\<close>

lemma sup_remove_simps [simp]:
  "fst (sup_remove k s) = map_option ch_pid (child_of s k)"
  "child_of (snd (sup_remove k s)) k' = (if k' = k then None else child_of s k')"
  by (simp_all add: sup_remove_def delete_conv')

lemma stop_keys_spec:
  assumes "stop_keys ks s = (s', effs)"
  shows "(\<forall>k. child_of s' k = (if k \<in> set ks then None else child_of s k))
    \<and> set effs = {Stopped (ch_pid c) |k c. k \<in> set ks \<and> child_of s k = Some c}"
  using assms
proof (induction ks arbitrary: s effs)
  case (Cons k ks)
  obtain r s1 where rm: "sup_remove k s = (r, s1)" by force
  obtain effs1 where rest: "stop_keys ks s1 = (s', effs1)"
    and effs: "effs = (case r of Some pid \<Rightarrow> Stopped pid # effs1 | None \<Rightarrow> effs1)"
    using Cons.prems rm by (cases r) (auto split: prod.splits)
  have r: "r = map_option ch_pid (child_of s k)" and s1: "child_of s1 k' = (if k' = k then None else child_of s k')" for k'
    using sup_remove_simps [of k s] rm by simp_all
  have IH: "\<And>k'. child_of s' k' = (if k' \<in> set ks then None else child_of s1 k')"
    "set effs1 = {Stopped (ch_pid c) |k c. k \<in> set ks \<and> child_of s1 k = Some c}"
    using Cons.IH [OF rest] by simp_all
  show ?case
  proof (cases "child_of s k")
    case None
    then have "set effs = set effs1" using effs r by simp
    moreover have "set effs1 = {Stopped (ch_pid c) |k' c. k' \<in> set (k # ks) \<and> child_of s k' = Some c}"
      unfolding IH(2) using None s1 by (auto split: if_splits) (metis option.distinct(1))
    ultimately show ?thesis using IH(1) s1 None by auto
  next
    case (Some c)
    then have "set effs = insert (Stopped (ch_pid c)) (set effs1)" using effs r by simp
    moreover have "insert (Stopped (ch_pid c)) (set effs1) = {Stopped (ch_pid c) |k' c. k' \<in> set (k # ks) \<and> child_of s k' = Some c}"
      unfolding IH(2) using Some s1 by (auto split: if_splits) (metis option.inject)+
    ultimately show ?thesis using IH(1) s1 by auto
  qed
qed simp

section \<open>Restarting\<close>

lemma set_pid_child:
  "child_of (set_pid key pid s) k = (if k = key then map_option (\<lambda>c. c\<lparr>ch_pid := pid, ch_watch := Owned,
     ch_armed := False, ch_probe_failures := 0, ch_mem_over := 0, ch_mem_gave_up := False\<rparr>) (child_of s k) else child_of s k)"
  by (simp add: set_pid_def)





section \<open>Properties\<close>

text \<open>The rows a stop finds: those it names that are alive when the registry is read.\<close>

definition found_live :: "os \<Rightarrow> (u16 \<times> Entry \<Rightarrow> bool) \<Rightarrow> daemon \<Rightarrow> Entry set" where
  "found_live os P dm = {e. \<exists>p. (p, e) \<in> set (pd_entries (ms_state (dm_store dm))) \<and> entry_alive os p e \<and> P (p, e)}"

lemma down_snapshot_keys:
  assumes "bt_wf (pd_entries (ms_state (dm_store dm)))" and "down_snapshot dv P dm = (keys, dm')"
  shows "set keys = key_of ` found_live (dv_os dv) P dm"
proof -
  obtain r st where snap: "snapshot_with (dv_os dv) mem_read (port_store_commit dv) (dm_store dm) = (r, st)" by force
  have "keys = map (\<lambda>row. key_of (snd row)) (filter P (pd_entries (port_prune (dv_os dv) (ms_state (dm_store dm)))))"
    using assms(2) snap snapshot_mem [OF snap] by (simp add: down_snapshot_def keys_in_def)
  then have "set keys = key_of ` snd ` {row \<in> set (pd_entries (port_prune (dv_os dv) (ms_state (dm_store dm)))). P row}"
    by (simp add: image_image)
  also have "\<dots> = key_of ` found_live (dv_os dv) P dm"
    unfolding prune_rows [OF assms(1)] by (rule arg_cong [where f = "image key_of"]) (force simp: found_live_def)
  finally show ?thesis .
qed




text \<open>A sample daemon: one live server, on its registry row and in the table.\<close>

definition demo_daemon :: daemon where
  "demo_daemon = \<lparr>dm_store = \<lparr>ms_state = demo_ports, ms_fs = \<lparr>fs_data = None, fs_bak = None\<rparr>\<rparr>, dm_sup = demo_sup,
     dm_conns = 0, dm_last_activity = 0, dm_idle_timeout = 1800, dm_shutdown = False\<rparr>"

definition demo_machine :: machine where
  "demo_machine = \<lparr>dv_os = demo_os, dv_commit_os = demo_os, dv_io = clean_io, dv_now = 100, dv_spawn = Some 8, dv_ready = True,
     dv_tail = \<lambda>_ _. [], dv_pid = 1\<rparr>"




text \<open>
  What happens to a child found gone, on every branch. One that is no longer tracked is left
  alone; one the daemon never launched, or whose crash-loop budget is spent, is dropped; otherwise the
  restart is charged, and a spawn that gives a pid leaves the child tracked under it as owned and
  unprobed, on its port, with the registry's row naming it when the save succeeded.
\<close>

theorem restart_outcome:
  "(child_of (dm_sup dm) key = None \<longrightarrow> restart dv key dm = (dm, []))
    \<and> (\<forall>c. child_of (dm_sup dm) key = Some c \<longrightarrow>
        (ch_launch c = None \<or> \<not> budget_left (dv_now dv) (dm_sup dm) c \<longrightarrow>
           snd (restart dv key dm) = [] \<and> dm_store (fst (restart dv key dm)) = dm_store dm
           \<and> child_of (dm_sup (fst (restart dv key dm))) key = None)
        \<and> (ch_launch c \<noteq> None \<and> budget_left (dv_now dv) (dm_sup dm) c \<longrightarrow>
           (case dv_spawn dv of
              None \<Rightarrow> snd (restart dv key dm) = []
                \<and> child_of (dm_sup (fst (restart dv key dm))) key =
                    Some (c\<lparr>ch_restarts := recent (dv_now dv) (su_window (dm_sup dm)) (ch_restarts c) @ [dv_now dv]\<rparr>)
            | Some pid \<Rightarrow> snd (restart dv key dm) = [Spawned key pid]
                \<and> (\<exists>c'. child_of (dm_sup (fst (restart dv key dm))) key = Some c' \<and> ch_pid c' = pid \<and> ch_watch c' = Owned
                     \<and> \<not> ch_armed c' \<and> ch_probe_failures c' = 0 \<and> ch_port c' = ch_port c \<and> ch_launch c' = ch_launch c
                     \<and> ch_restarts c' = recent (dv_now dv) (su_window (dm_sup dm)) (ch_restarts c) @ [dv_now dv])
                \<and> (io_tmp (dv_io dv) \<and> io_rename (dv_io dv) \<longrightarrow>
                     (\<exists>e. bt_get (pd_entries (ms_state (dm_store (fst (restart dv key dm))))) (ch_port c) = Some e
                        \<and> key_of e = key \<and> pe_pid e = Some pid \<and> pe_logfile e = Some (ch_logfile c))))))"
proof (cases "child_of (dm_sup dm) key")
  case None
  then show ?thesis by (simp add: restart_def sup_contains_def)
next
  case (Some c)
  let ?ts = "recent (dv_now dv) (su_window (dm_sup dm)) (ch_restarts c)"
  have may: "may_restart (dv_now dv) key (dm_sup dm) =
      (if budget_left (dv_now dv) (dm_sup dm) c
       then (True, change_child key (\<lambda>c. c\<lparr>ch_restarts := ?ts @ [dv_now dv]\<rparr>) (dm_sup dm))
       else (False, change_child key (\<lambda>c. c\<lparr>ch_restarts := ?ts\<rparr>) (dm_sup dm)))"
    using Some by (simp add: may_restart_def budget_left_def Let_def)
  show ?thesis
  proof (cases "ch_launch c")
    case None
    then show ?thesis using Some by (simp add: restart_def sup_contains_def launch_of_def)
  next
    case (Some l)
    note child = \<open>child_of (dm_sup dm) key = Some c\<close>
    show ?thesis
    proof (cases "budget_left (dv_now dv) (dm_sup dm) c")
      case False
      then show ?thesis using Some child by (simp add: restart_def sup_contains_def launch_of_def may)
    next
      case True
      then have eq: "restart dv key dm = respawn_finish dv key (l, ch_logfile c, ch_port c)
          (dm\<lparr>dm_sup := change_child key (\<lambda>c. c\<lparr>ch_restarts := ?ts @ [dv_now dv]\<rparr>) (dm_sup dm)\<rparr>)"
        using Some child by (simp add: restart_def sup_contains_def launch_of_def may respawn_def)
      show ?thesis
      proof (cases "dv_spawn dv")
        case None
        then show ?thesis using Some child True by (simp add: eq respawn_finish_def)
      next
        case spawned: (Some pid)
        then show ?thesis
          using Some child True
          by (simp add: eq respawn_finish_def set_pid_child record_pid_with_def mem_commit_cases record_pid_def
              bt_insert_get key_of_def)
      qed
    qed
  qed
qed

theorem restart_outcome_witness:
  "\<exists>c. child_of (dm_sup demo_daemon) demo_key = Some c
     \<and> snd (restart demo_machine demo_key demo_daemon) = [Spawned demo_key 8]"
proof -
  obtain c where c: "child_of (dm_sup demo_daemon) demo_key = Some c" "ch_launch c \<noteq> None"
      "budget_left (dv_now demo_machine) (dm_sup demo_daemon) c"
    by (simp add: demo_daemon_def demo_sup_def insert_owned_def sup_new_def budget_left_def recent_def)
  then show ?thesis
    using restart_outcome [where dm = demo_daemon and key = demo_key and dv = demo_machine]
    by (intro exI [of _ c]) (simp add: demo_machine_def)
qed

lemma alloc_held:
  assumes "holds (ms_state st) holder app role = Some p"
  shows "\<exists>st'. pd_entries (ms_state st') = pd_entries (ms_state st)
    \<and> alloc_with os os2 mem_read (mem_commit port_document io) holder [(app, base)] role st =
       (if io_tmp io \<and> io_rename io then Inr [(app, p)] else Inl WriteFailed, st')"
  using assms by (auto simp: alloc_with_def mem_commit_def doc_write_def mem_read_def mem_snapshot_def)

text \<open>
  \<open>supervise\<close> never starts a second server. Over a live row for the holder, the app and the role it
  starts nothing and leaves the table as it is, and an answer names that row's pid; a server it does
  start is one, under the key asked for, and the answer that says so has it tracked, respawnable, and
  recorded on its port.
\<close>

theorem supervise_no_duplicate:
  assumes "supervise_app dv holder app role argv cwd env logfile base_port dm = (resp, dm', effs)"
  shows "(\<forall>p e pid. holds (ms_state (dm_store dm)) holder app role = Some p
        \<and> bt_get (pd_entries (ms_state (dm_store dm))) p = Some e
        \<and> pe_pid e = Some pid \<and> os_pid_alive (dv_os dv) pid
        \<and> bt_wf (pd_entries (ms_state (dm_store dm))) \<longrightarrow>
          effs = [] \<and> dm_sup dm' = dm_sup dm
          \<and> (\<forall>sv. resp = SupervisedAs sv \<longrightarrow> sv_port sv = p \<and> sv_pid sv = pid \<and> \<not> sv_spawned sv))
    \<and> (\<forall>eff\<in>set effs. \<exists>pid. eff = Spawned \<lparr>ky_holder = holder, ky_app = app, ky_role = role\<rparr> pid \<and> effs = [eff])
    \<and> (\<forall>sv. resp = SupervisedAs sv \<and> sv_spawned sv \<longrightarrow>
         effs = [Spawned \<lparr>ky_holder = holder, ky_app = app, ky_role = role\<rparr> (sv_pid sv)]
         \<and> launch_of (dm_sup dm') \<lparr>ky_holder = holder, ky_app = app, ky_role = role\<rparr> =
              Some (\<lparr>la_argv = argv, la_cwd = cwd, la_env = env\<rparr>, logfile, sv_port sv)
         \<and> (\<exists>e. bt_get (pd_entries (ms_state (dm_store dm'))) (sv_port sv) = Some e
              \<and> pe_holder e = holder \<and> pe_app e = app \<and> pe_role e = role \<and> pe_pid e = Some (sv_pid sv)))"
proof (intro conjI)
  let ?key = "\<lparr>ky_holder = holder, ky_app = app, ky_role = role\<rparr>"
  obtain r st where alloc: "alloc_with (dv_os dv) (dv_commit_os dv) mem_read (port_store_commit dv) holder [(app, base_port)] role (dm_store dm) = (r, st)"
    by force
  note run = assms [unfolded supervise_app_def alloc prod.case]
  show "\<forall>eff\<in>set effs. \<exists>pid. eff = Spawned ?key pid \<and> effs = [eff]"
    using run by (auto simp: Let_def split: sum.splits option.splits prod.splits if_splits)
  show "\<forall>sv. resp = SupervisedAs sv \<and> sv_spawned sv \<longrightarrow>
         effs = [Spawned ?key (sv_pid sv)]
         \<and> launch_of (dm_sup dm') ?key = Some (\<lparr>la_argv = argv, la_cwd = cwd, la_env = env\<rparr>, logfile, sv_port sv)
         \<and> (\<exists>e. bt_get (pd_entries (ms_state (dm_store dm'))) (sv_port sv) = Some e
              \<and> pe_holder e = holder \<and> pe_app e = app \<and> pe_role e = role \<and> pe_pid e = Some (sv_pid sv))"
    using run
    by (auto simp: Let_def launch_of_def insert_owned_def update_conv' record_pid_with_def mem_commit_cases
        record_pid_def bt_insert_get split: sum.splits option.splits prod.splits if_splits)
  show "\<forall>p e pid. holds (ms_state (dm_store dm)) holder app role = Some p
        \<and> bt_get (pd_entries (ms_state (dm_store dm))) p = Some e
        \<and> pe_pid e = Some pid \<and> os_pid_alive (dv_os dv) pid
        \<and> bt_wf (pd_entries (ms_state (dm_store dm))) \<longrightarrow>
          effs = [] \<and> dm_sup dm' = dm_sup dm
          \<and> (\<forall>sv. resp = SupervisedAs sv \<longrightarrow> sv_port sv = p \<and> sv_pid sv = pid \<and> \<not> sv_spawned sv)"
  proof (intro allI impI, elim conjE)
    fix p e pid
    assume p: "holds (ms_state (dm_store dm)) holder app role = Some p"
      and e: "bt_get (pd_entries (ms_state (dm_store dm))) p = Some e" "pe_pid e = Some pid" "os_pid_alive (dv_os dv) pid"
      and wf: "bt_wf (pd_entries (ms_state (dm_store dm)))"
    have own: "pe_holder e = holder \<and> pe_app e = app \<and> pe_role e = role"
      using holds_held [OF wf p] e(1) by (auto simp: held_def)
    have "(r = Inr [(app, p)] \<or> r = Inl WriteFailed) \<and> pd_entries (ms_state st) = pd_entries (ms_state (dm_store dm))"
      using alloc_held [OF p, of "dv_os dv" "dv_commit_os dv" "dv_io dv" base_port] alloc by (auto split: if_splits)
    then show "effs = [] \<and> dm_sup dm' = dm_sup dm
          \<and> (\<forall>sv. resp = SupervisedAs sv \<longrightarrow> sv_port sv = p \<and> sv_pid sv = pid \<and> \<not> sv_spawned sv)"
      using run own e by (auto simp: mem_snapshot_def)
  qed
qed

theorem supervise_no_duplicate_witness:
  "snd (snd (supervise_app demo_machine ''/w'' ''api'' Workspace [''api''] ''/w'' [] ''log'' 9100 demo_daemon)) = []"
proof -
  obtain resp dm' effs where
    run: "supervise_app demo_machine ''/w'' ''api'' Workspace [''api''] ''/w'' [] ''log'' 9100 demo_daemon = (resp, dm', effs)"
    by (cases "supervise_app demo_machine ''/w'' ''api'' Workspace [''api''] ''/w'' [] ''log'' 9100 demo_daemon") auto
  have "effs = []"
    by (rule supervise_no_duplicate [OF run, THEN conjunct1, rule_format, of 9100 demo_port_row 7, THEN conjunct1])
      (simp add: demo_daemon_def demo_ports_wf, simp add: holds_def demo_ports_def demo_port_row_def bt_get_def
        demo_machine_def demo_os_def)
  with run show ?thesis by simp
qed

section \<open>Where a stop crosses a crash\<close>

text \<open>The sample machine once the server (pid 7) has crashed.\<close>

definition crashed_machine :: machine where
  "crashed_machine = demo_machine\<lparr>dv_os := demo_os\<lparr>os_pid_alive := \<lambda>p. p = 8\<rparr>\<rparr>"

lemmas demo_defs = demo_daemon_def demo_machine_def demo_os_def demo_ports_def demo_port_row_def demo_sup_def
  demo_key_def demo_launch_def insert_owned_def sup_new_def clean_io_def

lemma crashed_dead: "dead_ports (dv_os crashed_machine) (ms_state (dm_store demo_daemon)) = [9100]"
  by (simp add: dead_ports_def entry_alive_def crashed_machine_def demo_defs)

lemma crashed_simps: "dv_now crashed_machine = 100" "dv_spawn crashed_machine = Some 8"
  by (simp_all add: crashed_machine_def demo_machine_def)

lemma respawn_finish_effect: "dv_spawn dv = Some pid \<Longrightarrow> snd (respawn_finish dv key spec dm) = [Spawned key pid]"
  by (cases spec) (simp add: respawn_finish_def)

text \<open>
  A server that crashed after the last tick is pruned from the registry by the very read \<open>Down\<close> starts
  with, so \<open>Down\<close> does not see it: it stays in the table, and the next tick starts it again.
\<close>

lemma down_misses_crashed:
  "snd (snd (down crashed_machine ''/w'' None demo_daemon)) = []
    \<and> dm_sup (fst (snd (down crashed_machine ''/w'' None demo_daemon))) = demo_sup
    \<and> snd (reap_tick crashed_machine (\<lambda>_ pid. pid = 7) (fst (snd (down crashed_machine ''/w'' None demo_daemon)))) = [Spawned demo_key 8]"
proof -
  obtain r st where run: "snapshot_with (dv_os crashed_machine) mem_read (port_store_commit crashed_machine) (dm_store demo_daemon)
      = (r, st)" by force
  have "port_prune (dv_os crashed_machine) (ms_state (dm_store demo_daemon)) = \<lparr>pd_version = 1, pd_entries = []\<rparr>"
    by (simp add: port_prune_def crashed_dead remove_ports_def) (simp add: demo_defs bt_remove_def)
  then have st: "snapshot_with (dv_os crashed_machine) mem_read (port_store_commit crashed_machine) (dm_store demo_daemon)
      = (Inr \<lparr>pd_version = 1, pd_entries = []\<rparr>, st)"
    using snapshot_mem [OF run] run by simp
  let ?dm = "fst (snd (down crashed_machine ''/w'' None demo_daemon))"
  have kept: "snd (snd (down crashed_machine ''/w'' None demo_daemon)) = []" "dm_sup ?dm = demo_sup"
    by (simp_all add: down_def down_snapshot_def down_table_def release_holder_def st keys_in_def Let_def respond_def case_prod_beta
        split: sum.split)
      (simp_all add: demo_daemon_def)
  obtain c where c: "child_of (dm_sup ?dm) demo_key = Some c" "ch_launch c \<noteq> None" "budget_left 100 (dm_sup ?dm) c"
    unfolding kept by (simp add: demo_defs budget_left_def recent_def)
  have "reap_once (\<lambda>_ pid. pid = 7) (dm_sup ?dm) = [demo_key]"
    unfolding kept by (simp add: reap_once_def demo_defs)
  then show ?thesis
    using kept c by (cases "ch_launch c") (simp_all add: reap_tick_def restart_def sup_contains_def launch_of_def may_restart_def
        respawn_def budget_left_def Let_def case_prod_beta crashed_simps respawn_finish_effect)
qed

text \<open>
  A \<open>Down\<close> between the two halves of a respawn: the server comes up after it, its row is back in the
  registry, and it is not in the supervision table.
\<close>

lemma down_between_respawn_halves:
  assumes "launch_of (dm_sup dm) key = Some (launch, log, port)" and "dv_spawn dv = Some pid"
    and "io_tmp (dv_io dv)" "io_rename (dv_io dv)" and "child_of (dm_sup dm') key = None"
  shows "snd (respawn_finish dv key (launch, log, port) dm') = [Spawned key pid]
    \<and> child_of (dm_sup (fst (respawn_finish dv key (launch, log, port) dm'))) key = None
    \<and> (\<exists>e. bt_get (pd_entries (ms_state (dm_store (fst (respawn_finish dv key (launch, log, port) dm'))))) port = Some e
          \<and> key_of e = key \<and> pe_pid e = Some pid)"
  using assms(2-5)
  by (simp add: respawn_finish_def set_pid_child record_pid_with_def mem_commit_cases record_pid_def bt_insert_get key_of_def)

text \<open>A live row whose server the table does not track loses its port, and its process gets no signal.\<close>

lemma down_leaves_untracked:
  assumes "bt_wf (pd_entries (ms_state (dm_store dm)))"
    and "\<forall>e\<in>found_live (dv_os dv) (of_holder holder role) dm. child_of (dm_sup dm) (key_of e) = None"
  shows "snd (snd (down dv holder role dm)) = []"
proof -
  obtain keys dm1 where snap: "down_snapshot dv (of_holder holder role) dm = (keys, dm1)" by force
  have sup: "dm_sup dm1 = dm_sup dm" using snap by (auto simp: down_snapshot_def split: prod.splits)
  obtain tbl effs where stop: "stop_keys keys (dm_sup dm1) = (tbl, effs)" by force
  have "set effs = {}" using stop_keys_spec [OF stop] assms(2) by (auto simp: down_snapshot_keys [OF assms(1) snap] sup)
  then show ?thesis by (simp add: down_def snap down_table_def stop case_prod_beta)
qed

text \<open>A server whose row cannot be saved has been started all the same, and nothing tracks it.\<close>

lemma supervise_unsaved_untracked:
  assumes "\<not> (io_tmp (dv_io dv) \<and> io_rename (dv_io dv))"
    and "record_pid_with (dv_os dv) (port_store_commit dv) port app holder role pid log st = (r, st')"
  shows "r = Inl WriteFailed \<and> st' = st"
  using assms by (auto simp: record_pid_with_def mem_commit_cases)

end
