(* ===== verification/Todo_Model.thy ===== *)
theory Todo_Model
  imports DK_Text "HOL-Library.Product_Lexorder"
begin

text \<open>
  The todo core of \<open>crates/devkit-todo\<close>: who holds a todo (\<open>holder.rs\<close>), the one rule every status
  change goes through (\<open>transition.rs\<close>), the records (\<open>lib.rs\<close>), which node a listing covers
  (\<open>node.rs\<close>), what a stop still owes (\<open>hold.rs\<close>), and which done todos may be removed (\<open>prune.rs\<close>).

  A time is its RFC 3339 text, read by an argument; the scope templates of the configuration crate
  are the argument \<open>read\<close> that gives a template's values on a node.
\<close>

section \<open>Holders\<close>

type_synonym Holder = string

definition human :: Holder where "human = ''human''"

definition tracker :: Holder where "tracker = ''tracker''"

definition is_human :: "Holder \<Rightarrow> bool" where
  "is_human h \<longleftrightarrow> h = ''human''"

definition is_tracker :: "Holder \<Rightarrow> bool" where
  "is_tracker h \<longleftrightarrow> h = ''tracker''"

definition session_of :: "Holder \<Rightarrow> Holder" where
  "session_of h = hd (split_on (CHR ''/'') h)"

definition name_of :: "Holder \<Rightarrow> string" where
  "name_of h = last (split_on (CHR ''/'') h)"

definition covers :: "Holder \<Rightarrow> Holder \<Rightarrow> bool" where
  "covers self other \<longleftrightarrow> is_human self \<or> is_tracker self \<or> self = other \<or> slash_below self other"

section \<open>Status\<close>

datatype Status = Pending | InProgress Holder | Completed "Holder option" | Cancelled "Holder option"

datatype StatusKind = KPending | KInProgress | KCompleted | KCancelled

definition is_open :: "StatusKind \<Rightarrow> bool" where
  "is_open k = (case k of KPending \<Rightarrow> True | KInProgress \<Rightarrow> True | KCompleted \<Rightarrow> False | KCancelled \<Rightarrow> False)"

definition kind :: "Status \<Rightarrow> StatusKind" where
  "kind s = (case s of Pending \<Rightarrow> KPending | InProgress _ \<Rightarrow> KInProgress | Completed _ \<Rightarrow> KCompleted
     | Cancelled _ \<Rightarrow> KCancelled)"

datatype claimed = Claimed Holder

definition moved_to :: "StatusKind \<Rightarrow> Holder \<Rightarrow> Holder \<Rightarrow> Status" where
  "moved_to k actor finisher =
     (case k of KPending \<Rightarrow> Pending | KInProgress \<Rightarrow> InProgress actor
      | KCompleted \<Rightarrow> Completed (Some finisher) | KCancelled \<Rightarrow> Cancelled (Some finisher))"

definition transition :: "Status \<Rightarrow> StatusKind \<Rightarrow> Holder \<Rightarrow> claimed + Status option" where
  "transition current k actor =
     (case current of
        InProgress by \<Rightarrow>
          if k = KInProgress \<and> is_tracker by \<and> \<not> is_tracker actor then Inr (Some (InProgress actor))
          else if k = KInProgress \<and> covers actor by then Inr None
          else if k = KInProgress \<and> \<not> is_human by \<and> covers by actor then Inr (Some (InProgress actor))
          else if \<not> covers actor by then Inl (Claimed by)
          else Inr (Some (moved_to k actor by))
      | other \<Rightarrow> if kind other = k then Inr None else Inr (Some (moved_to k actor actor)))"

definition take_over :: "Status \<Rightarrow> Holder \<Rightarrow> Holder \<Rightarrow> claimed + Status option" where
  "take_over current from actor =
     (case current of
        InProgress by \<Rightarrow>
          if by = from \<and> \<not> is_human by \<and> \<not> covers actor by then Inr (Some (InProgress actor))
          else transition current KInProgress actor
      | _ \<Rightarrow> transition current KInProgress actor)"

section \<open>Todos\<close>

record TicketRef =
  tk_tracker :: string
  tk_key :: string
  tk_synced_status :: "string option"

record Todo =
  td_id :: string
  td_description :: string
  td_status :: Status
  td_parent :: "string option"
  td_order :: "int option"
  td_project :: "string option"
  td_entry :: "string option"
  td_modified :: "string option"
  td_blocked_by :: "string list"
  td_ticket :: "TicketRef option"

record NewTodo =
  nt_project :: "string option"
  nt_description :: string
  nt_parent :: "string option"
  nt_order :: "int option"
  nt_ticket :: "TicketRef option"

datatype Edit =
    SetStatus string StatusKind Holder
  | Describe string string
  | Move string "string option" "int option"
  | Reorder string int
  | Relocate string "string option"
  | TakeOver string Holder Holder
  | ReleaseAllOf Holder
  | Purge string
  | PruneIds "string list"
  | Block string "string list"
  | Unblock string "string list"
  | RecordSync string string

record StatusChange =
  sc_todo :: string
  sc_node :: string
  sc_from :: Status
  sc_to :: "Status option"
  sc_at :: int

definition order_gap :: int where
  "order_gap = 1024"

definition global_node :: string where
  "global_node = ''global''"

definition node_of :: "Todo \<Rightarrow> string" where
  "node_of t = (case td_project t of Some p \<Rightarrow> p | None \<Rightarrow> global_node)"

definition todo_open :: "Todo \<Rightarrow> bool" where
  "todo_open t \<longleftrightarrow> is_open (kind (td_status t))"

definition change_of :: "int \<Rightarrow> Todo \<Rightarrow> Status option \<Rightarrow> StatusChange" where
  "change_of at t new = \<lparr>sc_todo = td_id t, sc_node = node_of t, sc_from = td_status t, sc_to = new, sc_at = at\<rparr>"

definition same_ticket :: "TicketRef \<Rightarrow> TicketRef \<Rightarrow> bool" where
  "same_ticket a b \<longleftrightarrow> tk_tracker a = tk_tracker b \<and> tk_key a = tk_key b"

definition is_hexdigit :: "char \<Rightarrow> bool" where
  "is_hexdigit c = (let n = of_char c :: nat in
     48 \<le> n \<and> n \<le> 57 \<or> 65 \<le> n \<and> n \<le> 70 \<or> 97 \<le> n \<and> n \<le> 102)"

definition short_id :: "string \<Rightarrow> string" where
  "short_id i =
     (if length i = 36 \<and> length (filter (\<lambda>c. c = CHR ''-'') i) = 4
         \<and> list_all (\<lambda>c. c = CHR ''-'' \<or> is_hexdigit c) i
      then take 8 i else i)"

definition is_uuid_prefix :: "string \<Rightarrow> bool" where
  "is_uuid_prefix i \<longleftrightarrow> 8 \<le> length i \<and> length i \<le> 36 \<and> list_all (\<lambda>c. c = CHR ''-'' \<or> is_hexdigit c) i"

datatype ambiguous = Ambiguous string "string list"

definition by_prefix :: "string \<Rightarrow> Todo list \<Rightarrow> ambiguous + Todo option" where
  "by_prefix i todos =
     (if \<not> is_uuid_prefix i then Inr None
      else let found = filter (\<lambda>t. prefix i (td_id t)) todos in
           if 1 < length found then Inl (Ambiguous i (map td_id (sort_key td_id found)))
           else Inr (case found of [] \<Rightarrow> None | t # _ \<Rightarrow> Some t))"

record ClosedCount =
  cc_completed :: nat
  cc_cancelled :: nat

fun closed_counts :: "Todo list \<Rightarrow> (string, ClosedCount) btree \<Rightarrow> (string, ClosedCount) btree" where
  "closed_counts [] counts = counts"
| "closed_counts (t # ts) counts =
     (if todo_open t then closed_counts ts counts
      else let c = (case bt_get counts (node_of t) of Some c \<Rightarrow> c | None \<Rightarrow> \<lparr>cc_completed = 0, cc_cancelled = 0\<rparr>);
               c' = (if kind (td_status t) = KCompleted then c\<lparr>cc_completed := cc_completed c + 1\<rparr>
                     else c\<lparr>cc_cancelled := cc_cancelled c + 1\<rparr>)
           in closed_counts ts (bt_insert (node_of t) c' counts))"

section \<open>Nodes\<close>

definition sanitize :: "string \<Rightarrow> string" where
  "sanitize s = map (\<lambda>c. if c = CHR ''.'' \<or> c = CHR ''/'' \<or> c = CHR 0x5C then CHR ''-'' else c) s"

datatype 't NodeMatch = Exact string | Subtree string | SessionDescendants string string "'t list"

text \<open>\<open>strip_prefix(p)\<close> with a rest that starts with a dot.\<close>

definition dot_below :: "string \<Rightarrow> string \<Rightarrow> bool" where
  "dot_below p s = (case strip_prefix p s of Some (c # _) \<Rightarrow> c = CHR ''.'' | _ \<Rightarrow> False)"

definition node_matches :: "('t \<Rightarrow> string \<Rightarrow> (string \<rightharpoonup> string) option) \<Rightarrow> 't NodeMatch list \<Rightarrow> string option \<Rightarrow> bool" where
  "node_matches read nodes project =
     (let node = (case project of Some p \<Rightarrow> p | None \<Rightarrow> global_node) in
      list_ex (\<lambda>m. case m of
          Exact n \<Rightarrow> node = n
        | Subtree n \<Rightarrow> n = [] \<or> node = n \<or> dot_below n node
        | SessionDescendants own session templates \<Rightarrow>
            dot_below own node
            \<and> list_ex (\<lambda>t. case read t node of Some values \<Rightarrow> values ''session'' = Some session | None \<Rightarrow> False) templates)
        nodes)"

section \<open>What a stop owes\<close>

definition open_for :: "Todo list \<Rightarrow> Holder \<Rightarrow> string option \<Rightarrow> (Todo \<Rightarrow> bool) \<Rightarrow> Todo list" where
  "open_for todos holder pending_node is_blocked =
     sort_key (\<lambda>t. (node_of t, case td_order t of None \<Rightarrow> (0, 0) | Some n \<Rightarrow> (1 :: nat, n)))
       (filter (\<lambda>t. case td_status t of
            InProgress by \<Rightarrow> by = holder
          | Pending \<Rightarrow> pending_node = Some (node_of t) \<and> \<not> is_blocked t
          | _ \<Rightarrow> False) todos)"

end
