(* ===== verification/Todo_Prune.thy ===== *)
theory Todo_Prune
  imports Todo_Model
begin

text \<open>
  Which done todos go (\<open>crates/devkit-todo/src/prune.rs\<close>), and what that leaves the open ones.

  \<open>needed_by_open\<close> walks the ancestors of every open todo with one shared set of ids already walked;
  it is shown to be the set of blockers and ancestors it stands for. A \<open>HashSet\<close> is a set.
\<close>

section \<open>Pruning\<close>

definition todo_by_id :: "Todo list \<Rightarrow> string \<Rightarrow> Todo option" where
  "todo_by_id todos i = find (\<lambda>t. td_id t = i) (rev todos)"

definition parent_of :: "Todo list \<Rightarrow> string \<Rightarrow> string option" where
  "parent_of todos i = (case todo_by_id todos i of Some t \<Rightarrow> td_parent t | None \<Rightarrow> None)"

lemma todo_by_id_Some: "todo_by_id todos i = Some t \<Longrightarrow> t \<in> set todos \<and> td_id t = i"
  by (auto simp: todo_by_id_def dest: find_Some_set)

lemma parent_of_dom: "parent_of todos i = Some p \<Longrightarrow> i \<in> td_id ` set todos"
  by (auto simp: parent_of_def split: option.splits dest!: todo_by_id_Some)

function walk_up :: "Todo list \<Rightarrow> string option \<Rightarrow> string set \<Rightarrow> string set \<Rightarrow> string set \<times> string set" where
  "walk_up todos parent walked needed =
     (case parent of
        None \<Rightarrow> (walked, needed)
      | Some i \<Rightarrow>
          if i \<in> walked then (walked, needed)
          else walk_up todos (parent_of todos i) (insert i walked) (insert i needed))"
  by auto

termination
proof (relation "measure (\<lambda>(todos, parent, walked, needed).
    case parent of None \<Rightarrow> 0 | Some i \<Rightarrow> Suc (card (td_id ` set todos - walked)))")
  fix todos :: "Todo list" and parent walked and needed :: "string set" and i :: string
  assume i: "parent = Some i" "i \<notin> walked"
  show "((todos, parent_of todos i, insert i walked, insert i needed), todos, parent, walked, needed)
      \<in> measure (\<lambda>(todos, parent, walked, needed). case parent of None \<Rightarrow> 0 | Some i \<Rightarrow> Suc (card (td_id ` set todos - walked)))"
  proof (cases "parent_of todos i")
    case (Some p)
    have "td_id ` set todos - insert i walked \<subset> td_id ` set todos - walked"
      using parent_of_dom [OF Some] i(2) by auto
    then show ?thesis using i(1) Some by (simp add: psubset_card_mono)
  qed (simp add: i(1))
qed simp

declare walk_up.simps [simp del]

fun needed_loop :: "Todo list \<Rightarrow> Todo list \<Rightarrow> string set \<Rightarrow> string set \<Rightarrow> string set" where
  "needed_loop todos [] walked needed = needed"
| "needed_loop todos (t # ts) walked needed =
     (if todo_open t
      then let (walked', needed') = walk_up todos (td_parent t) walked (needed \<union> set (td_blocked_by t))
           in needed_loop todos ts walked' needed'
      else needed_loop todos ts walked needed)"

definition needed_by_open :: "Todo list \<Rightarrow> string set" where
  "needed_by_open todos = needed_loop todos todos {} {}"

definition removable :: "Todo list \<Rightarrow> string list \<Rightarrow> string list" where
  "removable todos ids =
     filter (\<lambda>i. (\<exists>t\<in>set todos. \<not> todo_open t \<and> td_id t = i) \<and> i \<notin> needed_by_open todos) ids"

text \<open>
  \<open>prunable\<close>: \<open>read_time\<close> reads an RFC 3339 time, \<open>synced_kind\<close> a tracker status under the node's map.
\<close>

definition window_covers :: "int option \<times> int option \<Rightarrow> int \<Rightarrow> bool" where
  "window_covers w at \<longleftrightarrow>
     (case fst w of None \<Rightarrow> True | Some from \<Rightarrow> from \<le> at) \<and> (case snd w of None \<Rightarrow> True | Some til \<Rightarrow> at \<le> til)"

definition prunable :: "(string \<Rightarrow> int option) \<Rightarrow> (string \<Rightarrow> 'm \<Rightarrow> StatusKind option) \<Rightarrow> 'm \<Rightarrow> Todo list \<Rightarrow> Todo list \<Rightarrow>
    int option \<times> int option \<Rightarrow> (string \<times> 'm) option \<Rightarrow> Todo list" where
  "prunable read_time synced_kind no_map todos scoped window repo =
     (let needed = needed_by_open todos in
      filter (\<lambda>t. case Option.bind (td_modified t) read_time of Some at \<Rightarrow> window_covers window at | None \<Rightarrow> False)
        (filter (\<lambda>t. case td_ticket t of
             None \<Rightarrow> True
           | Some tk \<Rightarrow>
               (let m = (case repo of Some (node, m) \<Rightarrow> if node_of t = node then m else no_map | None \<Rightarrow> no_map) in
                case Option.bind (tk_synced_status tk) (\<lambda>name. synced_kind name m) of
                  Some k \<Rightarrow> \<not> is_open k | None \<Rightarrow> False))
          (filter (\<lambda>t. \<not> todo_open t \<and> td_id t \<notin> needed) scoped)))"

section \<open>The walk is the closure\<close>

text \<open>The ids an open todo nests under, however deep.\<close>

inductive ancestor :: "Todo list \<Rightarrow> string \<Rightarrow> string \<Rightarrow> bool" for todos where
  parent: "parent_of todos i = Some p \<Longrightarrow> ancestor todos i p"
| up: "ancestor todos i p \<Longrightarrow> parent_of todos p = Some q \<Longrightarrow> ancestor todos i q"

definition chain_from :: "Todo list \<Rightarrow> string option \<Rightarrow> string set" where
  "chain_from todos parent = (case parent of None \<Rightarrow> {} | Some i \<Rightarrow> insert i {q. ancestor todos i q})"

lemma ancestor_down: "ancestor todos i q \<Longrightarrow> parent_of todos i = Some p \<Longrightarrow> q = p \<or> ancestor todos p q"
  by (induction rule: ancestor.induct) (auto intro: ancestor.intros)

lemma ancestor_has_parent: "ancestor todos i q \<Longrightarrow> \<exists>p. parent_of todos i = Some p"
  by (induction rule: ancestor.induct) auto

lemma ancestor_step: "parent_of todos i = Some p \<Longrightarrow> ancestor todos p q \<Longrightarrow> ancestor todos i q"
  by (rotate_tac 1, induction rule: ancestor.induct) (auto intro: ancestor.intros)

lemma chain_from_step: "chain_from todos (Some i) = insert i (chain_from todos (parent_of todos i))"
proof (cases "parent_of todos i")
  case None
  then have none: "\<not> ancestor todos i q" for q
    using ancestor_has_parent [of todos i q] by (metis option.distinct(1))
  from None show ?thesis by (auto simp: chain_from_def none)
next
  case (Some p)
  then show ?thesis
    using ancestor_down [OF _ Some] ancestor_step [OF Some] ancestor.parent [OF Some]
    by (auto simp: chain_from_def)
qed

definition closed_up :: "Todo list \<Rightarrow> string set \<Rightarrow> bool" where
  "closed_up todos W \<longleftrightarrow> (\<forall>i\<in>W. \<forall>p. parent_of todos i = Some p \<longrightarrow> p \<in> W)"

definition open_at :: "Todo list \<Rightarrow> string set \<Rightarrow> string option \<Rightarrow> bool" where
  "open_at todos W cur \<longleftrightarrow> (\<forall>i\<in>W. \<forall>p. parent_of todos i = Some p \<longrightarrow> p \<in> W \<or> cur = Some p)"

lemma closed_up_chain: "closed_up todos W \<Longrightarrow> i \<in> W \<Longrightarrow> chain_from todos (Some i) \<subseteq> W"
proof -
  assume W: "closed_up todos W" "i \<in> W"
  have "q \<in> W" if "ancestor todos i q" for q
    using that W by (induction rule: ancestor.induct) (auto simp: closed_up_def)
  then show ?thesis using W(2) by (auto simp: chain_from_def)
qed

lemma walk_up_closure:
  assumes "open_at todos W cur" and "W \<subseteq> N"
  shows "walk_up todos cur W N = (W \<union> chain_from todos cur, N \<union> chain_from todos cur)
    \<and> closed_up todos (W \<union> chain_from todos cur)"
  using assms
proof (induction todos cur W N rule: walk_up.induct)
  case (1 todos cur W N)
  show ?case
  proof (cases cur)
    case None
    then show ?thesis using "1.prems" by (simp add: walk_up.simps [of todos None] chain_from_def open_at_def closed_up_def)
  next
    case (Some i)
    show ?thesis
    proof (cases "i \<in> W")
      case True
      have "closed_up todos W" using "1.prems"(1) Some True by (auto simp: open_at_def closed_up_def)
      moreover from this True have "chain_from todos (Some i) \<subseteq> W" by (rule closed_up_chain)
      ultimately show ?thesis
        using "1.prems"(2) Some True
        by (simp add: walk_up.simps [of todos "Some i"] Un_absorb2 subset_trans)
    next
      case False
      have "open_at todos (insert i W) (parent_of todos i)"
        using "1.prems"(1) Some by (auto simp: open_at_def)
      moreover have "insert i W \<subseteq> insert i N" using "1.prems"(2) by auto
      ultimately show ?thesis
        using "1.IH" [OF Some False] Some False
        by (simp add: walk_up.simps [of todos "Some i"] chain_from_step [of todos i])
    qed
  qed
qed

lemma needed_loop_closure:
  assumes "closed_up todos W" and "W \<subseteq> N"
  shows "needed_loop todos ts W N =
    N \<union> (\<Union>t\<in>{t \<in> set ts. todo_open t}. set (td_blocked_by t) \<union> chain_from todos (td_parent t))"
  using assms
proof (induction ts arbitrary: W N)
  case (Cons t ts)
  show ?case
  proof (cases "todo_open t")
    case True
    have "open_at todos W (td_parent t)" using Cons.prems(1) by (auto simp: open_at_def closed_up_def)
    moreover have "W \<subseteq> N \<union> set (td_blocked_by t)" using Cons.prems(2) by auto
    ultimately have w: "walk_up todos (td_parent t) W (N \<union> set (td_blocked_by t)) =
        (W \<union> chain_from todos (td_parent t), N \<union> set (td_blocked_by t) \<union> chain_from todos (td_parent t))"
      "closed_up todos (W \<union> chain_from todos (td_parent t))"
      using walk_up_closure by blast+
    have "W \<union> chain_from todos (td_parent t) \<subseteq> N \<union> set (td_blocked_by t) \<union> chain_from todos (td_parent t)"
      using Cons.prems(2) by auto
    from Cons.IH [OF w(2) this] w(1) True show ?thesis by auto
  next
    case False
    with Cons show ?thesis by auto
  qed
qed simp

lemma needed_by_open_eq:
  "needed_by_open todos =
    (\<Union>t\<in>{t \<in> set todos. todo_open t}. set (td_blocked_by t) \<union> chain_from todos (td_parent t))"
  by (simp add: needed_by_open_def needed_loop_closure closed_up_def)

text \<open>
  Pruning takes only what nothing open needs. An id is removed exactly when it names a done todo
  of the whole store that no open todo waits on and no open todo nests under, however deep; so after
  the removal every open todo's blockers and ancestors that the store had are still there. The walk
  over the parents ends even when they form a cycle.
\<close>

theorem removable_exact:
  "set (removable todos ids) =
     {i \<in> set ids. (\<exists>t\<in>set todos. \<not> todo_open t \<and> td_id t = i)
        \<and> (\<forall>t\<in>set todos. todo_open t \<longrightarrow> i \<notin> set (td_blocked_by t)
             \<and> td_parent t \<noteq> Some i \<and> (\<forall>p. td_parent t = Some p \<longrightarrow> \<not> ancestor todos p i))}
    \<and> (\<forall>t\<in>set todos. todo_open t \<longrightarrow>
         (\<forall>i\<in>set (removable todos ids). i \<notin> set (td_blocked_by t) \<and> i \<notin> chain_from todos (td_parent t)))"
proof -
  have "i \<notin> needed_by_open todos \<longleftrightarrow> (\<forall>t\<in>set todos. todo_open t \<longrightarrow> i \<notin> set (td_blocked_by t)
             \<and> td_parent t \<noteq> Some i \<and> (\<forall>p. td_parent t = Some p \<longrightarrow> \<not> ancestor todos p i))" for i
    by (auto simp: needed_by_open_eq chain_from_def split: option.splits)
  moreover have "(\<forall>t\<in>set todos. todo_open t \<longrightarrow> i \<notin> set (td_blocked_by t) \<and> i \<notin> chain_from todos (td_parent t))"
    if "i \<in> set (removable todos ids)" for i
    using that by (auto simp: removable_def needed_by_open_eq)
  ultimately show ?thesis by (auto simp: removable_def)
qed

definition demo_todo :: "string \<Rightarrow> Status \<Rightarrow> string option \<Rightarrow> string list \<Rightarrow> Todo" where
  "demo_todo i st parent blockers = \<lparr>td_id = i, td_description = [], td_status = st, td_parent = parent,
     td_order = None, td_project = None, td_entry = None, td_modified = None, td_blocked_by = blockers,
     td_ticket = None\<rparr>"

theorem removable_exact_witness:
  "set (removable [demo_todo ''a'' (Completed None) None [], demo_todo ''b'' (Completed None) None [],
                   demo_todo ''c'' Pending None [''b'']] [''a'', ''b'', ''c'', ''d'']) = {''a''}"
  unfolding removable_exact [THEN conjunct1]
  by (auto simp: demo_todo_def todo_open_def kind_def is_open_def)

end
