(* ===== verification/Todo_Rules.thy ===== *)
theory Todo_Rules
  imports Todo_Model
begin

text \<open>
  What the status rule of \<open>crates/devkit-todo/src/transition.rs\<close> promises: every request
  is answered the way its caller reads the answer.
\<close>

section \<open>The covering order of holders\<close>

lemma covers_refl [simp]: "covers h h"
  by (simp add: covers_def)

lemma kind_moved_to [simp]: "kind (moved_to k a f) = k"
  by (cases k) (simp_all add: moved_to_def kind_def)

lemma kind_simps [simp]:
  "kind Pending = KPending" "kind (InProgress h) = KInProgress" "kind (Completed f) = KCompleted"
  "kind (Cancelled f) = KCancelled"
  by (simp_all add: kind_def)

lemma transition_claimed_covered:
  assumes "covers actor by"
  shows "transition (InProgress by) k actor =
     (if k = KInProgress then Inr (if is_tracker by \<and> \<not> is_tracker actor then Some (InProgress actor) else None)
      else Inr (Some (moved_to k actor by)))"
  using assms by (simp add: transition_def)

lemma transition_claimed_other:
  assumes "\<not> covers actor by"
  shows "transition (InProgress by) k actor =
     (if k = KInProgress \<and> (is_tracker by \<or> \<not> is_human by \<and> covers by actor) then Inr (Some (InProgress actor))
      else Inl (Claimed by))"
proof -
  have "\<not> is_tracker actor" using assms by (auto simp: covers_def)
  with assms show ?thesis by (auto simp: transition_def covers_def)
qed

lemma transition_free:
  assumes "kind s \<noteq> KInProgress"
  shows "transition s k actor = (if kind s = k then Inr None else Inr (Some (moved_to k actor actor)))"
  using assms by (cases s) (simp_all add: transition_def)

section \<open>What the answers mean\<close>

text \<open>
  Every answer of the status rule means what its caller reads from it. A granted change has the
  kind that was asked for and is a real change, and asking again is answered with "nothing to do";
  "nothing to do" is only answered when the todo already has the kind; a refusal names the present
  claimant, whom the asking holder does not cover. A finished todo credits whoever had it in progress, and the
  asking holder when nobody had.
\<close>

theorem transition_answers:
  "(\<forall>s'. transition s k actor = Inr (Some s') \<longrightarrow> kind s' = k \<and> s' \<noteq> s \<and> transition s' k actor = Inr None)
   \<and> (transition s k actor = Inr None \<longrightarrow> kind s = k)
   \<and> (\<forall>h. transition s k actor = Inl (Claimed h) \<longrightarrow> s = InProgress h \<and> \<not> covers actor h)
   \<and> (\<forall>f. transition s KCompleted actor = Inr (Some f) \<longrightarrow>
        f = Completed (Some (case s of InProgress h \<Rightarrow> h | _ \<Rightarrow> actor)))
   \<and> (\<forall>f. transition s KCancelled actor = Inr (Some f) \<longrightarrow>
        f = Cancelled (Some (case s of InProgress h \<Rightarrow> h | _ \<Rightarrow> actor)))"
proof (cases "kind s = KInProgress")
  case False
  then show ?thesis
    by (cases k; cases s) (auto simp: transition_free moved_to_def transition_claimed_covered)
next
  case True
  then obtain h where s: "s = InProgress h" by (cases s) auto
  show ?thesis
  proof (cases "covers actor h")
    case True
    then show ?thesis unfolding s
      by (cases k) (auto simp: transition_claimed_covered transition_free moved_to_def)
  next
    case False
    then have "actor \<noteq> h" by auto
    with False show ?thesis unfolding s
      by (cases k) (auto simp: transition_claimed_other transition_claimed_covered)
  qed
qed

theorem transition_answers_witness:
  "transition (InProgress ''S1'') KCompleted ''human'' = Inr (Some (Completed (Some ''S1'')))
   \<and> kind (Completed (Some ''S1'')) = KCompleted
   \<and> transition (Completed (Some ''S1'')) KCompleted ''human'' = Inr None"
proof -
  have t: "transition (InProgress ''S1'') KCompleted ''human'' = Inr (Some (Completed (Some ''S1'')))" by code_simp
  with transition_answers [of "InProgress ''S1''" KCompleted "''human''"] show ?thesis by simp
qed

text \<open>
  Taking over a silent holder. While the silent holder still has the claim and is not a person,
  the take-over always succeeds: the actor holds the todo, or covered its claimant already and
  leaves it. A person's claim is never taken over by anyone who does not cover it, and once the
  claim has moved on the request is judged like any other start.
\<close>

theorem take_over_outcome:
  "(\<not> is_human from \<longrightarrow>
      take_over (InProgress from) from actor \<in> {Inr (Some (InProgress actor)), Inr None}
      \<and> (take_over (InProgress from) from actor = Inr None \<longrightarrow> covers actor from))
   \<and> (is_human by \<and> \<not> covers actor by \<longrightarrow> take_over (InProgress by) from actor = Inl (Claimed by))
   \<and> (s \<noteq> InProgress from \<longrightarrow> take_over s from actor = transition s KInProgress actor)"
proof (intro conjI impI)
  show "take_over (InProgress from) from actor \<in> {Inr (Some (InProgress actor)), Inr None}"
    if "\<not> is_human from"
    using that by (cases "covers actor from") (auto simp: take_over_def transition_claimed_covered)
  show "covers actor from" if "\<not> is_human from" "take_over (InProgress from) from actor = Inr None"
    using that by (cases "covers actor from") (auto simp: take_over_def)
  show "take_over (InProgress by) from actor = Inl (Claimed by)" if "is_human by \<and> \<not> covers actor by"
    using that by (auto simp: take_over_def transition_claimed_other is_human_def is_tracker_def)
  show "take_over s from actor = transition s KInProgress actor" if "s \<noteq> InProgress from"
    using that by (cases s) (auto simp: take_over_def)
qed

theorem take_over_outcome_witness:
  "take_over (InProgress ''S1'') ''S1'' ''S2'' \<in> {Inr (Some (InProgress ''S2'')), Inr None}"
  using take_over_outcome [of "''S1''" "''S2''"] by (simp add: is_human_def)

end
