(* ===== verification/Todo_Store.thy ===== *)
theory Todo_Store
  imports Todo_Prune Doc_Store "HOL-Library.Monad_Syntax"
begin

text \<open>
  The built-in todo store (\<open>crates/devkit-todo-builtin/src/lib.rs\<close>): one JSON document of todos under
  numeric keys, every operation a read-modify-write under the strict file lock of \<open>Doc_Store\<close>.

  The clock is two arguments of an operation: \<open>at\<close>, the instant a status change records (one for all the changes of an
  operation, where the code reads the clock again for each), and
  \<open>stamp\<close>, the RFC 3339 text of the instant a todo records. Orders are \<open>i64\<close>, written as \<open>int\<close> with
  the wrap of the release build.
\<close>

section \<open>The document\<close>

record TodoDoc =
  bd_version :: u32
  bd_next_id :: u64
  bd_todos :: "(u64, Todo) btree"

definition todo_doc_version :: u32 where
  "todo_doc_version = 1"

definition i64_ok :: "int \<Rightarrow> bool" where
  "i64_ok n \<longleftrightarrow> - (2 ^ 63) \<le> n \<and> n < 2 ^ 63"

definition i64_add :: "int \<Rightarrow> int \<Rightarrow> int" where
  "i64_add a b = (a + b + 2 ^ 63) mod 2 ^ 64 - 2 ^ 63"

fun of_i64 :: "json \<Rightarrow> int option" where
  "of_i64 (JNum n) = (if i64_ok n then Some n else None)"
| "of_i64 _ = None"

fun of_list :: "(json \<Rightarrow> 'a option) \<Rightarrow> json \<Rightarrow> 'a list option" where
  "of_list rd (JArr xs) = those (map rd xs)"
| "of_list rd _ = None"

definition status_to_json :: "Status \<Rightarrow> (string \<times> json) list" where
  "status_to_json s =
     (case s of
        Pending \<Rightarrow> [(''status'', JStr ''pending'')]
      | InProgress by \<Rightarrow> [(''status'', JStr ''in_progress''), (''by'', JStr by)]
      | Completed by \<Rightarrow> [(''status'', JStr ''completed''), (''by'', to_option JStr by)]
      | Cancelled by \<Rightarrow> [(''status'', JStr ''cancelled''), (''by'', to_option JStr by)])"

definition status_of_json :: "(string \<times> json) list \<Rightarrow> Status option" where
  "status_of_json kvs = do {
     tag \<leftarrow> read_field of_str None kvs ''status'';
     if tag = ''pending'' then Some Pending
     else if tag = ''in_progress'' then map_option InProgress (read_field of_str None kvs ''by'')
     else if tag = ''completed'' then map_option Completed (read_field (of_option of_str) (Some None) kvs ''by'')
     else if tag = ''cancelled'' then map_option Cancelled (read_field (of_option of_str) (Some None) kvs ''by'')
     else None
   }"

definition ticket_to_json :: "TicketRef \<Rightarrow> json" where
  "ticket_to_json t = JObj
     [(''tracker'', JStr (tk_tracker t)), (''key'', JStr (tk_key t)),
      (''synced_status'', to_option JStr (tk_synced_status t))]"

definition ticket_of_json :: "json \<Rightarrow> TicketRef option" where
  "ticket_of_json j = do {
      kvs \<leftarrow> struct_rows [(''tracker'', False), (''key'', False), (''synced_status'', True)] j;
      tr \<leftarrow> read_field of_str None kvs ''tracker'';
      key \<leftarrow> read_field of_str None kvs ''key'';
      synced \<leftarrow> read_field (of_option of_str) (Some None) kvs ''synced_status'';
      Some \<lparr>tk_tracker = tr, tk_key = key, tk_synced_status = synced\<rparr>
    }"

definition todo_to_json :: "Todo \<Rightarrow> json" where
  "todo_to_json t = JObj
     ([(''id'', JStr (td_id t)), (''description'', JStr (td_description t))]
      @ status_to_json (td_status t)
      @ [(''parent'', to_option JStr (td_parent t)), (''order'', to_option JNum (td_order t)),
         (''project'', to_option JStr (td_project t)), (''entry'', to_option JStr (td_entry t)),
         (''modified'', to_option JStr (td_modified t)), (''blocked_by'', JArr (map JStr (td_blocked_by t)))]
      @ (case td_ticket t of Some tk \<Rightarrow> [(''ticket'', ticket_to_json tk)] | None \<Rightarrow> []))"

definition todo_of_json :: "json \<Rightarrow> Todo option" where
  "todo_of_json j =
     (case j of
        JObj kvs \<Rightarrow> do {
          i \<leftarrow> read_field of_str None kvs ''id'';
          description \<leftarrow> read_field of_str None kvs ''description'';
          status \<leftarrow> status_of_json kvs;
          parent \<leftarrow> read_field (of_option of_str) (Some None) kvs ''parent'';
          order \<leftarrow> read_field (of_option of_i64) (Some None) kvs ''order'';
          project \<leftarrow> read_field (of_option of_str) (Some None) kvs ''project'';
          entry \<leftarrow> read_field (of_option of_str) (Some None) kvs ''entry'';
          modified \<leftarrow> read_field (of_option of_str) (Some None) kvs ''modified'';
          blocked_by \<leftarrow> read_field (of_list of_str) (Some []) kvs ''blocked_by'';
          ticket \<leftarrow> read_field (of_option ticket_of_json) (Some None) kvs ''ticket'';
          Some \<lparr>td_id = i, td_description = description, td_status = status, td_parent = parent,
            td_order = order, td_project = project, td_entry = entry, td_modified = modified,
            td_blocked_by = blocked_by, td_ticket = ticket\<rparr>
        }
      | _ \<Rightarrow> None)"

definition todo_doc_to_json :: "TodoDoc \<Rightarrow> json" where
  "todo_doc_to_json d = JObj
     [(''version'', to_uint (bd_version d)), (''next_id'', to_uint (bd_next_id d)),
      (''todos'', to_map show_uint todo_to_json (bd_todos d))]"

definition todo_doc_of_json :: "json \<Rightarrow> TodoDoc option" where
  "todo_doc_of_json j = do {
      kvs \<leftarrow> struct_rows [(''version'', True), (''next_id'', True), (''todos'', True)] j;
      version \<leftarrow> read_field of_uint (Some 0) kvs ''version'';
      next_id \<leftarrow> read_field of_uint (Some 0) kvs ''next_id'';
      todos \<leftarrow> read_field (of_map json_key_uint todo_of_json) (Some []) kvs ''todos'';
      Some \<lparr>bd_version = version, bd_next_id = next_id, bd_todos = todos\<rparr>
    }"

definition todo_document :: "TodoDoc document" where
  "todo_document =
     \<lparr>doc_default = \<lparr>bd_version = 0, bd_next_id = 0, bd_todos = []\<rparr>,
      doc_stamp = (\<lambda>d. d\<lparr>bd_version := todo_doc_version\<rparr>),
      doc_salvage = (\<lambda>_. None),
      doc_of_json = todo_doc_of_json, doc_to_json = todo_doc_to_json\<rparr>"

text \<open>What every document read from a file has: rows in key order, orders that are \<open>i64\<close>.\<close>

definition todo_doc_ok :: "TodoDoc \<Rightarrow> bool" where
  "todo_doc_ok d \<longleftrightarrow>
     bt_wf (bd_todos d) \<and> (\<forall>row\<in>set (bd_todos d). case td_order (snd row) of Some n \<Rightarrow> i64_ok n | None \<Rightarrow> True)"

section \<open>The operations\<close>

datatype todo_fault = NoTodo string | Refused claimed | NoTicket string

definition after_last :: "TodoDoc \<Rightarrow> string option \<Rightarrow> string option \<Rightarrow> string option \<Rightarrow> int" where
  "after_last d project parent skip =
     (let siblings = filter (\<lambda>t. td_project t = project \<and> td_parent t = parent \<and> Some (td_id t) \<noteq> skip)
            (bt_values (bd_todos d));
          orders = List.map_filter td_order siblings
      in i64_add (if orders = [] then 0 else Max (set orders)) order_gap)"

definition todo_at :: "TodoDoc \<Rightarrow> string \<Rightarrow> todo_fault + u64 \<times> Todo" where
  "todo_at d i =
     (case parse_uint i of
        Some key \<Rightarrow> (case bt_get (bd_todos d) key of Some t \<Rightarrow> Inr (key, t) | None \<Rightarrow> Inl (NoTodo i))
      | None \<Rightarrow> Inl (NoTodo i))"

definition put :: "u64 \<Rightarrow> Todo \<Rightarrow> TodoDoc \<Rightarrow> TodoDoc" where
  "put key t d = d\<lparr>bd_todos := bt_insert key t (bd_todos d)\<rparr>"

definition set_blockers :: "string \<Rightarrow> TodoDoc \<Rightarrow> string \<Rightarrow> string list \<Rightarrow> bool \<Rightarrow> todo_fault + TodoDoc" where
  "set_blockers stamp d i by add =
     (case todo_at d i of
        Inl e \<Rightarrow> Inl e
      | Inr (key, t) \<Rightarrow>
          (let old = td_blocked_by t;
               after = remdups_adj (sort (if add then old @ by else filter (\<lambda>b. b \<notin> set by) old));
               t' = t\<lparr>td_blocked_by := after\<rparr>
           in Inr (put key (if after \<noteq> old then t'\<lparr>td_modified := Some stamp\<rparr> else t') d)))"

definition move_to :: "int \<Rightarrow> string \<Rightarrow> Todo \<Rightarrow> Status option \<Rightarrow> StatusChange list \<times> Todo" where
  "move_to at stamp t new =
     (case new of
        None \<Rightarrow> ([], t)
      | Some s \<Rightarrow> ([change_of at t (Some s)], t\<lparr>td_status := s, td_modified := Some stamp\<rparr>))"

definition builtin_add :: "string \<Rightarrow> NewTodo \<Rightarrow> TodoDoc \<Rightarrow> todo_fault + string \<times> TodoDoc" where
  "builtin_add stamp new d =
     (case (case nt_ticket new of
              Some tk \<Rightarrow> find (\<lambda>t. case td_ticket t of Some r \<Rightarrow> same_ticket r tk | None \<Rightarrow> False) (bt_values (bd_todos d))
            | None \<Rightarrow> None) of
        Some existing \<Rightarrow> Inr (td_id existing, d)
      | None \<Rightarrow>
          (case (case nt_parent new of Some p \<Rightarrow> map_sum id (\<lambda>_. ()) (todo_at d p) | None \<Rightarrow> Inr ()) of
             Inl e \<Rightarrow> Inl e
           | Inr _ \<Rightarrow>
               (let order = (case nt_order new of Some n \<Rightarrow> n | None \<Rightarrow> after_last d (nt_project new) (nt_parent new) None);
                    key = max (bd_next_id d) 1;
                    i = show_uint key;
                    t = \<lparr>td_id = i, td_description = one_line (nt_description new), td_status = Pending,
                         td_parent = nt_parent new, td_order = Some order, td_project = nt_project new,
                         td_entry = Some stamp, td_modified = Some stamp, td_blocked_by = [],
                         td_ticket = nt_ticket new\<rparr>
                in Inr (i, put key t (d\<lparr>bd_next_id := key + 1\<rparr>)))))"

definition set_todo_status :: "int \<Rightarrow> string \<Rightarrow> TodoDoc \<Rightarrow> string \<Rightarrow> (Status \<Rightarrow> claimed + Status option) \<Rightarrow>
    todo_fault + StatusChange list \<times> TodoDoc" where
  "set_todo_status at stamp d i rule =
     (case todo_at d i of
        Inl e \<Rightarrow> Inl e
      | Inr (key, t) \<Rightarrow>
          (case rule (td_status t) of
             Inl c \<Rightarrow> Inl (Refused c)
           | Inr new \<Rightarrow> (case move_to at stamp t new of (changes, t') \<Rightarrow> Inr (changes, put key t' d))))"

definition edit_todo :: "TodoDoc \<Rightarrow> string \<Rightarrow> (Todo \<Rightarrow> Todo) \<Rightarrow> todo_fault + StatusChange list \<times> TodoDoc" where
  "edit_todo d i f =
     (case todo_at d i of Inl e \<Rightarrow> Inl e | Inr (key, t) \<Rightarrow> Inr ([], put key (f t) d))"

definition move_todo :: "string \<Rightarrow> TodoDoc \<Rightarrow> string \<Rightarrow> string option \<Rightarrow> int option \<Rightarrow>
    todo_fault + StatusChange list \<times> TodoDoc" where
  "move_todo stamp d i parent order =
     (case (case parent of Some p \<Rightarrow> map_sum id (\<lambda>_. ()) (todo_at d p) | None \<Rightarrow> Inr ()) of
        Inl e \<Rightarrow> Inl e
      | Inr _ \<Rightarrow>
          (case todo_at d i of
             Inl e \<Rightarrow> Inl e
           | Inr (_, t) \<Rightarrow>
               (let n = (case order of Some n \<Rightarrow> n | None \<Rightarrow> after_last d (td_project t) parent (Some i))
                in edit_todo d i (\<lambda>t. t\<lparr>td_parent := parent, td_order := Some n, td_modified := Some stamp\<rparr>))))"

text \<open>The todos a release gives back, in key order.\<close>

definition released_by :: "Holder \<Rightarrow> Todo \<Rightarrow> bool" where
  "released_by holder t = (case td_status t of InProgress by \<Rightarrow> covers holder by | _ \<Rightarrow> False)"

definition release_held :: "int \<Rightarrow> string \<Rightarrow> TodoDoc \<Rightarrow> Holder \<Rightarrow> StatusChange list \<times> TodoDoc" where
  "release_held at stamp d holder =
     (if is_human holder then ([], d)
      else (map (\<lambda>t. change_of at t (Some Pending)) (filter (released_by holder) (bt_values (bd_todos d))),
            d\<lparr>bd_todos := bt_map_values
              (\<lambda>t. if released_by holder t then t\<lparr>td_status := Pending, td_modified := Some stamp\<rparr> else t) (bd_todos d)\<rparr>))"

fun remove_keys :: "int \<Rightarrow> u64 list \<Rightarrow> StatusChange list \<Rightarrow> TodoDoc \<Rightarrow> StatusChange list \<times> TodoDoc" where
  "remove_keys at [] changes d = (changes, d)"
| "remove_keys at (key # keys) changes d =
     (case bt_get (bd_todos d) key of
        Some t \<Rightarrow> remove_keys at keys (changes @ [change_of at t None]) (d\<lparr>bd_todos := bt_remove key (bd_todos d)\<rparr>)
      | None \<Rightarrow> remove_keys at keys changes d)"

definition builtin_apply :: "int \<Rightarrow> string \<Rightarrow> Edit \<Rightarrow> TodoDoc \<Rightarrow> todo_fault + StatusChange list \<times> TodoDoc" where
  "builtin_apply at stamp edit d =
     (case edit of
        SetStatus i to actor \<Rightarrow> set_todo_status at stamp d i (\<lambda>s. transition s to actor)
      | TakeOver i from actor \<Rightarrow> set_todo_status at stamp d i (\<lambda>s. take_over s from actor)
      | Describe i s \<Rightarrow> edit_todo d i (\<lambda>t. t\<lparr>td_description := one_line s, td_modified := Some stamp\<rparr>)
      | Move i parent order \<Rightarrow> move_todo stamp d i parent order
      | Relocate i project \<Rightarrow> edit_todo d i (\<lambda>t. t\<lparr>td_project := project, td_modified := Some stamp\<rparr>)
      | Reorder i order \<Rightarrow> edit_todo d i (\<lambda>t. t\<lparr>td_order := Some order, td_modified := Some stamp\<rparr>)
      | ReleaseAllOf holder \<Rightarrow> Inr (release_held at stamp d holder)
      | Purge i \<Rightarrow>
          (case todo_at d i of
             Inl e \<Rightarrow> Inl e
           | Inr (key, t) \<Rightarrow> Inr ([change_of at t None], d\<lparr>bd_todos := bt_remove key (bd_todos d)\<rparr>))
      | PruneIds ids \<Rightarrow> Inr (remove_keys at (List.map_filter parse_uint (removable (bt_values (bd_todos d)) ids)) [] d)
      | Block i by \<Rightarrow> map_sum id (Pair []) (set_blockers stamp d i by True)
      | Unblock i by \<Rightarrow> map_sum id (Pair []) (set_blockers stamp d i by False)
      | RecordSync i synced \<Rightarrow>
          (case todo_at d i of
             Inl e \<Rightarrow> Inl e
           | Inr (key, t) \<Rightarrow>
               (case td_ticket t of
                  None \<Rightarrow> Inl (NoTicket i)
                | Some tk \<Rightarrow>
                    Inr ([], put key (t\<lparr>td_ticket := Some (tk\<lparr>tk_synced_status := Some synced\<rparr>), td_modified := Some stamp\<rparr>) d))))"

section \<open>The store over its file\<close>

definition store_list :: "io \<Rightarrow> ('t \<Rightarrow> string \<Rightarrow> (string \<rightharpoonup> string) option) \<Rightarrow> 't NodeMatch list \<Rightarrow> doc_fs \<Rightarrow>
    (todo_fault store_error + Todo list) \<times> doc_fs" where
  "store_list io read nodes fs =
     with_lock_strict todo_document io
       (\<lambda>d. Inr (filter (\<lambda>t. node_matches read nodes (td_project t)) (bt_values (bd_todos d)), d)) fs"

definition store_get :: "io \<Rightarrow> string \<Rightarrow> doc_fs \<Rightarrow> (todo_fault store_error + Todo option) \<times> doc_fs" where
  "store_get io i fs =
     (case parse_uint i of
        None \<Rightarrow> (Inr None, fs)
      | Some key \<Rightarrow> with_lock_strict todo_document io (\<lambda>d. Inr (bt_get (bd_todos d) key, d)) fs)"

definition store_add :: "io \<Rightarrow> string \<Rightarrow> NewTodo \<Rightarrow> doc_fs \<Rightarrow> (todo_fault store_error + string) \<times> doc_fs" where
  "store_add io stamp new fs = with_lock_strict todo_document io (builtin_add stamp new) fs"

definition store_apply :: "io \<Rightarrow> int \<Rightarrow> string \<Rightarrow> Edit \<Rightarrow> doc_fs \<Rightarrow>
    (todo_fault store_error + StatusChange list) \<times> doc_fs" where
  "store_apply io at stamp edit fs = with_lock_strict todo_document io (builtin_apply at stamp edit) fs"

end
