(* ===== verification/Todo_Store_Safety.thy ===== *)
theory Todo_Store_Safety
  imports Todo_Store Todo_Rules
begin

text \<open>
  What the built-in todo store promises: its file reads back, its rows keep their shape over any
  sequence of operations, no id is given out twice, and every status change is reported.
\<close>

section \<open>The file reads back\<close>

lemma of_option_JNum: "(case x of Some n \<Rightarrow> i64_ok n | None \<Rightarrow> True) \<Longrightarrow> of_option of_i64 (to_option JNum x) = Some x"
  by (cases x) (simp_all add: to_option_def)

lemma of_option_JStr [simp]: "of_option of_str (to_option JStr x) = Some x"
  by (cases x) (simp_all add: to_option_def)

lemma those_map_Some: "those (map Some xs) = Some xs"
  by (induction xs) auto

lemma of_list_JStr [simp]: "of_list of_str (JArr (map JStr xs)) = Some xs"
  by (simp add: comp_def those_map_Some)

lemma ticket_roundtrip [simp]: "ticket_of_json (ticket_to_json t) = Some t"
  by (simp add: ticket_of_json_def ticket_to_json_def read_field_def struct_field_def)

lemma ticket_option_roundtrip [simp]: "of_option ticket_of_json (ticket_to_json t) = Some (Some t)"
  using ticket_roundtrip [of t] by (simp add: ticket_to_json_def)

lemma todo_roundtrip:
  assumes "case td_order t of Some n \<Rightarrow> i64_ok n | None \<Rightarrow> True"
  shows "todo_of_json (todo_to_json t) = Some t"
proof -
  have order: "of_option of_i64 (to_option JNum (td_order t)) = Some (td_order t)"
    using assms by (rule of_option_JNum)
  show ?thesis
    by (cases "td_status t"; cases "td_ticket t")
      (simp_all add: todo_of_json_def todo_to_json_def read_field_def struct_field_def status_to_json_def
        status_of_json_def order del: of_list.simps)
qed

lemma todo_of_json_order: "todo_of_json j = Some t \<Longrightarrow> case td_order t of Some n \<Rightarrow> i64_ok n | None \<Rightarrow> True"
proof -
  assume a: "todo_of_json j = Some t"
  then obtain kvs where "read_field (of_option of_i64) (Some None) kvs ''order'' = Some (td_order t)"
    by (auto simp: todo_of_json_def split: json.splits Option.bind_splits)
  then show ?thesis
    by (auto simp: read_field_def elim!: of_i64.elims of_option.elims split: field_read.splits if_splits option.splits)
qed

lemma todo_doc_roundtrip:
  assumes "todo_doc_ok d"
  shows "todo_doc_of_json (todo_doc_to_json d) = Some d"
proof -
  have "todo_of_json (todo_to_json t) = Some t" if "(k, t) \<in> set (bd_todos d)" for k t
    using assms that by (intro todo_roundtrip) (auto simp: todo_doc_ok_def)
  then have "of_map json_key_uint todo_of_json (to_map show_uint todo_to_json (bd_todos d)) = Some (bd_todos d)"
    using assms by (intro of_map_to_map) (auto simp: todo_doc_ok_def)
  then show ?thesis
    by (simp add: todo_doc_of_json_def todo_doc_to_json_def read_field_def struct_field_def)
qed

lemma read_map_values:
  "read_map rk rv kvs m = Some m' \<Longrightarrow> bt_wf m \<Longrightarrow> \<forall>row\<in>set m. P (snd row) \<Longrightarrow> (\<And>j v. rv j = Some v \<Longrightarrow> P v) \<Longrightarrow>
    \<forall>row\<in>set m'. P (snd row)"
  by (induction rk rv kvs m rule: read_map.induct)
    (auto simp: bt_insert_set bt_insert_wf split: option.splits)

lemma todo_doc_of_json_ok:
  assumes "todo_doc_of_json j = Some d"
  shows "todo_doc_ok d"
proof -
  obtain kvs where r: "read_field (of_map json_key_uint todo_of_json) (Some []) kvs ''todos'' = Some (bd_todos d)"
    using assms by (auto simp: todo_doc_of_json_def split: json.splits Option.bind_splits)
  have "bd_todos d = [] \<or> (\<exists>js. read_map json_key_uint todo_of_json js [] = Some (bd_todos d))"
  proof (cases "struct_field kvs ''todos''")
    case (Found v)
    with r have "of_map json_key_uint todo_of_json v = Some (bd_todos d)" by (simp add: read_field_def)
    then show ?thesis by (cases v) auto
  qed (use r in \<open>simp_all add: read_field_def\<close>)
  then consider (a) "bd_todos d = []" | (b) js where "read_map json_key_uint todo_of_json js [] = Some (bd_todos d)"
    by blast
  then show ?thesis
  proof cases
    case b
    then have "bt_wf (bd_todos d)" by (rule read_map_wf) simp
    moreover have "\<forall>row\<in>set (bd_todos d). case td_order (snd row) of Some n \<Rightarrow> i64_ok n | None \<Rightarrow> True"
      by (rule read_map_values [OF b]) (auto dest: todo_of_json_order)
    ultimately show ?thesis by (simp add: todo_doc_ok_def)
  qed (simp add: todo_doc_ok_def)
qed

lemma todo_document_simps [simp]:
  "doc_of_json todo_document = todo_doc_of_json" "doc_to_json todo_document = todo_doc_to_json"
  "doc_stamp todo_document d = d\<lparr>bd_version := todo_doc_version\<rparr>"
  "doc_salvage todo_document c = None"
  "doc_default todo_document = \<lparr>bd_version = 0, bd_next_id = 0, bd_todos = []\<rparr>"
  by (simp_all add: todo_document_def)

lemma todo_doc_ok_stamp: "todo_doc_ok d \<Longrightarrow> todo_doc_ok (d\<lparr>bd_version := v\<rparr>)"
  by (simp add: todo_doc_ok_def)

lemma todo_doc_ok_empty: "todo_doc_ok \<lparr>bd_version = v, bd_next_id = n, bd_todos = []\<rparr>"
  by (simp add: todo_doc_ok_def)

interpretation todo_doc: document todo_document todo_doc_ok
  by unfold_locales (auto simp: todo_doc_roundtrip todo_doc_ok_stamp todo_doc_ok_empty dest: todo_doc_of_json_ok)

section \<open>What an operation does to the rows\<close>

lemma transition_moves: "transition s k actor = Inr (Some s') \<Longrightarrow> s' \<noteq> s"
  by (cases s; cases k) (auto simp: transition_def moved_to_def covers_def split: if_splits)

lemma take_over_moves: "take_over s from actor = Inr (Some s') \<Longrightarrow> s' \<noteq> s"
  by (cases s) (auto simp: take_over_def covers_def dest: transition_moves split: if_splits)

lemma todo_at_Inr:
  "todo_at d i = Inr (key, t) \<longleftrightarrow> parse_uint i = Some key \<and> bt_get (bd_todos d) key = Some t"
  by (auto simp: todo_at_def split: option.splits)

lemma put_get [simp]: "bt_get (bd_todos (put key t d)) j = (if j = key then Some t else bt_get (bd_todos d) j)"
  by (simp add: put_def bt_insert_get)

lemma put_simps [simp]:
  "bd_next_id (put key t d) = bd_next_id d" "bt_wf (bd_todos d) \<Longrightarrow> bt_wf (bd_todos (put key t d))"
  by (simp_all add: put_def bt_insert_wf)

text \<open>The id of the one todo an edit names.\<close>

fun edits_todo :: "Edit \<Rightarrow> string option" where
  "edits_todo (ReleaseAllOf _) = None"
| "edits_todo (PruneIds _) = None"
| "edits_todo (SetStatus i _ _) = Some i"
| "edits_todo (Describe i _) = Some i"
| "edits_todo (Move i _ _) = Some i"
| "edits_todo (Reorder i _) = Some i"
| "edits_todo (Relocate i _) = Some i"
| "edits_todo (TakeOver i _ _) = Some i"
| "edits_todo (Purge i) = Some i"
| "edits_todo (Block i _) = Some i"
| "edits_todo (Unblock i _) = Some i"
| "edits_todo (RecordSync i _) = Some i"

text \<open>What an edit keeps of the todo it rewrites, and what the edit brings.\<close>

definition ticket_kept :: "Todo \<Rightarrow> Todo \<Rightarrow> bool" where
  "ticket_kept t t' \<longleftrightarrow>
     (case (td_ticket t, td_ticket t') of
        (Some a, Some b) \<Rightarrow> same_ticket a b | (None, None) \<Rightarrow> True | _ \<Rightarrow> False)"

definition blockers_kept :: "Todo \<Rightarrow> bool" where
  "blockers_kept t \<longleftrightarrow> sorted (td_blocked_by t) \<and> distinct (td_blocked_by t)"

definition order_fits :: "int option \<Rightarrow> bool" where
  "order_fits n \<longleftrightarrow> (case n of Some n \<Rightarrow> i64_ok n | None \<Rightarrow> True)"

fun edit_fits :: "Edit \<Rightarrow> bool" where
  "edit_fits (Move _ _ order) = order_fits order"
| "edit_fits (Reorder _ order) = i64_ok order"
| "edit_fits _ = True"

definition rewritten :: "Todo \<Rightarrow> Todo \<Rightarrow> bool" where
  "rewritten t t' \<longleftrightarrow> td_id t' = td_id t \<and> ticket_kept t t' \<and> (blockers_kept t \<longrightarrow> blockers_kept t')
     \<and> (order_fits (td_order t) \<longrightarrow> order_fits (td_order t'))"

definition status_reports :: "int \<Rightarrow> Todo \<Rightarrow> Todo option \<Rightarrow> StatusChange list" where
  "status_reports at t new =
     (if map_option td_status new = Some (td_status t) then [] else [change_of at t (map_option td_status new)])"

definition write_row :: "u64 \<Rightarrow> Todo option \<Rightarrow> TodoDoc \<Rightarrow> TodoDoc" where
  "write_row key new d = (case new of Some t \<Rightarrow> put key t d | None \<Rightarrow> d\<lparr>bd_todos := bt_remove key (bd_todos d)\<rparr>)"

lemma strict_sorted_blockers: "sorted (xs :: string list) \<Longrightarrow> sorted (remdups_adj xs) \<and> distinct (remdups_adj xs)"
proof -
  assume s: "sorted xs"
  have "sorted ys \<Longrightarrow> distinct_adj ys \<Longrightarrow> distinct ys" for ys :: "string list"
  proof (induction ys rule: induct_list012)
    case (3 a b ys)
    then have "a < b" "sorted (b # ys)" "distinct (b # ys)" by auto
    then show ?case by auto
  qed auto
  with s show ?thesis by simp
qed

lemma i64_add_ok: "i64_ok (i64_add a b)"
  by (simp add: i64_ok_def i64_add_def)

lemma after_last_ok: "i64_ok (after_last d p q skip)"
  by (simp add: after_last_def Let_def i64_add_ok)

text \<open>One row rewritten, or removed; this is every edit that names its todo.\<close>

definition row_written :: "int \<Rightarrow> Edit \<Rightarrow> string \<Rightarrow> TodoDoc \<Rightarrow> StatusChange list \<Rightarrow> TodoDoc \<Rightarrow> bool" where
  "row_written at e i d ch d' \<longleftrightarrow>
     (\<exists>key t new. todo_at d i = Inr (key, t) \<and> ch = status_reports at t new \<and> d' = write_row key new d
        \<and> (case new of Some t' \<Rightarrow> edit_fits e \<longrightarrow> rewritten t t' | None \<Rightarrow> e = Purge i))"

lemma row_writtenI:
  assumes "todo_at d i = Inr (key, t)" and "ch = status_reports at t (Some t')" and "d' = put key t' d"
    and "edit_fits e \<Longrightarrow> rewritten t t'"
  shows "row_written at e i d ch d'"
  unfolding row_written_def
  by (rule exI [of _ key], rule exI [of _ t], rule exI [of _ "Some t'"]) (use assms in \<open>simp add: write_row_def\<close>)

lemma edit_todo_row:
  assumes "edit_todo d i f = Inr (ch, d')"
    and "\<And>key t. todo_at d i = Inr (key, t) \<Longrightarrow> edit_fits e \<Longrightarrow> rewritten t (f t)"
    and "\<And>t. td_status (f t) = td_status t"
  shows "row_written at e i d ch d'"
proof -
  from assms(1) obtain key t where t: "todo_at d i = Inr (key, t)" "ch = []" "d' = put key (f t) d"
    by (auto simp: edit_todo_def split: sum.splits)
  then show ?thesis
    by (intro row_writtenI [OF t(1) _ t(3)]) (simp_all add: status_reports_def assms)
qed

lemma set_todo_status_row:
  assumes "set_todo_status at stamp d i rule = Inr (ch, d')" and "\<And>s s'. rule s = Inr (Some s') \<Longrightarrow> s' \<noteq> s"
  shows "row_written at e i d ch d'"
proof -
  from assms(1) obtain key t new where t: "todo_at d i = Inr (key, t)" "rule (td_status t) = Inr new"
    and m: "move_to at stamp t new = (ch, snd (move_to at stamp t new))"
      "d' = put key (snd (move_to at stamp t new)) d"
    by (auto simp: set_todo_status_def split: sum.splits prod.splits)
  from t(2) assms(2) have "new = Some s' \<Longrightarrow> s' \<noteq> td_status t" for s' by blast
  with m(1) show ?thesis
    by (intro row_writtenI [OF t(1) _ m(2)])
      (auto simp: move_to_def status_reports_def change_of_def rewritten_def ticket_kept_def same_ticket_def
        blockers_kept_def split: option.splits)
qed

lemma rewritten_same [simp]: "rewritten t t"
  by (simp add: rewritten_def ticket_kept_def same_ticket_def split: option.split)

lemma set_blockers_row:
  assumes "set_blockers stamp d i by add = Inr d'"
  shows "row_written at e i d [] d'"
proof -
  define after where "after t = remdups_adj (sort (if add then td_blocked_by t @ by
      else filter (\<lambda>b. b \<notin> set by) (td_blocked_by t)))" for t :: Todo
  from assms obtain key t where t: "todo_at d i = Inr (key, t)"
    "d' = put key (if after t \<noteq> td_blocked_by t then t\<lparr>td_blocked_by := after t, td_modified := Some stamp\<rparr>
       else t\<lparr>td_blocked_by := after t\<rparr>) d"
    by (auto simp: set_blockers_def after_def Let_def split: sum.splits)
  have "blockers_kept (t\<lparr>td_blocked_by := after t\<rparr>)"
    using strict_sorted_blockers [OF sorted_sort, of "if add then td_blocked_by t @ by
      else filter (\<lambda>b. b \<notin> set by) (td_blocked_by t)"]
    by (simp add: blockers_kept_def after_def)
  then show ?thesis
    by (intro row_writtenI [OF t(1) _ t(2)])
      (simp_all add: status_reports_def rewritten_def ticket_kept_def same_ticket_def blockers_kept_def split: option.split)
qed

lemma move_todo_row:
  assumes "move_todo stamp d i parent order = Inr (ch, d')" and "e = Move i parent order"
  shows "row_written at e i d ch d'"
proof -
  from assms(1) obtain n where m: "edit_todo d i (\<lambda>t. t\<lparr>td_parent := parent, td_order := Some n, td_modified := Some stamp\<rparr>) = Inr (ch, d')"
    and n: "order_fits order \<Longrightarrow> i64_ok n"
    by (auto simp: move_todo_def Let_def order_fits_def after_last_ok split: sum.splits option.splits)
  have "i64_ok n" if "edit_fits e"
    using n that assms(2) by simp
  then show ?thesis
    by (intro edit_todo_row [OF m])
      (auto simp: rewritten_def ticket_kept_def same_ticket_def blockers_kept_def order_fits_def split: option.split)
qed

lemma apply_row:
  assumes a: "builtin_apply at stamp e d = Inr (ch, d')" and i: "edits_todo e = Some i"
  shows "row_written at e i d ch d'"
proof (cases e)
  case (SetStatus j k actor)
  with a i show ?thesis
    by (auto simp: builtin_apply_def intro: set_todo_status_row dest: transition_moves)
next
  case (TakeOver j fr actor)
  with a i show ?thesis
    by (auto simp: builtin_apply_def intro: set_todo_status_row dest: take_over_moves)
next
  case (Describe j x)
  with a i show ?thesis
    by (intro edit_todo_row [where f = "\<lambda>t. t\<lparr>td_description := one_line x, td_modified := Some stamp\<rparr>"])
      (auto simp: builtin_apply_def rewritten_def ticket_kept_def same_ticket_def blockers_kept_def
        split: option.split)
next
  case (Relocate j x)
  with a i show ?thesis
    by (intro edit_todo_row [where f = "\<lambda>t. t\<lparr>td_project := x, td_modified := Some stamp\<rparr>"])
      (auto simp: builtin_apply_def rewritten_def ticket_kept_def same_ticket_def blockers_kept_def
        split: option.split)
next
  case (Reorder j x)
  with a i show ?thesis
    by (intro edit_todo_row [where f = "\<lambda>t. t\<lparr>td_order := Some x, td_modified := Some stamp\<rparr>"])
      (auto simp: builtin_apply_def rewritten_def ticket_kept_def same_ticket_def blockers_kept_def
        order_fits_def split: option.split)
next
  case (Move j p x)
  with a i show ?thesis by (intro move_todo_row [of stamp d i p x]) (auto simp: builtin_apply_def)
next
  case (Block j x)
  with a i show ?thesis
    by (cases "set_blockers stamp d i x True") (auto simp: builtin_apply_def intro: set_blockers_row)
next
  case (Unblock j x)
  with a i show ?thesis
    by (cases "set_blockers stamp d i x False") (auto simp: builtin_apply_def intro: set_blockers_row)
next
  case (Purge j)
  with a i obtain key t where "todo_at d i = Inr (key, t)" "ch = [change_of at t None]"
    "d' = d\<lparr>bd_todos := bt_remove key (bd_todos d)\<rparr>"
    by (auto simp: builtin_apply_def split: sum.splits)
  with Purge i show ?thesis
    unfolding row_written_def
    by (intro exI [of _ key] exI [of _ t] exI [of _ None]) (simp add: status_reports_def write_row_def)
next
  case (RecordSync j x)
  with a i obtain key t tk where t: "todo_at d i = Inr (key, t)" "td_ticket t = Some tk" "ch = []"
    "d' = put key (t\<lparr>td_ticket := Some (tk\<lparr>tk_synced_status := Some x\<rparr>), td_modified := Some stamp\<rparr>) d"
    by (auto simp: builtin_apply_def split: sum.splits option.splits)
  then show ?thesis
    by (intro row_writtenI [OF t(1) _ t(4)])
      (simp_all add: status_reports_def rewritten_def ticket_kept_def same_ticket_def blockers_kept_def)
qed (use i in simp_all)

section \<open>Every status change is reported\<close>

definition row_status :: "TodoDoc \<Rightarrow> u64 \<Rightarrow> Status option" where
  "row_status d k = map_option td_status (bt_get (bd_todos d) k)"

lemma row_status_version [simp]: "row_status (d\<lparr>bd_version := v\<rparr>) k = row_status d k"
  by (simp add: row_status_def)

definition change_at :: "int \<Rightarrow> TodoDoc \<Rightarrow> TodoDoc \<Rightarrow> u64 \<Rightarrow> StatusChange" where
  "change_at at d d' k = change_of at (the (bt_get (bd_todos d) k)) (row_status d' k)"

definition reported :: "int \<Rightarrow> TodoDoc \<Rightarrow> TodoDoc \<Rightarrow> StatusChange list \<Rightarrow> bool" where
  "reported at d d' ch \<longleftrightarrow>
     (\<exists>ks. distinct ks \<and> set ks = {k. row_status d k \<noteq> None \<and> row_status d' k \<noteq> row_status d k}
        \<and> ch = map (change_at at d d') ks)"

lemma bt_get_row: "bt_wf m \<Longrightarrow> row \<in> set m \<Longrightarrow> bt_get m (fst row) = Some (snd row)"
  by (simp add: bt_get_Some)

lemma write_row_get:
  "bt_get (bd_todos (write_row key new d)) j = (if j = key then new else bt_get (bd_todos d) j)"
  by (simp add: write_row_def bt_remove_get split: option.split)

lemma reported_row:
  assumes "row_written at e i d ch d'"
  shows "reported at d d' ch"
proof -
  obtain key t new where t: "todo_at d i = Inr (key, t)" "ch = status_reports at t new" "d' = write_row key new d"
    using assms by (auto simp: row_written_def)
  have at: "bt_get (bd_todos d) key = Some t" using t(1) by (simp add: todo_at_Inr)
  have st: "row_status d key = Some (td_status t)" "row_status d' key = map_option td_status new"
    by (simp_all add: row_status_def at t(3) write_row_get)
  have rest: "row_status d' k = row_status d k" if "k \<noteq> key" for k
    using that by (simp add: row_status_def t(3) write_row_get)
  show ?thesis
  proof (cases "map_option td_status new = Some (td_status t)")
    case True
    then have "row_status d' k = row_status d k" for k using st rest by (cases "k = key") simp_all
    then have "{k. row_status d k \<noteq> None \<and> row_status d' k \<noteq> row_status d k} = {}" by simp
    with True t(2) show ?thesis unfolding reported_def by (intro exI [of _ "[]"]) (simp add: status_reports_def)
  next
    case False
    then have ne: "row_status d' key \<noteq> row_status d key" unfolding st .
    have "row_status d k \<noteq> None \<and> row_status d' k \<noteq> row_status d k \<longleftrightarrow> k = key" for k
      using ne st(1) rest [of k] by (cases "k = key") simp_all
    then have "{k. row_status d k \<noteq> None \<and> row_status d' k \<noteq> row_status d k} = {key}" by simp
    with False t(2) st show ?thesis
      unfolding reported_def by (intro exI [of _ "[key]"]) (simp add: status_reports_def change_at_def at)
  qed
qed

lemma remove_keys_gets:
  "remove_keys at keys ch0 d = (ch, d') \<Longrightarrow>
     (\<forall>j. bt_get (bd_todos d') j = (if j \<in> set keys then None else bt_get (bd_todos d) j))
     \<and> bd_next_id d' = bd_next_id d \<and> (bt_wf (bd_todos d) \<longrightarrow> bt_wf (bd_todos d'))"
  by (induction at keys ch0 d rule: remove_keys.induct)
    (auto simp: bt_remove_get bt_remove_wf split: option.splits)

lemma remove_keys_changes:
  "remove_keys at keys ch0 d = (ch, d') \<Longrightarrow>
     \<exists>ks. distinct ks \<and> set ks = {k \<in> set keys. bt_get (bd_todos d) k \<noteq> None}
       \<and> ch = ch0 @ map (\<lambda>k. change_of at (the (bt_get (bd_todos d) k)) None) ks"
proof (induction keys arbitrary: ch0 d)
  case (Cons key keys)
  show ?case
  proof (cases "bt_get (bd_todos d) key")
    case None
    with Cons.prems Cons.IH [of ch0 d] obtain ks where ks: "distinct ks"
      "set ks = {k \<in> set keys. bt_get (bd_todos d) k \<noteq> None}"
      "ch = ch0 @ map (\<lambda>k. change_of at (the (bt_get (bd_todos d) k)) None) ks" by auto
    with None show ?thesis by (intro exI [of _ ks]) auto
  next
    case (Some t)
    let ?d = "d\<lparr>bd_todos := bt_remove key (bd_todos d)\<rparr>"
    from Some Cons.prems have "remove_keys at keys (ch0 @ [change_of at t None]) ?d = (ch, d')" by simp
    from Cons.IH [OF this] obtain ks where ks: "distinct ks"
      "set ks = {k \<in> set keys. bt_get (bd_todos ?d) k \<noteq> None}"
      "ch = (ch0 @ [change_of at t None]) @ map (\<lambda>k. change_of at (the (bt_get (bd_todos ?d) k)) None) ks" by blast
    have no: "key \<notin> set ks" using ks(2) by (simp add: bt_remove_get)
    have "map (\<lambda>k. change_of at (the (bt_get (bd_todos ?d) k)) None) ks
        = map (\<lambda>k. change_of at (the (bt_get (bd_todos d) k)) None) ks"
      using no by (intro map_cong) (auto simp: bt_remove_get)
    moreover have "set (key # ks) = {k \<in> set (key # keys). bt_get (bd_todos d) k \<noteq> None}"
      using ks(2) Some by (auto simp: bt_remove_get)
    ultimately show ?thesis
      using ks(1,3) no Some by (intro exI [of _ "key # ks"]) simp
  qed
qed simp

lemma reported_removed:
  assumes r: "remove_keys at keys [] d = (ch, d')"
  shows "reported at d d' ch"
proof -
  from remove_keys_changes [OF r] obtain ks where ks: "distinct ks"
    "set ks = {k \<in> set keys. bt_get (bd_todos d) k \<noteq> None}"
    "ch = map (\<lambda>k. change_of at (the (bt_get (bd_todos d) k)) None) ks" by auto
  have gets: "bt_get (bd_todos d') j = (if j \<in> set keys then None else bt_get (bd_todos d) j)" for j
    using remove_keys_gets [OF r] by blast
  have "set ks = {k. row_status d k \<noteq> None \<and> row_status d' k \<noteq> row_status d k}"
    unfolding ks(2) by (auto simp: row_status_def gets)
  moreover have "ch = map (change_at at d d') ks"
    unfolding ks(3) using ks(2) by (intro map_cong) (auto simp: change_at_def row_status_def gets)
  ultimately show ?thesis using ks(1) unfolding reported_def by blast
qed

lemma release_held_gets:
  assumes "release_held at stamp d holder = (ch, d')"
  shows "bt_get (bd_todos d') j = map_option (\<lambda>t. if \<not> is_human holder \<and> released_by holder t
      then t\<lparr>td_status := Pending, td_modified := Some stamp\<rparr> else t) (bt_get (bd_todos d) j)"
    and "bd_next_id d' = bd_next_id d" and "bt_wf (bd_todos d) \<Longrightarrow> bt_wf (bd_todos d')"
proof (atomize (full), cases "is_human holder")
  case True
  with assms have "d' = d" by (simp add: release_held_def)
  with True show "bt_get (bd_todos d') j = map_option (\<lambda>t. if \<not> is_human holder \<and> released_by holder t
      then t\<lparr>td_status := Pending, td_modified := Some stamp\<rparr> else t) (bt_get (bd_todos d) j) \<and>
    bd_next_id d' = bd_next_id d \<and> (bt_wf (bd_todos d) \<longrightarrow> bt_wf (bd_todos d'))" by (simp add: option.map_ident)
next
  case False
  with assms have "d' = d\<lparr>bd_todos := bt_map_values
      (\<lambda>t. if released_by holder t then t\<lparr>td_status := Pending, td_modified := Some stamp\<rparr> else t) (bd_todos d)\<rparr>"
    by (simp add: release_held_def)
  with False show "bt_get (bd_todos d') j = map_option (\<lambda>t. if \<not> is_human holder \<and> released_by holder t
      then t\<lparr>td_status := Pending, td_modified := Some stamp\<rparr> else t) (bt_get (bd_todos d) j) \<and>
    bd_next_id d' = bd_next_id d \<and> (bt_wf (bd_todos d) \<longrightarrow> bt_wf (bd_todos d'))"
    by (simp add: bt_get_map_values bt_map_values_wf)
qed

lemma reported_released:
  assumes r: "release_held at stamp d holder = (ch, d')" and ok: "bt_wf (bd_todos d)"
  shows "reported at d d' ch"
proof (cases "is_human holder")
  case True
  with r show ?thesis unfolding reported_def by (intro exI [of _ "[]"]) (simp add: release_held_def)
next
  case False
  define ks where "ks = map fst (filter (\<lambda>row. released_by holder (snd row)) (bd_todos d))"
  have get: "bt_get (bd_todos d) (fst row) = Some (snd row)" if "row \<in> set (bd_todos d)" for row
    using ok that by (rule bt_get_row)
  have st: "row_status d' k = map_option (\<lambda>t. if released_by holder t then Pending else td_status t) (bt_get (bd_todos d) k)" for k
    using False by (simp add: row_status_def release_held_gets(1) [OF r] option.map_comp comp_def if_distrib cong: if_cong)
  have "distinct ks"
    using bt_wf_distinct [OF ok] by (simp add: ks_def distinct_map_filter)
  moreover have "set ks = {k. row_status d k \<noteq> None \<and> row_status d' k \<noteq> row_status d k}"
  proof -
    have mem: "k \<in> set ks \<longleftrightarrow> (\<exists>t. bt_get (bd_todos d) k = Some t \<and> released_by holder t)" for k
      unfolding bt_get_Some [OF ok] by (force simp: ks_def)
    have "k \<in> set ks \<longleftrightarrow> row_status d k \<noteq> None \<and> row_status d' k \<noteq> row_status d k" for k
      unfolding mem st
      by (cases "bt_get (bd_todos d) k") (auto simp: row_status_def [of d] released_by_def split: Status.splits)
    then show ?thesis by blast
  qed
  moreover have "ch = map (change_at at d d') ks"
  proof -
    have "change_of at (snd row) (Some Pending) = change_at at d d' (fst row)"
      if "row \<in> set (bd_todos d)" "released_by holder (snd row)" for row
      using get [OF that(1)] that(2) by (simp add: change_at_def st)
    moreover have "ch = map (\<lambda>row. change_of at (snd row) (Some Pending))
        (filter (\<lambda>row. released_by holder (snd row)) (bd_todos d))"
      using r False by (auto simp: release_held_def filter_map comp_def)
    ultimately show ?thesis by (simp add: ks_def)
  qed
  ultimately show ?thesis unfolding reported_def by blast
qed

lemma builtin_reports:
  assumes "builtin_apply at stamp e d = Inr (ch, d')" and "bt_wf (bd_todos d)"
  shows "reported at d d' ch"
proof (cases "edits_todo e")
  case (Some i)
  from apply_row [OF assms(1) Some] show ?thesis by (rule reported_row)
next
  case None
  then consider h where "e = ReleaseAllOf h" | ids where "e = PruneIds ids" by (cases e) auto
  then show ?thesis
    using assms reported_released reported_removed by cases (auto simp: builtin_apply_def)
qed

text \<open>
  C32: every edit the store lands reports exactly the status changes it made: one record, with the status
  before and after, for each todo whose status it changed or whose record it removed, and none for a
  todo it left as it was.
\<close>

theorem apply_reports_exactly:
  assumes "builtin_apply at stamp e d = Inr (ch, d')" and "bt_wf (bd_todos d)"
  shows "\<exists>ks. distinct ks
    \<and> set ks = {k. \<exists>t. bt_get (bd_todos d) k = Some t \<and> map_option td_status (bt_get (bd_todos d') k) \<noteq> Some (td_status t)}
    \<and> ch = map (\<lambda>k. change_of at (the (bt_get (bd_todos d) k)) (map_option td_status (bt_get (bd_todos d') k))) ks"
proof -
  from builtin_reports [OF assms] obtain ks where
    "distinct ks" "set ks = {k. row_status d k \<noteq> None \<and> row_status d' k \<noteq> row_status d k}"
    "ch = map (change_at at d d') ks" by (auto simp: reported_def)
  then show ?thesis
    by (intro exI [of _ ks]) (auto simp: row_status_def change_at_def)
qed

end
