(* ===== verification/Todo_Store_Ids.thy ===== *)
theory Todo_Store_Ids
  imports Todo_Store_Safety
begin

text \<open>
  The built-in todo store over time: what its file holds after any sequence of operations under any
  faults, that an id is never given to a second todo, and where a new todo lands.
\<close>

section \<open>The invariant of the document\<close>

definition ticket_at :: "TodoDoc \<Rightarrow> u64 \<Rightarrow> (string \<times> string) option" where
  "ticket_at d k = map_option (\<lambda>r. (tk_tracker r, tk_key r)) (Option.bind (bt_get (bd_todos d) k) td_ticket)"

definition row_ok :: "TodoDoc \<Rightarrow> u64 \<Rightarrow> Todo \<Rightarrow> bool" where
  "row_ok d k t \<longleftrightarrow> td_id t = show_uint k \<and> 1 \<le> k \<and> k < bd_next_id d \<and> blockers_kept t \<and> order_fits (td_order t)"

definition builtin_ok :: "TodoDoc \<Rightarrow> bool" where
  "builtin_ok d \<longleftrightarrow> bt_wf (bd_todos d)
     \<and> (\<forall>k t. bt_get (bd_todos d) k = Some t \<longrightarrow> row_ok d k t)
     \<and> (\<forall>k j x. ticket_at d k = Some x \<longrightarrow> ticket_at d j = Some x \<longrightarrow> k = j)"

lemma builtin_ok_row: "builtin_ok d \<Longrightarrow> bt_get (bd_todos d) k = Some t \<Longrightarrow> row_ok d k t"
  by (simp add: builtin_ok_def)

lemma builtin_ok_empty: "bd_todos d = [] \<Longrightarrow> builtin_ok d"
  by (simp add: builtin_ok_def ticket_at_def bt_get_def)

lemma builtin_ok_version [simp]: "builtin_ok (d\<lparr>bd_version := v\<rparr>) = builtin_ok d"
  by (simp add: builtin_ok_def row_ok_def ticket_at_def)

lemma builtin_ok_doc: "builtin_ok d \<Longrightarrow> todo_doc_ok d"
  by (force simp: builtin_ok_def todo_doc_ok_def row_ok_def order_fits_def bt_get_Some)

text \<open>An edit leaves each row rewritten, as it was, or gone.\<close>

definition shrunk :: "TodoDoc \<Rightarrow> TodoDoc \<Rightarrow> bool" where
  "shrunk d d' \<longleftrightarrow> bd_next_id d' = bd_next_id d \<and> bt_wf (bd_todos d')
     \<and> (\<forall>k t'. bt_get (bd_todos d') k = Some t' \<longrightarrow> (\<exists>t. bt_get (bd_todos d) k = Some t \<and> rewritten t t'))"

lemma ticket_kept_key:
  "ticket_kept t t' \<Longrightarrow> map_option (\<lambda>r. (tk_tracker r, tk_key r)) (td_ticket t') = map_option (\<lambda>r. (tk_tracker r, tk_key r)) (td_ticket t)"
  by (auto simp: ticket_kept_def same_ticket_def split: option.splits)

lemma shrunk_ok:
  assumes ok: "builtin_ok d" and s: "shrunk d d'"
  shows "builtin_ok d'"
proof -
  have old: "\<exists>t. bt_get (bd_todos d) k = Some t \<and> rewritten t t'" if "bt_get (bd_todos d') k = Some t'" for k t'
    using s that by (simp add: shrunk_def)
  have "row_ok d' k t'" if k: "bt_get (bd_todos d') k = Some t'" for k t'
  proof -
    from old [OF k] obtain t where t: "bt_get (bd_todos d) k = Some t" "rewritten t t'" by blast
    from builtin_ok_row [OF ok t(1)] t(2) s show ?thesis by (simp add: row_ok_def rewritten_def shrunk_def)
  qed
  moreover have tick: "ticket_at d k = Some x" if x: "ticket_at d' k = Some x" for k x
  proof -
    from x obtain t' where t': "bt_get (bd_todos d') k = Some t'"
      by (cases "bt_get (bd_todos d') k") (simp_all add: ticket_at_def)
    from old [OF t'] obtain t where t: "bt_get (bd_todos d) k = Some t" "ticket_kept t t'"
      by (auto simp: rewritten_def)
    from ticket_kept_key [OF t(2)] x show ?thesis by (simp add: ticket_at_def t(1) t')
  qed
  moreover have "k = j" if "ticket_at d' k = Some x" "ticket_at d' j = Some x" for k j x
    using ok tick [OF that(1)] tick [OF that(2)] unfolding builtin_ok_def by blast
  ultimately show ?thesis using s by (simp add: builtin_ok_def shrunk_def)
qed

lemma row_written_shrunk:
  assumes "row_written at e i d ch d'" and "edit_fits e" and "bt_wf (bd_todos d)"
  shows "shrunk d d'"
proof -
  obtain key t new where t: "todo_at d i = Inr (key, t)" "d' = write_row key new d"
    and new: "case new of Some t' \<Rightarrow> rewritten t t' | None \<Rightarrow> True"
    using assms(1,2) by (auto simp: row_written_def split: option.splits)
  have "bd_next_id d' = bd_next_id d \<and> bt_wf (bd_todos d')"
    using assms(3) by (simp add: t(2) write_row_def bt_remove_wf split: option.split)
  then show ?thesis
    using t(1) new by (auto simp: shrunk_def t(2) write_row_get todo_at_Inr split: if_splits)
qed

lemma apply_shrunk:
  assumes a: "builtin_apply at stamp e d = Inr (ch, d')" and "edit_fits e" and w: "bt_wf (bd_todos d)"
  shows "shrunk d d'"
proof (cases "edits_todo e")
  case (Some i)
  from apply_row [OF a Some] assms(2) w show ?thesis by (rule row_written_shrunk)
next
  case None
  then consider (release) h where "e = ReleaseAllOf h" | (prune) ids where "e = PruneIds ids" by (cases e) auto
  then show ?thesis
  proof cases
    case release
    with a have r: "release_held at stamp d h = (ch, d')" by (simp add: builtin_apply_def)
    have "rewritten t (t\<lparr>td_status := Pending, td_modified := Some stamp\<rparr>)" for t
      by (simp add: rewritten_def ticket_kept_def same_ticket_def blockers_kept_def split: option.split)
    with release_held_gets [OF r] w show ?thesis by (auto simp: shrunk_def split: if_splits)
  next
    case prune
    with a have "remove_keys at (List.map_filter parse_uint (removable (bt_values (bd_todos d)) ids)) [] d = (ch, d')"
      by (simp add: builtin_apply_def)
    from remove_keys_gets [OF this] w show ?thesis by (auto simp: shrunk_def split: if_splits)
  qed
qed

section \<open>Adding\<close>

definition ticket_holder :: "TodoDoc \<Rightarrow> NewTodo \<Rightarrow> Todo option" where
  "ticket_holder d new = (case nt_ticket new of
     Some tk \<Rightarrow> find (\<lambda>t. case td_ticket t of Some r \<Rightarrow> same_ticket r tk | None \<Rightarrow> False) (bt_values (bd_todos d))
   | None \<Rightarrow> None)"

definition fresh_key :: "TodoDoc \<Rightarrow> u64" where
  "fresh_key d = max (bd_next_id d) 1"

definition new_todo :: "string \<Rightarrow> NewTodo \<Rightarrow> TodoDoc \<Rightarrow> Todo" where
  "new_todo stamp new d =
     \<lparr>td_id = show_uint (fresh_key d), td_description = one_line (nt_description new), td_status = Pending,
      td_parent = nt_parent new,
      td_order = Some (case nt_order new of Some n \<Rightarrow> n | None \<Rightarrow> after_last d (nt_project new) (nt_parent new) None),
      td_project = nt_project new, td_entry = Some stamp, td_modified = Some stamp, td_blocked_by = [],
      td_ticket = nt_ticket new\<rparr>"

lemma builtin_add_cases:
  "builtin_add stamp new d =
     (case ticket_holder d new of
        Some t \<Rightarrow> Inr (td_id t, d)
      | None \<Rightarrow>
          (case nt_parent new of
             Some p \<Rightarrow> (case todo_at d p of Inl e \<Rightarrow> Inl e
               | Inr _ \<Rightarrow> Inr (show_uint (fresh_key d), put (fresh_key d) (new_todo stamp new d) (d\<lparr>bd_next_id := fresh_key d + 1\<rparr>)))
           | None \<Rightarrow> Inr (show_uint (fresh_key d), put (fresh_key d) (new_todo stamp new d) (d\<lparr>bd_next_id := fresh_key d + 1\<rparr>))))"
  by (simp add: builtin_add_def ticket_holder_def new_todo_def fresh_key_def Let_def split: option.split sum.split)

lemma builtin_add_Inr:
  assumes "builtin_add stamp new d = Inr (i, d')"
  shows "(\<exists>t. ticket_holder d new = Some t \<and> i = td_id t \<and> d' = d)
    \<or> ticket_holder d new = None \<and> i = show_uint (fresh_key d)
      \<and> d' = put (fresh_key d) (new_todo stamp new d) (d\<lparr>bd_next_id := fresh_key d + 1\<rparr>)"
  using assms by (auto simp: builtin_add_cases split: option.splits sum.splits)

lemma fresh_key_new: "builtin_ok d \<Longrightarrow> bt_get (bd_todos d) (fresh_key d) = None"
  using builtin_ok_row [of d "fresh_key d"] by (cases "bt_get (bd_todos d) (fresh_key d)") (auto simp: row_ok_def fresh_key_def max_def split: if_splits)

lemma word_lt_succ:
  assumes "(w :: u64) < - 1"
  shows "w < w + 1"
proof -
  have "w \<noteq> - 1" using assms by blast
  then have "1 + w \<noteq> 0" by (metis add.commute add_eq_0_iff2)
  then have "unat (1 + w) = Suc (unat w)" by (rule unatSuc)
  then show ?thesis by (simp add: word_less_nat_alt add.commute)
qed

lemma fresh_key_room:
  assumes "bd_next_id d < - 1"
  shows "fresh_key d < fresh_key d + 1" and "bd_next_id d < fresh_key d + 1" and "1 \<le> fresh_key d"
proof -
  have "(1 :: u64) < - 1" by code_simp
  with assms have "fresh_key d < - 1" by (simp add: fresh_key_def)
  then show "fresh_key d < fresh_key d + 1" by (rule word_lt_succ)
  moreover have "bd_next_id d \<le> fresh_key d" by (simp add: fresh_key_def)
  ultimately show "bd_next_id d < fresh_key d + 1" by order
  show "1 \<le> fresh_key d" by (simp add: fresh_key_def)
qed

lemma ticket_holder_None:
  assumes "ticket_holder d new = None" and tk: "nt_ticket new = Some tk"
  shows "ticket_at d k \<noteq> Some (tk_tracker tk, tk_key tk)"
proof
  assume "ticket_at d k = Some (tk_tracker tk, tk_key tk)"
  then obtain t r where t: "bt_get (bd_todos d) k = Some t" "td_ticket t = Some r"
    "tk_tracker r = tk_tracker tk" "tk_key r = tk_key tk"
    by (auto simp: ticket_at_def bind_eq_Some_conv)
  from t(1) have m: "t \<in> set (bt_values (bd_todos d))" by (force dest: bt_get_in_set)
  from assms have "find (\<lambda>t. case td_ticket t of Some r \<Rightarrow> same_ticket r tk | None \<Rightarrow> False) (bt_values (bd_todos d)) = None"
    by (simp add: ticket_holder_def)
  from find_None_all [OF this m]
  have "\<not> (case td_ticket t of Some r \<Rightarrow> same_ticket r tk | None \<Rightarrow> False)" .
  with t show False by (simp add: same_ticket_def)
qed

lemma add_ok:
  assumes ok: "builtin_ok d" and a: "builtin_add stamp new d = Inr (i, d')"
    and fits: "order_fits (nt_order new)" and room: "bd_next_id d < - 1"
  shows "builtin_ok d' \<and> bd_next_id d \<le> bd_next_id d'"
proof (cases "ticket_holder d new")
  case (Some t)
  with builtin_add_Inr [OF a] ok show ?thesis by auto
next
  case None
  with builtin_add_Inr [OF a]
  have d': "d' = put (fresh_key d) (new_todo stamp new d) (d\<lparr>bd_next_id := fresh_key d + 1\<rparr>)" by simp
  have get: "bt_get (bd_todos d') k = (if k = fresh_key d then Some (new_todo stamp new d) else bt_get (bd_todos d) k)" for k
    by (simp add: d')
  have nxt: "bd_next_id d' = fresh_key d + 1" by (simp add: d')
  note lt = fresh_key_room [OF room]
  have "row_ok d' k t" if k: "bt_get (bd_todos d') k = Some t" for k t
  proof (cases "k = fresh_key d")
    case True
    with k lt fits show ?thesis
      by (auto simp: get row_ok_def nxt new_todo_def blockers_kept_def order_fits_def after_last_ok split: option.splits)
  next
    case False
    with k have "row_ok d k t" using ok by (simp add: get builtin_ok_row)
    with lt(2) show ?thesis by (auto simp: row_ok_def nxt)
  qed
  moreover have tick: "ticket_at d' k = (if k = fresh_key d
      then map_option (\<lambda>r. (tk_tracker r, tk_key r)) (nt_ticket new) else ticket_at d k)" for k
    by (simp add: ticket_at_def get new_todo_def)
  moreover have "k = j" if kj: "ticket_at d' k = Some x" "ticket_at d' j = Some x" for k j x
  proof -
    obtain tk where tk: "tk = map_option (\<lambda>r. (tk_tracker r, tk_key r)) (nt_ticket new)" by simp
    have no: "ticket_at d n = Some x \<Longrightarrow> tk \<noteq> Some x" for n
      using ticket_holder_None [OF None, of _ n] by (cases "nt_ticket new") (auto simp: tk)
    have old: "ticket_at d k = Some x \<Longrightarrow> ticket_at d j = Some x \<Longrightarrow> k = j"
      using ok unfolding builtin_ok_def by blast
    have a: "(if k = fresh_key d then tk else ticket_at d k) = Some x" using kj(1) unfolding tick tk .
    have b: "(if j = fresh_key d then tk else ticket_at d j) = Some x" using kj(2) unfolding tick tk .
    show ?thesis
    proof (cases "k = fresh_key d")
      case True
      with a have "tk = Some x" by (simp only: if_True simp_thms)
      with no [of j] b True show ?thesis by (cases "j = fresh_key d") (simp_all only: if_False simp_thms, blast)
    next
      case False
      with a have k: "ticket_at d k = Some x" by (simp only: if_False simp_thms)
      from b have "tk = Some x \<or> ticket_at d j = Some x" by metis
      with k no [of k] old show ?thesis by blast
    qed
  qed
  moreover have "bt_wf (bd_todos d')" using ok by (simp add: d' builtin_ok_def)
  ultimately have "builtin_ok d'" unfolding builtin_ok_def by blast
  with lt(2) show ?thesis by (simp add: nxt)
qed

section \<open>The file over time\<close>

definition todo_file :: "doc_fs \<Rightarrow> todo_fault store_error + TodoDoc" where
  "todo_file fs = try_load todo_document clean_io fs"

text \<open>The id counter has not run out: fewer than \<open>2 ^ 64 - 2\<close> todos were added.\<close>

definition has_room :: "doc_fs \<Rightarrow> bool" where
  "has_room fs = (case todo_file fs of Inr d \<Rightarrow> bd_next_id d < - 1 | Inl _ \<Rightarrow> True)"

inductive store_step :: "doc_fs \<Rightarrow> doc_fs \<Rightarrow> bool" where
  listed: "store_list io (read :: string \<Rightarrow> _) nodes fs = (r, fs') \<Longrightarrow> store_step fs fs'"
| got: "store_get io i fs = (r, fs') \<Longrightarrow> store_step fs fs'"
| added: "store_add io stamp new fs = (r, fs') \<Longrightarrow> order_fits (nt_order new) \<Longrightarrow> has_room fs \<Longrightarrow> store_step fs fs'"
| edited: "store_apply io at stamp e fs = (r, fs') \<Longrightarrow> edit_fits e \<Longrightarrow> store_step fs fs'"

abbreviation store_steps :: "doc_fs \<Rightarrow> doc_fs \<Rightarrow> bool" where
  "store_steps \<equiv> store_step\<^sup>*\<^sup>*"

definition todo_file_ok :: "doc_fs \<Rightarrow> bool" where
  "todo_file_ok fs = (case todo_file fs of Inr d \<Rightarrow> builtin_ok d | Inl _ \<Rightarrow> True)"

lemma try_load_clean: "try_load doc io fs = Inr d \<Longrightarrow> try_load doc clean_io fs = Inr d"
  by (auto simp: try_load_def read_strict_def clean_io_def split: option.splits if_splits sum.splits)

text \<open>One read-modify-write of the file: nothing changes, or the operation ran on what it held.\<close>

lemma file_after:
  fixes f :: "TodoDoc \<Rightarrow> todo_fault + 'a \<times> TodoDoc"
  assumes w: "with_lock_strict todo_document io f fs = (r, fs')"
    and keeps: "\<forall>d b d'. todo_doc_ok d \<longrightarrow> f d = Inr (b, d') \<longrightarrow> todo_doc_ok d'"
  shows "(fs' = fs \<and> (\<exists>e. r = Inl e)) \<or> (\<exists>a d d'. r = Inr a \<and> todo_file fs = Inr d \<and> f d = Inr (a, d')
    \<and> todo_file fs' = Inr (d'\<lparr>bd_version := todo_doc_version\<rparr>))"
proof (cases r)
  case (Inl e)
  with todo_doc.strict_outcome [of f fs io, OF keeps] w show ?thesis by auto
next
  case (Inr a)
  with todo_doc.strict_outcome [of f fs io, OF keeps] w obtain d d' where
    d: "(try_load todo_document io fs :: todo_fault store_error + TodoDoc) = Inr d" "f d = Inr (a, d')"
      "(try_load todo_document clean_io fs' :: todo_fault store_error + TodoDoc) = Inr (d'\<lparr>bd_version := todo_doc_version\<rparr>)"
    by auto
  with Inr try_load_clean [OF d(1)] show ?thesis by (auto simp: todo_file_def)
qed

lemma add_doc_ok:
  assumes "todo_doc_ok d" and "builtin_add stamp new d = Inr (i, d')" and "order_fits (nt_order new)"
  shows "todo_doc_ok d'"
  using builtin_add_Inr [OF assms(2)] assms(1,3)
  by (auto simp: todo_doc_ok_def put_def bt_insert_wf bt_insert_set new_todo_def after_last_ok order_fits_def split: option.splits)

lemma apply_doc_ok:
  assumes ok: "todo_doc_ok d" and a: "builtin_apply at stamp e d = Inr (ch, d')" and e: "edit_fits e"
  shows "todo_doc_ok d'"
proof -
  have w: "bt_wf (bd_todos d)" using ok by (simp add: todo_doc_ok_def)
  have s: "shrunk d d'" by (rule apply_shrunk [OF a e w])
  then have w': "bt_wf (bd_todos d')" by (simp add: shrunk_def)
  have "order_fits (td_order t')" if t': "bt_get (bd_todos d') k = Some t'" for k t'
  proof -
    from s t' obtain t where t: "bt_get (bd_todos d) k = Some t" "rewritten t t'" unfolding shrunk_def by blast
    from bt_get_in_set [OF t(1)] ok have "order_fits (td_order t)" by (auto simp: todo_doc_ok_def order_fits_def)
    with t(2) show ?thesis by (simp add: rewritten_def)
  qed
  with w' show ?thesis by (force simp: todo_doc_ok_def order_fits_def bt_get_Some)
qed

text \<open>What one step leaves: the file as it was, or one operation on what it held.\<close>

definition file_moved :: "doc_fs \<Rightarrow> doc_fs \<Rightarrow> bool" where
  "file_moved fs fs' \<longleftrightarrow> fs' = fs \<or>
     (\<exists>d d'. todo_file fs = Inr d \<and> todo_file fs' = Inr d'
        \<and> (builtin_ok d \<longrightarrow> builtin_ok d' \<and> bd_next_id d \<le> bd_next_id d'))"

lemma step_moves:
  assumes "store_step fs fs'"
  shows "file_moved fs fs'"
  using assms
proof (cases rule: store_step.cases)
  case (listed io read nodes r)
  then have "with_lock_strict todo_document io (\<lambda>d. Inr (filter (\<lambda>t. node_matches read nodes (td_project t))
      (bt_values (bd_todos d)), d)) fs = (r, fs')" by (simp add: store_list_def)
  from file_after [OF this] show ?thesis by (auto simp: file_moved_def)
next
  case (got io i r)
  show ?thesis
  proof (cases "parse_uint i :: u64 option")
    case None
    with got show ?thesis by (simp add: store_get_def file_moved_def)
  next
    case (Some key)
    with got have "with_lock_strict todo_document io (\<lambda>d. Inr (bt_get (bd_todos d) key, d)) fs = (r, fs')"
      by (simp add: store_get_def)
    from file_after [OF this] show ?thesis by (auto simp: file_moved_def)
  qed
next
  case (added io stamp new r)
  then have w: "with_lock_strict todo_document io (builtin_add stamp new) fs = (r, fs')" by (simp add: store_add_def)
  have "\<forall>d b d'. todo_doc_ok d \<longrightarrow> builtin_add stamp new d = Inr (b, d') \<longrightarrow> todo_doc_ok d'"
    using add_doc_ok added(2) by blast
  from file_after [OF w this] consider "fs' = fs"
    | a d d' where "todo_file fs = Inr d" "builtin_add stamp new d = Inr (a, d')"
        "todo_file fs' = Inr (d'\<lparr>bd_version := todo_doc_version\<rparr>)" by blast
  then show ?thesis
  proof cases
    case 2
    with added(3) have "bd_next_id d < - 1" by (simp add: has_room_def)
    with add_ok [OF _ 2(2) added(2)] 2 show ?thesis by (auto simp: file_moved_def)
  qed (simp add: file_moved_def)
next
  case (edited io at stamp e r)
  then have w: "with_lock_strict todo_document io (builtin_apply at stamp e) fs = (r, fs')" by (simp add: store_apply_def)
  have "\<forall>d b d'. todo_doc_ok d \<longrightarrow> builtin_apply at stamp e d = Inr (b, d') \<longrightarrow> todo_doc_ok d'"
    using apply_doc_ok edited(2) by blast
  from file_after [OF w this] consider "fs' = fs"
    | a d d' where "todo_file fs = Inr d" "builtin_apply at stamp e d = Inr (a, d')"
        "todo_file fs' = Inr (d'\<lparr>bd_version := todo_doc_version\<rparr>)" by blast
  then show ?thesis
  proof cases
    case 2
    have "builtin_ok d' \<and> bd_next_id d \<le> bd_next_id d'" if ok: "builtin_ok d"
    proof -
      have s: "shrunk d d'" using apply_shrunk [OF 2(2) edited(2)] ok by (simp add: builtin_ok_def)
      with shrunk_ok [OF ok s] show ?thesis by (simp add: shrunk_def)
    qed
    with 2 show ?thesis by (auto simp: file_moved_def)
  qed (simp add: file_moved_def)
qed

lemma steps_keep:
  assumes "store_steps fs fs'" and "todo_file fs = Inr d" and "builtin_ok d"
  shows "\<exists>d'. todo_file fs' = Inr d' \<and> builtin_ok d' \<and> bd_next_id d \<le> bd_next_id d'"
  using assms(1)
proof (induction rule: rtranclp_induct)
  case base
  with assms(2,3) show ?case by auto
next
  case (step fs1 fs2)
  from step.IH obtain d1 where d1: "todo_file fs1 = Inr d1" "builtin_ok d1" "bd_next_id d \<le> bd_next_id d1" by blast
  from step_moves [OF step.hyps(2)] d1 show ?case by (auto simp: file_moved_def)
qed

text \<open>
  C30: whatever operations ran on the store since its file was absent, and whatever faults they met, the file
  holds a document whose rows are in key order, each under the key its id spells and below the id
  counter, with its blockers sorted and without repeats, and with no ticket held by two todos.
\<close>

theorem store_invariant:
  assumes "store_steps fs fs'" and "fs_data fs = None"
  shows "\<exists>d. todo_file fs' = Inr d \<and> bt_wf (bd_todos d)
    \<and> (\<forall>k t. bt_get (bd_todos d) k = Some t \<longrightarrow> td_id t = show_uint k \<and> 1 \<le> k \<and> k < bd_next_id d
         \<and> sorted (td_blocked_by t) \<and> distinct (td_blocked_by t))
    \<and> (\<forall>k j t t' a b. bt_get (bd_todos d) k = Some t \<longrightarrow> bt_get (bd_todos d) j = Some t' \<longrightarrow>
         td_ticket t = Some a \<longrightarrow> td_ticket t' = Some b \<longrightarrow> same_ticket a b \<longrightarrow> k = j)"
proof -
  have "todo_file fs = Inr (doc_default todo_document)"
    using assms(2) by (simp add: todo_file_def try_load_def read_strict_def)
  from steps_keep [OF assms(1) this] obtain d where d: "todo_file fs' = Inr d" "builtin_ok d"
    by (auto simp: builtin_ok_empty)
  have "k = j" if "bt_get (bd_todos d) k = Some t" "bt_get (bd_todos d) j = Some t'"
    "td_ticket t = Some a" "td_ticket t' = Some b" "same_ticket a b" for k j t t' a b
  proof -
    from that have "ticket_at d k = Some (tk_tracker a, tk_key a)" "ticket_at d j = Some (tk_tracker a, tk_key a)"
      by (simp_all add: ticket_at_def same_ticket_def)
    with d(2) show ?thesis unfolding builtin_ok_def by blast
  qed
  with d show ?thesis
    by (intro exI [of _ d]) (auto simp: builtin_ok_def row_ok_def blockers_kept_def)
qed

text \<open>
  C31: an id is never given to a second todo: when a todo that was in the store has been removed, no later add
  returns its id, whatever operations ran between and after.
\<close>

theorem id_never_reused:
  assumes "todo_file fs0 = Inr d0" and "builtin_ok d0" and "bt_get (bd_todos d0) k = Some t0"
    and "store_steps fs0 fs" and "todo_file fs = Inr d" and "\<forall>j t. bt_get (bd_todos d) j = Some t \<longrightarrow> td_id t \<noteq> td_id t0"
    and "has_room fs" and "order_fits (nt_order new)" and "store_add io stamp new fs = (Inr i, fs')"
  shows "i \<noteq> td_id t0"
proof -
  from steps_keep [OF assms(4,1,2)] assms(5) have ok: "builtin_ok d" "bd_next_id d0 \<le> bd_next_id d" by auto
  have k: "td_id t0 = show_uint k" "k < bd_next_id d0"
    using builtin_ok_row [OF assms(2,3)] by (auto simp: row_ok_def)
  have w: "with_lock_strict todo_document io (builtin_add stamp new) fs = (Inr i, fs')"
    using assms(9) by (simp add: store_add_def)
  have "\<forall>d b d'. todo_doc_ok d \<longrightarrow> builtin_add stamp new d = Inr (b, d') \<longrightarrow> todo_doc_ok d'"
    using add_doc_ok assms(8) by blast
  from file_after [OF w this] assms(5) obtain d' where a: "builtin_add stamp new d = Inr (i, d')" by auto
  from builtin_add_Inr [OF a] show ?thesis
  proof (elim disjE exE conjE)
    fix t assume t: "ticket_holder d new = Some t" "i = td_id t"
    then have "t \<in> set (bt_values (bd_todos d))"
      by (auto simp: ticket_holder_def dest!: find_Some_set split: option.splits)
    then obtain j where "bt_get (bd_todos d) j = Some t"
      using ok(1) by (force simp: builtin_ok_def bt_get_Some)
    with assms(6) have "td_id t \<noteq> td_id t0" by blast
    with t(2) show ?thesis by simp
  next
    assume i: "i = show_uint (fresh_key d)"
    have "k < bd_next_id d" using k(2) ok(2) by (rule less_le_trans)
    then have "k \<noteq> fresh_key d" by (auto simp: fresh_key_def max_def)
    then show ?thesis
      using parse_show_uint [of k] parse_show_uint [of "fresh_key d"] unfolding i k(1) by (metis option.inject)
  qed
qed

section \<open>What a write leaves for the next reader\<close>

text \<open>
  An edit that lands is what the next listing reads: it ran on the document the file held, and every
  listing after it shows the todos it left; an edit that fails leaves the file as it was.
\<close>

theorem edits_read_back:
  assumes "edit_fits e"
  shows "case store_apply io at stamp e fs of
      (Inl _, fs') \<Rightarrow> fs' = fs
    | (Inr ch, fs') \<Rightarrow> \<exists>d d'. todo_file fs = Inr d \<and> builtin_apply at stamp e d = Inr (ch, d')
        \<and> store_list clean_io read nodes fs' =
            (Inr (filter (\<lambda>t. node_matches read nodes (td_project t)) (bt_values (bd_todos d'))), fs')"
proof -
  have keeps: "\<forall>d b d'. todo_doc_ok d \<longrightarrow> builtin_apply at stamp e d = Inr (b, d') \<longrightarrow> todo_doc_ok d'"
    using apply_doc_ok assms by blast
  note out = todo_doc.strict_outcome [OF keeps, of fs io]
  show ?thesis
  proof (cases "store_apply io at stamp e fs")
    case (Pair r fs')
    then have w: "with_lock_strict todo_document io (builtin_apply at stamp e) fs = (r, fs')" by (simp add: store_apply_def)
    show ?thesis
    proof (cases r)
      case (Inl x)
      with out w Pair show ?thesis by simp
    next
      case (Inr ch)
      with out w obtain d d' where d: "(try_load todo_document io fs :: todo_fault store_error + TodoDoc) = Inr d"
        "builtin_apply at stamp e d = Inr (ch, d')"
        "fs' = fs\<lparr>fs_data := Some (Text (todo_doc_to_json (d'\<lparr>bd_version := todo_doc_version\<rparr>)))\<rparr>"
        "(try_load todo_document clean_io fs' :: todo_fault store_error + TodoDoc) = Inr (d'\<lparr>bd_version := todo_doc_version\<rparr>)"
        by auto
      have "store_list clean_io read nodes fs' =
          (Inr (filter (\<lambda>t. node_matches read nodes (td_project t)) (bt_values (bd_todos d'))), fs')"
        using d(3,4) by (simp add: store_list_def with_lock_strict_def with_lock_via_def with_file_lock_def doc_write_def clean_io_def)
      with d try_load_clean [OF d(1)] show ?thesis unfolding Pair Inr by (auto simp: todo_file_def)
    qed
  qed
qed

lemma store_add_lands:
  assumes "todo_file fs = Inr d" and "todo_doc_ok d" and "builtin_add stamp new d = Inr (i, d')" and "order_fits (nt_order new)"
  shows "\<exists>fs'. store_add clean_io stamp new fs = (Inr i, fs') \<and> todo_file fs' = Inr (d'\<lparr>bd_version := todo_doc_version\<rparr>)"
proof -
  have "todo_doc_ok d'" by (rule add_doc_ok [OF assms(2,3,4)])
  then have "todo_doc_ok (d'\<lparr>bd_version := todo_doc_version\<rparr>)" by (simp add: todo_doc_ok_def)
  from todo_doc.try_load_written [OF this, of fs] assms(1,3) show ?thesis
    by (simp add: store_add_def with_lock_strict_def with_lock_via_def with_file_lock_def doc_write_def todo_file_def clean_io_def)
qed

lemma store_apply_lands:
  assumes "todo_file fs = Inr d" and "todo_doc_ok d" and "builtin_apply at stamp e d = Inr (ch, d')" and "edit_fits e"
  shows "\<exists>fs'. store_apply clean_io at stamp e fs = (Inr ch, fs') \<and> todo_file fs' = Inr (d'\<lparr>bd_version := todo_doc_version\<rparr>)"
proof -
  have "todo_doc_ok d'" by (rule apply_doc_ok [OF assms(2,3,4)])
  then have "todo_doc_ok (d'\<lparr>bd_version := todo_doc_version\<rparr>)" by (simp add: todo_doc_ok_def)
  from todo_doc.try_load_written [OF this, of fs] assms(1,3) show ?thesis
    by (simp add: store_apply_def with_lock_strict_def with_lock_via_def with_file_lock_def doc_write_def todo_file_def clean_io_def)
qed

section \<open>Where a new todo lands\<close>

definition sibling_order :: "NewTodo \<Rightarrow> Todo \<Rightarrow> int option" where
  "sibling_order new t = (if td_project t = nt_project new \<and> td_parent t = nt_parent new then td_order t else None)"

text \<open>
  A todo added without an order comes after every sibling, in order and within 64 bits, as long as no sibling's
  order is within one gap of the largest.
\<close>

theorem added_comes_last:
  assumes "builtin_add stamp new d = Inr (i, d')" and "ticket_holder d new = None" and "nt_order new = None"
    and "\<forall>s\<in>set (bt_values (bd_todos d)). case sibling_order new s of
        Some m \<Rightarrow> - (2 ^ 63) \<le> m \<and> m < 2 ^ 63 - order_gap | None \<Rightarrow> True"
  shows "\<exists>t n. bt_get (bd_todos d') (fresh_key d) = Some t \<and> td_id t = i \<and> td_order t = Some n \<and> i64_ok n
    \<and> (\<forall>s\<in>set (bt_values (bd_todos d)). case sibling_order new s of Some m \<Rightarrow> m < n | None \<Rightarrow> True)"
proof -
  define orders where "orders = List.map_filter td_order
      (filter (\<lambda>t. td_project t = nt_project new \<and> td_parent t = nt_parent new)
        (bt_values (bd_todos d)))"
  define top where "top = (if orders = [] then 0 else Max (set orders))"
  have mem: "m \<in> set orders" if "s \<in> set (bt_values (bd_todos d))" "sibling_order new s = Some m" for s m
    using that by (auto simp: orders_def in_map_filter sibling_order_def split: if_splits)
  have rng: "- (2 ^ 63) \<le> m \<and> m < 2 ^ 63 - order_gap" if "m \<in> set orders" for m
  proof -
    from that obtain s where "s \<in> set (bt_values (bd_todos d))"
      "td_project s = nt_project new" "td_parent s = nt_parent new" "td_order s = Some m"
      unfolding orders_def in_map_filter set_filter mem_Collect_eq by blast
    moreover from this have "sibling_order new s = Some m" by (simp add: sibling_order_def)
    ultimately show ?thesis using assms(4) by force
  qed
  have top: "- (2 ^ 63) \<le> top \<and> top < 2 ^ 63 - order_gap"
    using rng [of top] Max_in [of "set orders"] by (auto simp: top_def order_gap_def)
  have le: "m \<le> top" if "m \<in> set orders" for m using that by (auto simp: top_def)
  have "(top + order_gap + 2 ^ 63) mod 2 ^ 64 = top + order_gap + 2 ^ 63"
    using top by (intro mod_pos_pos_trivial) (simp_all add: order_gap_def)
  then have n: "after_last d (nt_project new) (nt_parent new) None = top + order_gap"
    by (cases "orders = []") (simp_all add: after_last_def Let_def orders_def [symmetric] i64_add_def top_def)
  from builtin_add_Inr [OF assms(1)] assms(2)
  have d': "i = show_uint (fresh_key d)"
    "d' = put (fresh_key d) (new_todo stamp new d) (d\<lparr>bd_next_id := fresh_key d + 1\<rparr>)" by simp_all
  have "i64_ok (top + order_gap)" using top by (simp add: i64_ok_def order_gap_def)
  moreover have "case sibling_order new s of Some m \<Rightarrow> m < top + order_gap | None \<Rightarrow> True"
    if "s \<in> set (bt_values (bd_todos d))" for s
    using mem [OF that] le by (force simp: order_gap_def split: option.split)
  ultimately show ?thesis
    using assms(3) n by (simp add: d' new_todo_def)
qed

text \<open>At the top of the range the release build wraps, and the new todo comes first.\<close>

lemma added_wraps: "i64_add (2 ^ 63 - 1) order_gap = - (2 ^ 63) + 1023"
  by (simp add: i64_add_def order_gap_def)

section \<open>A store to try\<close>

definition demo_task :: NewTodo where
  "demo_task = \<lparr>nt_project = None, nt_description = ''write it'', nt_parent = None, nt_order = None, nt_ticket = None\<rparr>"

definition demo_first :: Todo where
  "demo_first = \<lparr>td_id = ''1'', td_description = ''write it'', td_status = Pending, td_parent = None, td_order = Some 1024,
     td_project = None, td_entry = Some ''t'', td_modified = Some ''t'', td_blocked_by = [], td_ticket = None\<rparr>"

definition empty_doc :: TodoDoc where "empty_doc = \<lparr>bd_version = 0, bd_next_id = 0, bd_todos = []\<rparr>"
definition one_doc :: TodoDoc where "one_doc = \<lparr>bd_version = 1, bd_next_id = 2, bd_todos = [(1, demo_first)]\<rparr>"
definition no_file :: doc_fs where "no_file = \<lparr>fs_data = None, fs_bak = None\<rparr>"

lemma demo_show: "show_uint (1 :: u64) = ''1''" "show_uint (2 :: u64) = ''2''" "parse_uint ''1'' = Some (1 :: u64)"
proof -
  have c: "char_of (49 :: nat) = CHR ''1''" "char_of (50 :: nat) = CHR ''2''" by code_simp+
  then show one: "show_uint (1 :: u64) = ''1''" "show_uint (2 :: u64) = ''2''"
    by (simp_all add: show_uint_def dec.simps digit_char_def)
  show "parse_uint ''1'' = Some (1 :: u64)" using parse_show_uint [of "1 :: u64"] one(1) by simp
qed
lemma demo_parent: "nt_parent demo_task = None"
  by (simp add: demo_task_def)

lemma demo_one_line: "one_line ''write it'' = ''write it''" by code_simp
lemma demo_add: "builtin_add ''t'' demo_task empty_doc = Inr (''1'', one_doc\<lparr>bd_version := 0\<rparr>)"
  by (simp add: builtin_add_cases ticket_holder_def demo_task_def fresh_key_def empty_doc_def demo_show new_todo_def demo_one_line put_def
   one_doc_def demo_first_def after_last_def i64_add_def order_gap_def)

lemma demo_file: "todo_file no_file = Inr empty_doc"
  by (simp add: todo_file_def try_load_def read_strict_def no_file_def empty_doc_def)

lemma demo_ok [simp]: "todo_doc_ok empty_doc" "todo_doc_ok one_doc" "one_doc\<lparr>bd_version := 0, bd_version := v\<rparr> = one_doc\<lparr>bd_version := v\<rparr>"
  by (simp_all add: empty_doc_def one_doc_def todo_doc_ok_def demo_first_def i64_ok_def bt_wf_def)

lemma demo_room: "(0 :: u64) < - 1" "(2 :: u64) < - 1"
  by code_simp+

lemma demo_builtin_ok: "builtin_ok one_doc"
proof -
  have "builtin_ok empty_doc" by (simp add: empty_doc_def builtin_ok_empty)
  moreover have "order_fits (nt_order demo_task)" by (simp add: demo_task_def order_fits_def)
  moreover have "bd_next_id empty_doc < - 1" by (simp add: empty_doc_def demo_room)
  ultimately have "builtin_ok (one_doc\<lparr>bd_version := 0\<rparr>)" using add_ok [OF _ demo_add] by blast
  then show ?thesis by simp
qed

lemma demo_at: "todo_at one_doc ''1'' = Inr (1, demo_first)"
  by (simp add: todo_at_def demo_show one_doc_def bt_get_def)

definition gone_doc :: TodoDoc where "gone_doc = \<lparr>bd_version = 1, bd_next_id = 2, bd_todos = []\<rparr>"

lemma demo_purge: "builtin_apply 5 ''u'' (Purge ''1'') one_doc = Inr ([change_of 5 demo_first None], gone_doc)"
  by (simp add: builtin_apply_def demo_at) (simp add: one_doc_def gone_doc_def bt_remove_def)

lemma demo_again: "\<exists>d. builtin_add ''v'' demo_task gone_doc = Inr (''2'', d)"
  by (simp add: builtin_add_cases ticket_holder_def demo_task_def fresh_key_def gone_doc_def demo_show)


text \<open>A store that held one todo, removed it, and was added to again.\<close>

lemma demo_story:
  obtains fs1 fs2 fs3 i where
    "store_add clean_io ''t'' demo_task no_file = (Inr ''1'', fs1)" "todo_file fs1 = Inr one_doc"
    "store_apply clean_io 5 ''u'' (Purge ''1'') fs1 = (Inr [change_of 5 demo_first None], fs2)" "todo_file fs2 = Inr gone_doc"
    "store_add clean_io ''v'' demo_task fs2 = (Inr ''2'', fs3)"
proof -
  have fits: "order_fits (nt_order demo_task)" by (simp add: demo_task_def order_fits_def)
  from store_add_lands [OF demo_file demo_ok(1) demo_add fits] obtain fs1 where
    1: "store_add clean_io ''t'' demo_task no_file = (Inr ''1'', fs1)" "todo_file fs1 = Inr one_doc"
    by (auto simp: one_doc_def todo_doc_version_def)
  from store_apply_lands [OF 1(2) demo_ok(2) demo_purge] obtain fs2 where
    2: "store_apply clean_io 5 ''u'' (Purge ''1'') fs1 = (Inr [change_of 5 demo_first None], fs2)" "todo_file fs2 = Inr gone_doc"
    by (auto simp: gone_doc_def todo_doc_version_def)
  have "todo_doc_ok gone_doc" by (simp add: gone_doc_def todo_doc_ok_def)
  with demo_again obtain d where "builtin_add ''v'' demo_task gone_doc = Inr (''2'', d)" "todo_doc_ok gone_doc" by blast
  from store_add_lands [OF 2(2) this(2,1) fits] obtain fs3 where
    "store_add clean_io ''v'' demo_task fs2 = (Inr ''2'', fs3)" by blast
  with 1 2 show ?thesis by (rule that)
qed

lemma demo_room_file: "todo_file fs = Inr gone_doc \<Longrightarrow> has_room fs" "has_room no_file"
  by (simp_all add: has_room_def gone_doc_def demo_file empty_doc_def demo_room)

theorem apply_reports_exactly_witness:
  "\<exists>ks. distinct ks \<and> set ks = {k. \<exists>t. bt_get (bd_todos one_doc) k = Some t \<and> bt_get (bd_todos gone_doc) k = None}
     \<and> [change_of 5 demo_first None] = map (\<lambda>k. change_of 5 (the (bt_get (bd_todos one_doc) k)) None) ks"
  using apply_reports_exactly [OF demo_purge] by (simp add: one_doc_def gone_doc_def bt_wf_def bt_get_def)

theorem store_invariant_witness:
  "\<exists>fs1 d. store_add clean_io ''t'' demo_task no_file = (Inr ''1'', fs1) \<and> todo_file fs1 = Inr d \<and> bt_wf (bd_todos d)"
proof -
  obtain fs1 where fs1: "store_add clean_io ''t'' demo_task no_file = (Inr ''1'', fs1)" using demo_story by blast
  then have "store_steps no_file fs1"
    using store_step.added [OF fs1] demo_room_file(2) by (auto simp: demo_task_def order_fits_def)
  from store_invariant [OF this] fs1 show ?thesis by (auto simp: no_file_def)
qed

theorem id_never_reused_witness:
  "\<exists>fs1 fs2 fs3 i. store_add clean_io ''t'' demo_task no_file = (Inr ''1'', fs1)
     \<and> fst (store_apply clean_io 5 ''u'' (Purge ''1'') fs1) = Inr [change_of 5 demo_first None]
     \<and> snd (store_apply clean_io 5 ''u'' (Purge ''1'') fs1) = fs2
     \<and> store_add clean_io ''v'' demo_task fs2 = (Inr i, fs3) \<and> i \<noteq> ''1''"
proof -
  obtain fs1 fs2 fs3 where
    1: "store_add clean_io ''t'' demo_task no_file = (Inr ''1'', fs1)" "todo_file fs1 = Inr one_doc"
    and 2: "store_apply clean_io 5 ''u'' (Purge ''1'') fs1 = (Inr [change_of 5 demo_first None], fs2)" "todo_file fs2 = Inr gone_doc"
    and 3: "store_add clean_io ''v'' demo_task fs2 = (Inr ''2'', fs3)"
    using demo_story by blast
  have k: "bt_get (bd_todos one_doc) 1 = Some demo_first" by (simp add: one_doc_def bt_get_def)
  have s: "store_steps fs1 fs2" using store_step.edited [OF 2(1)] by auto
  have none: "\<forall>j t. bt_get (bd_todos gone_doc) j = Some t \<longrightarrow> td_id t \<noteq> td_id demo_first"
    by (simp add: gone_doc_def bt_get_def)
  have "order_fits (nt_order demo_task)" by (simp add: demo_task_def order_fits_def)
  from id_never_reused [OF 1(2) demo_builtin_ok k s 2(2) none demo_room_file(1) [OF 2(2)] this 3]
  have "''2'' \<noteq> ''1''" by (simp add: demo_first_def)
  with 1 2 3 show ?thesis by auto
qed

theorem edits_read_back_witness:
  "\<exists>fs1 fs2. store_add clean_io ''t'' demo_task no_file = (Inr ''1'', fs1)
     \<and> store_apply clean_io 5 ''u'' (Purge ''1'') fs1 = (Inr [change_of 5 demo_first None], fs2)
     \<and> store_list clean_io (\<lambda>_ _. None) [Subtree []] fs2 = (Inr [], fs2)"
proof -
  obtain fs1 fs2 where
    1: "store_add clean_io ''t'' demo_task no_file = (Inr ''1'', fs1)" "todo_file fs1 = Inr one_doc"
    and 2: "store_apply clean_io 5 ''u'' (Purge ''1'') fs1 = (Inr [change_of 5 demo_first None], fs2)"
    using demo_story by blast
  have "edit_fits (Purge ''1'')" by simp
  from edits_read_back [OF this, where io = clean_io and at = 5 and stamp = "''u''" and fs = fs1
      and read = "\<lambda>_ _. None" and nodes = "[Subtree []]"] 1 2 demo_purge
  have "store_list clean_io (\<lambda>_ _. None) [Subtree []] fs2 = (Inr [], fs2)"
    by (auto simp: gone_doc_def)
  with 1 2 show ?thesis by blast
qed

theorem added_comes_last_witness:
  "\<exists>t n. bt_get (bd_todos (put 2 (new_todo ''v'' demo_task one_doc) (one_doc\<lparr>bd_next_id := 3\<rparr>))) 2 = Some t
     \<and> td_order t = Some n \<and> 1024 < n"
proof -
  have key: "fresh_key one_doc = 2" by (simp add: fresh_key_def one_doc_def)
  have none: "ticket_holder one_doc demo_task = None" by (simp add: ticket_holder_def demo_task_def)
  have a: "builtin_add ''v'' demo_task one_doc
      = Inr (''2'', put 2 (new_todo ''v'' demo_task one_doc) (one_doc\<lparr>bd_next_id := 3\<rparr>))"
    using demo_parent by (simp add: builtin_add_cases none key demo_show)
  have o: "nt_order demo_task = None" by (simp add: demo_task_def)
  have "\<forall>s\<in>set (bt_values (bd_todos one_doc)). case sibling_order demo_task s of
      Some m \<Rightarrow> - (2 ^ 63) \<le> m \<and> m < 2 ^ 63 - order_gap | None \<Rightarrow> True"
    by (simp add: one_doc_def sibling_order_def demo_task_def demo_first_def order_gap_def)
  from added_comes_last [OF a none o this] obtain t n where
    tn: "bt_get (bd_todos (put 2 (new_todo ''v'' demo_task one_doc) (one_doc\<lparr>bd_next_id := 3\<rparr>))) 2 = Some t" "td_order t = Some n"
    and last: "\<forall>s\<in>set (bt_values (bd_todos one_doc)). case sibling_order demo_task s of Some m \<Rightarrow> m < n | None \<Rightarrow> True"
    unfolding key by blast
  from last have "1024 < n" by (simp add: one_doc_def sibling_order_def demo_task_def demo_first_def)
  with tn show ?thesis by blast
qed

end
