(* ===== verification/Todo_Claims.thy ===== *)
theory Todo_Claims
  imports Todo_Store_Ids
begin

text \<open>
  Who may end a claim in the built-in todo store: exactly the edits that take a todo in progress from
  its claimant, over one edit and over any operations on the file.
\<close>

section \<open>The edits that end a claim\<close>

text \<open>A start by one of the claimant's own sub-agents, or by anyone when the tracker has it in progress.\<close>

definition start_takes :: "Holder \<Rightarrow> Holder \<Rightarrow> bool" where
  "start_takes by actor \<longleftrightarrow>
     is_tracker by \<and> \<not> is_tracker actor \<or> \<not> is_human by \<and> covers by actor \<and> \<not> covers actor by"

definition entitled :: "u64 \<Rightarrow> Holder \<Rightarrow> Edit \<Rightarrow> bool" where
  "entitled key by e \<longleftrightarrow>
     (case e of
        SetStatus i to actor \<Rightarrow> parse_uint i = Some key \<and> (if to = KInProgress then start_takes by actor else covers actor by)
      | TakeOver i from actor \<Rightarrow> parse_uint i = Some key \<and>
          (by = from \<and> \<not> is_human by \<and> \<not> covers actor by \<or> start_takes by actor)
      | ReleaseAllOf holder \<Rightarrow> \<not> is_human holder \<and> covers holder by
      | Purge i \<Rightarrow> parse_uint i = Some key
      | _ \<Rightarrow> False)"

lemma transition_claimed:
  "transition (InProgress by) to actor = Inr new \<Longrightarrow>
     ((case new of Some s \<Rightarrow> s | None \<Rightarrow> InProgress by) \<noteq> InProgress by
        \<longleftrightarrow> (if to = KInProgress then start_takes by actor else covers actor by))"
  by (cases to) (auto simp: transition_def start_takes_def moved_to_def covers_def is_tracker_def split: if_splits)

lemma take_over_claimed:
  "take_over (InProgress by) from actor = Inr new \<Longrightarrow>
     ((case new of Some s \<Rightarrow> s | None \<Rightarrow> InProgress by) \<noteq> InProgress by
        \<longleftrightarrow> by = from \<and> \<not> is_human by \<and> \<not> covers actor by \<or> start_takes by actor)"
  using transition_claimed [of "by" KInProgress actor new]
  by (auto simp: take_over_def covers_def split: if_splits)

lemma set_todo_status_claim:
  assumes "set_todo_status at stamp d i rule = Inr (ch, d')" and "row_status d key = Some s"
    and "\<And>new. rule s = Inr new \<Longrightarrow> ((case new of Some s' \<Rightarrow> s' | None \<Rightarrow> s) \<noteq> s) = P"
  shows "row_status d' key \<noteq> Some s \<longleftrightarrow> parse_uint i = Some key \<and> P"
proof -
  from assms(1) obtain k t new where t: "todo_at d i = Inr (k, t)" "rule (td_status t) = Inr new"
    and d': "d' = put k (snd (move_to at stamp t new)) d"
    by (auto simp: set_todo_status_def split: sum.splits prod.splits)
  from t(1) have k: "parse_uint i = Some k" "bt_get (bd_todos d) k = Some t" by (simp_all add: todo_at_Inr)
  show ?thesis
  proof (cases "k = key")
    case True
    with k assms(2) have "td_status t = s" by (simp add: row_status_def)
    moreover have "row_status d' key = Some (case new of Some s' \<Rightarrow> s' | None \<Rightarrow> td_status t)"
      using True by (simp add: row_status_def d' move_to_def split: option.split)
    ultimately show ?thesis using True k(1) assms(3) t(2) by auto
  next
    case False
    with assms(2) k(1) show ?thesis by (simp add: row_status_def d')
  qed
qed

lemma unclaimed_row:
  assumes a: "builtin_apply at stamp e d = Inr (ch, d')" and e: "edits_todo e = Some i"
    and "\<And>j to actor. e \<noteq> SetStatus j to actor" "\<And>j fr actor. e \<noteq> TakeOver j fr actor" "\<And>j. e \<noteq> Purge j"
  shows "row_status d' key = row_status d key"
proof -
  have "ch = []"
    using a assms(3-5) e
    by (cases e) (auto simp: builtin_apply_def edit_todo_def move_todo_def map_sum_Inr Let_def split: sum.splits option.splits)
  moreover obtain k t new where t: "todo_at d i = Inr (k, t)" "ch = status_reports at t new" "d' = write_row k new d"
    using apply_row [OF a e] by (auto simp: row_written_def)
  ultimately have "map_option td_status new = Some (td_status t)"
    by (simp add: status_reports_def split: if_splits)
  with t show ?thesis by (auto simp: row_status_def write_row_get todo_at_Inr)
qed

lemma claim_ends:
  assumes a: "builtin_apply at stamp e d = Inr (ch, d')" and ok: "builtin_ok d"
    and held: "row_status d key = Some (InProgress by)"
  shows "row_status d' key \<noteq> Some (InProgress by) \<longleftrightarrow> entitled key by e"
proof (cases "edits_todo e")
  case None
  then consider (release) h where "e = ReleaseAllOf h" | (prune) ids where "e = PruneIds ids" by (cases e) auto
  then show ?thesis
  proof cases
    case release
    with a have r: "release_held at stamp d h = (ch, d')" by (simp add: builtin_apply_def)
    from held obtain t where t: "bt_get (bd_todos d) key = Some t" "td_status t = InProgress by"
      by (auto simp: row_status_def)
    with release_held_gets(1) [OF r, of key] show ?thesis
      by (auto simp: row_status_def entitled_def release released_by_def)
  next
    case prune
    define keys :: "u64 list" where "keys = List.map_filter parse_uint (removable (bt_values (bd_todos d)) ids)"
    from a prune have r: "remove_keys at keys [] d = (ch, d')" by (simp add: builtin_apply_def keys_def)
    have "key \<notin> set keys"
    proof
      assume "key \<in> set keys"
      then obtain i where i: "i \<in> set (removable (bt_values (bd_todos d)) ids)" "parse_uint i = Some key"
        by (auto simp: keys_def in_map_filter)
      then obtain t where t: "t \<in> set (bt_values (bd_todos d))" "\<not> todo_open t" "td_id t = i"
        by (auto simp: removable_def)
      have w: "bt_wf (bd_todos d)" using ok by (simp add: builtin_ok_def)
      from t(1) obtain k where k: "bt_get (bd_todos d) k = Some t" using w by (auto simp: bt_get_Some)
      have "i = show_uint k" using builtin_ok_row [OF ok k] t(3) by (simp add: row_ok_def)
      with i(2) have "k = key" by (simp add: parse_show_uint)
      with k held t(2) show False by (simp add: row_status_def todo_open_def kind_def is_open_def)
    qed
    with remove_keys_gets [OF r] held show ?thesis by (simp add: row_status_def entitled_def prune)
  qed
next
  case (Some i)
  show ?thesis
  proof (cases e)
    case (SetStatus j to actor)
    with a have "set_todo_status at stamp d j (\<lambda>s. transition s to actor) = Inr (ch, d')" by (simp add: builtin_apply_def)
    from set_todo_status_claim [OF this held transition_claimed] show ?thesis by (simp add: SetStatus entitled_def)
  next
    case (TakeOver j fr actor)
    with a have "set_todo_status at stamp d j (\<lambda>s. take_over s fr actor) = Inr (ch, d')" by (simp add: builtin_apply_def)
    from set_todo_status_claim [OF this held take_over_claimed] show ?thesis by (simp add: TakeOver entitled_def)
  next
    case (Purge j)
    with a obtain k t where "todo_at d j = Inr (k, t)" "d' = d\<lparr>bd_todos := bt_remove k (bd_todos d)\<rparr>"
      by (auto simp: builtin_apply_def split: sum.splits)
    with held show ?thesis by (auto simp: row_status_def entitled_def Purge todo_at_Inr bt_remove_get)
  qed (use unclaimed_row [OF a Some, of key] held Some in \<open>simp_all add: entitled_def\<close>)
qed

section \<open>The file while nobody is entitled\<close>

text \<open>Any operation on the store, an edit only when it is not one that ends the claim.\<close>

inductive spares :: "u64 \<Rightarrow> Holder \<Rightarrow> doc_fs \<Rightarrow> doc_fs \<Rightarrow> bool" for key "by" where
  listed: "store_list io (read :: string \<Rightarrow> _) nodes fs = (r, fs') \<Longrightarrow> spares key by fs fs'"
| got: "store_get io i fs = (r, fs') \<Longrightarrow> spares key by fs fs'"
| added: "store_add io stamp new fs = (r, fs') \<Longrightarrow> order_fits (nt_order new) \<Longrightarrow> has_room fs \<Longrightarrow> spares key by fs fs'"
| edited: "store_apply io at stamp e fs = (r, fs') \<Longrightarrow> edit_fits e \<Longrightarrow> \<not> entitled key by e \<Longrightarrow> spares key by fs fs'"

definition claimed_in :: "u64 \<Rightarrow> Holder \<Rightarrow> doc_fs \<Rightarrow> bool" where
  "claimed_in key by fs \<longleftrightarrow>
     (\<exists>d. todo_file fs = Inr d \<and> builtin_ok d \<and> row_status d key = Some (InProgress by))"

lemma spares_claimed:
  assumes "spares key by fs fs'" and "claimed_in key by fs"
  shows "claimed_in key by fs'"
proof -
  from assms(2) obtain d where d: "todo_file fs = Inr d" "builtin_ok d" "row_status d key = Some (InProgress by)"
    by (auto simp: claimed_in_def)
  have doc: "claimed_in key by fs'"
    if w: "with_lock_strict todo_document io f fs = (r, fs')"
      and keeps: "\<forall>d b d'. todo_doc_ok d \<longrightarrow> f d = Inr (b, d') \<longrightarrow> todo_doc_ok d'"
      and claim: "\<And>a d'. f d = Inr (a, d') \<Longrightarrow> builtin_ok d' \<and> row_status d' key = Some (InProgress by)"
    for io and f :: "TodoDoc \<Rightarrow> todo_fault + 'x \<times> TodoDoc" and r
  proof -
    from file_after [OF w keeps] consider "fs' = fs"
      | a d' where "f d = Inr (a, d')" "todo_file fs' = Inr (d'\<lparr>bd_version := todo_doc_version\<rparr>)"
      using d(1) by auto
    then show ?thesis
    proof cases
      case 1
      with assms(2) show ?thesis by simp
    next
      case 2
      with claim [OF 2(1)] show ?thesis by (simp add: claimed_in_def)
    qed
  qed
  show ?thesis
    using assms(1)
  proof (cases rule: spares.cases)
    case (listed io read nodes r)
    then have "with_lock_strict todo_document io (\<lambda>d. Inr (filter (\<lambda>t. node_matches read nodes (td_project t))
        (bt_values (bd_todos d)), d)) fs = (r, fs')" by (simp add: store_list_def)
    from doc [OF this] d show ?thesis by simp
  next
    case (got io i r)
    show ?thesis
    proof (cases "parse_uint i :: u64 option")
      case None
      with got assms(2) show ?thesis by (simp add: store_get_def)
    next
      case (Some k)
      with got have "with_lock_strict todo_document io (\<lambda>d. Inr (bt_get (bd_todos d) k, d)) fs = (r, fs')"
        by (simp add: store_get_def)
      from doc [OF this] d show ?thesis by simp
    qed
  next
    case (added io stamp new r)
    then have w: "with_lock_strict todo_document io (builtin_add stamp new) fs = (r, fs')" by (simp add: store_add_def)
    have room: "bd_next_id d < - 1" using added(3) d(1) by (simp add: has_room_def)
    show ?thesis
    proof (rule doc [OF w])
      show "\<forall>d b d'. todo_doc_ok d \<longrightarrow> builtin_add stamp new d = Inr (b, d') \<longrightarrow> todo_doc_ok d'"
        using add_doc_ok added(2) by blast
      fix a d' assume n: "builtin_add stamp new d = Inr (a, d')"
      have "key \<noteq> fresh_key d" using fresh_key_new [OF d(2)] d(3) by (auto simp: row_status_def)
      with builtin_add_Inr [OF n] d(3) have "row_status d' key = Some (InProgress by)"
        by (auto simp: row_status_def)
      with add_ok [OF d(2) n added(2) room] show "builtin_ok d' \<and> row_status d' key = Some (InProgress by)" by simp
    qed
  next
    case (edited io at stamp e r)
    then have w: "with_lock_strict todo_document io (builtin_apply at stamp e) fs = (r, fs')" by (simp add: store_apply_def)
    show ?thesis
    proof (rule doc [OF w])
      show "\<forall>d b d'. todo_doc_ok d \<longrightarrow> builtin_apply at stamp e d = Inr (b, d') \<longrightarrow> todo_doc_ok d'"
        using apply_doc_ok edited(2) by blast
      fix a d' assume n: "builtin_apply at stamp e d = Inr (a, d')"
      have "shrunk d d'" using apply_shrunk [OF n edited(2)] d(2) by (simp add: builtin_ok_def)
      with shrunk_ok [OF d(2)] claim_ends [OF n d(2,3)] edited(3)
      show "builtin_ok d' \<and> row_status d' key = Some (InProgress by)" by blast
    qed
  qed
qed

text \<open>
  C7: who can end a claim. An accepted edit of the built-in store ends the claim a holder has on a todo exactly when it
  is one of these: a change to another status by a holder that covers the claimant (the claimant, one above it in its
  session, a person, the tracker); a start by one of the claimant's own sub-agents unless the claimant is a
  person, or by anybody when the claimant is the tracker; a take-over that names the claimant, unless
  that is a person; a release of everything by a holder that covers the claimant and is not a person; the removal of
  this todo. And so over time: whatever adds, listings and edits run on the file, with whatever faults, the todo stays
  in progress by its claimant as long as none of them is one of these.
\<close>

theorem claim_protected:
  assumes "todo_file fs = Inr d" and "builtin_ok d" and "row_status d key = Some (InProgress by)"
  shows "(\<forall>at stamp e ch d'. builtin_apply at stamp e d = Inr (ch, d') \<longrightarrow>
      (row_status d' key \<noteq> Some (InProgress by) \<longleftrightarrow> entitled key by e))
    \<and> (\<forall>fs'. (spares key by)\<^sup>*\<^sup>* fs fs' \<longrightarrow>
      (\<exists>d'. todo_file fs' = Inr d' \<and> row_status d' key = Some (InProgress by)))"
proof (intro conjI allI impI)
  fix at stamp e ch d' assume "builtin_apply at stamp e d = Inr (ch, d')"
  then show "row_status d' key \<noteq> Some (InProgress by) \<longleftrightarrow> entitled key by e"
    using assms(2,3) by (rule claim_ends)
next
  fix fs' assume s: "(spares key by)\<^sup>*\<^sup>* fs fs'"
  have "claimed_in key by fs" using assms by (auto simp: claimed_in_def)
  with s have "claimed_in key by fs'"
    by (induction rule: rtranclp_induct) (blast intro: spares_claimed)+
  then show "\<exists>d'. todo_file fs' = Inr d' \<and> row_status d' key = Some (InProgress by)" by (auto simp: claimed_in_def)
qed

definition demo_claimed :: TodoDoc where
  "demo_claimed = put 1 (demo_first\<lparr>td_status := InProgress ''S'', td_modified := Some ''u''\<rparr>) one_doc"

lemma demo_claim:
  obtains fs where "todo_file fs = Inr (demo_claimed\<lparr>bd_version := todo_doc_version\<rparr>)"
    "builtin_ok (demo_claimed\<lparr>bd_version := todo_doc_version\<rparr>)"
    "row_status (demo_claimed\<lparr>bd_version := todo_doc_version\<rparr>) 1 = Some (InProgress ''S'')"
proof -
  obtain fs1 where 1: "todo_file fs1 = Inr one_doc" using demo_story by metis
  have status: "td_status demo_first = Pending" by (simp add: demo_first_def)
  have e: "builtin_apply 5 ''u'' (SetStatus ''1'' KInProgress ''S'') one_doc
      = Inr ([change_of 5 demo_first (Some (InProgress ''S''))], demo_claimed)"
    by (simp add: builtin_apply_def set_todo_status_def demo_at status move_to_def transition_def moved_to_def kind_def
      demo_claimed_def)
  have f: "edit_fits (SetStatus ''1'' KInProgress ''S'')" by simp
  have w: "bt_wf (bd_todos one_doc)" using demo_builtin_ok by (simp add: builtin_ok_def)
  from shrunk_ok [OF demo_builtin_ok apply_shrunk [OF e f w]] have ok: "builtin_ok demo_claimed" .
  from store_apply_lands [OF 1 demo_ok(2) e f] obtain fs
    where "todo_file fs = Inr (demo_claimed\<lparr>bd_version := todo_doc_version\<rparr>)" by blast
  then show ?thesis by (rule that) (simp_all add: ok, simp add: row_status_def demo_claimed_def)
qed

theorem claim_protected_witness:
  "\<exists>fs. todo_file fs = Inr (demo_claimed\<lparr>bd_version := todo_doc_version\<rparr>)
     \<and> (\<exists>d. todo_file (snd (store_apply clean_io 6 ''v'' (SetStatus ''1'' KCompleted ''T'') fs)) = Inr d
          \<and> row_status d 1 = Some (InProgress ''S''))"
proof -
  obtain fs where fs: "todo_file fs = Inr (demo_claimed\<lparr>bd_version := todo_doc_version\<rparr>)"
    "builtin_ok (demo_claimed\<lparr>bd_version := todo_doc_version\<rparr>)"
    "row_status (demo_claimed\<lparr>bd_version := todo_doc_version\<rparr>) 1 = Some (InProgress ''S'')"
    by (rule demo_claim)
  have n: "\<not> entitled 1 ''S'' (SetStatus ''1'' KCompleted ''T'')"
    by (simp add: entitled_def covers_def is_human_def is_tracker_def slash_below_def)
  have "spares 1 ''S'' fs (snd (store_apply clean_io 6 ''v'' (SetStatus ''1'' KCompleted ''T'') fs))"
    by (rule spares.edited [OF prod.collapse [symmetric] _ n]) simp
  then have "(spares 1 ''S'')\<^sup>*\<^sup>* fs (snd (store_apply clean_io 6 ''v'' (SetStatus ''1'' KCompleted ''T'') fs))"
    by (rule r_into_rtranclp)
  with claim_protected [OF fs, THEN conjunct2] fs(1) show ?thesis by blast
qed

end
