(* ===== verification/Todo_Diff.thy ===== *)
theory Todo_Diff
  imports Todo_Model
begin

text \<open>
  Turning a resent plan into edits (\<open>crates/devkit-todo/src/diff.rs\<close>): plan tools send their whole list on
  every call, and each call is compared with the previous one. The edits are shown to take a store that
  holds the previous list to one that holds the next.
\<close>

section \<open>The comparison\<close>

record Step =
  sp_text :: string
  sp_status :: StatusKind

record Mirrored =
  mi_text :: string
  mi_todo :: string
  mi_status :: StatusKind

datatype Change = Add nat | Cancel string | StatusTo string StatusKind | ReorderTo string int

text \<open>The \<open>paired\<close> flags of the code are threaded through the steps.\<close>

fun pair_loop :: "Mirrored list \<Rightarrow> bool list \<Rightarrow> Step list \<Rightarrow> nat option list" where
  "pair_loop previous paired [] = []"
| "pair_loop previous paired (s # ss) =
     (let found = find (\<lambda>i. \<not> paired ! i \<and> mi_text (previous ! i) = sp_text s) [0..<length previous] in
      found # pair_loop previous (case found of Some i \<Rightarrow> paired[i := True] | None \<Rightarrow> paired) ss)"

definition pair_steps :: "Mirrored list \<Rightarrow> Step list \<Rightarrow> nat option list" where
  "pair_steps previous ss = pair_loop previous (replicate (length previous) False) ss"

definition filter_map :: "('a \<Rightarrow> 'b option) \<Rightarrow> 'a list \<Rightarrow> 'b list" where
  "filter_map f xs = List.map_filter f xs"

definition diff :: "Mirrored list \<Rightarrow> Step list \<Rightarrow> Change list" where
  "diff previous ss =
     (let pairs = pair_steps previous ss;
          paired = fold (\<lambda>p flags. case p of Some i \<Rightarrow> flags[i := True] | None \<Rightarrow> flags) pairs
                     (replicate (length previous) False);
          adds = filter_map (\<lambda>(index, p). if p = None then Some (Add index) else None) (enumerate 0 pairs);
          statuses = filter_map (\<lambda>(p, step). case p of None \<Rightarrow> None
              | Some i \<Rightarrow> (let prev = previous ! i in
                  if mi_status prev \<noteq> sp_status step then Some (StatusTo (mi_todo prev) (sp_status step)) else None))
              (zip pairs ss);
          cancels = map (\<lambda>(prev, _). Cancel (mi_todo prev)) (filter (\<lambda>(_, f). \<not> f) (zip previous paired));
          reorders = filter_map (\<lambda>(index, p). case p of None \<Rightarrow> None
              | Some i \<Rightarrow> if i \<noteq> index then Some (ReorderTo (mi_todo (previous ! i)) (int index * order_gap)) else None)
              (enumerate 0 pairs)
      in adds @ statuses @ cancels @ reorders)"

section \<open>Pairing\<close>

lemma find_upt_Some:
  "find P [0..<n] = Some i \<longleftrightarrow> i < n \<and> P i \<and> (\<forall>k<i. \<not> P k)"
  by (auto simp: find_Some_iff)

lemma list_update_True: "\<not> flags[a := True] ! i \<Longrightarrow> \<not> flags ! i"
  by (cases "a < length flags"; cases "i = a") (auto simp: not_less list_update_beyond)

lemma pair_loop_length [simp]: "length (pair_loop previous paired ss) = length ss"
  by (induction ss arbitrary: paired) (simp_all add: Let_def)

lemma pair_loop_nth:
  assumes "length paired = length previous" and "j < length ss" and "pair_loop previous paired ss ! j = Some i"
  shows "i < length previous \<and> \<not> paired ! i \<and> mi_text (previous ! i) = sp_text (ss ! j)"
  using assms
proof (induction ss arbitrary: paired j)
  case (Cons s ss)
  define found where "found = find (\<lambda>i. \<not> paired ! i \<and> mi_text (previous ! i) = sp_text s) [0..<length previous]"
  show ?case
  proof (cases j)
    case 0
    with Cons.prems show ?thesis by (simp add: Let_def find_upt_Some)
  next
    case (Suc k)
    define paired' where "paired' = (case found of Some i \<Rightarrow> paired[i := True] | None \<Rightarrow> paired)"
    have rest: "length paired' = length previous" "k < length ss" "pair_loop previous paired' ss ! k = Some i"
      using Cons.prems Suc by (auto simp: paired'_def found_def Let_def split: option.splits)
    have "\<not> paired' ! i \<Longrightarrow> \<not> paired ! i"
      unfolding paired'_def by (cases found) (auto dest: list_update_True)
    with Cons.IH [OF rest] Suc show ?thesis by simp
  qed
qed simp

lemma pair_loop_inj:
  assumes "length paired = length previous" and "j < length ss" "k < length ss"
    and "pair_loop previous paired ss ! j = Some i" "pair_loop previous paired ss ! k = Some i"
  shows "j = k"
  using assms
proof (induction ss arbitrary: paired j k)
  case (Cons s ss)
  define found where "found = find (\<lambda>i. \<not> paired ! i \<and> mi_text (previous ! i) = sp_text s) [0..<length previous]"
  define paired' where "paired' = (case found of Some i \<Rightarrow> paired[i := True] | None \<Rightarrow> paired)"
  have eq: "pair_loop previous paired (s # ss) = found # pair_loop previous paired' ss"
    by (simp add: found_def paired'_def Let_def)
  have len: "length paired' = length previous"
    using Cons.prems(1) by (simp add: paired'_def split: option.splits)
  have head: False if "found = Some i" "n < length ss" "pair_loop previous paired' ss ! n = Some i" for n
  proof -
    from pair_loop_nth [OF len that(2,3)] have "\<not> paired' ! i" by simp
    moreover have "i < length previous" using that(1) by (simp add: found_def find_upt_Some)
    ultimately show False using that(1) Cons.prems(1) by (simp add: paired'_def)
  qed
  show ?case
    using Cons.prems head Cons.IH [OF len] unfolding eq by (cases j; cases k) auto
qed simp

lemma pair_loop_same:
  assumes "length paired = length previous" and "length previous = m + length ss"
    and "\<forall>k < m. paired ! k" and "\<forall>k. m \<le> k \<and> k < length previous \<longrightarrow> \<not> paired ! k"
    and "map mi_text (drop m previous) = map sp_text ss"
  shows "pair_loop previous paired ss = map Some [m..<length previous]"
  using assms
proof (induction ss arbitrary: paired m)
  case (Cons s ss)
  have m: "m < length previous" using Cons.prems(2) by simp
  then have drop: "drop m previous = previous ! m # drop (Suc m) previous" by (rule Cons_nth_drop_Suc [symmetric])
  have found: "find (\<lambda>i. \<not> paired ! i \<and> mi_text (previous ! i) = sp_text s) [0..<length previous] = Some m"
    using Cons.prems m by (intro find_upt_Some [THEN iffD2]) (simp add: drop)
  have "pair_loop previous (paired[m := True]) ss = map Some [Suc m..<length previous]"
    using Cons.prems by (intro Cons.IH) (auto simp: drop nth_list_update less_Suc_eq)
  with found m show ?case by (simp add: Let_def upt_conv_Cons)
qed simp

lemma pair_length [simp]: "length (pair_steps previous ss) = length ss"
  by (simp add: pair_steps_def)

lemma pair_nth:
  "j < length ss \<Longrightarrow> pair_steps previous ss ! j = Some i \<Longrightarrow>
     i < length previous \<and> mi_text (previous ! i) = sp_text (ss ! j)"
  unfolding pair_steps_def using pair_loop_nth by force

lemma pair_inj:
  "j < length ss \<Longrightarrow> k < length ss \<Longrightarrow> pair_steps previous ss ! j = Some i \<Longrightarrow>
     pair_steps previous ss ! k = Some i \<Longrightarrow> j = k"
  unfolding pair_steps_def by (rule pair_loop_inj) simp_all

lemma paired_flags:
  assumes "i < length flags"
  shows "fold (\<lambda>p flags. case p of Some i \<Rightarrow> flags[i := True] | None \<Rightarrow> flags) pairs flags ! i
     \<longleftrightarrow> flags ! i \<or> Some i \<in> set pairs"
  using assms
proof (induction pairs arbitrary: flags)
  case (Cons p pairs)
  show ?case
  proof (cases p)
    case (Some a)
    with Cons.IH [of "flags[a := True]"] Cons.prems show ?thesis by (cases "i = a") auto
  qed (use Cons in simp)
qed simp

lemma paired_flags_length [simp]:
  "length (fold (\<lambda>p flags. case p of Some i \<Rightarrow> flags[i := True] | None \<Rightarrow> flags) pairs flags) = length flags"
proof (induction pairs arbitrary: flags)
  case (Cons p pairs)
  then show ?case by (cases p) simp_all
qed simp

section \<open>What the edits do\<close>

text \<open>
  A store of todos: each id's status and order. The caller turns each change into the edit it names;
  an added step becomes the todo \<open>fresh index\<close>, with the step's status, at its place.
\<close>

fun apply_change :: "(nat \<Rightarrow> string) \<Rightarrow> Step list \<Rightarrow> Change \<Rightarrow>
    (string \<rightharpoonup> StatusKind \<times> int) \<Rightarrow> (string \<rightharpoonup> StatusKind \<times> int)" where
  "apply_change fresh ss (Add j) st = st(fresh j \<mapsto> (sp_status (ss ! j), int j * order_gap))"
| "apply_change fresh ss (Cancel t) st = st(t := map_option (\<lambda>(_, n). (KCancelled, n)) (st t))"
| "apply_change fresh ss (StatusTo t k) st = st(t := map_option (\<lambda>(_, n). (k, n)) (st t))"
| "apply_change fresh ss (ReorderTo t n) st = st(t := map_option (\<lambda>(k, _). (k, n)) (st t))"

fun target_of :: "(nat \<Rightarrow> string) \<Rightarrow> Change \<Rightarrow> string" where
  "target_of fresh (Add j) = fresh j"
| "target_of fresh (Cancel t) = t"
| "target_of fresh (StatusTo t k) = t"
| "target_of fresh (ReorderTo t n) = t"

lemma apply_change_other: "target_of fresh c \<noteq> t \<Longrightarrow> apply_change fresh ss c st t = st t"
  by (cases c) auto

lemma apply_change_local: "st t = st' t \<Longrightarrow> apply_change fresh ss c st t = apply_change fresh ss c st' t"
  by (cases c) auto

lemma fold_changes_local:
  "st t = st' t \<Longrightarrow> fold (apply_change fresh ss) cs st t =
     fold (apply_change fresh ss) (filter (\<lambda>c. target_of fresh c = t) cs) st' t"
proof (induction cs arbitrary: st st')
  case (Cons c cs)
  show ?case
  proof (cases "target_of fresh c = t")
    case True
    have "apply_change fresh ss c st t = apply_change fresh ss c st' t"
      using Cons.prems by (rule apply_change_local)
    then show ?thesis using True by (simp add: Cons.IH)
  next
    case False
    with Cons show ?thesis by (simp add: apply_change_other)
  qed
qed simp

text \<open>A list of which at most one place satisfies a predicate, filtered.\<close>

lemma filter_map_unique:
  assumes "i < length xs" and "\<And>k. k < length xs \<Longrightarrow> k \<noteq> i \<Longrightarrow> \<forall>c. f (xs ! k) = Some c \<longrightarrow> \<not> P c"
  shows "filter P (filter_map f xs) = (case f (xs ! i) of Some c \<Rightarrow> if P c then [c] else [] | None \<Rightarrow> [])"
  using assms
proof (induction xs arbitrary: i)
  case (Cons x xs)
  have none: "filter P (filter_map f xs) = []" if "\<And>k. k < length xs \<Longrightarrow> \<forall>c. f (xs ! k) = Some c \<longrightarrow> \<not> P c" for xs
    using that
  proof (induction xs)
    case (Cons y ys)
    have "filter P (filter_map f ys) = []"
      by (rule Cons.IH) (use Cons.prems [of "Suc k" for k] in simp)
    with Cons.prems [of 0] show ?case
      by (auto simp: filter_map_def map_filter_simps split: option.splits)
  qed (simp add: filter_map_def map_filter_simps)
  show ?case
  proof (cases i)
    case 0
    have "filter P (filter_map f xs) = []"
      by (rule none) (use Cons.prems(2) [of "Suc k" for k] 0 in simp)
    then show ?thesis using 0 by (auto simp: filter_map_def map_filter_simps split: option.splits)
  next
    case (Suc k)
    have "filter P (filter_map f xs) = (case f (xs ! k) of Some c \<Rightarrow> if P c then [c] else [] | None \<Rightarrow> [])"
    proof (rule Cons.IH)
      show "k < length xs" using Cons.prems(1) Suc by simp
      show "\<forall>c. f (xs ! n) = Some c \<longrightarrow> \<not> P c" if "n < length xs" "n \<noteq> k" for n
        using Cons.prems(2) [of "Suc n"] that Suc by simp
    qed
    with Cons.prems(2) [of 0] Suc show ?thesis
      by (auto simp: filter_map_def map_filter_simps split: option.splits)
  qed
qed simp

lemma filter_map_never:
  assumes "\<And>k c. k < length xs \<Longrightarrow> f (xs ! k) = Some c \<Longrightarrow> \<not> P c"
  shows "filter P (filter_map f xs) = []"
proof -
  have "\<not> P c" if "c \<in> set (filter_map f xs)" for c
    using that assms by (auto simp: filter_map_def map_filter_def in_set_conv_nth)
  then show ?thesis by (auto simp: filter_empty_conv)
qed

lemma map_filter_filter_map: "map g (filter P xs) = filter_map (\<lambda>x. if P x then Some (g x) else None) xs"
  by (induction xs) (simp_all add: filter_map_def map_filter_simps)

text \<open>The four kinds of change, each as a function of one place.\<close>

definition add_at :: "nat \<times> nat option \<Rightarrow> Change option" where
  "add_at x = (if snd x = None then Some (Add (fst x)) else None)"

definition status_at :: "Mirrored list \<Rightarrow> nat option \<times> Step \<Rightarrow> Change option" where
  "status_at previous x = (case fst x of None \<Rightarrow> None
     | Some i \<Rightarrow> if mi_status (previous ! i) \<noteq> sp_status (snd x)
         then Some (StatusTo (mi_todo (previous ! i)) (sp_status (snd x))) else None)"

definition cancel_at :: "Mirrored \<times> bool \<Rightarrow> Change option" where
  "cancel_at x = (if \<not> snd x then Some (Cancel (mi_todo (fst x))) else None)"

definition reorder_at :: "Mirrored list \<Rightarrow> nat \<times> nat option \<Rightarrow> Change option" where
  "reorder_at previous x = (case snd x of None \<Rightarrow> None
     | Some i \<Rightarrow> if i \<noteq> fst x then Some (ReorderTo (mi_todo (previous ! i)) (int (fst x) * order_gap)) else None)"

definition flags_of :: "Mirrored list \<Rightarrow> Step list \<Rightarrow> bool list" where
  "flags_of previous ss = fold (\<lambda>p flags. case p of Some i \<Rightarrow> flags[i := True] | None \<Rightarrow> flags)
     (pair_steps previous ss) (replicate (length previous) False)"

lemma flags_of_length [simp]: "length (flags_of previous ss) = length previous"
  by (simp add: flags_of_def)

lemma flags_of_nth: "i < length previous \<Longrightarrow> flags_of previous ss ! i \<longleftrightarrow> Some i \<in> set (pair_steps previous ss)"
  by (simp add: flags_of_def paired_flags)

lemma diff_eq:
  "diff previous ss =
     filter_map add_at (enumerate 0 (pair_steps previous ss))
     @ filter_map (status_at previous) (zip (pair_steps previous ss) ss)
     @ filter_map cancel_at (zip previous (flags_of previous ss))
     @ filter_map (reorder_at previous) (enumerate 0 (pair_steps previous ss))"
proof -
  have a: "(\<lambda>(index, p). if p = None then Some (Add index) else None) = add_at"
    by (auto simp: add_at_def fun_eq_iff)
  have b: "(\<lambda>(p, step). case p of None \<Rightarrow> None
      | Some i \<Rightarrow> if mi_status (previous ! i) \<noteq> sp_status step
          then Some (StatusTo (mi_todo (previous ! i)) (sp_status step)) else None) = status_at previous"
    by (auto simp: status_at_def fun_eq_iff split: option.splits)
  have c: "map (\<lambda>(prev, _). Cancel (mi_todo prev)) (filter (\<lambda>(_, f). \<not> f) xs) = filter_map cancel_at xs"
    for xs :: "(Mirrored \<times> bool) list"
    unfolding map_filter_filter_map by (intro arg_cong2 [where f = filter_map] ext) (auto simp: cancel_at_def)
  have d: "(\<lambda>(index, p). case p of None \<Rightarrow> None
      | Some i \<Rightarrow> if i \<noteq> index then Some (ReorderTo (mi_todo (previous ! i)) (int index * order_gap)) else None)
      = reorder_at previous"
    by (auto simp: reorder_at_def fun_eq_iff split: option.splits)
  show ?thesis unfolding diff_def Let_def a b c d flags_of_def ..
qed

section \<open>The edits on one id\<close>

definition id_at :: "(nat \<Rightarrow> string) \<Rightarrow> Mirrored list \<Rightarrow> Step list \<Rightarrow> nat \<Rightarrow> string" where
  "id_at fresh previous ss j = (case pair_steps previous ss ! j of
     Some i \<Rightarrow> mi_todo (previous ! i) | None \<Rightarrow> fresh j)"

definition mirror_ok :: "(nat \<Rightarrow> string) \<Rightarrow> Mirrored list \<Rightarrow> Step list \<Rightarrow> bool" where
  "mirror_ok fresh previous ss \<longleftrightarrow> distinct (map mi_todo previous) \<and> inj_on fresh {..<length ss}
     \<and> (\<forall>j<length ss. fresh j \<notin> mi_todo ` set previous)"

abbreviation changes_on :: "(nat \<Rightarrow> string) \<Rightarrow> string \<Rightarrow> Change list \<Rightarrow> Change list" where
  "changes_on fresh t \<equiv> filter (\<lambda>c. target_of fresh c = t)"

lemma mirror_todo_eq:
  "mirror_ok fresh previous ss \<Longrightarrow> i < length previous \<Longrightarrow> k < length previous \<Longrightarrow>
     mi_todo (previous ! i) = mi_todo (previous ! k) \<longleftrightarrow> i = k"
  unfolding mirror_ok_def by (metis length_map nth_eq_iff_index_eq nth_map)

lemma mirror_fresh:
  "mirror_ok fresh previous ss \<Longrightarrow> j < length ss \<Longrightarrow> i < length previous \<Longrightarrow> fresh j \<noteq> mi_todo (previous ! i)"
  unfolding mirror_ok_def by (metis image_eqI nth_mem)

lemma changes_on_paired:
  assumes ok: "mirror_ok fresh previous ss" and j: "j < length ss" "pair_steps previous ss ! j = Some i"
  shows "changes_on fresh (mi_todo (previous ! i)) (diff previous ss) =
     (if mi_status (previous ! i) \<noteq> sp_status (ss ! j) then [StatusTo (mi_todo (previous ! i)) (sp_status (ss ! j))] else [])
     @ (if i \<noteq> j then [ReorderTo (mi_todo (previous ! i)) (int j * order_gap)] else [])"
proof -
  note i = pair_nth [OF j, THEN conjunct1]
  have other: "mi_todo (previous ! i') \<noteq> mi_todo (previous ! i)"
    if "k < length ss" "k \<noteq> j" "pair_steps previous ss ! k = Some i'" for k i'
    using mirror_todo_eq [OF ok pair_nth [OF that(1,3), THEN conjunct1] i] pair_inj [OF that(1) j(1) _ j(2)] that by auto
  have adds: "changes_on fresh (mi_todo (previous ! i)) (filter_map add_at (enumerate 0 (pair_steps previous ss))) = []"
    by (rule filter_map_never) (auto simp: nth_enumerate_eq add_at_def split: if_splits dest: mirror_fresh [OF ok _ i])
  have statuses: "changes_on fresh (mi_todo (previous ! i)) (filter_map (status_at previous) (zip (pair_steps previous ss) ss)) =
     (if mi_status (previous ! i) \<noteq> sp_status (ss ! j) then [StatusTo (mi_todo (previous ! i)) (sp_status (ss ! j))] else [])"
    by (subst filter_map_unique [where i = j])
      (auto simp: j status_at_def split: option.splits if_splits dest: other)
  have cancels: "changes_on fresh (mi_todo (previous ! i)) (filter_map cancel_at (zip previous (flags_of previous ss))) = []"
    by (rule filter_map_never)
      (use j in \<open>auto simp: cancel_at_def flags_of_nth mirror_todo_eq [OF ok _ i] in_set_conv_nth split: if_splits\<close>)
  have reorders: "changes_on fresh (mi_todo (previous ! i)) (filter_map (reorder_at previous) (enumerate 0 (pair_steps previous ss))) =
     (if i \<noteq> j then [ReorderTo (mi_todo (previous ! i)) (int j * order_gap)] else [])"
    by (subst filter_map_unique [where i = j])
      (auto simp: j reorder_at_def nth_enumerate_eq split: option.splits if_splits dest: other)
  show ?thesis by (simp only: diff_eq filter_append adds statuses cancels reorders append_Nil)
qed

lemma changes_on_fresh:
  assumes ok: "mirror_ok fresh previous ss" and j: "j < length ss" "pair_steps previous ss ! j = None"
  shows "changes_on fresh (fresh j) (diff previous ss) = [Add j]"
proof -
  have inj: "k = j" if "fresh k = fresh j" "k < length ss" for k
    using ok j(1) that unfolding mirror_ok_def by (auto dest: inj_onD)
  have mine: "mi_todo (previous ! i) \<noteq> fresh j" if "i < length previous" for i
    using mirror_fresh [OF ok j(1) that] by simp
  have paired: "mi_todo (previous ! i) \<noteq> fresh j" if "k < length ss" "pair_steps previous ss ! k = Some i" for k i
    using mine pair_nth [OF that] by simp
  have adds: "changes_on fresh (fresh j) (filter_map add_at (enumerate 0 (pair_steps previous ss))) = [Add j]"
    by (subst filter_map_unique [where i = j])
      (auto simp: j add_at_def nth_enumerate_eq split: if_splits dest: inj)
  have statuses: "changes_on fresh (fresh j) (filter_map (status_at previous) (zip (pair_steps previous ss) ss)) = []"
    by (rule filter_map_never) (auto simp: status_at_def split: option.splits if_splits dest: paired)
  have cancels: "changes_on fresh (fresh j) (filter_map cancel_at (zip previous (flags_of previous ss))) = []"
    by (rule filter_map_never) (auto simp: cancel_at_def split: if_splits dest: mine)
  have reorders: "changes_on fresh (fresh j) (filter_map (reorder_at previous) (enumerate 0 (pair_steps previous ss))) = []"
    by (rule filter_map_never) (auto simp: reorder_at_def nth_enumerate_eq split: option.splits if_splits dest: paired)
  show ?thesis by (simp only: diff_eq filter_append adds statuses cancels reorders append_Nil append_Nil2)
qed

lemma changes_on_unpaired:
  assumes ok: "mirror_ok fresh previous ss" and i: "i < length previous" "Some i \<notin> set (pair_steps previous ss)"
  shows "changes_on fresh (mi_todo (previous ! i)) (diff previous ss) = [Cancel (mi_todo (previous ! i))]"
proof -
  have paired: "mi_todo (previous ! i') \<noteq> mi_todo (previous ! i)" if "k < length ss" "pair_steps previous ss ! k = Some i'" for k i'
    using mirror_todo_eq [OF ok pair_nth [OF that, THEN conjunct1] i(1)] i(2) that nth_mem [of k "pair_steps previous ss"] by auto
  have adds: "changes_on fresh (mi_todo (previous ! i)) (filter_map add_at (enumerate 0 (pair_steps previous ss))) = []"
    by (rule filter_map_never) (auto simp: nth_enumerate_eq add_at_def split: if_splits dest: mirror_fresh [OF ok _ i(1)])
  have statuses: "changes_on fresh (mi_todo (previous ! i)) (filter_map (status_at previous) (zip (pair_steps previous ss) ss)) = []"
    by (rule filter_map_never) (auto simp: status_at_def split: option.splits if_splits dest: paired)
  have cancels: "changes_on fresh (mi_todo (previous ! i)) (filter_map cancel_at (zip previous (flags_of previous ss)))
      = [Cancel (mi_todo (previous ! i))]"
    by (subst filter_map_unique [where i = i])
      (use i in \<open>auto simp: cancel_at_def flags_of_nth mirror_todo_eq [OF ok _ i(1)] split: if_splits\<close>)
  have reorders: "changes_on fresh (mi_todo (previous ! i)) (filter_map (reorder_at previous) (enumerate 0 (pair_steps previous ss))) = []"
    by (rule filter_map_never) (auto simp: reorder_at_def nth_enumerate_eq split: option.splits if_splits dest: paired)
  show ?thesis by (simp only: diff_eq filter_append adds statuses cancels reorders append_Nil append_Nil2)
qed

section \<open>The properties\<close>

text \<open>
  C35: the edits take the previous list to the next. Let the store hold the previous list's todos with
  the statuses the list gives them, and let added steps get ids that are new. Then after the edits,
  every step of the next list has a todo of its own, with exactly the step's status: the todo of a
  previous step with the same text, or a new one; its order is the step's place in the next list
  times the gap, unless the step kept its place and with it its order. Every other todo of the
  previous list is cancelled, and nothing else in the store changes.
\<close>

theorem diff_reaches_next:
  assumes "mirror_ok fresh previous ss"
    and "\<forall>i<length previous. st (mi_todo (previous ! i)) = Some (mi_status (previous ! i), place i)"
  shows "inj_on (id_at fresh previous ss) {..<length ss}
    \<and> (\<forall>j<length ss. fold (apply_change fresh ss) (diff previous ss) st (id_at fresh previous ss j) =
         Some (sp_status (ss ! j), if pair_steps previous ss ! j = Some j then place j else int j * order_gap))
    \<and> (\<forall>j<length ss. \<forall>i. pair_steps previous ss ! j = Some i \<longrightarrow> mi_text (previous ! i) = sp_text (ss ! j))
    \<and> (\<forall>i<length previous. mi_todo (previous ! i) \<notin> id_at fresh previous ss ` {..<length ss} \<longrightarrow>
         fold (apply_change fresh ss) (diff previous ss) st (mi_todo (previous ! i)) = Some (KCancelled, place i))
    \<and> (\<forall>t. t \<notin> mi_todo ` set previous \<union> id_at fresh previous ss ` {..<length ss} \<longrightarrow>
         fold (apply_change fresh ss) (diff previous ss) st t = st t)"
proof (intro conjI allI impI)
  note ok = assms(1)
  show "inj_on (id_at fresh previous ss) {..<length ss}"
  proof (rule inj_onI, elim lessThan_iff [THEN iffD1, elim_format])
    fix j k assume jk: "j < length ss" "k < length ss" "id_at fresh previous ss j = id_at fresh previous ss k"
    show "j = k"
    proof (cases "pair_steps previous ss ! j")
      case None
      then show ?thesis
        using jk ok pair_nth [OF jk(2)] mirror_fresh [OF ok jk(1)]
        by (cases "pair_steps previous ss ! k") (auto simp: id_at_def mirror_ok_def dest: inj_onD)
    next
      case (Some i)
      note i = pair_nth [OF jk(1) Some, THEN conjunct1]
      show ?thesis
      proof (cases "pair_steps previous ss ! k")
        case None
        with Some jk show ?thesis using mirror_fresh [OF ok jk(2) i] by (simp add: id_at_def)
      next
        case (Some i')
        with \<open>pair_steps previous ss ! j = Some i\<close> jk have "i = i'"
          using mirror_todo_eq [OF ok i pair_nth [OF jk(2) Some, THEN conjunct1]] by (simp add: id_at_def)
        with pair_inj [OF jk(1,2)] Some \<open>pair_steps previous ss ! j = Some i\<close> show ?thesis by simp
      qed
    qed
  qed
  show "fold (apply_change fresh ss) (diff previous ss) st (id_at fresh previous ss j) =
         Some (sp_status (ss ! j), if pair_steps previous ss ! j = Some j then place j else int j * order_gap)"
    if j: "j < length ss" for j
  proof (cases "pair_steps previous ss ! j")
    case None
    then show ?thesis
      by (subst fold_changes_local [OF refl]) (simp add: id_at_def changes_on_fresh [OF ok j])
  next
    case (Some i)
    then show ?thesis using assms(2) pair_nth [OF j Some]
      by (subst fold_changes_local [OF refl]) (simp add: id_at_def changes_on_paired [OF ok j])
  qed
  show "mi_text (previous ! i) = sp_text (ss ! j)" if "j < length ss" "pair_steps previous ss ! j = Some i" for j i
    using pair_nth [OF that] by simp
  show "fold (apply_change fresh ss) (diff previous ss) st (mi_todo (previous ! i)) = Some (KCancelled, place i)"
    if i: "i < length previous" "mi_todo (previous ! i) \<notin> id_at fresh previous ss ` {..<length ss}" for i
  proof -
    have "Some i \<notin> set (pair_steps previous ss)"
    proof
      assume "Some i \<in> set (pair_steps previous ss)"
      then obtain j where "j < length ss" "pair_steps previous ss ! j = Some i" by (auto simp: in_set_conv_nth)
      then have "mi_todo (previous ! i) = id_at fresh previous ss j" by (simp add: id_at_def)
      with i(2) \<open>j < length ss\<close> show False by blast
    qed
    from changes_on_unpaired [OF ok i(1) this] show ?thesis
      using assms(2) i(1) by (subst fold_changes_local [OF refl]) simp
  qed
  show "fold (apply_change fresh ss) (diff previous ss) st t = st t"
    if t: "t \<notin> mi_todo ` set previous \<union> id_at fresh previous ss ` {..<length ss}" for t
  proof -
    have mine: "mi_todo (previous ! i) \<noteq> t" if "i < length previous" for i
      using t that by (metis UnI1 image_eqI nth_mem)
    have paired: "mi_todo (previous ! i) \<noteq> t" if "k < length ss" "pair_steps previous ss ! k = Some i" for k i
      using mine pair_nth [OF that] by simp
    have new: "fresh k \<noteq> t" if "k < length ss" "pair_steps previous ss ! k = None" for k
    proof -
      have "id_at fresh previous ss k \<in> id_at fresh previous ss ` {..<length ss}" using that(1) by (intro imageI) simp
      then show ?thesis using t that(2) by (auto simp: id_at_def)
    qed
    have adds: "changes_on fresh t (filter_map add_at (enumerate 0 (pair_steps previous ss))) = []"
      by (rule filter_map_never) (auto simp: nth_enumerate_eq add_at_def split: if_splits dest: new)
    have statuses: "changes_on fresh t (filter_map (status_at previous) (zip (pair_steps previous ss) ss)) = []"
      by (rule filter_map_never) (auto simp: status_at_def split: option.splits if_splits dest: paired)
    have cancels: "changes_on fresh t (filter_map cancel_at (zip previous (flags_of previous ss))) = []"
      by (rule filter_map_never) (auto simp: cancel_at_def split: if_splits dest: mine)
    have reorders: "changes_on fresh t (filter_map (reorder_at previous) (enumerate 0 (pair_steps previous ss))) = []"
      by (rule filter_map_never) (auto simp: reorder_at_def nth_enumerate_eq split: option.splits if_splits dest: paired)
    show ?thesis
      by (subst fold_changes_local [OF refl])
        (simp only: diff_eq filter_append adds statuses cancels reorders append_Nil fold_Nil id_apply)
  qed
qed

definition demo_previous :: "Mirrored list" where
  "demo_previous = [\<lparr>mi_text = ''run'', mi_todo = ''1'', mi_status = KPending\<rparr>,
     \<lparr>mi_text = ''build'', mi_todo = ''2'', mi_status = KPending\<rparr>,
     \<lparr>mi_text = ''run'', mi_todo = ''3'', mi_status = KPending\<rparr>]"

definition demo_steps :: "Step list" where
  "demo_steps = [\<lparr>sp_text = ''run'', sp_status = KCompleted\<rparr>, \<lparr>sp_text = ''run'', sp_status = KPending\<rparr>,
     \<lparr>sp_text = ''ship'', sp_status = KInProgress\<rparr>]"

theorem diff_reaches_next_witness:
  "(let fresh = (\<lambda>j. ''n'' @ replicate j (CHR ''x''));
        st = [''1'' \<mapsto> (KPending, 0 :: int), ''2'' \<mapsto> (KPending, 1024), ''3'' \<mapsto> (KPending, 2048)];
        st' = fold (apply_change fresh demo_steps) (diff demo_previous demo_steps) st
    in st' ''1'' = Some (KCompleted, 0) \<and> st' ''2'' = Some (KCancelled, 1024) \<and> st' ''3'' = Some (KPending, 1024)
       \<and> st' ''nxx'' = Some (KInProgress, 2048))"
proof -
  define fresh where "fresh = (\<lambda>j. ''n'' @ replicate j (CHR ''x''))"
  define st where "st = [''1'' \<mapsto> (KPending, 0 :: int), ''2'' \<mapsto> (KPending, 1024), ''3'' \<mapsto> (KPending, 2048)]"
  have pairs: "pair_steps demo_previous demo_steps = [Some 0, Some 2, None]" by code_simp
  have "mirror_ok fresh demo_previous demo_steps"
    by (auto simp: mirror_ok_def demo_previous_def fresh_def inj_on_def)
  moreover have "\<forall>i<length demo_previous. st (mi_todo (demo_previous ! i)) = Some (mi_status (demo_previous ! i), int i * 1024)"
    by (auto simp: demo_previous_def st_def less_Suc_eq)
  ultimately have all: "(\<forall>j<length demo_steps. fold (apply_change fresh demo_steps) (diff demo_previous demo_steps) st
        (id_at fresh demo_previous demo_steps j) = Some (sp_status (demo_steps ! j),
          if pair_steps demo_previous demo_steps ! j = Some j then int j * 1024 else int j * order_gap))"
    and cancelled: "\<forall>i<length demo_previous. mi_todo (demo_previous ! i) \<notin> id_at fresh demo_previous demo_steps ` {..<length demo_steps} \<longrightarrow>
        fold (apply_change fresh demo_steps) (diff demo_previous demo_steps) st (mi_todo (demo_previous ! i)) = Some (KCancelled, int i * 1024)"
    using diff_reaches_next [of fresh demo_previous demo_steps st "\<lambda>i. int i * 1024"] by blast+
  have three: "{..<length demo_steps} = {0, 1, 2}" by (auto simp: demo_steps_def)
  have ids: "id_at fresh demo_previous demo_steps 0 = ''1''" "id_at fresh demo_previous demo_steps 1 = ''3''"
    "id_at fresh demo_previous demo_steps 2 = ''nxx''"
    unfolding id_at_def pairs by (simp_all add: demo_previous_def fresh_def numeral_2_eq_2)
  define res where "res = fold (apply_change fresh demo_steps) (diff demo_previous demo_steps) st"
  have "res ''1'' = Some (KCompleted, 0)" "res ''3'' = Some (KPending, 1024)" "res ''nxx'' = Some (KInProgress, 2048)"
    using all [rule_format, of 0] all [rule_format, of 1] all [rule_format, of 2]
    unfolding res_def [symmetric] ids pairs by (simp_all add: demo_steps_def order_gap_def)
  moreover have "res ''2'' = Some (KCancelled, 1024)"
    using cancelled [rule_format, of 1] unfolding res_def [symmetric] three image_insert image_empty ids
    by (simp add: demo_previous_def)
  ultimately show ?thesis unfolding Let_def fresh_def [symmetric] st_def [symmetric] res_def [symmetric] by simp
qed

text \<open>
  Resending the same plan edits nothing, also when steps share their text.
\<close>

theorem diff_unchanged:
  assumes "map (\<lambda>m. (mi_text m, mi_status m)) previous = map (\<lambda>s. (sp_text s, sp_status s)) ss"
  shows "diff previous ss = []"
proof -
  have len: "length previous = length ss" using assms by (metis length_map)
  have same: "mi_text (previous ! j) = sp_text (ss ! j)" "mi_status (previous ! j) = sp_status (ss ! j)"
    if "j < length ss" for j
    using arg_cong [OF assms, of "\<lambda>l. l ! j"] that len by simp_all
  have "map mi_text previous = map sp_text ss"
    by (rule nth_equalityI) (use len same in simp_all)
  then have pairs: "pair_steps previous ss = map Some [0..<length previous]"
    unfolding pair_steps_def by (intro pair_loop_same) (simp_all add: len)
  have never: "filter_map f xs = []" if "\<And>k. k < length xs \<Longrightarrow> f (xs ! k) = None"
    for f :: "'x \<Rightarrow> Change option" and xs
    using filter_map_never [of xs f "\<lambda>_. True"] that by simp
  have "filter_map add_at (enumerate 0 (map Some [0..<length ss])) = []"
    by (rule never) (simp add: add_at_def nth_enumerate_eq)
  moreover have "filter_map (status_at previous) (zip (map Some [0..<length ss]) ss) = []"
    by (rule never) (simp add: status_at_def same)
  moreover have "filter_map cancel_at (zip previous (flags_of previous ss)) = []"
    by (rule never) (simp add: cancel_at_def flags_of_nth pairs)
  moreover have "filter_map (reorder_at previous) (enumerate 0 (map Some [0..<length ss])) = []"
    by (rule never) (simp add: reorder_at_def nth_enumerate_eq)
  ultimately show ?thesis unfolding diff_eq pairs len by simp
qed

theorem diff_unchanged_witness:
  "diff demo_previous [\<lparr>sp_text = ''run'', sp_status = KPending\<rparr>, \<lparr>sp_text = ''build'', sp_status = KPending\<rparr>,
     \<lparr>sp_text = ''run'', sp_status = KPending\<rparr>] = []"
  by (rule diff_unchanged) (simp add: demo_previous_def)

end
