(* ===== verification/Todo_Graph.thy ===== *)
theory Todo_Graph
  imports Todo_Prune
begin

text \<open>
  The blocking graph of \<open>crates/devkit-todo/src/graph.rs\<close>: readiness, cycles, and the plan of the open
  todos in batches.

  A \<open>Vec\<close> used as a stack has its top at the head of the list. The map from ids to todos keeps the last
  todo of an id, as collecting into a \<open>HashMap\<close> does; \<open>dependents_of\<close> is total, an absent key being
  the empty list. Indexing with a key that every caller has put in is \<open>the\<close>.
\<close>

section \<open>Blockers and readiness\<close>

definition graph_get :: "Todo list \<Rightarrow> string \<Rightarrow> Todo option" where
  "graph_get todos i = todo_by_id todos i"

definition open_blockers :: "Todo list \<Rightarrow> Todo \<Rightarrow> Todo list" where
  "open_blockers todos t =
     sort_key td_id (filter todo_open (List.map_filter (graph_get todos) (td_blocked_by t)))"

definition is_blocked :: "Todo list \<Rightarrow> Todo \<Rightarrow> bool" where
  "is_blocked todos t \<longleftrightarrow> open_blockers todos t \<noteq> []"

text \<open>One pass over a todo's blockers: \<open>None\<close> when the search has come back to the todo it started from.\<close>

fun push_blockers :: "(string \<Rightarrow> bool) \<Rightarrow> string \<Rightarrow> Todo list \<Rightarrow> string list \<Rightarrow> string list option" where
  "push_blockers keep start [] stack = Some stack"
| "push_blockers keep start (b # bs) stack =
     (if \<not> keep (td_id b) then push_blockers keep start bs stack
      else if td_id b = start then None
      else push_blockers keep start bs (td_id b # stack))"

lemma graph_get_dom: "graph_get todos i = Some t \<Longrightarrow> i \<in> td_id ` set todos"
  unfolding graph_get_def using todo_by_id_Some by blast

lemma ids_left_less:
  assumes "cur \<in> td_id ` set todos" and "cur \<notin> set seen"
  shows "card (td_id ` set todos - set (seen @ [cur])) < card (td_id ` set todos - set seen)"
  by (rule psubset_card_mono) (use assms in auto)

lemma ids_left_le: "card (td_id ` set todos - set (seen @ [cur])) \<le> card (td_id ` set todos - set seen)"
  by (rule card_mono) auto

function cycle_search :: "Todo list \<Rightarrow> (string \<Rightarrow> bool) \<Rightarrow> string \<Rightarrow> string list \<Rightarrow> string list \<Rightarrow> bool" where
  "cycle_search todos keep start seen [] = False"
| "cycle_search todos keep start seen (cur # stack) =
     (if cur \<in> set seen then cycle_search todos keep start seen stack
      else case graph_get todos cur of
             None \<Rightarrow> cycle_search todos keep start (seen @ [cur]) stack
           | Some t \<Rightarrow>
               (case push_blockers keep start (open_blockers todos t) stack of
                  None \<Rightarrow> True
                | Some stack' \<Rightarrow> cycle_search todos keep start (seen @ [cur]) stack'))"
  by pat_completeness auto

termination
proof (relation "measures [\<lambda>(todos, keep, start, seen, stack). card (td_id ` set todos - set seen),
    \<lambda>(todos, keep, start, seen, stack). length stack]", goal_cases)
  case (3 todos keep start seen cur stack)
  then show ?case using ids_left_le [of todos seen cur] by (auto simp: le_less)
next
  case (4 todos keep start seen cur stack t stack')
  then show ?case using ids_left_less [OF graph_get_dom] by auto
qed auto

definition on_cycle :: "Todo list \<Rightarrow> string \<Rightarrow> bool" where
  "on_cycle todos i =
     (case graph_get todos i of None \<Rightarrow> False
      | Some t \<Rightarrow> cycle_search todos (\<lambda>_. True) i [] [td_id t])"

definition is_ready :: "Todo list \<Rightarrow> Todo \<Rightarrow> bool" where
  "is_ready todos t \<longleftrightarrow> kind (td_status t) = KPending \<and> \<not> is_blocked todos t \<and> \<not> on_cycle todos (td_id t)"

definition unblocked_by :: "Todo list \<Rightarrow> string list \<Rightarrow> Todo list" where
  "unblocked_by todos closed =
     sort_key td_id
       (filter (\<lambda>t. list_ex (\<lambda>i. i \<in> set closed) (td_blocked_by t)) (filter (is_ready todos) todos))"

section \<open>Adding an edge\<close>

text \<open>
  \<open>reaches\<close>: each stack entry carries the ids from the start to it. \<open>Inl\<close> is the path found, \<open>Inr\<close> the
  stack with the unexplored blockers pushed.
\<close>

fun push_paths :: "Todo list \<Rightarrow> string \<Rightarrow> string list \<Rightarrow> string list \<Rightarrow> (string \<times> string list) list \<Rightarrow>
    string list + (string \<times> string list) list" where
  "push_paths todos goal path [] stack = Inr stack"
| "push_paths todos goal path (b # bs) stack =
     (if b = goal then Inl (path @ [b])
      else if graph_get todos b \<noteq> None \<and> b \<notin> set path
           then push_paths todos goal path bs ((b, path @ [b]) # stack)
           else push_paths todos goal path bs stack)"

function reaches_loop :: "Todo list \<Rightarrow> string \<Rightarrow> string list \<Rightarrow> (string \<times> string list) list \<Rightarrow> string list option" where
  "reaches_loop todos goal seen [] = None"
| "reaches_loop todos goal seen ((cur, path) # stack) =
     (if cur \<in> set seen then reaches_loop todos goal seen stack
      else case graph_get todos cur of
             None \<Rightarrow> reaches_loop todos goal (seen @ [cur]) stack
           | Some t \<Rightarrow>
               (case push_paths todos goal path (td_blocked_by t) stack of
                  Inl found \<Rightarrow> Some found
                | Inr stack' \<Rightarrow> reaches_loop todos goal (seen @ [cur]) stack'))"
  by pat_completeness auto

termination
proof (relation "measures [\<lambda>(todos, goal, seen, stack). card (td_id ` set todos - set seen),
    \<lambda>(todos, goal, seen, stack). length stack]", goal_cases)
  case (3 todos goal seen cur path stack)
  then show ?case using ids_left_le [of todos seen cur] by (auto simp: le_less)
next
  case (4 todos goal seen cur path stack t stack')
  then show ?case using ids_left_less [OF graph_get_dom] by auto
qed auto

definition reaches :: "Todo list \<Rightarrow> string \<Rightarrow> string \<Rightarrow> string list option" where
  "reaches todos start goal = reaches_loop todos goal [] [(start, [start])]"

fun cycle_through :: "Todo list \<Rightarrow> string \<Rightarrow> string list \<Rightarrow> string list option" where
  "cycle_through todos i [] = None"
| "cycle_through todos i (b # bs) =
     (if b = i then Some [i, i]
      else case reaches todos b i of
             Some path \<Rightarrow> Some (i # path)
           | None \<Rightarrow> cycle_through todos i bs)"

text \<open>\<open>with_blockers\<close>: \<open>get\<close> is the store's read, which may fail.\<close>

fun missing_blockers :: "Todo list \<Rightarrow> string list \<Rightarrow> string list \<Rightarrow> string list" where
  "missing_blockers todos missing [] = missing"
| "missing_blockers todos missing (b # bs) =
     (if list_ex (\<lambda>t. td_id t = b) todos \<or> b \<in> set missing then missing_blockers todos missing bs
      else missing_blockers todos (missing @ [b]) bs)"

fun fetch_all :: "(string \<Rightarrow> 'e + Todo option) \<Rightarrow> Todo list \<Rightarrow> string list \<Rightarrow> 'e + Todo list" where
  "fetch_all get todos [] = Inr todos"
| "fetch_all get todos (i # is) =
     (case get i of
        Inl e \<Rightarrow> Inl e
      | Inr None \<Rightarrow> fetch_all get todos is
      | Inr (Some t) \<Rightarrow> fetch_all get (todos @ [t]) is)"

definition with_blockers :: "(string \<Rightarrow> 'e + Todo option) \<Rightarrow> Todo list \<Rightarrow> 'e + Todo list" where
  "with_blockers get todos =
     fetch_all get todos (missing_blockers todos [] (concat (map td_blocked_by todos)))"

section \<open>Ranks\<close>

datatype Rank = Rank (rk_chain: nat) (rk_dependents: nat) (rk_order: int) (rk_id: string)

text \<open>The longest chain first, then the most dependents, then the order, then the id.\<close>

definition rank_key :: "Rank \<Rightarrow> int \<times> int \<times> int \<times> string" where
  "rank_key r = (- int (rk_chain r), - int (rk_dependents r), rk_order r, rk_id r)"

lemma rank_key_inj: "rank_key a = rank_key b \<longleftrightarrow> a = b"
  by (cases a; cases b) (auto simp: rank_key_def)

instantiation Rank :: linorder
begin

definition less_eq_Rank :: "Rank \<Rightarrow> Rank \<Rightarrow> bool" where
  "less_eq_Rank a b \<longleftrightarrow> rank_key a \<le> rank_key b"

definition less_Rank :: "Rank \<Rightarrow> Rank \<Rightarrow> bool" where
  "less_Rank a b \<longleftrightarrow> rank_key a < rank_key b"

instance
proof
  show "x < y \<longleftrightarrow> x \<le> y \<and> \<not> y \<le> x" for x y :: Rank
    by (simp add: less_eq_Rank_def less_Rank_def less_le_not_le)
  show "x \<le> z" if "x \<le> y" "y \<le> z" for x y z :: Rank
    using that unfolding less_eq_Rank_def by (rule order_trans)
  show "x = y" if "x \<le> y" "y \<le> x" for x y :: Rank
    using that unfolding less_eq_Rank_def by (simp add: rank_key_inj [symmetric])
qed (auto simp: less_eq_Rank_def)

end

type_synonym dependents = "string \<Rightarrow> string list"

text \<open>
  \<open>topo\<close>. A member's count drops by one for each of its mentions among the dependents of a member taken;
  at zero it is freed. The fuel bounds the members taken; \<open>None\<close> is running out of it.
\<close>

fun count_edges :: "string list \<Rightarrow> (string \<rightharpoonup> nat) \<Rightarrow> (string \<rightharpoonup> nat)" where
  "count_edges [] deg = deg"
| "count_edges (d # ds) deg =
     (case deg d of None \<Rightarrow> count_edges ds deg | Some n \<Rightarrow> count_edges ds (deg(d \<mapsto> n + 1)))"

definition topo_degrees :: "dependents \<Rightarrow> Todo list \<Rightarrow> (string \<rightharpoonup> nat)" where
  "topo_degrees dep members =
     fold (\<lambda>t deg. count_edges (dep (td_id t)) deg) members (map_of (map (\<lambda>t. (td_id t, 0)) members))"

fun free_dependents :: "string list \<Rightarrow> (string \<rightharpoonup> nat) \<Rightarrow> (string \<rightharpoonup> nat) \<times> string list" where
  "free_dependents [] deg = (deg, [])"
| "free_dependents (d # ds) deg =
     (case deg d of
        None \<Rightarrow> free_dependents ds deg
      | Some n \<Rightarrow>
          (let (deg', freed) = free_dependents ds (deg(d \<mapsto> n - 1))
           in (deg', if n - 1 = 0 then d # freed else freed)))"

fun topo_loop :: "nat \<Rightarrow> dependents \<Rightarrow> Todo list \<Rightarrow> (string \<rightharpoonup> nat) \<Rightarrow> string list \<Rightarrow> Todo list \<Rightarrow> Todo list option" where
  "topo_loop 0 dep members deg ready order = None"
| "topo_loop (Suc fuel) dep members deg ready order =
     (case ready of
        [] \<Rightarrow> Some order
      | i # rest \<Rightarrow>
          (case todo_by_id members i of
             None \<Rightarrow> topo_loop fuel dep members deg rest order
           | Some t \<Rightarrow>
               (let (deg', freed) = free_dependents (dep i) deg
                in topo_loop fuel dep members deg' (rev (sort freed) @ rest) (order @ [t]))))"

definition topo_fuel :: "nat \<Rightarrow> dependents \<Rightarrow> Todo list \<Rightarrow> Todo list option" where
  "topo_fuel fuel dep members =
     (let deg = topo_degrees dep members;
          ready = sort (filter (\<lambda>i. deg i = Some 0) (remdups (map td_id members)))
      in topo_loop fuel dep members deg (rev ready) [])"

definition topo :: "dependents \<Rightarrow> Todo list \<Rightarrow> Todo list" where
  "topo dep members = the (topo_fuel (Suc (length members)) dep members)"

definition chain_step :: "dependents \<Rightarrow> Todo \<Rightarrow> (string \<rightharpoonup> nat) \<Rightarrow> (string \<rightharpoonup> nat)" where
  "chain_step dep t chain =
     chain(td_id t \<mapsto> fold max (List.map_filter chain (dep (td_id t))) 0 + 1)"

definition i64_max :: int where
  "i64_max = 9223372036854775807"

definition ranks_of :: "dependents \<Rightarrow> Todo list \<Rightarrow> (string \<times> Rank) list" where
  "ranks_of dep members =
     (let chain = fold (chain_step dep) (rev (topo dep members)) Map.empty in
      map (\<lambda>t. (td_id t, Rank (case chain (td_id t) of Some n \<Rightarrow> n | None \<Rightarrow> 1) (length (dep (td_id t)))
                   (case td_order t of Some n \<Rightarrow> n | None \<Rightarrow> i64_max) (td_id t))) members)"

definition rank_at :: "(string \<times> Rank) list \<Rightarrow> string \<Rightarrow> Rank" where
  "rank_at ranks i = the (map_of (rev ranks) i)"

text \<open>\<open>Iterator::max_by\<close>, which keeps the last of equal elements.\<close>

fun max_by :: "('a \<Rightarrow> 'a \<Rightarrow> bool) \<Rightarrow> 'a list \<Rightarrow> 'a option" where
  "max_by le [] = None"
| "max_by le (x # xs) = Some (fold (\<lambda>y best. if le best y then y else best) xs x)"

definition chain_le :: "(string \<times> Rank) list \<Rightarrow> string list \<Rightarrow> string list \<Rightarrow> bool" where
  "chain_le ranks a b \<longleftrightarrow>
     length a < length b \<or> length a = length b \<and> map (rank_at ranks) b \<le> map (rank_at ranks) a"

definition best_step :: "dependents \<Rightarrow> (string \<times> Rank) list \<Rightarrow> Todo \<Rightarrow> (string \<times> string list) list \<Rightarrow>
    (string \<times> string list) list" where
  "best_step dep ranks t best =
     (case max_by (chain_le ranks) (List.map_filter (map_of best) (dep (td_id t))) of
        None \<Rightarrow> (td_id t, [td_id t]) # best
      | Some chain \<Rightarrow> (td_id t, td_id t # chain) # best)"

definition critical_path :: "dependents \<Rightarrow> Todo list \<Rightarrow> Todo list" where
  "critical_path dep members =
     (if members = [] then []
      else let ranks = ranks_of dep members;
               best = fold (best_step dep ranks) (rev (topo dep members)) []
           in case max_by (chain_le ranks) (map snd best) of
                None \<Rightarrow> []
              | Some ids \<Rightarrow> map (\<lambda>i. the (todo_by_id members i)) ids)"

section \<open>The plan\<close>

record Plan =
  pl_batches :: "Todo list list"
  pl_critical :: "Todo list"
  pl_cycle :: "Todo list"

definition is_member :: "Todo list \<Rightarrow> string \<Rightarrow> bool" where
  "is_member members i \<longleftrightarrow> list_ex (\<lambda>t. td_id t = i) members"

text \<open>A started todo waits on nothing. The map keeps the last member of an id.\<close>

definition waits_of :: "Todo list \<Rightarrow> Todo list \<Rightarrow> string \<Rightarrow> Todo list" where
  "waits_of todos members i =
     (let t = the (todo_by_id members i) in
      if kind (td_status t) = KInProgress then [] else open_blockers todos t)"

definition first_outside :: "Todo list \<Rightarrow> Todo list \<Rightarrow> string list" where
  "first_outside todos members =
     map td_id (filter (\<lambda>t. list_ex (\<lambda>b. \<not> is_member members (td_id b)) (waits_of todos members (td_id t))) members)"

fun grow_pass :: "(string \<Rightarrow> Todo list) \<Rightarrow> Todo list \<Rightarrow> string list \<Rightarrow> string list" where
  "grow_pass waits [] outside = outside"
| "grow_pass waits (t # ts) outside =
     (if td_id t \<notin> set outside \<and> list_ex (\<lambda>b. td_id b \<in> set outside) (waits (td_id t))
      then grow_pass waits ts (outside @ [td_id t])
      else grow_pass waits ts outside)"

lemma grow_pass_extends: "\<exists>new. grow_pass waits ts outside = outside @ new
    \<and> set new \<subseteq> td_id ` set ts - set outside \<and> distinct new"
proof (induction ts arbitrary: outside)
  case (Cons t ts)
  show ?case
  proof (cases "td_id t \<notin> set outside \<and> list_ex (\<lambda>b. td_id b \<in> set outside) (waits (td_id t))")
    case True
    obtain new where new: "grow_pass waits ts (outside @ [td_id t]) = (outside @ [td_id t]) @ new"
        "set new \<subseteq> td_id ` set ts - set (outside @ [td_id t])" "distinct new"
      using Cons by blast
    then have "grow_pass waits (t # ts) outside = outside @ (td_id t # new)" using True by simp
    moreover have "set (td_id t # new) \<subseteq> td_id ` set (t # ts) - set outside" using new(2) True by auto
    moreover have "distinct (td_id t # new)" using new(2,3) by auto
    ultimately show ?thesis by blast
  next
    case False
    then have "grow_pass waits (t # ts) outside = grow_pass waits ts outside" by auto
    with Cons.IH [of outside] show ?thesis by auto
  qed
qed simp

text \<open>The passes repeat while one of them has grown the list.\<close>

function grow_outside :: "(string \<Rightarrow> Todo list) \<Rightarrow> Todo list \<Rightarrow> string list \<Rightarrow> string list" where
  "grow_outside waits members outside =
     (let outside' = grow_pass waits members outside in
      if length outside' = length outside then outside' else grow_outside waits members outside')"
  by auto

termination
proof (relation "measure (\<lambda>(waits, members, outside). card (td_id ` set members - set outside))", goal_cases)
  case (2 waits members outside outside')
  obtain new where new: "outside' = outside @ new" "set new \<subseteq> td_id ` set members - set outside"
    using grow_pass_extends [of waits members outside] 2(1) by auto
  with 2(2) have "new \<noteq> []" by auto
  then obtain i where "i \<in> set new" by (cases new) auto
  with new have "td_id ` set members - set outside' \<subset> td_id ` set members - set outside" by auto
  then show ?case by (simp add: psubset_card_mono)
qed simp

declare grow_outside.simps [simp del]

definition member_waits :: "Todo list \<Rightarrow> Todo list \<Rightarrow> string \<Rightarrow> string list" where
  "member_waits todos members i = map td_id (filter (\<lambda>b. is_member members (td_id b)) (waits_of todos members i))"

definition add_dependents :: "string \<Rightarrow> string list \<Rightarrow> dependents \<Rightarrow> dependents" where
  "add_dependents i blockers dep = fold (\<lambda>b d. d(b := d b @ [i])) blockers dep"

definition dependents_of :: "Todo list \<Rightarrow> Todo list \<Rightarrow> dependents" where
  "dependents_of todos members =
     fold (\<lambda>t. add_dependents (td_id t) (member_waits todos members (td_id t))) members (\<lambda>_. [])"

definition on_member_cycle :: "Todo list \<Rightarrow> Todo list \<Rightarrow> string \<Rightarrow> bool" where
  "on_member_cycle todos members i = cycle_search todos (is_member members) i [] [i]"

definition first_degrees :: "Todo list \<Rightarrow> Todo list \<Rightarrow> Todo list \<Rightarrow> (string \<rightharpoonup> nat)" where
  "first_degrees todos members cycled =
     fold (\<lambda>t deg. if list_ex (\<lambda>c. td_id c = td_id t) cycled then deg
                   else deg(td_id t \<mapsto> length (member_waits todos members (td_id t)))) members Map.empty"

fun drop_edges :: "string list \<Rightarrow> (string \<rightharpoonup> nat) \<Rightarrow> (string \<rightharpoonup> nat)" where
  "drop_edges [] deg = deg"
| "drop_edges (d # ds) deg =
     (case deg d of None \<Rightarrow> drop_edges ds deg | Some n \<Rightarrow> drop_edges ds (deg(d \<mapsto> n - 1)))"

fun place_batch :: "dependents \<Rightarrow> nat \<Rightarrow> Todo list \<Rightarrow> (string \<rightharpoonup> nat) \<Rightarrow> (string \<rightharpoonup> nat) \<Rightarrow> (string \<rightharpoonup> nat) \<times> (string \<rightharpoonup> nat)" where
  "place_batch dep k [] placed deg = (placed, deg)"
| "place_batch dep k (t # ts) placed deg =
     place_batch dep k ts (placed(td_id t \<mapsto> k)) (drop_edges (dep (td_id t)) deg)"

definition ready_members :: "Todo list \<Rightarrow> string list \<Rightarrow> (string \<rightharpoonup> nat) \<Rightarrow> (string \<rightharpoonup> nat) \<Rightarrow> Todo list" where
  "ready_members members outside placed deg =
     filter (\<lambda>t. (case deg (td_id t) of Some n \<Rightarrow> n | None \<Rightarrow> 1) = 0)
       (filter (\<lambda>t. placed (td_id t) = None \<and> td_id t \<notin> set outside) members)"

definition next_batch :: "dependents \<Rightarrow> Todo list \<Rightarrow> (string \<rightharpoonup> nat) \<Rightarrow> nat option \<Rightarrow> Todo list \<Rightarrow> Todo list" where
  "next_batch dep members placed cap ready =
     (let left = filter (\<lambda>t. placed (td_id t) = None) members;
          ranks = ranks_of dep left;
          ranked = sort_key (\<lambda>t. rank_at ranks (td_id t)) ready;
          started = filter (\<lambda>t. kind (td_status t) = KInProgress) ranked;
          rest = filter (\<lambda>t. kind (td_status t) \<noteq> KInProgress) ranked
      in started @ (case cap of None \<Rightarrow> rest | Some c \<Rightarrow> take (c - length started) rest))"

lemma next_batch_subset: "set (next_batch dep members placed cap ready) \<subseteq> set ready"
  by (auto simp: next_batch_def Let_def split: option.splits dest!: in_set_takeD)

lemma place_batch_dom: "dom (fst (place_batch dep k batch placed deg)) = td_id ` set batch \<union> dom placed"
  by (induction batch arbitrary: placed deg) auto

function plan_loop :: "dependents \<Rightarrow> Todo list \<Rightarrow> string list \<Rightarrow> nat option \<Rightarrow> (string \<rightharpoonup> nat) \<Rightarrow> (string \<rightharpoonup> nat) \<Rightarrow>
    Todo list list \<Rightarrow> Todo list list \<times> (string \<rightharpoonup> nat)" where
  "plan_loop dep members outside cap placed deg batches =
     (let ready = ready_members members outside placed deg in
      if ready = [] then (batches, placed)
      else let batch = next_batch dep members placed cap ready in
           if batch = [] then (batches, placed)
           else let (placed', deg') = place_batch dep (length batches) batch placed deg
                in plan_loop dep members outside cap placed' deg' (batches @ [batch]))"
  by auto

termination
proof (relation "measure (\<lambda>(dep, members, outside, cap, placed, deg, batches). card (td_id ` set members - dom placed))",
    goal_cases)
  case (2 dep members outside cap placed deg batches ready batch x placed' deg')
  then have dom: "dom placed' = td_id ` set batch \<union> dom placed"
    using place_batch_dom by (metis fst_conv)
  obtain t where t: "t \<in> set batch" using 2(4) by (cases batch) auto
  then have "t \<in> set ready" using 2(3) next_batch_subset by blast
  then have "td_id t \<in> td_id ` set members - dom placed" using 2(1) by (auto simp: ready_members_def)
  moreover have "td_id t \<in> dom placed'" using t dom by auto
  ultimately have "td_id ` set members - dom placed' \<subset> td_id ` set members - dom placed" using dom by auto
  then show ?case by (simp add: psubset_card_mono)
qed simp

declare plan_loop.simps [simp del]

definition plan_members :: "Todo list \<Rightarrow> (Todo \<Rightarrow> bool) \<Rightarrow> Todo list" where
  "plan_members todos offered = filter (\<lambda>t. todo_open t \<and> offered t) todos"

definition waiting_outside :: "Todo list \<Rightarrow> Todo list \<Rightarrow> string list" where
  "waiting_outside todos members = grow_outside (waits_of todos members) members (first_outside todos members)"

definition cycled_members :: "Todo list \<Rightarrow> Todo list \<Rightarrow> Todo list" where
  "cycled_members todos members = sort_key td_id (filter (\<lambda>t. on_member_cycle todos members (td_id t)) members)"

definition plan :: "Todo list \<Rightarrow> (Todo \<Rightarrow> bool) \<Rightarrow> nat option \<Rightarrow> Plan" where
  "plan todos offered cap =
     (let members = plan_members todos offered;
          outside = waiting_outside todos members;
          dep = dependents_of todos members;
          cycled = cycled_members todos members;
          deg = first_degrees todos members cycled;
          (batches, placed) = plan_loop dep members outside cap Map.empty deg [];
          acyclic = filter (\<lambda>t. placed (td_id t) \<noteq> None) members
      in \<lparr>pl_batches = batches, pl_critical = critical_path dep acyclic,
          pl_cycle = filter (\<lambda>t. td_id t \<notin> set outside) cycled\<rparr>)"

definition frontier :: "Plan \<Rightarrow> Todo list" where
  "frontier p = (case pl_batches p of [] \<Rightarrow> []
     | batch # _ \<Rightarrow> filter (\<lambda>t. kind (td_status t) \<noteq> KInProgress) batch)"

end
