(* ===== verification/Todo_Cycles.thy ===== *)
theory Todo_Cycles
  imports Todo_Graph
begin

text \<open>
  The two searches of the blocking graph, the one for a cycle through a todo and the one for a path
  that a new edge would close, are complete and sound for reachability over the edges they follow.
\<close>

section \<open>Edges\<close>

definition succs :: "Todo list \<Rightarrow> (string \<Rightarrow> bool) \<Rightarrow> string \<Rightarrow> string list" where
  "succs todos keep i = (case graph_get todos i of None \<Rightarrow> []
     | Some t \<Rightarrow> filter keep (map td_id (open_blockers todos t)))"

text \<open>From a todo to its open blockers that \<open>keep\<close> accepts.\<close>

definition open_edges :: "Todo list \<Rightarrow> (string \<Rightarrow> bool) \<Rightarrow> (string \<times> string) set" where
  "open_edges todos keep = {(a, b). b \<in> set (succs todos keep a)}"

text \<open>From a todo to every id it lists as a blocker.\<close>

definition stored_edges :: "Todo list \<Rightarrow> (string \<times> string) set" where
  "stored_edges todos = {(a, b). \<exists>t. graph_get todos a = Some t \<and> b \<in> set (td_blocked_by t)}"

lemma graph_get_id: "graph_get todos i = Some t \<Longrightarrow> td_id t = i"
  unfolding graph_get_def using todo_by_id_Some by blast

lemma push_blockers_eq:
  "push_blockers keep start bs stack =
     (if start \<in> set (filter keep (map td_id bs)) then None
      else Some (rev (filter keep (map td_id bs)) @ stack))"
  by (induction bs arbitrary: stack) auto

section \<open>The search for a cycle\<close>

text \<open>What has been seen leads only to what has been seen or is still on the stack, never to the start.\<close>

definition search_inv :: "(string \<times> string) set \<Rightarrow> string \<Rightarrow> string set \<Rightarrow> string set \<Rightarrow> bool" where
  "search_inv E goal seen stack \<longleftrightarrow>
     (\<forall>s\<in>seen. (s, goal) \<notin> E \<and> (\<forall>b. (s, b) \<in> E \<longrightarrow> b \<in> seen \<union> stack))"

lemma search_inv_leaves:
  assumes "search_inv E goal seen stack" and "(s, goal) \<in> E\<^sup>+" and "s \<in> seen"
  shows "\<exists>y\<in>stack. (y, goal) \<in> E\<^sup>+"
  using assms(2,3)
proof (induction rule: converse_trancl_induct)
  case (base y)
  then show ?case using assms(1) by (auto simp: search_inv_def)
next
  case (step y z)
  then show ?case using assms(1) unfolding search_inv_def by blast
qed

lemma trancl_first: "(a, c) \<in> E\<^sup>+ \<longleftrightarrow> (a, c) \<in> E \<or> (\<exists>b. (a, b) \<in> E \<and> (b, c) \<in> E\<^sup>+)"
  by (meson converse_tranclE trancl.r_into_trancl trancl_into_trancl2)

lemma cycle_search_correct:
  assumes "search_inv (open_edges todos keep) start (set seen) (set stack)"
  shows "cycle_search todos keep start seen stack \<longleftrightarrow> (\<exists>y\<in>set stack. (y, start) \<in> (open_edges todos keep)\<^sup>+)"
  using assms
proof (induction todos keep start seen stack rule: cycle_search.induct)
  case (2 todos keep start seen cur stack)
  let ?E = "open_edges todos keep"
  show ?case
  proof (cases "cur \<in> set seen")
    case True
    then have inv: "search_inv ?E start (set seen) (set stack)"
      using "2.prems" by (auto simp: search_inv_def)
    show ?thesis
      using "2.IH"(1) [OF True inv] search_inv_leaves [OF inv _ True] True by auto
  next
    case False
    have edge: "(cur, b) \<in> ?E \<longleftrightarrow> b \<in> set (succs todos keep cur)" for b by (simp add: open_edges_def)
    show ?thesis
    proof (cases "graph_get todos cur")
      case None
      then have none: "(cur, b) \<notin> ?E" for b by (simp add: edge succs_def)
      then have "search_inv ?E start (set (seen @ [cur])) (set stack)"
        using "2.prems" by (auto simp: search_inv_def)
      from "2.IH"(2) [OF False None this] show ?thesis
        using False None none trancl_first [of cur start ?E] by auto
    next
      case (Some t)
      then have s: "succs todos keep cur = filter keep (map td_id (open_blockers todos t))" by (simp add: succs_def)
      show ?thesis
      proof (cases "(cur, start) \<in> ?E")
        case True
        then have "push_blockers keep start (open_blockers todos t) stack = None"
          using edge [of start] unfolding s by (simp add: push_blockers_eq)
        then show ?thesis using False Some True by auto
      next
        case no: False
        define stack' where "stack' = rev (succs todos keep cur) @ stack"
        have push: "push_blockers keep start (open_blockers todos t) stack = Some stack'"
          using no edge [of start] unfolding s stack'_def by (simp add: push_blockers_eq)
        have "search_inv ?E start (set (seen @ [cur])) (set stack')"
          using "2.prems" no edge unfolding search_inv_def stack'_def by auto
        from "2.IH"(3) [OF False Some push this] show ?thesis
          using False Some push no edge trancl_first [of cur start ?E] unfolding stack'_def by auto
      qed
    qed
  qed
qed simp

lemma on_cycle_iff: "on_cycle todos i \<longleftrightarrow> (i, i) \<in> (open_edges todos (\<lambda>_. True))\<^sup>+"
proof (cases "graph_get todos i")
  case None
  then have "(i, b) \<notin> open_edges todos (\<lambda>_. True)" for b by (simp add: open_edges_def succs_def)
  then show ?thesis using None trancl_first [of i i] by (auto simp: on_cycle_def)
next
  case (Some t)
  have "search_inv (open_edges todos (\<lambda>_. True)) i (set []) (set [i])" by (simp add: search_inv_def)
  from cycle_search_correct [OF this] Some graph_get_id [OF Some] show ?thesis by (simp add: on_cycle_def)
qed

lemma on_member_cycle_iff:
  "on_member_cycle todos members i \<longleftrightarrow> (i, i) \<in> (open_edges todos (is_member members))\<^sup>+"
proof -
  have "search_inv (open_edges todos (is_member members)) i (set []) (set [i])" by (simp add: search_inv_def)
  from cycle_search_correct [OF this] show ?thesis by (simp add: on_member_cycle_def)
qed

text \<open>
  A todo of the list is ready exactly when it is pending and none of its blockers in the list is
  open; being on a cycle, which the search decides exactly, then never holds it back in addition.
\<close>

theorem ready_exact:
  assumes "graph_get todos (td_id t) = Some t"
  shows "(is_ready todos t \<longleftrightarrow> kind (td_status t) = KPending
            \<and> (\<forall>i\<in>set (td_blocked_by t). \<forall>b. graph_get todos i = Some b \<longrightarrow> \<not> todo_open b))
    \<and> (on_cycle todos (td_id t) \<longleftrightarrow> (td_id t, td_id t) \<in> (open_edges todos (\<lambda>_. True))\<^sup>+)
    \<and> (on_cycle todos (td_id t) \<longrightarrow> is_blocked todos t)"
proof -
  have mem: "b \<in> set (open_blockers todos t) \<longleftrightarrow> todo_open b \<and> (\<exists>i\<in>set (td_blocked_by t). graph_get todos i = Some b)" for b
    by (auto simp: open_blockers_def in_map_filter)
  have blocked: "is_blocked todos t \<longleftrightarrow> (\<exists>b. b \<in> set (open_blockers todos t))"
    unfolding is_blocked_def by (cases "open_blockers todos t") auto
  have "is_blocked todos t" if "on_cycle todos (td_id t)"
  proof -
    obtain b where "(td_id t, b) \<in> open_edges todos (\<lambda>_. True)"
      using \<open>on_cycle todos (td_id t)\<close> unfolding on_cycle_iff by (meson converse_tranclE)
    then show ?thesis using assms by (auto simp: open_edges_def succs_def is_blocked_def)
  qed
  then show ?thesis
    using mem blocked by (auto simp: is_ready_def on_cycle_iff)
qed

text \<open>A started chain: each todo waits on the next one of the list.\<close>

definition demo_chain :: "Todo list" where
  "demo_chain = [demo_todo ''a'' Pending None [''b''], demo_todo ''b'' Pending None [''c''],
     demo_todo ''c'' Pending None [''d'']]"

lemmas demo_chain_simps = demo_chain_def demo_todo_def graph_get_def todo_by_id_def todo_open_def kind_def is_open_def

theorem ready_exact_witness:
  "is_ready demo_chain (demo_todo ''c'' Pending None [''d'']) \<and> \<not> is_ready demo_chain (demo_todo ''b'' Pending None [''c''])"
  using ready_exact [of demo_chain "demo_todo ''c'' Pending None [''d'']"]
    ready_exact [of demo_chain "demo_todo ''b'' Pending None [''c'']"]
  by (simp add: demo_chain_simps)

section \<open>The search for a path\<close>

fun walk :: "('a \<times> 'a) set \<Rightarrow> 'a list \<Rightarrow> bool" where
  "walk E [] = False"
| "walk E [a] = True"
| "walk E (a # b # xs) = ((a, b) \<in> E \<and> walk E (b # xs))"

lemma walk_append: "walk E xs \<Longrightarrow> (last xs, b) \<in> E \<Longrightarrow> walk E (xs @ [b])"
  by (induction E xs rule: walk.induct) auto

lemma walk_trancl: "walk E xs \<Longrightarrow> 2 \<le> length xs \<Longrightarrow> (hd xs, last xs) \<in> E\<^sup>+"
proof (induction E xs rule: walk.induct)
  case (3 E a b xs)
  then show ?case by (cases xs) (auto intro: trancl_into_trancl2)
qed simp_all

lemma push_paths_Inl:
  "push_paths todos goal path bs stack = Inl found \<Longrightarrow> goal \<in> set bs \<and> found = path @ [goal]"
  by (induction todos goal path bs stack rule: push_paths.induct) (auto split: if_splits)

lemma push_paths_Inr:
  "push_paths todos goal path bs stack = Inr stack' \<Longrightarrow>
     goal \<notin> set bs \<and> set stack' = set stack \<union> {(b, path @ [b]) | b. b \<in> set bs \<and> graph_get todos b \<noteq> None \<and> b \<notin> set path}"
  by (induction todos goal path bs stack rule: push_paths.induct) (auto split: if_splits)

text \<open>Every entry carries a walk from the start to it, through nodes already seen.\<close>

definition paths_ok :: "Todo list \<Rightarrow> string \<Rightarrow> string set \<Rightarrow> (string \<times> string list) set \<Rightarrow> bool" where
  "paths_ok todos start seen stack \<longleftrightarrow>
     (\<forall>(c, p)\<in>stack. walk (stored_edges todos) p \<and> hd p = start \<and> last p = c \<and> set p \<subseteq> insert c seen)"

definition paths_inv :: "Todo list \<Rightarrow> string \<Rightarrow> string set \<Rightarrow> string set \<Rightarrow> bool" where
  "paths_inv todos goal seen stack \<longleftrightarrow>
     (\<forall>s\<in>seen. (s, goal) \<notin> stored_edges todos
        \<and> (\<forall>b. (s, b) \<in> stored_edges todos \<and> graph_get todos b \<noteq> None \<longrightarrow> b \<in> seen \<union> stack))"

lemma paths_inv_leaves:
  assumes "paths_inv todos goal seen stack" and "(s, goal) \<in> (stored_edges todos)\<^sup>+" and "s \<in> seen"
  shows "\<exists>y\<in>stack. (y, goal) \<in> (stored_edges todos)\<^sup>+"
  using assms(2,3)
proof (induction rule: converse_trancl_induct)
  case (base y)
  then show ?case using assms(1) by (auto simp: paths_inv_def)
next
  case (step y z)
  have "graph_get todos z \<noteq> None"
    using step.hyps(2) by (auto simp: stored_edges_def elim: converse_tranclE)
  then have "z \<in> seen \<union> stack" using assms(1) step.hyps(1) step.prems unfolding paths_inv_def by blast
  then show ?case using step.IH step.hyps(2) by blast
qed

lemma reaches_loop_correct:
  assumes "paths_inv todos goal (set seen) (fst ` set stack)" and "paths_ok todos start (set seen) (set stack)"
  shows "case reaches_loop todos goal seen stack of
      Some p \<Rightarrow> walk (stored_edges todos) p \<and> 2 \<le> length p \<and> hd p = start \<and> last p = goal
    | None \<Rightarrow> \<forall>y\<in>fst ` set stack. (y, goal) \<notin> (stored_edges todos)\<^sup>+"
  using assms
proof (induction todos goal seen stack rule: reaches_loop.induct)
  case (2 todos goal seen cur path stack)
  let ?E = "stored_edges todos"
  show ?case
  proof (cases "cur \<in> set seen")
    case True
    then have inv: "paths_inv todos goal (set seen) (fst ` set stack)"
      using "2.prems"(1) by (auto simp: paths_inv_def)
    have "paths_ok todos start (set seen) (set stack)" using "2.prems"(2) by (simp add: paths_ok_def)
    from "2.IH"(1) [OF True inv this] show ?thesis
      using paths_inv_leaves [OF inv _ True] True by (auto split: option.splits)
  next
    case False
    have path: "walk ?E path" "hd path = start" "last path = cur" "set path \<subseteq> insert cur (set seen)"
      using "2.prems"(2) by (auto simp: paths_ok_def)
    have rest: "paths_ok todos start (set (seen @ [cur])) (set stack)"
      using "2.prems"(2) by (fastforce simp: paths_ok_def)
    show ?thesis
    proof (cases "graph_get todos cur")
      case None
      then have none: "(cur, b) \<notin> ?E" for b by (simp add: stored_edges_def)
      then have "paths_inv todos goal (set (seen @ [cur])) (fst ` set stack)"
        using "2.prems"(1) by (auto simp: paths_inv_def)
      from "2.IH"(2) [OF False None this rest] show ?thesis
        using False None none trancl_first [of cur goal ?E] by (auto split: option.splits)
    next
      case (Some t)
      then have edge: "(cur, b) \<in> ?E \<longleftrightarrow> b \<in> set (td_blocked_by t)" for b by (simp add: stored_edges_def)
      show ?thesis
      proof (cases "push_paths todos goal path (td_blocked_by t) stack")
        case (Inl found)
        from push_paths_Inl [OF Inl] have f: "(cur, goal) \<in> ?E" "found = path @ [goal]" by (auto simp: edge)
        have "path \<noteq> []" using path(1) by auto
        then have "walk ?E found \<and> 2 \<le> length found \<and> hd found = start \<and> last found = goal"
          using walk_append [OF path(1), of goal] path(2,3) f by (cases path) auto
        then show ?thesis using False Some Inl by simp
      next
        case (Inr stack')
        note push = push_paths_Inr [OF Inr]
        have inv': "paths_inv todos goal (set (seen @ [cur])) (fst ` set stack')"
          unfolding paths_inv_def
        proof (intro ballI conjI allI impI)
          fix s assume s: "s \<in> set (seen @ [cur])"
          then show "(s, goal) \<notin> ?E" using "2.prems"(1) push edge by (auto simp: paths_inv_def)
          fix b assume b: "(s, b) \<in> ?E \<and> graph_get todos b \<noteq> None"
          have "fst ` set stack \<subseteq> fst ` set stack'" using push by (intro image_mono) auto
          moreover have "b \<in> fst ` set stack'" if "s = cur" "b \<notin> set path"
          proof -
            have "(b, path @ [b]) \<in> set stack'" using push that b edge [of b] by simp
            then show ?thesis by (rule image_eqI [rotated]) simp
          qed
          moreover have "b \<in> set (seen @ [cur]) \<union> fst ` set stack" if "s \<in> set seen"
            using that b "2.prems"(1) unfolding paths_inv_def by auto
          ultimately show "b \<in> set (seen @ [cur]) \<union> fst ` set stack'"
            using s path(4) by (cases "s \<in> set seen"; cases "b \<in> set path") auto
        qed
        have "paths_ok todos start (set (seen @ [cur])) (set stack')"
          unfolding paths_ok_def
        proof (intro ballI, clarify)
          fix c p assume "(c, p) \<in> set stack'"
          then consider "(c, p) \<in> set stack" | "p = path @ [c]" "c \<in> set (td_blocked_by t)" using push by auto
          then show "walk ?E p \<and> hd p = start \<and> last p = c \<and> set p \<subseteq> insert c (set (seen @ [cur]))"
          proof cases
            case 1
            then show ?thesis using rest by (auto simp: paths_ok_def)
          next
            case 2
            have "path \<noteq> []" using path(1) by auto
            then show ?thesis using 2 path walk_append [OF path(1), of c] edge by auto
          qed
        qed
        with inv' have main: "case reaches_loop todos goal (seen @ [cur]) stack' of
            Some p \<Rightarrow> walk ?E p \<and> 2 \<le> length p \<and> hd p = start \<and> last p = goal
          | None \<Rightarrow> \<forall>y\<in>fst ` set stack'. (y, goal) \<notin> ?E\<^sup>+"
          by (rule "2.IH"(3) [OF False Some Inr])
        have loop: "reaches_loop todos goal seen ((cur, path) # stack) = reaches_loop todos goal (seen @ [cur]) stack'"
          using False Some Inr by simp
        show ?thesis
        proof (cases "reaches_loop todos goal (seen @ [cur]) stack'")
          case none: None
          have "(y, goal) \<notin> ?E\<^sup>+" if y: "y \<in> fst ` set ((cur, path) # stack)" for y
          proof
            assume "(y, goal) \<in> ?E\<^sup>+"
            moreover have "fst ` set stack \<subseteq> fst ` set stack'" using push by (intro image_mono) blast
            then have "y \<in> set (seen @ [cur]) \<or> y \<in> fst ` set stack'" using y by auto
            ultimately show False using paths_inv_leaves [OF inv'] main unfolding none option.case by blast
          qed
          then show ?thesis unfolding loop none option.case by (intro ballI)
        next
          case some: (Some p)
          then show ?thesis using main unfolding loop by simp
        qed
      qed
    qed
  qed
qed simp

lemma reaches_correct:
  "case reaches todos start goal of
      Some p \<Rightarrow> walk (stored_edges todos) p \<and> 2 \<le> length p \<and> hd p = start \<and> last p = goal
    | None \<Rightarrow> (start, goal) \<notin> (stored_edges todos)\<^sup>+"
proof -
  have "paths_inv todos goal (set []) (fst ` set [(start, [start])])" by (simp add: paths_inv_def)
  moreover have "paths_ok todos start (set []) (set [(start, [start])])" by (simp add: paths_ok_def)
  ultimately show ?thesis
    using reaches_loop_correct [of todos goal "[]" "[(start, [start])]" start]
    by (simp add: reaches_def split: option.splits)
qed

lemma cycle_through_Some:
  "cycle_through todos i by = Some c \<Longrightarrow>
     \<exists>b\<in>set by. \<exists>p. c = i # p \<and> walk (stored_edges todos) p \<and> hd p = b \<and> last p = i"
proof (induction todos i "by" rule: cycle_through.induct)
  case (2 todos i b bs)
  show ?case
  proof (cases "b = i")
    case True
    with 2 show ?thesis by auto
  next
    case False
    with 2 reaches_correct [where todos = todos and start = b and goal = i] show ?thesis
      by (cases "reaches todos b i") auto
  qed
qed simp

lemma cycle_through_None:
  "cycle_through todos i by = None \<longleftrightarrow> (\<forall>b\<in>set by. (b, i) \<notin> (stored_edges todos)\<^sup>*)"
proof (induction todos i "by" rule: cycle_through.induct)
  case (2 todos i b bs)
  have "reaches todos b i = None \<longleftrightarrow> (b, i) \<notin> (stored_edges todos)\<^sup>+"
    using reaches_correct [where todos = todos and start = b and goal = i] walk_trancl by (fastforce split: option.splits)
  with 2 show ?case by (auto simp: rtrancl_eq_or_trancl split: option.splits)
qed simp

lemma new_edges_back: "(b, i) \<in> (E \<union> {i} \<times> B)\<^sup>* \<Longrightarrow> (b, i) \<in> E\<^sup>*"
  by (induction rule: converse_rtrancl_induct) (auto intro: converse_rtrancl_into_rtrancl)

lemma acyclic_new_edges: "acyclic E \<Longrightarrow> acyclic (E \<union> {i} \<times> set bs) \<longleftrightarrow> (\<forall>b\<in>set bs. (b, i) \<notin> E\<^sup>*)"
proof (induction bs)
  case (Cons b bs)
  have eq: "E \<union> {i} \<times> set (b # bs) = insert (i, b) (E \<union> {i} \<times> set bs)" by auto
  have "(b, i) \<in> (E \<union> {i} \<times> set bs)\<^sup>* \<longleftrightarrow> (b, i) \<in> E\<^sup>*"
    by (rule iffI, erule new_edges_back, erule rtrancl_mono [OF Un_upper1, THEN subsetD])
  with Cons show ?case unfolding eq by (simp add: acyclic_insert conj_commute)
qed simp

text \<open>
  C38: a block is refused exactly when it would close a cycle. Over a list whose stored edges have no
  cycle, the check finds none if and only if the edges stay without one once the new ones are added;
  and the cycle it reports is real: it starts at the todo, goes to one of the new blockers, and then
  follows stored edges back to the todo.
\<close>

theorem cycle_through_exact:
  "(acyclic (stored_edges todos) \<longrightarrow>
      (cycle_through todos i by = None \<longleftrightarrow> acyclic (stored_edges todos \<union> {i} \<times> set by)))
    \<and> (\<forall>c. cycle_through todos i by = Some c \<longrightarrow>
        (\<exists>b p. c = i # p \<and> b \<in> set by \<and> walk (stored_edges todos) p \<and> hd p = b \<and> last p = i))"
proof (intro conjI impI allI)
  show "cycle_through todos i by = None \<longleftrightarrow> acyclic (stored_edges todos \<union> {i} \<times> set by)"
    if "acyclic (stored_edges todos)"
    using cycle_through_None [of todos i "by"] acyclic_new_edges [OF that, of i "by"] by simp
  show "\<exists>b p. c = i # p \<and> b \<in> set by \<and> walk (stored_edges todos) p \<and> hd p = b \<and> last p = i"
    if "cycle_through todos i by = Some c" for c
    using cycle_through_Some [OF that] by blast
qed

lemma demo_chain_edges: "stored_edges demo_chain = {(''a'', ''b''), (''b'', ''c''), (''c'', ''d'')}"
proof -
  have get: "graph_get demo_chain i =
      (if i = ''c'' then Some (demo_todo ''c'' Pending None [''d''])
       else if i = ''b'' then Some (demo_todo ''b'' Pending None [''c''])
       else if i = ''a'' then Some (demo_todo ''a'' Pending None [''b'']) else None)" for i
    by (simp add: demo_chain_simps)
  show ?thesis unfolding stored_edges_def get by (auto simp: demo_todo_def split: if_splits)
qed

lemma demo_chain_acyclic: "acyclic (stored_edges demo_chain)"
proof (rule acyclicI_order [where f = "\<lambda>i. if i = ''a'' then 3 else if i = ''b'' then 2 else if i = ''c'' then 1 else 0 :: nat"])
  fix a b assume "(a, b) \<in> stored_edges demo_chain"
  then consider "a = ''a''" "b = ''b''" | "a = ''b''" "b = ''c''" | "a = ''c''" "b = ''d''"
    unfolding demo_chain_edges by blast
  then show "(if b = ''a'' then 3 else if b = ''b'' then 2 else if b = ''c'' then 1 else 0 :: nat)
      < (if a = ''a'' then 3 else if a = ''b'' then 2 else if a = ''c'' then 1 else 0)"
    by cases simp_all
qed

theorem cycle_through_exact_witness:
  "cycle_through demo_chain ''d'' [''a''] \<noteq> None \<and> cycle_through demo_chain ''a'' [''d''] = None"
proof -
  have "(''a'', ''d'') \<in> (stored_edges demo_chain)\<^sup>+"
    by (rule walk_trancl [of _ "[''a'', ''b'', ''c'', ''d'']", simplified])
      (simp_all add: demo_chain_edges)
  then have "\<not> acyclic (stored_edges demo_chain \<union> {''d''} \<times> set [''a''])"
    using acyclic_new_edges [OF demo_chain_acyclic, of "''d''" "[''a'']"] by auto
  moreover have "(''d'', ''a'') \<notin> (stored_edges demo_chain)\<^sup>*"
    by (auto elim: converse_rtranclE simp: demo_chain_edges)
  then have "acyclic (stored_edges demo_chain \<union> {''a''} \<times> set [''d''])"
    using acyclic_new_edges [OF demo_chain_acyclic, of "''a''" "[''d'']"] by auto
  ultimately show ?thesis
    using cycle_through_exact [of demo_chain "''d''" "[''a'']"] cycle_through_exact [of demo_chain "''a''" "[''d'']"]
      demo_chain_acyclic by blast
qed

end
