(* ===== verification/Todo_Plan.thy ===== *)
theory Todo_Plan
  imports Todo_Cycles
begin

text \<open>
  The plan of the open todos (\<open>Graph::plan\<close> in \<open>crates/devkit-todo/src/graph.rs\<close>): which members are placed,
  in which batch, and which are reported as a cycle. A store gives every todo an id of its own, which is
  what the properties assume of the list.
\<close>

section \<open>Members and what they wait on\<close>

lemma todo_by_id_distinct:
  assumes "distinct (map td_id todos)" and "t \<in> set todos"
  shows "todo_by_id todos (td_id t) = Some t"
proof -
  obtain u where u: "todo_by_id todos (td_id t) = Some u"
    using assms(2) by (cases "todo_by_id todos (td_id t)") (auto simp: todo_by_id_def find_None_iff)
  then have "u \<in> set todos" "td_id u = td_id t" by (auto dest: todo_by_id_Some)
  with assms have "u = t" by (auto simp: distinct_map inj_on_def)
  with u show ?thesis by simp
qed

lemma plan_members_distinct: "distinct (map td_id todos) \<Longrightarrow> distinct (map td_id (plan_members todos offered))"
  by (simp add: plan_members_def distinct_map inj_on_def)

lemma is_member_iff: "is_member members i \<longleftrightarrow> i \<in> td_id ` set members"
  by (auto simp: is_member_def list_ex_iff)

lemma waits_of_member:
  "distinct (map td_id members) \<Longrightarrow> t \<in> set members \<Longrightarrow>
     waits_of todos members (td_id t) = (if kind (td_status t) = KInProgress then [] else open_blockers todos t)"
  by (simp add: waits_of_def todo_by_id_distinct)

text \<open>The edges of the plan: from a member that has not started to each of its open blockers.\<close>

definition wait_edges :: "Todo list \<Rightarrow> Todo list \<Rightarrow> (string \<times> string) set" where
  "wait_edges todos members =
     {(a, b). a \<in> td_id ` set members \<and> b \<in> td_id ` set (waits_of todos members a)}"

lemma member_waits_edges:
  "i \<in> td_id ` set members \<Longrightarrow>
     set (member_waits todos members i) = {b. (i, b) \<in> wait_edges todos members} \<inter> td_id ` set members"
  by (auto simp: member_waits_def wait_edges_def is_member_iff)

section \<open>Waiting on something outside the plan\<close>

lemma grow_pass_fixed:
  "grow_pass waits ts outside = outside \<Longrightarrow> t \<in> set ts \<Longrightarrow>
     td_id t \<in> set outside \<or> (\<forall>b\<in>set (waits (td_id t)). td_id b \<notin> set outside)"
proof (induction ts)
  case (Cons u ts)
  show ?case
  proof (cases "td_id u \<notin> set outside \<and> list_ex (\<lambda>b. td_id b \<in> set outside) (waits (td_id u))")
    case True
    then have "grow_pass waits ts (outside @ [td_id u]) = outside" using Cons.prems(1) by simp
    moreover obtain new where "grow_pass waits ts (outside @ [td_id u]) = (outside @ [td_id u]) @ new"
      using grow_pass_extends by blast
    ultimately show ?thesis by simp
  next
    case False
    then have "grow_pass waits ts outside = outside" using Cons.prems(1) by auto
    with Cons False show ?thesis by (auto simp: list_ex_iff)
  qed
qed simp

lemma grow_pass_sound:
  assumes "\<forall>i\<in>set outside. Q i" and "\<forall>t\<in>set ts. (\<exists>b\<in>set (waits (td_id t)). Q (td_id b)) \<longrightarrow> Q (td_id t)"
  shows "\<forall>i\<in>set (grow_pass waits ts outside). Q i"
  using assms
proof (induction ts arbitrary: outside)
  case (Cons t ts)
  show ?case
  proof (cases "td_id t \<notin> set outside \<and> list_ex (\<lambda>b. td_id b \<in> set outside) (waits (td_id t))")
    case True
    then have "Q (td_id t)" using Cons.prems by (auto simp: list_ex_iff)
    then have "\<forall>i\<in>set (outside @ [td_id t]). Q i" using Cons.prems(1) by simp
    from Cons.IH [OF this] True Cons.prems(2) show ?thesis by simp
  next
    case False
    then have "grow_pass waits (t # ts) outside = grow_pass waits ts outside" by auto
    with Cons show ?thesis by simp
  qed
qed simp

lemma grow_outside_fixed:
  "set outside \<subseteq> set (grow_outside waits members outside)
   \<and> (\<forall>t\<in>set members. td_id t \<in> set (grow_outside waits members outside)
        \<or> (\<forall>b\<in>set (waits (td_id t)). td_id b \<notin> set (grow_outside waits members outside)))"
proof (induction waits members outside rule: grow_outside.induct)
  case (1 waits members outside)
  obtain new where new: "grow_pass waits members outside = outside @ new" using grow_pass_extends by blast
  show ?case
  proof (cases "length (grow_pass waits members outside) = length outside")
    case True
    then have "grow_pass waits members outside = outside" using new by simp
    then show ?thesis using grow_pass_fixed by (subst (1 2 3) grow_outside.simps) (simp add: Let_def)
  next
    case False
    have "grow_outside waits members outside = grow_outside waits members (grow_pass waits members outside)"
      using False by (subst grow_outside.simps) (simp add: Let_def)
    then show ?thesis using "1.IH" [OF refl False] new by simp
  qed
qed

lemma grow_outside_sound:
  assumes "\<forall>i\<in>set outside. Q i" and "\<forall>t\<in>set members. (\<exists>b\<in>set (waits (td_id t)). Q (td_id b)) \<longrightarrow> Q (td_id t)"
  shows "\<forall>i\<in>set (grow_outside waits members outside). Q i"
  using assms
proof (induction waits members outside rule: grow_outside.induct)
  case (1 waits members outside)
  note pass = grow_pass_sound [OF "1.prems"]
  show ?case
  proof (cases "length (grow_pass waits members outside) = length outside")
    case True
    then show ?thesis using pass by (subst grow_outside.simps) (simp add: Let_def)
  next
    case False
    then show ?thesis using "1.IH" [OF refl False pass "1.prems"(2)] by (subst grow_outside.simps) (simp add: Let_def)
  qed
qed

lemma waiting_outside_iff:
  "i \<in> set (waiting_outside todos members) \<longleftrightarrow>
     i \<in> td_id ` set members \<and> (\<exists>y. (i, y) \<in> (wait_edges todos members)\<^sup>* \<and> y \<notin> td_id ` set members)"
proof
  let ?W = "wait_edges todos members" and ?O = "waiting_outside todos members"
  define Q where "Q x \<longleftrightarrow> x \<in> td_id ` set members \<and> (\<exists>y. (x, y) \<in> ?W\<^sup>* \<and> y \<notin> td_id ` set members)" for x
  have step: "Q a" if "(a, b) \<in> ?W" "Q b \<or> b \<notin> td_id ` set members" for a b
    using that unfolding Q_def by (auto simp: wait_edges_def intro: converse_rtrancl_into_rtrancl)
  have edge: "(td_id t, td_id b) \<in> ?W" if "t \<in> set members" "b \<in> set (waits_of todos members (td_id t))" for t b
    using that by (auto simp: wait_edges_def)
  have "\<forall>x\<in>set ?O. Q x"
    unfolding waiting_outside_def
  proof (rule grow_outside_sound)
    show "\<forall>x\<in>set (first_outside todos members). Q x"
      using step edge by (auto simp: first_outside_def list_ex_iff is_member_iff)
    show "\<forall>t\<in>set members. (\<exists>b\<in>set (waits_of todos members (td_id t)). Q (td_id b)) \<longrightarrow> Q (td_id t)"
      using step edge by blast
  qed
  then show "i \<in> td_id ` set members \<and> (\<exists>y. (i, y) \<in> ?W\<^sup>* \<and> y \<notin> td_id ` set members)" if "i \<in> set ?O"
    using that unfolding Q_def by blast
  have first: "a \<in> set ?O" if "(a, b) \<in> ?W" "b \<notin> td_id ` set members" for a b
    using that grow_outside_fixed [of "first_outside todos members" "waits_of todos members" members]
    by (auto simp: waiting_outside_def wait_edges_def first_outside_def list_ex_iff is_member_iff)
  have closed: "a \<in> set ?O" if "(a, b) \<in> ?W" "b \<in> set ?O" for a b
    using that grow_outside_fixed [of "first_outside todos members" "waits_of todos members" members]
    by (auto simp: waiting_outside_def wait_edges_def)
  have "x \<in> td_id ` set members \<longrightarrow> x \<in> set ?O" if "(x, y) \<in> ?W\<^sup>*" "y \<notin> td_id ` set members" for x y
    using that
  proof (induction rule: converse_rtrancl_induct)
    case (step x z)
    then show ?case using first closed by blast
  qed simp
  then show "i \<in> set ?O" if "i \<in> td_id ` set members \<and> (\<exists>y. (i, y) \<in> ?W\<^sup>* \<and> y \<notin> td_id ` set members)"
    using that by blast
qed

section \<open>Counting edges\<close>

lemma add_dependents_count:
  "count_list (add_dependents i bs dep b) x = count_list (dep b) x + (if x = i then count_list bs b else 0)"
proof (induction bs arbitrary: dep)
  case (Cons c bs)
  then show ?case by (simp add: add_dependents_def)
qed (simp add: add_dependents_def)

lemma fold_dependents_count:
  assumes "distinct (map td_id ts)"
  shows "count_list (fold (\<lambda>t. add_dependents (td_id t) (w (td_id t))) ts dep b) x
    = count_list (dep b) x + (if x \<in> td_id ` set ts then count_list (w x) b else 0)"
  using assms
proof (induction ts arbitrary: dep)
  case (Cons t ts)
  then have "td_id t \<notin> td_id ` set ts" "distinct (map td_id ts)" by simp_all
  with Cons.IH show ?case by (auto simp: add_dependents_count)
qed simp

lemma dependents_count:
  assumes "distinct (map td_id members)"
  shows "count_list (dependents_of todos members b) x =
    (if x \<in> td_id ` set members then count_list (member_waits todos members x) b else 0)"
  unfolding dependents_of_def fold_dependents_count [OF assms] by simp

lemma drop_edges_eq: "drop_edges ds deg x = map_option (\<lambda>n. n - count_list ds x) (deg x)"
proof (induction ds arbitrary: deg)
  case (Cons d ds)
  then show ?case by (cases "deg d"; cases "d = x") auto
qed (simp add: option.map_ident)

lemma first_degrees_eq:
  "first_degrees todos members cycled x =
     (if x \<in> td_id ` set members \<and> x \<notin> td_id ` set cycled then Some (length (member_waits todos members x)) else None)"
proof -
  have "fold (\<lambda>t deg. if list_ex (\<lambda>c. td_id c = td_id t) cycled then deg
                   else deg(td_id t \<mapsto> length (member_waits todos members (td_id t)))) ts deg x =
     (if x \<in> td_id ` set ts \<and> x \<notin> td_id ` set cycled then Some (length (member_waits todos members x)) else deg x)"
    for ts deg
  proof (induction ts arbitrary: deg)
    case (Cons t ts)
    have "list_ex (\<lambda>c. td_id c = td_id t) cycled \<longleftrightarrow> td_id t \<in> td_id ` set cycled" by (force simp: list_ex_iff)
    with Cons.IH show ?case by auto
  qed simp
  from this [of members Map.empty] show ?thesis unfolding first_degrees_def by simp
qed

lemma filter_insert_count:
  "y \<notin> P \<Longrightarrow> length (filter (\<lambda>b. b \<notin> insert y P) ws) = length (filter (\<lambda>b. b \<notin> P) ws) - count_list ws y"
proof (induction ws)
  case (Cons a ws)
  have "count_list ws y \<le> length (filter (\<lambda>b. b \<notin> P) ws)" using Cons.prems by (induction ws) auto
  with Cons show ?case by auto
qed simp

text \<open>The count of a member is the number of its waits that are not placed yet.\<close>

definition degrees_ok :: "(string \<Rightarrow> string list) \<Rightarrow> string set \<Rightarrow> (string \<rightharpoonup> nat) \<Rightarrow> (string \<rightharpoonup> nat) \<Rightarrow> bool" where
  "degrees_ok w ids placed deg \<longleftrightarrow>
     (\<forall>x. deg x = (if x \<in> ids then Some (length (filter (\<lambda>b. b \<notin> dom placed) (w x))) else None))"

lemma place_batch_degrees:
  assumes "\<And>b x. x \<in> ids \<Longrightarrow> count_list (dep b) x = count_list (w x) b"
    and "degrees_ok w ids placed deg" and "distinct (map td_id batch)" and "td_id ` set batch \<inter> dom placed = {}"
  shows "degrees_ok w ids (fst (place_batch dep k batch placed deg)) (snd (place_batch dep k batch placed deg))"
  using assms(2-4)
proof (induction batch arbitrary: placed deg)
  case (Cons t batch)
  have "degrees_ok w ids (placed(td_id t \<mapsto> k)) (drop_edges (dep (td_id t)) deg)"
    unfolding degrees_ok_def
  proof (intro allI)
    fix x
    have "length (filter (\<lambda>b. b \<notin> dom (placed(td_id t \<mapsto> k))) (w x))
        = length (filter (\<lambda>b. b \<notin> dom placed) (w x)) - count_list (w x) (td_id t)"
      using filter_insert_count [of "td_id t" "dom placed" "w x"] Cons.prems(3) by simp
    then show "drop_edges (dep (td_id t)) deg x =
        (if x \<in> ids then Some (length (filter (\<lambda>b. b \<notin> dom (placed(td_id t \<mapsto> k))) (w x))) else None)"
      using Cons.prems(1) assms(1) by (simp add: drop_edges_eq degrees_ok_def)
  qed
  moreover have "td_id ` set batch \<inter> dom (placed(td_id t \<mapsto> k)) = {}" using Cons.prems by auto
  moreover have "distinct (map td_id batch)" using Cons.prems(2) by simp
  ultimately show ?case unfolding place_batch.simps by (intro Cons.IH)
qed simp

lemma place_batch_get:
  "fst (place_batch dep k batch placed deg) x = (if x \<in> td_id ` set batch then Some k else placed x)"
  by (induction batch arbitrary: placed deg) auto

section \<open>One batch\<close>

lemma next_batch_facts:
  assumes "distinct (map td_id ready)"
  shows "distinct (map td_id (next_batch dep members placed cap ready))"
    and "\<forall>t\<in>set ready. kind (td_status t) = KInProgress \<longrightarrow> t \<in> set (next_batch dep members placed cap ready)"
    and "ready \<noteq> [] \<Longrightarrow> cap \<noteq> Some 0 \<Longrightarrow> next_batch dep members placed cap ready \<noteq> []"
    and "\<forall>c. cap = Some c \<longrightarrow> length (next_batch dep members placed cap ready)
      \<le> max c (length (filter (\<lambda>t. kind (td_status t) = KInProgress) (next_batch dep members placed cap ready)))"
proof -
  define ranked where "ranked = sort_key (\<lambda>t. rank_at (ranks_of dep (filter (\<lambda>t. placed (td_id t) = None) members)) (td_id t)) ready"
  define started where "started = filter (\<lambda>t. kind (td_status t) = KInProgress) ranked"
  define rest where "rest = filter (\<lambda>t. kind (td_status t) \<noteq> KInProgress) ranked"
  define taken where "taken = (case cap of None \<Rightarrow> rest | Some c \<Rightarrow> take (c - length started) rest)"
  have batch: "next_batch dep members placed cap ready = started @ taken"
    unfolding next_batch_def Let_def taken_def started_def rest_def ranked_def ..
  have "distinct (map td_id ranked)"
    using assms by (simp add: ranked_def distinct_map)
  then have "distinct (map td_id (started @ rest))"
    by (auto simp: started_def rest_def distinct_map inj_on_def)
  moreover have "rest = taken @ (case cap of None \<Rightarrow> [] | Some c \<Rightarrow> drop (c - length started) rest)"
    by (simp add: taken_def split: option.split)
  then obtain more where more: "rest = taken @ more" by blast
  ultimately show "distinct (map td_id (next_batch dep members placed cap ready))"
    by (auto simp: batch)
  show "\<forall>t\<in>set ready. kind (td_status t) = KInProgress \<longrightarrow> t \<in> set (next_batch dep members placed cap ready)"
    by (auto simp: batch started_def ranked_def)
  show "next_batch dep members placed cap ready \<noteq> []" if "ready \<noteq> []" "cap \<noteq> Some 0"
  proof (cases "started = []")
    case True
    have "ranked \<noteq> []" using that(1) by (metis ranked_def set_empty set_sort)
    then have "rest \<noteq> []" using True by (auto simp: started_def rest_def filter_empty_conv)
    then have "taken \<noteq> []" using that(2) True by (cases cap) (auto simp: taken_def)
    then show ?thesis by (simp add: batch)
  qed (simp add: batch)
  have "set taken \<subseteq> set rest" using more by simp
  then have "filter (\<lambda>t. kind (td_status t) = KInProgress) taken = []"
    by (auto simp: filter_empty_conv rest_def)
  then have all_started: "filter (\<lambda>t. kind (td_status t) = KInProgress) (started @ taken) = started"
    by (simp add: started_def)
  then show "\<forall>c. cap = Some c \<longrightarrow> length (next_batch dep members placed cap ready)
      \<le> max c (length (filter (\<lambda>t. kind (td_status t) = KInProgress) (next_batch dep members placed cap ready)))"
    unfolding batch all_started by (auto simp: taken_def)
qed

section \<open>The loop\<close>

text \<open>
  What holds of the batches so far: \<open>ids\<close> are the members that are not on a cycle, \<open>w\<close> the members each
  of them waits on.
\<close>

definition batch_ok :: "Todo list \<Rightarrow> (string \<Rightarrow> string list) \<Rightarrow> string set \<Rightarrow> string list \<Rightarrow> nat option \<Rightarrow>
    Todo list list \<Rightarrow> nat \<Rightarrow> bool" where
  "batch_ok members w ids outside cap batches k \<longleftrightarrow>
     batches ! k \<noteq> []
     \<and> (\<forall>t\<in>set (batches ! k). t \<in> set members \<and> td_id t \<in> ids \<and> td_id t \<notin> set outside
          \<and> (kind (td_status t) = KInProgress \<longrightarrow> k = 0)
          \<and> (\<forall>b\<in>set (w (td_id t)). \<exists>j<k. b \<in> td_id ` set (batches ! j)))
     \<and> (\<forall>c. cap = Some c \<longrightarrow>
          length (batches ! k) \<le> max c (length (filter (\<lambda>t. kind (td_status t) = KInProgress) (batches ! k))))"

definition plan_inv :: "Todo list \<Rightarrow> (string \<Rightarrow> string list) \<Rightarrow> string set \<Rightarrow> string list \<Rightarrow> nat option \<Rightarrow>
    (string \<rightharpoonup> nat) \<Rightarrow> (string \<rightharpoonup> nat) \<Rightarrow> Todo list list \<Rightarrow> bool" where
  "plan_inv members w ids outside cap placed deg batches \<longleftrightarrow>
     degrees_ok w ids placed deg
     \<and> distinct (map td_id (concat batches))
     \<and> dom placed = td_id ` set (concat batches)
     \<and> (\<forall>k<length batches. batch_ok members w ids outside cap batches k)
     \<and> (batches \<noteq> [] \<longrightarrow> (\<forall>t\<in>set members. kind (td_status t) = KInProgress \<and> td_id t \<in> ids \<and> td_id t \<notin> set outside
          \<longrightarrow> td_id t \<in> dom placed))"

lemma ready_members_iff:
  assumes "degrees_ok w ids placed deg"
  shows "t \<in> set (ready_members members outside placed deg) \<longleftrightarrow>
    t \<in> set members \<and> td_id t \<notin> dom placed \<and> td_id t \<notin> set outside \<and> td_id t \<in> ids \<and> set (w (td_id t)) \<subseteq> dom placed"
proof -
  have "(case deg x of None \<Rightarrow> 1 | Some n \<Rightarrow> n) = 0 \<longleftrightarrow> x \<in> ids \<and> set (w x) \<subseteq> dom placed" for x
    using assms unfolding degrees_ok_def by (auto simp: filter_empty_conv)
  then show ?thesis by (auto simp: ready_members_def)
qed

lemma batch_ok_append:
  "k < length batches \<Longrightarrow> batch_ok members w ids outside cap batches k \<Longrightarrow>
     batch_ok members w ids outside cap (batches @ [batch]) k"
  unfolding batch_ok_def by (auto simp: nth_append) (metis order.strict_trans)

lemma plan_inv_step:
  assumes inv: "plan_inv members w ids outside cap placed deg batches"
    and dep: "\<And>b x. x \<in> ids \<Longrightarrow> count_list (dep b) x = count_list (w x) b"
    and started: "\<And>t. t \<in> set members \<Longrightarrow> kind (td_status t) = KInProgress \<Longrightarrow> w (td_id t) = []"
    and members: "distinct (map td_id members)"
    and batch: "batch = next_batch dep members placed cap (ready_members members outside placed deg)" "batch \<noteq> []"
    and placed: "place_batch dep (length batches) batch placed deg = (placed', deg')"
  shows "plan_inv members w ids outside cap placed' deg' (batches @ [batch])"
proof -
  let ?ready = "ready_members members outside placed deg"
  note ok = inv [unfolded plan_inv_def]
  from ok have was: "dom placed = td_id ` set (concat batches)"
    and first: "batches \<noteq> [] \<longrightarrow> (\<forall>t\<in>set members. kind (td_status t) = KInProgress \<and> td_id t \<in> ids \<and> td_id t \<notin> set outside
          \<longrightarrow> td_id t \<in> dom placed)"
    by blast+
  note ready = ready_members_iff [OF conjunct1 [OF ok]]
  have "distinct (map td_id ?ready)"
    using members by (simp add: ready_members_def distinct_map inj_on_def)
  note facts = next_batch_facts [where dep = dep and members = members and placed = placed and cap = cap, OF this, folded batch(1)]
  have sub: "set batch \<subseteq> set ?ready" unfolding batch(1) by (rule next_batch_subset)
  have new: "td_id ` set batch \<inter> dom placed = {}"
  proof -
    have "td_id t \<notin> dom placed" if "t \<in> set batch" for t
      using sub that ready [THEN iffD1, OF subsetD [OF sub that]] by blast
    then show ?thesis by blast
  qed
  have degrees: "degrees_ok w ids placed' deg'"
    using place_batch_degrees [OF dep conjunct1 [OF ok] facts(1) new] placed by (metis fst_conv snd_conv)
  have dom: "dom placed' = td_id ` set batch \<union> dom placed"
    using place_batch_dom placed by (metis fst_conv)
  have "batch_ok members w ids outside cap (batches @ [batch]) (length batches)"
    unfolding batch_ok_def
  proof (intro conjI ballI)
    fix t assume "t \<in> set ((batches @ [batch]) ! length batches)"
    then have t: "t \<in> set ?ready" using sub by auto
    have t': "t \<in> set members" "td_id t \<notin> dom placed" "td_id t \<notin> set outside" "td_id t \<in> ids"
        "set (w (td_id t)) \<subseteq> dom placed"
      using ready [THEN iffD1, OF t] by simp_all
    show "t \<in> set members" "td_id t \<in> ids" "td_id t \<notin> set outside" using t' by simp_all
    show "kind (td_status t) = KInProgress \<longrightarrow> length batches = 0" using t' first by auto
    show "\<exists>j<length batches. b \<in> td_id ` set ((batches @ [batch]) ! j)" if "b \<in> set (w (td_id t))" for b
    proof -
      from that have "b \<in> td_id ` set (concat batches)" using t'(5) was by blast
      then obtain l where l: "l \<in> set batches" "b \<in> td_id ` set l" by auto
      from l(1) obtain j where "j < length batches" "l = batches ! j" by (metis in_set_conv_nth)
      with l(2) have "j < length batches" "b \<in> td_id ` set (batches ! j)" by simp_all
      then show "\<exists>j<length batches. b \<in> td_id ` set ((batches @ [batch]) ! j)" by (auto simp: nth_append)
    qed
  qed (use batch(2) facts(4) in simp_all)
  then have "\<forall>k<length (batches @ [batch]). batch_ok members w ids outside cap (batches @ [batch]) k"
    using ok batch_ok_append by (auto simp: less_Suc_eq)
  moreover have "distinct (map td_id (concat (batches @ [batch])))"
    using ok facts(1) new by auto
  moreover have "td_id t \<in> dom placed'"
    if "t \<in> set members" "kind (td_status t) = KInProgress" "td_id t \<in> ids" "td_id t \<notin> set outside" for t
  proof (cases "td_id t \<in> dom placed")
    case False
    then have "t \<in> set ?ready" using that ready started [OF that(1,2)] by simp
    then show ?thesis using facts(2) that(2) dom by auto
  qed (simp add: dom)
  ultimately show ?thesis unfolding plan_inv_def using degrees dom ok by auto
qed

lemma plan_loop_inv:
  assumes "plan_inv members w ids outside cap placed deg batches"
    and "\<And>b x. x \<in> ids \<Longrightarrow> count_list (dep b) x = count_list (w x) b"
    and "\<And>t. t \<in> set members \<Longrightarrow> kind (td_status t) = KInProgress \<Longrightarrow> w (td_id t) = []"
    and "distinct (map td_id members)" and "cap \<noteq> Some 0"
  shows "\<exists>deg'. plan_inv members w ids outside cap (snd (plan_loop dep members outside cap placed deg batches)) deg'
        (fst (plan_loop dep members outside cap placed deg batches))
      \<and> ready_members members outside (snd (plan_loop dep members outside cap placed deg batches)) deg' = []"
  using assms
proof (induction dep members outside cap placed deg batches rule: plan_loop.induct)
  case (1 dep members outside cap placed deg batches)
  let ?ready = "ready_members members outside placed deg"
  let ?batch = "next_batch dep members placed cap ?ready"
  show ?case
  proof (cases "?ready = []")
    case True
    then have "plan_loop dep members outside cap placed deg batches = (batches, placed)"
      by (subst plan_loop.simps) (simp add: Let_def)
    with "1.prems"(1) True show ?thesis by auto
  next
    case False
    have "distinct (map td_id ?ready)"
      using "1.prems"(4) by (simp add: ready_members_def distinct_map inj_on_def)
    from next_batch_facts(3) [OF this False "1.prems"(5)] have batch: "?batch \<noteq> []" .
    obtain placed' deg' where step: "place_batch dep (length batches) ?batch placed deg = (placed', deg')" by force
    have "plan_loop dep members outside cap placed deg batches = plan_loop dep members outside cap placed' deg' (batches @ [?batch])"
      by (subst plan_loop.simps) (simp add: Let_def False batch step)
    moreover have "plan_inv members w ids outside cap placed' deg' (batches @ [?batch])"
      using plan_inv_step [OF "1.prems"(1-4) refl batch step] .
    ultimately show ?thesis
      using "1.IH" [OF refl False refl batch step [symmetric] refl] "1.prems"(2-5) by simp
  qed
qed

section \<open>The plan as a whole\<close>

lemma member_waits_started:
  "distinct (map td_id members) \<Longrightarrow> t \<in> set members \<Longrightarrow> kind (td_status t) = KInProgress \<Longrightarrow>
     member_waits todos members (td_id t) = []"
  by (simp add: member_waits_def waits_of_member)

text \<open>The members that can be placed at all: those on no cycle.\<close>

definition free_ids :: "Todo list \<Rightarrow> Todo list \<Rightarrow> string set" where
  "free_ids todos members = td_id ` set members - td_id ` set (cycled_members todos members)"

lemma cycled_members_iff:
  "i \<in> td_id ` set (cycled_members todos members) \<longleftrightarrow>
     i \<in> td_id ` set members \<and> (i, i) \<in> (open_edges todos (is_member members))\<^sup>+"
  by (auto simp: cycled_members_def on_member_cycle_iff)

lemma plan_result:
  fixes offered :: "Todo \<Rightarrow> bool"
  assumes "distinct (map td_id todos)" and "cap \<noteq> Some 0"
  defines "members \<equiv> plan_members todos offered"
  obtains placed deg where
    "plan_inv members (member_waits todos members) (free_ids todos members) (waiting_outside todos members) cap
       placed deg (pl_batches (plan todos offered cap))"
    "ready_members members (waiting_outside todos members) placed deg = []"
    "pl_cycle (plan todos offered cap) =
       filter (\<lambda>t. td_id t \<notin> set (waiting_outside todos members)) (cycled_members todos members)"
    "pl_critical (plan todos offered cap) =
       critical_path (dependents_of todos members) (filter (\<lambda>t. placed (td_id t) \<noteq> None) members)"
proof -
  let ?w = "member_waits todos members" and ?ids = "free_ids todos members"
  have members: "distinct (map td_id members)"
    unfolding members_def using assms(1) by (rule plan_members_distinct)
  have start: "plan_inv members ?w ?ids (waiting_outside todos members) cap Map.empty
      (first_degrees todos members (cycled_members todos members)) []"
    by (simp add: plan_inv_def degrees_ok_def first_degrees_eq free_ids_def)
  have count: "count_list (dependents_of todos members b) x = count_list (?w x) b" if "x \<in> ?ids" for b x
    using that by (simp add: dependents_count [OF members] free_ids_def)
  let ?r = "plan_loop (dependents_of todos members) members (waiting_outside todos members) cap Map.empty
      (first_degrees todos members (cycled_members todos members)) []"
  obtain deg where loop: "plan_inv members ?w ?ids (waiting_outside todos members) cap (snd ?r) deg (fst ?r)"
      "ready_members members (waiting_outside todos members) (snd ?r) deg = []"
    using plan_loop_inv [OF start count member_waits_started [OF members] members assms(2)] by blast
  have "pl_batches (plan todos offered cap) = fst ?r"
    by (simp add: plan_def members_def [symmetric] Let_def case_prod_beta)
  moreover have "pl_cycle (plan todos offered cap) =
       filter (\<lambda>t. td_id t \<notin> set (waiting_outside todos members)) (cycled_members todos members)"
    by (simp add: plan_def members_def [symmetric] Let_def case_prod_beta)
  moreover have "pl_critical (plan todos offered cap) =
       critical_path (dependents_of todos members) (filter (\<lambda>t. snd ?r (td_id t) \<noteq> None) members)"
    by (simp add: plan_def members_def [symmetric] Let_def case_prod_beta)
  ultimately show ?thesis using that [of "snd ?r" deg] loop by simp
qed

lemma same_todo: "distinct (map td_id todos) \<Longrightarrow> t \<in> set todos \<Longrightarrow> u \<in> set todos \<Longrightarrow> td_id t = td_id u \<Longrightarrow> t = u"
  by (auto simp: distinct_map inj_on_def)

lemma open_blockers_subset: "set (open_blockers todos t) \<subseteq> set todos"
  by (auto simp: open_blockers_def in_map_filter graph_get_def dest: todo_by_id_Some)

text \<open>
  C37: the batches of a plan can be worked through in order. Over a list whose ids are distinct, with a
  cap that is not zero, every batch has todos, each of them open and offered, and no todo is in two
  batches; a todo not yet started comes after every one of its open blockers, each of which is in an
  earlier batch; a started todo is in the first batch; and a batch is no larger than the cap unless
  started todos alone fill it.
\<close>

theorem plan_batches_sound:
  assumes "distinct (map td_id todos)" and "cap \<noteq> Some 0" and "batches = pl_batches (plan todos offered cap)"
  shows "distinct (map td_id (concat batches))
    \<and> (\<forall>k<length batches. batches ! k \<noteq> []
        \<and> (\<forall>t\<in>set (batches ! k). t \<in> set todos \<and> todo_open t \<and> offered t
             \<and> (kind (td_status t) = KInProgress \<longrightarrow> k = 0)
             \<and> (kind (td_status t) \<noteq> KInProgress \<longrightarrow>
                  (\<forall>b\<in>set (open_blockers todos t). \<exists>j<k. b \<in> set (batches ! j))))
        \<and> (\<forall>c. cap = Some c \<longrightarrow>
             length (batches ! k) \<le> max c (length (filter (\<lambda>t. kind (td_status t) = KInProgress) (batches ! k)))))"
proof -
  let ?M = "plan_members todos offered"
  obtain placed deg where inv: "plan_inv ?M (member_waits todos ?M) (free_ids todos ?M) (waiting_outside todos ?M) cap
       placed deg batches"
    using plan_result [OF assms(1,2)] unfolding assms(3) by metis
  note M = plan_members_distinct [OF assms(1), of offered]
  have ok: "batch_ok ?M (member_waits todos ?M) (free_ids todos ?M) (waiting_outside todos ?M) cap batches k"
    if "k < length batches" for k
    using inv that unfolding plan_inv_def by blast
  have blockers: "\<exists>j<k. b \<in> set (batches ! j)"
    if k: "k < length batches" and t: "t \<in> set (batches ! k)" "kind (td_status t) \<noteq> KInProgress"
      and b: "b \<in> set (open_blockers todos t)" for k t b
  proof -
    have tm: "t \<in> set ?M" "td_id t \<notin> set (waiting_outside todos ?M)"
      using ok [OF k] t(1) by (auto simp: batch_ok_def)
    have w: "waits_of todos ?M (td_id t) = open_blockers todos t" using waits_of_member [OF M tm(1)] t(2) by simp
    then have edge: "(td_id t, td_id b) \<in> wait_edges todos ?M" using tm(1) b by (auto simp: wait_edges_def)
    then have "td_id b \<in> td_id ` set ?M"
      using tm(2) imageI [OF tm(1), of td_id] unfolding waiting_outside_iff by blast
    then have "td_id b \<in> set (member_waits todos ?M (td_id t))"
      using edge imageI [OF tm(1), of td_id] by (simp add: member_waits_edges)
    then obtain j where j: "j < k" "td_id b \<in> td_id ` set (batches ! j)"
      using ok [OF k] t(1) unfolding batch_ok_def by blast
    then obtain u where u: "u \<in> set (batches ! j)" "td_id u = td_id b" by auto
    have "u \<in> set ?M" using ok [of j] j(1) k u(1) by (auto simp: batch_ok_def)
    then have "u \<in> set todos" by (simp add: plan_members_def)
    moreover have "b \<in> set todos" using b open_blockers_subset by blast
    ultimately have "u = b" using same_todo [OF assms(1)] u(2) by simp
    with u j show ?thesis by blast
  qed
  have "distinct (map td_id (concat batches))" using inv by (simp add: plan_inv_def)
  moreover have "t \<in> set todos \<and> todo_open t \<and> offered t \<and> (kind (td_status t) = KInProgress \<longrightarrow> k = 0)"
    if "k < length batches" "t \<in> set (batches ! k)" for k t
    using ok [OF that(1)] that(2) by (auto simp: batch_ok_def plan_members_def)
  moreover have "batches ! k \<noteq> []" "\<forall>c. cap = Some c \<longrightarrow>
             length (batches ! k) \<le> max c (length (filter (\<lambda>t. kind (td_status t) = KInProgress) (batches ! k)))"
    if "k < length batches" for k
    using ok [OF that] by (simp_all add: batch_ok_def)
  ultimately show ?thesis
    by (intro conjI allI impI ballI; (elim conjE)?) (simp_all add: blockers)
qed

lemma finite_no_end_cycle:
  assumes "finite U" "U \<noteq> {}" and "\<And>y. y \<in> U \<Longrightarrow> \<exists>z\<in>U. (y, z) \<in> R"
  shows "\<exists>y\<in>U. (y, y) \<in> (R \<inter> U \<times> U)\<^sup>+"
proof (rule ccontr)
  assume none: "\<not> ?thesis"
  have "acyclic (R \<inter> U \<times> U)"
    unfolding acyclic_def
  proof (intro allI notI)
    fix y assume y: "(y, y) \<in> (R \<inter> U \<times> U)\<^sup>+"
    then have "y \<in> U" by (meson IntD2 SigmaD1 tranclD)
    with y none show False by blast
  qed
  moreover have "finite (R \<inter> U \<times> U)" using assms(1) by simp
  ultimately have "wf ((R \<inter> U \<times> U)\<inverse>)" using finite_acyclic_wf_converse by blast
  then obtain y where "y \<in> U" "\<And>z. (z, y) \<in> (R \<inter> U \<times> U)\<inverse> \<Longrightarrow> z \<notin> U"
    using assms(2) by (meson ex_in_conv wfE_min)
  then show False using assms(3) by blast
qed

text \<open>
  C36: the plan places every member it can, and no other. A todo is in some batch exactly when it is
  open and offered and every todo it waits on, directly or through others that have not started, is
  itself open and offered and on no cycle of open blockers; so when nothing waits outside and nothing
  is on a cycle every member is placed. The members the plan reports as a cycle are exactly those on
  one that do not also wait on something outside the plan.
\<close>

theorem plan_complete:
  fixes offered :: "Todo \<Rightarrow> bool"
  assumes "distinct (map td_id todos)" and "cap \<noteq> Some 0"
  defines "members \<equiv> plan_members todos offered"
  shows "(t \<in> set (concat (pl_batches (plan todos offered cap))) \<longleftrightarrow> t \<in> set members
      \<and> (\<forall>y. (td_id t, y) \<in> (wait_edges todos members)\<^sup>* \<longrightarrow>
            y \<in> td_id ` set members \<and> (y, y) \<notin> (open_edges todos (is_member members))\<^sup>+))
    \<and> (t \<in> set (pl_cycle (plan todos offered cap)) \<longleftrightarrow> t \<in> set members
      \<and> (td_id t, td_id t) \<in> (open_edges todos (is_member members))\<^sup>+
      \<and> (\<forall>y. (td_id t, y) \<in> (wait_edges todos members)\<^sup>* \<longrightarrow> y \<in> td_id ` set members))"
proof -
  let ?W = "wait_edges todos members" and ?S = "open_edges todos (is_member members)"
  let ?batches = "pl_batches (plan todos offered cap)" and ?out = "waiting_outside todos members"
  obtain placed deg where inv: "plan_inv members (member_waits todos members) (free_ids todos members) ?out cap
       placed deg ?batches"
    and ready: "ready_members members ?out placed deg = []"
    and cycle: "pl_cycle (plan todos offered cap) = filter (\<lambda>t. td_id t \<notin> set ?out) (cycled_members todos members)"
    using plan_result [OF assms(1,2)] unfolding members_def by metis
  have M: "distinct (map td_id members)" unfolding members_def using assms(1) by (rule plan_members_distinct)
  have sub: "u \<in> set todos" if "u \<in> set members" for u using that by (simp add: members_def plan_members_def)
  have ok: "batch_ok members (member_waits todos members) (free_ids todos members) ?out cap ?batches k"
    if "k < length ?batches" for k
    using inv that unfolding plan_inv_def by blast
  have edge: "(a, b) \<in> ?S" if e: "(a, b) \<in> ?W" and b: "b \<in> td_id ` set members" for a b
  proof -
    obtain u where u: "u \<in> set members" "a = td_id u" "b \<in> td_id ` set (waits_of todos members a)"
      using e by (auto simp: wait_edges_def)
    then have "b \<in> td_id ` set (open_blockers todos u)"
      using waits_of_member [OF M u(1)] by (auto split: if_splits)
    moreover have "graph_get todos a = Some u"
      using todo_by_id_distinct [OF assms(1) sub [OF u(1)]] u(2) by (simp add: graph_get_def)
    ultimately show ?thesis using b by (auto simp: open_edges_def succs_def is_member_iff)
  qed
  have inside: "x \<notin> set ?out \<longleftrightarrow> (\<forall>y. (x, y) \<in> ?W\<^sup>* \<longrightarrow> y \<in> td_id ` set members)"
    if "x \<in> td_id ` set members" for x
    using that by (auto simp: waiting_outside_iff)
  have forward: "(y, y) \<notin> ?S\<^sup>+" if "(x, y) \<in> ?W\<^sup>*" "k < length ?batches" "x \<in> td_id ` set (?batches ! k)" for x y k
    using that
  proof (induction arbitrary: k rule: converse_rtrancl_induct)
    case base
    then have "y \<in> free_ids todos members" using ok by (auto simp: batch_ok_def)
    then show ?case unfolding free_ids_def by (simp add: cycled_members_iff)
  next
    case (step x z)
    from step.prems obtain u where u: "u \<in> set (?batches ! k)" "td_id u = x" by auto
    then have x: "x \<in> td_id ` set members" "x \<notin> set ?out" "\<forall>b\<in>set (member_waits todos members x). \<exists>j<k. b \<in> td_id ` set (?batches ! j)"
      using ok [OF step.prems(1)] by (auto simp: batch_ok_def)
    have "z \<in> set (member_waits todos members x)"
      using step.hyps(1) inside [OF x(1)] x(1,2) by (auto simp: member_waits_edges)
    then obtain j where j: "j < k" "z \<in> td_id ` set (?batches ! j)" using x(3) by blast
    show ?case using j step.prems(1) by (intro step.IH [of j]) simp_all
  qed
  have backward: "x \<in> dom placed"
    if x: "x \<in> td_id ` set members" "\<And>y. (x, y) \<in> ?W\<^sup>* \<Longrightarrow> y \<in> td_id ` set members \<and> (y, y) \<notin> ?S\<^sup>+" for x
  proof (rule ccontr)
    assume unplaced: "x \<notin> dom placed"
    define U where "U = {y. (x, y) \<in> ?W\<^sup>* \<and> y \<notin> dom placed}"
    have "U \<subseteq> td_id ` set members" using x(2) by (auto simp: U_def)
    then have "finite U" by (rule finite_subset) simp
    moreover have "U \<noteq> {}" using unplaced by (auto simp: U_def)
    moreover have "\<exists>z\<in>U. (y, z) \<in> ?W" if y: "y \<in> U" for y
    proof -
      have reach: "(x, y) \<in> ?W\<^sup>*" "y \<notin> dom placed" using y by (simp_all add: U_def)
      have ym: "y \<in> td_id ` set members" "(y, y) \<notin> ?S\<^sup>+" using x(2) [OF reach(1)] by simp_all
      have "y \<notin> set ?out" using inside [OF ym(1)] x(2) reach(1) by (meson rtrancl_trans)
      moreover have "y \<in> free_ids todos members" using ym by (simp add: free_ids_def cycled_members_iff)
      moreover have "degrees_ok (member_waits todos members) (free_ids todos members) placed deg"
        using inv by (simp add: plan_inv_def)
      moreover obtain u where "u \<in> set members" "td_id u = y" using ym(1) by auto
      ultimately have "\<not> set (member_waits todos members y) \<subseteq> dom placed"
        using ready_members_iff [of "member_waits todos members" "free_ids todos members" placed deg u members ?out] ready reach(2)
        by auto
      then obtain z where z: "z \<in> set (member_waits todos members y)" "z \<notin> dom placed" by blast
      then have "(y, z) \<in> ?W" "z \<in> td_id ` set members" using member_waits_edges [OF ym(1)] by auto
      moreover from this have "(x, z) \<in> ?W\<^sup>*" using reach(1) by simp
      ultimately show ?thesis using z(2) by (auto simp: U_def)
    qed
    ultimately obtain y where y: "y \<in> U" "(y, y) \<in> (?W \<inter> U \<times> U)\<^sup>+"
      using finite_no_end_cycle by metis
    have "?W \<inter> U \<times> U \<subseteq> ?S" using edge \<open>U \<subseteq> td_id ` set members\<close> by blast
    then have "(y, y) \<in> ?S\<^sup>+" using y(2) trancl_mono by blast
    then show False using x(2) [of y] y(1) by (simp add: U_def)
  qed
  have dom: "dom placed = td_id ` set (concat ?batches)" using inv by (simp add: plan_inv_def)
  have mem: "u \<in> set members" "u \<in> set (concat ?batches) \<longleftrightarrow> u \<in> set members \<and> td_id u \<in> dom placed"
    if "u \<in> set (concat ?batches) \<or> u \<in> set members" for u
  proof -
    have in_members: "v \<in> set members" if v: "v \<in> set (concat ?batches)" for v
    proof -
      obtain l where "l \<in> set ?batches" "v \<in> set l" using v by auto
      then obtain k where "k < length ?batches" "v \<in> set (?batches ! k)" by (metis in_set_conv_nth)
      then show ?thesis using ok by (auto simp: batch_ok_def)
    qed
    then show "u \<in> set members" using that by blast
    show "u \<in> set (concat ?batches) \<longleftrightarrow> u \<in> set members \<and> td_id u \<in> dom placed"
    proof
      assume u: "u \<in> set (concat ?batches)"
      show "u \<in> set members \<and> td_id u \<in> dom placed"
        unfolding dom using in_members [OF u] imageI [OF u, of td_id] by (rule conjI)
    next
      assume u: "u \<in> set members \<and> td_id u \<in> dom placed"
      then obtain v where v: "v \<in> set (concat ?batches)" "td_id u = td_id v" unfolding dom by (meson imageE)
      from same_todo [OF M in_members [OF v(1)] conjunct1 [OF u] v(2) [symmetric]] v(1)
      show "u \<in> set (concat ?batches)" by simp
    qed
  qed
  have "t \<in> set (concat ?batches) \<longleftrightarrow> t \<in> set members
      \<and> (\<forall>y. (td_id t, y) \<in> ?W\<^sup>* \<longrightarrow> y \<in> td_id ` set members \<and> (y, y) \<notin> ?S\<^sup>+)"
  proof
    assume t: "t \<in> set (concat ?batches)"
    then obtain l where "l \<in> set ?batches" "t \<in> set l" by auto
    then obtain k where k: "k < length ?batches" "t \<in> set (?batches ! k)" by (metis in_set_conv_nth)
    have "td_id t \<notin> set ?out" using ok [OF k(1)] k(2) by (auto simp: batch_ok_def)
    with forward [OF _ k(1) imageI [OF k(2)]] mem(1) [of t] t inside [of "td_id t"]
    show "t \<in> set members \<and> (\<forall>y. (td_id t, y) \<in> ?W\<^sup>* \<longrightarrow> y \<in> td_id ` set members \<and> (y, y) \<notin> ?S\<^sup>+)" by blast
  next
    assume t: "t \<in> set members \<and> (\<forall>y. (td_id t, y) \<in> ?W\<^sup>* \<longrightarrow> y \<in> td_id ` set members \<and> (y, y) \<notin> ?S\<^sup>+)"
    then have "td_id t \<in> dom placed" using backward [of "td_id t"] by blast
    with t show "t \<in> set (concat ?batches)" using mem(2) [of t] by blast
  qed
  moreover have "t \<in> set (pl_cycle (plan todos offered cap)) \<longleftrightarrow> t \<in> set members \<and> (td_id t, td_id t) \<in> ?S\<^sup>+
      \<and> (\<forall>y. (td_id t, y) \<in> ?W\<^sup>* \<longrightarrow> y \<in> td_id ` set members)"
    using inside [of "td_id t"] by (auto simp: cycle cycled_members_def on_member_cycle_iff)
  ultimately show ?thesis by blast
qed

end
