(* ===== verification/Todo_Topo.thy ===== *)
theory Todo_Topo
  imports Todo_Plan
begin

text \<open>
  The topological order and the critical path of \<open>crates/devkit-todo/src/graph.rs\<close>. The loop over the
  freed members ends within one round per member, whatever the edges are; on edges without a cycle it
  lists every member, each after all it depends on, and the chain grown backwards over that order is a
  longest one.
\<close>

section \<open>Freeing dependents\<close>

definition fits :: "string list \<Rightarrow> (string \<rightharpoonup> nat) \<Rightarrow> bool" where
  "fits ds deg \<longleftrightarrow> (\<forall>x n. deg x = Some n \<longrightarrow> count_list ds x \<le> n)"

lemma fits_tail: "fits (d # ds) deg \<Longrightarrow> fits ds deg"
  unfolding fits_def by (metis count_list.simps(2) le_add1 order_trans)

lemma free_dependents_degrees: "fst (free_dependents ds deg) x = map_option (\<lambda>n. n - count_list ds x) (deg x)"
proof (induction ds arbitrary: deg)
  case (Cons d ds)
  then show ?case by (cases "deg d"; cases "d = x") (auto simp: Let_def case_prod_beta)
qed (simp add: option.map_ident)

lemma free_dependents_freed:
  assumes "fits ds deg"
  shows "set (snd (free_dependents ds deg)) = {x \<in> set ds. deg x = Some (count_list ds x)}
    \<and> distinct (snd (free_dependents ds deg))"
  using assms
proof (induction ds arbitrary: deg)
  case (Cons d ds)
  show ?case
  proof (cases "deg d")
    case None
    then have "x \<noteq> d" if "deg x = Some n" for x n using that by auto
    with Cons.IH [OF fits_tail [OF Cons.prems]] None show ?thesis by (simp; blast)
  next
    case (Some n)
    let ?deg = "deg(d \<mapsto> n - 1)"
    have "count_list (d # ds) d \<le> n" using Cons.prems Some unfolding fits_def by blast
    then have n: "count_list ds d + 1 \<le> n" by simp
    have "fits ds ?deg"
      unfolding fits_def
    proof (intro allI impI)
      fix x m assume "?deg x = Some m"
      then show "count_list ds x \<le> m"
        using fits_tail [OF Cons.prems] n unfolding fits_def by (cases "x = d") auto
    qed
    note IH = Cons.IH [OF this]
    have mem: "x \<in> set (snd (free_dependents ds ?deg)) \<longleftrightarrow> x \<in> set ds \<and> ?deg x = Some (count_list ds x)" for x
      using IH by blast
    have freed: "snd (free_dependents (d # ds) deg) =
        (if n - 1 = 0 then d # snd (free_dependents ds ?deg) else snd (free_dependents ds ?deg))"
      using Some by (simp add: Let_def case_prod_beta)
    have d_in: "d \<in> set ds \<longleftrightarrow> count_list ds d \<noteq> 0" by (simp add: count_list_0_iff)
    have "x \<in> set (snd (free_dependents (d # ds) deg)) \<longleftrightarrow> x \<in> set (d # ds) \<and> deg x = Some (count_list (d # ds) x)" for x
    proof (cases "x = d")
      case True
      then show ?thesis unfolding freed using mem [of d] d_in n Some by auto
    next
      case False
      then show ?thesis unfolding freed using mem [of x] by auto
    qed
    moreover have "d \<notin> set ds" if "n - 1 = 0" using that n d_in by simp
    then have "distinct (snd (free_dependents (d # ds) deg))"
      unfolding freed using conjunct2 [OF IH] mem [of d] by (simp only: distinct.simps split: if_split) blast
    ultimately show ?thesis by blast
  qed
qed simp

section \<open>The loop invariant\<close>

abbreviation ids_of_todos :: "Todo list \<Rightarrow> string set" where
  "ids_of_todos members \<equiv> td_id ` set members"

text \<open>How often a member is mentioned by all the members, and by those taken.\<close>

definition mentions :: "dependents \<Rightarrow> string list \<Rightarrow> string \<Rightarrow> nat" where
  "mentions dep is x = sum_list (map (\<lambda>i. count_list (dep i) x) is)"

lemma mentions_append [simp]: "mentions dep (is @ [i]) x = mentions dep is x + count_list (dep i) x"
  by (simp add: mentions_def)

lemma mentions_sum: "distinct is \<Longrightarrow> mentions dep is x = (\<Sum>i\<in>set is. count_list (dep i) x)"
  by (simp add: mentions_def sum_list_distinct_conv_sum_set)

lemma mentions_le:
  assumes "distinct is" and "set is \<subseteq> set js"
  shows "mentions dep is x \<le> mentions dep js x"
  using assms
proof (induction js arbitrary: "is")
  case (Cons j js)
  have split: "mentions dep is x = mentions dep (filter (\<lambda>i. i = j) is) x + mentions dep (filter (\<lambda>i. i \<noteq> j) is) x"
    unfolding mentions_def by (induction "is") auto
  have "mentions dep (filter (\<lambda>i. i \<noteq> j) is) x \<le> mentions dep js x"
    by (rule Cons.IH) (use Cons.prems in auto)
  moreover have "filter (\<lambda>i. i = j) is = (if j \<in> set is then [j] else [])"
    using Cons.prems(1) by (induction "is") (auto simp: filter_empty_conv)
  ultimately show ?case unfolding split by (auto simp: mentions_def)
qed (simp add: mentions_def)

definition topo_inv :: "dependents \<Rightarrow> Todo list \<Rightarrow> (string \<rightharpoonup> nat) \<Rightarrow> string list \<Rightarrow> string list \<Rightarrow> bool" where
  "topo_inv dep members deg ready taken \<longleftrightarrow>
     distinct (taken @ ready) \<and> set taken \<subseteq> ids_of_todos members
     \<and> (\<forall>x. deg x = (if x \<in> ids_of_todos members then Some (mentions dep (map td_id members) x - mentions dep taken x) else None))
     \<and> (\<forall>x\<in>set taken. deg x = Some 0)
     \<and> set ready = {x \<in> ids_of_todos members. x \<notin> set taken \<and> deg x = Some 0}
     \<and> (\<forall>j<length taken. \<forall>y\<in>ids_of_todos members. taken ! j \<in> set (dep y) \<longrightarrow> y \<in> set (take j taken))"

lemma mentions_left:
  assumes "distinct taken" and "set taken \<subseteq> ids_of_todos members" and "i \<in> ids_of_todos members" and "i \<notin> set taken"
  shows "mentions dep taken x + count_list (dep i) x \<le> mentions dep (map td_id members) x"
  using mentions_le [of "taken @ [i]" "map td_id members" dep x] assms by simp

lemma topo_inv_step:
  assumes inv: "topo_inv dep members deg (i # rest) taken"
    and free: "free_dependents (dep i) deg = (deg', freed)"
  shows "topo_inv dep members deg' (rev (sort freed) @ rest) (taken @ [i])"
proof -
  note ok = inv [unfolded topo_inv_def]
  from ok have dist: "distinct (taken @ i # rest)" and sub: "set taken \<subseteq> ids_of_todos members"
    and at_zero: "\<forall>x\<in>set taken. deg x = Some 0"
    and ready: "set (i # rest) = {x \<in> ids_of_todos members. x \<notin> set taken \<and> deg x = Some 0}"
    and before: "\<forall>j<length taken. \<forall>y\<in>ids_of_todos members. taken ! j \<in> set (dep y) \<longrightarrow> y \<in> set (take j taken)"
    by blast+
  have "i \<in> set (i # rest)" by simp
  then have i: "i \<in> ids_of_todos members" "i \<notin> set taken" "deg i = Some 0" unfolding ready by simp_all
  have left: "mentions dep taken x + count_list (dep i) x \<le> mentions dep (map td_id members) x" for x
    by (rule mentions_left) (use dist sub i in simp_all)
  have deg: "deg x = (if x \<in> ids_of_todos members then Some (mentions dep (map td_id members) x - mentions dep taken x) else None)" for x
    using ok by blast
  have fit: "fits (dep i) deg" unfolding fits_def
  proof (intro allI impI)
    fix x n assume "deg x = Some n"
    then show "count_list (dep i) x \<le> n" using left [of x] deg [of x] by (simp split: if_splits)
  qed
  have freed: "set freed = {x \<in> set (dep i). deg x = Some (count_list (dep i) x)}" "distinct freed"
    using free_dependents_freed [OF fit] free by simp_all
  have deg': "deg' x = map_option (\<lambda>n. n - count_list (dep i) x) (deg x)" for x
    using free_dependents_degrees [of "dep i" deg x] free by simp
  have new: "x \<notin> set taken \<and> x \<notin> set (i # rest)" if x: "x \<in> set freed" for x
  proof -
    have "count_list (dep i) x \<noteq> 0" "deg x = Some (count_list (dep i) x)"
      using x freed(1) by (simp_all add: count_list_0_iff)
    then have "deg x \<noteq> Some 0" by simp
    then show ?thesis using at_zero unfolding ready by blast
  qed
  have degrees: "deg' x = (if x \<in> ids_of_todos members then Some (mentions dep (map td_id members) x - mentions dep (taken @ [i]) x) else None)" for x
    by (simp add: deg' deg)
  have "distinct ((taken @ [i]) @ rev (sort freed) @ rest)" using dist freed(2) new by auto
  moreover have "set (taken @ [i]) \<subseteq> ids_of_todos members" using sub i by simp
  moreover have "\<forall>x\<in>set (taken @ [i]). deg' x = Some 0" using at_zero i by (simp add: deg')
  moreover have "set (rev (sort freed) @ rest) = {x \<in> ids_of_todos members. x \<notin> set (taken @ [i]) \<and> deg' x = Some 0}"
  proof (intro set_eqI)
    fix x
    have was: "x \<in> set (i # rest) \<longleftrightarrow> x \<in> ids_of_todos members \<and> x \<notin> set taken \<and> deg x = Some 0" unfolding ready by simp
    have zero: "deg' x = Some 0 \<longleftrightarrow> deg x = Some 0 \<or> deg x = Some (count_list (dep i) x)"
      using fit unfolding fits_def by (cases "deg x") (fastforce simp: deg')+
    have "x \<in> set freed \<longleftrightarrow> deg x = Some (count_list (dep i) x) \<and> deg x \<noteq> Some 0"
      using freed(1) by (auto simp: count_list_0_iff)
    moreover have "deg x = Some n \<Longrightarrow> x \<in> ids_of_todos members" for n using deg [of x] by (auto split: if_splits)
    moreover have "i \<notin> set rest" using dist by simp
    ultimately show "x \<in> set (rev (sort freed) @ rest) \<longleftrightarrow> x \<in> {x \<in> ids_of_todos members. x \<notin> set (taken @ [i]) \<and> deg' x = Some 0}"
      using was zero new [of x] by (cases "x = i") (simp_all, blast)
  qed
  moreover have "y \<in> set taken" if y: "y \<in> ids_of_todos members" "i \<in> set (dep y)" for y
  proof (rule ccontr)
    assume "y \<notin> set taken"
    then have "mentions dep taken i + count_list (dep y) i \<le> mentions dep (map td_id members) i"
      by (intro mentions_left) (use dist sub y in simp_all)
    moreover have "mentions dep (map td_id members) i - mentions dep taken i = 0" using deg [of i] i by simp
    moreover have "count_list (dep y) i \<noteq> 0" using y(2) by (simp add: count_list_0_iff)
    ultimately show False by simp
  qed
  then have "\<forall>j<length (taken @ [i]). \<forall>y\<in>ids_of_todos members. (taken @ [i]) ! j \<in> set (dep y) \<longrightarrow> y \<in> set (take j (taken @ [i]))"
    using before by (auto simp: nth_append less_Suc_eq)
  ultimately show ?thesis unfolding topo_inv_def using degrees by blast
qed

section \<open>The order\<close>

lemma topo_degrees_eq:
  "topo_degrees dep members x = (if x \<in> ids_of_todos members then Some (mentions dep (map td_id members) x) else None)"
proof -
  have count: "count_edges ds deg y = map_option (\<lambda>n. n + count_list ds y) (deg y)" for ds deg y
  proof (induction ds arbitrary: deg)
    case (Cons d ds)
    then show ?case by (cases "deg d"; cases "d = y") auto
  qed (simp add: option.map_ident)
  have total: "fold (\<lambda>t deg. count_edges (dep (td_id t)) deg) ts deg x
      = map_option (\<lambda>n. n + mentions dep (map td_id ts) x) (deg x)" for ts deg
  proof (induction ts arbitrary: deg)
    case (Cons t ts)
    then show ?case by (cases "deg x") (simp_all add: count mentions_def)
  qed (simp add: mentions_def option.map_ident)
  have "map_of (map (\<lambda>t. (td_id t, 0 :: nat)) members) x = (if x \<in> ids_of_todos members then Some 0 else None)"
    by (induction members) auto
  then show ?thesis unfolding topo_degrees_def total [of members] by simp
qed

text \<open>What the loop ends with, from any state of it with fuel for the members left.\<close>

lemma topo_loop_total:
  assumes "topo_inv dep members deg ready (map td_id order)" and "set order \<subseteq> set members"
    and "card (ids_of_todos members) < fuel + length order"
  shows "\<exists>order' deg'. topo_loop fuel dep members deg ready order = Some order'
    \<and> topo_inv dep members deg' [] (map td_id order') \<and> set order' \<subseteq> set members"
  using assms
proof (induction fuel arbitrary: deg ready order)
  case 0
  have "card (set (map td_id order)) \<le> card (ids_of_todos members)"
    using "0.prems"(1) by (intro card_mono) (auto simp: topo_inv_def)
  moreover have "card (set (map td_id order)) = length order"
    using "0.prems"(1) distinct_card [of "map td_id order"] by (simp add: topo_inv_def)
  ultimately show ?case using "0.prems"(3) by simp
next
  case (Suc fuel)
  show ?case
  proof (cases ready)
    case Nil
    then show ?thesis using Suc.prems by auto
  next
    case (Cons i rest)
    have "i \<in> set ready" by (simp add: Cons)
    then have "i \<in> ids_of_todos members" using Suc.prems(1) unfolding topo_inv_def by blast
    then obtain t where t: "todo_by_id members i = Some t"
      by (cases "todo_by_id members i") (auto simp: todo_by_id_def find_None_iff)
    then have tm: "t \<in> set members" "td_id t = i" by (auto dest: todo_by_id_Some)
    obtain deg' freed where free: "free_dependents (dep i) deg = (deg', freed)" by force
    have "topo_inv dep members deg' (rev (sort freed) @ rest) (map td_id (order @ [t]))"
      using topo_inv_step [OF Suc.prems(1) [unfolded Cons] free] tm by simp
    from Suc.IH [OF this] Suc.prems(2,3) tm show ?thesis by (simp add: Cons t free)
  qed
qed

lemma topo_fuel_total:
  "\<exists>order deg. topo_fuel (Suc (length members)) dep members = Some order
    \<and> topo_inv dep members deg [] (map td_id order) \<and> set order \<subseteq> set members"
proof -
  define deg where "deg = topo_degrees dep members"
  define ready where "ready = rev (sort (filter (\<lambda>i. deg i = Some 0) (remdups (map td_id members))))"
  have "set ready = {x \<in> ids_of_todos members. deg x = Some 0}" by (auto simp: ready_def)
  then have "topo_inv dep members deg ready (map td_id [])"
    by (simp add: topo_inv_def mentions_def) (simp add: ready_def deg_def topo_degrees_eq mentions_def)
  moreover have "card (ids_of_todos members) < Suc (length members) + length []"
    using card_image_le [of "set members" td_id] card_length [of members] by simp
  ultimately have "\<exists>order' deg'. topo_loop (Suc (length members)) dep members deg ready [] = Some order'
      \<and> topo_inv dep members deg' [] (map td_id order') \<and> set order' \<subseteq> set members"
    by (intro topo_loop_total) simp_all
  then show ?thesis by (auto simp: topo_fuel_def Let_def deg_def ready_def)
qed

text \<open>The edges among members: from a member to those that wait on it.\<close>

definition dep_edges :: "dependents \<Rightarrow> Todo list \<Rightarrow> (string \<times> string) set" where
  "dep_edges dep members = {(a, b). a \<in> ids_of_todos members \<and> b \<in> ids_of_todos members \<and> b \<in> set (dep a)}"

lemma topo_facts:
  shows "distinct (map td_id (topo dep members))" and "set (topo dep members) \<subseteq> set members"
    and "\<forall>j<length (topo dep members). \<forall>a. (a, td_id (topo dep members ! j)) \<in> dep_edges dep members
           \<longrightarrow> a \<in> td_id ` set (take j (topo dep members))"
    and "distinct (map td_id members) \<Longrightarrow> acyclic (dep_edges dep members) \<Longrightarrow> set (topo dep members) = set members"
proof -
  obtain order deg where run: "topo_fuel (Suc (length members)) dep members = Some order"
      and inv: "topo_inv dep members deg [] (map td_id order)" and sub: "set order \<subseteq> set members"
    using topo_fuel_total by blast
  have topo: "topo dep members = order" by (simp add: topo_def run)
  note raw = inv [unfolded topo_inv_def]
  have ok1: "distinct (map td_id order)" using raw by simp
  have ok2: "deg x = (if x \<in> ids_of_todos members then Some (mentions dep (map td_id members) x - mentions dep (map td_id order) x) else None)" for x
    using raw by blast
  have ok3: "{x \<in> ids_of_todos members. x \<notin> ids_of_todos order \<and> deg x = Some 0} = {}"
    using raw [THEN conjunct2, THEN conjunct2, THEN conjunct2, THEN conjunct2, THEN conjunct1]
    unfolding set_map list.set by (rule sym)
  note ok4 = raw [THEN conjunct2, THEN conjunct2, THEN conjunct2, THEN conjunct2, THEN conjunct2]
  show "distinct (map td_id (topo dep members))" "set (topo dep members) \<subseteq> set members"
    using ok1 sub by (simp_all add: topo)
  show "\<forall>j<length (topo dep members). \<forall>a. (a, td_id (topo dep members ! j)) \<in> dep_edges dep members
           \<longrightarrow> a \<in> td_id ` set (take j (topo dep members))"
    using ok4 by (auto simp: topo dep_edges_def take_map)
  show "set (topo dep members) = set members" if M: "distinct (map td_id members)" and acyc: "acyclic (dep_edges dep members)"
  proof (rule ccontr)
    assume "set (topo dep members) \<noteq> set members"
    then obtain t where t: "t \<in> set members" "t \<notin> set order" using sub topo by auto
    define U where "U = ids_of_todos members - ids_of_todos order"
    have "td_id t \<notin> ids_of_todos order" using t sub same_todo [OF M t(1)] by blast
    then have "U \<noteq> {}" using t by (auto simp: U_def)
    moreover have "finite U" by (simp add: U_def)
    moreover have "\<exists>z\<in>U. (y, z) \<in> (dep_edges dep members)\<inverse>" if y: "y \<in> U" for y
    proof (rule ccontr)
      assume none: "\<not> ?thesis"
      have zero: "count_list (dep z) y = 0" if "z \<in> U" for z
        using none that y by (auto simp: U_def dep_edges_def count_list_0_iff)
      have ym: "y \<in> ids_of_todos members" "y \<notin> ids_of_todos order" using y by (simp_all add: U_def)
      have "mentions dep (map td_id members) y = (\<Sum>z\<in>ids_of_todos members. count_list (dep z) y)"
        using mentions_sum [OF M] by simp
      also have "\<dots> = (\<Sum>z\<in>ids_of_todos order. count_list (dep z) y)"
        using zero sub by (intro sum.mono_neutral_right) (auto simp: U_def)
      also have "\<dots> = mentions dep (map td_id order) y"
        using mentions_sum [OF ok1] by simp
      finally have "deg y = Some 0" using ok2 [of y] ym by simp
      then show False using ok3 ym by auto
    qed
    ultimately obtain y where "(y, y) \<in> ((dep_edges dep members)\<inverse> \<inter> U \<times> U)\<^sup>+"
      using finite_no_end_cycle by metis
    then have "(y, y) \<in> ((dep_edges dep members)\<inverse>)\<^sup>+" using trancl_mono by blast
    then show False using acyc by (simp add: trancl_converse acyclic_def)
  qed
qed

section \<open>The longest chain\<close>

lemma fold_longest:
  "fold (\<lambda>y best. if chain_le ranks best y then y else best) xs x \<in> insert x (set xs)
   \<and> (\<forall>y\<in>insert x (set xs). length y \<le> length (fold (\<lambda>y best. if chain_le ranks best y then y else best) xs x))"
proof (induction xs arbitrary: x)
  case (Cons z xs)
  define x' where "x' = (if chain_le ranks x z then z else x)"
  have "length x \<le> length x'" "length z \<le> length x'" "x' \<in> {x, z}"
    by (auto simp: x'_def chain_le_def)
  with Cons.IH [of x'] show ?case by (fastforce simp: x'_def [symmetric])
qed simp

lemma max_by_longest:
  assumes "max_by (chain_le ranks) xs = Some m"
  shows "m \<in> set xs" and "y \<in> set xs \<Longrightarrow> length y \<le> length m"
  using assms fold_longest [of ranks] by (cases xs; fastforce)+

lemma max_by_None: "max_by le xs = None \<longleftrightarrow> xs = []"
  by (cases xs) simp_all

definition longest_from :: "(string \<times> string) set \<Rightarrow> string \<Rightarrow> string list \<Rightarrow> bool" where
  "longest_from E x c \<longleftrightarrow> walk E c \<and> hd c = x \<and> (\<forall>p. walk E p \<and> hd p = x \<longrightarrow> length p \<le> length c)"

lemma walk_Cons: "walk E (x # c) \<longleftrightarrow> c = [] \<or> (x, hd c) \<in> E \<and> walk E c"
  by (cases c) auto

lemma walk_not_Nil: "walk E p \<Longrightarrow> p \<noteq> []"
  by auto

lemma best_step_longest:
  assumes best: "\<And>y c. map_of best y = Some c \<Longrightarrow> longest_from (dep_edges dep members) y c"
    and before: "\<And>y. (td_id t, y) \<in> dep_edges dep members \<Longrightarrow> map_of best y \<noteq> None"
    and inside: "\<And>y. map_of best y \<noteq> None \<Longrightarrow> y \<in> ids_of_todos members" and t: "td_id t \<in> ids_of_todos members"
    and "map_of (best_step dep ranks t best) y = Some c"
  shows "longest_from (dep_edges dep members) y c"
proof (cases "y = td_id t")
  case False
  then have "map_of best y = Some c" using assms(5) by (auto simp: best_step_def split: option.splits)
  then show ?thesis by (rule best)
next
  case True
  let ?E = "dep_edges dep members" and ?next = "List.map_filter (map_of best) (dep (td_id t))"
  have cand: "d \<in> set ?next \<longleftrightarrow> (\<exists>z. (td_id t, z) \<in> ?E \<and> map_of best z = Some d)" for d
    using inside t by (fastforce simp: in_map_filter dep_edges_def)
  show ?thesis
  proof (cases "max_by (chain_le ranks) ?next")
    case None
    then have c: "c = [td_id t]" using True assms(5) by (simp add: best_step_def)
    have none: "(td_id t, z) \<notin> ?E" for z
      using None before [of z] cand unfolding max_by_None by fastforce
    have "length p \<le> 1" if "walk ?E p" "hd p = td_id t" for p
      using that none by (cases p) (auto simp: walk_Cons)
    then show ?thesis by (simp add: longest_from_def c True)
  next
    case (Some m)
    then have c: "c = td_id t # m" using True assms(5) by (simp add: best_step_def)
    from max_by_longest(1) [OF Some] obtain z where z: "(td_id t, z) \<in> ?E" "map_of best z = Some m"
      using cand by blast
    from best [OF z(2)] have m: "walk ?E m" "hd m = z" by (simp_all add: longest_from_def)
    have "length p \<le> length c" if p: "walk ?E p" "hd p = td_id t" for p
    proof (cases p)
      case (Cons a q)
      show ?thesis
      proof (cases "q = []")
        case False
        then have q: "(td_id t, hd q) \<in> ?E" "walk ?E q" using p Cons by (auto simp: walk_Cons)
        obtain d where d: "map_of best (hd q) = Some d" using before [OF q(1)] by blast
        then have "length q \<le> length d" using best [OF d] q(2) by (simp add: longest_from_def)
        also have "\<dots> \<le> length m" using max_by_longest(2) [OF Some] cand q(1) d by blast
        finally show ?thesis by (simp add: Cons c)
      qed (simp add: Cons c)
    qed simp
    moreover have "walk ?E c" using m z(1) by (simp add: c walk_Cons)
    ultimately show ?thesis by (simp add: longest_from_def c True)
  qed
qed

lemma best_fold_longest:
  assumes M: "distinct (map td_id members)" and acyc: "acyclic (dep_edges dep members)"
  shows "map_of (fold (best_step dep ranks) (rev (topo dep members)) []) y = Some c \<Longrightarrow>
      longest_from (dep_edges dep members) y c"
    and "fst ` set (fold (best_step dep ranks) (rev (topo dep members)) []) = ids_of_todos members"
    and "distinct (map fst (fold (best_step dep ranks) (rev (topo dep members)) []))"
proof -
  let ?order = "topo dep members" and ?E = "dep_edges dep members"
  note facts = topo_facts [where dep = dep and members = members]
  have all: "set ?order = set members" using facts(4) [OF M acyc] .
  have "(\<forall>y c. map_of (fold (best_step dep ranks) (rev suf) []) y = Some c \<longrightarrow> longest_from ?E y c)
      \<and> fst ` set (fold (best_step dep ranks) (rev suf) []) = ids_of_todos suf
      \<and> distinct (map fst (fold (best_step dep ranks) (rev suf) []))"
    if "?order = pre @ suf" for pre suf
    using that
  proof (induction suf arbitrary: pre)
    case (Cons t suf)
    let ?best = "fold (best_step dep ranks) (rev suf) []"
    have IH: "\<And>y c. map_of ?best y = Some c \<Longrightarrow> longest_from ?E y c" "fst ` set ?best = ids_of_todos suf" "distinct (map fst ?best)"
      using Cons.IH [of "pre @ [t]"] Cons.prems by auto
    have dom: "map_of ?best y \<noteq> None \<longleftrightarrow> y \<in> ids_of_todos suf" for y
      using IH(2) by (simp add: map_of_eq_None_iff)
    have tm: "t \<in> set members" and suf: "set suf \<subseteq> set members" using Cons.prems all by auto
    have later: "y \<in> ids_of_todos suf" if e: "(td_id t, y) \<in> ?E" for y
    proof -
      obtain u where "u \<in> set ?order" "td_id u = y" using e all by (auto simp: dep_edges_def)
      then obtain j where j: "j < length ?order" "td_id (?order ! j) = y" by (metis in_set_conv_nth)
      then have "td_id t \<in> ids_of_todos (take j ?order)" using facts(3) e by blast
      have "length pre < j"
      proof (rule ccontr)
        assume "\<not> length pre < j"
        then have "take j ?order = take j pre" using Cons.prems by simp
        then have "td_id t \<in> ids_of_todos pre" using \<open>td_id t \<in> ids_of_todos (take j ?order)\<close> by (auto dest: in_set_takeD)
        then show False using facts(1) Cons.prems by auto
      qed
      then have "?order ! j = suf ! (j - Suc (length pre))" "j - Suc (length pre) < length suf"
        using j(1) Cons.prems by (simp_all add: nth_append)
      then show ?thesis using j(2) by (metis image_eqI nth_mem)
    qed
    have "longest_from ?E y c" if "map_of (best_step dep ranks t ?best) y = Some c" for y c
    proof (rule best_step_longest [OF IH(1) _ _ _ that])
      show "map_of ?best z \<noteq> None" if "(td_id t, z) \<in> ?E" for z using later [OF that] dom by blast
      show "z \<in> ids_of_todos members" if "map_of ?best z \<noteq> None" for z using that dom suf by blast
      show "td_id t \<in> ids_of_todos members" using tm by simp
    qed
    moreover have "td_id t \<notin> ids_of_todos suf" using facts(1) Cons.prems by auto
    then have "fst ` set (best_step dep ranks t ?best) = ids_of_todos (t # suf)" "distinct (map fst (best_step dep ranks t ?best))"
      using IH(2,3) by (auto simp: best_step_def split: option.splits)
    ultimately show ?case by simp
  qed simp
  from this [of "[]" ?order]
  show "map_of (fold (best_step dep ranks) (rev ?order) []) y = Some c \<Longrightarrow> longest_from ?E y c"
    and "fst ` set (fold (best_step dep ranks) (rev ?order) []) = ids_of_todos members"
    and "distinct (map fst (fold (best_step dep ranks) (rev ?order) []))"
    using all by auto
qed

lemma walk_inside: "walk (dep_edges dep members) p \<Longrightarrow> hd p \<in> ids_of_todos members \<Longrightarrow> set p \<subseteq> ids_of_todos members"
proof (induction "dep_edges dep members" p rule: walk.induct)
  case (3 a b xs)
  then show ?case by (auto simp: dep_edges_def)
qed auto

lemma critical_path_longest:
  assumes M: "distinct (map td_id members)" and acyc: "acyclic (dep_edges dep members)" and "members \<noteq> []"
  shows "walk (dep_edges dep members) (map td_id (critical_path dep members))"
    and "set (critical_path dep members) \<subseteq> set members"
    and "walk (dep_edges dep members) p \<Longrightarrow> set p \<subseteq> ids_of_todos members \<Longrightarrow> length p \<le> length (critical_path dep members)"
proof -
  let ?E = "dep_edges dep members"
  define ranks where "ranks = ranks_of dep members"
  define best where "best = fold (best_step dep ranks) (rev (topo dep members)) []"
  note facts = best_fold_longest [OF M acyc, of ranks, folded best_def]
  have entry: "longest_from ?E x c" if "(x, c) \<in> set best" for x c
    using facts(1,3) that by simp
  have "best \<noteq> []" using facts(2) assms(3) by auto
  then obtain ids where ids: "max_by (chain_le ranks) (map snd best) = Some ids"
    using max_by_None [of "chain_le ranks" "map snd best"] by blast
  from max_by_longest(1) [OF ids] obtain x where x: "(x, ids) \<in> set best" by auto
  then have walk: "walk ?E ids" "hd ids = x" using entry by (simp_all add: longest_from_def)
  moreover have "x \<in> ids_of_todos members" using x facts(2) by force
  ultimately have inside: "set ids \<subseteq> ids_of_todos members" using walk_inside by blast
  have path: "critical_path dep members = map (\<lambda>i. the (todo_by_id members i)) ids"
    using assms(3) ids by (simp add: critical_path_def Let_def ranks_def [symmetric] best_def [symmetric])
  have get: "the (todo_by_id members i) \<in> set members \<and> td_id (the (todo_by_id members i)) = i" if "i \<in> set ids" for i
  proof -
    obtain t where "t \<in> set members" "td_id t = i" using inside \<open>i \<in> set ids\<close> by auto
    then show ?thesis using todo_by_id_distinct [OF M] by auto
  qed
  have same: "map td_id (critical_path dep members) = ids"
    unfolding path map_map by (rule map_idI) (use get in simp)
  show "walk ?E (map td_id (critical_path dep members))" unfolding same using walk(1) .
  show "set (critical_path dep members) \<subseteq> set members" using get by (auto simp: path)
  show "length p \<le> length (critical_path dep members)" if p: "walk ?E p" "set p \<subseteq> ids_of_todos members"
  proof -
    have "p \<noteq> []" using p(1) by auto
    then have "hd p \<in> fst ` set best" using p(2) facts(2) by auto
    then obtain c where c: "(hd p, c) \<in> set best" by force
    then have "length p \<le> length c" using entry [OF c] p(1) by (simp add: longest_from_def)
    also have "\<dots> \<le> length ids" using max_by_longest(2) [OF ids] c by force
    finally show ?thesis by (simp add: path)
  qed
qed

section \<open>The properties\<close>

text \<open>
  C39: the topological order ends and is one. Whatever the members and the edges, one round per member
  is enough fuel; each member listed is listed once, after every member it depends on; and when the
  edges among the members have no cycle every member is listed.
\<close>

theorem topo_total:
  "\<exists>order. topo_fuel (Suc (length members)) dep members = Some order
    \<and> distinct (map td_id order) \<and> set order \<subseteq> set members
    \<and> (\<forall>j<length order. \<forall>a. (a, td_id (order ! j)) \<in> dep_edges dep members \<longrightarrow> a \<in> ids_of_todos (take j order))
    \<and> (distinct (map td_id members) \<and> acyclic (dep_edges dep members) \<longrightarrow> set order = set members)"
proof -
  obtain order where "topo_fuel (Suc (length members)) dep members = Some order"
    using topo_fuel_total by blast
  moreover from this have "topo dep members = order" by (simp add: topo_def)
  ultimately show ?thesis using topo_facts [where dep = dep and members = members] by auto
qed

lemma dependents_of_edges:
  "distinct (map td_id members) \<Longrightarrow> (b, a) \<in> {(b, a). a \<in> ids_of_todos members \<and> a \<in> set (dependents_of todos members b)}
     \<longleftrightarrow> a \<in> ids_of_todos members \<and> b \<in> set (member_waits todos members a)"
  using dependents_count [of members todos b a] count_list_0_iff [of "dependents_of todos members b" a]
    count_list_0_iff [of "member_waits todos members a" b]
  by auto

lemma dep_edges_waits:
  assumes "distinct (map td_id members)" and "set placed \<subseteq> set members"
  shows "dep_edges (dependents_of todos members) placed =
    {(a, b). a \<in> ids_of_todos placed \<and> b \<in> ids_of_todos placed \<and> (b, a) \<in> wait_edges todos members}"
proof -
  have "b \<in> set (dependents_of todos members a) \<longleftrightarrow> (b, a) \<in> wait_edges todos members"
    if "a \<in> ids_of_todos placed" "b \<in> ids_of_todos placed" for a b
  proof -
    have "a \<in> ids_of_todos members" "b \<in> ids_of_todos members" using that assms(2) by auto
    then show ?thesis
      using dependents_of_edges [OF assms(1), of a b todos] member_waits_edges [of b members todos] by auto
  qed
  then show ?thesis by (auto simp: dep_edges_def)
qed

text \<open>
  C40: the critical path is a longest chain of the plan. It consists of placed todos, each of which
  waits on the one before it, and no such chain of placed todos is longer; it is empty only when the
  plan places nothing.
\<close>

theorem critical_longest:
  fixes offered :: "Todo \<Rightarrow> bool"
  assumes "distinct (map td_id todos)" and "cap \<noteq> Some 0"
  defines "p \<equiv> plan todos offered cap" and "members \<equiv> plan_members todos offered"
  shows "(pl_critical p = [] \<longleftrightarrow> pl_batches p = [])
    \<and> set (pl_critical p) \<subseteq> set (concat (pl_batches p))
    \<and> (pl_critical p \<noteq> [] \<longrightarrow> walk ((wait_edges todos members)\<inverse>) (map td_id (pl_critical p)))
    \<and> (\<forall>c. walk ((wait_edges todos members)\<inverse>) c \<and> set c \<subseteq> ids_of_todos (concat (pl_batches p)) \<longrightarrow> length c \<le> length (pl_critical p))"
proof -
  obtain placed deg where
    inv: "plan_inv members (member_waits todos members) (free_ids todos members) (waiting_outside todos members) cap
       placed deg (pl_batches p)"
    and crit: "pl_critical p = critical_path (dependents_of todos members) (filter (\<lambda>t. placed (td_id t) \<noteq> None) members)"
    using plan_result [OF assms(1,2)] unfolding members_def p_def by metis
  define P where "P = filter (\<lambda>t. placed (td_id t) \<noteq> None) members"
  let ?E = "dep_edges (dependents_of todos members) P"
  have M: "distinct (map td_id members)" unfolding members_def using assms(1) by (rule plan_members_distinct)
  have PM: "distinct (map td_id P)" using M by (simp add: P_def distinct_map inj_on_def)
  have ok: "batch_ok members (member_waits todos members) (free_ids todos members) (waiting_outside todos members) cap (pl_batches p) k"
    if "k < length (pl_batches p)" for k
    using inv that unfolding plan_inv_def by blast
  have dom: "dom placed = ids_of_todos (concat (pl_batches p))" using inv by (simp add: plan_inv_def)
  have batch_of: "\<exists>k<length (pl_batches p). u \<in> set (pl_batches p ! k)" if u: "u \<in> set (concat (pl_batches p))" for u
  proof -
    obtain l where "l \<in> set (pl_batches p)" "u \<in> set l" using u by auto
    then show ?thesis by (metis in_set_conv_nth)
  qed
  have in_members: "u \<in> set members" if u: "u \<in> set (concat (pl_batches p))" for u
    using batch_of [OF u] ok by (auto simp: batch_ok_def)
  have sets: "set P = set (concat (pl_batches p))"
  proof (intro set_eqI iffI)
    fix u assume "u \<in> set P"
    then have u: "u \<in> set members" "td_id u \<in> dom placed" by (auto simp: P_def)
    then obtain v where v: "v \<in> set (concat (pl_batches p))" "td_id u = td_id v" unfolding dom by (meson imageE)
    from same_todo [OF M in_members [OF v(1)] u(1) v(2) [symmetric]] v(1) show "u \<in> set (concat (pl_batches p))" by simp
  next
    fix u assume u: "u \<in> set (concat (pl_batches p))"
    then have "td_id u \<in> dom placed" unfolding dom by (rule imageI)
    then show "u \<in> set P" using in_members [OF u] by (auto simp: P_def)
  qed
  have E: "?E = {(a, b). a \<in> ids_of_todos P \<and> b \<in> ids_of_todos P \<and> (b, a) \<in> wait_edges todos members}"
    by (rule dep_edges_waits [OF M]) (auto simp: P_def)
  define rank where "rank x = (LEAST k. k < length (pl_batches p) \<and> x \<in> ids_of_todos (pl_batches p ! k))" for x
  have rank: "rank x < length (pl_batches p) \<and> x \<in> ids_of_todos (pl_batches p ! rank x)" if x: "x \<in> ids_of_todos P" for x
  proof -
    obtain u where "u \<in> set (concat (pl_batches p))" "td_id u = x" using x sets by auto
    with batch_of [OF this(1)] have "\<exists>k. k < length (pl_batches p) \<and> x \<in> ids_of_todos (pl_batches p ! k)" by auto
    then show ?thesis unfolding rank_def by (rule LeastI_ex)
  qed
  have "rank a < rank b" if e: "(a, b) \<in> ?E" for a b
  proof -
    have ab: "a \<in> ids_of_todos P" "b \<in> ids_of_todos P" "(b, a) \<in> wait_edges todos members" using e by (auto simp: E)
    have "b \<in> ids_of_todos members" "a \<in> ids_of_todos members" using ab(1,2) by (auto simp: P_def)
    then have "a \<in> set (member_waits todos members b)" using ab(3) by (simp add: member_waits_edges)
    moreover obtain u where "u \<in> set (pl_batches p ! rank b)" "td_id u = b" using rank [OF ab(2)] by auto
    ultimately obtain j where j: "j < rank b" "a \<in> ids_of_todos (pl_batches p ! j)"
      using ok rank [OF ab(2)] unfolding batch_ok_def by blast
    then have "rank a \<le> j" unfolding rank_def [of a] using rank [OF ab(2)] by (intro Least_le) auto
    with j(1) show ?thesis by simp
  qed
  then have acyc: "acyclic ?E"
    using acyclicI_order [of "?E\<inverse>" rank] by (auto simp: acyclic_converse)
  show ?thesis
  proof (cases "P = []")
    case True
    then have none: "l = []" if "l \<in> set (pl_batches p)" for l using sets that by auto
    have empty: "pl_batches p = []"
    proof (rule ccontr)
      assume "pl_batches p \<noteq> []"
      then have "pl_batches p ! 0 \<noteq> []" using ok [of 0] by (simp add: batch_ok_def)
      then show False using none \<open>pl_batches p \<noteq> []\<close> by (metis length_greater_0_conv nth_mem)
    qed
    moreover have "pl_critical p = []" using crit [folded P_def] unfolding True by (simp add: critical_path_def)
    ultimately show ?thesis by (auto dest: walk_not_Nil)
  next
    case False
    note longest = critical_path_longest [OF PM acyc False, folded crit [folded P_def]]
    have sub: "walk ((wait_edges todos members)\<inverse>) c" if "walk ?E c" for c
      using that by (induction "?E" c rule: walk.induct) (auto simp: E)
    have sup: "walk ?E c" if "walk ((wait_edges todos members)\<inverse>) c" "set c \<subseteq> ids_of_todos P" for c
      using that by (induction "(wait_edges todos members)\<inverse>" c rule: walk.induct) (auto simp: E)
    have "pl_critical p \<noteq> []" using longest(1) by auto
    moreover have "pl_batches p \<noteq> []" using False sets by auto
    ultimately show ?thesis
      using sub [OF longest(1)] longest(2) longest(3) [OF sup] unfolding sets [symmetric] by auto
  qed
qed

section \<open>Witnesses\<close>

lemma demo_chain_distinct: "distinct (map td_id demo_chain)"
  by (simp add: demo_chain_def demo_todo_def)

lemma cap_one: "Some (1 :: nat) \<noteq> Some 0"
  by simp

lemma demo_plan:
  "pl_batches (plan demo_chain (\<lambda>_. True) (Some 1)) =
     [[demo_todo ''c'' Pending None [''d'']], [demo_todo ''b'' Pending None [''c'']], [demo_todo ''a'' Pending None [''b'']]]"
  by code_simp

theorem plan_batches_sound_witness:
  "\<exists>j<1. demo_todo ''c'' Pending None [''d''] \<in> set (pl_batches (plan demo_chain (\<lambda>_. True) (Some 1)) ! j)"
proof -
  have "open_blockers demo_chain (demo_todo ''b'' Pending None [''c'']) = [demo_todo ''c'' Pending None [''d'']]"
    by code_simp
  with plan_batches_sound [OF demo_chain_distinct cap_one refl, of "\<lambda>_. True"] show ?thesis
    unfolding demo_plan by (auto simp: demo_todo_def kind_def less_Suc_eq)
qed

theorem plan_complete_witness:
  "demo_todo ''a'' Pending None [''b''] \<in> set (plan_members demo_chain (\<lambda>_. True))
    \<and> (''a'', ''a'') \<notin> (open_edges demo_chain (is_member (plan_members demo_chain (\<lambda>_. True))))\<^sup>+"
proof -
  let ?t = "demo_todo ''a'' Pending None [''b'']"
  have "?t \<in> set (concat (pl_batches (plan demo_chain (\<lambda>_. True) (Some 1))))" unfolding demo_plan by simp
  then have "?t \<in> set (plan_members demo_chain (\<lambda>_. True)) \<and>
      (td_id ?t, td_id ?t) \<notin> (open_edges demo_chain (is_member (plan_members demo_chain (\<lambda>_. True))))\<^sup>+"
    using plan_complete [OF demo_chain_distinct cap_one, of ?t "\<lambda>_. True"] by blast
  then show ?thesis by (simp add: demo_todo_def)
qed

theorem topo_total_witness:
  "set (topo (\<lambda>i. if i = ''c'' then [''b''] else if i = ''b'' then [''a''] else []) demo_chain) = set demo_chain"
proof -
  let ?dep = "\<lambda>i. if i = ''c'' then [''b''] else if i = ''b'' then [''a''] else []"
  have "dep_edges ?dep demo_chain \<subseteq> (stored_edges demo_chain)\<inverse>"
    by (auto simp: dep_edges_def demo_chain_edges split: if_splits)
  then have "acyclic (dep_edges ?dep demo_chain)"
    using demo_chain_acyclic by (meson acyclic_converse acyclic_subset)
  with topo_total [of demo_chain ?dep] demo_chain_distinct show ?thesis by (auto simp: topo_def)
qed

theorem critical_longest_witness:
  "length (pl_critical (plan demo_chain (\<lambda>_. True) (Some 1))) \<ge> 3"
proof -
  have waits: "map td_id (waits_of demo_chain (plan_members demo_chain (\<lambda>_. True)) ''a'') = [''b'']"
    "map td_id (waits_of demo_chain (plan_members demo_chain (\<lambda>_. True)) ''b'') = [''c'']"
    "map td_id (plan_members demo_chain (\<lambda>_. True)) = [''a'', ''b'', ''c'']"
    by code_simp+
  then have "walk ((wait_edges demo_chain (plan_members demo_chain (\<lambda>_. True)))\<inverse>) [''c'', ''b'', ''a'']"
    unfolding wait_edges_def set_map [symmetric] by (simp del: set_map)
  moreover have "set [''c'', ''b'', ''a''] \<subseteq> ids_of_todos (concat (pl_batches (plan demo_chain (\<lambda>_. True) (Some 1))))"
    unfolding demo_plan by (simp add: demo_todo_def)
  ultimately have "length [''c'', ''b'', ''a''] \<le> length (pl_critical (plan demo_chain (\<lambda>_. True) (Some 1)))"
    by (intro critical_longest [OF demo_chain_distinct cap_one, of "\<lambda>_. True", THEN conjunct2, THEN conjunct2,
          THEN conjunct2, rule_format] conjI)
  then show ?thesis by simp
qed

end
