(* ===== verification/Ticket_Sync.thy ===== *)
theory Ticket_Sync
  imports Todo_Store_Ids
begin

text \<open>
  The ticket sync: what changes it plans from a tracker's tickets (\<open>crates/devkit-todo/src/ticket.rs\<close>)
  and how they land in a store (\<open>src/bin/devkit/todo/tickets.rs\<close>).

  The tracker is a record of its answers; Unicode's lower case is the argument \<open>lower\<close>. A
  \<open>HashMap\<close> collected from a listing is the lookup of the last row under a key, a \<open>BTreeSet\<close> of keys a
  sorted list.
\<close>

section \<open>Tickets and the configuration\<close>

datatype CloseReason = ClosedCompleted | ClosedNotPlanned | ClosedDuplicate

datatype TicketStatus = Named string | Closed CloseReason

record SyncedTicket =
  st_key :: string
  st_title :: string
  st_status :: TicketStatus
  st_blocked_by :: "string list"
  st_parent :: "string option"

datatype MappedStatus = MPending | MInProgress | MCompleted | MCancelled

type_synonym StatusMap = "(string, MappedStatus) btree"

definition same_status :: "(string \<Rightarrow> string) \<Rightarrow> string \<Rightarrow> string \<Rightarrow> bool" where
  "same_status lower a b \<longleftrightarrow> lower (trim a) = lower (trim b)"

definition lookup_status :: "StatusMap \<Rightarrow> string \<Rightarrow> MappedStatus option" where
  "lookup_status statuses name =
     map_option snd (find (\<lambda>(mapped, _). eq_ascii_case (trim mapped) (trim name)) statuses)"

definition closed_names :: "StatusMap \<Rightarrow> string list" where
  "closed_names statuses = map fst (filter (\<lambda>(_, s). s = MCompleted \<or> s = MCancelled) statuses)"

definition in_closed_name :: "(string \<Rightarrow> string) \<Rightarrow> SyncedTicket \<Rightarrow> string list \<Rightarrow> bool" where
  "in_closed_name lower ticket names =
     (case st_status ticket of Named n \<Rightarrow> list_ex (\<lambda>c. same_status lower c n) names | Closed _ \<Rightarrow> True)"

section \<open>Texts and statuses\<close>

definition key_prefix :: "string \<Rightarrow> string \<Rightarrow> string" where
  "key_prefix trk key =
     (if trk = ''github'' then CHR ''#'' # last (split_on (CHR ''#'') key) else key)"

definition todo_text :: "string \<Rightarrow> string \<Rightarrow> string \<Rightarrow> string" where
  "todo_text trk key title = one_line (key_prefix trk key @ '' '' @ title)"

definition status_name :: "TicketStatus \<Rightarrow> string" where
  "status_name s =
     (case s of
        Named n \<Rightarrow> n
      | Closed ClosedCompleted \<Rightarrow> ''closed:completed''
      | Closed ClosedNotPlanned \<Rightarrow> ''closed:not_planned''
      | Closed ClosedDuplicate \<Rightarrow> ''closed:duplicate'')"

definition mapped_kind :: "MappedStatus \<Rightarrow> StatusKind" where
  "mapped_kind s = (case s of MPending \<Rightarrow> KPending | MInProgress \<Rightarrow> KInProgress | MCompleted \<Rightarrow> KCompleted
     | MCancelled \<Rightarrow> KCancelled)"

definition target_kind :: "TicketStatus \<Rightarrow> StatusMap \<Rightarrow> StatusKind option" where
  "target_kind s statuses =
     (case s of
        Named n \<Rightarrow> map_option mapped_kind (lookup_status statuses n)
      | Closed ClosedCompleted \<Rightarrow> Some KCompleted
      | Closed _ \<Rightarrow> Some KCancelled)"

definition synced_kind :: "string \<Rightarrow> StatusMap \<Rightarrow> StatusKind option" where
  "synced_kind name statuses =
     target_kind
       (if name = ''closed:completed'' then Closed ClosedCompleted
        else if name = ''closed:not_planned'' then Closed ClosedNotPlanned
        else if name = ''closed:duplicate'' then Closed ClosedDuplicate
        else Named name) statuses"

section \<open>The plan\<close>

datatype TicketChange =
    ToStatus StatusKind
  | Synced string
  | Describing string
  | Under "string option"
  | BlockOn "string list"
  | UnblockFrom "string list"

record PlannedEdit =
  pe_key :: string
  pe_change :: TicketChange

record SyncPlan =
  sp_adds :: "NewTodo list"
  sp_edits :: "PlannedEdit list"

definition plan_is_empty :: "SyncPlan \<Rightarrow> bool" where
  "plan_is_empty p \<longleftrightarrow> sp_adds p = [] \<and> sp_edits p = []"

datatype sync_fault =
    Unmapped string "string list"
  | Spelled "string list"
  | Unknown string "string list"

text \<open>\<open>validate\<close>: unmapped names and the tickets in them, names that spell one status, names no status has.\<close>

definition push_row :: "'k::linorder \<Rightarrow> 'v \<Rightarrow> ('k, 'v list) btree \<Rightarrow> ('k, 'v list) btree" where
  "push_row k v m = bt_insert k ((case bt_get m k of Some vs \<Rightarrow> vs | None \<Rightarrow> []) @ [v]) m"

definition unmapped_names :: "SyncedTicket list \<Rightarrow> StatusMap \<Rightarrow> (string, string list) btree" where
  "unmapped_names fetched statuses =
     fold (\<lambda>t m. case st_status t of
         Named n \<Rightarrow> if lookup_status statuses n = None then push_row (trim n) (st_key t) m else m
       | Closed _ \<Rightarrow> m) fetched []"

definition spellings :: "(string \<Rightarrow> string) \<Rightarrow> StatusMap \<Rightarrow> (string, string list) btree" where
  "spellings lower statuses = fold (\<lambda>n m. push_row (lower (trim n)) n m) (bt_keys statuses) []"

definition sync_faults :: "(string \<Rightarrow> string) \<Rightarrow> SyncedTicket list \<Rightarrow> string list \<Rightarrow> StatusMap \<Rightarrow> sync_fault list" where
  "sync_faults lower fetched known statuses =
     map (\<lambda>(n, keys). Unmapped n keys) (unmapped_names fetched statuses)
     @ map Spelled (filter (\<lambda>names. 1 < length names) (bt_values (spellings lower statuses)))
     @ map (\<lambda>n. Unknown n known) (filter (\<lambda>n. \<not> list_ex (\<lambda>k. same_status lower k n) known) (bt_keys statuses))"

definition validate :: "(string \<Rightarrow> string) \<Rightarrow> SyncedTicket list \<Rightarrow> string list \<Rightarrow> StatusMap \<Rightarrow> sync_fault list + unit" where
  "validate lower fetched known statuses =
     (let faults = sync_faults lower fetched known statuses in if faults = [] then Inr () else Inl faults)"

definition ticket_rows :: "string \<Rightarrow> Todo list \<Rightarrow> (string \<times> Todo) list" where
  "ticket_rows trk existing =
     List.map_filter (\<lambda>t. case td_ticket t of
         Some r \<Rightarrow> if tk_tracker r = trk then Some (tk_key r, t) else None
       | None \<Rightarrow> None) existing"

definition ticket_todo :: "string \<Rightarrow> Todo list \<Rightarrow> string \<Rightarrow> Todo option" where
  "ticket_todo trk existing = map_of (rev (ticket_rows trk existing))"

definition key_of_id :: "string \<Rightarrow> Todo list \<Rightarrow> string \<Rightarrow> string option" where
  "key_of_id trk existing i =
     map_option fst (find (\<lambda>(k, t). td_id t = i \<and> ticket_todo trk existing k = Some t) (rev (ticket_rows trk existing)))"

definition synced_keys :: "string \<Rightarrow> Todo list \<Rightarrow> SyncedTicket list \<Rightarrow> string list" where
  "synced_keys trk existing fetched = map fst (ticket_rows trk existing) @ map st_key fetched"

definition wanted_parent :: "string list \<Rightarrow> SyncedTicket \<Rightarrow> string option" where
  "wanted_parent synced t =
     (case st_parent t of Some p \<Rightarrow> if p \<in> set synced \<and> p \<noteq> st_key t then Some p else None | None \<Rightarrow> None)"

definition wanted_blockers :: "string list \<Rightarrow> SyncedTicket \<Rightarrow> string list" where
  "wanted_blockers synced t = filter (\<lambda>b. b \<in> set synced \<and> b \<noteq> st_key t) (st_blocked_by t)"

definition planned :: "SyncedTicket \<Rightarrow> TicketChange \<Rightarrow> PlannedEdit" where
  "planned t c = \<lparr>pe_key = st_key t, pe_change = c\<rparr>"

text \<open>A ticket without a todo: its add, its edits, its relations.\<close>

definition plan_new :: "string \<Rightarrow> string \<Rightarrow> string list \<Rightarrow> StatusKind \<Rightarrow> SyncedTicket \<Rightarrow>
    NewTodo list \<times> PlannedEdit list \<times> PlannedEdit list" where
  "plan_new trk node synced to t =
     ([\<lparr>nt_project = Some node, nt_description = todo_text trk (st_key t) (st_title t), nt_parent = None,
        nt_order = None,
        nt_ticket = Some \<lparr>tk_tracker = trk, tk_key = st_key t, tk_synced_status = Some (status_name (st_status t))\<rparr>\<rparr>],
      if to \<noteq> KPending then [planned t (ToStatus to)] else [],
      (case wanted_parent synced t of Some p \<Rightarrow> [planned t (Under (Some p))] | None \<Rightarrow> [])
      @ (let bs = wanted_blockers synced t in if bs \<noteq> [] then [planned t (BlockOn bs)] else []))"

definition moves_parent :: "string option option \<Rightarrow> string option \<Rightarrow> bool" where
  "moves_parent have_parent want =
     (case (have_parent, want) of
        (Some None, _) \<Rightarrow> False
      | (Some (Some h), Some w) \<Rightarrow> h \<noteq> w
      | (Some (Some _), None) \<Rightarrow> True
      | (None, w) \<Rightarrow> w \<noteq> None)"

definition key_diff :: "string list \<Rightarrow> string list \<Rightarrow> string list" where
  "key_diff xs ys = sort (remdups (filter (\<lambda>k. k \<notin> set ys) xs))"

text \<open>A ticket with a todo: what differs.\<close>

definition plan_known :: "string \<Rightarrow> (string \<Rightarrow> string option) \<Rightarrow> string list \<Rightarrow> StatusKind \<Rightarrow> SyncedTicket \<Rightarrow> Todo \<Rightarrow>
    NewTodo list \<times> PlannedEdit list \<times> PlannedEdit list" where
  "plan_known trk key_of synced to t todo =
     (let name = status_name (st_status t);
          body = todo_text trk (st_key t) (st_title t);
          want_parent = wanted_parent synced t;
          have_parent = map_option key_of (td_parent todo);
          have_blockers = List.map_filter key_of (td_blocked_by todo);
          want = wanted_blockers synced t;
          block = key_diff want have_blockers;
          unblock = key_diff have_blockers want
      in ([],
          (if td_description todo \<noteq> body then [planned t (Describing body)] else [])
          @ (if Option.bind (td_ticket todo) tk_synced_status \<noteq> Some name
             then [planned t (ToStatus to), planned t (Synced name)] else []),
          (if moves_parent have_parent want_parent then [planned t (Under want_parent)] else [])
          @ (if block \<noteq> [] then [planned t (BlockOn block)] else [])
          @ (if unblock \<noteq> [] then [planned t (UnblockFrom unblock)] else [])))"

datatype plan_fault = Faults "sync_fault list" | NotValidated

fun plan_tickets :: "string \<Rightarrow> string \<Rightarrow> Todo list \<Rightarrow> string list \<Rightarrow> StatusMap \<Rightarrow> SyncedTicket list \<Rightarrow>
    NewTodo list \<times> PlannedEdit list \<times> PlannedEdit list \<Rightarrow> plan_fault + NewTodo list \<times> PlannedEdit list \<times> PlannedEdit list" where
  "plan_tickets trk node existing synced statuses [] out = Inr out"
| "plan_tickets trk node existing synced statuses (t # ts) (adds, edits, relations) =
     (case target_kind (st_status t) statuses of
        None \<Rightarrow> Inl NotValidated
      | Some to \<Rightarrow>
          (case (case ticket_todo trk existing (st_key t) of
                   None \<Rightarrow> plan_new trk node synced to t
                 | Some todo \<Rightarrow> plan_known trk (key_of_id trk existing) synced to t todo) of
             (a, e, r) \<Rightarrow>
               plan_tickets trk node existing synced statuses ts (adds @ a, edits @ e, relations @ r)))"

definition sync_plan :: "(string \<Rightarrow> string) \<Rightarrow> string \<Rightarrow> string \<Rightarrow> Todo list \<Rightarrow> SyncedTicket list \<Rightarrow> string list \<Rightarrow>
    StatusMap \<Rightarrow> plan_fault + SyncPlan" where
  "sync_plan lower trk node existing fetched known statuses =
     (case validate lower fetched known statuses of
        Inl faults \<Rightarrow> Inl (Faults faults)
      | Inr _ \<Rightarrow>
          (case plan_tickets trk node existing (synced_keys trk existing fetched) statuses fetched ([], [], []) of
             Inl e \<Rightarrow> Inl e
           | Inr (adds, edits, relations) \<Rightarrow> Inr \<lparr>sp_adds = adds, sp_edits = edits @ relations\<rparr>))"

section \<open>Landing a plan in a store\<close>

text \<open>
  The store a sync writes to, over its own state and its own errors. A read may write too: the
  built-in store's does.
\<close>

record ('s, 'e) todo_ops =
  op_list :: "string \<Rightarrow> 's \<Rightarrow> ('e + Todo list) \<times> 's"
  op_get :: "string \<Rightarrow> 's \<Rightarrow> ('e + Todo option) \<times> 's"
  op_add :: "NewTodo \<Rightarrow> 's \<Rightarrow> ('e + string) \<times> 's"
  op_apply :: "Edit \<Rightarrow> 's \<Rightarrow> ('e + StatusChange list) \<times> 's"

datatype 'e sync_error =
    NoTicketTodo string
  | AddWithoutTicket
  | OfStore 'e
  | OfPlan plan_fault
  | OfTracker
  | NoTicket string

fun ids_of :: "(string \<rightharpoonup> string) \<Rightarrow> string list \<Rightarrow> 'e sync_error + string list" where
  "ids_of ids [] = Inr []"
| "ids_of ids (k # ks) =
     (case ids k of
        None \<Rightarrow> Inl (NoTicketTodo k)
      | Some i \<Rightarrow> (case ids_of ids ks of Inl e \<Rightarrow> Inl e | Inr is \<Rightarrow> Inr (i # is)))"

definition resolve_edit :: "(string \<rightharpoonup> string) \<Rightarrow> PlannedEdit \<Rightarrow> 'e sync_error + Edit" where
  "resolve_edit ids p =
     (case ids (pe_key p) of
        None \<Rightarrow> Inl (NoTicketTodo (pe_key p))
      | Some i \<Rightarrow>
          (case pe_change p of
             ToStatus to \<Rightarrow> Inr (SetStatus i to tracker)
           | Synced name \<Rightarrow> Inr (RecordSync i name)
           | Describing body \<Rightarrow> Inr (Describe i body)
           | Under None \<Rightarrow> Inr (Move i None None)
           | Under (Some p) \<Rightarrow> (case ids p of None \<Rightarrow> Inl (NoTicketTodo p) | Some j \<Rightarrow> Inr (Move i (Some j) None))
           | BlockOn keys \<Rightarrow> map_sum id (Block i) (ids_of ids keys)
           | UnblockFrom keys \<Rightarrow> map_sum id (Unblock i) (ids_of ids keys)))"

fun land_adds :: "('s, 'e) todo_ops \<Rightarrow> NewTodo list \<Rightarrow> (string \<rightharpoonup> string) \<Rightarrow> 's \<Rightarrow>
    ('e sync_error + (string \<rightharpoonup> string)) \<times> 's" where
  "land_adds ops [] ids s = (Inr ids, s)"
| "land_adds ops (a # as) ids s =
     (case nt_ticket a of
        None \<Rightarrow> (Inl AddWithoutTicket, s)
      | Some r \<Rightarrow>
          (case op_add ops a s of
             (Inl e, s') \<Rightarrow> (Inl (OfStore e), s')
           | (Inr i, s') \<Rightarrow> land_adds ops as (ids(tk_key r \<mapsto> i)) s'))"

definition moved_since :: "('s, 'e) todo_ops \<Rightarrow> Todo \<Rightarrow> TicketChange \<Rightarrow> 's \<Rightarrow> ('e sync_error + bool) \<times> 's" where
  "moved_since ops seen change s =
     (let ask = (\<lambda>field_moved. case op_get ops (td_id seen) s of
            (Inl e, s') \<Rightarrow> (Inl (OfStore e), s')
          | (Inr found, s') \<Rightarrow> (Inr (case found of None \<Rightarrow> True | Some now \<Rightarrow> field_moved now), s'))
      in case change of
           ToStatus _ \<Rightarrow> ask (\<lambda>now. td_status now \<noteq> td_status seen)
         | Describing _ \<Rightarrow> ask (\<lambda>now. td_description now \<noteq> td_description seen)
         | _ \<Rightarrow> (Inr False, s))"

fun land_edits :: "('s, 'e) todo_ops \<Rightarrow> (string \<rightharpoonup> Todo) \<Rightarrow> (string \<rightharpoonup> string) \<Rightarrow> PlannedEdit list \<Rightarrow> 's \<Rightarrow>
    ('e sync_error + unit) \<times> 's" where
  "land_edits ops planned_on ids [] s = (Inr (), s)"
| "land_edits ops planned_on ids (p # ps) s =
     (case resolve_edit ids p of
        Inl e \<Rightarrow> (Inl e, s)
      | Inr edit \<Rightarrow>
          (case (case planned_on (pe_key p) of
                   None \<Rightarrow> (Inr False, s)
                 | Some seen \<Rightarrow> moved_since ops seen (pe_change p) s) of
             (Inl e, s1) \<Rightarrow> (Inl e, s1)
           | (Inr True, s1) \<Rightarrow> land_edits ops planned_on ids ps s1
           | (Inr False, s1) \<Rightarrow>
               (case op_apply ops edit s1 of
                  (Inl e, s2) \<Rightarrow> (Inl (OfStore e), s2)
                | (Inr _, s2) \<Rightarrow> land_edits ops planned_on ids ps s2)))"

record SyncReport =
  sr_added :: nat
  sr_changed :: nat

definition sync_report :: "SyncPlan \<Rightarrow> SyncReport" where
  "sync_report plan =
     \<lparr>sr_added = length (sp_adds plan),
      sr_changed = length (filter (\<lambda>k. \<not> list_ex (\<lambda>a. case nt_ticket a of Some r \<Rightarrow> tk_key r = k | None \<Rightarrow> False) (sp_adds plan))
        (remdups_adj (sort (map pe_key (sp_edits plan)))))\<rparr>"

definition apply_sync :: "('s, 'e) todo_ops \<Rightarrow> SyncPlan \<Rightarrow> (string \<rightharpoonup> Todo) \<Rightarrow> 's \<Rightarrow> ('e sync_error + SyncReport) \<times> 's" where
  "apply_sync ops plan planned_on s =
     (case land_adds ops (sp_adds plan) (map_option td_id \<circ> planned_on) s of
        (Inl e, s1) \<Rightarrow> (Inl e, s1)
      | (Inr ids, s1) \<Rightarrow>
          (case land_edits ops planned_on ids (sp_edits plan) s1 of
             (Inl e, s2) \<Rightarrow> (Inl e, s2)
           | (Inr _, s2) \<Rightarrow> (Inr (sync_report plan), s2)))"

definition apply_plan :: "('s, 'e) todo_ops \<Rightarrow> string \<Rightarrow> Todo list \<Rightarrow> SyncPlan \<Rightarrow> 's \<Rightarrow> ('e sync_error + SyncReport) \<times> 's" where
  "apply_plan ops trk existing plan s = apply_sync ops plan (ticket_todo trk existing) s"

section \<open>One sync\<close>

text \<open>The tracker's answers during one sync; \<open>None\<close> is a query that failed.\<close>

record tracker_view =
  tr_kind :: string
  tr_find :: "string list \<Rightarrow> SyncedTicket list option"
  tr_tickets :: "string list \<Rightarrow> SyncedTicket list option"
  tr_status_names :: "string list option"
  tr_foreign :: "string \<Rightarrow> bool"
  tr_ticket_key :: "string \<Rightarrow> string option"

definition with_foreign_blockers :: "(string \<Rightarrow> string) \<Rightarrow> tracker_view \<Rightarrow> Todo list \<Rightarrow> string list \<Rightarrow> SyncedTicket list \<Rightarrow>
    SyncedTicket list option" where
  "with_foreign_blockers lower trk existing closed fetched =
     (let has_todo = (\<lambda>key. list_ex (\<lambda>t. case td_ticket t of
            Some r \<Rightarrow> tk_tracker r = tr_kind trk \<and> tk_key r = key | None \<Rightarrow> False) existing);
          wanted = remdups_adj (sort (filter (\<lambda>k. tr_foreign trk k \<and> \<not> list_ex (\<lambda>t. st_key t = k) fetched)
            (concat (map st_blocked_by fetched))))
      in if wanted = [] then Some fetched
         else case tr_tickets trk wanted of
                None \<Rightarrow> None
              | Some blockers \<Rightarrow>
                  Some (fetched @ filter (\<lambda>t. has_todo (st_key t) \<or> \<not> in_closed_name lower t closed) blockers))"

text \<open>What a sync returns: nothing (no rules), what a dry run prints, or what it did.\<close>

datatype sync_outcome = NoRules | DryRun SyncPlan | Done SyncReport

definition plan_sync :: "(string \<Rightarrow> string) \<Rightarrow> tracker_view \<Rightarrow> string \<Rightarrow> StatusMap \<Rightarrow> Todo list \<Rightarrow> SyncedTicket list \<Rightarrow>
    'e sync_error + SyncPlan" where
  "plan_sync lower trk node statuses existing fetched =
     (case with_foreign_blockers lower trk existing (closed_names statuses) fetched of
        None \<Rightarrow> Inl OfTracker
      | Some all \<Rightarrow>
          (case tr_status_names trk of
             None \<Rightarrow> Inl OfTracker
           | Some known \<Rightarrow> map_sum OfPlan id (sync_plan lower (tr_kind trk) node existing all known statuses)))"

definition still_open :: "string \<Rightarrow> Todo list \<Rightarrow> SyncedTicket list \<Rightarrow> string list" where
  "still_open trk existing fetched =
     filter (\<lambda>k. \<not> list_ex (\<lambda>t. st_key t = k) fetched)
       (map fst (ticket_rows trk (filter todo_open existing)))"

definition sync_tickets :: "(string \<Rightarrow> string) \<Rightarrow> ('s, 'e) todo_ops \<Rightarrow> bool \<Rightarrow> StatusMap \<Rightarrow> tracker_view \<Rightarrow> string \<Rightarrow> bool \<Rightarrow>
    's \<Rightarrow> ('e sync_error + sync_outcome) \<times> 's" where
  "sync_tickets lower ops has_rules statuses trk node dry_run s =
     (if \<not> has_rules then (Inr NoRules, s)
      else case op_list ops node s of
        (Inl e, s1) \<Rightarrow> (Inl (OfStore e), s1)
      | (Inr existing, s1) \<Rightarrow>
          (case tr_find trk (closed_names statuses) of
             None \<Rightarrow> (Inl OfTracker, s1)
           | Some found \<Rightarrow>
               (let keys = still_open (tr_kind trk) existing found in
                case (if keys = [] then Some found else map_option (\<lambda>ts. found @ ts) (tr_tickets trk keys)) of
                  None \<Rightarrow> (Inl OfTracker, s1)
                | Some fetched \<Rightarrow>
                    (case plan_sync lower trk node statuses existing fetched of
                       Inl e \<Rightarrow> (Inl e, s1)
                     | Inr plan \<Rightarrow>
                         if dry_run then (Inr (DryRun plan), s1)
                         else case apply_plan ops (tr_kind trk) existing plan s1 of (r, s2) \<Rightarrow> (map_sum id Done r, s2)))))"

definition sync_one :: "(string \<Rightarrow> string) \<Rightarrow> ('s, 'e) todo_ops \<Rightarrow> bool \<Rightarrow> StatusMap \<Rightarrow> tracker_view \<Rightarrow> string \<Rightarrow> string \<Rightarrow>
    's \<Rightarrow> ('e sync_error + Todo option) \<times> 's" where
  "sync_one lower ops has_rules statuses trk node spelled s =
     (if \<not> has_rules then (Inr None, s)
      else case tr_ticket_key trk spelled of
        None \<Rightarrow> (Inl OfTracker, s)
      | Some key \<Rightarrow>
          (case tr_tickets trk [key] of
             None \<Rightarrow> (Inl OfTracker, s)
           | Some read \<Rightarrow>
               (let fetched = filter (\<lambda>t. st_key t = key) read in
                if fetched = [] then (Inl (NoTicket key), s)
                else case op_list ops node s of
                  (Inl e, s1) \<Rightarrow> (Inl (OfStore e), s1)
                | (Inr existing, s1) \<Rightarrow>
                    (case plan_sync lower trk node statuses existing fetched of
                       Inl e \<Rightarrow> (Inl e, s1)
                     | Inr plan \<Rightarrow>
                         (case apply_plan ops (tr_kind trk) existing plan s1 of
                            (Inl e, s2) \<Rightarrow> (Inl e, s2)
                          | (Inr _, s2) \<Rightarrow>
                              (case op_list ops node s2 of
                                 (Inl e, s3) \<Rightarrow> (Inl (OfStore e), s3)
                               | (Inr todos, s3) \<Rightarrow>
                                   (Inr (find (\<lambda>t. case td_ticket t of
                                       Some r \<Rightarrow> tk_tracker r = tr_kind trk \<and> tk_key r = key | None \<Rightarrow> False) todos), s3)))))))"

end
