(* ===== verification/Ticket_Plan.thy ===== *)
theory Ticket_Plan
  imports Ticket_Sync
begin

text \<open>
  What a ticket sync may plan: nothing over a fault, a status only for a ticket that moved, a
  relation only between two tickets, and no edit at all on a node that mirrors its tickets.
\<close>

section \<open>Faults\<close>

lemma bt_get_Nil [simp]: "bt_get [] k = None"
  by (simp add: bt_get_def)

lemma push_row_get:
  "bt_get (push_row k v m) j =
     (if j = k then Some ((case bt_get m k of Some vs \<Rightarrow> vs | None \<Rightarrow> []) @ [v]) else bt_get m j)"
  by (simp add: push_row_def bt_insert_get)

lemma push_row_wf: "bt_wf m \<Longrightarrow> bt_wf (push_row k v m)"
  by (simp add: push_row_def bt_insert_wf)

lemma push_rows_wf: "bt_wf m \<Longrightarrow> bt_wf (fold (\<lambda>n m. push_row (f n) n m) ns m)"
  by (induction ns arbitrary: m) (simp_all add: push_row_wf)

lemma push_rows_get:
  "bt_get (fold (\<lambda>n m. push_row (f n) n m) ns m) k =
     (let found = filter (\<lambda>n. f n = k) ns in
      if found = [] then bt_get m k else Some ((case bt_get m k of Some vs \<Rightarrow> vs | None \<Rightarrow> []) @ found))"
  by (induction ns arbitrary: m) (auto simp: push_row_get Let_def)

lemma distinct_map_groups: "distinct (map f ns) \<longleftrightarrow> (\<forall>k. length (filter (\<lambda>n. f n = k) ns) \<le> 1)"
proof (induction ns)
  case (Cons n ns)
  have "f n \<notin> f ` set ns \<longleftrightarrow> filter (\<lambda>m. f m = f n) ns = []"
    unfolding filter_empty_conv image_iff by metis
  moreover have "(\<forall>k. length (filter (\<lambda>m. f m = k) (n # ns)) \<le> 1)
      \<longleftrightarrow> filter (\<lambda>m. f m = f n) ns = [] \<and> (\<forall>k. length (filter (\<lambda>m. f m = k) ns) \<le> 1)"
    (is "?all \<longleftrightarrow> ?none \<and> ?rest")
  proof
    assume all: ?all
    from all [rule_format, of "f n"] have ?none by simp
    moreover have "length (filter (\<lambda>m. f m = k) ns) \<le> 1" for k
      using all [rule_format, of k] by (simp split: if_splits)
    ultimately show "?none \<and> ?rest" by blast
  next
    assume a: "?none \<and> ?rest"
    then show ?all by auto
  qed
  ultimately show ?case using Cons.IH by auto
qed simp

lemma spellings_clash:
  "filter (\<lambda>names. 1 < length names) (bt_values (spellings lower statuses)) = []
     \<longleftrightarrow> distinct (map (\<lambda>n. lower (trim n)) (bt_keys statuses))"
proof -
  let ?m = "spellings lower statuses" and ?f = "\<lambda>n. lower (trim n)"
  have wf: "bt_wf ?m" by (simp add: spellings_def push_rows_wf)
  have get: "bt_get ?m k = (let found = filter (\<lambda>n. ?f n = k) (bt_keys statuses) in
      if found = [] then None else Some found)" for k
    by (simp add: spellings_def push_rows_get Let_def)
  have vals: "v \<in> set (bt_values ?m) \<longleftrightarrow> (\<exists>k. bt_get ?m k = Some v)" for v
    using bt_get_Some [OF wf] by force
  have "(\<exists>v\<in>set (bt_values ?m). 1 < length v) \<longleftrightarrow> (\<exists>k. 1 < length (filter (\<lambda>n. ?f n = k) (bt_keys statuses)))"
    unfolding Bex_def vals get Let_def by (metis (no_types, lifting) list.size(3) not_one_less_zero option.inject option.discI)
  then have "(\<forall>v\<in>set (bt_values ?m). \<not> 1 < length v) \<longleftrightarrow> (\<forall>k. \<not> 1 < length (filter (\<lambda>n. ?f n = k) (bt_keys statuses)))"
    by blast
  then show ?thesis
    unfolding distinct_map_groups filter_eq_Nil_iff not_less .
qed

lemma unmapped_none:
  "unmapped_names fetched statuses = []
     \<longleftrightarrow> (\<forall>t\<in>set fetched. \<forall>n. st_status t = Named n \<longrightarrow> lookup_status statuses n \<noteq> None)"
proof -
  have push: "push_row k v m \<noteq> []" for k v and m :: "(string, string list) btree"
    by (cases m) (auto simp: push_row_def)
  let ?g = "\<lambda>t m. case st_status t of
         Named n \<Rightarrow> if lookup_status statuses n = None then push_row (trim n) (st_key t) m else m
       | Closed _ \<Rightarrow> m"
  have "fold ?g fetched m = [] \<longleftrightarrow> m = []
      \<and> (\<forall>t\<in>set fetched. \<forall>n. st_status t = Named n \<longrightarrow> lookup_status statuses n \<noteq> None)" for m
  proof (induction fetched arbitrary: m)
    case (Cons t ts)
    then show ?case by (cases "st_status t") (auto simp: push)
  qed simp
  then show ?thesis by (simp add: unmapped_names_def)
qed

lemma faults_none:
  "sync_faults lower fetched known statuses = [] \<longleftrightarrow>
     (\<forall>t\<in>set fetched. \<forall>n. st_status t = Named n \<longrightarrow> lookup_status statuses n \<noteq> None)
     \<and> distinct (map (\<lambda>n. lower (trim n)) (bt_keys statuses))
     \<and> (\<forall>n\<in>set (bt_keys statuses). \<exists>k\<in>set known. same_status lower k n)"
  unfolding sync_faults_def append_is_Nil_conv map_is_Nil_conv unmapped_none spellings_clash
  by (simp add: filter_eq_Nil_iff list_ex_iff)

lemma target_mapped:
  assumes "sync_faults lower fetched known statuses = []" and "t \<in> set fetched"
  shows "target_kind (st_status t) statuses \<noteq> None"
  using assms unfolding faults_none
  by (auto simp: target_kind_def split: TicketStatus.split CloseReason.split)

section \<open>What is planned\<close>

text \<open>The plan of one ticket, and the plan of all: each ticket's parts in order.\<close>

definition plan_one :: "string \<Rightarrow> string \<Rightarrow> Todo list \<Rightarrow> string list \<Rightarrow> StatusMap \<Rightarrow> SyncedTicket \<Rightarrow>
    NewTodo list \<times> PlannedEdit list \<times> PlannedEdit list" where
  "plan_one trk node existing synced statuses t =
     (case ticket_todo trk existing (st_key t) of
        None \<Rightarrow> plan_new trk node synced (the (target_kind (st_status t) statuses)) t
      | Some todo \<Rightarrow> plan_known trk (key_of_id trk existing) synced (the (target_kind (st_status t) statuses)) t todo)"

lemma plan_tickets_parts:
  "\<forall>t\<in>set ts. target_kind (st_status t) statuses \<noteq> None \<Longrightarrow>
   plan_tickets trk node existing synced statuses ts (a, e, r) =
     Inr (a @ concat (map (fst \<circ> plan_one trk node existing synced statuses) ts),
          e @ concat (map (fst \<circ> snd \<circ> plan_one trk node existing synced statuses) ts),
          r @ concat (map (snd \<circ> snd \<circ> plan_one trk node existing synced statuses) ts))"
proof (induction ts arbitrary: a e r)
  case (Cons t ts)
  then obtain to where to: "target_kind (st_status t) statuses = Some to" by auto
  obtain a1 e1 r1 where one: "plan_one trk node existing synced statuses t = (a1, e1, r1)" by (metis prod_cases3)
  then have "(case ticket_todo trk existing (st_key t) of
      None \<Rightarrow> plan_new trk node synced to t
    | Some todo \<Rightarrow> plan_known trk (key_of_id trk existing) synced to t todo) = (a1, e1, r1)"
    unfolding plan_one_def to option.sel .
  with Cons.IH [of "a @ a1" "e @ e1" "r @ r1"] Cons.prems show ?case by (simp add: to one)
qed simp

lemma sync_plan_cases:
  "sync_plan lower trk node existing fetched known statuses =
     (if sync_faults lower fetched known statuses \<noteq> [] then Inl (Faults (sync_faults lower fetched known statuses))
      else let one = plan_one trk node existing (synced_keys trk existing fetched) statuses in
        Inr \<lparr>sp_adds = concat (map (fst \<circ> one) fetched),
             sp_edits = concat (map (fst \<circ> snd \<circ> one) fetched) @ concat (map (snd \<circ> snd \<circ> one) fetched)\<rparr>)"
proof (cases "sync_faults lower fetched known statuses = []")
  case True
  have "\<forall>t\<in>set fetched. target_kind (st_status t) statuses \<noteq> None"
    using target_mapped [OF True] by blast
  from plan_tickets_parts [OF this, of trk node existing "synced_keys trk existing fetched" "[]" "[]" "[]"] True
  show ?thesis by (simp add: sync_plan_def validate_def Let_def)
qed (simp add: sync_plan_def validate_def Let_def)

text \<open>
  C34: a sync plans exactly when every fetched status is mapped, no two names of the map spell one status, and
  every name is one the tracker has; over any fault it plans nothing and names the faults, and no
  status is left unmapped behind the check.
\<close>

theorem plan_refused_exactly:
  "((\<exists>p. sync_plan lower trk node existing fetched known statuses = Inr p) \<longleftrightarrow>
     (\<forall>t\<in>set fetched. \<forall>n. st_status t = Named n \<longrightarrow> lookup_status statuses n \<noteq> None)
     \<and> distinct (map (\<lambda>n. lower (trim n)) (bt_keys statuses))
     \<and> (\<forall>n\<in>set (bt_keys statuses). \<exists>k\<in>set known. same_status lower k n))
   \<and> sync_plan lower trk node existing fetched known statuses \<noteq> Inl NotValidated"
  unfolding faults_none [symmetric, of _ _ lower known] by (simp add: sync_plan_cases Let_def)

lemma plan_edits_from:
  assumes "sync_plan lower trk node existing fetched known statuses = Inr p" and "e \<in> set (sp_edits p)"
  obtains t where "t \<in> set fetched" and "pe_key e = st_key t"
    and "e \<in> set (fst (snd (plan_one trk node existing (synced_keys trk existing fetched) statuses t)))
       \<or> e \<in> set (snd (snd (plan_one trk node existing (synced_keys trk existing fetched) statuses t)))"
proof -
  let ?one = "plan_one trk node existing (synced_keys trk existing fetched) statuses"
  have "e \<in> set (concat (map (fst \<circ> snd \<circ> ?one) fetched) @ concat (map (snd \<circ> snd \<circ> ?one) fetched))"
    using assms by (simp add: sync_plan_cases Let_def split: if_splits) auto
  then obtain t where t: "t \<in> set fetched" "e \<in> set (fst (snd (?one t))) \<or> e \<in> set (snd (snd (?one t)))" by auto
  moreover have "pe_key e = st_key t"
    using t(2) by (auto simp: plan_one_def plan_new_def plan_known_def planned_def Let_def split: option.splits if_splits)
  ultimately show ?thesis by (intro that)
qed

text \<open>
  C33: a sync edits a todo's status only when its ticket's status is not the one the last sync recorded (or
  when the ticket has no todo yet), always to the status the map gives, so a start made locally
  survives a ticket that stands still.
\<close>

theorem status_only_when_moved:
  assumes "sync_plan lower trk node existing fetched known statuses = Inr p"
    and "e \<in> set (sp_edits p)" and "pe_change e = ToStatus k"
  shows "\<exists>t\<in>set fetched. pe_key e = st_key t \<and> target_kind (st_status t) statuses = Some k
    \<and> (case ticket_todo trk existing (st_key t) of
         None \<Rightarrow> k \<noteq> KPending
       | Some todo \<Rightarrow> Option.bind (td_ticket todo) tk_synced_status \<noteq> Some (status_name (st_status t)))"
proof -
  from plan_edits_from [OF assms(1,2)] obtain t where t: "t \<in> set fetched" "pe_key e = st_key t"
    and one: "e \<in> set (fst (snd (plan_one trk node existing (synced_keys trk existing fetched) statuses t)))
       \<or> e \<in> set (snd (snd (plan_one trk node existing (synced_keys trk existing fetched) statuses t)))" by blast
  have "sync_faults lower fetched known statuses = []"
    using assms(1) by (simp add: sync_plan_cases split: if_splits)
  then obtain to where to: "target_kind (st_status t) statuses = Some to"
    using target_mapped t(1) by blast
  have "k = to \<and> (case ticket_todo trk existing (st_key t) of
         None \<Rightarrow> k \<noteq> KPending
       | Some todo \<Rightarrow> Option.bind (td_ticket todo) tk_synced_status \<noteq> Some (status_name (st_status t)))"
    using one assms(3)
    by (auto simp: plan_one_def to plan_new_def plan_known_def planned_def Let_def split: option.splits if_splits)
  with t to show ?thesis by blast
qed

definition names_ticket :: "string \<Rightarrow> Todo list \<Rightarrow> string \<Rightarrow> bool" where
  "names_ticket trk existing i \<longleftrightarrow> key_of_id trk existing i \<noteq> None"

text \<open>
  A sync moves and links only todos of tickets it knows: it nests a todo under a synced ticket's todo, and takes
  away a parent or a blocker only where that too is a ticket's todo, so a relation a person made
  between a ticket's todo and another stays.
\<close>

theorem relations_between_tickets:
  assumes "sync_plan lower trk node existing fetched known statuses = Inr p" and "e \<in> set (sp_edits p)"
  shows "case pe_change e of
      Under parent \<Rightarrow>
        (case parent of Some k \<Rightarrow> k \<in> set (synced_keys trk existing fetched) \<and> k \<noteq> pe_key e | None \<Rightarrow> True)
        \<and> (case ticket_todo trk existing (pe_key e) of
             Some todo \<Rightarrow> (case td_parent todo of Some i \<Rightarrow> names_ticket trk existing i | None \<Rightarrow> True)
           | None \<Rightarrow> True)
    | BlockOn keys \<Rightarrow> set keys \<subseteq> set (synced_keys trk existing fetched) - {pe_key e}
    | UnblockFrom keys \<Rightarrow> (\<exists>todo. ticket_todo trk existing (pe_key e) = Some todo
        \<and> set keys \<subseteq> {k. \<exists>i\<in>set (td_blocked_by todo). key_of_id trk existing i = Some k})
    | _ \<Rightarrow> True"
proof -
  from plan_edits_from [OF assms] obtain t where t: "t \<in> set fetched" "pe_key e = st_key t"
    and one: "e \<in> set (fst (snd (plan_one trk node existing (synced_keys trk existing fetched) statuses t)))
       \<or> e \<in> set (snd (snd (plan_one trk node existing (synced_keys trk existing fetched) statuses t)))" by blast
  show ?thesis
  proof (cases "ticket_todo trk existing (st_key t)")
    case None
    with one t(2) show ?thesis
      by (auto simp: plan_one_def plan_new_def planned_def wanted_parent_def wanted_blockers_def Let_def
          split: option.splits if_splits)
  next
    case (Some todo)
    with one t(2) show ?thesis
      by (auto simp: plan_one_def plan_known_def planned_def wanted_parent_def wanted_blockers_def key_diff_def Let_def
          names_ticket_def moves_parent_def in_map_filter split: option.splits if_splits)
  qed
qed

definition mirrors :: "string \<Rightarrow> Todo list \<Rightarrow> string list \<Rightarrow> SyncedTicket \<Rightarrow> bool" where
  "mirrors trk existing synced t \<longleftrightarrow>
     (case ticket_todo trk existing (st_key t) of
        None \<Rightarrow> False
      | Some todo \<Rightarrow>
          td_description todo = todo_text trk (st_key t) (st_title t)
          \<and> Option.bind (td_ticket todo) tk_synced_status = Some (status_name (st_status t))
          \<and> (case td_parent todo of
               None \<Rightarrow> wanted_parent synced t = None
             | Some i \<Rightarrow> (case key_of_id trk existing i of None \<Rightarrow> True | Some k \<Rightarrow> wanted_parent synced t = Some k))
          \<and> set (List.map_filter (key_of_id trk existing) (td_blocked_by todo)) = set (wanted_blockers synced t))"

lemma key_diff_Nil: "key_diff xs ys = [] \<longleftrightarrow> set xs \<subseteq> set ys"
proof -
  have "key_diff xs ys = [] \<longleftrightarrow> set (key_diff xs ys) = {}" by simp
  also have "\<dots> \<longleftrightarrow> set xs \<subseteq> set ys" by (auto simp: key_diff_def)
  finally show ?thesis .
qed

lemma plan_one_mirrors:
  "plan_one trk node existing synced statuses t = ([], [], []) \<longleftrightarrow> mirrors trk existing synced t"
proof (cases "ticket_todo trk existing (st_key t)")
  case None
  then show ?thesis by (simp add: plan_one_def mirrors_def plan_new_def)
next
  case (Some todo)
  have par: "\<not> moves_parent (map_option (key_of_id trk existing) (td_parent todo)) (wanted_parent synced t) \<longleftrightarrow>
      (case td_parent todo of
         None \<Rightarrow> wanted_parent synced t = None
       | Some i \<Rightarrow> (case key_of_id trk existing i of None \<Rightarrow> True | Some k \<Rightarrow> wanted_parent synced t = Some k))"
    by (auto simp: moves_parent_def split: option.splits)
  show ?thesis
    unfolding mirrors_def Some option.case par [symmetric]
    by (auto simp: plan_one_def Some plan_known_def Let_def key_diff_Nil)
qed

text \<open>
  Over a node that mirrors its tickets a sync plans nothing, and only over such a node: every ticket has a
  todo with its text and its recorded status, nested where the ticket is and blocked by what
  blocks it, counting only parents and blockers that are tickets.
\<close>

lemma plan_empty_iff_mirrored:
  assumes "sync_plan lower trk node existing fetched known statuses = Inr p"
  shows "plan_is_empty p \<longleftrightarrow> (\<forall>t\<in>set fetched. mirrors trk existing (synced_keys trk existing fetched) t)"
proof -
  let ?one = "plan_one trk node existing (synced_keys trk existing fetched) statuses"
  have p: "p = \<lparr>sp_adds = concat (map (fst \<circ> ?one) fetched),
      sp_edits = concat (map (fst \<circ> snd \<circ> ?one) fetched) @ concat (map (snd \<circ> snd \<circ> ?one) fetched)\<rparr>"
    using assms by (simp add: sync_plan_cases Let_def split: if_splits)
  have "plan_is_empty p \<longleftrightarrow> (\<forall>t\<in>set fetched. ?one t = ([], [], []))"
    unfolding p plan_is_empty_def by (auto simp: prod_eq_iff)
  then show ?thesis by (simp add: plan_one_mirrors)
qed

lemma mirrored_plans_nothing:
  assumes "sync_plan lower trk node xs fetched known statuses = Inr p"
    and "\<forall>t\<in>set fetched. mirrors trk ys (synced_keys trk ys fetched) t"
  shows "\<exists>q. sync_plan lower trk node ys fetched known statuses = Inr q \<and> plan_is_empty q"
proof -
  have "sync_faults lower fetched known statuses = []" using assms(1) by (simp add: sync_plan_cases split: if_splits)
  then obtain q where q: "sync_plan lower trk node ys fetched known statuses = Inr q" by (simp add: sync_plan_cases Let_def)
  with plan_empty_iff_mirrored [OF q] assms(2) show ?thesis by blast
qed

end
