(* ===== verification/Ticket_Land.thy ===== *)
theory Ticket_Land
  imports Ticket_Plan
begin

text \<open>
  Landing a sync's plan in a store: the interface a store gives (\<open>todo_rows\<close>), what a landing does to
  each ticket's todo, and its two promises: a change made while the tracker answered wins, and a sync
  repeated on the same tickets has nothing left to do.
\<close>

section \<open>What the sync relies on of a store\<close>

text \<open>The edits a sync makes, and what each does to the todo it names.\<close>

fun sync_edit :: "Edit \<Rightarrow> bool" where
  "sync_edit (SetStatus _ _ _) = True"
| "sync_edit (Describe _ _) = True"
| "sync_edit (Move _ _ order) = (order = None)"
| "sync_edit (Block _ _) = True"
| "sync_edit (Unblock _ _) = True"
| "sync_edit (RecordSync _ _) = True"
| "sync_edit _ = False"

definition edited :: "Edit \<Rightarrow> Todo \<Rightarrow> Todo \<Rightarrow> bool" where
  "edited e t t' \<longleftrightarrow> td_id t' = td_id t \<and> td_project t' = td_project t
     \<and> td_description t' = (case e of Describe _ body \<Rightarrow> one_line body | _ \<Rightarrow> td_description t)
     \<and> (case e of SetStatus _ _ _ \<Rightarrow> True | _ \<Rightarrow> td_status t' = td_status t)
     \<and> td_parent t' = (case e of Move _ p _ \<Rightarrow> p | _ \<Rightarrow> td_parent t)
     \<and> set (td_blocked_by t') = (case e of Block _ by \<Rightarrow> set (td_blocked_by t) \<union> set by
          | Unblock _ by \<Rightarrow> set (td_blocked_by t) - set by | _ \<Rightarrow> set (td_blocked_by t))
     \<and> td_ticket t' = (case e of RecordSync _ n \<Rightarrow> map_option (\<lambda>r. r\<lparr>tk_synced_status := Some n\<rparr>) (td_ticket t)
          | _ \<Rightarrow> td_ticket t)"

definition created :: "NewTodo \<Rightarrow> string \<Rightarrow> Todo \<Rightarrow> bool" where
  "created a i t \<longleftrightarrow> td_id t = i \<and> td_description t = one_line (nt_description a) \<and> td_project t = nt_project a
     \<and> td_parent t = nt_parent a \<and> td_blocked_by t = [] \<and> td_ticket t = nt_ticket a"

definition holds_ticket :: "TicketRef option \<Rightarrow> Todo \<Rightarrow> bool" where
  "holds_ticket tk t \<longleftrightarrow> (case (tk, td_ticket t) of (Some a, Some b) \<Rightarrow> same_ticket b a | _ \<Rightarrow> False)"

definition new_key :: "NewTodo \<Rightarrow> string" where
  "new_key a = (case nt_ticket a of Some r \<Rightarrow> tk_key r | None \<Rightarrow> [])"

definition kin :: "Todo \<Rightarrow> Todo \<Rightarrow> bool" where
  "kin t t' \<longleftrightarrow> td_id t' = td_id t \<and> td_project t' = td_project t \<and> ticket_kept t t'"

lemma kin_refl [simp]: "kin t t"
  by (simp add: kin_def ticket_kept_def same_ticket_def split: option.split)

lemma kin_trans: "kin t u \<Longrightarrow> kin u v \<Longrightarrow> kin t v"
  by (auto simp: kin_def ticket_kept_def same_ticket_def split: option.splits)

lemma edited_kin: "edited e t t' \<Longrightarrow> kin t t'"
  by (cases e) (auto simp: edited_def kin_def ticket_kept_def same_ticket_def split: option.splits)

text \<open>
  A store as the sync sees it: the todo under an id, however the id is spelled (\<open>norm\<close> is the
  spelling the store gives out), and room for \<open>n\<close> more todos.
\<close>

locale todo_rows =
  fixes ops :: "('s, 'e) todo_ops"
    and row :: "'s \<Rightarrow> string \<Rightarrow> Todo option"
    and norm :: "string \<Rightarrow> string"
    and good :: "nat \<Rightarrow> 's \<Rightarrow> bool"
  assumes row_id: "good n s \<Longrightarrow> row s i = Some t \<Longrightarrow> td_id t = norm i"
    and row_norm: "row s (norm i) = row s i"
    and norm_norm: "norm (norm i) = norm i"
    and one_todo: "good n s \<Longrightarrow> row s i = Some t \<Longrightarrow> row s j = Some u \<Longrightarrow> holds_ticket (td_ticket t) u \<Longrightarrow> norm i = norm j"
    and listing: "good n s \<Longrightarrow> op_list ops node s = (rl, s') \<Longrightarrow>
      good n s' \<and> row s' = row s \<and> (\<forall>xs. rl = Inr xs \<longrightarrow>
        distinct (map td_id xs) \<and> (\<forall>t. t \<in> set xs \<longleftrightarrow> row s (td_id t) = Some t \<and> node_of t = node))"
    and getting: "good n s \<Longrightarrow> op_get ops i s = (rg, s') \<Longrightarrow>
      good n s' \<and> row s' = row s \<and> (\<forall>x. rg = Inr x \<longrightarrow> x = row s i)"
    and adding: "good (Suc n) s \<Longrightarrow> nt_order a = None \<Longrightarrow> op_add ops a s = (ra, s') \<Longrightarrow>
      good n s' \<and> (\<forall>i. ra = Inr i \<longrightarrow>
        (\<exists>t. row s i = Some t \<and> row s' = row s \<and> holds_ticket (nt_ticket a) t)
        \<or> (\<exists>t. norm i = i \<and> row s i = None \<and> (\<forall>j u. row s j = Some u \<longrightarrow> \<not> holds_ticket (nt_ticket a) u)
             \<and> created a i t \<and> row s' = (\<lambda>j. if norm j = i then Some t else row s j)))"
    and applying: "good n s \<Longrightarrow> sync_edit e \<Longrightarrow> edits_todo e = Some i \<Longrightarrow> op_apply ops e s = (rp, s') \<Longrightarrow>
      good n s' \<and> (\<forall>ch. rp = Inr ch \<longrightarrow>
        (\<exists>t t'. row s i = Some t \<and> edited e t t' \<and> row s' = (\<lambda>j. if norm j = norm i then Some t' else row s j)))
      \<and> (\<forall>x. rp = Inl x \<longrightarrow> row s' = row s)"
begin

lemma row_norm_cong: "norm i = norm j \<Longrightarrow> row s i = row s j"
  by (metis row_norm)

end

lemma resolved_edit: "resolve_edit ids p = Inr e \<Longrightarrow> \<exists>i. ids (pe_key p) = Some i \<and> sync_edit e \<and> edits_todo e = Some i"
  by (auto simp: resolve_edit_def map_sum_Inr split: option.splits TicketChange.splits)

lemma ids_of_Inr: "(ids_of ids ks :: 'a sync_error + string list) = Inr is \<longleftrightarrow> map ids ks = map Some is"
proof (induction ks arbitrary: "is")
  case (Cons k ks)
  show ?case
  proof (cases "ids_of ids ks :: 'a sync_error + string list")
    case (Inl x)
    then have "map ids ks \<noteq> map Some js" for js using Cons.IH [of js] by (metis sum.distinct(1))
    with Inl show ?thesis by (cases "is") (auto split: option.splits)
  next
    case (Inr js)
    with Cons.IH have "map ids ks = map Some js" by auto
    with Inr show ?thesis by (cases "is") (auto split: option.splits simp: inj_map_eq_map)
  qed
qed auto

lemma resolve_poly:
  "((resolve_edit ids p :: 'a sync_error + Edit) = Inr e) = ((resolve_edit ids p :: 'b sync_error + Edit) = Inr e)"
  by (auto simp: resolve_edit_def map_sum_Inr ids_of_Inr split: option.splits TicketChange.splits)

text \<open>One ticket's edits in order, each landed or, when its field moved meanwhile, skipped.\<close>

definition field_moved :: "TicketChange \<Rightarrow> Todo \<Rightarrow> Todo \<Rightarrow> bool" where
  "field_moved c seen now = (case c of ToStatus _ \<Rightarrow> td_status now \<noteq> td_status seen
     | Describing _ \<Rightarrow> td_description now \<noteq> td_description seen | _ \<Rightarrow> False)"

fun landed :: "Todo option \<Rightarrow> (string \<rightharpoonup> string) \<Rightarrow> PlannedEdit list \<Rightarrow> Todo \<Rightarrow> Todo \<Rightarrow> bool" where
  "landed seen ids [] t t' = (t' = t)"
| "landed seen ids (p # ps) t t' =
     (if (case seen of Some u \<Rightarrow> field_moved (pe_change p) u t | None \<Rightarrow> False) then landed seen ids ps t t'
      else (\<exists>e u. (resolve_edit ids p :: unit sync_error + Edit) = Inr e \<and> edited e t u \<and> landed seen ids ps u t'))"

context todo_rows
begin

lemma moved_since_row:
  assumes "moved_since ops seen c s = (r, s')" and "good n s"
  shows "good n s' \<and> row s' = row s \<and> (\<forall>b t. r = Inr b \<longrightarrow> row s (td_id seen) = Some t \<longrightarrow> b = field_moved c seen t)"
  using assms getting [OF assms(2), of "td_id seen"]
  by (auto simp: moved_since_def field_moved_def Let_def split: TicketChange.splits prod.splits sum.splits option.splits)

lemma land_step:
  assumes l: "land_edits ops planned_on ids (p # ps) s = (Inr (), s')" and g: "good n s"
  obtains e i s1 where "(resolve_edit ids p :: unit sync_error + Edit) = Inr e" and "ids (pe_key p) = Some i"
    and "good n s1" and "land_edits ops planned_on ids ps s1 = (Inr (), s')"
    and "(row s1 = row s \<and> (\<exists>seen. planned_on (pe_key p) = Some seen
            \<and> (\<forall>t. row s (td_id seen) = Some t \<longrightarrow> field_moved (pe_change p) seen t)))
      \<or> (\<forall>seen t. planned_on (pe_key p) = Some seen \<longrightarrow> row s (td_id seen) = Some t \<longrightarrow> \<not> field_moved (pe_change p) seen t)
        \<and> (\<exists>t t'. row s i = Some t \<and> edited e t t' \<and> row s1 = (\<lambda>j. if norm j = norm i then Some t' else row s j))"
proof -
  from l obtain e where e: "(resolve_edit ids p :: 'e sync_error + Edit) = Inr e" by (auto split: sum.splits)
  from resolved_edit [OF e] obtain i where i: "ids (pe_key p) = Some i" "sync_edit e" "edits_todo e = Some i" by blast
  define q where "q = (case planned_on (pe_key p) of None \<Rightarrow> (Inr False :: 'e sync_error + bool, s)
      | Some seen \<Rightarrow> moved_since ops seen (pe_change p) s)"
  obtain b s1 where q: "q = (Inr b, s1)" using l e by (auto simp: q_def [symmetric] split: sum.splits prod.splits)
  have g1: "good n s1" and r1: "row s1 = row s"
    using q moved_since_row [OF _ g] g by (auto simp: q_def split: option.splits)
  have b: "\<forall>seen t. planned_on (pe_key p) = Some seen \<longrightarrow> row s (td_id seen) = Some t \<longrightarrow> b = field_moved (pe_change p) seen t"
    using q moved_since_row [OF _ g] by (auto simp: q_def)
  note poly = e [THEN resolve_poly [THEN iffD1, where 'b1 = unit]]
  show ?thesis
  proof (cases b)
    case True
    then have "\<exists>seen. planned_on (pe_key p) = Some seen" using q by (auto simp: q_def split: option.splits)
    moreover have "land_edits ops planned_on ids ps s1 = (Inr (), s')" using l e q True by (simp add: q_def [symmetric])
    ultimately show ?thesis using b True r1 by (intro that [OF poly i(1) g1]) auto
  next
    case False
    then obtain ch s2 where a: "op_apply ops e s1 = (Inr ch, s2)" "land_edits ops planned_on ids ps s2 = (Inr (), s')"
      using l e q by (auto simp: q_def [symmetric] split: sum.splits prod.splits)
    from applying [OF g1 i(2,3) a(1)] obtain t t' where "good n s2" "row s i = Some t" "edited e t t'"
      "row s2 = (\<lambda>j. if norm j = norm i then Some t' else row s j)" unfolding r1 by blast
    with a(2) b False show ?thesis by (intro that [OF poly i(1), of s2]) auto
  qed
qed

text \<open>Whatever lands, every todo stays, under its id, on its node, with its ticket.\<close>

lemma land_edits_kin:
  "land_edits ops planned_on ids ps s = (Inr (), s') \<Longrightarrow> good n s \<Longrightarrow>
     good n s' \<and> (\<forall>j. rel_option kin (row s j) (row s' j))"
proof (induction ps arbitrary: s)
  case Nil
  then show ?case by (auto simp: option.rel_refl)
next
  case (Cons p ps)
  obtain e i s1 where g1: "good n s1" and rest: "land_edits ops planned_on ids ps s1 = (Inr (), s')"
    and full: "(row s1 = row s \<and> (\<exists>seen. planned_on (pe_key p) = Some seen
            \<and> (\<forall>t. row s (td_id seen) = Some t \<longrightarrow> field_moved (pe_change p) seen t)))
      \<or> (\<forall>seen t. planned_on (pe_key p) = Some seen \<longrightarrow> row s (td_id seen) = Some t \<longrightarrow> \<not> field_moved (pe_change p) seen t)
        \<and> (\<exists>t t'. row s i = Some t \<and> edited e t t' \<and> row s1 = (\<lambda>j. if norm j = norm i then Some t' else row s j))"
    by (rule land_step [OF Cons.prems])
  from full have step: "row s1 = row s
      \<or> (\<exists>t t'. row s i = Some t \<and> edited e t t' \<and> row s1 = (\<lambda>j. if norm j = norm i then Some t' else row s j))"
    by (elim disjE conjE) simp_all
  have "rel_option kin (row s j) (row s1 j)" for j
    using step
  proof
    assume "\<exists>t t'. row s i = Some t \<and> edited e t t' \<and> row s1 = (\<lambda>j. if norm j = norm i then Some t' else row s j)"
    then obtain t t' where "row s i = Some t" "edited e t t'" "row s1 = (\<lambda>j. if norm j = norm i then Some t' else row s j)"
      by blast
    then show ?thesis using row_norm_cong [of j i s] edited_kin by (auto simp: option.rel_refl)
  qed (simp add: option.rel_refl)
  moreover from Cons.IH [OF rest g1] have "good n s'" "\<forall>j. rel_option kin (row s1 j) (row s' j)" by auto
  ultimately show ?case by (metis (no_types, lifting) kin_trans option.rel_sel)
qed

text \<open>What a landing does to the todo of one ticket: its own edits, in their order.\<close>

lemma lands_by_key:
  "land_edits ops planned_on ids ps s = (Inr (), s') \<Longrightarrow> good n s \<Longrightarrow> ids k = Some i \<Longrightarrow> row s i = Some t \<Longrightarrow>
    \<forall>k' i'. ids k' = Some i' \<longrightarrow> norm i' = norm i \<longrightarrow> k' = k \<Longrightarrow>
    \<forall>seen. planned_on k = Some seen \<longrightarrow> norm (td_id seen) = norm i \<Longrightarrow>
    \<exists>t'. row s' i = Some t' \<and> landed (planned_on k) ids (filter (\<lambda>p. pe_key p = k) ps) t t'"
proof (induction ps arbitrary: s t)
  case Nil
  from Nil.prems(1,4) show ?case by simp
next
  case (Cons p ps)
  obtain e i' s1 where
    e: "(resolve_edit ids p :: unit sync_error + Edit) = Inr e" and i': "ids (pe_key p) = Some i'"
    and g1: "good n s1" and rest: "land_edits ops planned_on ids ps s1 = (Inr (), s')"
    and step: "(row s1 = row s \<and> (\<exists>seen. planned_on (pe_key p) = Some seen
            \<and> (\<forall>t. row s (td_id seen) = Some t \<longrightarrow> field_moved (pe_change p) seen t)))
      \<or> (\<forall>seen t. planned_on (pe_key p) = Some seen \<longrightarrow> row s (td_id seen) = Some t \<longrightarrow> \<not> field_moved (pe_change p) seen t)
        \<and> (\<exists>t t'. row s i' = Some t \<and> edited e t t' \<and> row s1 = (\<lambda>j. if norm j = norm i' then Some t' else row s j))"
    by (rule land_step [OF Cons.prems(1,2)])
  note IH = Cons.IH [OF rest g1 Cons.prems(3) _ Cons.prems(5,6)]
  show ?case
  proof (cases "pe_key p = k")
    case False
    then have "norm i' \<noteq> norm i" using Cons.prems(5) i' by blast
    then have "row s1 i = Some t" using step Cons.prems(4) by auto
    from IH [OF this] False show ?thesis by simp
  next
    case True
    with i' Cons.prems(3) have ii: "i' = i" by simp
    have seen: "row s (td_id seen) = Some t" if "planned_on k = Some seen" for seen
      using Cons.prems(4,6) that row_norm_cong [of "td_id seen" i s] by simp
    from step show ?thesis
    proof
      assume "row s1 = row s \<and> (\<exists>seen. planned_on (pe_key p) = Some seen
            \<and> (\<forall>t. row s (td_id seen) = Some t \<longrightarrow> field_moved (pe_change p) seen t))"
      then obtain seen where "row s1 = row s" "planned_on k = Some seen" "field_moved (pe_change p) seen t"
        using seen True by blast
      moreover from this(1) Cons.prems(4) have "row s1 i = Some t" by simp
      ultimately show ?thesis using IH True by simp
    next
      assume a: "(\<forall>seen t. planned_on (pe_key p) = Some seen \<longrightarrow> row s (td_id seen) = Some t \<longrightarrow> \<not> field_moved (pe_change p) seen t)
        \<and> (\<exists>t t'. row s i' = Some t \<and> edited e t t' \<and> row s1 = (\<lambda>j. if norm j = norm i' then Some t' else row s j))"
      then obtain u where u: "edited e t u" "row s1 i = Some u" using Cons.prems(4) ii by auto
      have "\<not> (case planned_on k of Some v \<Rightarrow> field_moved (pe_change p) v t | None \<Rightarrow> False)"
        using a seen True by (auto split: option.split)
      with IH [OF u(2)] u(1) e True show ?thesis by auto
    qed
  qed
qed

text \<open>The adds: every old todo stays as it is, and each added ticket's key leads to a todo holding it.\<close>

lemma land_adds_rows:
  "land_adds ops as ids s = (Inr ids', s') \<Longrightarrow> good (n + length as) s \<Longrightarrow> \<forall>a\<in>set as. nt_order a = None \<Longrightarrow>
     good n s' \<and> (\<forall>j t. row s j = Some t \<longrightarrow> row s' j = Some t)
     \<and> (\<forall>k. k \<notin> new_key ` set as \<longrightarrow> ids' k = ids k)
     \<and> (\<forall>k\<in>new_key ` set as. \<exists>i t a. ids' k = Some i \<and> row s' i = Some t \<and> a \<in> set as \<and> new_key a = k
          \<and> holds_ticket (nt_ticket a) t)"
proof (induction "as" arbitrary: ids s)
  case Nil
  then show ?case by simp
next
  case (Cons a as)
  from Cons.prems(1) obtain tk where tk: "nt_ticket a = Some tk" by (auto split: option.splits)
  then have key: "new_key a = tk_key tk" by (simp add: new_key_def)
  from Cons.prems(1) tk obtain i s1 where add: "op_add ops a s = (Inr i, s1)"
    and rest: "land_adds ops as (ids(tk_key tk \<mapsto> i)) s1 = (Inr ids', s')"
    by (auto split: prod.splits sum.splits)
  have "good (Suc (n + length as)) s" using Cons.prems(2) by simp
  moreover have "nt_order a = None" using Cons.prems(3) by simp
  ultimately have A: "good (n + length as) s1 \<and> (\<forall>j. Inr i = (Inr j :: 'e + string) \<longrightarrow>
        (\<exists>t. row s j = Some t \<and> row s1 = row s \<and> holds_ticket (nt_ticket a) t)
        \<or> (\<exists>t. norm j = j \<and> row s j = None \<and> (\<forall>l u. row s l = Some u \<longrightarrow> \<not> holds_ticket (nt_ticket a) u)
             \<and> created a j t \<and> row s1 = (\<lambda>l. if norm l = j then Some t else row s l)))"
    using adding [OF _ _ add] by blast
  then have g1: "good (n + length as) s1" by blast
  from A have "(\<exists>t. row s i = Some t \<and> row s1 = row s \<and> holds_ticket (nt_ticket a) t)
      \<or> (\<exists>t. norm i = i \<and> row s i = None \<and> created a i t \<and> row s1 = (\<lambda>l. if norm l = i then Some t else row s l))"
    by blast
  then have old1: "\<forall>j t. row s j = Some t \<longrightarrow> row s1 j = Some t" and new1: "\<exists>t. row s1 i = Some t \<and> holds_ticket (nt_ticket a) t"
  proof (atomize (full), elim disjE exE conjE)
    fix t assume t: "norm i = i" "row s i = None" "created a i t" "row s1 = (\<lambda>l. if norm l = i then Some t else row s l)"
    have "row s1 j = Some u" if "row s j = Some u" for j u
    proof -
      from that t(2) have "norm j \<noteq> i" using row_norm [of s j] by auto
      with that t(4) show ?thesis by simp
    qed
    moreover have "holds_ticket (nt_ticket a) t" using t(3) tk by (simp add: created_def holds_ticket_def same_ticket_def)
    ultimately show "(\<forall>j t. row s j = Some t \<longrightarrow> row s1 j = Some t) \<and> (\<exists>t. row s1 i = Some t \<and> holds_ticket (nt_ticket a) t)"
      using t(1,4) by simp
  qed auto
  from Cons.IH [OF rest g1] Cons.prems(3) have IH: "good n s'" "\<forall>j t. row s1 j = Some t \<longrightarrow> row s' j = Some t"
    "\<forall>k. k \<notin> new_key ` set as \<longrightarrow> ids' k = (ids(tk_key tk \<mapsto> i)) k"
    "\<forall>k\<in>new_key ` set as. \<exists>i t a. ids' k = Some i \<and> row s' i = Some t \<and> a \<in> set as \<and> new_key a = k
          \<and> holds_ticket (nt_ticket a) t" by auto
  have "\<exists>j t b. ids' k = Some j \<and> row s' j = Some t \<and> b \<in> set (a # as) \<and> new_key b = k \<and> holds_ticket (nt_ticket b) t"
    if k: "k \<in> new_key ` set (a # as)" for k
  proof (cases "k \<in> new_key ` set as")
    case True
    with IH(4) show ?thesis by fastforce
  next
    case False
    with k key have "k = tk_key tk" by auto
    with IH(3) False have "ids' k = Some i" by simp
    moreover from new1 IH(2) obtain t where "row s' i = Some t" "holds_ticket (nt_ticket a) t" by blast
    ultimately show ?thesis using key \<open>k = tk_key tk\<close> by auto
  qed
  with IH old1 key show ?case by auto
qed

end

lemma landed_status:
  "landed (Some seen) ids ps t t' \<Longrightarrow> td_status t \<noteq> td_status seen \<Longrightarrow> td_status t' = td_status t"
proof (induction ps arbitrary: t)
  case (Cons p ps)
  show ?case
  proof (cases "field_moved (pe_change p) seen t")
    case True
    with Cons show ?thesis by simp
  next
    case False
    with Cons.prems(1) obtain e u where e: "(resolve_edit ids p :: unit sync_error + Edit) = Inr e" "edited e t u"
      "landed (Some seen) ids ps u t'" by auto
    have "td_status u = td_status t"
      using False Cons.prems(2) e(1,2)
      by (cases "pe_change p")
        (auto simp: field_moved_def resolve_edit_def edited_def map_sum_Inr split: option.splits)
    with Cons.IH [OF e(3)] Cons.prems(2) show ?thesis by simp
  qed
qed simp

lemma landed_description:
  "landed (Some seen) ids ps t t' \<Longrightarrow> td_description t \<noteq> td_description seen \<Longrightarrow> td_description t' = td_description t"
proof (induction ps arbitrary: t)
  case (Cons p ps)
  show ?case
  proof (cases "field_moved (pe_change p) seen t")
    case True
    with Cons show ?thesis by simp
  next
    case False
    with Cons.prems(1) obtain e u where e: "(resolve_edit ids p :: unit sync_error + Edit) = Inr e" "edited e t u"
      "landed (Some seen) ids ps u t'" by auto
    have "td_description u = td_description t"
      using False Cons.prems(2) e(1,2)
      by (cases "pe_change p")
        (auto simp: field_moved_def resolve_edit_def edited_def map_sum_Inr split: option.splits)
    with Cons.IH [OF e(3)] Cons.prems(2) show ?thesis by simp
  qed
qed simp

section \<open>What the local side changed meanwhile\<close>

definition is_ticket :: "string \<Rightarrow> string \<Rightarrow> Todo \<Rightarrow> bool" where
  "is_ticket trk k t \<longleftrightarrow> (\<exists>r. td_ticket t = Some r \<and> tk_tracker r = trk \<and> tk_key r = k)"

lemma is_ticket_key: "is_ticket trk k t \<Longrightarrow> is_ticket trk j t \<Longrightarrow> k = j"
  by (auto simp: is_ticket_def)

lemma in_ticket_rows: "(k, t) \<in> set (ticket_rows trk xs) \<longleftrightarrow> t \<in> set xs \<and> is_ticket trk k t"
  by (auto simp: ticket_rows_def in_map_filter is_ticket_def split: option.splits if_splits)

lemma ticket_todo_Some: "ticket_todo trk xs k = Some t \<Longrightarrow> t \<in> set xs \<and> is_ticket trk k t"
  by (auto simp: ticket_todo_def in_ticket_rows [symmetric] dest: map_of_SomeD)

lemma ticket_todo_None: "ticket_todo trk xs k = None \<longleftrightarrow> (\<forall>t\<in>set xs. \<not> is_ticket trk k t)"
proof -
  have "ticket_todo trk xs k = None \<longleftrightarrow> k \<notin> fst ` set (ticket_rows trk xs)"
    by (simp add: ticket_todo_def map_of_eq_None_iff)
  also have "\<dots> \<longleftrightarrow> (\<forall>t. (k, t) \<notin> set (ticket_rows trk xs))" by force
  finally show ?thesis by (auto simp: in_ticket_rows)
qed

lemma plan_adds:
  assumes "sync_plan lower trk node existing fetched known statuses = Inr p" and "a \<in> set (sp_adds p)"
  obtains t where "t \<in> set fetched" and "ticket_todo trk existing (st_key t) = None"
    and "a = \<lparr>nt_project = Some node, nt_description = todo_text trk (st_key t) (st_title t), nt_parent = None,
        nt_order = None,
        nt_ticket = Some \<lparr>tk_tracker = trk, tk_key = st_key t, tk_synced_status = Some (status_name (st_status t))\<rparr>\<rparr>"
proof -
  have "a \<in> set (concat (map (fst \<circ> plan_one trk node existing (synced_keys trk existing fetched) statuses) fetched))"
    using assms by (simp add: sync_plan_cases Let_def split: if_splits) auto
  then obtain t where "t \<in> set fetched" "a \<in> set (fst (plan_one trk node existing (synced_keys trk existing fetched) statuses t))"
    by auto
  then show ?thesis
    by (intro that [of t]) (auto simp: plan_one_def plan_new_def plan_known_def Let_def split: option.splits)
qed

lemma holds_is_ticket:
  "holds_ticket (Some r) t \<longleftrightarrow> is_ticket (tk_tracker r) (tk_key r) t"
  by (auto simp: holds_ticket_def same_ticket_def is_ticket_def split: option.splits)

lemma plan_add_shape:
  assumes "sync_plan lower trk node existing fetched known statuses = Inr p" and "a \<in> set (sp_adds p)"
  shows "nt_order a = None" and "ticket_todo trk existing (new_key a) = None"
    and "holds_ticket (nt_ticket a) u = is_ticket trk (new_key a) u"
proof -
  obtain t where "t \<in> set fetched" and "ticket_todo trk existing (st_key t) = None"
    and "a = \<lparr>nt_project = Some node, nt_description = todo_text trk (st_key t) (st_title t), nt_parent = None,
        nt_order = None,
        nt_ticket = Some \<lparr>tk_tracker = trk, tk_key = st_key t, tk_synced_status = Some (status_name (st_status t))\<rparr>\<rparr>"
    by (rule plan_adds [OF assms])
  then show "nt_order a = None" "ticket_todo trk existing (new_key a) = None"
    "holds_ticket (nt_ticket a) u = is_ticket trk (new_key a) u"
    by (simp_all add: new_key_def holds_is_ticket)
qed

context todo_rows
begin

lemma listed_ids:
  assumes "good n s" and "op_list ops node s = (Inr xs, s')"
  shows "distinct (map td_id xs)" and "t \<in> set xs \<Longrightarrow> row s (td_id t) = Some t \<and> norm (td_id t) = td_id t \<and> node_of t = node"
proof -
  from listing [OF assms] have l: "distinct (map td_id xs)"
    "\<forall>t. t \<in> set xs \<longleftrightarrow> row s (td_id t) = Some t \<and> node_of t = node" by auto
  then show "distinct (map td_id xs)" by blast
  show "row s (td_id t) = Some t \<and> norm (td_id t) = td_id t \<and> node_of t = node" if "t \<in> set xs"
    using l(2) that row_id [OF assms(1), of "td_id t" t] by simp
qed

lemma local_wins:
  assumes planned: "good m s0" "op_list ops node s0 = (Inr existing, s1)"
    "sync_plan lower trk node existing fetched known statuses = Inr p"
    and g: "good (length (sp_adds p)) s" and land: "apply_plan ops trk existing p s = (Inr rep, s')"
    and seen: "ticket_todo trk existing k = Some seen"
    and now: "row s (td_id seen) = Some t" "is_ticket trk k t"
  shows "\<exists>t'. row s' (td_id seen) = Some t' \<and> (td_status t \<noteq> td_status seen \<longrightarrow> td_status t' = td_status t)
    \<and> (td_description t \<noteq> td_description seen \<longrightarrow> td_description t' = td_description t)"
proof -
  let ?on = "ticket_todo trk existing"
  note ex = listed_ids [OF planned(1,2)]
  have order: "\<forall>a\<in>set (sp_adds p). nt_order a = None" using plan_add_shape(1) [OF planned(3)] by blast
  have fresh: "?on (new_key a) = None \<and> holds_ticket (nt_ticket a) u = is_ticket trk (new_key a) u"
    if "a \<in> set (sp_adds p)" for a u
    using plan_add_shape(2,3) [OF planned(3) that] by blast
  from land obtain ids' s2 where adds: "land_adds ops (sp_adds p) (map_option td_id \<circ> ?on) s = (Inr ids', s2)"
    and edits: "land_edits ops ?on ids' (sp_edits p) s2 = (Inr (), s')"
    by (auto simp: apply_plan_def apply_sync_def split: prod.splits sum.splits)
  have "good (0 + length (sp_adds p)) s" using g by simp
  then have A: "good 0 s2 \<and> (\<forall>j t. row s j = Some t \<longrightarrow> row s2 j = Some t)
      \<and> (\<forall>j. j \<notin> new_key ` set (sp_adds p) \<longrightarrow> ids' j = (map_option td_id \<circ> ?on) j)
      \<and> (\<forall>j\<in>new_key ` set (sp_adds p). \<exists>i u a. ids' j = Some i \<and> row s2 i = Some u \<and> a \<in> set (sp_adds p)
          \<and> new_key a = j \<and> holds_ticket (nt_ticket a) u)"
    by (rule land_adds_rows [OF adds _ order])
  then have g2: "good 0 s2" by (elim conjE)
  from A now(1) have old: "row s2 (td_id seen) = Some t" by blast
  from A have same: "\<forall>j. j \<notin> new_key ` set (sp_adds p) \<longrightarrow> ids' j = (map_option td_id \<circ> ?on) j" by (elim conjE)
  from A have new: "\<forall>j\<in>new_key ` set (sp_adds p). \<exists>i u a. ids' j = Some i \<and> row s2 i = Some u \<and> a \<in> set (sp_adds p)
      \<and> new_key a = j \<and> holds_ticket (nt_ticket a) u" by (elim conjE)
  have "k \<notin> new_key ` set (sp_adds p)" using fresh seen by auto
  then have "ids' k = (map_option td_id \<circ> ?on) k" using same by blast
  then have k: "ids' k = Some (td_id seen)" using seen by simp
  have inj: "\<forall>k' i'. ids' k' = Some i' \<longrightarrow> norm i' = norm (td_id seen) \<longrightarrow> k' = k"
  proof (intro allI impI)
    fix k' i' assume i': "ids' k' = Some i'" "norm i' = norm (td_id seen)"
    have s_in: "seen \<in> set existing" "is_ticket trk k seen" using ticket_todo_Some [OF seen] by auto
    show "k' = k"
    proof (cases "k' \<in> new_key ` set (sp_adds p)")
      case True
      from bspec [OF new True] i'(1) obtain u a where u: "row s2 i' = Some u" "a \<in> set (sp_adds p)" "new_key a = k'"
        "holds_ticket (nt_ticket a) u" by (metis option.inject)
      with i'(2) old row_norm_cong [OF i'(2), of s2] have "u = t" by simp
      with u(4) fresh [OF u(2), of u] have "is_ticket trk (new_key a) t" by blast
      with u(3) now(2) show ?thesis by (simp add: is_ticket_key)
    next
      case False
      with i'(1) same have "(map_option td_id \<circ> ?on) k' = Some i'" by (metis (no_types, lifting))
      then obtain v where v: "?on k' = Some v" "i' = td_id v" by auto
      from ticket_todo_Some [OF v(1)] have v_in: "v \<in> set existing" "is_ticket trk k' v" by auto
      have "norm (td_id v) = td_id v" "norm (td_id seen) = td_id seen"
        using ex(2) [OF v_in(1)] ex(2) [OF s_in(1)] by blast+
      with i'(2) v(2) have "td_id v = td_id seen" by metis
      with ex(1) v_in(1) s_in(1) have "v = seen" by (metis distinct_map inj_onD)
      with v_in(2) s_in(2) show ?thesis by (simp add: is_ticket_key)
    qed
  qed
  have "\<forall>u. ?on k = Some u \<longrightarrow> norm (td_id u) = norm (td_id seen)" using seen by simp
  from lands_by_key [OF edits g2 k old inj this] obtain t' where
    "row s' (td_id seen) = Some t'" "landed (Some seen) ids' (filter (\<lambda>p. pe_key p = k) (sp_edits p)) t t'"
    unfolding seen by blast
  then show ?thesis using landed_status landed_description by blast
qed

end

end
