(* ===== verification/Ticket_Settle.thy ===== *)
theory Ticket_Settle
  imports Ticket_Land
begin

text \<open>
  A sync settles: right after one has landed, the same tickets leave nothing to plan. The lemmas
  follow a ticket's todo from the listing through the adds and its own edits to the next listing.
\<close>

section \<open>What a ticket's edits leave\<close>

lemma landed_append:
  "landed seen ids (ps @ qs) t t' \<longleftrightarrow> (\<exists>u. landed seen ids ps t u \<and> landed seen ids qs u t')"
  by (induction ps arbitrary: t) auto

lemma landed_if: "landed seen ids (if b then ps else []) t t' \<longleftrightarrow> (if b then landed seen ids ps t t' else t' = t)"
  by simp

definition ids_for :: "(string \<rightharpoonup> string) \<Rightarrow> string list \<Rightarrow> string set" where
  "ids_for ids ks = {i. \<exists>k\<in>set ks. ids k = Some i}"

lemma ids_of_set:
  assumes "(ids_of ids ks :: 'a sync_error + string list) = Inr js"
  shows "set js = ids_for ids ks"
proof -
  have "map ids ks = map Some js" using assms by (simp add: ids_of_Inr)
  then have "ids ` set ks = Some ` set js" by (metis list.set_map)
  then show ?thesis by (force simp: ids_for_def)
qed

lemma landed_one:
  "landed seen ids [planned tk c] t t' \<longleftrightarrow>
     (if (case seen of Some u \<Rightarrow> field_moved c u t | None \<Rightarrow> False) then t' = t
      else (\<exists>e. (resolve_edit ids (planned tk c) :: unit sync_error + Edit) = Inr e \<and> edited e t t'))"
  by (cases seen) (simp_all add: planned_def)

lemma resolve_planned:
  assumes r: "(resolve_edit ids (planned tk c) :: unit sync_error + Edit) = Inr e"
  obtains i where "case c of ToStatus k \<Rightarrow> e = SetStatus i k tracker | Synced n \<Rightarrow> e = RecordSync i n
    | Describing b \<Rightarrow> e = Describe i b
    | Under par \<Rightarrow> (case par of Some p \<Rightarrow> ids p \<noteq> None | None \<Rightarrow> True)
        \<and> e = Move i (case par of Some p \<Rightarrow> ids p | None \<Rightarrow> None) None
    | BlockOn ks \<Rightarrow> (\<exists>js. e = Block i js \<and> set js = ids_for ids ks)
    | UnblockFrom ks \<Rightarrow> (\<exists>js. e = Unblock i js \<and> set js = ids_for ids ks)"
proof -
  from r obtain i where i: "ids (st_key tk) = Some i" by (auto simp: resolve_edit_def planned_def split: option.splits)
  have "set js = ids_for ids ks" if "(ids_of ids ks :: unit sync_error + string list) = Inr js" for ks js
    using that by (rule ids_of_set)
  with r i show ?thesis
    by (intro that [of i])
      (auto simp: resolve_edit_def planned_def map_sum_Inr split: TicketChange.splits option.splits)
qed

lemma unmoved_relation:
  "\<not> (case seen of Some u \<Rightarrow> field_moved (Under par) u t | None \<Rightarrow> False)"
  "\<not> (case seen of Some u \<Rightarrow> field_moved (BlockOn ks) u t | None \<Rightarrow> False)"
  "\<not> (case seen of Some u \<Rightarrow> field_moved (UnblockFrom ks) u t | None \<Rightarrow> False)"
  "\<not> (case seen of Some u \<Rightarrow> field_moved (Synced n) u t | None \<Rightarrow> False)"
  by (simp_all add: field_moved_def split: option.split)

lemma landed_under:
  assumes "landed seen ids [planned tk (Under par)] t t'"
  shows "td_description t' = td_description t \<and> td_ticket t' = td_ticket t \<and> set (td_blocked_by t') = set (td_blocked_by t)
    \<and> td_parent t' = (case par of Some p \<Rightarrow> ids p | None \<Rightarrow> None) \<and> (case par of Some p \<Rightarrow> ids p \<noteq> None | None \<Rightarrow> True)"
proof -
  from assms obtain e where e: "(resolve_edit ids (planned tk (Under par)) :: unit sync_error + Edit) = Inr e" "edited e t t'"
    unfolding landed_one using unmoved_relation(1) by (metis (no_types, lifting))
  obtain i where "(case par of Some p \<Rightarrow> ids p \<noteq> None | None \<Rightarrow> True)"
    "e = Move i (case par of Some p \<Rightarrow> ids p | None \<Rightarrow> None) None"
    by (rule resolve_planned [OF e(1)]) (simp only: TicketChange.case)
  with e(2) show ?thesis by (simp only: edited_def Edit.case)
qed

lemma landed_block:
  assumes "landed seen ids [planned tk (BlockOn ks)] t t'"
  shows "td_description t' = td_description t \<and> td_ticket t' = td_ticket t \<and> td_parent t' = td_parent t
    \<and> set (td_blocked_by t') = set (td_blocked_by t) \<union> ids_for ids ks"
proof -
  from assms obtain e where e: "(resolve_edit ids (planned tk (BlockOn ks)) :: unit sync_error + Edit) = Inr e" "edited e t t'"
    unfolding landed_one using unmoved_relation(2) by (metis (no_types, lifting))
  obtain i where "\<exists>js. e = Block i js \<and> set js = ids_for ids ks"
    by (rule resolve_planned [OF e(1)]) (simp only: TicketChange.case)
  then obtain js where "e = Block i js" "set js = ids_for ids ks" by blast
  with e(2) show ?thesis by (simp only: edited_def Edit.case)
qed

lemma landed_unblock:
  assumes "landed seen ids [planned tk (UnblockFrom ks)] t t'"
  shows "td_description t' = td_description t \<and> td_ticket t' = td_ticket t \<and> td_parent t' = td_parent t
    \<and> set (td_blocked_by t') = set (td_blocked_by t) - ids_for ids ks"
proof -
  from assms obtain e where e: "(resolve_edit ids (planned tk (UnblockFrom ks)) :: unit sync_error + Edit) = Inr e" "edited e t t'"
    unfolding landed_one using unmoved_relation(3) by (metis (no_types, lifting))
  obtain i where "\<exists>js. e = Unblock i js \<and> set js = ids_for ids ks"
    by (rule resolve_planned [OF e(1)]) (simp only: TicketChange.case)
  then obtain js where "e = Unblock i js" "set js = ids_for ids ks" by blast
  with e(2) show ?thesis by (simp only: edited_def Edit.case)
qed

lemma landed_to_status:
  assumes "landed seen ids [planned tk (ToStatus k)] t t'"
  shows "td_description t' = td_description t \<and> td_ticket t' = td_ticket t \<and> td_parent t' = td_parent t
    \<and> set (td_blocked_by t') = set (td_blocked_by t)"
proof (cases "case seen of Some u \<Rightarrow> field_moved (ToStatus k) u t | None \<Rightarrow> False")
  case True
  with assms show ?thesis unfolding landed_one by simp
next
  case False
  with assms obtain e where e: "(resolve_edit ids (planned tk (ToStatus k)) :: unit sync_error + Edit) = Inr e" "edited e t t'"
    unfolding landed_one by (metis (no_types, lifting))
  obtain i where "e = SetStatus i k tracker"
    by (rule resolve_planned [OF e(1)]) (simp only: TicketChange.case)
  with e(2) show ?thesis by (simp only: edited_def Edit.case)
qed

lemma landed_synced:
  assumes "landed seen ids [planned tk (Synced n)] t t'"
  shows "td_description t' = td_description t \<and> td_parent t' = td_parent t \<and> set (td_blocked_by t') = set (td_blocked_by t)
    \<and> td_ticket t' = map_option (\<lambda>r. r\<lparr>tk_synced_status := Some n\<rparr>) (td_ticket t)"
proof -
  from assms obtain e where e: "(resolve_edit ids (planned tk (Synced n)) :: unit sync_error + Edit) = Inr e" "edited e t t'"
    unfolding landed_one using unmoved_relation(4) by (metis (no_types, lifting))
  obtain i where "e = RecordSync i n"
    by (rule resolve_planned [OF e(1)]) (simp only: TicketChange.case)
  with e(2) show ?thesis by (simp only: edited_def Edit.case)
qed

lemma landed_describing:
  assumes "landed seen ids [planned tk (Describing b)] t t'"
    and "case seen of Some u \<Rightarrow> td_description t = td_description u | None \<Rightarrow> True"
  shows "td_description t' = one_line b \<and> td_ticket t' = td_ticket t \<and> td_parent t' = td_parent t
    \<and> set (td_blocked_by t') = set (td_blocked_by t)"
proof -
  have "\<not> (case seen of Some u \<Rightarrow> field_moved (Describing b) u t | None \<Rightarrow> False)"
    using assms(2) by (simp add: field_moved_def split: option.splits)
  with assms(1) obtain e where e: "(resolve_edit ids (planned tk (Describing b)) :: unit sync_error + Edit) = Inr e" "edited e t t'"
    unfolding landed_one by (metis (no_types, lifting))
  obtain i where "e = Describe i b"
    by (rule resolve_planned [OF e(1)]) (simp only: TicketChange.case)
  with e(2) show ?thesis by (simp only: edited_def Edit.case)
qed

lemma landed_Cons: "landed seen ids (p # q # ps) t t' \<longleftrightarrow> (\<exists>u. landed seen ids [p] t u \<and> landed seen ids (q # ps) u t')"
  using landed_append [of seen ids "[p]" "q # ps" t t'] by simp

definition recorded :: "Todo \<Rightarrow> string option" where
  "recorded t = Option.bind (td_ticket t) tk_synced_status"

text \<open>A new ticket's todo, from its creation to its last edit.\<close>

lemma landed_new:
  assumes "landed None ids (fst (snd (plan_new trk node synced to tk)) @ snd (snd (plan_new trk node synced to tk))) t t'"
    and "td_parent t = None" and "td_blocked_by t = []"
  shows "td_description t' = td_description t \<and> td_ticket t' = td_ticket t
    \<and> td_parent t' = (case wanted_parent synced tk of Some p \<Rightarrow> ids p | None \<Rightarrow> None)
    \<and> (case wanted_parent synced tk of Some p \<Rightarrow> ids p \<noteq> None | None \<Rightarrow> True)
    \<and> set (td_blocked_by t') = ids_for ids (wanted_blockers synced tk)"
proof -
  obtain u v where u: "if to \<noteq> KPending then landed None ids [planned tk (ToStatus to)] t u else u = t"
    and v: "case wanted_parent synced tk of Some p \<Rightarrow> landed None ids [planned tk (Under (Some p))] u v | None \<Rightarrow> v = u"
    and w: "if wanted_blockers synced tk \<noteq> [] then landed None ids [planned tk (BlockOn (wanted_blockers synced tk))] v t' else t' = v"
    using assms(1) unfolding plan_new_def Let_def fst_conv snd_conv landed_append
    by (auto split: option.splits if_splits)
  have 1: "td_description u = td_description t \<and> td_ticket u = td_ticket t \<and> td_parent u = None \<and> set (td_blocked_by u) = {}"
    using u assms(2,3) landed_to_status [of None ids tk to t u] by (auto split: if_splits)
  have 2: "td_description v = td_description t \<and> td_ticket v = td_ticket t \<and> set (td_blocked_by v) = {}
    \<and> td_parent v = (case wanted_parent synced tk of Some p \<Rightarrow> ids p | None \<Rightarrow> None)
    \<and> (case wanted_parent synced tk of Some p \<Rightarrow> ids p \<noteq> None | None \<Rightarrow> True)"
    using v 1 landed_under [of None ids tk "wanted_parent synced tk" u v] by (auto split: option.splits)
  show ?thesis
  proof (cases "wanted_blockers synced tk = []")
    case True
    with w 2 show ?thesis by (simp add: ids_for_def)
  next
    case False
    with w landed_block [of None ids tk "wanted_blockers synced tk" v t'] 2 show ?thesis by simp
  qed
qed

text \<open>A known ticket's todo, from the listing the plan was made from to its last edit.\<close>

lemma landed_known:
  assumes l: "landed (Some todo) ids (fst (snd (plan_known trk key_of synced to tk todo)) @ snd (snd (plan_known trk key_of synced to tk todo)))
      todo t'"
    and tick: "td_ticket todo \<noteq> None"
  defines "have_blockers \<equiv> List.map_filter key_of (td_blocked_by todo)" and "want \<equiv> wanted_blockers synced tk"
    and "moves \<equiv> moves_parent (map_option key_of (td_parent todo)) (wanted_parent synced tk)"
  shows "td_description t' = todo_text trk (st_key tk) (st_title tk) \<and> recorded t' = Some (status_name (st_status tk))
    \<and> td_parent t' = (if moves then (case wanted_parent synced tk of Some p \<Rightarrow> ids p | None \<Rightarrow> None) else td_parent todo)
    \<and> (moves \<longrightarrow> (case wanted_parent synced tk of Some p \<Rightarrow> ids p \<noteq> None | None \<Rightarrow> True))
    \<and> set (td_blocked_by t') = (set (td_blocked_by todo) \<union> ids_for ids (key_diff want have_blockers))
         - ids_for ids (key_diff have_blockers want)"
proof -
  let ?body = "todo_text trk (st_key tk) (st_title tk)" and ?name = "status_name (st_status tk)"
  let ?wp = "wanted_parent synced tk" and ?block = "key_diff want have_blockers" and ?unblock = "key_diff have_blockers want"
  have body: "one_line ?body = ?body" by (simp add: todo_text_def)
  obtain u v w x where
    1: "if td_description todo \<noteq> ?body then landed (Some todo) ids [planned tk (Describing ?body)] todo u else u = todo"
    and 2: "if Option.bind (td_ticket todo) tk_synced_status \<noteq> Some ?name
        then landed (Some todo) ids [planned tk (ToStatus to), planned tk (Synced ?name)] u v else v = u"
    and 3: "if moves then landed (Some todo) ids [planned tk (Under ?wp)] v w else w = v"
    and 4: "if ?block \<noteq> [] then landed (Some todo) ids [planned tk (BlockOn ?block)] w x else x = w"
    and 5: "if ?unblock \<noteq> [] then landed (Some todo) ids [planned tk (UnblockFrom ?unblock)] x t' else t' = x"
    using l unfolding plan_known_def Let_def fst_conv snd_conv landed_append landed_if
      have_blockers_def [symmetric] want_def [symmetric] moves_def [symmetric] by blast
  have u: "td_description u = ?body \<and> td_ticket u = td_ticket todo \<and> td_parent u = td_parent todo
      \<and> set (td_blocked_by u) = set (td_blocked_by todo)"
  proof (cases "td_description todo = ?body")
    case False
    with 1 have "landed (Some todo) ids [planned tk (Describing ?body)] todo u" by simp
    from landed_describing [OF this] body show ?thesis by simp
  qed (use 1 in simp)
  have v: "td_description v = ?body \<and> recorded v = Some ?name \<and> td_parent v = td_parent todo
      \<and> set (td_blocked_by v) = set (td_blocked_by todo)"
  proof (cases "Option.bind (td_ticket todo) tk_synced_status = Some ?name")
    case True
    with 2 u show ?thesis by (simp add: recorded_def)
  next
    case False
    with 2 obtain y where y: "landed (Some todo) ids [planned tk (ToStatus to)] u y"
      "landed (Some todo) ids [planned tk (Synced ?name)] y v" by (auto simp: landed_Cons simp del: landed.simps)
    from landed_to_status [OF y(1)] landed_synced [OF y(2)] u tick show ?thesis by (auto simp: recorded_def)
  qed
  have w: "td_description w = ?body \<and> recorded w = Some ?name \<and> set (td_blocked_by w) = set (td_blocked_by todo)
      \<and> td_parent w = (if moves then (case ?wp of Some p \<Rightarrow> ids p | None \<Rightarrow> None) else td_parent todo)
      \<and> (moves \<longrightarrow> (case ?wp of Some p \<Rightarrow> ids p \<noteq> None | None \<Rightarrow> True))"
  proof (cases moves)
    case True
    with 3 have "landed (Some todo) ids [planned tk (Under ?wp)] v w" by simp
    from landed_under [OF this] v True show ?thesis by (simp add: recorded_def)
  qed (use 3 v in simp)
  have x: "td_description x = ?body \<and> recorded x = Some ?name \<and> td_parent x = td_parent w
      \<and> set (td_blocked_by x) = set (td_blocked_by todo) \<union> ids_for ids ?block"
  proof (cases "?block = []")
    case False
    with 4 have "landed (Some todo) ids [planned tk (BlockOn ?block)] w x" by simp
    from landed_block [OF this] w show ?thesis by (simp add: recorded_def)
  qed (use 4 w in \<open>simp add: ids_for_def\<close>)
  have "td_description t' = ?body \<and> recorded t' = Some ?name \<and> td_parent t' = td_parent w
      \<and> set (td_blocked_by t') = (set (td_blocked_by todo) \<union> ids_for ids ?block) - ids_for ids ?unblock"
  proof (cases "?unblock = []")
    case False
    with 5 have "landed (Some todo) ids [planned tk (UnblockFrom ?unblock)] x t'" by simp
    from landed_unblock [OF this] x show ?thesis by (simp add: recorded_def)
  qed (use 5 x in \<open>simp add: ids_for_def\<close>)
  with w show ?thesis by simp
qed

section \<open>The edits of one ticket among all\<close>

lemma filter_concat_one:
  assumes "distinct (map f ts)" and "t \<in> set ts" and "\<And>u x. u \<in> set ts \<Longrightarrow> x \<in> set (g u) \<Longrightarrow> h x = f u"
  shows "filter (\<lambda>x. h x = f t) (concat (map g ts)) = g t"
  using assms
proof (induction ts)
  case (Cons u ts)
  show ?case
  proof (cases "u = t")
    case True
    have "filter (\<lambda>x. h x = f t) (concat (map g ts)) = []"
      using Cons.prems(1,3) True by (simp add: filter_empty_conv image_iff) metis
    moreover have "filter (\<lambda>x. h x = f t) (g u) = g u"
      using Cons.prems(3) True by (simp add: filter_id_conv)
    ultimately show ?thesis using True by simp
  next
    case False
    then have "t \<in> set ts" using Cons.prems(2) by simp
    have "f u \<noteq> f t" using Cons.prems(1) \<open>t \<in> set ts\<close> by auto
    moreover have "h x = f u" if "x \<in> set (g u)" for x using Cons.prems(3) [of u x] that by simp
    ultimately have "filter (\<lambda>x. h x = f t) (g u) = []" by (simp add: filter_empty_conv)
    with \<open>t \<in> set ts\<close> Cons show ?thesis by simp
  qed
qed simp

lemma plan_one_keys:
  assumes "e \<in> set (fst (snd (plan_one trk node existing synced statuses t))) \<union> set (snd (snd (plan_one trk node existing synced statuses t)))"
  shows "pe_key e = st_key t"
  using assms
  by (auto simp: plan_one_def plan_new_def plan_known_def planned_def Let_def split: option.splits if_splits)

lemma plan_edits_of:
  assumes p: "sync_plan lower trk node existing fetched known statuses = Inr p"
    and d: "distinct (map st_key fetched)" and t: "t \<in> set fetched"
  shows "filter (\<lambda>e. pe_key e = st_key t) (sp_edits p) =
    fst (snd (plan_one trk node existing (synced_keys trk existing fetched) statuses t))
    @ snd (snd (plan_one trk node existing (synced_keys trk existing fetched) statuses t))"
proof -
  let ?one = "plan_one trk node existing (synced_keys trk existing fetched) statuses"
  have "sp_edits p = concat (map (\<lambda>t. fst (snd (?one t))) fetched) @ concat (map (\<lambda>t. snd (snd (?one t))) fetched)"
    using p by (auto simp: sync_plan_cases Let_def comp_def split: if_splits)
  moreover have "filter (\<lambda>e. pe_key e = st_key t) (concat (map (\<lambda>t. fst (snd (?one t))) fetched)) = fst (snd (?one t))"
    by (rule filter_concat_one [OF d t]) (use plan_one_keys in blast)
  moreover have "filter (\<lambda>e. pe_key e = st_key t) (concat (map (\<lambda>t. snd (snd (?one t))) fetched)) = snd (snd (?one t))"
    by (rule filter_concat_one [OF d t]) (use plan_one_keys in blast)
  ultimately show ?thesis by simp
qed

section \<open>From listing to listing\<close>

lemma in_synced_keys: "k \<in> set (synced_keys trk xs fetched) \<longleftrightarrow> (\<exists>t\<in>set xs. is_ticket trk k t) \<or> k \<in> st_key ` set fetched"
proof -
  have "k \<in> fst ` set (ticket_rows trk xs) \<longleftrightarrow> (\<exists>t\<in>set xs. is_ticket trk k t)"
    using in_ticket_rows [of k _ trk xs] by (force simp: image_iff)
  then show ?thesis by (simp add: synced_keys_def)
qed

definition one_each :: "string \<Rightarrow> Todo list \<Rightarrow> bool" where
  "one_each trk xs \<longleftrightarrow> distinct (map td_id xs)
     \<and> (\<forall>t\<in>set xs. \<forall>v\<in>set xs. \<forall>k. is_ticket trk k t \<longrightarrow> is_ticket trk k v \<longrightarrow> t = v)"

lemma lookup_unique:
  assumes one: "one_each trk xs"
  shows "ticket_todo trk xs k = Some t \<longleftrightarrow> t \<in> set xs \<and> is_ticket trk k t"
    and "key_of_id trk xs i = Some k \<longleftrightarrow> (\<exists>t\<in>set xs. td_id t = i \<and> is_ticket trk k t)"
proof -
  have d: "distinct (map td_id xs)" and u: "\<And>t v k. t \<in> set xs \<Longrightarrow> v \<in> set xs \<Longrightarrow> is_ticket trk k t \<Longrightarrow> is_ticket trk k v \<Longrightarrow> t = v"
    using one unfolding one_each_def by blast+
  have todo: "ticket_todo trk xs k = Some t \<longleftrightarrow> t \<in> set xs \<and> is_ticket trk k t" for k t
  proof
    assume "t \<in> set xs \<and> is_ticket trk k t"
    then obtain v where v: "ticket_todo trk xs k = Some v" using ticket_todo_None [of trk xs k] by blast
    with ticket_todo_Some [OF v] u \<open>t \<in> set xs \<and> is_ticket trk k t\<close> show "ticket_todo trk xs k = Some t" by blast
  qed (rule ticket_todo_Some)
  then show "ticket_todo trk xs k = Some t \<longleftrightarrow> t \<in> set xs \<and> is_ticket trk k t" .
  let ?P = "\<lambda>(k, t). td_id t = i \<and> ticket_todo trk xs k = Some t"
  show "key_of_id trk xs i = Some k \<longleftrightarrow> (\<exists>t\<in>set xs. td_id t = i \<and> is_ticket trk k t)"
  proof
    assume "key_of_id trk xs i = Some k"
    then obtain t where "find ?P (rev (ticket_rows trk xs)) = Some (k, t)" by (auto simp: key_of_id_def)
    then have "td_id t = i \<and> ticket_todo trk xs k = Some t" by (auto dest: find_Some_set)
    with todo show "\<exists>t\<in>set xs. td_id t = i \<and> is_ticket trk k t" by blast
  next
    assume "\<exists>t\<in>set xs. td_id t = i \<and> is_ticket trk k t"
    then obtain t where t: "t \<in> set xs" "td_id t = i" "is_ticket trk k t" by blast
    then have "(k, t) \<in> set (rev (ticket_rows trk xs))" "?P (k, t)" by (simp_all add: in_ticket_rows todo)
    then have "find ?P (rev (ticket_rows trk xs)) \<noteq> None"
      using find_None_all [of ?P "rev (ticket_rows trk xs)" "(k, t)"] by blast
    then obtain r where r: "find ?P (rev (ticket_rows trk xs)) = Some r" by blast
    obtain j v where jv: "r = (j, v)" by (cases r)
    from find_Some_set [OF r] have "td_id v = i \<and> ticket_todo trk xs j = Some v" by (simp add: jv)
    then have v: "td_id v = i" "v \<in> set xs" "is_ticket trk j v" using todo by blast+
    have "td_id v = td_id t" using v(1) t(2) by simp
    then have "v = t" by (rule inj_onD [OF distinct_map [THEN iffD1, OF d, THEN conjunct2] _ v(2) t(1)])
    with v t have "j = k" by (simp add: is_ticket_key)
    with r jv show "key_of_id trk xs i = Some k" by (simp add: key_of_id_def)
  qed
qed

text \<open>Two listings around a landing, with the ids it used: what the second says of ids in the first.\<close>

definition keys_follow :: "string \<Rightarrow> Todo list \<Rightarrow> Todo list \<Rightarrow> string list \<Rightarrow> (string \<rightharpoonup> string) \<Rightarrow> string set \<Rightarrow> bool" where
  "keys_follow trk xs ys synced ids known_ids \<longleftrightarrow>
     (\<forall>k\<in>set synced. \<exists>i. ids k = Some i \<and> key_of_id trk ys i = Some k)
     \<and> (\<forall>k i. key_of_id trk xs i = Some k \<longrightarrow> ids k = Some i)
     \<and> (\<forall>i\<in>known_ids. key_of_id trk ys i = key_of_id trk xs i)"

text \<open>The second listing has a todo under every id the landing used, and says nothing new of the first.\<close>

definition follows :: "string \<Rightarrow> Todo list \<Rightarrow> Todo list \<Rightarrow> string list \<Rightarrow> (string \<rightharpoonup> string) \<Rightarrow> string set \<Rightarrow> bool" where
  "follows trk xs ys synced ids known_ids \<longleftrightarrow> one_each trk xs \<and> one_each trk ys
     \<and> (\<forall>k t. ticket_todo trk xs k = Some t \<longrightarrow> ids k = Some (td_id t))
     \<and> (\<forall>k\<in>set synced. ids k \<noteq> None)
     \<and> (\<forall>k i. ids k = Some i \<longrightarrow> (\<exists>t\<in>set ys. td_id t = i \<and> is_ticket trk k t))
     \<and> (\<forall>t\<in>set ys. td_id t \<in> known_ids \<longrightarrow> (\<exists>u\<in>set xs. td_id u = td_id t \<and> (\<forall>k. is_ticket trk k t \<longrightarrow> is_ticket trk k u)))"

lemma follows_keys:
  assumes "follows trk xs ys synced ids known_ids"
  shows "keys_follow trk xs ys synced ids known_ids"
proof -
  have one: "one_each trk xs" "one_each trk ys"
    and old: "\<And>k t. ticket_todo trk xs k = Some t \<Longrightarrow> ids k = Some (td_id t)"
    and has: "\<And>k. k \<in> set synced \<Longrightarrow> ids k \<noteq> None"
    and at: "\<And>k i. ids k = Some i \<Longrightarrow> \<exists>t\<in>set ys. td_id t = i \<and> is_ticket trk k t"
    and same: "\<And>t. t \<in> set ys \<Longrightarrow> td_id t \<in> known_ids \<Longrightarrow> \<exists>u\<in>set xs. td_id u = td_id t \<and> (\<forall>k. is_ticket trk k t \<longrightarrow> is_ticket trk k u)"
    using assms unfolding follows_def by blast+
  note look = lookup_unique [OF one(1)] and look' = lookup_unique [OF one(2)]
  have key: "key_of_id trk ys i = Some k" if "ids k = Some i" for k i
    unfolding look'(2) using at [OF that] .
  have first: "ids k = Some i" if "key_of_id trk xs i = Some k" for k i
  proof -
    from that obtain t where "t \<in> set xs" "td_id t = i" "is_ticket trk k t" unfolding look(2) by blast
    then show ?thesis using old [of k t] by (simp add: look(1))
  qed
  have "key_of_id trk ys i = key_of_id trk xs i" if "i \<in> known_ids" for i
  proof -
    have "key_of_id trk ys i = Some k \<longleftrightarrow> key_of_id trk xs i = Some k" for k
    proof
      assume "key_of_id trk ys i = Some k"
      then obtain t where "t \<in> set ys" "td_id t = i" "is_ticket trk k t" unfolding look'(2) by blast
      with same [of t] that show "key_of_id trk xs i = Some k" unfolding look(2) by metis
    qed (rule key [OF first])
    then show ?thesis by (metis not_None_eq)
  qed
  moreover have "\<exists>i. ids k = Some i \<and> key_of_id trk ys i = Some k" if "k \<in> set synced" for k
    using has [OF that] key by blast
  ultimately show ?thesis unfolding keys_follow_def using first by blast
qed

lemma mirrors_new:
  assumes f: "keys_follow trk xs ys synced ids known_ids" and synced: "set synced' = set synced"
    and todo: "ticket_todo trk ys (st_key tk) = Some t'"
    and t': "td_description t' = todo_text trk (st_key tk) (st_title tk)" "recorded t' = Some (status_name (st_status tk))"
      "td_parent t' = (case wanted_parent synced tk of Some p \<Rightarrow> ids p | None \<Rightarrow> None)"
      "set (td_blocked_by t') = ids_for ids (wanted_blockers synced tk)"
  shows "mirrors trk ys synced' tk"
proof -
  have wp: "wanted_parent synced' tk = wanted_parent synced tk" and wb: "wanted_blockers synced' tk = wanted_blockers synced tk"
    by (cases "st_parent tk"; simp add: wanted_parent_def wanted_blockers_def synced)+
  have key: "\<exists>i. ids k = Some i \<and> key_of_id trk ys i = Some k" if "k \<in> set synced" for k
    using f that by (simp add: keys_follow_def)
  have want: "k \<in> set synced" if "wanted_parent synced tk = Some k \<or> k \<in> set (wanted_blockers synced tk)" for k
    using that by (auto simp: wanted_parent_def wanted_blockers_def split: option.splits if_splits)
  have par: "case td_parent t' of None \<Rightarrow> wanted_parent synced tk = None
      | Some i \<Rightarrow> (case key_of_id trk ys i of None \<Rightarrow> True | Some k \<Rightarrow> wanted_parent synced tk = Some k)"
  proof (cases "wanted_parent synced tk")
    case (Some p)
    with key [OF want, of p] t'(3) show ?thesis by auto
  qed (simp add: t'(3))
  have "set (List.map_filter (key_of_id trk ys) (td_blocked_by t')) = set (wanted_blockers synced tk)" (is "?l = ?r")
  proof
    show "?l \<subseteq> ?r"
    proof
      fix k assume "k \<in> ?l"
      then obtain i b where "b \<in> set (wanted_blockers synced tk)" "ids b = Some i" "key_of_id trk ys i = Some k"
        by (auto simp: in_map_filter t'(4) ids_for_def)
      with key [OF want, of b] show "k \<in> ?r" by auto
    qed
    show "?r \<subseteq> ?l"
    proof
      fix k assume k: "k \<in> ?r"
      with key [OF want, of k] obtain i where "ids k = Some i" "key_of_id trk ys i = Some k" by blast
      with k show "k \<in> ?l" by (auto simp: in_map_filter t'(4) ids_for_def)
    qed
  qed
  with par t'(1,2) todo show ?thesis unfolding mirrors_def wp wb recorded_def by simp
qed

lemma mirrors_known:
  assumes f: "keys_follow trk xs ys synced ids known_ids" and synced: "set synced' = set synced"
    and todo: "ticket_todo trk ys (st_key tk) = Some t'"
    and kn: "set (td_blocked_by u) \<subseteq> known_ids" "\<And>i. td_parent u = Some i \<Longrightarrow> i \<in> known_ids"
  defines "have_keys \<equiv> List.map_filter (key_of_id trk xs) (td_blocked_by u)" and "want \<equiv> wanted_blockers synced tk"
    and "moves \<equiv> moves_parent (map_option (key_of_id trk xs) (td_parent u)) (wanted_parent synced tk)"
  assumes t': "td_description t' = todo_text trk (st_key tk) (st_title tk)" "recorded t' = Some (status_name (st_status tk))"
      "td_parent t' = (if moves then (case wanted_parent synced tk of Some p \<Rightarrow> ids p | None \<Rightarrow> None) else td_parent u)"
      "set (td_blocked_by t') = (set (td_blocked_by u) \<union> ids_for ids (key_diff want have_keys)) - ids_for ids (key_diff have_keys want)"
  shows "mirrors trk ys synced' tk"
proof -
  have wp: "wanted_parent synced' tk = wanted_parent synced tk" and wb: "wanted_blockers synced' tk = want"
    by (cases "st_parent tk"; simp add: wanted_parent_def wanted_blockers_def synced want_def)+
  have key: "\<exists>i. ids k = Some i \<and> key_of_id trk ys i = Some k" if "k \<in> set synced" for k
    using f that by (simp add: keys_follow_def)
  have old: "ids k = Some i" if "key_of_id trk xs i = Some k" for k i using f that by (simp add: keys_follow_def)
  have kept: "key_of_id trk ys i = key_of_id trk xs i" if "i \<in> known_ids" for i using f that by (simp add: keys_follow_def)
  have want: "k \<in> set synced" if "wanted_parent synced tk = Some k \<or> k \<in> set want" for k
    using that by (auto simp: want_def wanted_parent_def wanted_blockers_def split: option.splits if_splits)
  have par: "case td_parent t' of None \<Rightarrow> wanted_parent synced tk = None
      | Some i \<Rightarrow> (case key_of_id trk ys i of None \<Rightarrow> True | Some k \<Rightarrow> wanted_parent synced tk = Some k)"
  proof (cases moves)
    case True
    show ?thesis
    proof (cases "wanted_parent synced tk")
      case (Some p)
      with key [OF want, of p] t'(3) True show ?thesis by auto
    qed (simp add: t'(3) True)
  next
    case False
    then have p: "td_parent t' = td_parent u" by (simp add: t'(3))
    show ?thesis
    proof (cases "td_parent u")
      case None
      with False p show ?thesis by (simp add: moves_def moves_parent_def split: option.splits)
    next
      case (Some i)
      with False kept [OF kn(2) [OF Some]] p show ?thesis
        by (simp add: moves_def moves_parent_def split: option.splits)
    qed
  qed
  have mem: "k \<in> set have_keys \<longleftrightarrow> (\<exists>i\<in>set (td_blocked_by u). key_of_id trk xs i = Some k)" for k
    by (simp add: have_keys_def in_map_filter)
  have diff: "set (key_diff a b) = set a - set b" for a b by (auto simp: key_diff_def)
  have "set (List.map_filter (key_of_id trk ys) (td_blocked_by t')) = set want" (is "?l = ?r")
  proof
    show "?l \<subseteq> ?r"
    proof
      fix k assume "k \<in> ?l"
      then obtain i where i: "i \<in> set (td_blocked_by t')" "key_of_id trk ys i = Some k" by (auto simp: in_map_filter)
      from i(1) t'(4) consider (b) "i \<in> set (td_blocked_by u)" "i \<notin> ids_for ids (key_diff have_keys want)"
        | (n) b where "b \<in> set want" "ids b = Some i" by (auto simp: ids_for_def diff)
      then show "k \<in> ?r"
      proof cases
        case b
        have "key_of_id trk xs i = Some k" using i(2) kept kn(1) b(1) by auto
        with b(1) old [OF this] have "k \<in> set have_keys" "ids k = Some i" by (auto simp: mem)
        with b(2) show ?thesis by (auto simp: ids_for_def diff)
      next
        case n
        with key [OF want, of b] i(2) show ?thesis by auto
      qed
    qed
    show "?r \<subseteq> ?l"
    proof
      fix k assume k: "k \<in> ?r"
      with key [OF want, of k] obtain i where i: "ids k = Some i" "key_of_id trk ys i = Some k" by blast
      have "i \<notin> ids_for ids (key_diff have_keys want)"
      proof
        assume "i \<in> ids_for ids (key_diff have_keys want)"
        then obtain l where l: "l \<in> set have_keys" "l \<notin> set want" "ids l = Some i" by (auto simp: ids_for_def diff)
        then obtain j where j: "j \<in> set (td_blocked_by u)" "key_of_id trk xs j = Some l" by (auto simp: mem)
        with old [OF j(2)] l(3) have "j = i" by simp
        with j kept [of j] kn(1) i(2) have "l = k" by auto
        with l(2) k show False by simp
      qed
      moreover have "i \<in> set (td_blocked_by u) \<union> ids_for ids (key_diff want have_keys)"
      proof (cases "k \<in> set have_keys")
        case True
        then obtain j where j: "j \<in> set (td_blocked_by u)" "key_of_id trk xs j = Some k" by (auto simp: mem)
        with old [OF j(2)] i(1) show ?thesis by simp
      next
        case False
        with k i(1) show ?thesis by (auto simp: ids_for_def diff)
      qed
      ultimately have "i \<in> set (td_blocked_by t')" by (simp add: t'(4))
      with i(2) show "k \<in> ?l" by (auto simp: in_map_filter)
    qed
  qed
  with par t'(1,2) todo show ?thesis unfolding mirrors_def wp wb recorded_def by simp
qed

context todo_rows
begin

lemma listed_unique:
  assumes g: "good n s" "op_list ops node s = (Inr xs, s')" and tv: "t \<in> set xs" "v \<in> set xs"
    and k: "is_ticket trk k t" "is_ticket trk k v"
  shows "t = v"
proof -
  note t = listed_ids(2) [OF g tv(1)] and v = listed_ids(2) [OF g tv(2)]
  have "holds_ticket (td_ticket t) v" using k by (auto simp: holds_ticket_def is_ticket_def same_ticket_def)
  with one_todo [OF g(1), of "td_id t" t "td_id v" v] t v have "norm (td_id t) = norm (td_id v)" by blast
  with t v show "t = v" by (metis option.inject)
qed

lemma land_adds_fresh:
  "land_adds ops as ids s = (Inr ids', s') \<Longrightarrow> good (n + length as) s \<Longrightarrow> \<forall>a\<in>set as. nt_order a = None \<Longrightarrow>
   distinct (map new_key as) \<Longrightarrow> \<forall>a\<in>set as. \<forall>u. holds_ticket (nt_ticket a) u = is_ticket trk (new_key a) u \<Longrightarrow>
   \<forall>a\<in>set as. \<forall>j u. row s j = Some u \<longrightarrow> \<not> is_ticket trk (new_key a) u \<Longrightarrow>
   (\<forall>a\<in>set as. \<exists>i t. ids' (new_key a) = Some i \<and> norm i = i \<and> row s i = None \<and> row s' i = Some t \<and> created a i t)
   \<and> (\<forall>j. row s' j = row s j \<or> row s j = None \<and> (\<exists>a\<in>set as. ids' (new_key a) = Some (norm j)))"
proof (induction "as" arbitrary: ids s)
  case Nil
  then show ?case by simp
next
  case (Cons a as)
  from Cons.prems(1) obtain tk where tk: "nt_ticket a = Some tk" by (auto split: option.splits)
  then have key: "new_key a = tk_key tk" by (simp add: new_key_def)
  from Cons.prems(1) tk obtain i s1 where add: "op_add ops a s = (Inr i, s1)"
    and rest: "land_adds ops as (ids(tk_key tk \<mapsto> i)) s1 = (Inr ids', s')"
    by (auto split: prod.splits sum.splits)
  have g: "good (Suc (n + length as)) s" "nt_order a = None" using Cons.prems(2,3) by simp_all
  have none: "\<not> holds_ticket (nt_ticket a) u" if "row s j = Some u" for j u
    using Cons.prems(5,6) that by (meson list.set_intros(1))
  from adding [OF g add] have g1: "good (n + length as) s1" by blast
  from adding [OF g add] none obtain t where t: "norm i = i" "row s i = None" "created a i t"
    "row s1 = (\<lambda>j. if norm j = i then Some t else row s j)" by blast
  have tick: "is_ticket trk (new_key a) t"
    using Cons.prems(5) t(3) tk by (metis created_def holds_is_ticket holds_ticket_def is_ticket_def list.set_intros(1) option.inject)
  have apart: "new_key b \<noteq> new_key a" if "b \<in> set as" for b
    using Cons.prems(4) imageI [OF that, of new_key] by auto
  have fresh1: "\<forall>b\<in>set as. \<forall>j u. row s1 j = Some u \<longrightarrow> \<not> is_ticket trk (new_key b) u"
  proof (intro ballI allI impI)
    fix b j u assume b: "b \<in> set as" "row s1 j = Some u"
    show "\<not> is_ticket trk (new_key b) u"
    proof (cases "norm j = i")
      case True
      with b t(4) have "u = t" by simp
      with tick apart [OF b(1)] show ?thesis using is_ticket_key by metis
    next
      case False
      with b t(4) have "row s j = Some u" by simp
      with Cons.prems(6) b(1) show ?thesis by auto
    qed
  qed
  have order: "\<forall>b\<in>set as. nt_order b = None" and dist: "distinct (map new_key as)"
    and hold: "\<forall>b\<in>set as. \<forall>u. holds_ticket (nt_ticket b) u = is_ticket trk (new_key b) u"
    using Cons.prems(3-5) by simp_all
  from Cons.IH [OF rest g1 order dist hold fresh1] have
    new: "\<And>b. b \<in> set as \<Longrightarrow> \<exists>i t. ids' (new_key b) = Some i \<and> norm i = i \<and> row s1 i = None \<and> row s' i = Some t \<and> created b i t"
    and only: "\<And>j. row s' j = row s1 j \<or> row s1 j = None \<and> (\<exists>a\<in>set as. ids' (new_key a) = Some (norm j))" by blast+
  from land_adds_rows [OF rest g1 order] have same: "ids' k = (ids(tk_key tk \<mapsto> i)) k" if "k \<notin> new_key ` set as" for k
    using that by blast
  have "new_key a \<notin> new_key ` set as" using apart by (metis imageE)
  then have ida: "ids' (new_key a) = Some i" using same key by simp
  have "\<exists>i t. ids' (new_key b) = Some i \<and> norm i = i \<and> row s i = None \<and> row s' i = Some t \<and> created b i t"
    if b: "b \<in> set (a # as)" for b
  proof (cases "b = a")
    case True
    have "row s1 i = Some t" using t(1,4) by simp
    with only [of i] have "row s' i = Some t" by auto
    with True ida t(1-3) show ?thesis by blast
  next
    case False
    with b have "b \<in> set as" by simp
    from new [OF this] obtain l u where l: "ids' (new_key b) = Some l" "norm l = l" "row s1 l = None" "row s' l = Some u" "created b l u"
      by blast
    from l(3) t(4) have "row s l = None" by (simp split: if_splits)
    with l show ?thesis by blast
  qed
  moreover have "row s' j = row s j \<or> row s j = None \<and> (\<exists>b\<in>set (a # as). ids' (new_key b) = Some (norm j))" for j
  proof (cases "norm j = i")
    case True
    with t(2) row_norm [of s j] have "row s j = None" by simp
    with True ida show ?thesis by auto
  next
    case False
    with t(4) only [of j] show ?thesis by auto
  qed
  ultimately show ?case by blast
qed

text \<open>The rows after a landing, against the rows before it and the ids it used.\<close>

lemma landing_rows:
  assumes g: "good (length (sp_adds p)) s" and p: "sync_plan lower trk node existing fetched known statuses = Inr p"
    and only_here: "\<forall>t\<in>set fetched. ticket_todo trk existing (st_key t) = None \<longrightarrow>
      (\<forall>j u. row s j = Some u \<longrightarrow> \<not> is_ticket trk (st_key t) u)"
    and d: "distinct (map st_key fetched)"
    and adds: "land_adds ops (sp_adds p) (map_option td_id \<circ> ticket_todo trk existing) s = (Inr ids, s1)"
  shows "good 0 s1" and "row s j = Some t \<Longrightarrow> row s1 j = Some t"
    and "ticket_todo trk existing k = Some u \<Longrightarrow> ids k = Some (td_id u)"
    and "tk \<in> set fetched \<Longrightarrow> ticket_todo trk existing (st_key tk) = None \<Longrightarrow>
      \<exists>i v. ids (st_key tk) = Some i \<and> norm i = i \<and> row s1 i = Some v \<and> td_id v = i \<and> td_project v = Some node
        \<and> is_ticket trk (st_key tk) v \<and> td_description v = todo_text trk (st_key tk) (st_title tk)
        \<and> recorded v = Some (status_name (st_status tk)) \<and> td_parent v = None \<and> td_blocked_by v = []"
    and "row s1 j = Some v \<Longrightarrow> row s j \<noteq> Some v \<Longrightarrow> \<exists>t\<in>set fetched. ids (st_key t) = Some (norm j) \<and> row s j = None"
    and "ids k = Some i \<Longrightarrow> ticket_todo trk existing k \<noteq> None \<or> k \<in> st_key ` set fetched"
proof -
  have order: "\<forall>a\<in>set (sp_adds p). nt_order a = None" using plan_add_shape(1) [OF p] by blast
  have hold: "\<forall>a\<in>set (sp_adds p). \<forall>u. holds_ticket (nt_ticket a) u = is_ticket trk (new_key a) u"
    using plan_add_shape(3) [OF p] by blast
  have from_ticket: "\<exists>t\<in>set fetched. new_key a = st_key t \<and> ticket_todo trk existing (st_key t) = None" if "a \<in> set (sp_adds p)" for a
    by (rule plan_adds [OF p that]) (auto simp: new_key_def)
  have adds_eq: "sp_adds p = concat (map (fst \<circ> plan_one trk node existing (synced_keys trk existing fetched) statuses) fetched)"
    using p by (auto simp: sync_plan_cases Let_def split: if_splits)
  have keys: "map new_key (concat (map (fst \<circ> plan_one trk node existing synced statuses) ts))
      = filter (\<lambda>k. ticket_todo trk existing k = None) (map st_key ts)" for synced ts
    by (induction ts) (auto simp: plan_one_def plan_new_def plan_known_def Let_def new_key_def split: option.split)
  have dist: "distinct (map new_key (sp_adds p))" unfolding adds_eq keys using d by simp
  have fresh: "\<forall>a\<in>set (sp_adds p). \<forall>j u. row s j = Some u \<longrightarrow> \<not> is_ticket trk (new_key a) u"
    using from_ticket only_here by metis
  have g0: "good (0 + length (sp_adds p)) s" using g by simp
  note A = land_adds_rows [OF adds g0 order] and B = land_adds_fresh [OF adds g0 order dist hold fresh]
  show "good 0 s1" using A by blast
  show "row s1 j = Some t" if "row s j = Some t" for j t using A that by blast
  have not_new: "ids k = (map_option td_id \<circ> ticket_todo trk existing) k" if "k \<notin> new_key ` set (sp_adds p)" for k
    using A that by blast
  show "ids k = Some (td_id u)" if u: "ticket_todo trk existing k = Some u" for k u
  proof -
    have "k \<notin> new_key ` set (sp_adds p)" using u plan_add_shape(2) [OF p] by auto
    with not_new u show ?thesis by simp
  qed
  show "\<exists>i v. ids (st_key t) = Some i \<and> norm i = i \<and> row s1 i = Some v \<and> td_id v = i \<and> td_project v = Some node
        \<and> is_ticket trk (st_key t) v \<and> td_description v = todo_text trk (st_key t) (st_title t)
        \<and> recorded v = Some (status_name (st_status t)) \<and> td_parent v = None \<and> td_blocked_by v = []"
    if t: "t \<in> set fetched" "ticket_todo trk existing (st_key t) = None" for t :: SyncedTicket
  proof -
    let ?a = "\<lparr>nt_project = Some node, nt_description = todo_text trk (st_key t) (st_title t), nt_parent = None, nt_order = None,
        nt_ticket = Some \<lparr>tk_tracker = trk, tk_key = st_key t, tk_synced_status = Some (status_name (st_status t))\<rparr>\<rparr>"
    have "?a \<in> set (sp_adds p)" unfolding adds_eq using t by (auto simp: plan_one_def plan_new_def intro!: bexI [of _ t])
    with B obtain i v where v: "ids (new_key ?a) = Some i" "norm i = i" "row s1 i = Some v" "created ?a i v" by blast
    have "is_ticket trk (st_key t) v" "recorded v = Some (status_name (st_status t))"
      using v(4) by (simp_all add: created_def is_ticket_def recorded_def)
    with v show ?thesis by (simp add: created_def new_key_def todo_text_def)
  qed
  show "\<exists>t\<in>set fetched. ids (st_key t) = Some (norm j) \<and> row s j = None"
    if "row s1 j = Some v" "row s j \<noteq> Some v" for j v
  proof -
    from B that obtain a where a: "a \<in> set (sp_adds p)" "ids (new_key a) = Some (norm j)" "row s j = None" by metis
    from from_ticket [OF a(1)] a(2,3) show ?thesis by auto
  qed
  show "ticket_todo trk existing k \<noteq> None \<or> k \<in> st_key ` set fetched" if "ids k = Some i" for k i
  proof (cases "k \<in> new_key ` set (sp_adds p)")
    case True
    then show ?thesis using from_ticket by auto
  next
    case False
    with that not_new show ?thesis by auto
  qed
qed

lemma listed_iff:
  assumes "good n s" and "op_list ops node s = (Inr xs, s')"
  shows "t \<in> set xs \<longleftrightarrow> row s (td_id t) = Some t \<and> node_of t = node" and "good n s'" and "row s' = row s"
  using listing [OF assms] by blast+

lemma listed_one_each:
  assumes "good n s" and "op_list ops node s = (Inr xs, s')"
  shows "one_each trk xs"
  unfolding one_each_def using listed_ids(1) [OF assms] listed_unique [OF assms] by blast

lemma kin_facts:
  assumes "kin t t'"
  shows "td_id t' = td_id t" and "node_of t' = node_of t" and "is_ticket trk k t' = is_ticket trk k t"
  using assms by (auto simp: kin_def ticket_kept_def same_ticket_def is_ticket_def node_of_def split: option.splits)

text \<open>The todos the next listing has, and where each came from.\<close>

lemma listed_after:
  assumes edits: "land_edits ops planned_on ids ps s2 = (Inr (), s3)" and g: "good n s2"
    and l3: "op_list ops node s3 = (Inr ys, s4)"
  shows "one_each trk ys" and "good n s3"
    and "row s2 i = Some t \<Longrightarrow> node_of t = node \<Longrightarrow> td_id t = i \<Longrightarrow> \<exists>t'\<in>set ys. row s3 i = Some t' \<and> kin t t'"
    and "t' \<in> set ys \<Longrightarrow> \<exists>t. row s2 (td_id t') = Some t \<and> kin t t' \<and> node_of t = node"
proof -
  from land_edits_kin [OF edits g] have g3: "good n s3" and kin3: "rel_option kin (row s2 j) (row s3 j)" for j by blast+
  note ex3 = listed_iff [OF g3 l3]
  show "good n s3" by (rule g3)
  show "one_each trk ys" by (rule listed_one_each [OF g3 l3])
  show "\<exists>t'\<in>set ys. row s3 i = Some t' \<and> kin t t'" if t: "row s2 i = Some t" "node_of t = node" "td_id t = i" for i t
  proof -
    from kin3 [of i] t(1) obtain t' where t': "row s3 i = Some t'" "kin t t'" by (cases "row s3 i") auto
    with kin_facts [OF t'(2)] t ex3(1) [of t'] show ?thesis by auto
  qed
  show "\<exists>t. row s2 (td_id t') = Some t \<and> kin t t' \<and> node_of t = node" if "t' \<in> set ys" for t'
  proof -
    from that ex3(1) have t': "row s3 (td_id t') = Some t'" "node_of t' = node" by blast+
    from kin3 [of "td_id t'"] t'(1) obtain t where t: "row s2 (td_id t') = Some t" "kin t t'"
      by (cases "row s2 (td_id t')") auto
    with kin_facts(2) [OF t(2)] t'(2) show ?thesis by auto
  qed
qed

lemma no_stray_ticket:
  assumes g: "good n s0" and l0: "op_list ops node s0 = (Inr xs, s1)"
    and only_here: "\<forall>t\<in>set fetched. \<forall>j u. row s0 j = Some u \<longrightarrow> is_ticket trk (st_key t) u \<longrightarrow> node_of u = node"
  shows "\<forall>t\<in>set fetched. ticket_todo trk xs (st_key t) = None \<longrightarrow> (\<forall>j u. row s1 j = Some u \<longrightarrow> \<not> is_ticket trk (st_key t) u)"
proof (intro ballI impI allI notI)
  fix t j u assume a: "t \<in> set fetched" "ticket_todo trk xs (st_key t) = None" "row s1 j = Some u" "is_ticket trk (st_key t) u"
  note ex = listed_iff [OF g l0]
  from a have u: "row s0 j = Some u" by (simp add: ex(3))
  with a only_here have "node_of u = node" by blast
  moreover have "row s0 (td_id u) = Some u" using row_id [OF g u] u by (simp add: row_norm)
  ultimately have "u \<in> set xs" using ex(1) by blast
  with a(2,4) show False by (simp add: ticket_todo_None)
qed

text \<open>A landing, from the listing the plan was made from to the listing after it.\<close>

lemma landing_ids:
  assumes g: "good (length (sp_adds p)) s0" and l0: "op_list ops node s0 = (Inr xs, s1)"
    and p: "sync_plan lower trk node xs fetched known statuses = Inr p"
    and adds: "land_adds ops (sp_adds p) (map_option td_id \<circ> ticket_todo trk xs) s1 = (Inr ids, s2)"
    and d: "distinct (map st_key fetched)"
    and only_here: "\<forall>t\<in>set fetched. \<forall>j u. row s0 j = Some u \<longrightarrow> is_ticket trk (st_key t) u \<longrightarrow> node_of u = node"
    and k: "ids k = Some i"
  shows "\<exists>t. row s2 i = Some t \<and> is_ticket trk k t \<and> node_of t = node \<and> td_id t = i"
proof -
  note ex = listed_iff [OF g l0] and look = lookup_unique [OF listed_one_each [OF g l0]]
  note L = landing_rows [OF ex(2) p no_stray_ticket [OF g l0 only_here] d adds]
  show ?thesis
  proof (cases "ticket_todo trk xs k")
    case (Some u)
    with look(1) have u: "u \<in> set xs" "is_ticket trk k u" by blast+
    with ex(1) have "row s0 (td_id u) = Some u" "node_of u = node" by blast+
    moreover from L(3) [OF Some] k have "i = td_id u" by simp
    ultimately show ?thesis using L(2) [of i u] u(2) by (simp add: ex(3))
  next
    case None
    with L(6) [OF k] obtain t where "t \<in> set fetched" "k = st_key t" by blast
    with L(4) [of t] None k show ?thesis by (auto simp: node_of_def)
  qed
qed

lemma landing_follows:
  assumes g: "good (length (sp_adds p)) s0" and l0: "op_list ops node s0 = (Inr xs, s1)"
    and p: "sync_plan lower trk node xs fetched known statuses = Inr p"
    and adds: "land_adds ops (sp_adds p) (map_option td_id \<circ> ticket_todo trk xs) s1 = (Inr ids, s2)"
    and edits: "land_edits ops (ticket_todo trk xs) ids (sp_edits p) s2 = (Inr (), s3)"
    and l3: "op_list ops node s3 = (Inr ys, s4)"
    and d: "distinct (map st_key fetched)"
    and only_here: "\<forall>t\<in>set fetched. \<forall>j u. row s0 j = Some u \<longrightarrow> is_ticket trk (st_key t) u \<longrightarrow> node_of u = node"
  shows "follows trk xs ys (synced_keys trk xs fetched) ids {i. row s0 i \<noteq> None}"
proof -
  note ex = listed_iff [OF g l0] and one = listed_one_each [OF g l0]
  note L = landing_rows [OF ex(2) p no_stray_ticket [OF g l0 only_here] d adds]
  note at2 = landing_ids [OF g l0 p adds d only_here] and after = listed_after [OF edits L(1) l3]
  have has: "ids k \<noteq> None" if "k \<in> set (synced_keys trk xs fetched)" for k
  proof (cases "ticket_todo trk xs k")
    case (Some u)
    with L(3) show ?thesis by blast
  next
    case None
    with that have "k \<in> st_key ` set fetched" by (auto simp: in_synced_keys ticket_todo_None)
    with L(4) None show ?thesis by blast
  qed
  have at: "\<exists>t\<in>set ys. td_id t = i \<and> is_ticket trk k t" if "ids k = Some i" for k i
  proof -
    from at2 [OF that] obtain t where t: "row s2 i = Some t" "is_ticket trk k t" "node_of t = node" "td_id t = i" by blast
    from after(3) [OF t(1,3,4)] obtain t' where "t' \<in> set ys" "kin t t'" by blast
    with t(2,4) kin_facts [of t t'] show ?thesis by auto
  qed
  have same: "\<exists>u\<in>set xs. td_id u = td_id t' \<and> (\<forall>k. is_ticket trk k t' \<longrightarrow> is_ticket trk k u)"
    if t': "t' \<in> set ys" "row s0 (td_id t') \<noteq> None" for t'
  proof -
    from t'(2) obtain u where u: "row s0 (td_id t') = Some u" by blast
    then have "row s2 (td_id t') = Some u" using L(2) by (simp add: ex(3))
    with after(4) [OF t'(1)] have k: "kin u t'" "node_of u = node" by auto
    then have "td_id u = td_id t'" using kin_facts(1) by simp
    with u k ex(1) have "u \<in> set xs" by simp
    with kin_facts [OF k(1)] show ?thesis by (intro bexI [of _ u]) auto
  qed
  show ?thesis unfolding follows_def mem_Collect_eq using one after(1) L(3) has at same by blast
qed

lemma landing_synced:
  assumes g: "good (length (sp_adds p)) s0" and l0: "op_list ops node s0 = (Inr xs, s1)"
    and p: "sync_plan lower trk node xs fetched known statuses = Inr p"
    and adds: "land_adds ops (sp_adds p) (map_option td_id \<circ> ticket_todo trk xs) s1 = (Inr ids, s2)"
    and edits: "land_edits ops (ticket_todo trk xs) ids (sp_edits p) s2 = (Inr (), s3)"
    and l3: "op_list ops node s3 = (Inr ys, s4)"
    and d: "distinct (map st_key fetched)"
    and only_here: "\<forall>t\<in>set fetched. \<forall>j u. row s0 j = Some u \<longrightarrow> is_ticket trk (st_key t) u \<longrightarrow> node_of u = node"
  shows "set (synced_keys trk ys fetched) = set (synced_keys trk xs fetched)"
proof -
  note ex = listed_iff [OF g l0]
  note L = landing_rows [OF ex(2) p no_stray_ticket [OF g l0 only_here] d adds]
  note at2 = landing_ids [OF g l0 p adds d only_here] and after = listed_after [OF edits L(1) l3]
  note f = landing_follows [OF g l0 p adds edits l3 d only_here]
  have "k \<in> set (synced_keys trk xs fetched)" if k: "t' \<in> set ys" "is_ticket trk k t'" for k t'
  proof -
    from after(4) [OF k(1)] obtain v where v: "row s2 (td_id t') = Some v" "kin v t'" "node_of v = node" by blast
    note kf = kin_facts(1) [OF v(2)] kin_facts(3) [OF v(2), of trk k]
    show ?thesis
    proof (cases "row s0 (td_id t') = Some v")
      case True
      with v(3) kf(1) ex(1) [of v] have "v \<in> set xs" by simp
      with k(2) kf(2) show ?thesis unfolding in_synced_keys by blast
    next
      case False
      with L(5) [OF v(1)] obtain t where t: "t \<in> set fetched" "ids (st_key t) = Some (norm (td_id t'))"
        by (auto simp: ex(3))
      from at2 [OF t(2)] v(1) have "is_ticket trk (st_key t) v" by (simp add: row_norm)
      then have "k = st_key t" using k(2) kf(2) by (simp add: is_ticket_key)
      with t(1) show ?thesis by (simp add: in_synced_keys)
    qed
  qed
  moreover have "k \<in> set (synced_keys trk ys fetched)" if "k \<in> set (synced_keys trk xs fetched)" for k
  proof -
    from f that obtain i where "ids k = Some i" unfolding follows_def by blast
    with f obtain t where "t \<in> set ys" "is_ticket trk k t" unfolding follows_def by blast
    then show ?thesis unfolding in_synced_keys by blast
  qed
  ultimately show ?thesis unfolding set_eq_iff in_synced_keys by blast
qed

text \<open>One ticket's todo in the next listing, by its own edits.\<close>

lemma ticket_landed:
  assumes g: "good (length (sp_adds p)) s0" and l0: "op_list ops node s0 = (Inr xs, s1)"
    and p: "sync_plan lower trk node xs fetched known statuses = Inr p"
    and adds: "land_adds ops (sp_adds p) (map_option td_id \<circ> ticket_todo trk xs) s1 = (Inr ids, s2)"
    and edits: "land_edits ops (ticket_todo trk xs) ids (sp_edits p) s2 = (Inr (), s3)"
    and l3: "op_list ops node s3 = (Inr ys, s4)"
    and d: "distinct (map st_key fetched)"
    and only_here: "\<forall>t\<in>set fetched. \<forall>j u. row s0 j = Some u \<longrightarrow> is_ticket trk (st_key t) u \<longrightarrow> node_of u = node"
    and k: "ids (st_key tk) = Some i" and t: "row s2 i = Some t" and seen: "\<forall>u. ticket_todo trk xs (st_key tk) = Some u \<longrightarrow> td_id u = i"
    and tk: "tk \<in> set fetched"
  defines "one \<equiv> plan_one trk node xs (synced_keys trk xs fetched) statuses tk"
  shows "\<exists>t'. ticket_todo trk ys (st_key tk) = Some t'
    \<and> landed (ticket_todo trk xs (st_key tk)) ids (fst (snd one) @ snd (snd one)) t t'"
proof -
  note L = landing_rows [OF listed_iff(2) [OF g l0] p no_stray_ticket [OF g l0 only_here] d adds]
  note at2 = landing_ids [OF g l0 p adds d only_here] and after = listed_after [OF edits L(1) l3]
  from at2 [OF k] t have t2: "is_ticket trk (st_key tk) t" "node_of t = node" "td_id t = i" by auto
  have "k' = st_key tk" if k': "ids k' = Some i'" "norm i' = norm i" for k' i'
  proof -
    have "row s2 i' = Some t" using row_norm_cong [OF k'(2)] t by simp
    with at2 [OF k'(1)] t2(1) show ?thesis by (auto dest: is_ticket_key)
  qed
  then have inj: "\<forall>k' i'. ids k' = Some i' \<longrightarrow> norm i' = norm i \<longrightarrow> k' = st_key tk" by blast
  have "\<forall>u. ticket_todo trk xs (st_key tk) = Some u \<longrightarrow> norm (td_id u) = norm i" using seen by simp
  from lands_by_key [OF edits L(1) k t inj this] obtain t' where t': "row s3 i = Some t'"
    "landed (ticket_todo trk xs (st_key tk)) ids (fst (snd one) @ snd (snd one)) t t'"
    unfolding plan_edits_of [OF p d tk] one_def by blast
  from after(3) [OF t t2(2,3)] t'(1) have "t' \<in> set ys" "kin t t'" by auto
  then have "ticket_todo trk ys (st_key tk) = Some t'"
    unfolding lookup_unique(1) [OF after(1)] using kin_facts(3) [of t t' trk "st_key tk"] t2(1) by simp
  with t'(2) show ?thesis by blast
qed

lemma new_ticket_mirrored:
  assumes g: "good (length (sp_adds p)) s0" and l0: "op_list ops node s0 = (Inr xs, s1)"
    and p: "sync_plan lower trk node xs fetched known statuses = Inr p"
    and adds: "land_adds ops (sp_adds p) (map_option td_id \<circ> ticket_todo trk xs) s1 = (Inr ids, s2)"
    and edits: "land_edits ops (ticket_todo trk xs) ids (sp_edits p) s2 = (Inr (), s3)"
    and l3: "op_list ops node s3 = (Inr ys, s4)"
    and d: "distinct (map st_key fetched)"
    and only_here: "\<forall>t\<in>set fetched. \<forall>j u. row s0 j = Some u \<longrightarrow> is_ticket trk (st_key t) u \<longrightarrow> node_of u = node"
    and tk: "tk \<in> set fetched" and none: "ticket_todo trk xs (st_key tk) = None"
  shows "mirrors trk ys (synced_keys trk ys fetched) tk"
proof -
  note L = landing_rows [OF listed_iff(2) [OF g l0] p no_stray_ticket [OF g l0 only_here] d adds]
  from L(4) [OF tk none] obtain i v where i: "ids (st_key tk) = Some i" "row s2 i = Some v"
    and v: "td_description v = todo_text trk (st_key tk) (st_title tk)" "recorded v = Some (status_name (st_status tk))"
      "td_parent v = None" "td_blocked_by v = []" by blast
  obtain t' where t': "ticket_todo trk ys (st_key tk) = Some t'"
    and land: "landed (ticket_todo trk xs (st_key tk)) ids
        (fst (snd (plan_one trk node xs (synced_keys trk xs fetched) statuses tk))
          @ snd (snd (plan_one trk node xs (synced_keys trk xs fetched) statuses tk))) v t'"
    using ticket_landed [OF g l0 p adds edits l3 d only_here i _ tk] none by auto
  have one: "plan_one trk node xs (synced_keys trk xs fetched) statuses tk
      = plan_new trk node (synced_keys trk xs fetched) (the (target_kind (st_status tk) statuses)) tk"
    by (simp add: plan_one_def none)
  note N = landed_new [OF land [unfolded one none] v(3,4)]
  have r: "recorded t' = Some (status_name (st_status tk))" using N v(2) by (simp add: recorded_def)
  show ?thesis
    by (rule mirrors_new [OF follows_keys [OF landing_follows [OF g l0 p adds edits l3 d only_here]]
          landing_synced [OF g l0 p adds edits l3 d only_here] t' _ r]) (use N v(1) in simp_all)
qed

lemma known_ticket_mirrored:
  assumes g: "good (length (sp_adds p)) s0" and l0: "op_list ops node s0 = (Inr xs, s1)"
    and p: "sync_plan lower trk node xs fetched known statuses = Inr p"
    and adds: "land_adds ops (sp_adds p) (map_option td_id \<circ> ticket_todo trk xs) s1 = (Inr ids, s2)"
    and edits: "land_edits ops (ticket_todo trk xs) ids (sp_edits p) s2 = (Inr (), s3)"
    and l3: "op_list ops node s3 = (Inr ys, s4)"
    and d: "distinct (map st_key fetched)"
    and only_here: "\<forall>t\<in>set fetched. \<forall>j u. row s0 j = Some u \<longrightarrow> is_ticket trk (st_key t) u \<longrightarrow> node_of u = node"
    and no_dangling: "\<forall>u\<in>set xs. td_ticket u \<noteq> None \<longrightarrow> (\<forall>i\<in>set (td_blocked_by u) \<union> set_option (td_parent u). row s0 i \<noteq> None)"
    and tk: "tk \<in> set fetched" and u: "ticket_todo trk xs (st_key tk) = Some u"
  shows "mirrors trk ys (synced_keys trk ys fetched) tk"
proof -
  note ex = listed_iff [OF g l0]
  note L = landing_rows [OF ex(2) p no_stray_ticket [OF g l0 only_here] d adds]
  from u have u_in: "u \<in> set xs" "is_ticket trk (st_key tk) u" by (auto dest: ticket_todo_Some)
  then have tick: "td_ticket u \<noteq> None" by (auto simp: is_ticket_def)
  have i: "ids (st_key tk) = Some (td_id u)" "row s2 (td_id u) = Some u"
    using L(3) [OF u] L(2) [of "td_id u" u] ex(1) [of u] u_in(1) by (simp_all add: ex(3))
  obtain t' where t': "ticket_todo trk ys (st_key tk) = Some t'"
    and land: "landed (ticket_todo trk xs (st_key tk)) ids
        (fst (snd (plan_one trk node xs (synced_keys trk xs fetched) statuses tk))
          @ snd (snd (plan_one trk node xs (synced_keys trk xs fetched) statuses tk))) u t'"
    using ticket_landed [OF g l0 p adds edits l3 d only_here i _ tk] u by auto
  have one: "plan_one trk node xs (synced_keys trk xs fetched) statuses tk
      = plan_known trk (key_of_id trk xs) (synced_keys trk xs fetched) (the (target_kind (st_status tk) statuses)) tk u"
    by (simp add: plan_one_def u)
  note K = landed_known [OF land [unfolded one u] tick]
  have known: "set (td_blocked_by u) \<subseteq> {i. row s0 i \<noteq> None}" "\<And>i. td_parent u = Some i \<Longrightarrow> i \<in> {i. row s0 i \<noteq> None}"
    using bspec [OF no_dangling u_in(1)] tick by auto
  show ?thesis
    by (rule mirrors_known [OF follows_keys [OF landing_follows [OF g l0 p adds edits l3 d only_here]]
          landing_synced [OF g l0 p adds edits l3 d only_here] t' known]) (use K in simp_all)
qed

text \<open>A plan made, landed, and made again.\<close>

lemma settles:
  assumes g: "good (length (sp_adds p)) s0" and l0: "op_list ops node s0 = (Inr xs, s1)"
    and p: "sync_plan lower trk node xs fetched known statuses = Inr p"
    and land: "apply_plan ops trk xs p s1 = (Inr rep, s3)" and l3: "op_list ops node s3 = (Inr ys, s4)"
    and d: "distinct (map st_key fetched)"
    and only_here: "\<forall>t\<in>set fetched. \<forall>j u. row s0 j = Some u \<longrightarrow> is_ticket trk (st_key t) u \<longrightarrow> node_of u = node"
    and no_dangling: "\<forall>u\<in>set xs. td_ticket u \<noteq> None \<longrightarrow> (\<forall>i\<in>set (td_blocked_by u) \<union> set_option (td_parent u). row s0 i \<noteq> None)"
  shows "\<exists>q. sync_plan lower trk node ys fetched known statuses = Inr q \<and> plan_is_empty q"
proof -
  from land obtain ids s2 where adds: "land_adds ops (sp_adds p) (map_option td_id \<circ> ticket_todo trk xs) s1 = (Inr ids, s2)"
    and edits: "land_edits ops (ticket_todo trk xs) ids (sp_edits p) s2 = (Inr (), s3)"
    by (auto simp: apply_plan_def apply_sync_def split: prod.splits sum.splits)
  have "mirrors trk ys (synced_keys trk ys fetched) t" if t: "t \<in> set fetched" for t
  proof (cases "ticket_todo trk xs (st_key t)")
    case None
    then show ?thesis by (rule new_ticket_mirrored [OF g l0 p adds edits l3 d only_here t])
  next
    case (Some u)
    then show ?thesis by (rule known_ticket_mirrored [OF g l0 p adds edits l3 d only_here no_dangling t])
  qed
  then show ?thesis using mirrored_plans_nothing [OF p] by blast
qed

end

end
