(* ===== verification/Ticket_Builtin.thy ===== *)
theory Ticket_Builtin
  imports Ticket_Settle
begin

text \<open>
  The ticket sync over the built-in store: its file gives the interface \<open>todo_rows\<close> a sync relies on.
\<close>

section \<open>The built-in store as a sync sees it\<close>

definition builtin_ops :: "io \<Rightarrow> int \<Rightarrow> string \<Rightarrow> (doc_fs, todo_fault store_error) todo_ops" where
  "builtin_ops io at stamp =
     \<lparr>op_list = (\<lambda>node. store_list io (\<lambda>(_ :: string) _. None) [Exact node]), op_get = store_get io,
      op_add = store_add io stamp, op_apply = store_apply io at stamp\<rparr>"

definition spelled :: "string \<Rightarrow> string" where
  "spelled i = (case parse_uint i of Some (k :: u64) \<Rightarrow> show_uint k | None \<Rightarrow> i)"

definition doc_row :: "TodoDoc \<Rightarrow> string \<Rightarrow> Todo option" where
  "doc_row d i = Option.bind (parse_uint i) (bt_get (bd_todos d))"

definition file_row :: "doc_fs \<Rightarrow> string \<Rightarrow> Todo option" where
  "file_row fs i = (case todo_file fs of Inr d \<Rightarrow> doc_row d i | Inl _ \<Rightarrow> None)"

definition file_room :: "nat \<Rightarrow> doc_fs \<Rightarrow> bool" where
  "file_room n fs = (case todo_file fs of
     Inr d \<Rightarrow> builtin_ok d \<and> unat (fresh_key d) + n < 2 ^ 64 - 1 | Inl _ \<Rightarrow> False)"

lemma file_roomE:
  assumes "file_room n fs"
  obtains d where "todo_file fs = Inr d" "builtin_ok d" "unat (fresh_key d) + n < 2 ^ 64 - 1"
  using assms by (auto simp: file_room_def split: sum.splits)

lemma doc_row_Some: "doc_row d i = Some t \<longleftrightarrow> (\<exists>k. parse_uint i = Some k \<and> bt_get (bd_todos d) k = Some t)"
  by (simp add: doc_row_def bind_eq_Some_conv)

lemma doc_row_at: "doc_row d i = Some t \<longleftrightarrow> (\<exists>k. todo_at d i = Inr (k, t))"
  by (simp add: doc_row_Some todo_at_Inr)

lemma doc_row_version [simp]: "doc_row (d\<lparr>bd_version := v\<rparr>) = doc_row d"
  by (simp add: doc_row_def fun_eq_iff)

lemma spelled_parse: "parse_uint i = Some (k :: u64) \<Longrightarrow> spelled i = show_uint k"
  by (simp add: spelled_def)

lemma spelled_show [simp]: "spelled (show_uint (k :: u64)) = show_uint k"
  by (simp add: spelled_def)

lemma spelled_spelled: "spelled (spelled i) = spelled i"
  by (cases "parse_uint i :: u64 option") (simp_all add: spelled_def)

lemma parse_spelled: "(parse_uint (spelled i) :: u64 option) = parse_uint i"
  by (cases "parse_uint i :: u64 option") (simp_all add: spelled_def)

lemma show_uint_inj: "show_uint (k :: u64) = show_uint j \<Longrightarrow> k = j"
  using parse_show_uint [of k] parse_show_uint [of j] by (metis option.inject)

lemma spelled_iff:
  "parse_uint i = Some (k :: u64) \<Longrightarrow> spelled j = spelled i \<longleftrightarrow> parse_uint j = Some k"
  by (metis parse_spelled spelled_parse)

lemma doc_row_put:
  assumes "parse_uint i = Some k"
  shows "doc_row (put k t d) = (\<lambda>j. if spelled j = spelled i then Some t else doc_row d j)"
proof
  fix j
  show "doc_row (put k t d) j = (if spelled j = spelled i then Some t else doc_row d j)"
  proof (cases "parse_uint j :: u64 option")
    case None
    with spelled_iff [OF assms, of j] show ?thesis by (simp add: doc_row_def)
  next
    case (Some l)
    with spelled_iff [OF assms, of j] show ?thesis by (simp add: doc_row_def)
  qed
qed

section \<open>The laws\<close>

lemma row_id_spelled:
  assumes "builtin_ok d" and "doc_row d i = Some t"
  shows "td_id t = spelled i"
proof -
  from assms(2) obtain k where k: "parse_uint i = Some k" "bt_get (bd_todos d) k = Some t" by (auto simp: doc_row_Some)
  from builtin_ok_row [OF assms(1) k(2)] spelled_parse [OF k(1)] show ?thesis by (simp add: row_ok_def)
qed

lemma one_todo_doc:
  assumes ok: "builtin_ok d" and t: "doc_row d i = Some t" and u: "doc_row d j = Some u"
    and h: "holds_ticket (td_ticket t) u"
  shows "spelled i = spelled j"
proof -
  from t u obtain k l where k: "parse_uint i = Some k" "bt_get (bd_todos d) k = Some t"
    and l: "parse_uint j = Some l" "bt_get (bd_todos d) l = Some u" by (auto simp: doc_row_Some)
  from h obtain a b where ab: "td_ticket t = Some a" "td_ticket u = Some b" "same_ticket b a"
    by (auto simp: holds_ticket_def split: option.splits)
  then have "ticket_at d k = Some (tk_tracker a, tk_key a)" "ticket_at d l = Some (tk_tracker a, tk_key a)"
    using k l by (simp_all add: ticket_at_def same_ticket_def)
  with ok have "k = l" unfolding builtin_ok_def by blast
  with spelled_parse [OF k(1)] spelled_parse [OF l(1)] show ?thesis by simp
qed

lemma values_rows:
  assumes "builtin_ok d"
  shows "distinct (map td_id (filter P (bt_values (bd_todos d))))"
    and "t \<in> set (bt_values (bd_todos d)) \<longleftrightarrow> doc_row d (td_id t) = Some t"
proof -
  have wf: "bt_wf (bd_todos d)" using assms by (simp add: builtin_ok_def)
  have ids: "td_id (snd row) = show_uint (fst row)" if "row \<in> set (bd_todos d)" for row
    using builtin_ok_row [OF assms bt_get_row [OF wf that]] by (simp add: row_ok_def)
  have "map td_id (bt_values (bd_todos d)) = map (show_uint \<circ> fst) (bd_todos d)"
    using ids by simp
  moreover have "distinct (map (show_uint \<circ> fst) (bd_todos d))"
    using bt_wf_distinct [OF wf] show_uint_inj by (auto simp: distinct_map inj_on_def comp_def)
  ultimately show "distinct (map td_id (filter P (bt_values (bd_todos d))))"
    by (metis distinct_map_filter)
  show "t \<in> set (bt_values (bd_todos d)) \<longleftrightarrow> doc_row d (td_id t) = Some t"
  proof
    assume "t \<in> set (bt_values (bd_todos d))"
    then obtain k where k: "(k, t) \<in> set (bd_todos d)" by auto
    with ids [of "(k, t)"] bt_get_row [OF wf k] show "doc_row d (td_id t) = Some t" by (simp add: doc_row_def)
  next
    assume "doc_row d (td_id t) = Some t"
    then show "t \<in> set (bt_values (bd_todos d))" by (force simp: doc_row_Some dest: bt_get_in_set)
  qed
qed

text \<open>A read leaves the todos; an add or an edit makes one change to them.\<close>

lemma file_read:
  fixes f :: "TodoDoc \<Rightarrow> 'a"
  assumes "with_lock_strict todo_document io (\<lambda>d. Inr (f d, d) :: todo_fault + 'a \<times> TodoDoc) fs = (r, fs')" and "file_room n fs"
  shows "file_room n fs' \<and> file_row fs' = file_row fs \<and> (\<forall>x. r = Inr x \<longrightarrow> (\<exists>d. todo_file fs = Inr d \<and> x = f d))"
  using file_after [OF assms(1)] assms(2)
  by (auto simp: file_room_def file_row_def fun_eq_iff fresh_key_def split: sum.splits)

lemma file_listing:
  assumes room: "file_room n fs" and l: "op_list (builtin_ops io at stamp) node fs = (r, fs')"
  shows "file_room n fs' \<and> file_row fs' = file_row fs \<and> (\<forall>xs. r = Inr xs \<longrightarrow>
    distinct (map td_id xs) \<and> (\<forall>t. t \<in> set xs \<longleftrightarrow> file_row fs (td_id t) = Some t \<and> node_of t = node))"
proof -
  have "with_lock_strict todo_document io (\<lambda>d. Inr (filter (\<lambda>t. node_matches (\<lambda>(_ :: string) _. None) [Exact node] (td_project t))
      (bt_values (bd_todos d)), d)) fs = (r, fs')"
    using l by (simp add: builtin_ops_def store_list_def)
  note rd = file_read [OF this room]
  have m: "node_matches (\<lambda>(_ :: string) _. None) [Exact node] (td_project t) \<longleftrightarrow> node_of t = node" for t
    by (simp add: node_matches_def node_of_def)
  have "distinct (map td_id xs) \<and> (\<forall>t. t \<in> set xs \<longleftrightarrow> file_row fs (td_id t) = Some t \<and> node_of t = node)"
    if r: "r = Inr xs" for xs
  proof -
    from rd r obtain d where d: "todo_file fs = Inr d" "xs = filter (\<lambda>t. node_of t = node) (bt_values (bd_todos d))"
      unfolding m by blast
    have "builtin_ok d" using room d(1) by (simp add: file_room_def)
    from values_rows [OF this] show ?thesis unfolding d(2) file_row_def d(1) by auto
  qed
  with rd show ?thesis by blast
qed

lemma file_getting:
  assumes room: "file_room n fs" and g: "op_get (builtin_ops io at stamp) i fs = (r, fs')"
  shows "file_room n fs' \<and> file_row fs' = file_row fs \<and> (\<forall>x. r = Inr x \<longrightarrow> x = file_row fs i)"
proof (cases "parse_uint i :: u64 option")
  case None
  with g room show ?thesis
    by (auto simp: builtin_ops_def store_get_def file_row_def doc_row_def split: sum.split)
next
  case (Some k)
  with g have "with_lock_strict todo_document io (\<lambda>d. Inr (bt_get (bd_todos d) k, d)) fs = (r, fs')"
    by (simp add: builtin_ops_def store_get_def)
  from file_read [OF this room] Some show ?thesis by (auto simp: file_row_def doc_row_def)
qed

lemma blockers_edited:
  assumes "set_blockers stamp d i by add = Inr d'"
  shows "\<exists>k t t'. todo_at d i = Inr (k, t) \<and> d' = put k t' d \<and> edited (if add then Block i by else Unblock i by) t t'"
proof -
  define after where "after t = remdups_adj (sort (if add then td_blocked_by t @ by
      else filter (\<lambda>b. b \<notin> set by) (td_blocked_by t)))" for t :: Todo
  from assms obtain key t where t: "todo_at d i = Inr (key, t)"
    "d' = put key (if after t \<noteq> td_blocked_by t then t\<lparr>td_blocked_by := after t, td_modified := Some stamp\<rparr>
       else t\<lparr>td_blocked_by := after t\<rparr>) d"
    by (auto simp: set_blockers_def after_def Let_def split: sum.splits)
  have "set (after t) = (if add then set (td_blocked_by t) \<union> set by else set (td_blocked_by t) - set by)"
    by (auto simp: after_def)
  moreover obtain u where u: "u = (if after t \<noteq> td_blocked_by t
      then t\<lparr>td_blocked_by := after t, td_modified := Some stamp\<rparr> else t\<lparr>td_blocked_by := after t\<rparr>)" by simp
  moreover have "td_blocked_by u = after t" by (simp add: u)
  ultimately have "edited (if add then Block i by else Unblock i by) t u"
    by (cases add) (simp_all add: edited_def u)
  with t show ?thesis unfolding u by blast
qed

lemma builtin_edited:
  assumes a: "builtin_apply at stamp e d = Inr (ch, d')" and e: "sync_edit e" "edits_todo e = Some i"
  shows "\<exists>k t t'. todo_at d i = Inr (k, t) \<and> d' = put k t' d \<and> edited e t t'"
proof (cases e)
  case (SetStatus j k actor)
  with a e obtain key t u new where "todo_at d i = Inr (key, t)" "d' = put key u d" "move_to at stamp t new = (ch, u)"
    by (auto simp: builtin_apply_def set_todo_status_def split: sum.splits prod.splits)
  with SetStatus show ?thesis
    by (intro exI [of _ key] exI [of _ t] exI [of _ u]) (auto simp: edited_def move_to_def split: option.splits)
next
  case (Describe j b)
  with a e show ?thesis
    by (auto simp: builtin_apply_def edit_todo_def edited_def split: sum.splits intro!: exI)
next
  case (Move j p q)
  with a e show ?thesis
    by (auto simp: builtin_apply_def move_todo_def edit_todo_def edited_def Let_def split: sum.splits intro!: exI)
next
  case (Block j b)
  with e have "j = i" by simp
  from a Block have "set_blockers stamp d j b True = Inr d'" by (auto simp: builtin_apply_def map_sum_Inr)
  from blockers_edited [OF this] Block \<open>j = i\<close> show ?thesis by simp
next
  case (Unblock j b)
  with e have "j = i" by simp
  from a Unblock have "set_blockers stamp d j b False = Inr d'" by (auto simp: builtin_apply_def map_sum_Inr)
  from blockers_edited [OF this] Unblock \<open>j = i\<close> show ?thesis by simp
next
  case (RecordSync j n)
  with a e obtain key t r where "todo_at d i = Inr (key, t)" "td_ticket t = Some r"
    "d' = put key (t\<lparr>td_ticket := Some (r\<lparr>tk_synced_status := Some n\<rparr>), td_modified := Some stamp\<rparr>) d"
    by (auto simp: builtin_apply_def split: sum.splits option.splits)
  moreover from this(2) RecordSync
  have "edited e t (t\<lparr>td_ticket := Some (r\<lparr>tk_synced_status := Some n\<rparr>), td_modified := Some stamp\<rparr>)"
    by (simp add: edited_def)
  ultimately show ?thesis by blast
qed (use e in simp_all)

lemma file_applying:
  assumes room: "file_room n fs" and e: "sync_edit e" "edits_todo e = Some i"
    and a: "op_apply (builtin_ops io at stamp) e fs = (r, fs')"
  shows "file_room n fs' \<and> (\<forall>ch. r = Inr ch \<longrightarrow>
      (\<exists>t t'. file_row fs i = Some t \<and> edited e t t'
         \<and> file_row fs' = (\<lambda>j. if spelled j = spelled i then Some t' else file_row fs j)))
    \<and> (\<forall>x. r = Inl x \<longrightarrow> file_row fs' = file_row fs)"
proof -
  have fits: "edit_fits e" using e(1) by (cases e) (simp_all add: order_fits_def)
  have w: "with_lock_strict todo_document io (builtin_apply at stamp e) fs = (r, fs')"
    using a by (simp add: builtin_ops_def store_apply_def)
  have "\<forall>d b d'. todo_doc_ok d \<longrightarrow> builtin_apply at stamp e d = Inr (b, d') \<longrightarrow> todo_doc_ok d'"
    using apply_doc_ok fits by blast
  from file_after [OF w this] consider (same) "fs' = fs" "\<exists>x. r = Inl x"
    | (moved) ch d d' where "r = Inr ch" "todo_file fs = Inr d" "builtin_apply at stamp e d = Inr (ch, d')"
        "todo_file fs' = Inr (d'\<lparr>bd_version := todo_doc_version\<rparr>)" by blast
  then show ?thesis
  proof cases
    case same
    with room show ?thesis by auto
  next
    case moved
    have ok: "builtin_ok d" "unat (fresh_key d) + n < 2 ^ 64 - 1" using room moved(2) by (simp_all add: file_room_def)
    from builtin_edited [OF moved(3) e] obtain k t t' where
      t: "todo_at d i = Inr (k, t)" "d' = put k t' d" "edited e t t'" by blast
    have s: "shrunk d d'" by (rule apply_shrunk [OF moved(3) fits]) (use ok in \<open>simp add: builtin_ok_def\<close>)
    have "fresh_key d' = fresh_key d" by (simp add: fresh_key_def t(2))
    with shrunk_ok [OF ok(1) s] ok(2) moved(4) have "file_room n fs'" by (simp add: file_room_def fresh_key_def)
    moreover have "file_row fs i = Some t" using t(1) moved(2) by (simp add: file_row_def doc_row_at)
    moreover have "file_row fs' = (\<lambda>j. if spelled j = spelled i then Some t' else file_row fs j)"
      using doc_row_put [of i k t' d] t(1) moved(2,4) by (simp add: file_row_def todo_at_Inr t(2) fun_eq_iff)
    ultimately show ?thesis using t(3) moved(1) by blast
  qed
qed

lemma file_adding:
  assumes room: "file_room (Suc n) fs" and fits: "order_fits (nt_order new)"
    and a: "op_add (builtin_ops io at stamp) new fs = (r, fs')"
  shows "file_room n fs' \<and> (\<forall>i. r = Inr i \<longrightarrow>
      (\<exists>t. file_row fs i = Some t \<and> file_row fs' = file_row fs \<and> holds_ticket (nt_ticket new) t)
      \<or> (\<exists>t. spelled i = i \<and> file_row fs i = None \<and> (\<forall>j u. file_row fs j = Some u \<longrightarrow> \<not> holds_ticket (nt_ticket new) u)
           \<and> created new i t \<and> file_row fs' = (\<lambda>j. if spelled j = i then Some t else file_row fs j)))"
proof -
  have w: "with_lock_strict todo_document io (builtin_add stamp new) fs = (r, fs')"
    using a by (simp add: builtin_ops_def store_add_def)
  have "\<forall>d b d'. todo_doc_ok d \<longrightarrow> builtin_add stamp new d = Inr (b, d') \<longrightarrow> todo_doc_ok d'"
    using add_doc_ok fits by blast
  from file_after [OF w this] consider (same) "fs' = fs" "\<exists>x. r = Inl x"
    | (moved) i d d' where "r = Inr i" "todo_file fs = Inr d" "builtin_add stamp new d = Inr (i, d')"
        "todo_file fs' = Inr (d'\<lparr>bd_version := todo_doc_version\<rparr>)" by blast
  then show ?thesis
  proof cases
    case same
    with room show ?thesis by (auto simp: file_room_def split: sum.splits)
  next
    case moved
    have ok: "builtin_ok d" and n: "unat (fresh_key d) + Suc n < 2 ^ 64 - 1"
      using room moved(2) by (simp_all add: file_room_def)
    show ?thesis
    proof (cases "ticket_holder d new")
      case (Some t)
      with builtin_add_Inr [OF moved(3)] have i: "i = td_id t" "d' = d" by auto
      have "t \<in> set (bt_values (bd_todos d))" "holds_ticket (nt_ticket new) t"
        using Some by (auto simp: ticket_holder_def holds_ticket_def dest!: find_Some_set split: option.splits)
      with values_rows(2) [OF ok] have "file_row fs i = Some t" by (simp add: file_row_def moved(2) i(1))
      moreover have "file_room n fs'" using ok n moved(4) i(2) by (simp add: file_room_def fresh_key_def)
      moreover have "file_row fs' = file_row fs" using moved(2,4) i(2) by (simp add: file_row_def fun_eq_iff)
      ultimately show ?thesis using moved(1) \<open>holds_ticket (nt_ticket new) t\<close> by blast
    next
      case None
      with builtin_add_Inr [OF moved(3)] have i: "i = show_uint (fresh_key d)"
        "d' = put (fresh_key d) (new_todo stamp new d) (d\<lparr>bd_next_id := fresh_key d + 1\<rparr>)" by auto
      have lt: "fresh_key d < - 1"
      proof -
        have "unat (- 1 :: u64) = 2 ^ 64 - 1" by (simp add: unsigned_minus_1_eq_mask mask_eq_exp_minus_1)
        with n show ?thesis by (simp add: word_less_nat_alt)
      qed
      then have "bd_next_id d < - 1" by (simp add: fresh_key_def)
      from add_ok [OF ok moved(3) fits this] have ok': "builtin_ok d'" by blast
      have "fresh_key d < fresh_key d + 1" by (rule word_lt_succ [OF lt])
      have "1 \<le> fresh_key d" by (simp add: fresh_key_def)
      with \<open>fresh_key d < fresh_key d + 1\<close> have fresh_ge: "1 \<le> fresh_key d + 1" by order
      have "fresh_key d' = fresh_key d + 1"
      proof -
        have "bd_next_id d' = fresh_key d + 1" by (simp add: i(2))
        then show ?thesis using max_absorb1 [OF fresh_ge] by (simp only: fresh_key_def [of d'])
      qed
      moreover have "unat (fresh_key d + 1) = Suc (unat (fresh_key d))"
        using lt by (metis add.commute add_eq_0_iff2 less_irrefl unatSuc)
      ultimately have "file_room n fs'" using ok' n moved(4) by (simp add: file_room_def fresh_key_def)
      moreover have "file_row fs i = None"
        using fresh_key_new [OF ok] by (simp add: file_row_def moved(2) doc_row_def i(1))
      moreover have "\<not> holds_ticket (nt_ticket new) u" if "file_row fs j = Some u" for j u
      proof
        assume h: "holds_ticket (nt_ticket new) u"
        then obtain tk r where tk: "nt_ticket new = Some tk" "td_ticket u = Some r" "same_ticket r tk"
          by (auto simp: holds_ticket_def split: option.splits)
        from that moved(2) obtain k where "bt_get (bd_todos d) k = Some u" by (auto simp: file_row_def doc_row_Some)
        with tk have "ticket_at d k = Some (tk_tracker tk, tk_key tk)" by (simp add: ticket_at_def same_ticket_def)
        with ticket_holder_None [OF None tk(1)] show False by blast
      qed
      moreover have "created new i (new_todo stamp new d)" by (simp add: created_def new_todo_def i(1))
      moreover have "file_row fs' = (\<lambda>j. if spelled j = i then Some (new_todo stamp new d) else file_row fs j)"
        using doc_row_put [of i "fresh_key d" "new_todo stamp new d" "d\<lparr>bd_next_id := fresh_key d + 1\<rparr>"] moved(2,4)
        by (simp add: file_row_def i fun_eq_iff doc_row_def)
      ultimately show ?thesis using moved(1) i(1) by (metis spelled_show sum.inject(2))
    qed
  qed
qed

interpretation builtin: todo_rows "builtin_ops io at stamp" file_row spelled file_room
proof
  show "td_id t = spelled i" if "file_room n s" "file_row s i = Some t" for n s i t
    using that row_id_spelled by (auto simp: file_room_def file_row_def split: sum.splits)
  show "file_row s (spelled i) = file_row s i" for s i
    by (simp add: file_row_def doc_row_def parse_spelled split: sum.split)
  show "spelled (spelled i) = spelled i" for i by (rule spelled_spelled)
  show "spelled i = spelled j" if "file_room n s" "file_row s i = Some t" "file_row s j = Some u" "holds_ticket (td_ticket t) u"
    for n s i t j u
    using that one_todo_doc by (auto simp: file_room_def file_row_def split: sum.splits)
qed (rule file_listing file_getting file_applying file_adding; simp add: order_fits_def)+

section \<open>The promises, on the built-in store\<close>

text \<open>
  C9: a change made while the tracker answered wins: a todo whose status (or text) is no longer what the
  plan was made from keeps it when the plan lands, whatever else the sync changes.
\<close>

theorem local_change_wins:
  assumes "file_room m fs0" and "op_list (builtin_ops io at stamp) node fs0 = (Inr existing, fs1)"
    and "sync_plan lower trk node existing fetched known statuses = Inr p"
    and "ticket_todo trk existing k = Some seen"
    and "file_room (length (sp_adds p)) fs" and "file_row fs (td_id seen) = Some t" and "is_ticket trk k t"
    and "apply_plan (builtin_ops io at stamp) trk existing p fs = (Inr report, fs')"
  shows "\<exists>t'. file_row fs' (td_id seen) = Some t'
    \<and> (td_status t \<noteq> td_status seen \<longrightarrow> td_status t' = td_status t)
    \<and> (td_description t \<noteq> td_description seen \<longrightarrow> td_description t' = td_description t)"
  by (rule builtin.local_wins [OF assms(1-3,5,8,4,6,7)])

text \<open>
  C8: a sync settles: right after one has landed the same tickets leave nothing to plan, whatever they ask for
  (new todos, texts, statuses, parents, blockers and their removal), as long as no other node holds
  one of the tickets and the relations of its todos name todos that exist.
\<close>

theorem sync_settles:
  assumes "file_room (length (sp_adds p)) fs0" and "op_list (builtin_ops io at stamp) node fs0 = (Inr existing, fs1)"
    and "sync_plan lower trk node existing fetched known statuses = Inr p"
    and "apply_plan (builtin_ops io at stamp) trk existing p fs1 = (Inr report, fs2)"
    and "op_list (builtin_ops io at stamp) node fs2 = (Inr existing', fs3)"
    and "distinct (map st_key fetched)"
    and "\<forall>t\<in>set fetched. \<forall>i u. file_row fs0 i = Some u \<longrightarrow> is_ticket trk (st_key t) u \<longrightarrow> node_of u = node"
    and "\<forall>u\<in>set existing. td_ticket u \<noteq> None \<longrightarrow>
      (\<forall>i\<in>set (td_blocked_by u) \<union> set_option (td_parent u). file_row fs0 i \<noteq> None)"
  shows "\<exists>q. sync_plan lower trk node existing' fetched known statuses = Inr q \<and> plan_is_empty q"
  by (rule builtin.settles [OF assms])

end
