(* ===== verification/Ticket_Demo.thy ===== *)
theory Ticket_Demo
  imports Ticket_Builtin
begin

text \<open>
  One ticket's life, by which the ticket sync's properties are seen to apply: it is opened as a todo, moves to
  ''Done'' at its tracker, and meanwhile someone starts the todo.
\<close>

section \<open>The ticket, its todo, the plans\<close>

definition demo_ticket :: "string \<Rightarrow> SyncedTicket" where
  "demo_ticket status = \<lparr>st_key = ''A'', st_title = ''x'', st_status = Named status, st_blocked_by = [], st_parent = None\<rparr>"

definition demo_statuses :: StatusMap where
  "demo_statuses = [(''Done'', MCompleted), (''Todo'', MPending)]"

definition demo_open :: NewTodo where
  "demo_open = \<lparr>nt_project = Some ''n'', nt_description = ''A x'', nt_parent = None, nt_order = None,
     nt_ticket = Some \<lparr>tk_tracker = ''linear'', tk_key = ''A'', tk_synced_status = Some ''Todo''\<rparr>\<rparr>"

definition demo_opened :: Todo where
  "demo_opened = \<lparr>td_id = ''1'', td_description = ''A x'', td_status = Pending, td_parent = None, td_order = Some 1024,
     td_project = Some ''n'', td_entry = Some ''t'', td_modified = Some ''t'', td_blocked_by = [],
     td_ticket = Some \<lparr>tk_tracker = ''linear'', tk_key = ''A'', tk_synced_status = Some ''Todo''\<rparr>\<rparr>"

definition ticket_doc :: "Todo \<Rightarrow> TodoDoc" where
  "ticket_doc t = \<lparr>bd_version = 1, bd_next_id = 2, bd_todos = [(1, t)]\<rparr>"

definition demo_first_plan :: SyncPlan where
  "demo_first_plan = \<lparr>sp_adds = [demo_open], sp_edits = []\<rparr>"

definition demo_done_plan :: SyncPlan where
  "demo_done_plan = \<lparr>sp_adds = [], sp_edits =
     [\<lparr>pe_key = ''A'', pe_change = ToStatus KCompleted\<rparr>, \<lparr>pe_key = ''A'', pe_change = Synced ''Done''\<rparr>]\<rparr>"

lemma demo_plans:
  "sync_plan id ''linear'' ''n'' [] [demo_ticket ''Todo''] [''Todo'', ''Done''] demo_statuses = Inr demo_first_plan"
  "sync_plan id ''linear'' ''n'' [demo_opened] [demo_ticket ''Done''] [''Todo'', ''Done''] demo_statuses = Inr demo_done_plan"
  by code_simp+

section \<open>The plans alone\<close>

theorem plan_refused_exactly_witness:
  "\<exists>p. sync_plan id ''linear'' ''n'' [] [demo_ticket ''Todo''] [''Todo'', ''Done''] demo_statuses = Inr p"
proof -
  have "target_kind (Named ''Todo'') demo_statuses \<noteq> None" by code_simp
  moreover have "distinct (map (\<lambda>n. id (trim n)) (bt_keys demo_statuses))" by code_simp
  moreover have "list_all (\<lambda>n. list_ex (\<lambda>k. same_status id k n) [''Todo'', ''Done'']) (bt_keys demo_statuses)" by code_simp
  ultimately show ?thesis
    using plan_refused_exactly [of id "''linear''" "''n''" "[]" "[demo_ticket ''Todo'']" "[''Todo'', ''Done'']" demo_statuses]
    by (simp add: demo_ticket_def target_kind_def list_all_iff list_ex_iff)
qed

theorem status_only_when_moved_witness:
  "Option.bind (td_ticket demo_opened) tk_synced_status \<noteq> Some (status_name (st_status (demo_ticket ''Done'')))"
proof -
  have "ticket_todo ''linear'' [demo_opened] ''A'' = Some demo_opened" by code_simp
  with status_only_when_moved [OF demo_plans(2), of "\<lparr>pe_key = ''A'', pe_change = ToStatus KCompleted\<rparr>" KCompleted]
  show ?thesis by (simp add: demo_done_plan_def) (simp add: demo_ticket_def)
qed

definition demo_blocked :: SyncedTicket where
  "demo_blocked = demo_ticket ''Todo''\<lparr>st_blocked_by := [''B'']\<rparr>"

definition demo_blocker :: SyncedTicket where
  "demo_blocker = demo_ticket ''Todo''\<lparr>st_key := ''B''\<rparr>"

definition demo_links :: "PlannedEdit list" where
  "demo_links = [\<lparr>pe_key = ''A'', pe_change = BlockOn [''B'']\<rparr>]"

theorem relations_between_tickets_witness:
  "set [''B''] \<subseteq> set (synced_keys ''linear'' [demo_opened] [demo_blocked, demo_blocker]) - {''A''}"
proof -
  have "map_sum id sp_edits (sync_plan id ''linear'' ''n'' [demo_opened] [demo_blocked, demo_blocker] [''Todo'', ''Done''] demo_statuses)
      = Inr demo_links" by code_simp
  then obtain p where p: "sync_plan id ''linear'' ''n'' [demo_opened] [demo_blocked, demo_blocker] [''Todo'', ''Done''] demo_statuses = Inr p"
    "sp_edits p = demo_links"
    by (cases "sync_plan id ''linear'' ''n'' [demo_opened] [demo_blocked, demo_blocker] [''Todo'', ''Done''] demo_statuses") auto
  have "\<lparr>pe_key = ''A'', pe_change = BlockOn [''B'']\<rparr> \<in> set (sp_edits p)" by (simp add: p(2) demo_links_def)
  from relations_between_tickets [OF p(1) this] show ?thesis by simp
qed

section \<open>The ticket in the built-in store\<close>

abbreviation demo_ops :: "(doc_fs, todo_fault store_error) todo_ops" where
  "demo_ops \<equiv> builtin_ops clean_io 5 ''t''"

lemma strict_lands:
  fixes f :: "TodoDoc \<Rightarrow> todo_fault + 'a \<times> TodoDoc"
  assumes "todo_file fs = Inr d" and "f d = Inr (a, d')" and "todo_doc_ok d'"
  shows "\<exists>fs'. with_lock_strict todo_document clean_io f fs = (Inr a, fs') \<and> todo_file fs' = Inr (d'\<lparr>bd_version := todo_doc_version\<rparr>)"
proof -
  have "todo_doc_ok (d'\<lparr>bd_version := todo_doc_version\<rparr>)" using assms(3) by (simp add: todo_doc_ok_def)
  from todo_doc.try_load_written [OF this, of fs] assms(1,2) show ?thesis
    by (simp add: with_lock_strict_def with_lock_via_def with_file_lock_def doc_write_def todo_file_def clean_io_def)
qed

lemma list_lands:
  assumes "todo_file fs = Inr d" and "todo_doc_ok d"
  shows "\<exists>fs'. op_list demo_ops node fs = (Inr (filter (\<lambda>t. node_of t = node) (bt_values (bd_todos d))), fs')
     \<and> todo_file fs' = Inr (d\<lparr>bd_version := todo_doc_version\<rparr>)"
  using strict_lands [where f = "\<lambda>d. Inr (filter (\<lambda>t. node_of t = node) (bt_values (bd_todos d)), d)", OF assms(1) refl assms(2)]
  by (simp add: builtin_ops_def store_list_def node_matches_def node_of_def)

lemma get_lands:
  assumes "todo_file fs = Inr d" and "todo_doc_ok d"
  shows "\<exists>fs'. with_lock_strict todo_document clean_io (\<lambda>d. Inr (bt_get (bd_todos d) k, d) :: todo_fault + Todo option \<times> TodoDoc) fs
     = (Inr (bt_get (bd_todos d) k), fs') \<and> todo_file fs' = Inr (d\<lparr>bd_version := todo_doc_version\<rparr>)"
  by (rule strict_lands [where f = "\<lambda>d. Inr (bt_get (bd_todos d) k, d)", OF assms(1) refl assms(2)])

lemma ticket_doc_ok:
  assumes "td_order t = Some 1024" and "td_id t = ''1''"
  shows "todo_doc_ok (ticket_doc t)"
  using assms by (simp add: ticket_doc_def todo_doc_ok_def i64_ok_def bt_wf_def)

lemma demo_opened_ok: "todo_doc_ok (ticket_doc demo_opened)"
  by (rule ticket_doc_ok) (simp_all add: demo_opened_def)

lemma demo_add_open: "builtin_add ''t'' demo_open (empty_doc\<lparr>bd_version := 1\<rparr>) = Inr (''1'', ticket_doc demo_opened)"
proof -
  have "one_line ''A x'' = ''A x''" by code_simp
  then show ?thesis
    by (simp add: builtin_add_cases ticket_holder_def demo_open_def fresh_key_def empty_doc_def demo_show new_todo_def put_def
        ticket_doc_def demo_opened_def after_last_def i64_add_def order_gap_def)
qed

lemma demo_doc_version [simp]: "ticket_doc t\<lparr>bd_version := todo_doc_version\<rparr> = ticket_doc t"
  by (simp add: ticket_doc_def todo_doc_version_def)

text \<open>The first sync: it lists nothing, adds the ticket's todo, and the next listing holds it.\<close>

lemma demo_first_sync:
  obtains fs1 fs2 fs3 rep where "op_list demo_ops ''n'' no_file = (Inr [], fs1)"
    and "apply_plan demo_ops ''linear'' [] demo_first_plan fs1 = (Inr rep, fs2)" and "todo_file fs2 = Inr (ticket_doc demo_opened)"
    and "op_list demo_ops ''n'' fs2 = (Inr [demo_opened], fs3)" and "todo_file fs3 = Inr (ticket_doc demo_opened)"
proof -
  from list_lands [OF demo_file demo_ok(1), of "''n''"] obtain fs1 where
    1: "op_list demo_ops ''n'' no_file = (Inr [], fs1)" "todo_file fs1 = Inr (empty_doc\<lparr>bd_version := 1\<rparr>)"
    by (auto simp: empty_doc_def todo_doc_version_def)
  have "todo_doc_ok (empty_doc\<lparr>bd_version := 1\<rparr>)" by (simp add: empty_doc_def todo_doc_ok_def)
  from store_add_lands [OF 1(2) this demo_add_open] obtain fs2 where
    2: "store_add clean_io ''t'' demo_open fs1 = (Inr ''1'', fs2)" "todo_file fs2 = Inr (ticket_doc demo_opened)"
    by (auto simp: demo_open_def order_fits_def)
  have land: "apply_plan demo_ops ''linear'' [] demo_first_plan fs1 = (Inr (sync_report demo_first_plan), fs2)"
    using 2(1) by (simp add: apply_plan_def apply_sync_def demo_first_plan_def demo_open_def builtin_ops_def)
  from list_lands [OF 2(2) demo_opened_ok, of "''n''"] obtain fs3 where
    3: "op_list demo_ops ''n'' fs2 = (Inr [demo_opened], fs3)" "todo_file fs3 = Inr (ticket_doc demo_opened)"
    by (auto simp: ticket_doc_def demo_opened_def node_of_def todo_doc_version_def)
  from 1(1) land 2(2) 3 show ?thesis by (rule that)
qed

theorem sync_settles_witness:
  "\<exists>fs1 fs2 fs3 rep q. op_list demo_ops ''n'' no_file = (Inr [], fs1)
     \<and> apply_plan demo_ops ''linear'' [] demo_first_plan fs1 = (Inr rep, fs2)
     \<and> op_list demo_ops ''n'' fs2 = (Inr [demo_opened], fs3)
     \<and> sync_plan id ''linear'' ''n'' [demo_opened] [demo_ticket ''Todo''] [''Todo'', ''Done''] demo_statuses = Inr q
     \<and> plan_is_empty q"
proof -
  obtain fs1 fs2 fs3 rep where l: "op_list demo_ops ''n'' no_file = (Inr [], fs1)"
    and land: "apply_plan demo_ops ''linear'' [] demo_first_plan fs1 = (Inr rep, fs2)"
    and l': "op_list demo_ops ''n'' fs2 = (Inr [demo_opened], fs3)" by (rule demo_first_sync)
  have room: "file_room (length (sp_adds demo_first_plan)) no_file"
    by (simp add: file_room_def demo_file empty_doc_def builtin_ok_empty fresh_key_def demo_first_plan_def)
  have "file_row no_file i = None" for i
    by (cases "parse_uint i :: u64 option") (simp_all add: file_row_def demo_file empty_doc_def doc_row_def bt_get_def)
  with sync_settles [OF room l demo_plans(1) land l'] l land l' show ?thesis by auto
qed

section \<open>A change made meanwhile\<close>

definition demo_started :: Todo where
  "demo_started = demo_opened\<lparr>td_status := InProgress human\<rparr>"

lemma demo_row: "todo_file fs = Inr (ticket_doc t) \<Longrightarrow> file_row fs ''1'' = Some t"
  by (simp add: file_row_def doc_row_def demo_show ticket_doc_def bt_get_def)

lemma demo_builtin_doc: "builtin_ok (ticket_doc demo_opened)"
proof -
  have "builtin_ok (empty_doc\<lparr>bd_version := 1\<rparr>)" by (simp add: empty_doc_def builtin_ok_empty)
  from add_ok [OF this demo_add_open] show ?thesis by (simp add: demo_open_def order_fits_def empty_doc_def demo_room)
qed

lemma demo_start:
  "builtin_apply 5 ''t'' (SetStatus ''1'' KInProgress human) (ticket_doc demo_opened)
     = Inr ([change_of 5 demo_opened (Some (InProgress human))], ticket_doc demo_started)"
proof -
  have "transition Pending KInProgress human = Inr (Some (InProgress human))" by code_simp
  moreover have "todo_at (ticket_doc demo_opened) ''1'' = Inr (1, demo_opened)"
    by (simp add: todo_at_def demo_show ticket_doc_def bt_get_def)
  moreover have "td_status demo_opened = Pending" by (simp add: demo_opened_def)
  moreover have "put 1 (demo_opened\<lparr>td_status := InProgress human, td_modified := Some ''t''\<rparr>) (ticket_doc demo_opened) = ticket_doc demo_started"
    by (simp add: put_def ticket_doc_def demo_started_def demo_opened_def)
  ultimately show ?thesis by (simp add: builtin_apply_def set_todo_status_def move_to_def)
qed

lemma demo_record:
  "\<exists>d. builtin_apply 5 ''t'' (RecordSync ''1'' ''Done'') (ticket_doc demo_started) = Inr ([], d)"
  by (simp add: builtin_apply_def todo_at_def demo_show ticket_doc_def bt_get_def) (simp add: demo_started_def demo_opened_def)

theorem local_change_wins_witness:
  "\<exists>fs fs' rep t'. todo_file fs = Inr (ticket_doc demo_started)
     \<and> apply_plan demo_ops ''linear'' [demo_opened] demo_done_plan fs = (Inr rep, fs')
     \<and> file_row fs' ''1'' = Some t' \<and> td_status t' = InProgress human"
proof -
  obtain fs2 fs3 where f2: "todo_file fs2 = Inr (ticket_doc demo_opened)"
    and l: "op_list demo_ops ''n'' fs2 = (Inr [demo_opened], fs3)" and f3: "todo_file fs3 = Inr (ticket_doc demo_opened)"
    by (rule demo_first_sync)
  from store_apply_lands [OF f3 demo_opened_ok demo_start] obtain fs where
    f: "todo_file fs = Inr (ticket_doc demo_started)" by auto
  have ok: "todo_doc_ok (ticket_doc demo_started)" by (rule ticket_doc_ok) (simp_all add: demo_started_def demo_opened_def)
  have "bt_get (bd_todos (ticket_doc demo_started)) 1 = Some demo_started" by (simp add: ticket_doc_def bt_get_def)
  with get_lands [OF f ok, of 1] obtain fs4 where
    got: "store_get clean_io ''1'' fs = (Inr (Some demo_started), fs4)" and f4: "todo_file fs4 = Inr (ticket_doc demo_started)"
    by (auto simp: store_get_def demo_show)
  from demo_record store_apply_lands [OF f4 ok] obtain fs' where
    rec: "store_apply clean_io 5 ''t'' (RecordSync ''1'' ''Done'') fs4 = (Inr [], fs')" by fastforce
  have on: "ticket_todo ''linear'' [demo_opened] ''A'' = Some demo_opened" by code_simp
  have i: "td_id demo_opened = ''1''" "td_status demo_opened \<noteq> td_status demo_started"
    by (simp_all add: demo_started_def demo_opened_def)
  have land: "apply_plan demo_ops ''linear'' [demo_opened] demo_done_plan fs = (Inr (sync_report demo_done_plan), fs')"
    using got rec i
    by (simp add: apply_plan_def apply_sync_def demo_done_plan_def builtin_ops_def on resolve_edit_def moved_since_def)
  have room: "file_room 0 fs2" "file_room (length (sp_adds demo_done_plan)) fs"
  proof -
    have u: "unat (fresh_key (ticket_doc t)) = 2" for t by (simp add: fresh_key_def ticket_doc_def)
    show "file_room 0 fs2" using f2 demo_builtin_doc by (simp add: file_room_def u)
    have "shrunk (ticket_doc demo_opened) (ticket_doc demo_started)" by (rule apply_shrunk [OF demo_start]) (simp_all add: ticket_doc_def bt_wf_def)
    from shrunk_ok [OF demo_builtin_doc this] f show "file_room (length (sp_adds demo_done_plan)) fs"
      by (simp add: file_room_def u demo_done_plan_def)
  qed
  have "is_ticket ''linear'' ''A'' demo_started" by (simp add: is_ticket_def demo_started_def demo_opened_def)
  with local_change_wins [OF room(1) l demo_plans(2) on room(2) _ _ land] demo_row [OF f] i obtain t' where
    "file_row fs' ''1'' = Some t'" "td_status t' = td_status demo_started" by auto
  with f land show ?thesis by (auto simp: demo_started_def)
qed

end
