(* ===== verification/Ticket_Push.thy ===== *)
theory Ticket_Push
  imports Ticket_Sync
begin

text \<open>
  A ticket todo's change reaching its ticket: the verdict over the tracker's value
  (\<open>crates/devkit-todo/src/push.rs\<close>), and the three pushes, each a read of the tracker, a verdict, the tracker's
  writes and only then the store's (\<open>src/bin/devkit/todo/push.rs\<close>).

  The tracker is a state of its own type, with what it answers and how it changes as arguments; so is what
  a person answers at the terminal.
\<close>

section \<open>Events and verdicts\<close>

datatype TrackerKind = Linear | Github | NoTracker

datatype IssueEvent = EvSetup | EvStart | EvPrOpen | EvTodoStart | EvTodoDone | EvTodoCancel

record EventTransition =
  et_from :: "string list"
  et_to :: string

datatype LocalStatus = LStart | LDone | LCancel

definition local_event :: "LocalStatus \<Rightarrow> IssueEvent" where
  "local_event l = (case l of LStart \<Rightarrow> EvTodoStart | LDone \<Rightarrow> EvTodoDone | LCancel \<Rightarrow> EvTodoCancel)"

definition closes :: "LocalStatus \<Rightarrow> TrackerKind \<Rightarrow> CloseReason option" where
  "closes l trk =
     (case (l, trk) of
        (LDone, Github) \<Rightarrow> Some ClosedCompleted
      | (LCancel, Github) \<Rightarrow> Some ClosedNotPlanned
      | _ \<Rightarrow> None)"

datatype Verdict = VWrite | VAlready | VNoMove | VConflict string string

datatype FieldWrite = FSet | FMove

record StatusWrites =
  sw_close :: "CloseReason option"
  sw_field :: "FieldWrite option"
  sw_record :: "string option"

definition no_value :: string where "no_value = ''(none)''"

definition named_from :: "EventTransition \<Rightarrow> string list" where
  "named_from e = filter (\<lambda>f. trim f \<noteq> ''*'') (et_from e)"

definition verdict_of :: "(string \<Rightarrow> string) \<Rightarrow> LocalStatus \<Rightarrow> string option \<Rightarrow> TicketStatus \<Rightarrow> EventTransition option \<Rightarrow>
    TrackerKind \<Rightarrow> Verdict" where
  "verdict_of lower l baseline current event trk =
     (let name = status_name current;
          conflict = VConflict name (case baseline of Some b \<Rightarrow> b | None \<Rightarrow> no_value);
          rest = (case event of
             None \<Rightarrow> (case closes l trk of Some _ \<Rightarrow> VWrite | None \<Rightarrow> VNoMove)
           | Some e \<Rightarrow>
               (let named = named_from e;
                    in_from = list_ex (\<lambda>f. same_status lower f name) named;
                    unmoved = (case baseline of Some b \<Rightarrow> same_status lower b name | None \<Rightarrow> False)
                in if in_from then VWrite
                   else if unmoved \<and> named = [] then VWrite
                   else if unmoved then VNoMove
                   else conflict))
      in case (closes l trk, current) of
           (Some want, Closed reason) \<Rightarrow> if reason = want then VAlready else conflict
         | (None, Named at) \<Rightarrow>
             if (case event of Some e \<Rightarrow> same_status lower at (et_to e) | None \<Rightarrow> False) then VAlready else rest
         | _ \<Rightarrow> rest)"

definition status_verdict :: "(string \<Rightarrow> string) \<Rightarrow> LocalStatus \<Rightarrow> string option \<Rightarrow> TicketStatus \<Rightarrow> EventTransition option \<Rightarrow>
    TrackerKind \<Rightarrow> Verdict \<times> StatusWrites" where
  "status_verdict lower l baseline current event trk =
     (let verdict = verdict_of lower l baseline current event trk;
          close = closes l trk;
          closed = map_option (\<lambda>reason. status_name (Closed reason)) close;
          go = \<lparr>sw_close = close, sw_field = map_option (\<lambda>_. FSet) event,
                sw_record = (case closed of Some c \<Rightarrow> Some c | None \<Rightarrow> map_option et_to event)\<rparr>
      in (verdict,
          case verdict of
            VWrite \<Rightarrow> go
          | VConflict _ _ \<Rightarrow> go
          | VAlready \<Rightarrow> \<lparr>sw_close = None, sw_field = (if close \<noteq> None \<and> event \<noteq> None then Some FMove else None),
                         sw_record = Some (status_name current)\<rparr>
          | VNoMove \<Rightarrow> \<lparr>sw_close = close, sw_field = None, sw_record = closed\<rparr>))"

definition parent_verdict :: "string option \<Rightarrow> string option \<Rightarrow> string option \<Rightarrow> Verdict" where
  "parent_verdict baseline current wanted =
     (if current = wanted then VAlready
      else if current = baseline then VWrite
      else VConflict (case current of Some c \<Rightarrow> c | None \<Rightarrow> no_value) (case baseline of Some b \<Rightarrow> b | None \<Rightarrow> no_value))"

definition block_verdict :: "bool \<Rightarrow> string option \<Rightarrow> bool \<Rightarrow> Verdict" where
  "block_verdict current_has other_relation add =
     (if current_has = add then VAlready
      else case other_relation of
             Some other \<Rightarrow> VConflict other (if add then no_value else ''blocks'')
           | None \<Rightarrow> VWrite)"

section \<open>The status writer\<close>

datatype Target = TargetTo string | TargetAlready | TargetNotFrom

definition event_target :: "(string \<Rightarrow> string) \<Rightarrow> EventTransition \<Rightarrow> string option \<Rightarrow> Target" where
  "event_target lower t current =
     (if (case current of Some c \<Rightarrow> same_status lower c (et_to t) | None \<Rightarrow> False) then TargetAlready
      else if list_ex (\<lambda>f. trim f = ''*'' \<or> same_status lower f (case current of Some c \<Rightarrow> c | None \<Rightarrow> [])) (et_from t)
           then TargetTo (et_to t) else TargetNotFrom)"

datatype Outcome = Moved "string option" string | AlreadyAt string | NotFrom "string option"

definition event_apply :: "(string \<Rightarrow> string) \<Rightarrow> EventTransition \<Rightarrow> string option \<Rightarrow> (string \<Rightarrow> 'w \<Rightarrow> bool \<times> 'w) \<Rightarrow> 'w \<Rightarrow>
    Outcome option \<times> 'w" where
  "event_apply lower t current write w =
     (case event_target lower t current of
        TargetTo to \<Rightarrow> (case write to w of (ok, w') \<Rightarrow> (if ok then Some (Moved current to) else None, w'))
      | TargetAlready \<Rightarrow> (Some (AlreadyAt (case current of Some c \<Rightarrow> c | None \<Rightarrow> [])), w)
      | TargetNotFrom \<Rightarrow> (Some (NotFrom current), w))"

text \<open>The event with any status allowed, which a push uses once its verdict has decided.\<close>

definition any_from :: "string \<Rightarrow> EventTransition" where
  "any_from to = \<lparr>et_from = [''*''], et_to = to\<rparr>"

section \<open>The pushes\<close>

text \<open>The tracker during a push; \<open>ps_settle\<close> is what an unsettled conflict gives: written over, declined, or an error.\<close>

record 'w push_tracker =
  pw_kind :: TrackerKind
  pw_writer :: bool
  pw_read :: "string \<Rightarrow> 'w \<Rightarrow> SyncedTicket list option"
  pw_close :: "string \<Rightarrow> CloseReason \<Rightarrow> 'w \<Rightarrow> bool \<times> 'w"
  pw_parent :: "string \<Rightarrow> string option \<Rightarrow> 'w \<Rightarrow> string option option"
  pw_set_parent :: "string \<Rightarrow> string option \<Rightarrow> bool \<Rightarrow> 'w \<Rightarrow> bool \<times> 'w"
  pw_pair :: "string \<Rightarrow> string \<Rightarrow> 'w \<Rightarrow> (bool \<times> string option) option"
  pw_set_blocked :: "string \<Rightarrow> string \<Rightarrow> bool \<Rightarrow> 'w \<Rightarrow> bool \<times> 'w"
  pw_move :: "string \<Rightarrow> IssueEvent \<Rightarrow> EventTransition \<Rightarrow> 'w \<Rightarrow> bool \<times> 'w"

datatype push_error =
    NotATicket
  | Unchanged string
  | ChangedOnTracker string
  | MoveFailed string

record settling =
  se_overwrite :: bool
  se_person :: bool
  se_terminal :: bool
  se_confirms :: bool

definition settle :: "settling \<Rightarrow> string \<Rightarrow> push_error + bool" where
  "settle how key =
     (if se_overwrite how then Inr True
      else if \<not> se_person how \<or> \<not> se_terminal how then Inl (ChangedOnTracker key)
      else Inr (se_confirms how))"

text \<open>After a decline: one ticket's sync, unless the store's own sync has not completed.\<close>

definition take_tracker_value :: "bool \<Rightarrow> ('s \<Rightarrow> ('e sync_error + Todo option) \<times> 's) \<Rightarrow> 's \<Rightarrow> ('e sync_error + unit) \<times> 's" where
  "take_tracker_value pulled sync s =
     (if \<not> pulled then (Inr (), s) else case sync s of (r, s') \<Rightarrow> (map_sum id (\<lambda>_. ()) r, s'))"

datatype 'e push_fault = Push push_error | PushStore 'e | PushSync "'e sync_error"

text \<open>The tracker writes of a status push, in order: the close, then the field.\<close>

definition status_writes :: "'w push_tracker \<Rightarrow> string \<Rightarrow> IssueEvent \<Rightarrow> EventTransition option \<Rightarrow> StatusWrites \<Rightarrow> 'w \<Rightarrow>
    (push_error + unit) \<times> 'w" where
  "status_writes trk key event trn writes w =
     (case (case sw_close writes of
              Some reason \<Rightarrow> pw_close trk key reason w
            | None \<Rightarrow> (True, w)) of
        (False, w1) \<Rightarrow> (Inl (Unchanged key), w1)
      | (True, w1) \<Rightarrow>
          (case (if pw_writer trk then trn else None, sw_field writes) of
             (Some t, Some field) \<Rightarrow>
               (case pw_move trk key event (case field of FSet \<Rightarrow> any_from (et_to t) | FMove \<Rightarrow> t) w1 of
                  (True, w2) \<Rightarrow> (Inr (), w2)
                | (False, w2) \<Rightarrow> (Inl (if sw_close writes \<noteq> None then MoveFailed key else Unchanged key), w2))
           | _ \<Rightarrow> (Inr (), w1)))"

definition record_push :: "('s, 'e) todo_ops \<Rightarrow> Todo \<Rightarrow> Edit \<Rightarrow> string option \<Rightarrow> 's \<Rightarrow> ('e push_fault + bool) \<times> 's" where
  "record_push ops todo edit synced s =
     (case op_apply ops edit s of
        (Inl e, s1) \<Rightarrow> (Inl (PushStore e), s1)
      | (Inr _, s1) \<Rightarrow>
          (case synced of
             None \<Rightarrow> (Inr True, s1)
           | Some name \<Rightarrow>
               (case op_apply ops (RecordSync (td_id todo) name) s1 of
                  (Inl e, s2) \<Rightarrow> (Inl (PushStore e), s2)
                | (Inr _, s2) \<Rightarrow> (Inr True, s2))))"

text \<open>A declined push takes the tracker's value.\<close>

definition decline :: "bool \<Rightarrow> ('s \<Rightarrow> ('e sync_error + Todo option) \<times> 's) \<Rightarrow> 's \<Rightarrow> ('e push_fault + bool) \<times> 's" where
  "decline pulled sync s =
     (case take_tracker_value pulled sync s of
        (Inl e, s') \<Rightarrow> (Inl (PushSync e), s')
      | (Inr _, s') \<Rightarrow> (Inr False, s'))"

definition push_status :: "(string \<Rightarrow> string) \<Rightarrow> ('s, 'e) todo_ops \<Rightarrow> 'w push_tracker \<Rightarrow> EventTransition option \<Rightarrow> settling \<Rightarrow>
    bool \<Rightarrow> ('s \<Rightarrow> ('e sync_error + Todo option) \<times> 's) \<Rightarrow> Todo \<Rightarrow> Edit \<Rightarrow> LocalStatus \<Rightarrow> 's \<times> 'w \<Rightarrow>
    ('e push_fault + bool) \<times> 's \<times> 'w" where
  "push_status lower ops trk trn how pulled sync todo edit l sw =
     (case (td_ticket todo, sw) of
        (None, s, w) \<Rightarrow> (Inl (Push NotATicket), s, w)
      | (Some r, s, w) \<Rightarrow>
          (let key = tk_key r; close = closes l (pw_kind trk) in
           if trn = None \<and> close = None
           then (case record_push ops todo edit None s of (res, s') \<Rightarrow> (res, s', w))
           else if trn \<noteq> None \<and> \<not> pw_writer trk \<and> close = None then (Inl (Push (Unchanged key)), s, w)
           else case Option.bind (pw_read trk key w) (find (\<lambda>t. st_key t = key)) of
             None \<Rightarrow> (Inl (Push (Unchanged key)), s, w)
           | Some ticket \<Rightarrow>
               (case status_verdict lower l (tk_synced_status r) (st_status ticket) trn (pw_kind trk) of
                  (verdict, writes) \<Rightarrow>
                    (case (case verdict of VConflict _ _ \<Rightarrow> settle how key | _ \<Rightarrow> Inr True) of
                       Inl e \<Rightarrow> (Inl (Push e), s, w)
                     | Inr False \<Rightarrow>
                         (case decline pulled sync s of (res, s') \<Rightarrow> (res, s', w))
                     | Inr True \<Rightarrow>
                         (case status_writes trk key (local_event l) trn writes w of
                            (Inl e, w') \<Rightarrow> (Inl (Push e), s, w')
                          | (Inr _, w') \<Rightarrow>
                              (case record_push ops todo edit (sw_record writes) s of (res, s') \<Rightarrow> (res, s', w')))))))"

text \<open>\<open>parent\<close> is the todo the child moves under, if any; the key written is its ticket's, if it has one.\<close>

definition push_parent :: "('s, 'e) todo_ops \<Rightarrow> 'w push_tracker \<Rightarrow> settling \<Rightarrow> bool \<Rightarrow> ('s \<Rightarrow> ('e sync_error + Todo option) \<times> 's) \<Rightarrow>
    Todo \<Rightarrow> Todo option \<Rightarrow> string option \<Rightarrow> Edit \<Rightarrow> 's \<times> 'w \<Rightarrow> ('e push_fault + bool) \<times> 's \<times> 'w" where
  "push_parent ops trk how pulled sync child parent baseline edit sw =
     (case (td_ticket child, sw) of
        (None, s, w) \<Rightarrow> (Inl (Push NotATicket), s, w)
      | (Some r, s, w) \<Rightarrow>
          (let key = tk_key r;
               wanted = map_option tk_key (Option.bind parent td_ticket)
           in case pw_parent trk key wanted w of
                None \<Rightarrow> (Inl (Push (Unchanged key)), s, w)
              | Some current \<Rightarrow>
                  (case (case parent_verdict baseline current wanted of
                           VAlready \<Rightarrow> Inr (Some None)
                         | VNoMove \<Rightarrow> Inr (Some None)
                         | VWrite \<Rightarrow> Inr (Some (Some False))
                         | VConflict _ _ \<Rightarrow> map_sum id (\<lambda>go. if go then Some (Some True) else None) (settle how key)) of
                     Inl e \<Rightarrow> (Inl (Push e), s, w)
                   | Inr None \<Rightarrow> (case decline pulled sync s of (res, s') \<Rightarrow> (res, s', w))
                   | Inr (Some replace) \<Rightarrow>
                       (case (case replace of None \<Rightarrow> (True, w) | Some b \<Rightarrow> pw_set_parent trk key wanted b w) of
                          (False, w') \<Rightarrow> (Inl (Push (Unchanged key)), s, w')
                        | (True, w') \<Rightarrow> (case record_push ops child edit None s of (res, s') \<Rightarrow> (res, s', w'))))))"

definition push_block :: "('s, 'e) todo_ops \<Rightarrow> 'w push_tracker \<Rightarrow> settling \<Rightarrow> bool \<Rightarrow> ('s \<Rightarrow> ('e sync_error + Todo option) \<times> 's) \<Rightarrow>
    Todo \<Rightarrow> Todo \<Rightarrow> bool \<Rightarrow> 's \<times> 'w \<Rightarrow> ('e push_fault + bool) \<times> 's \<times> 'w" where
  "push_block ops trk how pulled sync blocked blocker add sw =
     (case (td_ticket blocked, td_ticket blocker, sw) of
        (Some r, Some b, s, w) \<Rightarrow>
          (let key = tk_key r; by = tk_key b in
           case pw_pair trk key by w of
             None \<Rightarrow> (Inl (Push (Unchanged key)), s, w)
           | Some (has_link, other) \<Rightarrow>
               (case (case block_verdict has_link other add of
                        VAlready \<Rightarrow> Inr (Some False)
                      | VNoMove \<Rightarrow> Inr (Some False)
                      | VWrite \<Rightarrow> Inr (Some True)
                      | VConflict _ _ \<Rightarrow> map_sum id (\<lambda>go. if go then Some True else None) (settle how key)) of
                  Inl e \<Rightarrow> (Inl (Push e), s, w)
                | Inr None \<Rightarrow> (case decline pulled sync s of (res, s') \<Rightarrow> (res, s', w))
                | Inr (Some write) \<Rightarrow>
                    (case (if write then pw_set_blocked trk key by add w else (True, w)) of
                       (False, w') \<Rightarrow> (Inl (Push (Unchanged key)), s, w')
                     | (True, w') \<Rightarrow>
                         (case record_push ops blocked
                             ((if add then Block else Unblock) (td_id blocked) [td_id blocker]) None s of
                            (res, s') \<Rightarrow> (res, s', w')))))
      | (_, _, s, w) \<Rightarrow> (Inl (Push NotATicket), s, w))"

section \<open>Which changes reach a ticket\<close>

datatype PushKind = PushStatus | PushParent | PushBlocking

text \<open>\<open>inside\<close>: the todo is on the checkout's repository; \<open>foreign\<close>: a key outside its issues repository.\<close>

definition reachable :: "(Todo \<Rightarrow> bool) \<Rightarrow> (string \<Rightarrow> bool) \<Rightarrow> Todo \<Rightarrow> bool" where
  "reachable inside foreign t = (case td_ticket t of None \<Rightarrow> False | Some r \<Rightarrow> inside t \<and> \<not> foreign (tk_key r))"

definition pushes :: "PushKind list \<Rightarrow> PushKind \<Rightarrow> (Todo \<Rightarrow> bool) \<Rightarrow> (string \<Rightarrow> bool) \<Rightarrow> Todo \<Rightarrow> bool" where
  "pushes config k inside foreign t \<longleftrightarrow> k \<in> set config \<and> reachable inside foreign t"

definition repo_of :: "string \<Rightarrow> string option" where
  "repo_of key =
     (if CHR ''#'' \<in> set key then Some (map ascii_lower (rev (tl (dropWhile (\<lambda>c. c \<noteq> CHR ''#'') (rev key))))) else None)"

definition same_tracker :: "TicketRef \<Rightarrow> TicketRef \<Rightarrow> bool" where
  "same_tracker a b \<longleftrightarrow> tk_tracker a = tk_tracker b \<and> repo_of (tk_key a) = repo_of (tk_key b)"

datatype link_refusal = NotFromHere string string | NotPushed string string PushKind

definition link_reaches :: "PushKind list \<Rightarrow> PushKind \<Rightarrow> (Todo \<Rightarrow> bool) \<Rightarrow> (string \<Rightarrow> bool) \<Rightarrow> Todo \<Rightarrow> Todo \<Rightarrow> link_refusal + bool" where
  "link_reaches config k inside foreign written other =
     (case (td_ticket written, td_ticket other) of
        (Some a, Some b) \<Rightarrow>
          if \<not> same_tracker a b \<or> foreign (tk_key a) \<or> foreign (tk_key b) then Inr False
          else if \<not> inside written then Inl (NotFromHere (tk_key a) (tk_key b))
          else if k \<notin> set config then Inl (NotPushed (tk_key a) (tk_key b) k)
          else Inr True
      | _ \<Rightarrow> Inr False)"

text \<open>The event a status change fires, and whether it fires from a checkout.\<close>

definition event_of :: "StatusChange \<Rightarrow> IssueEvent option" where
  "event_of change =
     (case sc_to change of
        None \<Rightarrow> None
      | Some s \<Rightarrow>
          if kind s = kind (sc_from change) then None
          else (case kind s of
                  KInProgress \<Rightarrow> Some EvTodoStart
                | KCompleted \<Rightarrow> Some EvTodoDone
                | KCancelled \<Rightarrow> Some EvTodoCancel
                | KPending \<Rightarrow> None))"

definition fires :: "(IssueEvent \<Rightarrow> EventTransition option) \<Rightarrow> PushKind list \<Rightarrow> (string \<Rightarrow> bool) \<Rightarrow> (string \<Rightarrow> bool) \<Rightarrow> Holder \<Rightarrow>
    StatusChange \<Rightarrow> Todo option \<Rightarrow> (IssueEvent \<times> string) option" where
  "fires events config root_here foreign actor change found =
     (if is_tracker actor then None
      else case (event_of change, Option.bind found td_ticket) of
             (Some event, Some r) \<Rightarrow>
               if root_here (sc_node change) \<and> events event \<noteq> None
                   \<and> (event \<noteq> EvTodoCancel \<or> PushStatus \<in> set config) \<and> \<not> foreign (tk_key r)
               then Some (event, tk_key r) else None
           | _ \<Rightarrow> None)"

text \<open>The fired move runs later: only while the todo is still in the status that fires it.\<close>

definition firing_status :: "IssueEvent \<Rightarrow> StatusKind option" where
  "firing_status event =
     (case event of
        EvTodoStart \<Rightarrow> Some KInProgress
      | EvTodoDone \<Rightarrow> Some KCompleted
      | EvTodoCancel \<Rightarrow> Some KCancelled
      | _ \<Rightarrow> None)"

definition still_fires :: "IssueEvent \<Rightarrow> Todo option \<Rightarrow> bool" where
  "still_fires event found =
     (let current = map_option (\<lambda>t. kind (td_status t)) found in \<not> (current = None \<or> current \<noteq> firing_status event))"

end
