(* ===== verification/Ticket_Push_Safety.thy ===== *)
theory Ticket_Push_Safety
  imports Ticket_Push Ticket_Plan
begin

text \<open>
  What a push may write, in which order, and that the next sync leaves alone what a push recorded.
\<close>

section \<open>Verdicts\<close>

text \<open>Where a ticket stands so that a push may write without asking.\<close>

definition undisturbed :: "(string \<Rightarrow> string) \<Rightarrow> LocalStatus \<Rightarrow> string option \<Rightarrow> TicketStatus \<Rightarrow> EventTransition option \<Rightarrow>
    TrackerKind \<Rightarrow> bool" where
  "undisturbed lower l baseline current event trk \<longleftrightarrow>
     (\<exists>b. baseline = Some b \<and> same_status lower b (status_name current))
     \<or> (\<exists>e. event = Some e \<and> (\<exists>f\<in>set (named_from e). same_status lower f (status_name current)))
     \<or> (\<exists>c. current = Closed c \<and> closes l trk = Some c)
     \<or> (\<exists>e n. event = Some e \<and> current = Named n \<and> same_status lower n (et_to e))
     \<or> (\<exists>n. event = None \<and> current = Named n)"

lemma verdict_conflict:
  assumes "event \<noteq> None \<or> closes l trk \<noteq> None" and "\<not> undisturbed lower l baseline current event trk"
  shows "\<exists>c b. verdict_of lower l baseline current event trk = VConflict c b"
proof (cases event)
  case None
  with assms obtain c want where "current = Closed c" "closes l trk = Some want" "c \<noteq> want"
    by (cases current) (auto simp: undisturbed_def)
  then show ?thesis by (simp add: verdict_of_def)
next
  case (Some e)
  with assms(2) have f: "\<not> list_ex (\<lambda>f. same_status lower f (status_name current)) (named_from e)"
    "\<not> (case baseline of Some b \<Rightarrow> same_status lower b (status_name current) | None \<Rightarrow> False)"
    by (auto simp: undisturbed_def list_ex_iff split: option.splits)
  show ?thesis
  proof (cases current)
    case (Named n)
    with Some assms(2) have "\<not> same_status lower n (et_to e)" by (auto simp: undisturbed_def)
    with f Named Some show ?thesis by (auto simp: verdict_of_def Let_def split: option.split)
  next
    case (Closed c)
    with assms(2) have "closes l trk \<noteq> Some c" by (auto simp: undisturbed_def)
    with f Closed Some show ?thesis by (auto simp: verdict_of_def Let_def split: option.split)
  qed
qed

text \<open>Where a ticket stands once a push's writes have landed.\<close>

definition left_at :: "TicketStatus \<Rightarrow> StatusWrites \<Rightarrow> EventTransition option \<Rightarrow> TicketStatus" where
  "left_at current writes event =
     (case sw_close writes of
        Some reason \<Rightarrow> Closed reason
      | None \<Rightarrow>
          (case (current, sw_field writes, event) of
             (Named _, Some FSet, Some e) \<Rightarrow> Named (et_to e)
           | _ \<Rightarrow> current))"

lemma status_name_Named: "status_name (Named n) = n"
  by (simp add: status_name_def)

lemma record_left_at:
  assumes "status_verdict lower l baseline current event trk = (v, writes)" and "sw_record writes = Some n"
    and "\<And>c. current = Closed c \<Longrightarrow> closes l trk \<noteq> None"
  shows "n = status_name (left_at current writes event)"
  using assms
  by (cases v; cases "closes l trk"; cases event; cases current)
    (auto simp: status_verdict_def Let_def left_at_def verdict_of_def status_name_Named split: if_splits option.splits)

section \<open>A status push\<close>

lemma push_status_cases:
  assumes push: "push_status lower ops trk trn how pulled sync todo edit l (s, w) = (res, s', w')"
    and r: "td_ticket todo = Some r" and moves: "trn \<noteq> None \<or> closes l (pw_kind trk) \<noteq> None"
  obtains (unread) "res = Inl (Push (Unchanged (tk_key r)))" and "s' = s" and "w' = w"
  | (refused) "settle how (tk_key r) = Inl (ChangedOnTracker (tk_key r))" and "res = Inl (Push (ChangedOnTracker (tk_key r)))"
      and "s' = s" and "w' = w"
  | (declined) "settle how (tk_key r) = Inr False" and "(res, s') = decline pulled sync s" and "w' = w"
  | (went) ts ticket verdict writes where "pw_read trk (tk_key r) w = Some ts" and "ticket \<in> set ts" and "st_key ticket = tk_key r"
      and "status_verdict lower l (tk_synced_status r) (st_status ticket) trn (pw_kind trk) = (verdict, writes)"
      and "(\<exists>c b. verdict = VConflict c b) \<longrightarrow> settle how (tk_key r) = Inr True"
      and "case status_writes trk (tk_key r) (local_event l) trn writes w of
          (Inl e, w1) \<Rightarrow> res = Inl (Push e) \<and> s' = s \<and> w' = w1
        | (Inr _, w1) \<Rightarrow> w' = w1 \<and> (res, s') = record_push ops todo edit (sw_record writes) s"
proof -
  let ?key = "tk_key r" and ?close = "closes l (pw_kind trk)"
  let ?found = "Option.bind (pw_read trk ?key w) (find (\<lambda>t. st_key t = ?key))"
  have m: "\<not> (trn = None \<and> ?close = None)" using moves by blast
  note unf = push_status_def r option.case prod.case Let_def if_not_P [OF m]
  show ?thesis
  proof (cases "(trn \<noteq> None \<and> \<not> pw_writer trk \<and> ?close = None) \<or> ?found = None")
    case True
    then have "push_status lower ops trk trn how pulled sync todo edit l (s, w) = (Inl (Push (Unchanged ?key)), s, w)"
    proof
      assume wr: "trn \<noteq> None \<and> \<not> pw_writer trk \<and> ?close = None"
      show ?thesis by (simp only: unf if_P [OF wr])
    next
      assume none: "?found = None"
      show ?thesis by (simp only: unf none if_cancel)
    qed
    with push show ?thesis by (intro unread) simp_all
  next
    case False
    then have wr: "\<not> (trn \<noteq> None \<and> \<not> pw_writer trk \<and> ?close = None)" and "?found \<noteq> None" by blast+
    then obtain ts ticket where ts: "pw_read trk ?key w = Some ts" and t: "find (\<lambda>t. st_key t = ?key) ts = Some ticket"
      by (cases "pw_read trk ?key w") auto
    from find_Some_set [OF t] have tin: "ticket \<in> set ts" "st_key ticket = ?key" by auto
    obtain verdict writes where v: "status_verdict lower l (tk_synced_status r) (st_status ticket) trn (pw_kind trk) = (verdict, writes)"
      by (cases "status_verdict lower l (tk_synced_status r) (st_status ticket) trn (pw_kind trk)")
    have "push_status lower ops trk trn how pulled sync todo edit l (s, w) =
        (case (case verdict of VConflict _ _ \<Rightarrow> settle how ?key | _ \<Rightarrow> Inr True) of
           Inl e \<Rightarrow> (Inl (Push e), s, w)
         | Inr False \<Rightarrow> (case decline pulled sync s of (res, s') \<Rightarrow> (res, s', w))
         | Inr True \<Rightarrow>
             (case status_writes trk ?key (local_event l) trn writes w of
                (Inl e, w') \<Rightarrow> (Inl (Push e), s, w')
              | (Inr _, w') \<Rightarrow> (case record_push ops todo edit (sw_record writes) s of (res, s') \<Rightarrow> (res, s', w'))))"
      by (simp only: unf if_not_P [OF wr] ts t v Option.bind_lunit)
    with push have eq: "(res, s', w') =
        (case (case verdict of VConflict _ _ \<Rightarrow> settle how ?key | _ \<Rightarrow> Inr True) of
           Inl e \<Rightarrow> (Inl (Push e), s, w)
         | Inr False \<Rightarrow> (case decline pulled sync s of (res, s') \<Rightarrow> (res, s', w))
         | Inr True \<Rightarrow>
             (case status_writes trk ?key (local_event l) trn writes w of
                (Inl e, w') \<Rightarrow> (Inl (Push e), s, w')
              | (Inr _, w') \<Rightarrow> (case record_push ops todo edit (sw_record writes) s of (res, s') \<Rightarrow> (res, s', w'))))"
      by simp
    consider (go) "(case verdict of VConflict _ _ \<Rightarrow> settle how (tk_key r) | _ \<Rightarrow> Inr True) = Inr True"
      | (no) "settle how (tk_key r) = Inr False" "(case verdict of VConflict _ _ \<Rightarrow> settle how (tk_key r) | _ \<Rightarrow> Inr True) = Inr False"
      | (err) "settle how (tk_key r) = Inl (ChangedOnTracker (tk_key r))"
          "(case verdict of VConflict _ _ \<Rightarrow> settle how (tk_key r) | _ \<Rightarrow> Inr True) = Inl (ChangedOnTracker (tk_key r))"
      by (cases verdict; cases "settle how (tk_key r)") (auto simp: settle_def split: if_splits)
    then show ?thesis
    proof cases
      case go
      show ?thesis
      proof (rule went [OF ts tin v])
        show "(\<exists>c b. verdict = VConflict c b) \<longrightarrow> settle how (tk_key r) = Inr True" using go by auto
        show "case status_writes trk (tk_key r) (local_event l) trn writes w of
            (Inl e, w1) \<Rightarrow> res = Inl (Push e) \<and> s' = s \<and> w' = w1
          | (Inr _, w1) \<Rightarrow> w' = w1 \<and> (res, s') = record_push ops todo edit (sw_record writes) s"
          using eq unfolding go by (auto split: prod.splits sum.splits)
      qed
    next
      case no
      with eq show ?thesis by (intro declined) (auto split: prod.splits)
    next
      case err
      with eq show ?thesis by (intro refused) auto
    qed
  qed
qed

text \<open>
  C10: a push writes to a ticket only where nothing is lost: the ticket stands where the last sync left it, in a
  status the event's \<open>from\<close> names, where the change takes it, or is an open issue no event moves;
  anything else is written over only with the flag or when a person at a terminal says so.
\<close>

theorem push_writes_justified:
  assumes "push_status lower ops trk trn how pulled sync todo edit l (s, w) = (res, s', w')"
    and "td_ticket todo = Some r" and "w' \<noteq> w"
  shows "\<exists>ts t. pw_read trk (tk_key r) w = Some ts \<and> t \<in> set ts \<and> st_key t = tk_key r
    \<and> (undisturbed lower l (tk_synced_status r) (st_status t) trn (pw_kind trk)
       \<or> se_overwrite how \<or> se_person how \<and> se_terminal how \<and> se_confirms how)"
proof -
  have moves: "trn \<noteq> None \<or> closes l (pw_kind trk) \<noteq> None"
  proof (rule ccontr)
    assume "\<not> ?thesis"
    then have "trn = None \<and> closes l (pw_kind trk) = None" by blast
    with assms show False by (simp add: push_status_def Let_def split: prod.splits)
  qed
  from assms(1,2) moves show ?thesis
  proof (cases rule: push_status_cases)
    case (went ts t verdict writes)
    have "undisturbed lower l (tk_synced_status r) (st_status t) trn (pw_kind trk) \<or> settle how (tk_key r) = Inr True"
      using verdict_conflict [OF moves, of lower "tk_synced_status r" "st_status t"] went(4,5)
      by (auto simp: status_verdict_def Let_def)
    then have "undisturbed lower l (tk_synced_status r) (st_status t) trn (pw_kind trk)
       \<or> se_overwrite how \<or> se_person how \<and> se_terminal how \<and> se_confirms how"
      by (auto simp: settle_def split: if_splits)
    with went(1-3) show ?thesis by blast
  qed (use assms(3) in simp_all)
qed





lemma plan_edits_in:
  assumes "sync_plan lower name node existing fetched known statuses = Inr p" and "t \<in> set fetched"
    and "x \<in> set (fst (snd (plan_one name node existing (synced_keys name existing fetched) statuses t)))"
  shows "x \<in> set (sp_edits p)"
  using assms by (simp add: sync_plan_cases Let_def split: if_splits) auto

text \<open>
  C12: a push is not undone: it records the name of the status its writes leave the ticket at, so as long as the tracker
  shows the ticket at that status, spelled as the push left it, the next sync of the ticket sets no status. The
  one push this does not cover is a start of an issue that is closed and stays closed.
\<close>

theorem push_not_undone:
  assumes "status_verdict lower l baseline current event trk = (v, writes)" and "sw_record writes = Some n"
    and "\<And>c. current = Closed c \<Longrightarrow> closes l trk \<noteq> None"
    and "ticket_todo name existing key = Some todo" and "Option.bind (td_ticket todo) tk_synced_status = Some n"
    and "\<forall>t\<in>set fetched. st_key t = key \<longrightarrow> st_status t = left_at current writes event"
    and "sync_plan lower name node existing fetched known statuses = Inr p"
    and "e \<in> set (sp_edits p)" and "pe_key e = key"
  shows "pe_change e \<noteq> ToStatus k"
proof
  assume to: "pe_change e = ToStatus k"
  have n: "n = status_name (left_at current writes event)" by (rule record_left_at [OF assms(1-3)])
  from plan_edits_from [OF assms(7,8)] obtain t where t: "t \<in> set fetched" "pe_key e = st_key t"
    and one: "e \<in> set (fst (snd (plan_one name node existing (synced_keys name existing fetched) statuses t)))
       \<or> e \<in> set (snd (snd (plan_one name node existing (synced_keys name existing fetched) statuses t)))" by blast
  from t assms(6,9) have "st_status t = left_at current writes event" "st_key t = key" by auto
  with one to assms(4,5) n show False
    by (auto simp: plan_one_def plan_known_def planned_def Let_def split: if_splits)
qed

text \<open>
  That exception is real: starting the todo of a closed issue records the event's status over an issue that
  stays closed, and the next sync, seeing the close again, moves the todo back.
\<close>

lemma start_on_closed_moved_back:
  assumes "status_verdict lower LStart (Some (status_name (Closed c))) (Closed c) (Some (any_from to)) Github = (v, writes)"
    and "to \<noteq> status_name (Closed c)"
    and "ticket_todo name existing (st_key t) = Some todo" and "Option.bind (td_ticket todo) tk_synced_status = sw_record writes"
    and "st_status t = Closed c" and "t \<in> set fetched"
    and "sync_plan lower name node existing fetched known statuses = Inr p"
  shows "v = VWrite \<and> (\<exists>k. k \<in> {KCompleted, KCancelled} \<and> planned t (ToStatus k) \<in> set (sp_edits p))"
proof -
  have star: "trim ''*'' = ''*''" by code_simp
  have v: "v = VWrite" "sw_record writes = Some to"
    using assms(1) by (auto simp: status_verdict_def verdict_of_def Let_def closes_def named_from_def any_from_def same_status_def star)
  obtain k where k: "target_kind (st_status t) statuses = Some k" "k \<in> {KCompleted, KCancelled}"
    using assms(5) by (cases c) (auto simp: target_kind_def)
  let ?one = "plan_one name node existing (synced_keys name existing fetched) statuses"
  have "planned t (ToStatus k) \<in> set (fst (snd (?one t)))"
    using assms(2-5) v(2) k(1) by (simp add: plan_one_def plan_known_def Let_def)
  then have "planned t (ToStatus k) \<in> set (sp_edits p)" by (rule plan_edits_in [OF assms(7,6)])
  with v(1) k(2) show ?thesis by blast
qed

text \<open>
  And a recorded status is spelled as the event spells it: a tracker that spells it otherwise moves the todo
  at the next sync, though the names match.
\<close>

lemma spelling_moves_todo:
  assumes "status_verdict lower l baseline (Named at) (Some e) Linear = (v, writes)" and "v = VWrite"
    and "st_status t = Named shown" and "same_status lower shown (et_to e)" and "shown \<noteq> et_to e"
    and "ticket_todo name existing (st_key t) = Some todo" and "Option.bind (td_ticket todo) tk_synced_status = sw_record writes"
    and "t \<in> set fetched" and "sync_plan lower name node existing fetched known statuses = Inr p"
  shows "\<exists>k. planned t (ToStatus k) \<in> set (sp_edits p)"
proof -
  have "closes l Linear = None" by (cases l) (simp_all add: closes_def)
  with assms(1,2) have rec: "sw_record writes = Some (et_to e)" by (auto simp: status_verdict_def Let_def)
  let ?one = "plan_one name node existing (synced_keys name existing fetched) statuses"
  have "planned t (ToStatus (the (target_kind (st_status t) statuses))) \<in> set (fst (snd (?one t)))"
    using assms(3,5,6,7) rec by (simp add: plan_one_def plan_known_def Let_def status_name_def)
  from plan_edits_in [OF assms(9,8) this] show ?thesis by blast
qed

section \<open>A push and the sync after it\<close>

text \<open>A tracker of one ticket, whose state is the ticket's status, and a store that counts the edits it lands.\<close>

definition push_ticket :: "TicketStatus \<Rightarrow> SyncedTicket" where
  "push_ticket st = \<lparr>st_key = ''A'', st_title = ''x'', st_status = st, st_blocked_by = [], st_parent = None\<rparr>"

definition push_demo :: "TicketStatus push_tracker" where
  "push_demo = \<lparr>pw_kind = Linear, pw_writer = True, pw_read = (\<lambda>_ st. Some [push_ticket st]),
     pw_close = (\<lambda>_ reason _. (True, Closed reason)), pw_parent = (\<lambda>_ _ _. None), pw_set_parent = (\<lambda>_ _ _ st. (False, st)),
     pw_pair = (\<lambda>_ _ _. None), pw_set_blocked = (\<lambda>_ _ _ st. (False, st)), pw_move = (\<lambda>_ _ t _. (True, Named (et_to t)))\<rparr>"

definition push_ops :: "(nat, unit) todo_ops" where
  "push_ops = \<lparr>op_list = (\<lambda>_ n. (Inr [], n)), op_get = (\<lambda>_ n. (Inr None, n)), op_add = (\<lambda>_ n. (Inl (), n)),
     op_apply = (\<lambda>_ n. (Inr [], n + 1))\<rparr>"

definition push_todo :: Todo where
  "push_todo = \<lparr>td_id = ''1'', td_description = ''A x'', td_status = Pending, td_parent = None, td_order = None,
     td_project = Some ''n'', td_entry = None, td_modified = None, td_blocked_by = [],
     td_ticket = Some \<lparr>tk_tracker = ''linear'', tk_key = ''A'', tk_synced_status = Some ''Todo''\<rparr>\<rparr>"

definition push_run :: "(unit push_fault + bool) \<times> nat \<times> TicketStatus" where
  "push_run = push_status id push_ops push_demo (Some (any_from ''Doing'')) \<lparr>se_overwrite = False, se_person = False,
     se_terminal = False, se_confirms = False\<rparr> True (\<lambda>n. (Inr None, n)) push_todo (SetStatus ''1'' KInProgress human) LStart
     (0, Named ''Todo'')"

lemma push_run: "push_run = (Inr True, 2, Named ''Doing'')"
  by code_simp

theorem push_writes_justified_witness:
  "undisturbed id LStart (Some ''Todo'') (Named ''Todo'') (Some (any_from ''Doing'')) Linear"
proof -
  from push_writes_justified [OF push_run [unfolded push_run_def], of "\<lparr>tk_tracker = ''linear'', tk_key = ''A'', tk_synced_status = Some ''Todo''\<rparr>"]
  show ?thesis by (simp add: push_todo_def push_demo_def push_ticket_def)
qed


definition pushed_todo :: Todo where
  "pushed_todo = push_todo\<lparr>td_ticket := Some \<lparr>tk_tracker = ''linear'', tk_key = ''A'', tk_synced_status = Some ''Doing''\<rparr>\<rparr>"

definition push_statuses :: StatusMap where
  "push_statuses = [(''Doing'', MInProgress), (''Todo'', MPending)]"

definition push_renamed :: SyncedTicket where
  "push_renamed = push_ticket (Named ''Doing'')\<lparr>st_title := ''y''\<rparr>"

definition push_describe :: PlannedEdit where
  "push_describe = \<lparr>pe_key = ''A'', pe_change = Describing ''A y''\<rparr>"

theorem push_not_undone_witness:
  "\<exists>p. sync_plan id ''linear'' ''n'' [pushed_todo] [push_renamed] [''Todo'', ''Doing''] push_statuses = Inr p
     \<and> push_describe \<in> set (sp_edits p) \<and> pe_change push_describe \<noteq> ToStatus KInProgress"
proof -
  have v: "status_verdict id LStart (Some ''Todo'') (Named ''Todo'') (Some (any_from ''Doing'')) Linear
      = (VWrite, \<lparr>sw_close = None, sw_field = Some FSet, sw_record = Some ''Doing''\<rparr>)" by code_simp
  have plan: "sync_plan id ''linear'' ''n'' [pushed_todo] [push_renamed] [''Todo'', ''Doing''] push_statuses
      = Inr \<lparr>sp_adds = [], sp_edits = [push_describe]\<rparr>" by code_simp
  have todo: "ticket_todo ''linear'' [pushed_todo] ''A'' = Some pushed_todo" by code_simp
  have rest: "Option.bind (td_ticket pushed_todo) tk_synced_status = Some ''Doing''" by code_simp
  have left: "left_at (Named ''Todo'') \<lparr>sw_close = None, sw_field = Some FSet, sw_record = Some ''Doing''\<rparr> (Some (any_from ''Doing''))
      = Named ''Doing''" by code_simp
  from push_not_undone [OF v _ _ todo rest _ plan, of push_describe KInProgress]
  show ?thesis unfolding plan by (simp add: left push_renamed_def push_ticket_def push_describe_def)
qed

end
