(* ===== verification/Todo_Queue.thy ===== *)
theory Todo_Queue
  imports Todo_Model
begin

text \<open>
  Hook writes to a taskchampion replica, queued beside it (\<open>src/bin/devkit/todo/queue.rs\<close>, and
  \<open>record_write\<close> of \<open>src/bin/devkit/hook/todo.rs\<close>): any number of processes append entries and drain the queue,
  one at a time.

  A process is where it stands in \<open>drain\<close>; a step is one call under the file lock, one attempt on the drain
  lock, or one entry applied. Whether a call fails, and how applying an entry ends, is open at each
  step. The file is the list of its lines, a line that does not parse being \<open>None\<close>, and whether its last
  line lacks a newline. A write may be cut short: an append may leave part of a line, which the next append
  then lengthens, and the rewrite of a pop, which truncates the file first, may leave part of what it had to keep.
\<close>

section \<open>The file\<close>

type_synonym 'e line = "'e option"

definition push_line :: "'e \<Rightarrow> 'e line list \<Rightarrow> 'e line list" where
  "push_line e q = q @ [Some e]"

definition peek_line :: "'e line list \<Rightarrow> 'e line option" where
  "peek_line q = (case q of [] \<Rightarrow> None | l # _ \<Rightarrow> Some l)"

definition pop_line :: "'e line list \<Rightarrow> 'e line list" where
  "pop_line q = drop 1 q"

datatype outcome = Applied | Failed | Busy

section \<open>The processes\<close>

datatype 'e pc = Idle | Entering | Peeking | Applying "'e line" | Popping | Leaving | Rechecking

text \<open>
  \<open>qs_pushed\<close> is every line ever appended, \<open>qs_popped\<close> how many are gone, \<open>qs_tried\<close> the entries tried, by
  position, with their outcomes, \<open>qs_stopped\<close> whether a drain ever gave up: on a busy replica lock, a
  file it could not read or rewrite, a lock it could not open, or a crash; and \<open>qs_damaged\<close> whether a write to the
  file was ever cut short.
\<close>

record 'e queue_state =
  qs_lines :: "'e line list"
  qs_torn :: bool
  qs_holder :: "nat option"
  qs_at :: "nat \<Rightarrow> 'e pc"
  qs_pushed :: "'e line list"
  qs_popped :: nat
  qs_tried :: "(nat \<times> 'e line \<times> outcome) list"
  qs_stopped :: bool
  qs_damaged :: bool

definition queue_init :: "'e line list \<Rightarrow> 'e queue_state" where
  "queue_init q = \<lparr>qs_lines = q, qs_torn = False, qs_holder = None, qs_at = (\<lambda>_. Idle), qs_pushed = q, qs_popped = 0,
     qs_tried = [], qs_stopped = False, qs_damaged = False\<rparr>"

definition go :: "nat \<Rightarrow> 'e pc \<Rightarrow> 'e queue_state \<Rightarrow> 'e queue_state" where
  "go p c s = s\<lparr>qs_at := (qs_at s)(p := c)\<rparr>"

text \<open>A drain that returns while it holds the drain lock gives it back.\<close>

definition give_up :: "nat \<Rightarrow> 'e queue_state \<Rightarrow> 'e queue_state" where
  "give_up p s = (go p Idle s)\<lparr>qs_holder := (if qs_holder s = Some p then None else qs_holder s), qs_stopped := True\<rparr>"

text \<open>
  An append after a line without its newline lengthens that line, and what the whole then reads as is open.
\<close>

definition appended :: "'e line \<Rightarrow> bool \<Rightarrow> 'e queue_state \<Rightarrow> 'e queue_state" where
  "appended l torn s =
     s\<lparr>qs_lines := (if qs_torn s then butlast (qs_lines s) else qs_lines s) @ [l],
       qs_pushed := (if qs_torn s then butlast (qs_pushed s) else qs_pushed s) @ [l],
       qs_torn := torn\<rparr>"

inductive queue_step :: "'e queue_state \<Rightarrow> 'e queue_state \<Rightarrow> bool" where
  pushed: "qs_at s p = Idle \<Longrightarrow> \<not> qs_torn s \<Longrightarrow>
    queue_step s (go p Entering s\<lparr>qs_lines := push_line e (qs_lines s), qs_pushed := push_line e (qs_pushed s)\<rparr>)"
| lengthened: "qs_at s p = Idle \<Longrightarrow> qs_torn s \<Longrightarrow> queue_step s (go p Entering (appended l False s))"
| cut_short: "qs_at s p = Idle \<Longrightarrow> queue_step s (go p Entering (appended l True s)\<lparr>qs_damaged := True\<rparr>)"
| asked: "qs_at s p = Idle \<Longrightarrow> queue_step s (go p Entering s)"
| locked: "qs_at s p = Entering \<Longrightarrow> qs_holder s = None \<Longrightarrow> queue_step s (go p Peeking s\<lparr>qs_holder := Some p\<rparr>)"
| elsewhere: "qs_at s p = Entering \<Longrightarrow> qs_holder s \<noteq> None \<Longrightarrow> queue_step s (go p Idle s)"
| peeked: "qs_at s p = Peeking \<Longrightarrow> peek_line (qs_lines s) = Some l \<Longrightarrow> queue_step s (go p (Applying l) s)"
| emptied: "qs_at s p = Peeking \<Longrightarrow> peek_line (qs_lines s) = None \<Longrightarrow> queue_step s (go p Leaving s)"
| applied: "qs_at s p = Applying (Some e) \<Longrightarrow> out \<noteq> Busy \<Longrightarrow>
    queue_step s (go p Popping s\<lparr>qs_tried := qs_tried s @ [(qs_popped s, Some e, out)]\<rparr>)"
| unparsed: "qs_at s p = Applying None \<Longrightarrow>
    queue_step s (go p Popping s\<lparr>qs_tried := qs_tried s @ [(qs_popped s, None, Failed)]\<rparr>)"
| busy: "qs_at s p = Applying (Some e) \<Longrightarrow>
    queue_step s ((give_up p s)\<lparr>qs_tried := qs_tried s @ [(qs_popped s, Some e, Busy)]\<rparr>)"
| popped: "qs_at s p = Popping \<Longrightarrow>
    queue_step s (go p Peeking s\<lparr>qs_lines := pop_line (qs_lines s), qs_torn := False, qs_popped := qs_popped s + 1\<rparr>)"
| rewrite_cut: "qs_at s p = Popping \<Longrightarrow> torn \<longrightarrow> left \<noteq> [] \<Longrightarrow>
    left = take n (pop_line (qs_lines s)) \<or> torn \<and> left = take n (pop_line (qs_lines s)) @ [l] \<Longrightarrow>
    queue_step s ((give_up p s)\<lparr>qs_lines := left, qs_torn := torn, qs_damaged := True\<rparr>)"
| left: "qs_at s p = Leaving \<Longrightarrow> queue_step s (go p Rechecking s\<lparr>qs_holder := None\<rparr>)"
| again: "qs_at s p = Rechecking \<Longrightarrow> peek_line (qs_lines s) = Some l \<Longrightarrow> queue_step s (go p Entering s)"
| settled: "qs_at s p = Rechecking \<Longrightarrow> peek_line (qs_lines s) = None \<Longrightarrow> queue_step s (go p Idle s)"
| fault: "qs_at s p \<noteq> Idle \<Longrightarrow> queue_step s (give_up p s)"

abbreviation queue_steps :: "'e queue_state \<Rightarrow> 'e queue_state \<Rightarrow> bool" where
  "queue_steps \<equiv> queue_step\<^sup>*\<^sup>*"

section \<open>The invariant\<close>

definition draining :: "'e pc \<Rightarrow> bool" where
  "draining c \<longleftrightarrow> c = Peeking \<or> (\<exists>l. c = Applying l) \<or> c = Popping \<or> c = Leaving"

lemma draining_simps [simp]:
  "draining Peeking" "draining (Applying l)" "draining Popping" "draining Leaving"
  "\<not> draining Idle" "\<not> draining Entering" "\<not> draining Rechecking"
  by (simp_all add: draining_def)

text \<open>
  One process drains; the file is what is left of what was appended, unless a drain was stopped after a write was cut
  short; what left it was tried, in order, as it was appended.
\<close>

definition lock_ok :: "'e queue_state \<Rightarrow> bool" where
  "lock_ok s \<longleftrightarrow> (\<forall>p. draining (qs_at s p) = (qs_holder s = Some p))"

definition lines_ok :: "'e queue_state \<Rightarrow> bool" where
  "lines_ok s \<longleftrightarrow> qs_damaged s \<and> qs_stopped s
     \<or> qs_popped s \<le> length (qs_pushed s) \<and> qs_lines s = drop (qs_popped s) (qs_pushed s)"

definition torn_ok :: "'e queue_state \<Rightarrow> bool" where
  "torn_ok s \<longleftrightarrow> (qs_torn s \<longrightarrow> qs_damaged s \<and> qs_lines s \<noteq> [])"

definition front_ok :: "'e queue_state \<Rightarrow> bool" where
  "front_ok s \<longleftrightarrow> (\<forall>p. (\<exists>l. qs_at s p = Applying l) \<or> qs_at s p = Popping \<longrightarrow> qs_lines s \<noteq> [])"

definition tries_ok :: "'e queue_state \<Rightarrow> bool" where
  "tries_ok s \<longleftrightarrow> sorted (map fst (qs_tried s)) \<and> (\<forall>x\<in>set (qs_tried s). fst x \<le> qs_popped s)
     \<and> (\<forall>i<qs_popped s. \<exists>l out. (i, l, out) \<in> set (qs_tried s) \<and> out \<noteq> Busy)
     \<and> (\<forall>p. qs_at s p = Popping \<longrightarrow> (\<exists>l out. (qs_popped s, l, out) \<in> set (qs_tried s) \<and> out \<noteq> Busy))"

definition entries_ok :: "'e queue_state \<Rightarrow> bool" where
  "entries_ok s \<longleftrightarrow> qs_damaged s
     \<or> (\<forall>x\<in>set (qs_tried s). fst x < length (qs_pushed s) \<and> fst (snd x) = qs_pushed s ! fst x)
       \<and> (\<forall>p l. qs_at s p = Applying l \<longrightarrow> peek_line (qs_lines s) = Some l)"

definition once_ok :: "'e queue_state \<Rightarrow> bool" where
  "once_ok s \<longleftrightarrow> qs_stopped s \<or> distinct (map fst (qs_tried s))
     \<and> ((\<forall>p. qs_at s p \<noteq> Popping) \<longrightarrow> (\<forall>x\<in>set (qs_tried s). fst x < qs_popped s))"

definition awake :: "'e queue_state \<Rightarrow> bool" where
  "awake s \<longleftrightarrow> qs_stopped s \<or> qs_lines s = [] \<or> (\<exists>p. qs_at s p \<noteq> Idle)"

lemmas queue_line_defs = push_line_def peek_line_def pop_line_def go_def give_up_def appended_def

lemma queue_init_ok:
  "lock_ok (queue_init q)" "lines_ok (queue_init q)" "front_ok (queue_init q)" "tries_ok (queue_init q)" "once_ok (queue_init q)"
  "torn_ok (queue_init q)" "entries_ok (queue_init q)" "awake (queue_init [])"
  by (simp_all add: lock_ok_def lines_ok_def front_ok_def tries_ok_def once_ok_def awake_def torn_ok_def entries_ok_def queue_init_def)

lemma one_drains: "lock_ok s \<Longrightarrow> draining (qs_at s p) \<Longrightarrow> draining (qs_at s q) \<Longrightarrow> p = q"
  unfolding lock_ok_def by auto

text \<open>A step moves one process; the drain lock goes to it, or from it, or stays where it is.\<close>

lemma lock_ok_other [simp]:
  "lock_ok (s\<lparr>qs_lines := ls\<rparr>) = lock_ok s" "lock_ok (s\<lparr>qs_lines := ls, qs_pushed := ps\<rparr>) = lock_ok s"
  "lock_ok (s\<lparr>qs_lines := ls, qs_torn := t, qs_popped := n\<rparr>) = lock_ok s" "lock_ok (s\<lparr>qs_tried := ts\<rparr>) = lock_ok s"
  "lock_ok (s\<lparr>qs_damaged := dm\<rparr>) = lock_ok s" "lock_ok (s\<lparr>qs_lines := ls, qs_torn := t\<rparr>) = lock_ok s"
  "lock_ok (appended l t s) = lock_ok s" "qs_at (appended l t s) = qs_at s"
  by (simp_all add: lock_ok_def appended_def)

lemma lock_ok_go:
  assumes "lock_ok s" and "draining (qs_at s p) = draining c"
  shows "lock_ok (go p c s)"
  using assms unfolding lock_ok_def by (simp add: go_def)

lemma lock_ok_take: "lock_ok s \<Longrightarrow> qs_holder s = None \<Longrightarrow> draining c \<Longrightarrow> lock_ok (go p c s\<lparr>qs_holder := Some p\<rparr>)"
  by (simp add: lock_ok_def go_def)

lemma lock_ok_release: "lock_ok s \<Longrightarrow> draining (qs_at s p) \<Longrightarrow> \<not> draining c \<Longrightarrow> lock_ok (go p c s\<lparr>qs_holder := None\<rparr>)"
  unfolding lock_ok_def by (simp add: go_def)

lemma lock_ok_give_up: "lock_ok s \<Longrightarrow> lock_ok (give_up p s)"
  unfolding lock_ok_def by (simp add: give_up_def go_def)

lemma lock_ok_step: "queue_step s s' \<Longrightarrow> lock_ok s \<Longrightarrow> lock_ok s'"
  by (induction rule: queue_step.induct)
    (simp_all add: lock_ok_go lock_ok_take lock_ok_release lock_ok_give_up)

lemma front_ok_step: "queue_step s s' \<Longrightarrow> lock_ok s \<Longrightarrow> front_ok s \<Longrightarrow> front_ok s'"
proof (induction rule: queue_step.induct)
  case (popped s p)
  then have "q = p" if "draining (qs_at s q)" for q using one_drains [OF _ that, of p] by simp
  then show ?case by (auto simp: front_ok_def queue_line_defs draining_def)
next
  case (rewrite_cut s p torn left n l)
  then have "q = p" if "draining (qs_at s q)" for q using one_drains [OF _ that, of p] by simp
  then show ?case by (auto simp: front_ok_def give_up_def go_def draining_def)
qed (auto simp: front_ok_def queue_line_defs split: list.splits if_splits)

lemma torn_ok_step: "queue_step s s' \<Longrightarrow> torn_ok s \<Longrightarrow> torn_ok s'"
  by (induction rule: queue_step.induct) (auto simp: torn_ok_def queue_line_defs)

lemma lines_ok_step: "queue_step s s' \<Longrightarrow> front_ok s \<Longrightarrow> torn_ok s \<Longrightarrow> lines_ok s \<Longrightarrow> lines_ok s'"
proof (induction rule: queue_step.induct)
  case (popped s p)
  then have "qs_damaged s \<and> qs_stopped s \<or> qs_popped s < length (qs_pushed s)" by (auto simp: front_ok_def lines_ok_def)
  with popped show ?case by (auto simp: lines_ok_def queue_line_defs drop_Suc tl_drop)
next
  case (lengthened s p l)
  then show ?case by (auto simp: lines_ok_def torn_ok_def queue_line_defs butlast_drop)
next
  case (cut_short s p l)
  then show ?case by (auto simp: lines_ok_def torn_ok_def queue_line_defs butlast_drop)
qed (auto simp: lines_ok_def queue_line_defs)

lemma front_entry:
  assumes "lines_ok s" and "\<not> qs_damaged s" and "peek_line (qs_lines s) = Some l"
  shows "qs_popped s < length (qs_pushed s) \<and> qs_pushed s ! qs_popped s = l"
proof -
  from assms(3) obtain ls where "qs_lines s = l # ls" by (auto simp: peek_line_def split: list.splits)
  with assms(1,2) have d: "drop (qs_popped s) (qs_pushed s) = l # ls" by (simp add: lines_ok_def)
  then have "qs_popped s < length (qs_pushed s)" by (metis drop_all leI list.distinct(1))
  with nth_via_drop [OF d] show ?thesis by simp
qed

lemma entries_ok_step: "queue_step s s' \<Longrightarrow> lock_ok s \<Longrightarrow> torn_ok s \<Longrightarrow> lines_ok s \<Longrightarrow> entries_ok s \<Longrightarrow> entries_ok s'"
proof (induction rule: queue_step.induct)
  case (pushed s p e)
  then show ?case
    by (auto simp: entries_ok_def queue_line_defs nth_append split: list.splits)
next
  case (applied s p e out)
  then have "\<not> qs_damaged s \<longrightarrow> qs_popped s < length (qs_pushed s) \<and> qs_pushed s ! qs_popped s = Some e"
    by (intro impI front_entry) (simp_all add: entries_ok_def)
  with applied show ?case by (auto simp: entries_ok_def queue_line_defs split: list.splits)
next
  case (unparsed s p)
  then have "\<not> qs_damaged s \<longrightarrow> qs_popped s < length (qs_pushed s) \<and> qs_pushed s ! qs_popped s = None"
    by (intro impI front_entry) (simp_all add: entries_ok_def)
  with unparsed show ?case by (auto simp: entries_ok_def queue_line_defs split: list.splits)
next
  case (busy s p e)
  then have "\<not> qs_damaged s \<longrightarrow> qs_popped s < length (qs_pushed s) \<and> qs_pushed s ! qs_popped s = Some e"
    by (intro impI front_entry) (simp_all add: entries_ok_def)
  with busy show ?case by (auto simp: entries_ok_def queue_line_defs split: list.splits)
next
  case (popped s p)
  then have "q = p" if "draining (qs_at s q)" for q using one_drains [OF _ that, of p] by simp
  with popped show ?case by (auto simp: entries_ok_def queue_line_defs draining_def)
qed (auto simp: entries_ok_def torn_ok_def queue_line_defs split: list.splits if_splits)

lemma tries_ok_step: "queue_step s s' \<Longrightarrow> lock_ok s \<Longrightarrow> tries_ok s \<Longrightarrow> tries_ok s'"
proof (induction rule: queue_step.induct)
  case (popped s p)
  then have q: "q = p" if "draining (qs_at s q)" for q using one_drains [OF _ that, of p] by simp
  from popped have "\<exists>l out. (i, l, out) \<in> set (qs_tried s) \<and> out \<noteq> Busy" if "i < qs_popped s + 1" for i
    using that by (cases "i = qs_popped s") (auto simp: tries_ok_def)
  moreover have "qs_at s q \<noteq> Popping" if "q \<noteq> p" for q using q that by (metis draining_simps(3))
  ultimately show ?case using popped by (auto simp: tries_ok_def queue_line_defs)
next
  case (applied s p e out)
  then show ?case by (auto simp: tries_ok_def queue_line_defs sorted_append)
next
  case (unparsed s p)
  then show ?case by (auto simp: tries_ok_def queue_line_defs sorted_append)
next
  case (busy s p e)
  then show ?case by (auto simp: tries_ok_def queue_line_defs sorted_append)
next
  case (rewrite_cut s p torn left n l)
  then show ?case by (auto simp: tries_ok_def give_up_def go_def)
qed (auto simp: tries_ok_def queue_line_defs)

lemma no_popping_go: "\<forall>q. qs_at (go p c s) q \<noteq> Popping \<Longrightarrow> qs_at s p \<noteq> Popping \<Longrightarrow> qs_at s q \<noteq> Popping"
  by (erule allE [of _ q]) (auto simp: go_def split: if_splits)

lemma once_ok_other [simp]:
  "once_ok (s\<lparr>qs_lines := ls, qs_pushed := ps\<rparr>) = once_ok s" "once_ok (s\<lparr>qs_holder := h\<rparr>) = once_ok s"
  "once_ok (s\<lparr>qs_damaged := dm\<rparr>) = once_ok s" "once_ok (appended l t s) = once_ok s"
  by (simp_all add: once_ok_def appended_def)

lemma once_ok_go: "once_ok s \<Longrightarrow> qs_at s p \<noteq> Popping \<Longrightarrow> once_ok (go p c s)"
  using no_popping_go [of p c s] by (auto simp: once_ok_def) (auto simp: go_def)

lemma once_ok_step: "queue_step s s' \<Longrightarrow> lock_ok s \<Longrightarrow> tries_ok s \<Longrightarrow> once_ok s \<Longrightarrow> once_ok s'"
proof (induction rule: queue_step.induct)
  case (applied s p e out)
  then have "qs_at s q \<noteq> Popping" for q using one_drains [of s p q] by auto
  with applied show ?case by (fastforce simp: once_ok_def queue_line_defs)
next
  case (unparsed s p)
  then have "qs_at s q \<noteq> Popping" for q using one_drains [of s p q] by auto
  with unparsed show ?case by (fastforce simp: once_ok_def queue_line_defs)
next
  case (popped s p)
  then show ?case by (fastforce simp: once_ok_def tries_ok_def queue_line_defs less_Suc_eq_le)
next
  case (busy s p e)
  then show ?case by (simp add: once_ok_def give_up_def)
next
  case (rewrite_cut s p torn left n l)
  then show ?case by (simp add: once_ok_def give_up_def)
next
  case (fault s p)
  then show ?case by (simp add: once_ok_def give_up_def)
qed (simp_all add: once_ok_go)

lemma awake_at: "qs_at s' p \<noteq> Idle \<Longrightarrow> awake s'"
  by (auto simp: awake_def)

lemma go_at [simp]: "qs_at (go p c s) p = c"
  by (simp add: go_def)

lemma awake_step: "queue_step s s' \<Longrightarrow> lock_ok s \<Longrightarrow> awake s \<Longrightarrow> awake s'"
proof (induction rule: queue_step.induct)
  case (elsewhere s p)
  then obtain q where "qs_holder s = Some q" by auto
  then have "draining (qs_at s q)" using elsewhere.prems(1) by (simp add: lock_ok_def)
  moreover from this elsewhere.hyps(1) have "q \<noteq> p" by auto
  ultimately have "qs_at (go p Idle s) q \<noteq> Idle" by (auto simp: go_def)
  then show ?case by (rule awake_at)
next
  case (settled s p)
  then show ?case by (simp add: awake_def go_def peek_line_def split: list.splits)
next
  case (busy s p e)
  then show ?case by (simp add: awake_def give_up_def)
next
  case (rewrite_cut s p torn left n l)
  then show ?case by (simp add: awake_def give_up_def)
next
  case (fault s p)
  then show ?case by (simp add: awake_def give_up_def)
next
  case (lengthened s p l)
  then show ?case by (simp add: awake_at [of _ p])
next
  case (cut_short s p l)
  then show ?case by (simp add: awake_at [of _ p])
next
  case (pushed s p e)
  then show ?case by (simp add: awake_at [of _ p])
next
  case (asked s p)
  then show ?case by (simp add: awake_at [of _ p])
next
  case (locked s p)
  then show ?case by (simp add: awake_at [of _ p])
next
  case (peeked s p l)
  then show ?case by (simp add: awake_at [of _ p])
next
  case (emptied s p)
  then show ?case by (simp add: awake_at [of _ p])
next
  case (applied s p e out)
  then show ?case by (simp add: awake_at [of _ p])
next
  case (unparsed s p)
  then show ?case by (simp add: awake_at [of _ p])
next
  case (popped s p)
  then show ?case by (simp add: awake_at [of _ p])
next
  case (left s p)
  then show ?case by (simp add: awake_at [of _ p])
next
  case (again s p l)
  then show ?case by (simp add: awake_at [of _ p])
qed

definition queue_ok :: "'e queue_state \<Rightarrow> bool" where
  "queue_ok s \<longleftrightarrow> lock_ok s \<and> front_ok s \<and> torn_ok s \<and> lines_ok s \<and> tries_ok s \<and> entries_ok s \<and> once_ok s"

lemma queue_ok_step: "queue_step s s' \<Longrightarrow> queue_ok s \<Longrightarrow> queue_ok s'"
  unfolding queue_ok_def
  by (intro conjI; elim conjE)
    (rule lock_ok_step front_ok_step torn_ok_step lines_ok_step tries_ok_step entries_ok_step once_ok_step, assumption+)+

lemma queue_reach: "queue_steps (queue_init q) s \<Longrightarrow> queue_ok s"
  by (induction rule: rtranclp_induct) (simp add: queue_ok_def queue_init_ok, blast intro: queue_ok_step)

section \<open>What the queue promises\<close>

text \<open>
  C14: hook writes are applied in the order they arrived. Whatever the processes do and wherever they fail, positions are
  tried in order, each only once all before it have been applied or have failed for good, and as long as no drain
  was cut short no position is tried twice. As long as no write to the queue file was cut short, nothing queued is lost
  or skipped, the file is what is left of what was appended, and what was tried at a position is the entry appended
  there.
\<close>

theorem queue_in_order:
  assumes "queue_steps (queue_init q) s"
  shows "sorted (map fst (qs_tried s))
    \<and> (\<forall>i<qs_popped s. \<exists>l out. (i, l, out) \<in> set (qs_tried s) \<and> out \<noteq> Busy)
    \<and> (\<forall>x\<in>set (qs_tried s). fst x \<le> qs_popped s)
    \<and> (\<not> qs_stopped s \<longrightarrow> distinct (map fst (qs_tried s)))
    \<and> (\<not> qs_damaged s \<longrightarrow> qs_lines s = drop (qs_popped s) (qs_pushed s) \<and> qs_popped s \<le> length (qs_pushed s)
        \<and> (\<forall>(i, l, out)\<in>set (qs_tried s). i < length (qs_pushed s) \<and> l = qs_pushed s ! i))"
proof -
  have ok: "lines_ok s" "tries_ok s" "once_ok s" "entries_ok s" using queue_reach [OF assms] by (simp_all add: queue_ok_def)
  have "qs_lines s = drop (qs_popped s) (qs_pushed s) \<and> qs_popped s \<le> length (qs_pushed s)
      \<and> (\<forall>(i, l, out)\<in>set (qs_tried s). i < length (qs_pushed s) \<and> l = qs_pushed s ! i)" if "\<not> qs_damaged s"
    using ok(1,4) that by (auto simp: lines_ok_def entries_ok_def)
  with ok(2,3) show ?thesis unfolding tries_ok_def once_ok_def by blast
qed

text \<open>
  That condition is real: the rewrite of a pop truncates the file, so one that is cut short can lose entries whose
  callers were told they are safely queued.
\<close>

lemma rewrite_loses:
  assumes "qs_at s p = Popping"
  shows "queue_step s ((give_up p s)\<lparr>qs_lines := [], qs_torn := False, qs_damaged := True\<rparr>)"
  by (rule rewrite_cut [OF assms, of False "[]" 0 undefined]) simp_all

text \<open>
  C13: no entry is left behind: once every process is done, the queue is empty, also for an entry appended
  while another process was about to finish, unless a drain was cut short.
\<close>

theorem no_entry_left_behind:
  assumes "queue_steps (queue_init []) s" and "\<forall>p. qs_at s p = Idle" and "\<not> qs_stopped s"
  shows "qs_lines s = [] \<and> qs_popped s = length (qs_pushed s)"
proof -
  have "awake s" using assms(1)
  proof (induction rule: rtranclp_induct)
    case (step s s')
    then have "lock_ok s" using queue_reach by (auto simp: queue_ok_def)
    with step awake_step show ?case by blast
  qed (simp add: queue_init_ok)
  with assms(2,3) have "qs_lines s = []" by (simp add: awake_def)
  moreover have "lines_ok s" using queue_reach [OF assms(1)] by (simp add: queue_ok_def)
  ultimately show ?thesis using assms(3) by (simp add: lines_ok_def)
qed

text \<open>A run: one process pushes and drains, another pushes as the first is leaving.\<close>

abbreviation hook_queue :: "string queue_state" where "hook_queue \<equiv> queue_init []"

lemma hook_queue_run:
  "\<exists>s. queue_steps hook_queue s \<and> (\<forall>p. qs_at s p = Idle) \<and> \<not> qs_stopped s \<and> qs_pushed s = [Some ''a'', Some ''b'']
     \<and> qs_tried s = [(0, Some ''a'', Applied), (1, Some ''b'', Applied)]"
proof -
  have line: "peek_line [Some e] = Some (Some e)" "peek_line [] = None" "pop_line [l] = []" "push_line e [] = [Some e]"
    for e :: string and l :: "string line" by (simp_all add: peek_line_def pop_line_def push_line_def)
  define s1 where "s1 = go 0 Entering hook_queue\<lparr>qs_lines := [Some ''a''], qs_pushed := [Some ''a'']\<rparr>"
  define s2 where "s2 = go 0 Peeking s1\<lparr>qs_holder := Some 0\<rparr>"
  define s3 where "s3 = go 0 (Applying (Some ''a'')) s2"
  define s4 where "s4 = go 0 Popping s3\<lparr>qs_tried := [(0, Some ''a'', Applied)]\<rparr>"
  define s5 where "s5 = go 0 Peeking s4\<lparr>qs_lines := [], qs_torn := False, qs_popped := 1\<rparr>"
  define s6 where "s6 = go 0 Leaving s5"
  define s7 where "s7 = go 1 Entering s6\<lparr>qs_lines := [Some ''b''], qs_pushed := [Some ''a'', Some ''b'']\<rparr>"
  define s8 where "s8 = go 1 Idle s7"
  define s9 where "s9 = go 0 Rechecking s8\<lparr>qs_holder := None\<rparr>"
  define t1 where "t1 = go 0 Entering s9"
  define t2 where "t2 = go 0 Peeking t1\<lparr>qs_holder := Some 0\<rparr>"
  define t3 where "t3 = go 0 (Applying (Some ''b'')) t2"
  define t4 where "t4 = go 0 Popping t3\<lparr>qs_tried := [(0, Some ''a'', Applied), (1, Some ''b'', Applied)]\<rparr>"
  define t5 where "t5 = go 0 Peeking t4\<lparr>qs_lines := [], qs_torn := False, qs_popped := 2\<rparr>"
  define t6 where "t6 = go 0 Leaving t5"
  define t7 where "t7 = go 0 Rechecking t6\<lparr>qs_holder := None\<rparr>"
  define t8 where "t8 = go 0 Idle t7"
  note defs = s1_def s2_def s3_def s4_def s5_def s6_def s7_def s8_def s9_def t1_def t2_def t3_def t4_def t5_def t6_def t7_def
    go_def queue_init_def
  have a1: "queue_step hook_queue s1"
    using pushed [of hook_queue 0 "''a''"] by (simp add: s1_def line queue_init_def)
  have a2: "queue_step s1 s2" unfolding s2_def by (rule locked) (simp_all add: defs)
  have a3: "queue_step s2 s3" unfolding s3_def by (rule peeked [of _ _ "Some ''a''"]) (simp_all add: defs line)
  have a4: "queue_step s3 s4"
    using applied [of s3 0 "''a''" Applied] by (simp add: s4_def) (simp add: defs line)
  have a5: "queue_step s4 s5" using popped [of s4 0] by (simp add: s5_def) (simp add: defs line)
  have a6: "queue_step s5 s6" unfolding s6_def by (rule emptied) (simp_all add: defs line)
  have a7: "queue_step s6 s7" using pushed [of s6 1 "''b''"] by (simp add: s7_def) (simp add: defs line push_line_def)
  have a8: "queue_step s7 s8" unfolding s8_def by (rule elsewhere) (simp_all add: defs)
  have a9: "queue_step s8 s9" unfolding s9_def by (rule left) (simp add: defs)
  have a10: "queue_step s9 t1" unfolding t1_def by (rule again [of _ _ "Some ''b''"]) (simp_all add: defs line)
  have a11: "queue_step t1 t2" unfolding t2_def by (rule locked) (simp_all add: defs)
  have a12: "queue_step t2 t3" unfolding t3_def by (rule peeked [of _ _ "Some ''b''"]) (simp_all add: defs line)
  have a13: "queue_step t3 t4" using applied [of t3 0 "''b''" Applied] by (simp add: t4_def) (simp add: defs line)
  have a14: "queue_step t4 t5" using popped [of t4 0] by (simp add: t5_def) (simp add: defs line numeral_2_eq_2)
  have a15: "queue_step t5 t6" unfolding t6_def by (rule emptied) (simp_all add: defs line)
  have a16: "queue_step t6 t7" unfolding t7_def by (rule left) (simp add: defs)
  have a17: "queue_step t7 t8" unfolding t8_def by (rule settled) (simp_all add: defs line)
  have "queue_steps hook_queue t8"
    by (rule converse_rtranclp_into_rtranclp, rule a1, rule converse_rtranclp_into_rtranclp, rule a2, rule converse_rtranclp_into_rtranclp, rule a3, rule converse_rtranclp_into_rtranclp, rule a4, rule converse_rtranclp_into_rtranclp, rule a5, rule converse_rtranclp_into_rtranclp, rule a6,
        rule converse_rtranclp_into_rtranclp, rule a7, rule converse_rtranclp_into_rtranclp, rule a8, rule converse_rtranclp_into_rtranclp, rule a9, rule converse_rtranclp_into_rtranclp, rule a10, rule converse_rtranclp_into_rtranclp, rule a11, rule converse_rtranclp_into_rtranclp, rule a12,
        rule converse_rtranclp_into_rtranclp, rule a13, rule converse_rtranclp_into_rtranclp, rule a14, rule converse_rtranclp_into_rtranclp, rule a15, rule converse_rtranclp_into_rtranclp, rule a16, rule converse_rtranclp_into_rtranclp, rule a17, rule rtranclp.rtrancl_refl)
  moreover have "(\<forall>p. qs_at t8 p = Idle) \<and> \<not> qs_stopped t8 \<and> qs_pushed t8 = [Some ''a'', Some ''b'']
      \<and> qs_tried t8 = [(0, Some ''a'', Applied), (1, Some ''b'', Applied)]"
    by (simp add: t8_def) (simp add: defs)
  ultimately show ?thesis by blast
qed

theorem queue_in_order_witness:
  "\<exists>s. queue_steps hook_queue s \<and> qs_tried s = [(0, Some ''a'', Applied), (1, Some ''b'', Applied)] \<and> distinct (map fst (qs_tried s))"
  using hook_queue_run queue_in_order by blast

theorem no_entry_left_behind_witness:
  "\<exists>s. queue_steps hook_queue s \<and> qs_pushed s = [Some ''a'', Some ''b''] \<and> qs_lines s = [] \<and> qs_popped s = 2"
proof -
  from hook_queue_run obtain s where s: "queue_steps hook_queue s" "\<forall>p. qs_at s p = Idle" "\<not> qs_stopped s"
    "qs_pushed s = [Some ''a'', Some ''b'']" by blast
  from no_entry_left_behind [OF s(1-3)] s(1,4) show ?thesis by auto
qed

end
