(* ===== verification/Todo_Scope.thy ===== *)
theory Todo_Scope
  imports Todo_Model
begin

text \<open>
  The node a caller's todos go to: templates, the tree of scopes and the check a configuration must pass
  (\<open>crates/devkit-config/src/todo.rs\<close>), and the layout that fills them for one caller
  (\<open>crates/devkit-todo/src/layout.rs\<close>).

  Walking up the parents of a scope is a loop that ends only because the configuration was checked, so the walks are
  partial functions: \<open>None\<close> is a walk that never returns, \<open>Inl\<close> a refusal.
\<close>

section \<open>Templates\<close>

datatype Part = Literal string | Value string

type_synonym Template = "Part list list"

type_synonym facts = "(string, string) btree"

definition harness_prefixes :: "string list" where
  "harness_prefixes = [''claude'', ''codex'', ''grok'']"

datatype template_fault = EmptySegment | UnmatchedBrace | UnknownPlaceholder string | UsedTwice string | TwoOpen | NoRepo

definition placeholders :: "string list" where
  "placeholders = [''repo'', ''branch'', ''harness'', ''session'', ''agent'']"

abbreviation not_brace :: "char \<Rightarrow> bool" where
  "not_brace c \<equiv> c \<noteq> CHR 0x7B \<and> c \<noteq> CHR 0x7D"

text \<open>The text before the next brace is a literal; a placeholder may come once in a template, and one open placeholder
  in a segment. \<open>seen\<close> and \<open>opened\<close> are the code's set and counter.\<close>

definition split_placeholder :: "string \<Rightarrow> (string \<times> string) option" where
  "split_placeholder text =
     (case strip_prefix [CHR 0x7B] text of
        None \<Rightarrow> None
      | Some s \<Rightarrow>
          if CHR 0x7D \<in> set s
          then (let name = takeWhile (\<lambda>c. c \<noteq> CHR 0x7D) s in Some (name, drop (Suc (length name)) s))
          else None)"

lemma split_placeholder_shorter: "split_placeholder text = Some (name, after) \<Longrightarrow> length after < length text"
  by (auto simp: split_placeholder_def Let_def split: option.splits if_splits)

function parse_parts :: "string list \<Rightarrow> nat \<Rightarrow> string \<Rightarrow> template_fault + Part list \<times> string list" where
  "parse_parts seen opened rest =
     (let before = (if takeWhile not_brace rest = [] then [] else [Literal (takeWhile not_brace rest)]) in
      if dropWhile not_brace rest = [] then Inr (before, seen)
      else case split_placeholder (dropWhile not_brace rest) of
        None \<Rightarrow> Inl UnmatchedBrace
      | Some (name, after) \<Rightarrow>
          if name \<notin> set placeholders then Inl (UnknownPlaceholder name)
          else if name \<in> set seen then Inl (UsedTwice name)
          else if name \<noteq> ''harness'' \<and> 0 < opened then Inl TwoOpen
          else map_sum id (map_prod (\<lambda>ps. before @ Value name # ps) id)
            (parse_parts (name # seen) (if name = ''harness'' then opened else Suc opened) after))"
  by pat_completeness auto
termination
proof (relation "measure (\<lambda>(_, _, rest). length rest)")
  fix seen :: "string list" and opened :: nat and rest :: string and before :: "Part list" and x name after
  assume "split_placeholder (dropWhile not_brace rest) = Some x" "(name, after) = x"
  then have "length after < length (dropWhile not_brace rest)" using split_placeholder_shorter by blast
  moreover have "length (dropWhile not_brace rest) \<le> length rest" by (rule length_dropWhile_le)
  ultimately show "((name # seen, if name = ''harness'' then opened else Suc opened, after), (seen, opened, rest))
      \<in> measure (\<lambda>(_, _, rest). length rest)" by simp
qed simp

declare parse_parts.simps [simp del]

fun parse_segments :: "string list \<Rightarrow> string list \<Rightarrow> template_fault + Template" where
  "parse_segments seen [] = Inr []"
| "parse_segments seen (segment # segments) =
     (if segment = [] then Inl EmptySegment
      else case parse_parts seen 0 segment of
        Inl e \<Rightarrow> Inl e
      | Inr (parts, seen') \<Rightarrow> map_sum id (Cons parts) (parse_segments seen' segments))"

definition template_contains :: "Template \<Rightarrow> string \<Rightarrow> bool" where
  "template_contains t name \<longleftrightarrow> Value name \<in> set (concat t)"

definition anchored :: "Template \<Rightarrow> bool" where
  "anchored t \<longleftrightarrow> list_ex (\<lambda>p. case p of Literal _ \<Rightarrow> True | Value name \<Rightarrow> name = ''harness'') (concat t)"

definition template_parse :: "string \<Rightarrow> template_fault + Template" where
  "template_parse text =
     (case parse_segments [] (split_on (CHR ''.'') text) of
        Inl e \<Rightarrow> Inl e
      | Inr t \<Rightarrow> if \<not> anchored t \<and> \<not> template_contains t ''repo'' then Inl NoRepo else Inr t)"

definition value_fits :: "string \<Rightarrow> string \<Rightarrow> bool" where
  "value_fits name v \<longleftrightarrow> v \<noteq> [] \<and> CHR ''.'' \<notin> set v \<and> CHR ''/'' \<notin> set v \<and> CHR 0x5C \<notin> set v
     \<and> (name = ''harness'' \<longrightarrow> v \<in> set harness_prefixes)"

definition fill_part :: "facts \<Rightarrow> Part \<Rightarrow> string option" where
  "fill_part values p =
     (case p of
        Literal s \<Rightarrow> Some s
      | Value name \<Rightarrow> (case bt_get values name of Some v \<Rightarrow> if value_fits name v then Some v else None | None \<Rightarrow> None))"

definition template_fill :: "Template \<Rightarrow> facts \<Rightarrow> string option" where
  "template_fill t values =
     map_option (join ''.'') (those (map (\<lambda>parts. map_option concat (those (map (fill_part values) parts))) t))"

text \<open>A segment as text before and after its one open placeholder, for one harness.\<close>

record segment_form =
  sf_prefix :: string
  sf_suffix :: string
  sf_open :: "string option"
  sf_harness :: bool

definition push_text :: "string \<Rightarrow> segment_form \<Rightarrow> segment_form" where
  "push_text s f = (if sf_open f \<noteq> None then f\<lparr>sf_suffix := sf_suffix f @ s\<rparr> else f\<lparr>sf_prefix := sf_prefix f @ s\<rparr>)"

definition add_part :: "string \<Rightarrow> Part \<Rightarrow> segment_form \<Rightarrow> segment_form" where
  "add_part harness p f =
     (case p of
        Literal s \<Rightarrow> push_text s f
      | Value name \<Rightarrow> if name = ''harness'' then push_text harness (f\<lparr>sf_harness := True\<rparr>) else f\<lparr>sf_open := Some name\<rparr>)"

definition segment_of :: "string \<Rightarrow> Part list \<Rightarrow> segment_form" where
  "segment_of harness parts = fold (add_part harness) parts \<lparr>sf_prefix = [], sf_suffix = [], sf_open = None, sf_harness = False\<rparr>"

definition strip_suffix :: "string \<Rightarrow> string \<Rightarrow> string option" where
  "strip_suffix p s = map_option rev (strip_prefix (rev p) (rev s))"

definition read_segment :: "Part list \<Rightarrow> string \<Rightarrow> string \<Rightarrow> facts option" where
  "read_segment parts node harness =
     (let f = segment_of harness parts;
          found = (case sf_open f of
             Some name \<Rightarrow>
               (case Option.bind (strip_prefix (sf_prefix f) node) (strip_suffix (sf_suffix f)) of
                  None \<Rightarrow> None
                | Some v \<Rightarrow> if v = [] \<or> CHR ''/'' \<in> set v \<or> CHR 0x5C \<in> set v then None else Some [(name, v)])
           | None \<Rightarrow> if node \<noteq> sf_prefix f then None else Some [])
      in map_option (\<lambda>m. if sf_harness f then bt_insert ''harness'' harness m else m) found)"

fun first_some :: "('a \<Rightarrow> 'b option) \<Rightarrow> 'a list \<Rightarrow> 'b option" where
  "first_some f [] = None"
| "first_some f (x # xs) = (case f x of Some y \<Rightarrow> Some y | None \<Rightarrow> first_some f xs)"

fun read_segments :: "Template \<Rightarrow> string list \<Rightarrow> facts \<Rightarrow> facts option" where
  "read_segments (parts # t) (node # nodes) values =
     (case first_some (read_segment parts node) harness_prefixes of
        None \<Rightarrow> None
      | Some found \<Rightarrow> read_segments t nodes (fold (\<lambda>(k, v). bt_insert k v) found values))"
| "read_segments _ _ values = Some values"

definition template_read :: "Template \<Rightarrow> string \<Rightarrow> facts option" where
  "template_read t project =
     (let segments = split_on (CHR ''.'') project in
      if length segments \<noteq> length t then None else read_segments t segments [])"

section \<open>The configuration\<close>

record ScopeConfig =
  sc_node :: string
  sc_parent :: "string option"

record RoleConfig =
  rc_scope :: string
  rc_parent :: "string option"
  rc_agent_types :: "string list"
  rc_hold_pending :: "bool option"

record TodoConfig =
  tc_scopes :: "(string, ScopeConfig) btree"
  tc_roles :: "(string, RoleConfig) btree"

datatype config_fault =
    BadTemplate string template_fault
  | MissingParent string string
  | RootPlaceholder string
  | ParentCycle string string
  | NotOneRoot
  | MissingScope string string
  | TypeClaimedTwice string string string

text \<open>The walk up the parents, with what it has visited; the first name met again closes a cycle.\<close>

function parent_cycle :: "(string, 'a) btree \<Rightarrow> ('a \<Rightarrow> string option) \<Rightarrow> string list \<Rightarrow> string \<Rightarrow> string option" where
  "parent_cycle m parent visited cur =
     (if cur \<in> set visited then Some cur
      else case Option.bind (bt_get m cur) parent of
        None \<Rightarrow> None
      | Some up \<Rightarrow> parent_cycle m parent (cur # visited) up)"
  by pat_completeness auto
termination
proof (relation "measure (\<lambda>(m, _, visited, _). card (set (bt_keys m) - set visited))")
  fix m :: "(string, 'a) btree" and parent :: "'a \<Rightarrow> string option" and visited cur up
  assume "cur \<notin> set visited" "Option.bind (bt_get m cur) parent = Some up"
  then have "cur \<in> set (bt_keys m) - set visited"
    by (auto simp: bind_eq_Some_conv dest: bt_get_in_set intro: rev_image_eqI)
  then have "set (bt_keys m) - set (cur # visited) \<subset> set (bt_keys m) - set visited" by auto
  then have "card (set (bt_keys m) - set (cur # visited)) < card (set (bt_keys m) - set visited)"
    by (intro psubset_card_mono) auto
  then show "((m, parent, cur # visited, up), (m, parent, visited, cur))
      \<in> measure (\<lambda>(m, _, visited, _). card (set (bt_keys m) - set visited))" by simp
qed simp

fun validate_scopes :: "(string, ScopeConfig) btree \<Rightarrow> (string \<times> ScopeConfig) list \<Rightarrow> string list \<Rightarrow> config_fault + string list" where
  "validate_scopes scopes [] roots = Inr roots"
| "validate_scopes scopes ((name, scope) # rows) roots =
     (case template_parse (sc_node scope) of
        Inl e \<Rightarrow> Inl (BadTemplate name e)
      | Inr t \<Rightarrow>
          (case sc_parent scope of
             Some parent \<Rightarrow>
               if bt_get scopes parent = None then Inl (MissingParent name parent)
               else (case parent_cycle scopes sc_parent [] name of
                   Some c \<Rightarrow> Inl (ParentCycle name c)
                 | None \<Rightarrow> validate_scopes scopes rows roots)
           | None \<Rightarrow>
               if list_ex (\<lambda>p. case p of Value _ \<Rightarrow> True | Literal _ \<Rightarrow> False) (concat t) then Inl (RootPlaceholder name)
               else (case parent_cycle scopes sc_parent [] name of
                   Some c \<Rightarrow> Inl (ParentCycle name c)
                 | None \<Rightarrow> validate_scopes scopes rows (roots @ [name]))))"

fun claim_types :: "string \<Rightarrow> string list \<Rightarrow> (string, string) btree \<Rightarrow> config_fault + (string, string) btree" where
  "claim_types name [] types = Inr types"
| "claim_types name (a # as) types =
     (case bt_get types a of
        Some other \<Rightarrow> if other \<noteq> name then Inl (TypeClaimedTwice a other name) else claim_types name as (bt_insert a name types)
      | None \<Rightarrow> claim_types name as (bt_insert a name types))"

fun validate_roles :: "TodoConfig \<Rightarrow> (string \<times> RoleConfig) list \<Rightarrow> (string, string) btree \<Rightarrow> config_fault + unit" where
  "validate_roles config [] types = Inr ()"
| "validate_roles config ((name, role) # rows) types =
     (if bt_get (tc_scopes config) (rc_scope role) = None then Inl (MissingScope name (rc_scope role))
      else case (case rc_parent role of Some p \<Rightarrow> if bt_get (tc_roles config) p = None then Some p else None | None \<Rightarrow> None) of
        Some p \<Rightarrow> Inl (MissingParent name p)
      | None \<Rightarrow>
          (case parent_cycle (tc_roles config) rc_parent [] name of
             Some c \<Rightarrow> Inl (ParentCycle name c)
           | None \<Rightarrow>
               (case claim_types name (rc_agent_types role) types of
                  Inl e \<Rightarrow> Inl e
                | Inr types' \<Rightarrow> validate_roles config rows types')))"

definition validate_config :: "TodoConfig \<Rightarrow> config_fault + unit" where
  "validate_config config =
     (case validate_scopes (tc_scopes config) (tc_scopes config) [] of
        Inl e \<Rightarrow> Inl e
      | Inr roots \<Rightarrow> if length roots \<noteq> 1 then Inl NotOneRoot else validate_roles config (tc_roles config) [])"

definition default_scopes :: "(string, ScopeConfig) btree" where
  "default_scopes = fold (\<lambda>(name, node, parent). bt_insert name \<lparr>sc_node = node, sc_parent = parent\<rparr>)
     [(''global'', ''global'', None),
      (''repo'', ''{repo}'', Some ''global''),
      (''workspace'', ''{repo}.{branch}'', Some ''repo''),
      (''session'', ''{repo}.{branch}.{harness}-{session}'', Some ''workspace''),
      (''agent'', ''{repo}.{branch}.{harness}-{session}.{agent}'', Some ''session'')] []"

definition default_roles :: "(string, RoleConfig) btree" where
  "default_roles = fold (\<lambda>name. bt_insert name \<lparr>rc_scope = ''session'', rc_parent = None, rc_agent_types = [],
     rc_hold_pending = None\<rparr>) [''main'', ''subagent''] []"

text \<open>What a configuration file gives: the defaults with the file's entries over them.\<close>

definition todo_config :: "(string, ScopeConfig) btree \<Rightarrow> (string, RoleConfig) btree \<Rightarrow> config_fault + TodoConfig" where
  "todo_config scopes roles =
     (let config = \<lparr>tc_scopes = fold (\<lambda>(k, v). bt_insert k v) scopes default_scopes,
                    tc_roles = fold (\<lambda>(k, v). bt_insert k v) roles default_roles\<rparr>
      in map_sum id (\<lambda>_. config) (validate_config config))"

section \<open>The caller\<close>

datatype Harness = Claude | Codex | Grok

definition harness_prefix :: "Harness \<Rightarrow> string" where
  "harness_prefix h = (case h of Claude \<Rightarrow> ''claude'' | Codex \<Rightarrow> ''codex'' | Grok \<Rightarrow> ''grok'')"

record SessionRef =
  se_harness :: Harness
  se_id :: string

datatype Place = NoRepository | Project string | Workspace string string

record Facts =
  ft_values :: facts
  ft_subagent :: bool

definition put_fact :: "string \<Rightarrow> string \<Rightarrow> facts \<Rightarrow> facts" where
  "put_fact name v m = bt_insert name v m"

definition facts_of :: "Place \<Rightarrow> SessionRef option \<Rightarrow> Holder \<Rightarrow> Facts" where
  "facts_of place session holder =
     (let here = (case place of
            NoRepository \<Rightarrow> []
          | Project repo \<Rightarrow> put_fact ''repo'' (sanitize repo) []
          | Workspace repo branch \<Rightarrow> put_fact ''branch'' (sanitize branch) (put_fact ''repo'' (sanitize repo) []));
          who = (case session of
            None \<Rightarrow> here
          | Some s \<Rightarrow> put_fact ''session'' (sanitize (se_id s)) (put_fact ''harness'' (harness_prefix (se_harness s)) here));
          sub = \<not> is_human holder \<and> holder \<noteq> session_of holder;
          values = (if sub \<and> CHR ''/'' \<in> set holder
            then put_fact ''agent'' (sanitize (drop (Suc (length (takeWhile (\<lambda>c. c \<noteq> CHR ''/'') holder))) holder)) who
            else who)
      in \<lparr>ft_values = bt_retain (\<lambda>_ v. v \<noteq> []) values, ft_subagent = sub\<rparr>)"

section \<open>The layout\<close>

record Layout =
  ly_config :: TodoConfig
  ly_templates :: "(string, Template) btree"

datatype layout_fault = UnknownScope string | RootUnfilled string | UnknownRole string | NoTemplate string

fun parse_scopes :: "(string \<times> ScopeConfig) list \<Rightarrow> template_fault + (string, Template) btree" where
  "parse_scopes [] = Inr []"
| "parse_scopes ((name, scope) # rows) =
     (case template_parse (sc_node scope) of
        Inl e \<Rightarrow> Inl e
      | Inr t \<Rightarrow> map_sum id (Cons (name, t)) (parse_scopes rows))"

definition layout_new :: "TodoConfig \<Rightarrow> (config_fault + template_fault) + Layout" where
  "layout_new config =
     (case validate_config config of
        Inl e \<Rightarrow> Inl (Inl e)
      | Inr _ \<Rightarrow> map_sum Inr (\<lambda>ts. \<lparr>ly_config = config, ly_templates = ts\<rparr>) (parse_scopes (tc_scopes config)))"

abbreviation scope_at :: "Layout \<Rightarrow> string \<Rightarrow> ScopeConfig option" where
  "scope_at l \<equiv> bt_get (tc_scopes (ly_config l))"

definition role_of :: "Layout \<Rightarrow> string \<Rightarrow> RoleConfig option" where
  "role_of l name = bt_get (tc_roles (ly_config l)) name"

partial_function (option) filled_scope :: "Layout \<Rightarrow> facts \<Rightarrow> string \<Rightarrow> (layout_fault + string \<times> string) option" where
  "filled_scope l values here =
     (case scope_at l here of
        None \<Rightarrow> Some (Inl (UnknownScope here))
      | Some config \<Rightarrow>
          (case bt_get (ly_templates l) here of
             None \<Rightarrow> Some (Inl (NoTemplate here))
           | Some t \<Rightarrow>
               (case template_fill t values of
                  Some node \<Rightarrow> Some (Inr (here, node))
                | None \<Rightarrow>
                    (case sc_parent config of
                       None \<Rightarrow> Some (Inl (RootUnfilled here))
                     | Some up \<Rightarrow> filled_scope l values up))))"

declare filled_scope.simps [code]

definition layout_fill :: "Layout \<Rightarrow> Facts \<Rightarrow> string \<Rightarrow> (layout_fault + string) option" where
  "layout_fill l facts scope = map_option (map_sum id snd) (filled_scope l (ft_values facts) scope)"

definition ticket_root :: "Layout \<Rightarrow> Facts \<Rightarrow> bool \<Rightarrow> string option" where
  "ticket_root l facts wide =
     Option.bind (bt_get (ly_templates l) (if wide then ''repo'' else ''workspace'')) (\<lambda>t. template_fill t (ft_values facts))"

text \<open>The nodes of the scopes above, each once, after the ones already there.\<close>

partial_function (option) parents_up :: "Layout \<Rightarrow> Facts \<Rightarrow> string option \<Rightarrow> Template NodeMatch list \<Rightarrow>
    (layout_fault + Template NodeMatch list) option" where
  "parents_up l facts up nodes =
     (case up of
        None \<Rightarrow> Some (Inr nodes)
      | Some scope \<Rightarrow>
          (case layout_fill l facts scope of
             None \<Rightarrow> None
           | Some (Inl e) \<Rightarrow> Some (Inl e)
           | Some (Inr node) \<Rightarrow>
               (case scope_at l scope of
                  None \<Rightarrow> Some (Inl (UnknownScope scope))
                | Some config \<Rightarrow>
                    parents_up l facts (sc_parent config) (if Exact node \<in> set nodes then nodes else nodes @ [Exact node]))))"

declare parents_up.simps [code]

definition visible :: "Layout \<Rightarrow> Facts \<Rightarrow> string \<Rightarrow> (layout_fault + Template NodeMatch list) option" where
  "visible l facts role =
     (case role_of l role of
        None \<Rightarrow> Some (Inl (UnknownRole role))
      | Some r \<Rightarrow>
          (case filled_scope l (ft_values facts) (rc_scope r) of
             None \<Rightarrow> None
           | Some (Inl e) \<Rightarrow> Some (Inl e)
           | Some (Inr (scope, own)) \<Rightarrow>
               (case scope_at l scope of
                  None \<Rightarrow> Some (Inl (UnknownScope scope))
                | Some config \<Rightarrow>
                    map_option (map_sum id (\<lambda>nodes. nodes @
                      (case bt_get (ft_values facts) ''session'' of
                         Some session \<Rightarrow> [SessionDescendants own session (bt_values (ly_templates l))]
                       | None \<Rightarrow> [])))
                      (parents_up l facts (sc_parent config) [Exact own]))))"

definition read_facts :: "Template \<Rightarrow> string \<Rightarrow> (string \<rightharpoonup> string) option" where
  "read_facts t node = map_option bt_get (template_read t node)"

definition role_hold_pending :: "Layout \<Rightarrow> Facts \<Rightarrow> string \<Rightarrow> (layout_fault + bool) option" where
  "role_hold_pending l facts role =
     (case role_of l role of
        None \<Rightarrow> Some (Inl (UnknownRole role))
      | Some r \<Rightarrow>
          (case rc_hold_pending r of
             Some explicit \<Rightarrow> Some (Inr explicit)
           | None \<Rightarrow>
               (case filled_scope l (ft_values facts) (rc_scope r) of
                  None \<Rightarrow> None
                | Some (Inl e) \<Rightarrow> Some (Inl e)
                | Some (Inr (scope, _)) \<Rightarrow>
                    (case bt_get (ly_templates l) scope of
                       None \<Rightarrow> Some (Inl (NoTemplate scope))
                     | Some t \<Rightarrow> Some (Inr (template_contains t (if ft_subagent facts then ''agent'' else ''session'')))))))"

definition reads_as :: "Layout \<Rightarrow> string \<Rightarrow> string \<Rightarrow> bool" where
  "reads_as l project scope =
     (case bt_get (ly_templates l) scope of Some t \<Rightarrow> template_read t project \<noteq> None | None \<Rightarrow> False)"

definition wide_root :: "Layout \<Rightarrow> Facts \<Rightarrow> string option" where
  "wide_root l facts = Option.bind (bt_get (ly_templates l) ''repo'') (\<lambda>t. template_fill t (ft_values facts))"

text \<open>The first template that names the caller's own session settles it.\<close>

fun other_session :: "string \<Rightarrow> string option \<Rightarrow> string \<Rightarrow> Template list \<Rightarrow> bool \<Rightarrow> bool" where
  "other_session session harness project [] other = other"
| "other_session session harness project (t # ts) other =
     (case Option.bind (template_read t project) (\<lambda>vs. map_option (Pair vs) (bt_get vs ''session'')) of
        None \<Rightarrow> other_session session harness project ts other
      | Some (vs, found) \<Rightarrow>
          if found = session \<and> (case bt_get vs ''harness'' of None \<Rightarrow> True | Some h \<Rightarrow> harness = Some h) then False
          else other_session session harness project ts True)"

definition is_other_session :: "Layout \<Rightarrow> string \<Rightarrow> Facts \<Rightarrow> bool" where
  "is_other_session l project facts =
     (case bt_get (ft_values facts) ''session'' of
        None \<Rightarrow> False
      | Some session \<Rightarrow>
          other_session session (bt_get (ft_values facts) ''harness'') project (bt_values (ly_templates l)) False)"

definition caller_sees :: "Layout \<Rightarrow> string \<Rightarrow> Facts \<Rightarrow> string \<Rightarrow> bool" where
  "caller_sees l project facts role =
     (case visible l facts role of Some (Inr nodes) \<Rightarrow> node_matches read_facts nodes (Some project) | _ \<Rightarrow> False)"

definition offered :: "Layout \<Rightarrow> string option \<Rightarrow> string \<Rightarrow> Facts \<Rightarrow> string \<Rightarrow> bool" where
  "offered l project root facts role =
     (case project of
        None \<Rightarrow> False
      | Some p \<Rightarrow>
          if p = root then True
          else if \<not> dot_below root p \<or> is_other_session l p facts then False
          else if caller_sees l p facts role then True
          else wide_root l facts = Some root \<and> reads_as l p ''workspace'')"

definition is_devkit :: "Layout \<Rightarrow> string \<Rightarrow> string set \<Rightarrow> bool" where
  "is_devkit l project anchored_repos =
     list_ex (\<lambda>t. case template_read t project of
         None \<Rightarrow> False
       | Some values \<Rightarrow> anchored t \<or> (case bt_get values ''repo'' of Some repo \<Rightarrow> repo \<in> anchored_repos | None \<Rightarrow> False))
       (bt_values (ly_templates l))"

definition fence_repos :: "Layout \<Rightarrow> string \<Rightarrow> string list" where
  "fence_repos l node =
     List.map_filter (\<lambda>t. Option.bind (template_read t node) (\<lambda>vs. bt_get vs ''repo'')) (filter anchored (bt_values (ly_templates l)))"

definition fence_among :: "Layout \<Rightarrow> Todo list \<Rightarrow> string list \<Rightarrow> Todo list" where
  "fence_among l todos closed_nodes =
     (let repos = set (concat (map (fence_repos l) (map node_of todos @ closed_nodes)))
      in filter (\<lambda>t. td_ticket t \<noteq> None \<or> is_devkit l (node_of t) repos) todos)"

definition fence :: "Layout \<Rightarrow> Todo list \<Rightarrow> Todo list" where
  "fence l todos = fence_among l todos []"

end
