(* ===== verification/Todo_Native.thy ===== *)
theory Todo_Native
  imports Ticket_Sync Todo_Diff Todo_Cycles Todo_Scope
begin

text \<open>
  Native capture: a harness's own task and plan tools mirrored into the store
  (\<open>src/bin/devkit/hook/todo.rs\<close>), and the map from the harness's entries to todos
  (\<open>crates/devkit-todo/src/native.rs\<close>).

  A tool call's input and answer are JSON values. The map's file is a state with its own operations, each of which
  may fail; \<open>doc_native\<close> is that map over its document.
\<close>

section \<open>The map of native ids\<close>

record MirroredStep =
  mr_text :: string
  mr_todo :: string
  mr_status :: "StatusKind option"

record NativeDoc =
  nd_version :: u32
  nd_ids :: "(string, string) btree"
  nd_snapshots :: "(string, MirroredStep list) btree"

definition key_sep :: char where "key_sep = CHR 0x1F"

definition holder_key :: "Harness \<Rightarrow> string \<Rightarrow> string" where
  "holder_key h holder = harness_prefix h @ key_sep # holder"

definition id_key :: "Harness \<Rightarrow> string \<Rightarrow> string \<Rightarrow> string" where
  "id_key h holder native = holder_key h holder @ key_sep # native"

definition native_record :: "Harness \<Rightarrow> Holder \<Rightarrow> string \<Rightarrow> string \<Rightarrow> NativeDoc \<Rightarrow> NativeDoc" where
  "native_record h holder native todo d = d\<lparr>nd_ids := bt_insert (id_key h holder native) todo (nd_ids d)\<rparr>"

definition native_lookup :: "Harness \<Rightarrow> Holder \<Rightarrow> string \<Rightarrow> NativeDoc \<Rightarrow> string option" where
  "native_lookup h holder native d =
     (case bt_get (nd_ids d) (id_key h holder native) of
        Some i \<Rightarrow> Some i
      | None \<Rightarrow> bt_get (nd_ids d) (id_key h (session_of holder) native))"

definition forget_all :: "string set \<Rightarrow> NativeDoc \<Rightarrow> NativeDoc" where
  "forget_all todos d =
     d\<lparr>nd_ids := filter (\<lambda>(_, i). i \<notin> todos) (nd_ids d),
       nd_snapshots := map (\<lambda>(k, steps). (k, filter (\<lambda>step. mr_todo step \<notin> todos) steps)) (nd_snapshots d)\<rparr>"

definition native_snapshot :: "Harness \<Rightarrow> Holder \<Rightarrow> NativeDoc \<Rightarrow> MirroredStep list" where
  "native_snapshot h holder d = (case bt_get (nd_snapshots d) (holder_key h holder) of Some s \<Rightarrow> s | None \<Rightarrow> [])"

definition set_snapshot :: "Harness \<Rightarrow> Holder \<Rightarrow> MirroredStep list \<Rightarrow> NativeDoc \<Rightarrow> NativeDoc" where
  "set_snapshot h holder steps d = d\<lparr>nd_snapshots := bt_insert (holder_key h holder) steps (nd_snapshots d)\<rparr>"

record 'm native_ops =
  no_record :: "Harness \<Rightarrow> Holder \<Rightarrow> string \<Rightarrow> string \<Rightarrow> 'm \<Rightarrow> unit option \<times> 'm"
  no_lookup :: "Harness \<Rightarrow> Holder \<Rightarrow> string \<Rightarrow> 'm \<Rightarrow> string option option \<times> 'm"
  no_snapshot :: "Harness \<Rightarrow> Holder \<Rightarrow> 'm \<Rightarrow> MirroredStep list option \<times> 'm"
  no_set_snapshot :: "Harness \<Rightarrow> Holder \<Rightarrow> MirroredStep list \<Rightarrow> 'm \<Rightarrow> unit option \<times> 'm"

definition doc_native :: "NativeDoc native_ops" where
  "doc_native =
     \<lparr>no_record = (\<lambda>h holder native todo d. (Some (), native_record h holder native todo d)),
      no_lookup = (\<lambda>h holder native d. (Some (native_lookup h holder native d), d)),
      no_snapshot = (\<lambda>h holder d. (Some (native_snapshot h holder d), d)),
      no_set_snapshot = (\<lambda>h holder steps d. (Some (), set_snapshot h holder steps d))\<rparr>"

section \<open>Which ticket a text names\<close>

definition names_issue :: "string \<Rightarrow> string \<Rightarrow> bool" where
  "names_issue key issue \<longleftrightarrow>
     eq_ascii_case key issue \<or> (CHR ''#'' \<in> set key \<and> rev (takeWhile (\<lambda>c. c \<noteq> CHR ''#'') (rev key)) = issue)"

definition named_ticket :: "Todo list \<Rightarrow> string \<Rightarrow> (string \<Rightarrow> bool) \<Rightarrow> Todo option" where
  "named_ticket todos text here =
     (let body = trim (one_line text);
          names = (\<lambda>key. case body of
            c # number \<Rightarrow> if c = CHR ''#'' then names_issue key number \<and> here key else eq_ascii_case key body
          | [] \<Rightarrow> eq_ascii_case key body);
          tickets = filter (\<lambda>t. td_ticket t \<noteq> None) (filter todo_open todos)
      in case find (\<lambda>t. case td_ticket t of Some r \<Rightarrow> names (tk_key r) | None \<Rightarrow> False) tickets of
           Some t \<Rightarrow> Some t
         | None \<Rightarrow> find (\<lambda>t. td_description t = body) tickets)"

section \<open>One tool call\<close>

record ('s, 'e) capture_store = "('s, 'e) todo_ops" +
  op_all :: "'s \<Rightarrow> ('e + Todo list) \<times> 's"

record Capture =
  ca_harness :: Harness
  ca_session :: Holder
  ca_actor :: Holder
  ca_node :: string
  ca_repo :: "string option"
  ca_here :: "(string \<Rightarrow> bool) option"

datatype 'e capture_fault = StoreFault 'e | MapFault

definition at_key :: "json \<Rightarrow> string \<Rightarrow> json" where
  "at_key v k = (case v of JObj kvs \<Rightarrow> (case map_of kvs k of Some x \<Rightarrow> x | None \<Rightarrow> JNull) | _ \<Rightarrow> JNull)"

definition as_text :: "json \<Rightarrow> string option" where
  "as_text v = (case v of JStr t \<Rightarrow> Some t | _ \<Rightarrow> None)"

definition as_list :: "json \<Rightarrow> json list option" where
  "as_list v = (case v of JArr xs \<Rightarrow> Some xs | _ \<Rightarrow> None)"

definition native_status :: "string \<Rightarrow> StatusKind option" where
  "native_status s =
     (if s = ''pending'' then Some KPending
      else if s = ''in_progress'' then Some KInProgress
      else if s = ''completed'' then Some KCompleted
      else if s = ''deleted'' \<or> s = ''cancelled'' then Some KCancelled
      else None)"

definition repo_todos :: "('s, 'e) capture_store \<Rightarrow> Capture \<Rightarrow> 's \<Rightarrow> ('e + Todo list) \<times> 's" where
  "repo_todos ops c s = (case ca_repo c of Some node \<Rightarrow> op_list ops node s | None \<Rightarrow> (Inr [], s))"

definition ticket_named :: "Capture \<Rightarrow> Todo list \<Rightarrow> string \<Rightarrow> string option" where
  "ticket_named c todos text =
     (case ca_here c of None \<Rightarrow> None | Some here \<Rightarrow> map_option td_id (named_ticket todos text here))"

type_synonym ('s, 'm, 'e) captured = "('e capture_fault + unit) \<times> 's \<times> 'm"

definition task_create :: "('s, 'e) capture_store \<Rightarrow> 'm native_ops \<Rightarrow> Capture \<Rightarrow> json \<Rightarrow> json \<Rightarrow> 's \<times> 'm \<Rightarrow> ('s, 'm, 'e) captured" where
  "task_create ops ntv c input response sm =
     (case (as_text (at_key input ''subject''), as_text (at_key (at_key response ''task'') ''id''), sm) of
        (Some subject, Some native, s, m) \<Rightarrow>
          (case repo_todos ops c s of
             (Inl e, s1) \<Rightarrow> (Inl (StoreFault e), s1, m)
           | (Inr todos, s1) \<Rightarrow>
               (case (case ticket_named c todos subject of
                        Some i \<Rightarrow> (Inr i, s1)
                      | None \<Rightarrow> op_add ops \<lparr>nt_project = Some (ca_node c), nt_description = subject, nt_parent = None,
                          nt_order = None, nt_ticket = None\<rparr> s1) of
                  (Inl e, s2) \<Rightarrow> (Inl (StoreFault e), s2, m)
                | (Inr i, s2) \<Rightarrow>
                    (case no_record ntv (ca_harness c) (ca_session c) native i m of
                       (None, m') \<Rightarrow> (Inl MapFault, s2, m')
                     | (Some _, m') \<Rightarrow> (Inr (), s2, m'))))
      | (_, _, s, m) \<Rightarrow> (Inr (), s, m))"

text \<open>The mirrored ids of native ids, skipping what is no string and what the map does not know.\<close>

fun native_ids :: "'m native_ops \<Rightarrow> Capture \<Rightarrow> json list \<Rightarrow> 'm \<Rightarrow> string list option \<times> 'm" where
  "native_ids ntv c [] m = (Some [], m)"
| "native_ids ntv c (v # vs) m =
     (case as_text v of
        None \<Rightarrow> native_ids ntv c vs m
      | Some native \<Rightarrow>
          (case no_lookup ntv (ca_harness c) (ca_actor c) native m of
             (None, m1) \<Rightarrow> (None, m1)
           | (Some found, m1) \<Rightarrow>
               (case native_ids ntv c vs m1 of
                  (None, m2) \<Rightarrow> (None, m2)
                | (Some is, m2) \<Rightarrow> (Some (case found of Some i \<Rightarrow> i # is | None \<Rightarrow> is), m2))))"

definition record_block :: "('s, 'e) capture_store \<Rightarrow> string \<Rightarrow> string list \<Rightarrow> 's \<Rightarrow> ('e + unit) \<times> 's" where
  "record_block ops i by s =
     (if by = [] then (Inr (), s)
      else case op_all ops s of
        (Inl e, s1) \<Rightarrow> (Inl e, s1)
      | (Inr todos, s1) \<Rightarrow>
          (let safe = filter (\<lambda>b. cycle_through todos i [b] = None) by in
           if safe = [] then (Inr (), s1)
           else case op_apply ops (Block i safe) s1 of (r, s2) \<Rightarrow> (map_sum id (\<lambda>_. ()) r, s2)))"

fun block_each :: "('s, 'e) capture_store \<Rightarrow> string \<Rightarrow> string list \<Rightarrow> 's \<Rightarrow> ('e + unit) \<times> 's" where
  "block_each ops i [] s = (Inr (), s)"
| "block_each ops i (b # bs) s =
     (case record_block ops b [i] s of
        (Inl e, s1) \<Rightarrow> (Inl e, s1)
      | (Inr _, s1) \<Rightarrow> block_each ops i bs s1)"

definition mirror_blockers :: "('s, 'e) capture_store \<Rightarrow> 'm native_ops \<Rightarrow> Capture \<Rightarrow> string \<Rightarrow> json \<Rightarrow> 's \<times> 'm \<Rightarrow>
    ('s, 'm, 'e) captured" where
  "mirror_blockers ops ntv c i input sm =
     (case (case (as_list (at_key input ''addBlockedBy''), sm) of
              (None, s, m) \<Rightarrow> (Inr (), s, m)
            | (Some vs, s, m) \<Rightarrow>
                (case native_ids ntv c vs m of
                   (None, m1) \<Rightarrow> (Inl MapFault, s, m1)
                 | (Some by, m1) \<Rightarrow>
                     (case record_block ops i by s of (r, s1) \<Rightarrow> (map_sum StoreFault id r, s1, m1)))) of
        (Inl e, s, m) \<Rightarrow> (Inl e, s, m)
      | (Inr _, s, m) \<Rightarrow>
          (case as_list (at_key input ''addBlocks'') of
             None \<Rightarrow> (Inr (), s, m)
           | Some vs \<Rightarrow>
               (case native_ids ntv c vs m of
                  (None, m1) \<Rightarrow> (Inl MapFault, s, m1)
                | (Some blocked, m1) \<Rightarrow>
                    (case block_each ops i blocked s of (r, s1) \<Rightarrow> (map_sum StoreFault id r, s1, m1)))))"

definition apply_if :: "('s, 'e) capture_store \<Rightarrow> Edit option \<Rightarrow> 's \<Rightarrow> ('e capture_fault + unit) \<times> 's" where
  "apply_if ops e s =
     (case e of
        None \<Rightarrow> (Inr (), s)
      | Some edit \<Rightarrow> (case op_apply ops edit s of (r, s1) \<Rightarrow> (map_sum StoreFault (\<lambda>_. ()) r, s1)))"

definition has_ticket :: "Todo option \<Rightarrow> bool" where
  "has_ticket t = (case t of Some t \<Rightarrow> td_ticket t \<noteq> None | None \<Rightarrow> False)"

definition update_describe :: "string \<Rightarrow> json \<Rightarrow> Todo option \<Rightarrow> Edit option" where
  "update_describe i input current =
     (case (as_text (at_key input ''subject''), current) of
        (Some subject, Some t) \<Rightarrow>
          if \<not> has_ticket current \<and> td_description t \<noteq> one_line subject then Some (Describe i subject) else None
      | _ \<Rightarrow> None)"

definition update_status :: "string \<Rightarrow> Holder \<Rightarrow> json \<Rightarrow> Todo option \<Rightarrow> Edit option" where
  "update_status i actor input current =
     (case Option.bind (as_text (at_key input ''status'')) native_status of
        Some to \<Rightarrow> if \<not> (has_ticket current \<and> to = KCancelled) then Some (SetStatus i to actor) else None
      | None \<Rightarrow> None)"

definition task_update :: "('s, 'e) capture_store \<Rightarrow> 'm native_ops \<Rightarrow> Capture \<Rightarrow> json \<Rightarrow> 's \<times> 'm \<Rightarrow> ('s, 'm, 'e) captured" where
  "task_update ops ntv c input sm =
     (case (as_text (at_key input ''taskId''), sm) of
        (None, s, m) \<Rightarrow> (Inr (), s, m)
      | (Some native, s, m) \<Rightarrow>
          (case no_lookup ntv (ca_harness c) (ca_actor c) native m of
             (None, m1) \<Rightarrow> (Inl MapFault, s, m1)
           | (Some None, m1) \<Rightarrow> (Inr (), s, m1)
           | (Some (Some i), m1) \<Rightarrow>
               (case op_get ops i s of
                  (Inl e, s1) \<Rightarrow> (Inl (StoreFault e), s1, m1)
                | (Inr current, s1) \<Rightarrow>
                    (case apply_if ops (update_describe i input current) s1 of
                       (Inl e, s2) \<Rightarrow> (Inl e, s2, m1)
                     | (Inr _, s2) \<Rightarrow>
                         (case apply_if ops (update_status i (ca_actor c) input current) s2 of
                            (Inl e, s3) \<Rightarrow> (Inl e, s3, m1)
                          | (Inr _, s3) \<Rightarrow> mirror_blockers ops ntv c i input (s3, m1))))))"

section \<open>A resent list\<close>

definition sent_steps :: "string \<Rightarrow> json list \<Rightarrow> Step list" where
  "sent_steps text_key list =
     List.map_filter (\<lambda>item.
       case (as_text (at_key item text_key), Option.bind (as_text (at_key item ''status'')) native_status) of
         (Some text, Some to) \<Rightarrow> Some \<lparr>sp_text = one_line text, sp_status = to\<rparr>
       | _ \<Rightarrow> None) list"

fun fetch_steps :: "('s, 'e) capture_store \<Rightarrow> MirroredStep list \<Rightarrow> 's \<Rightarrow> ('e + Todo list) \<times> 's" where
  "fetch_steps ops [] s = (Inr [], s)"
| "fetch_steps ops (x # xs) s =
     (case op_get ops (mr_todo x) s of
        (Inl e, s1) \<Rightarrow> (Inl e, s1)
      | (Inr found, s1) \<Rightarrow>
          (case fetch_steps ops xs s1 of
             (Inl e, s2) \<Rightarrow> (Inl e, s2)
           | (Inr ts, s2) \<Rightarrow> (Inr (case found of Some t \<Rightarrow> t # ts | None \<Rightarrow> ts), s2)))"

definition mirrored_now :: "Todo list \<Rightarrow> MirroredStep \<Rightarrow> Mirrored option" where
  "mirrored_now todos step =
     (case find (\<lambda>t. td_id t = mr_todo step) todos of
        None \<Rightarrow> None
      | Some current \<Rightarrow>
          Some \<lparr>mi_text = mr_text step, mi_todo = mr_todo step,
            mi_status = (case mr_status step of
               Some sent \<Rightarrow> if td_ticket current \<noteq> None then sent else kind (td_status current)
             | None \<Rightarrow> kind (td_status current))\<rparr>)"

definition previous_steps :: "Todo list \<Rightarrow> MirroredStep list \<Rightarrow> Mirrored list" where
  "previous_steps todos snap = List.map_filter (mirrored_now todos) snap"

definition is_ticket_todo :: "Todo list \<Rightarrow> string \<Rightarrow> bool" where
  "is_ticket_todo todos i \<longleftrightarrow> list_ex (\<lambda>t. td_id t = i \<and> td_ticket t \<noteq> None) todos"

text \<open>Open steps left on another node follow the session.\<close>

fun relocate_steps :: "('s, 'e) capture_store \<Rightarrow> string \<Rightarrow> Todo list \<Rightarrow> Mirrored list \<Rightarrow> 's \<Rightarrow> ('e + unit) \<times> 's" where
  "relocate_steps ops node todos [] s = (Inr (), s)"
| "relocate_steps ops node todos (prev # ps) s =
     (if (mi_status prev = KPending \<or> mi_status prev = KInProgress)
         \<and> list_ex (\<lambda>t. td_id t = mi_todo prev \<and> td_ticket t = None \<and> td_project t \<noteq> Some node) todos
      then case op_apply ops (Relocate (mi_todo prev) (Some node)) s of
             (Inl e, s1) \<Rightarrow> (Inl e, s1)
           | (Inr _, s1) \<Rightarrow> relocate_steps ops node todos ps s1
      else relocate_steps ops node todos ps s)"

text \<open>The run over the changes: the ids of the steps, the first edit that failed, the cancels refused, and the
  repository's todos once they have been read.\<close>

record 'e replacing =
  rp_ids :: "string option list"
  rp_failed :: "'e option"
  rp_uncancelled :: "MirroredStep list"
  rp_repo :: "Todo list option"

definition try_edit :: "('s, 'e) capture_store \<Rightarrow> Edit \<Rightarrow> 'e replacing \<times> 's \<Rightarrow> bool \<times> 'e replacing \<times> 's" where
  "try_edit ops e rs =
     (case rs of (r, s) \<Rightarrow>
        (case op_apply ops e s of
           (Inr _, s1) \<Rightarrow> (True, r, s1)
         | (Inl x, s1) \<Rightarrow>
             (False, r\<lparr>rp_failed := (case rp_failed r of None \<Rightarrow> Some x | Some y \<Rightarrow> Some y)\<rparr>, s1)))"

definition add_step :: "('s, 'e) capture_store \<Rightarrow> Capture \<Rightarrow> nat \<Rightarrow> Step \<Rightarrow> 'e replacing \<times> 's \<Rightarrow> ('e + 'e replacing) \<times> 's" where
  "add_step ops c index step rs =
     (case rs of (r, s) \<Rightarrow>
        (case (case rp_repo r of Some ts \<Rightarrow> (Inr ts, s) | None \<Rightarrow> repo_todos ops c s) of
           (Inl e, s1) \<Rightarrow> (Inl e, s1)
         | (Inr ts, s1) \<Rightarrow>
             (let tick = ticket_named c ts (sp_text step) in
              case (case tick of
                      Some i \<Rightarrow> (Inr i, s1)
                    | None \<Rightarrow> op_add ops \<lparr>nt_project = Some (ca_node c), nt_description = sp_text step, nt_parent = None,
                        nt_order = Some (int index * order_gap), nt_ticket = None\<rparr> s1) of
                (Inl e, s2) \<Rightarrow> (Inl e, s2)
              | (Inr i, s2) \<Rightarrow>
                  (let r1 = r\<lparr>rp_repo := Some ts\<rparr> in
                   case (if sp_status step \<noteq> KPending \<and> \<not> (tick \<noteq> None \<and> sp_status step = KCancelled)
                         then try_edit ops (SetStatus i (sp_status step) (ca_actor c)) (r1, s2)
                         else (True, r1, s2)) of
                     (_, r2, s3) \<Rightarrow> (Inr (r2\<lparr>rp_ids := (rp_ids r2)[index := Some i]\<rparr>), s3)))))"

definition replace_change :: "('s, 'e) capture_store \<Rightarrow> Capture \<Rightarrow> Todo list \<Rightarrow> Mirrored list \<Rightarrow> Step list \<Rightarrow> Change \<Rightarrow>
    'e replacing \<times> 's \<Rightarrow> ('e + 'e replacing) \<times> 's" where
  "replace_change ops c todos previous ss change rs =
     (case change of
        Add index \<Rightarrow> add_step ops c index (ss ! index) rs
      | StatusTo i to \<Rightarrow>
          if to = KCancelled \<and> is_ticket_todo todos i then (Inr (fst rs), snd rs)
          else (case try_edit ops (SetStatus i to (ca_actor c)) rs of (_, r, s) \<Rightarrow> (Inr r, s))
      | Cancel i \<Rightarrow>
          if is_ticket_todo todos i then (Inr (fst rs), snd rs)
          else (case try_edit ops (SetStatus i KCancelled (ca_actor c)) rs of
                  (ok, r, s) \<Rightarrow>
                    (Inr (case find (\<lambda>p. mi_todo p = i) previous of
                        Some prev \<Rightarrow>
                          if ok then r
                          else r\<lparr>rp_uncancelled := rp_uncancelled r
                             @ [\<lparr>mr_text = mi_text prev, mr_todo = i, mr_status = Some (mi_status prev)\<rparr>]\<rparr>
                      | None \<Rightarrow> r), s))
      | ReorderTo i order \<Rightarrow>
          if is_ticket_todo todos i then (Inr (fst rs), snd rs)
          else (case try_edit ops (Reorder i order) rs of (_, r, s) \<Rightarrow> (Inr r, s)))"

fun replace_all :: "('s, 'e) capture_store \<Rightarrow> Capture \<Rightarrow> Todo list \<Rightarrow> Mirrored list \<Rightarrow> Step list \<Rightarrow> Change list \<Rightarrow>
    'e replacing \<times> 's \<Rightarrow> ('e + 'e replacing) \<times> 's" where
  "replace_all ops c todos previous ss [] rs = (Inr (fst rs), snd rs)"
| "replace_all ops c todos previous ss (ch # chs) rs =
     (case replace_change ops c todos previous ss ch rs of
        (Inl e, s) \<Rightarrow> (Inl e, s)
      | (Inr r, s) \<Rightarrow> replace_all ops c todos previous ss chs (r, s))"

definition next_snapshot :: "Step list \<Rightarrow> 'e replacing \<Rightarrow> MirroredStep list" where
  "next_snapshot ss r =
     List.map_filter (\<lambda>(step, i). map_option (\<lambda>j. \<lparr>mr_text = sp_text step, mr_todo = j, mr_status = Some (sp_status step)\<rparr>) i)
       (zip ss (rp_ids r))
     @ rp_uncancelled r"

definition list_replace :: "('s, 'e) capture_store \<Rightarrow> 'm native_ops \<Rightarrow> Capture \<Rightarrow> json \<Rightarrow> string \<Rightarrow> 's \<times> 'm \<Rightarrow> ('s, 'm, 'e) captured" where
  "list_replace ops ntv c list text_key sm =
     (case (as_list list, sm) of
        (None, s, m) \<Rightarrow> (Inr (), s, m)
      | (Some items, s, m) \<Rightarrow>
          (let ss = sent_steps text_key items in
           case no_snapshot ntv (ca_harness c) (ca_actor c) m of
             (None, m1) \<Rightarrow> (Inl MapFault, s, m1)
           | (Some snap, m1) \<Rightarrow>
               (case fetch_steps ops snap s of
                  (Inl e, s1) \<Rightarrow> (Inl (StoreFault e), s1, m1)
                | (Inr todos, s1) \<Rightarrow>
                    (let previous = previous_steps todos snap in
                     case relocate_steps ops (ca_node c) todos previous s1 of
                       (Inl e, s2) \<Rightarrow> (Inl (StoreFault e), s2, m1)
                     | (Inr _, s2) \<Rightarrow>
                         (let ids = map (map_option (\<lambda>i. mi_todo (previous ! i))) (pair_steps previous ss) in
                          case replace_all ops c todos previous ss (diff previous ss)
                              (\<lparr>rp_ids = ids, rp_failed = None, rp_uncancelled = [], rp_repo = None\<rparr>, s2) of
                            (Inl e, s3) \<Rightarrow> (Inl (StoreFault e), s3, m1)
                          | (Inr r, s3) \<Rightarrow>
                              (case no_set_snapshot ntv (ca_harness c) (ca_actor c) (next_snapshot ss r) m1 of
                                 (None, m2) \<Rightarrow> (Inl MapFault, s3, m2)
                               | (Some _, m2) \<Rightarrow>
                                   (case rp_failed r of
                                      None \<Rightarrow> (Inr (), s3, m2)
                                    | Some e \<Rightarrow> (Inl (StoreFault e), s3, m2))))))))"

section \<open>The tools\<close>

datatype NativeTool = TaskCreate | TaskUpdate | UpdatePlan | TodoWrite | GrokTodoWrite

definition tool_of_name :: "string \<Rightarrow> NativeTool option" where
  "tool_of_name name =
     (if name = ''TaskCreate'' then Some TaskCreate
      else if name = ''TaskUpdate'' then Some TaskUpdate
      else if name = ''update_plan'' then Some UpdatePlan
      else if name = ''TodoWrite'' then Some TodoWrite
      else if name = ''todo_write'' then Some GrokTodoWrite
      else None)"

definition mirror_call :: "('s, 'e) capture_store \<Rightarrow> 'm native_ops \<Rightarrow> Capture \<Rightarrow> string \<Rightarrow> json \<Rightarrow> json \<Rightarrow> 's \<times> 'm \<Rightarrow>
    ('s, 'm, 'e) captured" where
  "mirror_call ops ntv c name input response sm =
     (case tool_of_name name of
        None \<Rightarrow> (Inr (), sm)
      | Some TaskCreate \<Rightarrow> task_create ops ntv c input response sm
      | Some TaskUpdate \<Rightarrow> task_update ops ntv c input sm
      | Some UpdatePlan \<Rightarrow> list_replace ops ntv c (at_key input ''plan'') ''step'' sm
      | Some TodoWrite \<Rightarrow> list_replace ops ntv c (at_key input ''todos'') ''content'' sm
      | Some GrokTodoWrite \<Rightarrow>
          list_replace ops ntv c (at_key (at_key response ''TodosUpdated'') ''todos'') ''content'' sm)"

end
