(* ===== verification/Todo_Native_Safety.thy ===== *)
theory Todo_Native_Safety
  imports Todo_Native Todo_Plan Ticket_Builtin
begin

text \<open>
  Native capture leaves the rest of the store alone: whatever a harness's tools report, the blocking graph stays
  without a cycle, and the todos of tickets keep their text, their place and their node and are never cancelled.
  The interface of a store that capture needs is \<open>capture_rows\<close>, the one of the map is \<open>native_map\<close>.
\<close>

section \<open>What a capture leaves alone\<close>

fun capture_edit :: "Edit \<Rightarrow> bool" where
  "capture_edit (SetStatus _ _ _) = True"
| "capture_edit (Describe _ _) = True"
| "capture_edit (Block _ _) = True"
| "capture_edit (Relocate _ _) = True"
| "capture_edit (Reorder _ order) = i64_ok order"
| "capture_edit _ = False"

text \<open>What each of these edits may change of the todo it names.\<close>

definition captured_by :: "Edit \<Rightarrow> Todo \<Rightarrow> Todo \<Rightarrow> bool" where
  "captured_by e t t' \<longleftrightarrow> td_id t' = td_id t \<and> td_ticket t' = td_ticket t \<and> td_parent t' = td_parent t
     \<and> (case e of Describe _ _ \<Rightarrow> True | _ \<Rightarrow> td_description t' = td_description t)
     \<and> (case e of Relocate _ _ \<Rightarrow> True | _ \<Rightarrow> td_project t' = td_project t)
     \<and> (case e of Reorder _ _ \<Rightarrow> True | _ \<Rightarrow> td_order t' = td_order t)
     \<and> (case e of SetStatus _ k _ \<Rightarrow> td_status t' = td_status t \<or> kind (td_status t') = k
          | _ \<Rightarrow> td_status t' = td_status t)
     \<and> set (td_blocked_by t') = (case e of Block _ by \<Rightarrow> set (td_blocked_by t) \<union> set by | _ \<Rightarrow> set (td_blocked_by t))"

text \<open>The edits that a ticket's todo may get: a status that is no cancel, and new blockers.\<close>

fun spares_tickets :: "Edit \<Rightarrow> bool" where
  "spares_tickets (SetStatus _ k _) = (k \<noteq> KCancelled)"
| "spares_tickets (Block _ _) = True"
| "spares_tickets _ = False"

definition spared :: "Todo \<Rightarrow> Todo \<Rightarrow> bool" where
  "spared t t' \<longleftrightarrow> td_ticket t' = td_ticket t \<and> td_description t' = td_description t \<and> td_project t' = td_project t
     \<and> td_parent t' = td_parent t \<and> td_order t' = td_order t
     \<and> (kind (td_status t') = KCancelled \<longrightarrow> td_status t' = td_status t)"

lemma spared_refl [simp]: "spared t t"
  by (simp add: spared_def)

lemma spared_trans: "spared t u \<Longrightarrow> spared u v \<Longrightarrow> spared t v"
  by (auto simp: spared_def)

lemma captured_spared: "captured_by e t t' \<Longrightarrow> spares_tickets e \<Longrightarrow> spared t t'"
  by (cases e) (auto simp: captured_by_def spared_def)

text \<open>From one state's todos to another's, by their ids.\<close>

definition tickets_kept :: "(string \<Rightarrow> Todo option) \<Rightarrow> (string \<Rightarrow> Todo option) \<Rightarrow> bool" where
  "tickets_kept f g \<longleftrightarrow> (\<forall>j t. f j = Some t \<longrightarrow> td_ticket t \<noteq> None \<longrightarrow> (\<exists>t'. g j = Some t' \<and> spared t t'))
     \<and> (\<forall>j t'. g j = Some t' \<longrightarrow> td_ticket t' \<noteq> None \<longrightarrow> (\<exists>t. f j = Some t \<and> td_ticket t \<noteq> None))"

lemma tickets_kept_refl [simp]: "tickets_kept f f"
  by (simp add: tickets_kept_def)

lemma tickets_kept_trans:
  assumes "tickets_kept f g" and "tickets_kept g h"
  shows "tickets_kept f h"
  unfolding tickets_kept_def
proof (intro conjI allI impI)
  fix j t assume "f j = Some t" "td_ticket t \<noteq> None"
  with assms(1) obtain u where u: "g j = Some u" "spared t u" unfolding tickets_kept_def by blast
  then have "td_ticket u \<noteq> None" using \<open>td_ticket t \<noteq> None\<close> by (simp add: spared_def)
  with assms(2) u(1) obtain v where "h j = Some v" "spared u v" unfolding tickets_kept_def by blast
  with u(2) show "\<exists>t'. h j = Some t' \<and> spared t t'" using spared_trans by blast
next
  fix j v assume "h j = Some v" "td_ticket v \<noteq> None"
  with assms(2) obtain u where "g j = Some u" "td_ticket u \<noteq> None" unfolding tickets_kept_def by blast
  with assms(1) show "\<exists>t. f j = Some t \<and> td_ticket t \<noteq> None" unfolding tickets_kept_def by blast
qed

lemma found_first: "(case find P xs of Some t \<Rightarrow> Some t | None \<Rightarrow> find Q xs) = Some x \<Longrightarrow> x \<in> set xs"
  by (auto dest: find_Some_set split: option.splits)

section \<open>The changes of a resent list\<close>

definition adds_in :: "Change list \<Rightarrow> nat" where
  "adds_in chs = length (filter (\<lambda>ch. case ch of Add _ \<Rightarrow> True | _ \<Rightarrow> False) chs)"

lemma adds_in_simps [simp]:
  "adds_in [] = 0" "adds_in (ch # chs) = (case ch of Add _ \<Rightarrow> Suc (adds_in chs) | _ \<Rightarrow> adds_in chs)"
  by (simp_all add: adds_in_def split: Change.split)

text \<open>The changes name steps of the two lists, and their orders fit a list short enough.\<close>

definition change_fits :: "string set \<Rightarrow> nat \<Rightarrow> Change \<Rightarrow> bool" where
  "change_fits old n ch = (case ch of Add j \<Rightarrow> j < n | StatusTo i _ \<Rightarrow> i \<in> old | Cancel i \<Rightarrow> i \<in> old
     | ReorderTo i order \<Rightarrow> i \<in> old \<and> (\<exists>j<n. order = int j * order_gap))"

lemma in_filter_map: "y \<in> set (filter_map f xs) \<longleftrightarrow> (\<exists>x\<in>set xs. f x = Some y)"
  by (simp add: filter_map_def in_map_filter)

lemma filter_map_length: "length (filter P (filter_map f xs)) \<le> length xs"
  by (induction xs) (auto simp: filter_map_def map_filter_simps split: option.split)

lemma paired_old: "(j, Some i) \<in> set (enumerate 0 (pair_steps previous ss)) \<Longrightarrow> j < length ss \<and> mi_todo (previous ! i) \<in> mi_todo ` set previous"
  by (auto simp: in_set_enumerate_eq dest: pair_nth)

lemma diff_fits:
  assumes "ch \<in> set (diff previous ss)"
  shows "change_fits (mi_todo ` set previous) (length ss) ch"
proof -
  consider "ch \<in> set (filter_map add_at (enumerate 0 (pair_steps previous ss)))"
    | "ch \<in> set (filter_map (status_at previous) (zip (pair_steps previous ss) ss))"
    | "ch \<in> set (filter_map cancel_at (zip previous (flags_of previous ss)))"
    | "ch \<in> set (filter_map (reorder_at previous) (enumerate 0 (pair_steps previous ss)))"
    using assms unfolding diff_eq by auto
  then show ?thesis
  proof cases
    case 1
    then show ?thesis
      by (auto simp: in_filter_map add_at_def change_fits_def in_set_enumerate_eq split: if_splits)
  next
    case 2
    then obtain p step where x: "(p, step) \<in> set (zip (pair_steps previous ss) ss)" "status_at previous (p, step) = Some ch"
      by (auto simp: in_filter_map)
    then obtain i where i: "p = Some i" "ch = StatusTo (mi_todo (previous ! i)) (sp_status step)"
      by (auto simp: status_at_def split: option.splits if_splits)
    from x(1) obtain j where "j < length ss" "pair_steps previous ss ! j = p" by (auto simp: in_set_zip)
    with i show ?thesis using pair_nth [of j ss previous i] by (auto simp: change_fits_def)
  next
    case 3
    then show ?thesis
      by (auto simp: in_filter_map cancel_at_def change_fits_def split: if_splits dest: set_zip_leftD)
  next
    case 4
    then obtain j p where x: "(j, p) \<in> set (enumerate 0 (pair_steps previous ss))" "reorder_at previous (j, p) = Some ch"
      by (auto simp: in_filter_map)
    then obtain i where "p = Some i" "ch = ReorderTo (mi_todo (previous ! i)) (int j * order_gap)"
      by (auto simp: reorder_at_def split: option.splits if_splits)
    with paired_old [of j i previous ss] x(1) show ?thesis
      by (auto simp: change_fits_def simp del: mult_cancel_right)
  qed
qed

lemma diff_adds: "adds_in (diff previous ss) \<le> length ss"
proof -
  let ?P = "\<lambda>ch. case ch of Add _ \<Rightarrow> True | _ \<Rightarrow> False"
  have none: "filter ?P (filter_map f xs) = []" if "\<And>x ch. f x = Some ch \<Longrightarrow> \<not> ?P ch" for f :: "'a \<Rightarrow> Change option" and xs
    using that by (auto simp: filter_empty_conv in_filter_map)
  have "filter ?P (filter_map (status_at previous) xs) = []" for xs
    by (rule none) (auto simp: status_at_def split: option.splits if_splits)
  moreover have "filter ?P (filter_map cancel_at xs) = []" for xs
    by (rule none) (auto simp: cancel_at_def split: if_splits)
  moreover have "filter ?P (filter_map (reorder_at previous) xs) = []" for xs
    by (rule none) (auto simp: reorder_at_def split: option.splits if_splits)
  moreover have "length (filter ?P (filter_map add_at (enumerate 0 (pair_steps previous ss)))) \<le> length ss"
    using filter_map_length [of ?P add_at "enumerate 0 (pair_steps previous ss)"] by simp
  ultimately show ?thesis by (simp add: adds_in_def diff_eq)
qed

section \<open>The interfaces\<close>

locale capture_rows =
  fixes ops :: "('s, 'e) capture_store"
    and row :: "'s \<Rightarrow> string \<Rightarrow> Todo option"
    and norm :: "string \<Rightarrow> string"
    and good :: "nat \<Rightarrow> 's \<Rightarrow> bool"
  assumes row_id: "good n s \<Longrightarrow> row s i = Some t \<Longrightarrow> td_id t = norm i"
    and row_norm: "row s (norm i) = row s i"
    and norm_norm: "norm (norm i) = norm i"
    and less_room: "good (Suc n) s \<Longrightarrow> good n s"
    and reading: "good n s \<Longrightarrow> op_all ops s = (ra, s') \<Longrightarrow>
      good n s' \<and> row s' = row s \<and> (\<forall>xs. ra = Inr xs \<longrightarrow>
        distinct (map td_id xs) \<and> (\<forall>t. t \<in> set xs \<longleftrightarrow> row s (td_id t) = Some t))"
    and listing: "good n s \<Longrightarrow> op_list ops node s = (rl, s') \<Longrightarrow>
      good n s' \<and> row s' = row s \<and> (\<forall>xs. rl = Inr xs \<longrightarrow> (\<forall>t\<in>set xs. row s (td_id t) = Some t))"
    and getting: "good n s \<Longrightarrow> op_get ops i s = (rg, s') \<Longrightarrow>
      good n s' \<and> row s' = row s \<and> (\<forall>x. rg = Inr x \<longrightarrow> x = row s i)"
    and adding: "good (Suc n) s \<Longrightarrow> nt_ticket a = None \<Longrightarrow> order_fits (nt_order a) \<Longrightarrow> op_add ops a s = (rd, s') \<Longrightarrow>
      good n s' \<and> (\<forall>x. rd = Inl x \<longrightarrow> row s' = row s) \<and> (\<forall>i. rd = Inr i \<longrightarrow> norm i = i \<and> row s i = None
        \<and> (\<exists>t. td_ticket t = None \<and> td_blocked_by t = [] \<and> row s' = (\<lambda>j. if norm j = i then Some t else row s j)))"
    and applying: "good n s \<Longrightarrow> capture_edit e \<Longrightarrow> edits_todo e = Some i \<Longrightarrow> op_apply ops e s = (rp, s') \<Longrightarrow>
      good n s' \<and> (\<forall>x. rp = Inl x \<longrightarrow> row s' = row s) \<and> (\<forall>ch. rp = Inr ch \<longrightarrow>
        (\<exists>t t'. row s i = Some t \<and> captured_by e t t' \<and> row s' = (\<lambda>j. if norm j = norm i then Some t' else row s j)))"

locale native_map =
  fixes ntv :: "'m native_ops" and ids :: "'m \<Rightarrow> string set"
  assumes recording: "no_record ntv h who native i m = (r1, m') \<Longrightarrow> ids m' \<subseteq> insert i (ids m)"
    and looking: "no_lookup ntv h who native m = (r2, m') \<Longrightarrow> ids m' \<subseteq> ids m \<and> (\<forall>i. r2 = Some (Some i) \<longrightarrow> i \<in> ids m)"
    and snapping: "no_snapshot ntv h who m = (r3, m') \<Longrightarrow> ids m' \<subseteq> ids m"
    and setting: "no_set_snapshot ntv h who xs m = (r4, m') \<Longrightarrow> ids m' \<subseteq> ids m"

text \<open>Capture relies on both: the ids the map holds are the spelling the store gives out.\<close>

locale capture = capture_rows ops row norm good + native_map ntv ids
  for ops :: "('s, 'e) capture_store" and row norm good and ntv :: "'m native_ops" and ids
begin

definition links :: "'s \<Rightarrow> (string \<times> string) set" where
  "links s = {(norm i, b) | i b. \<exists>t. row s i = Some t \<and> b \<in> set (td_blocked_by t)}"

definition carried :: "'s \<Rightarrow> 's \<Rightarrow> bool" where
  "carried s s' \<longleftrightarrow> tickets_kept (row s) (row s') \<and> (acyclic (links s) \<longrightarrow> acyclic (links s'))"

definition named :: "'m \<Rightarrow> bool" where
  "named m \<longleftrightarrow> (\<forall>i\<in>ids m. norm i = i)"

lemma carried_rows: "row s' = row s \<Longrightarrow> carried s s'"
  by (simp add: carried_def links_def)

lemma carried_trans: "carried s s1 \<Longrightarrow> carried s1 s2 \<Longrightarrow> carried s s2"
  using tickets_kept_trans by (auto simp: carried_def)

lemma norm_row_cong: "norm i = norm j \<Longrightarrow> row s i = row s j"
  by (metis row_norm)

lemma links_put_sub:
  assumes "row s' = (\<lambda>j. if norm j = norm i then Some t' else row s j)"
    and "set (td_blocked_by t') \<subseteq> B \<union> {b. \<exists>t. row s i = Some t \<and> b \<in> set (td_blocked_by t)}"
  shows "links s' \<subseteq> links s \<union> {norm i} \<times> B"
proof
  fix x assume "x \<in> links s'"
  then obtain j t b where j: "row s' j = Some t" "b \<in> set (td_blocked_by t)" "x = (norm j, b)"
    by (auto simp: links_def)
  show "x \<in> links s \<union> {norm i} \<times> B"
  proof (cases "norm j = norm i")
    case True
    then have "t = t'" using assms(1) j(1) by simp
    with j assms(2) True show ?thesis by (auto simp: links_def)
  next
    case False
    then have "row s j = Some t" using assms(1) j(1) by simp
    with j show ?thesis by (auto simp: links_def)
  qed
qed

lemma add_carried:
  assumes "good (Suc n) s" and "nt_ticket a = None" and "order_fits (nt_order a)" and "op_add ops a s = (r, s')"
  shows "good n s' \<and> carried s s' \<and> (\<forall>i. r = Inr i \<longrightarrow> norm i = i \<and> (\<exists>t. row s' i = Some t \<and> td_ticket t = None))"
proof (cases r)
  case (Inl x)
  with adding [OF assms] show ?thesis by (simp add: carried_rows)
next
  case (Inr i)
  with adding [OF assms] obtain t where g: "good n s'" "norm i = i" "row s i = None"
    and t: "td_ticket t = None" "td_blocked_by t = []" "row s' = (\<lambda>j. if norm j = norm i then Some t else row s j)" by auto
  have old: "row s j = None" if "norm j = norm i" for j using g(3) norm_row_cong [OF that] by simp
  have "tickets_kept (row s) (row s')"
    unfolding tickets_kept_def t(3) using old t(1) by (auto split: if_splits)
  moreover have "links s' \<subseteq> links s" using links_put_sub [OF t(3), of "{}"] t(2) by simp
  ultimately show ?thesis using g Inr t acyclic_subset by (auto simp: carried_def)
qed

lemma apply_carried:
  assumes g: "good n s" and e: "capture_edit e" "edits_todo e = Some i" and a: "op_apply ops e s = (r, s')"
    and spare: "\<forall>t. row s i = Some t \<longrightarrow> td_ticket t \<noteq> None \<longrightarrow> spares_tickets e"
    and safe: "\<forall>j by. e = Block j by \<longrightarrow> acyclic (links s) \<longrightarrow> acyclic (links s \<union> {norm i} \<times> set by)"
  shows "good n s' \<and> carried s s'"
proof (cases r)
  case (Inl x)
  with applying [OF g e a] show ?thesis by (simp add: carried_rows)
next
  case (Inr ch)
  with applying [OF g e a] obtain t t' where g': "good n s'" and t: "row s i = Some t" "captured_by e t t'"
    and s': "row s' = (\<lambda>j. if norm j = norm i then Some t' else row s j)" by auto
  have old: "row s j = Some t" if "norm j = norm i" for j using t(1) norm_row_cong [OF that] by simp
  have tk: "td_ticket t' = td_ticket t" using t(2) by (simp add: captured_by_def)
  have "tickets_kept (row s) (row s')"
    unfolding tickets_kept_def s' using old tk spare t captured_spared [OF t(2)] by (auto split: if_splits)
  moreover have "acyclic (links s')" if ac: "acyclic (links s)"
  proof -
    define B where "B = (case e of Block _ by \<Rightarrow> set by | _ \<Rightarrow> {})"
    have "set (td_blocked_by t') = set (td_blocked_by t) \<union> B"
      using t(2) by (cases e) (auto simp: captured_by_def B_def)
    then have "links s' \<subseteq> links s \<union> {norm i} \<times> B" using t(1) by (intro links_put_sub [OF s']) auto
    moreover have "acyclic (links s \<union> {norm i} \<times> B)" using safe ac e(1) by (cases e) (auto simp: B_def)
    ultimately show ?thesis using acyclic_subset by blast
  qed
  ultimately show ?thesis using g' by (simp add: carried_def)
qed

text \<open>The listing a block is checked against has the store's edges.\<close>

lemma listed_links:
  assumes "good n s" and xs: "distinct (map td_id xs)" "\<And>t. t \<in> set xs \<longleftrightarrow> row s (td_id t) = Some t"
  shows "stored_edges xs = links s"
proof -
  have "graph_get xs a = Some t \<longleftrightarrow> t \<in> set xs \<and> td_id t = a" for a t
    using todo_by_id_distinct [OF xs(1)] todo_by_id_Some by (auto simp: graph_get_def)
  then have e: "(a, b) \<in> stored_edges xs \<longleftrightarrow> (\<exists>t. row s a = Some t \<and> td_id t = a \<and> b \<in> set (td_blocked_by t))" for a b
    using xs(2) by (auto simp: stored_edges_def)
  have "x \<in> stored_edges xs \<longleftrightarrow> x \<in> links s" for x
  proof (cases x)
    case (Pair a b)
    show ?thesis unfolding Pair e
      using row_id [OF assms(1)] row_norm by (auto simp: links_def)
  qed
  then show ?thesis by blast
qed

lemma stored_links:
  assumes "good n s" and "op_all ops s = (Inr xs, s')"
  shows "stored_edges xs = links s"
  by (rule listed_links [OF assms(1)]) (use reading [OF assms] in auto)

lemma record_block_carried:
  assumes "good n s" and "norm i = i" and "record_block ops i by s = (r, s')"
  shows "good n s' \<and> carried s s'"
proof (cases "by = []")
  case True
  with assms show ?thesis by (simp add: record_block_def carried_rows)
next
  case False
  obtain ra s1 where all: "op_all ops s = (ra, s1)" by force
  from reading [OF assms(1) all] have g1: "good n s1" and c1: "carried s s1" and r1: "row s1 = row s"
    by (simp_all add: carried_rows)
  show ?thesis
  proof (cases ra)
    case (Inl e)
    with assms(3) False all g1 c1 show ?thesis by (simp add: record_block_def)
  next
    case (Inr todos)
    define safe where "safe = filter (\<lambda>b. cycle_through todos i [b] = None) by"
    have block: "(if safe = [] then (Inr (), s1)
        else case op_apply ops (Block i safe) s1 of (r, s2) \<Rightarrow> (map_sum id (\<lambda>_. ()) r, s2)) = (r, s')"
      using assms(3) False all Inr by (simp add: record_block_def Let_def safe_def del: cycle_through.simps split: if_splits)
    show ?thesis
    proof (cases "safe = []")
      case True
      with block g1 c1 show ?thesis by simp
    next
      case some: False
      obtain rp s2 where a: "op_apply ops (Block i safe) s1 = (rp, s2)" by force
      with block some have "s' = s2" by simp
      have "stored_edges todos = links s1" using stored_links [OF assms(1)] all Inr r1 by (simp add: links_def)
      then have "\<forall>b\<in>set safe. (b, i) \<notin> (links s1)\<^sup>*" by (auto simp: safe_def cycle_through_None simp del: cycle_through.simps)
      then have "good n s2 \<and> carried s1 s2"
        using assms(2) acyclic_new_edges [THEN iffD2, of "links s1" safe i] by (intro apply_carried [OF g1 _ _ a]) auto
      with c1 \<open>s' = s2\<close> carried_trans show ?thesis by blast
    qed
  qed
qed

lemma block_each_carried:
  "block_each ops i bs s = (r, s') \<Longrightarrow> good n s \<Longrightarrow> \<forall>b\<in>set bs. norm b = b \<Longrightarrow> good n s' \<and> carried s s'"
proof (induction bs arbitrary: s)
  case Nil
  then show ?case by (simp add: carried_rows)
next
  case (Cons b bs)
  obtain rb s1 where b: "record_block ops b [i] s = (rb, s1)" by force
  from record_block_carried [OF Cons.prems(2) _ b] Cons.prems(3) have 1: "good n s1" "carried s s1" by auto
  show ?case
  proof (cases rb)
    case (Inl e)
    with Cons.prems(1) b 1 show ?thesis by simp
  next
    case (Inr x)
    with Cons.prems(1) b have "block_each ops i bs s1 = (r, s')" by simp
    from Cons.IH [OF this 1(1)] Cons.prems(3) 1(2) carried_trans show ?thesis by auto
  qed
qed

lemma native_ids_named:
  "native_ids ntv c vs m = (r, m') \<Longrightarrow> named m \<Longrightarrow> named m' \<and> (\<forall>is. r = Some is \<longrightarrow> (\<forall>i\<in>set is. norm i = i))"
proof (induction vs arbitrary: m r m')
  case Nil
  then show ?case by auto
next
  case (Cons v vs)
  show ?case
  proof (cases "as_text v")
    case None
    with Cons show ?thesis by simp
  next
    case (Some native)
    obtain rl m1 where l: "no_lookup ntv (ca_harness c) (ca_actor c) native m = (rl, m1)" by force
    from looking [OF l] Cons.prems(2) have n1: "named m1" and i: "\<forall>i. rl = Some (Some i) \<longrightarrow> norm i = i"
      by (auto simp: named_def)
    obtain rs m2 where rs: "native_ids ntv c vs m1 = (rs, m2)" by force
    from Cons.IH [OF rs n1] i Cons.prems(1) n1 show ?thesis
      by (auto simp: Some l rs split: option.splits)
  qed
qed

lemma mirror_blockers_carried:
  assumes m: "mirror_blockers ops ntv c i input (s, m) = (r, s', m')" and g: "good n s" and n: "named m" and i: "norm i = i"
  shows "good n s' \<and> carried s s' \<and> named m'"
proof -
  define first where "first = (case as_list (at_key input ''addBlockedBy'') of
      None \<Rightarrow> (Inr (), s, m)
    | Some vs \<Rightarrow> (case native_ids ntv c vs m of
         (None, m1) \<Rightarrow> (Inl MapFault, s, m1)
       | (Some by, m1) \<Rightarrow> (case record_block ops i by s of (r, s1) \<Rightarrow> (map_sum StoreFault id r, s1, m1))))"
  obtain r1 s1 m1 where f: "first = (r1, s1, m1)" by (cases first) auto
  have m: "(case first of
        (Inl e, s, m) \<Rightarrow> (Inl e, s, m)
      | (Inr _, s, m) \<Rightarrow>
          (case as_list (at_key input ''addBlocks'') of
             None \<Rightarrow> (Inr (), s, m)
           | Some vs \<Rightarrow>
               (case native_ids ntv c vs m of
                  (None, m1) \<Rightarrow> (Inl MapFault, s, m1)
                | (Some blocked, m1) \<Rightarrow>
                    (case block_each ops i blocked s of (r, s1) \<Rightarrow> (map_sum StoreFault id r, s1, m1))))) = (r, s', m')"
    using m unfolding mirror_blockers_def first_def by (cases "as_list (at_key input ''addBlockedBy'')") simp_all
  have 1: "good n s1" "carried s s1" "named m1"
    using f g n carried_rows [of s s] record_block_carried [OF g i] native_ids_named [OF _ n]
    by (auto simp: first_def split: option.splits prod.splits)
  show ?thesis
  proof (cases r1)
    case (Inl e)
    with m f 1 show ?thesis by simp
  next
    case (Inr u)
    show ?thesis
    proof (cases "as_list (at_key input ''addBlocks'')")
      case None
      with m f 1 Inr show ?thesis by simp
    next
      case (Some vs)
      obtain rb m2 where b: "native_ids ntv c vs m1 = (rb, m2)" by force
      note nm = native_ids_named [OF b 1(3)]
      show ?thesis
      proof (cases rb)
        case None
        with m f 1 Inr Some b nm show ?thesis by simp
      next
        case ids: (Some blocked)
        obtain re s2 where e: "block_each ops i blocked s1 = (re, s2)" by force
        from block_each_carried [OF e 1(1)] nm ids have "good n s2" "carried s1 s2" by auto
        with m f 1 Inr Some b ids e nm carried_trans show ?thesis
          by auto
      qed
    qed
  qed
qed

lemma apply_if_carried:
  assumes "apply_if ops e s = (r, s')" and "good n s"
    and "\<forall>edit. e = Some edit \<longrightarrow> capture_edit edit \<and> edits_todo edit = Some i \<and> (\<forall>j by. edit \<noteq> Block j by)
      \<and> (\<forall>t. row s i = Some t \<longrightarrow> td_ticket t \<noteq> None \<longrightarrow> spares_tickets edit)"
  shows "good n s' \<and> carried s s'"
proof (cases e)
  case None
  with assms show ?thesis by (simp add: apply_if_def carried_rows)
next
  case (Some edit)
  obtain rp s1 where a: "op_apply ops edit s = (rp, s1)" by force
  with assms(1) Some have "s' = s1" by (simp add: apply_if_def)
  with apply_carried [OF assms(2) _ _ a, of i] assms(3) Some show ?thesis by auto
qed

lemma ticket_named_row:
  assumes "good n s" and "op_list ops node s = (Inr todos, s')" and "ticket_named c todos text = Some i"
  shows "norm i = i"
proof -
  from assms(3) obtain here t where t: "named_ticket todos text here = Some t" "i = td_id t"
    by (auto simp: ticket_named_def split: option.splits)
  have "t \<in> set (filter (\<lambda>t. td_ticket t \<noteq> None) (filter todo_open todos))"
    by (rule found_first) (rule t(1) [unfolded named_ticket_def Let_def])
  then have "t \<in> set todos" by simp
  with listing [OF assms(1,2)] have "row s (td_id t) = Some t" by simp
  from row_id [OF assms(1) this] t(2) show ?thesis by simp
qed

lemma repo_todos_carried:
  assumes "good n s" and "repo_todos ops c s = (r, s')"
  shows "good n s' \<and> row s' = row s \<and> (\<forall>todos. r = Inr todos \<longrightarrow> (\<forall>i. ticket_named c todos text = Some i \<longrightarrow> norm i = i))"
proof (cases "ca_repo c")
  case None
  have "ticket_named c [] text = None" by (simp add: ticket_named_def named_ticket_def Let_def split: option.split)
  with None assms show ?thesis by (auto simp: repo_todos_def)
next
  case (Some node)
  with assms(2) have l: "op_list ops node s = (r, s')" by (simp add: repo_todos_def)
  from listing [OF assms(1) l] ticket_named_row [OF assms(1)] l show ?thesis by blast
qed

lemma task_create_carried:
  assumes t: "task_create ops ntv c input response (s, m) = (r, s', m')" and g: "good (Suc n) s" and n: "named m"
  shows "good n s' \<and> carried s s' \<and> named m'"
proof (cases "as_text (at_key input ''subject'') = None \<or> as_text (at_key (at_key response ''task'') ''id'') = None")
  case True
  with t have "s' = s" "m' = m" by (auto simp: task_create_def split: option.splits)
  with g n less_room show ?thesis by (simp add: carried_rows)
next
  case False
  then obtain subject native where in_out: "as_text (at_key input ''subject'') = Some subject"
    "as_text (at_key (at_key response ''task'') ''id'') = Some native" by auto
  obtain rr s1 where rt: "repo_todos ops c s = (rr, s1)" by force
  from repo_todos_carried [OF g rt] have g1: "good (Suc n) s1" and c1: "carried s s1"
    and tick: "\<And>todos i. rr = Inr todos \<Longrightarrow> ticket_named c todos subject = Some i \<Longrightarrow> norm i = i"
    by (auto simp: carried_rows)
  show ?thesis
  proof (cases rr)
    case (Inl e)
    with t in_out rt g1 c1 n less_room show ?thesis by (simp add: task_create_def)
  next
    case (Inr todos)
    define added where "added = (case ticket_named c todos subject of Some i \<Rightarrow> (Inr i, s1)
      | None \<Rightarrow> op_add ops \<lparr>nt_project = Some (ca_node c), nt_description = subject, nt_parent = None,
          nt_order = None, nt_ticket = None\<rparr> s1)"
    obtain ra s2 where a: "added = (ra, s2)" by force
    have 2: "good n s2 \<and> carried s1 s2 \<and> (\<forall>i. ra = Inr i \<longrightarrow> norm i = i)"
    proof (cases "ticket_named c todos subject")
      case None
      with a have "op_add ops \<lparr>nt_project = Some (ca_node c), nt_description = subject, nt_parent = None,
          nt_order = None, nt_ticket = None\<rparr> s1 = (ra, s2)" by (simp add: added_def)
      from add_carried [OF g1 _ _ this] show ?thesis by (auto simp: order_fits_def)
    next
      case (Some i)
      with a g1 less_room tick [OF Inr Some] show ?thesis by (auto simp: added_def carried_rows)
    qed
    have eq: "(case added of (Inl e, s2) \<Rightarrow> (Inl (StoreFault e), s2, m)
        | (Inr i, s2) \<Rightarrow> (case no_record ntv (ca_harness c) (ca_session c) native i m of
             (None, m') \<Rightarrow> (Inl MapFault, s2, m') | (Some _, m') \<Rightarrow> (Inr (), s2, m'))) = (r, s', m')"
      using t in_out rt Inr by (simp add: task_create_def added_def)
    show ?thesis
    proof (cases ra)
      case (Inl e)
      with eq a 2 c1 n carried_trans show ?thesis by auto
    next
      case (Inr i)
      obtain rm m1 where rec: "no_record ntv (ca_harness c) (ca_session c) native i m = (rm, m1)" by force
      from recording [OF rec] n 2 Inr have "named m1" by (auto simp: named_def)
      with eq a 2 c1 Inr rec carried_trans show ?thesis by (auto split: option.splits)
    qed
  qed
qed

lemma task_update_carried:
  assumes t: "task_update ops ntv c input (s, m) = (r, s', m')" and g: "good n s" and n: "named m"
  shows "good n s' \<and> carried s s' \<and> named m'"
proof (cases "as_text (at_key input ''taskId'')")
  case None
  with t g n show ?thesis by (simp add: task_update_def carried_rows)
next
  case (Some native)
  obtain rl m1 where l: "no_lookup ntv (ca_harness c) (ca_actor c) native m = (rl, m1)" by force
  from looking [OF l] n have n1: "named m1" and i: "\<And>i. rl = Some (Some i) \<Longrightarrow> norm i = i" by (auto simp: named_def)
  show ?thesis
  proof (cases "rl = None \<or> rl = Some None")
    case True
    with t Some l g n1 show ?thesis by (auto simp: task_update_def carried_rows)
  next
    case False
    then obtain i where rl: "rl = Some (Some i)" by (metis not_None_eq)
    obtain rg s1 where get: "op_get ops i s = (rg, s1)" by force
    from getting [OF g get] have g1: "good n s1" and c1: "carried s s1" and r1: "row s1 = row s"
      and cur: "\<And>x. rg = Inr x \<Longrightarrow> x = row s i" by (auto simp: carried_rows)
    show ?thesis
    proof (cases rg)
      case (Inl e)
      with t Some l rl get g1 c1 n1 show ?thesis by (simp add: task_update_def)
    next
      case (Inr current)
      obtain rd s2 where d: "apply_if ops (update_describe i input current) s1 = (rd, s2)" by force
      obtain rs s3 where st: "apply_if ops (update_status i (ca_actor c) input current) s2 = (rs, s3)" by force
      have tick: "has_ticket current \<longleftrightarrow> (\<exists>t. row s i = Some t \<and> td_ticket t \<noteq> None)"
        using cur [OF Inr] by (auto simp: has_ticket_def split: option.splits)
      have 2: "good n s2 \<and> carried s1 s2"
        by (rule apply_if_carried [OF d g1, of i]) (use tick r1 in \<open>auto simp: update_describe_def split: option.splits if_splits\<close>)
      have "\<exists>t. row s i = Some t \<and> td_ticket t \<noteq> None" if "row s2 i = Some t" "td_ticket t \<noteq> None" for t
        using that 2 r1 by (auto simp: carried_def tickets_kept_def)
      then have 3: "good n s3 \<and> carried s2 s3"
        using 2 tick by (intro apply_if_carried [OF st, of n i]) (auto simp: update_status_def split: option.splits if_splits)
      have eq: "(case (rd, s2) of (Inl e, s2) \<Rightarrow> (Inl e, s2, m1)
          | (Inr _, s2) \<Rightarrow> (case apply_if ops (update_status i (ca_actor c) input current) s2 of (Inl e, s3) \<Rightarrow> (Inl e, s3, m1)
             | (Inr _, s3) \<Rightarrow> mirror_blockers ops ntv c i input (s3, m1))) = (r, s', m')"
        using t Some l rl get Inr unfolding d [symmetric]
        by (simp add: task_update_def)
      have "good n s' \<and> carried s2 s' \<and> named m' \<or> s' = s2 \<and> m' = m1"
      proof (cases "\<exists>u v. rd = Inr u \<and> rs = Inr v")
        case True
        with eq st have "mirror_blockers ops ntv c i input (s3, m1) = (r, s', m')" by auto
        from mirror_blockers_carried [OF this _ n1 i [OF rl]] 3 carried_trans show ?thesis by blast
      next
        case False
        with eq st 3 n1 show ?thesis by (cases rd; cases rs) auto
      qed
      with 2 c1 n1 carried_trans show ?thesis by blast
    qed
  qed
qed

lemma less_rooms: "good (k + n) s \<Longrightarrow> good n s"
  by (induction k) (auto dest: less_room)

lemma fetch_steps_rows:
  "fetch_steps ops xs s = (r, s') \<Longrightarrow> good n s \<Longrightarrow>
     good n s' \<and> row s' = row s \<and> (\<forall>ts. r = Inr ts \<longrightarrow> (\<forall>t\<in>set ts. row s (td_id t) = Some t))"
proof (induction xs arbitrary: s r s')
  case Nil
  then show ?case by auto
next
  case (Cons x xs)
  obtain rg s1 where g: "op_get ops (mr_todo x) s = (rg, s1)" by force
  from getting [OF Cons.prems(2) g] have 1: "good n s1" "row s1 = row s" "\<And>y. rg = Inr y \<Longrightarrow> y = row s (mr_todo x)" by auto
  obtain rs s2 where rs: "fetch_steps ops xs s1 = (rs, s2)" by force
  note IH = Cons.IH [OF rs 1(1)]
  have "row s (td_id t) = Some t" if "rg = Inr (Some t)" for t
  proof -
    from 1(3) [OF that] have t: "row s (mr_todo x) = Some t" by simp
    with row_id [OF Cons.prems(2) t] row_norm show ?thesis by simp
  qed
  with Cons.prems(1) g rs 1 IH show ?case by (cases rg; cases rs) (auto split: option.splits)
qed

lemma previous_known:
  assumes "p \<in> set (previous_steps todos snap)"
  shows "\<exists>t\<in>set todos. td_id t = mi_todo p"
proof -
  from assms obtain x where "mirrored_now todos x = Some p" unfolding previous_steps_def in_map_filter by blast
  then obtain current where "find (\<lambda>t. td_id t = mr_todo x) todos = Some current" "mi_todo p = mr_todo x"
    unfolding mirrored_now_def by (cases "find (\<lambda>t. td_id t = mr_todo x) todos") auto
  with find_Some_set show ?thesis by fastforce
qed

text \<open>A todo without a ticket at the start has none later.\<close>

lemma no_ticket_later:
  assumes "carried s0 s" and "row s0 i = Some t" and "td_ticket t = None"
  shows "\<forall>u. row s i = Some u \<longrightarrow> td_ticket u = None"
  using assms unfolding carried_def tickets_kept_def by fastforce

lemma relocate_steps_carried:
  "relocate_steps ops node todos ps s = (r, s') \<Longrightarrow> good n s \<Longrightarrow> carried s0 s \<Longrightarrow>
     \<forall>t\<in>set todos. row s0 (td_id t) = Some t \<Longrightarrow> good n s' \<and> carried s0 s'"
proof (induction ps arbitrary: s)
  case Nil
  then show ?case by simp
next
  case (Cons p ps)
  show ?case
  proof (cases "(mi_status p = KPending \<or> mi_status p = KInProgress)
         \<and> list_ex (\<lambda>t. td_id t = mi_todo p \<and> td_ticket t = None \<and> td_project t \<noteq> Some node) todos")
    case False
    then have "relocate_steps ops node todos ps s = (r, s')" using Cons.prems(1) by (simp split: if_splits)
    from Cons.IH [OF this Cons.prems(2-4)] show ?thesis .
  next
    case True
    then obtain t where "t \<in> set todos" "td_id t = mi_todo p" "td_ticket t = None" by (auto simp: list_ex_iff)
    with Cons.prems(4) have "row s0 (mi_todo p) = Some t" by auto
    from no_ticket_later [OF Cons.prems(3) this \<open>td_ticket t = None\<close>]
    have no: "\<forall>u. row s (mi_todo p) = Some u \<longrightarrow> td_ticket u = None" .
    obtain ra s1 where a: "op_apply ops (Relocate (mi_todo p) (Some node)) s = (ra, s1)" by force
    have "good n s1 \<and> carried s s1" by (rule apply_carried [OF Cons.prems(2) _ _ a]) (use no in auto)
    then have 1: "good n s1" "carried s0 s1" using Cons.prems(3) carried_trans by blast+
    show ?thesis
    proof (cases ra)
      case (Inl e)
      with Cons.prems(1) True a 1 show ?thesis by simp
    next
      case (Inr ch)
      with Cons.prems(1) True a have "relocate_steps ops node todos ps s1 = (r, s')" by simp
      from Cons.IH [OF this 1 Cons.prems(4)] show ?thesis .
    qed
  qed
qed

lemma try_edit_carried:
  assumes "try_edit ops e (r, s) = (ok, r', s')" and "good n s" and "capture_edit e" and "edits_todo e = Some i"
    and "\<forall>j by. e \<noteq> Block j by" and "\<forall>t. row s i = Some t \<longrightarrow> td_ticket t \<noteq> None \<longrightarrow> spares_tickets e"
  shows "good n s' \<and> carried s s'"
proof -
  obtain ra s1 where a: "op_apply ops e s = (ra, s1)" by force
  with assms(1) have "s' = s1" by (auto simp: try_edit_def split: sum.splits)
  with apply_carried [OF assms(2,3,4) a assms(6)] assms(5) show ?thesis by auto
qed

lemma add_step_carried:
  assumes st: "add_step ops c index step (r, s) = (rr, s')" and g: "good (Suc n) s"
    and order: "i64_ok (int index * order_gap)"
  shows "good n s' \<and> carried s s'"
proof -
  define read where "read = (case rp_repo r of Some ts \<Rightarrow> (Inr ts, s) | None \<Rightarrow> repo_todos ops c s)"
  obtain rt s1 where rt: "read = (rt, s1)" by force
  have 1: "good (Suc n) s1 \<and> carried s s1"
    using rt g repo_todos_carried [OF g] carried_rows by (auto simp: read_def split: option.splits)
  show ?thesis
  proof (cases rt)
    case (Inl e)
    with st rt 1 less_room show ?thesis by (simp add: add_step_def read_def [symmetric])
  next
    case (Inr ts)
    define tick where "tick = ticket_named c ts (sp_text step)"
    define added where "added = (case tick of Some i \<Rightarrow> (Inr i, s1)
      | None \<Rightarrow> op_add ops \<lparr>nt_project = Some (ca_node c), nt_description = sp_text step, nt_parent = None,
          nt_order = Some (int index * order_gap), nt_ticket = None\<rparr> s1)"
    obtain ra s2 where a: "added = (ra, s2)" by force
    have 2: "good n s2 \<and> carried s1 s2 \<and> (\<forall>i. tick = None \<longrightarrow> ra = Inr i \<longrightarrow> (\<exists>t. row s2 i = Some t \<and> td_ticket t = None))"
    proof (cases tick)
      case None
      with a have "op_add ops \<lparr>nt_project = Some (ca_node c), nt_description = sp_text step, nt_parent = None,
          nt_order = Some (int index * order_gap), nt_ticket = None\<rparr> s1 = (ra, s2)" by (simp add: added_def)
      from add_carried [OF conjunct1 [OF 1] _ _ this] order show ?thesis by (auto simp: order_fits_def)
    next
      case (Some i)
      with a 1 less_room show ?thesis by (auto simp: added_def carried_rows)
    qed
    have eq: "(case added of (Inl e, s2) \<Rightarrow> (Inl e, s2)
        | (Inr i, s2) \<Rightarrow>
            (case (if sp_status step \<noteq> KPending \<and> \<not> (tick \<noteq> None \<and> sp_status step = KCancelled)
                 then try_edit ops (SetStatus i (sp_status step) (ca_actor c)) (r\<lparr>rp_repo := Some ts\<rparr>, s2)
                 else (True, r\<lparr>rp_repo := Some ts\<rparr>, s2)) of
               (_, r2, s3) \<Rightarrow> (Inr (r2\<lparr>rp_ids := (rp_ids r2)[index := Some i]\<rparr>), s3))) = (rr, s')"
      using st by (simp only: add_step_def prod.case read_def [symmetric] rt Inr sum.case Let_def tick_def [symmetric] added_def [symmetric])
    show ?thesis
    proof (cases ra)
      case (Inl e)
      with eq a 1 2 carried_trans show ?thesis by auto
    next
      case (Inr i)
      show ?thesis
      proof (cases "sp_status step \<noteq> KPending \<and> \<not> (tick \<noteq> None \<and> sp_status step = KCancelled)")
        case False
        then have "s' = s2" using eq a Inr by (simp split: if_splits)
        with 1 2 carried_trans [of s s1 s2] show ?thesis by simp
      next
        case True
        obtain ok r2 s3 where t: "try_edit ops (SetStatus i (sp_status step) (ca_actor c)) (r\<lparr>rp_repo := Some ts\<rparr>, s2) = (ok, r2, s3)"
          by (metis prod_cases3)
        then have "s' = s3" using eq a Inr True by simp
        have "good n s3 \<and> carried s2 s3"
          by (rule try_edit_carried [OF t, of n i]) (use 2 Inr True in auto)
        with \<open>s' = s3\<close> 1 2 carried_trans [of s s1 s2] carried_trans [of s s2 s3] show ?thesis by simp
      qed
    qed
  qed
qed

lemma replace_change_carried:
  assumes ch: "replace_change ops c todos previous ss ch (r, s) = (rr, s')"
    and g: "good (adds_in [ch] + n) s" and c0: "carried s0 s"
    and known: "\<forall>t\<in>set todos. row s0 (td_id t) = Some t" and old: "mi_todo ` set previous \<subseteq> td_id ` set todos"
    and fits: "change_fits (mi_todo ` set previous) (length ss) ch" and short: "i64_ok (int (length ss) * order_gap)"
  shows "good n s' \<and> carried s0 s'"
proof -
  have small: "i64_ok (int j * order_gap)" if "j < length ss" for j
    using short that by (simp add: i64_ok_def order_gap_def)
  have free: "\<forall>u. row s i = Some u \<longrightarrow> td_ticket u = None"
    if i: "i \<in> mi_todo ` set previous" "\<not> is_ticket_todo todos i" for i
  proof -
    obtain t where t: "i = td_id t" "t \<in> set todos" by (rule imageE [OF subsetD [OF old i(1)]])
    have "td_ticket t = None" using i(2) t by (auto simp: is_ticket_todo_def list_ex_iff)
    have "row s0 i = Some t" using known t by simp
    from no_ticket_later [OF c0 this \<open>td_ticket t = None\<close>] show ?thesis .
  qed
  have one: "good n s' \<and> carried s0 s'" if "good n s' \<and> carried s s'"
    using that carried_trans [OF c0] by blast
  have same: "good n s' \<and> carried s0 s'" if "s' = s" "good n s" using that c0 by simp
  show ?thesis
  proof (cases ch)
    case (Add index)
    with ch have "add_step ops c index (ss ! index) (r, s) = (rr, s')" by (simp add: replace_change_def)
    from one [OF add_step_carried [OF this]] g fits small Add show ?thesis by (simp add: change_fits_def)
  next
    case (StatusTo i to)
    show ?thesis
    proof (cases "to = KCancelled \<and> is_ticket_todo todos i")
      case True
      with ch StatusTo g show ?thesis by (intro same) (auto simp: replace_change_def)
    next
      case False
      obtain ok r1 s1 where t: "try_edit ops (SetStatus i to (ca_actor c)) (r, s) = (ok, r1, s1)" by (metis prod_cases3)
      with ch StatusTo False have "s' = s1" by (auto simp: replace_change_def)
      moreover have "good n s1 \<and> carried s s1"
        by (rule try_edit_carried [OF t, of n i])
          (use g StatusTo False fits free [of i] in \<open>auto simp: change_fits_def simp del: image_iff\<close>)
      ultimately show ?thesis using one by simp
    qed
  next
    case (Cancel i)
    show ?thesis
    proof (cases "is_ticket_todo todos i")
      case True
      with ch Cancel g show ?thesis by (intro same) (auto simp: replace_change_def)
    next
      case False
      obtain ok r1 s1 where t: "try_edit ops (SetStatus i KCancelled (ca_actor c)) (r, s) = (ok, r1, s1)" by (metis prod_cases3)
      with ch Cancel False have "s' = s1" by (auto simp: replace_change_def)
      moreover have "good n s1 \<and> carried s s1"
        by (rule try_edit_carried [OF t, of n i]) (use g Cancel False fits free in \<open>auto simp: change_fits_def\<close>)
      ultimately show ?thesis using one by simp
    qed
  next
    case (ReorderTo i order)
    show ?thesis
    proof (cases "is_ticket_todo todos i")
      case True
      with ch ReorderTo g show ?thesis by (intro same) (auto simp: replace_change_def)
    next
      case False
      obtain ok r1 s1 where t: "try_edit ops (Reorder i order) (r, s) = (ok, r1, s1)" by (metis prod_cases3)
      with ch ReorderTo False have "s' = s1" by (auto simp: replace_change_def)
      moreover have "good n s1 \<and> carried s s1"
        by (rule try_edit_carried [OF t, of n i]) (use g ReorderTo False fits free small in \<open>auto simp: change_fits_def\<close>)
      ultimately show ?thesis using one by simp
    qed
  qed
qed

lemma replace_all_carried:
  "replace_all ops c todos previous ss chs (r, s) = (rr, s') \<Longrightarrow> good (adds_in chs + n) s \<Longrightarrow> carried s0 s \<Longrightarrow>
     \<forall>t\<in>set todos. row s0 (td_id t) = Some t \<Longrightarrow> mi_todo ` set previous \<subseteq> td_id ` set todos \<Longrightarrow>
     \<forall>ch\<in>set chs. change_fits (mi_todo ` set previous) (length ss) ch \<Longrightarrow> i64_ok (int (length ss) * order_gap) \<Longrightarrow>
     good n s' \<and> carried s0 s'"
proof (induction chs arbitrary: r s)
  case Nil
  then show ?case by simp
next
  case (Cons ch chs)
  obtain r1 s1 where c: "replace_change ops c todos previous ss ch (r, s) = (r1, s1)" by force
  have "good (adds_in [ch] + (adds_in chs + n)) s" using Cons.prems(2) by (cases ch) simp_all
  from replace_change_carried [OF c this Cons.prems(3-5) _ Cons.prems(7)] Cons.prems(6)
  have 1: "good (adds_in chs + n) s1" "carried s0 s1" by simp_all
  show ?case
  proof (cases r1)
    case (Inl e)
    with Cons.prems(1) c 1 less_rooms show ?thesis by auto
  next
    case (Inr q)
    with Cons.prems(1) c have "replace_all ops c todos previous ss chs (q, s1) = (rr, s')" by simp
    from Cons.IH [OF this 1 Cons.prems(4,5) _ Cons.prems(7)] Cons.prems(6) show ?thesis by simp
  qed
qed

lemma sent_steps_length: "length (sent_steps key items) \<le> length items"
  by (induction items) (auto simp: sent_steps_def map_filter_simps split: option.split)

lemma list_replace_carried:
  assumes l: "list_replace ops ntv c list key (s, m) = (r, s', m')" and n: "named m"
    and g: "\<forall>items. as_list list = Some items \<longrightarrow> good (length items + n) s \<and> i64_ok (int (length items) * order_gap)"
    and g0: "good n s"
  shows "good n s' \<and> carried s s' \<and> named m'"
proof (cases "as_list list")
  case None
  with l n g0 show ?thesis by (simp add: list_replace_def carried_rows)
next
  case (Some items)
  define ss where "ss = sent_steps key items"
  have len: "length ss \<le> length items" by (simp add: ss_def sent_steps_length)
  obtain rn m1 where sn: "no_snapshot ntv (ca_harness c) (ca_actor c) m = (rn, m1)" by force
  from snapping [OF sn] n have n1: "named m1" by (auto simp: named_def)
  show ?thesis
  proof (cases rn)
    case None
    with l Some sn n1 g0 show ?thesis by (simp add: list_replace_def Let_def carried_rows)
  next
    case snap: (Some snap)
    obtain rf s1 where f: "fetch_steps ops snap s = (rf, s1)" by force
    from g Some have big: "good (length items + n) s" and small: "i64_ok (int (length items) * order_gap)" by auto
    from fetch_steps_rows [OF f big] have g1: "good (length items + n) s1" and r1: "row s1 = row s"
      and known: "\<And>ts. rf = Inr ts \<Longrightarrow> \<forall>t\<in>set ts. row s (td_id t) = Some t" by auto
    note c1 = carried_rows [OF r1]
    show ?thesis
    proof (cases rf)
      case (Inl e)
      with l Some sn snap f n1 c1 less_rooms [OF g1] show ?thesis by (simp add: list_replace_def Let_def)
    next
      case todos: (Inr todos)
      define previous where "previous = previous_steps todos snap"
      obtain rr s2 where rel: "relocate_steps ops (ca_node c) todos previous s1 = (rr, s2)" by force
      from relocate_steps_carried [OF rel g1 c1 known [OF todos]] have 2: "good (length items + n) s2" "carried s s2" by auto
      show ?thesis
      proof (cases rr)
        case (Inl e)
        with l Some sn snap f todos n1 2 less_rooms [OF 2(1)] rel show ?thesis
          by (simp add: list_replace_def Let_def previous_def)
      next
        case (Inr u)
        define r0 :: "'e replacing" where "r0 = \<lparr>rp_ids = map (map_option (\<lambda>i. mi_todo (previous ! i))) (pair_steps previous ss),
          rp_failed = None, rp_uncancelled = [], rp_repo = None\<rparr>"
        obtain ra s3 where ra: "replace_all ops c todos previous ss (diff previous ss) (r0, s2) = (ra, s3)" by force
        have room: "good (adds_in (diff previous ss) + n) s2"
        proof -
          define k where "k = length items - adds_in (diff previous ss)"
          have "length items + n = k + (adds_in (diff previous ss) + n)"
            using le_trans [OF diff_adds len, of previous] by (simp add: k_def)
          with 2(1) have "good (k + (adds_in (diff previous ss) + n)) s2" by simp
          then show ?thesis by (rule less_rooms)
        qed
        have "mi_todo ` set previous \<subseteq> td_id ` set todos"
        proof
          fix i assume "i \<in> mi_todo ` set previous"
          then obtain p where p: "i = mi_todo p" "p \<in> set previous" by (rule imageE)
          from previous_known [OF p(2) [unfolded previous_def]] obtain t where "t \<in> set todos" "td_id t = mi_todo p" by blast
          with p(1) show "i \<in> td_id ` set todos" by (metis image_eqI)
        qed
        moreover have "i64_ok (int (length ss) * order_gap)"
          using small len by (simp add: i64_ok_def order_gap_def)
        moreover have "\<forall>ch\<in>set (diff previous ss). change_fits (mi_todo ` set previous) (length ss) ch"
          by (intro ballI diff_fits)
        ultimately have 3: "good n s3 \<and> carried s s3"
          using replace_all_carried [OF ra room 2(2) known [OF todos]] by simp
        show ?thesis
        proof (cases ra)
          case (Inl e)
          with l Some sn snap f todos n1 3 rel Inr ra show ?thesis
            by (simp add: list_replace_def Let_def previous_def [symmetric] ss_def [symmetric] r0_def [symmetric])
        next
          case ran: (Inr q)
          obtain rs m2 where st: "no_set_snapshot ntv (ca_harness c) (ca_actor c) (next_snapshot ss q) m1 = (rs, m2)" by force
          from setting [OF st] n1 have "named m2" by (auto simp: named_def)
          with l Some sn snap f todos n1 3 rel Inr ra ran st show ?thesis
            by (auto simp: list_replace_def Let_def previous_def [symmetric] ss_def [symmetric] r0_def [symmetric] split: option.splits)
        qed
      qed
    qed
  qed
qed

end

text \<open>How many todos a call may add: one for a task, one for each item of a list.\<close>

definition sent_list :: "NativeTool \<Rightarrow> json \<Rightarrow> json \<Rightarrow> json list" where
  "sent_list tool input response =
     (case as_list (case tool of UpdatePlan \<Rightarrow> at_key input ''plan'' | TodoWrite \<Rightarrow> at_key input ''todos''
        | GrokTodoWrite \<Rightarrow> at_key (at_key response ''TodosUpdated'') ''todos'' | _ \<Rightarrow> JNull) of
       Some items \<Rightarrow> items | None \<Rightarrow> [])"

definition call_adds :: "string \<Rightarrow> json \<Rightarrow> json \<Rightarrow> nat" where
  "call_adds name input response =
     (case tool_of_name name of None \<Rightarrow> 0 | Some tool \<Rightarrow> Suc (length (sent_list tool input response)))"

context capture
begin

lemma mirror_call_carried:
  assumes call: "mirror_call ops ntv c name input response (s, m) = (r, s', m')" and n: "named m"
    and g: "good (call_adds name input response) s" and small: "i64_ok (int (call_adds name input response) * order_gap)"
  shows "good 0 s' \<and> carried s s' \<and> named m'"
proof (cases "tool_of_name name")
  case None
  with call n g show ?thesis by (simp add: mirror_call_def call_adds_def carried_rows)
next
  case (Some tool)
  have g1: "good (Suc (length (sent_list tool input response))) s"
    and s1: "i64_ok (int (Suc (length (sent_list tool input response))) * order_gap)"
    using g small Some by (simp_all add: call_adds_def)
  have g0: "good (Suc 0) s" "good 0 s" using less_rooms [of "length (sent_list tool input response)" "Suc 0"] less_room g1
    by (simp_all add: less_room)
  have list: "good 0 s' \<and> carried s s' \<and> named m'"
    if "list_replace ops ntv c (case tool of UpdatePlan \<Rightarrow> at_key input ''plan'' | TodoWrite \<Rightarrow> at_key input ''todos''
        | GrokTodoWrite \<Rightarrow> at_key (at_key response ''TodosUpdated'') ''todos'' | _ \<Rightarrow> JNull) key (s, m) = (r, s', m')" for key
    by (rule list_replace_carried [OF that n _ g0(2)])
      (use less_room [OF g1] s1 in \<open>auto simp: sent_list_def i64_ok_def order_gap_def\<close>)
  show ?thesis
  proof (cases tool)
    case TaskCreate
    with call Some have "task_create ops ntv c input response (s, m) = (r, s', m')" by (simp add: mirror_call_def)
    from task_create_carried [OF this g0(1) n] show ?thesis .
  next
    case TaskUpdate
    with call Some have "task_update ops ntv c input (s, m) = (r, s', m')" by (simp add: mirror_call_def)
    from task_update_carried [OF this g0(2) n] show ?thesis .
  qed (use call Some list in \<open>simp_all add: mirror_call_def\<close>)
qed

end

end
