(* ===== verification/Todo_Capture.thy ===== *)
theory Todo_Capture
  imports Todo_Native_Safety Ticket_Demo
begin

text \<open>
  Native capture over the built-in store and the map's document: both give the interfaces capture relies on, so
  what a harness reports never closes a cycle and never touches what a tracker owns.
\<close>

section \<open>The built-in store\<close>

definition builtin_capture :: "io \<Rightarrow> int \<Rightarrow> string \<Rightarrow> (doc_fs, todo_fault store_error) capture_store" where
  "builtin_capture io at stamp =
     \<lparr>op_list = op_list (builtin_ops io at stamp), op_get = store_get io, op_add = store_add io stamp,
      op_apply = store_apply io at stamp, op_all = store_list io (\<lambda>(_ :: string) _. None) [Subtree []]\<rparr>"

lemma builtin_capture_simps [simp]:
  "op_list (builtin_capture io at stamp) = op_list (builtin_ops io at stamp)"
  "op_get (builtin_capture io at stamp) = op_get (builtin_ops io at stamp)"
  "op_add (builtin_capture io at stamp) = op_add (builtin_ops io at stamp)"
  "op_apply (builtin_capture io at stamp) = op_apply (builtin_ops io at stamp)"
  by (simp_all add: builtin_capture_def builtin_ops_def)

lemma file_row_spelled: "file_room n s \<Longrightarrow> file_row s i = Some t \<Longrightarrow> td_id t = spelled i"
  using row_id_spelled by (auto simp: file_room_def file_row_def split: sum.splits)

lemma file_all:
  assumes room: "file_room n fs" and l: "op_all (builtin_capture io at stamp) fs = (r, fs')"
  shows "file_room n fs' \<and> file_row fs' = file_row fs \<and> (\<forall>xs. r = Inr xs \<longrightarrow>
    distinct (map td_id xs) \<and> (\<forall>t. t \<in> set xs \<longleftrightarrow> file_row fs (td_id t) = Some t))"
proof -
  have "with_lock_strict todo_document io (\<lambda>d. Inr (filter (\<lambda>t. True) (bt_values (bd_todos d)), d)) fs = (r, fs')"
    using l by (simp add: builtin_capture_def store_list_def node_matches_def)
  note rd = file_read [OF this room]
  have "distinct (map td_id xs) \<and> (\<forall>t. t \<in> set xs \<longleftrightarrow> file_row fs (td_id t) = Some t)" if r: "r = Inr xs" for xs
  proof -
    from rd r obtain d where d: "todo_file fs = Inr d" "xs = filter (\<lambda>t. True) (bt_values (bd_todos d))" by blast
    have "builtin_ok d" using room d(1) by (simp add: file_room_def)
    from values_rows(1) [OF this, of "\<lambda>_. True"] values_rows(2) [OF this] show ?thesis unfolding d(2) file_row_def d(1) by simp
  qed
  with rd show ?thesis by blast
qed

lemma transition_kind: "transition s k actor = Inr (Some s') \<Longrightarrow> kind s' = k"
  by (cases s; cases k) (auto simp: transition_def moved_to_def kind_def split: if_splits)

lemma builtin_captured:
  assumes a: "builtin_apply at stamp e d = Inr (ch, d')" and e: "capture_edit e" "edits_todo e = Some i"
  shows "\<exists>k t t'. todo_at d i = Inr (k, t) \<and> d' = put k t' d \<and> captured_by e t t'"
proof (cases e)
  case (SetStatus j k actor)
  with a e obtain key t u new where "todo_at d i = Inr (key, t)" "d' = put key u d" "move_to at stamp t new = (ch, u)"
    "transition (td_status t) k actor = Inr new"
    by (auto simp: builtin_apply_def set_todo_status_def split: sum.splits prod.splits)
  with SetStatus show ?thesis
    by (intro exI [of _ key] exI [of _ t] exI [of _ u])
      (auto simp: captured_by_def move_to_def dest: transition_kind split: option.splits)
next
  case (Block j b)
  with e have "j = i" by simp
  from a Block have "set_blockers stamp d j b True = Inr d'" by (auto simp: builtin_apply_def map_sum_Inr)
  then obtain key t where t: "todo_at d i = Inr (key, t)"
    "d' = (let after = remdups_adj (sort (td_blocked_by t @ b)); t' = t\<lparr>td_blocked_by := after\<rparr>
       in put key (if after \<noteq> td_blocked_by t then t'\<lparr>td_modified := Some stamp\<rparr> else t') d)"
    by (auto simp: set_blockers_def Let_def \<open>j = i\<close> split: sum.splits)
  define after where "after = remdups_adj (sort (td_blocked_by t @ b))"
  define u where "u = (if after \<noteq> td_blocked_by t then t\<lparr>td_blocked_by := after, td_modified := Some stamp\<rparr>
     else t\<lparr>td_blocked_by := after\<rparr>)"
  have "td_blocked_by u = after" "set after = set (td_blocked_by t) \<union> set b" by (simp_all add: u_def after_def)
  moreover have "td_id u = td_id t \<and> td_ticket u = td_ticket t \<and> td_parent u = td_parent t
      \<and> td_description u = td_description t \<and> td_project u = td_project t \<and> td_order u = td_order t \<and> td_status u = td_status t"
    by (simp add: u_def)
  ultimately have "captured_by e t u" unfolding Block by (simp add: captured_by_def)
  moreover have "d' = put key u d" using t(2) by (simp add: Let_def u_def after_def)
  ultimately show ?thesis using t(1) by blast
next
  case (Describe j b)
  with a e show ?thesis
    by (auto simp: builtin_apply_def edit_todo_def captured_by_def split: sum.splits intro!: exI)
next
  case (Relocate j b)
  with a e show ?thesis
    by (auto simp: builtin_apply_def edit_todo_def captured_by_def split: sum.splits intro!: exI)
next
  case (Reorder j b)
  with a e show ?thesis
    by (auto simp: builtin_apply_def edit_todo_def captured_by_def split: sum.splits intro!: exI)
qed (use e in simp_all)

lemma capture_fits: "capture_edit e \<Longrightarrow> edit_fits e"
  by (cases e) simp_all

lemma file_capturing:
  assumes room: "file_room n fs" and e: "capture_edit e" "edits_todo e = Some i"
    and a: "op_apply (builtin_capture io at stamp) e fs = (r, fs')"
  shows "file_room n fs' \<and> (\<forall>x. r = Inl x \<longrightarrow> file_row fs' = file_row fs) \<and> (\<forall>ch. r = Inr ch \<longrightarrow>
      (\<exists>t t'. file_row fs i = Some t \<and> captured_by e t t'
         \<and> file_row fs' = (\<lambda>j. if spelled j = spelled i then Some t' else file_row fs j)))"
proof -
  note fits = capture_fits [OF e(1)]
  have w: "with_lock_strict todo_document io (builtin_apply at stamp e) fs = (r, fs')"
    using a by (simp add: builtin_ops_def store_apply_def)
  have "\<forall>d b d'. todo_doc_ok d \<longrightarrow> builtin_apply at stamp e d = Inr (b, d') \<longrightarrow> todo_doc_ok d'"
    using apply_doc_ok fits by blast
  from file_after [OF w this] consider (same) "fs' = fs" "\<exists>x. r = Inl x"
    | (moved) ch d d' where "r = Inr ch" "todo_file fs = Inr d" "builtin_apply at stamp e d = Inr (ch, d')"
        "todo_file fs' = Inr (d'\<lparr>bd_version := todo_doc_version\<rparr>)" by blast
  then show ?thesis
  proof cases
    case same
    with room show ?thesis by auto
  next
    case moved
    have ok: "builtin_ok d" "unat (fresh_key d) + n < 2 ^ 64 - 1" using room moved(2) by (simp_all add: file_room_def)
    from builtin_captured [OF moved(3) e] obtain k t t' where
      t: "todo_at d i = Inr (k, t)" "d' = put k t' d" "captured_by e t t'" by blast
    have s: "shrunk d d'" by (rule apply_shrunk [OF moved(3) fits]) (use ok in \<open>simp add: builtin_ok_def\<close>)
    have "fresh_key d' = fresh_key d" by (simp add: fresh_key_def t(2))
    with shrunk_ok [OF ok(1) s] ok(2) moved(4) have "file_room n fs'" by (simp add: file_room_def fresh_key_def)
    moreover have "file_row fs i = Some t" using t(1) moved(2) by (simp add: file_row_def doc_row_at)
    moreover have "file_row fs' = (\<lambda>j. if spelled j = spelled i then Some t' else file_row fs j)"
      using doc_row_put [of i k t' d] t(1) moved(2,4) by (simp add: file_row_def todo_at_Inr t(2) fun_eq_iff)
    ultimately show ?thesis using t(3) moved(1) by blast
  qed
qed

lemma file_new:
  assumes "file_room (Suc n) fs" and "nt_ticket new = None" and "order_fits (nt_order new)"
    and "op_add (builtin_capture io at stamp) new fs = (r, fs')"
  shows "file_room n fs' \<and> (\<forall>x. r = Inl x \<longrightarrow> file_row fs' = file_row fs) \<and> (\<forall>i. r = Inr i \<longrightarrow> spelled i = i \<and> file_row fs i = None
    \<and> (\<exists>t. td_ticket t = None \<and> td_blocked_by t = [] \<and> file_row fs' = (\<lambda>j. if spelled j = i then Some t else file_row fs j)))"
proof -
  have a: "op_add (builtin_ops io at stamp) new fs = (r, fs')" using assms(4) by simp
  have "\<forall>d b d'. todo_doc_ok d \<longrightarrow> builtin_add stamp new d = Inr (b, d') \<longrightarrow> todo_doc_ok d'"
    using add_doc_ok assms(3) by blast
  moreover have "with_lock_strict todo_document io (builtin_add stamp new) fs = (r, fs')"
    using a by (simp add: builtin_ops_def store_add_def)
  ultimately have "fs' = fs" if "r = Inl x" for x using file_after that by blast
  with file_adding [OF assms(1,3) a] assms(2) show ?thesis
    by (auto simp: created_def holds_ticket_def)
qed

section \<open>The map\<close>

definition native_values :: "NativeDoc \<Rightarrow> string set" where
  "native_values d = set (bt_values (nd_ids d))"

lemma doc_native_simps [simp]:
  "no_record doc_native = (\<lambda>h holder native todo d. (Some (), native_record h holder native todo d))"
  "no_lookup doc_native = (\<lambda>h holder native d. (Some (native_lookup h holder native d), d))"
  "no_snapshot doc_native = (\<lambda>h holder d. (Some (native_snapshot h holder d), d))"
  "no_set_snapshot doc_native = (\<lambda>h holder steps d. (Some (), set_snapshot h holder steps d))"
  by (simp_all add: doc_native_def)

lemma bt_insert_values: "set (bt_values (bt_insert k v m)) \<subseteq> insert v (set (bt_values m))"
  by (induction k v m rule: bt_insert.induct) auto

interpretation document_map: native_map doc_native native_values
proof
  fix h who native i m r m'
  assume "no_record doc_native h who native i m = (r, m')"
  then have "m' = native_record h who native i m" by simp
  then show "native_values m' \<subseteq> insert i (native_values m)"
    using bt_insert_values by (simp add: native_values_def native_record_def)
next
  fix h who native m r m'
  assume "no_lookup doc_native h who native m = (r, m')"
  then show "native_values m' \<subseteq> native_values m \<and> (\<forall>i. r = Some (Some i) \<longrightarrow> i \<in> native_values m)"
    by (auto simp: native_values_def native_lookup_def dest!: bt_get_in_set intro: rev_image_eqI split: option.splits)
qed (auto simp: native_values_def set_snapshot_def)

interpretation builtin_capture: capture "builtin_capture io at stamp" file_row spelled file_room doc_native native_values
proof
  show "td_id t = spelled i" if "file_room n s" "file_row s i = Some t" for n s i t
    using that by (rule file_row_spelled)
  show "file_row s (spelled i) = file_row s i" for s i
    by (simp add: file_row_def doc_row_def parse_spelled split: sum.split)
  show "spelled (spelled i) = spelled i" for i by (rule spelled_spelled)
  show "file_room n s" if "file_room (Suc n) s" for n s
    using that by (auto simp: file_room_def split: sum.splits)
  show "file_room n s' \<and> file_row s' = file_row s \<and> (\<forall>xs. rl = Inr xs \<longrightarrow> (\<forall>t\<in>set xs. file_row s (td_id t) = Some t))"
    if "file_room n s" "op_list (builtin_capture io at stamp) node s = (rl, s')" for n s node rl s'
    using file_listing [OF that(1), of io at stamp node rl s'] that(2) by auto
qed (rule file_all file_new file_capturing file_getting [where io = io and at = at and stamp = stamp]; simp)+

section \<open>The promises\<close>

definition file_edges :: "doc_fs \<Rightarrow> (string \<times> string) set" where
  "file_edges fs = (case todo_file fs of Inr d \<Rightarrow> stored_edges (bt_values (bd_todos d)) | Inl _ \<Rightarrow> {})"

lemma file_links:
  assumes "file_room n fs"
  shows "file_edges fs = builtin_capture.links fs"
proof -
  from assms obtain d where d: "todo_file fs = Inr d" "builtin_ok d" by (rule file_roomE)
  have xs: "distinct (map td_id (bt_values (bd_todos d)))" "\<And>t. t \<in> set (bt_values (bd_todos d)) \<longleftrightarrow> file_row fs (td_id t) = Some t"
    using values_rows(1) [OF d(2), of "\<lambda>_. True"] values_rows(2) [OF d(2)] by (simp_all add: file_row_def d(1))
  show ?thesis
    using builtin_capture.listed_links [OF assms xs] by (simp add: file_edges_def d(1))
qed

text \<open>
  C15: a harness never makes the blocking graph cyclic, whatever its tools report: from a file whose todos block each other
  without a cycle, mirroring one call leaves it without one, and the map still names todos as the store spells them.
\<close>

theorem capture_no_cycle:
  assumes "mirror_call (builtin_capture io at stamp) doc_native c name input response (fs, m) = (r, fs', m')"
    and "\<forall>i\<in>native_values m. spelled i = i" and "file_room (call_adds name input response) fs"
    and "i64_ok (int (call_adds name input response) * order_gap)" and "acyclic (file_edges fs)"
  shows "acyclic (file_edges fs') \<and> (\<forall>i\<in>native_values m'. spelled i = i)"
  using builtin_capture.mirror_call_carried [OF assms(1) _ assms(3,4)] assms(2,5) file_links [OF assms(3)] file_links
  by (auto simp: builtin_capture.named_def builtin_capture.carried_def)

text \<open>
  C16: what a tracker owns stays: whatever a harness's tools report, the todo of a ticket keeps its ticket, its text,
  its node, its parent and its place, and it is never cancelled.
\<close>

theorem capture_spares_tickets:
  assumes "mirror_call (builtin_capture io at stamp) doc_native c name input response (fs, m) = (r, fs', m')"
    and "\<forall>i\<in>native_values m. spelled i = i" and "file_room (call_adds name input response) fs"
    and "i64_ok (int (call_adds name input response) * order_gap)"
    and "file_row fs i = Some t" and "td_ticket t \<noteq> None"
  shows "\<exists>t'. file_row fs' i = Some t' \<and> td_ticket t' = td_ticket t \<and> td_description t' = td_description t
    \<and> td_project t' = td_project t \<and> td_parent t' = td_parent t \<and> td_order t' = td_order t
    \<and> (kind (td_status t') = KCancelled \<longrightarrow> td_status t' = td_status t)"
proof -
  have "tickets_kept (file_row fs) (file_row fs')"
    using builtin_capture.mirror_call_carried [OF assms(1) _ assms(3,4)] assms(2)
    by (simp add: builtin_capture.named_def builtin_capture.carried_def)
  with assms(5,6) show ?thesis unfolding tickets_kept_def spared_def by blast
qed

section \<open>A task that is a ticket's todo\<close>

definition demo_map :: NativeDoc where
  "demo_map = \<lparr>nd_version = 1, nd_ids = [(id_key Claude ''S'' ''7'', ''1'')], nd_snapshots = []\<rparr>"

definition demo_capture :: Capture where
  "demo_capture = \<lparr>ca_harness = Claude, ca_session = ''S'', ca_actor = ''S'', ca_node = ''n'', ca_repo = None, ca_here = None\<rparr>"

definition demo_update :: json where
  "demo_update = JObj [(''taskId'', JStr ''7''), (''status'', JStr ''cancelled''), (''addBlockedBy'', JArr [JStr ''7''])]"

lemma demo_call:
  obtains fs where "todo_file fs = Inr (ticket_doc demo_opened)" "file_room (call_adds ''TaskUpdate'' demo_update JNull) fs"
proof -
  obtain fs where f: "todo_file fs = Inr (ticket_doc demo_opened)" by (rule demo_first_sync)
  have "call_adds ''TaskUpdate'' demo_update JNull = 1"
    by (simp add: call_adds_def tool_of_name_def sent_list_def as_list_def)
  moreover have "unat (fresh_key (ticket_doc demo_opened)) = 2" by (simp add: fresh_key_def ticket_doc_def)
  ultimately have "file_room (call_adds ''TaskUpdate'' demo_update JNull) fs"
    using demo_builtin_doc f by (simp add: file_room_def)
  with f that show ?thesis by blast
qed

lemma demo_call_small: "i64_ok (int (call_adds ''TaskUpdate'' demo_update JNull) * order_gap)"
  by (simp add: call_adds_def tool_of_name_def sent_list_def as_list_def i64_ok_def order_gap_def)

lemma demo_map_spelled: "\<forall>i\<in>native_values demo_map. spelled i = i"
  by (simp add: native_values_def demo_map_def spelled_def demo_show)

theorem capture_no_cycle_witness:
  "\<exists>fs r fs' m'. todo_file fs = Inr (ticket_doc demo_opened)
     \<and> mirror_call (builtin_capture clean_io 5 ''t'') doc_native demo_capture ''TaskUpdate'' demo_update JNull (fs, demo_map) = (r, fs', m')
     \<and> acyclic (file_edges fs')"
proof -
  obtain fs where f: "todo_file fs = Inr (ticket_doc demo_opened)" "file_room (call_adds ''TaskUpdate'' demo_update JNull) fs"
    by (rule demo_call)
  obtain r fs' m' where call:
    "mirror_call (builtin_capture clean_io 5 ''t'') doc_native demo_capture ''TaskUpdate'' demo_update JNull (fs, demo_map) = (r, fs', m')"
    by (metis prod_cases3)
  have "file_edges fs = {}"
    by (auto simp: file_edges_def f(1) stored_edges_def ticket_doc_def graph_get_def todo_by_id_def demo_opened_def)
  then have "acyclic (file_edges fs)" by (simp add: acyclic_def)
  with capture_no_cycle [OF call demo_map_spelled f(2) demo_call_small] call f(1) show ?thesis by blast
qed

theorem capture_spares_tickets_witness:
  "\<exists>fs r fs' m' t'. todo_file fs = Inr (ticket_doc demo_opened)
     \<and> mirror_call (builtin_capture clean_io 5 ''t'') doc_native demo_capture ''TaskUpdate'' demo_update JNull (fs, demo_map) = (r, fs', m')
     \<and> file_row fs' ''1'' = Some t' \<and> kind (td_status t') \<noteq> KCancelled"
proof -
  obtain fs where f: "todo_file fs = Inr (ticket_doc demo_opened)" "file_room (call_adds ''TaskUpdate'' demo_update JNull) fs"
    by (rule demo_call)
  obtain r fs' m' where call:
    "mirror_call (builtin_capture clean_io 5 ''t'') doc_native demo_capture ''TaskUpdate'' demo_update JNull (fs, demo_map) = (r, fs', m')"
    by (metis prod_cases3)
  have "td_ticket demo_opened \<noteq> None" "td_status demo_opened = Pending" by (simp_all add: demo_opened_def)
  with capture_spares_tickets [OF call demo_map_spelled f(2) demo_call_small demo_row [OF f(1)]] call f(1)
  show ?thesis by (auto simp: kind_def)
qed

section \<open>What the map remembers\<close>

text \<open>A recorded native id is found again, by its holder and by every agent below it that recorded none of its own.\<close>

lemma record_looked_up:
  "native_lookup h who native (native_record h who native i d) = Some i"
  by (simp add: native_lookup_def native_record_def bt_insert_get)

lemma session_looked_up:
  assumes "bt_get (nd_ids d) (id_key h who native) = None" and "id_key h who native \<noteq> id_key h (session_of who) native"
  shows "native_lookup h who native (native_record h (session_of who) native i d) = Some i"
  using assms by (simp add: native_lookup_def native_record_def bt_insert_get)

text \<open>Once forgotten, a todo is named by nothing the map holds.\<close>

lemma forgotten:
  "native_values (forget_all todos d) \<inter> todos = {}"
  "\<forall>(k, steps)\<in>set (nd_snapshots (forget_all todos d)). \<forall>step\<in>set steps. mr_todo step \<notin> todos"
  by (auto simp: native_values_def forget_all_def)

end
