(* ===== verification/Todo_Roles.thy ===== *)
theory Todo_Roles
  imports Todo_Scope Doc_Store "HOL-Library.Monad_Syntax"
begin

text \<open>
  The role a caller works in and the one suggestion it gets to take another (\<open>crates/devkit-todo/src/roles.rs\<close>):
  a JSON document with an entry per holder, behind the strict lock.

  A time is an integer count of nanoseconds; how it is written as text is the pair \<open>show_time\<close>, \<open>read_time\<close>. The layout's
  walk that never returns, and the \<open>expect\<close> on a built-in role, are faults of their own. A warning is kept as the two names its
  text shows, the recorded role and the one used.
\<close>

section \<open>The document\<close>

record RoleEntry =
  re_role :: "string option"
  re_agent_type :: "string option"
  re_nudged :: bool
  re_checkout :: "string option"
  re_at :: int

record RoleDoc =
  rd_version :: u32
  rd_entries :: "(string, RoleEntry) btree"

definition fresh_entry :: "int \<Rightarrow> RoleEntry" where
  "fresh_entry at = \<lparr>re_role = None, re_agent_type = None, re_nudged = False, re_checkout = None, re_at = at\<rparr>"

fun of_bool :: "json \<Rightarrow> bool option" where
  "of_bool (JBool b) = Some b"
| "of_bool _ = None"

definition role_entry_to_json :: "(int \<Rightarrow> string) \<Rightarrow> RoleEntry \<Rightarrow> json" where
  "role_entry_to_json show_time e = JObj
     [(''role'', to_option JStr (re_role e)), (''agent_type'', to_option JStr (re_agent_type e)),
      (''nudged'', JBool (re_nudged e)), (''checkout'', to_option JStr (re_checkout e)), (''at'', JStr (show_time (re_at e)))]"

definition role_entry_of_json :: "(string \<Rightarrow> int option) \<Rightarrow> json \<Rightarrow> RoleEntry option" where
  "role_entry_of_json read_time j = do {
      kvs \<leftarrow> struct_rows [(''role'', True), (''agent_type'', True), (''nudged'', True), (''checkout'', True), (''at'', False)] j;
      role \<leftarrow> read_field (of_option of_str) (Some None) kvs ''role'';
      agent_type \<leftarrow> read_field (of_option of_str) (Some None) kvs ''agent_type'';
      nudged \<leftarrow> read_field of_bool (Some False) kvs ''nudged'';
      checkout \<leftarrow> read_field (of_option of_str) (Some None) kvs ''checkout'';
      at \<leftarrow> read_field (\<lambda>j. Option.bind (of_str j) read_time) None kvs ''at'';
      Some \<lparr>re_role = role, re_agent_type = agent_type, re_nudged = nudged, re_checkout = checkout, re_at = at\<rparr>
    }"

definition role_doc_to_json :: "(int \<Rightarrow> string) \<Rightarrow> RoleDoc \<Rightarrow> json" where
  "role_doc_to_json show_time d = JObj
     [(''version'', to_uint (rd_version d)), (''entries'', to_map id (role_entry_to_json show_time) (rd_entries d))]"

definition role_doc_of_json :: "(string \<Rightarrow> int option) \<Rightarrow> json \<Rightarrow> RoleDoc option" where
  "role_doc_of_json read_time j = do {
      kvs \<leftarrow> struct_rows [(''version'', True), (''entries'', True)] j;
      version \<leftarrow> read_field of_uint (Some 0) kvs ''version'';
      entries \<leftarrow> read_field (of_map Some (role_entry_of_json read_time)) (Some []) kvs ''entries'';
      Some \<lparr>rd_version = version, rd_entries = entries\<rparr>
    }"

definition role_document :: "(int \<Rightarrow> string) \<Rightarrow> (string \<Rightarrow> int option) \<Rightarrow> RoleDoc document" where
  "role_document show_time read_time =
     \<lparr>doc_default = \<lparr>rd_version = 0, rd_entries = []\<rparr>,
      doc_stamp = (\<lambda>d. d\<lparr>rd_version := 1\<rparr>),
      doc_salvage = (\<lambda>_. None),
      doc_of_json = role_doc_of_json read_time, doc_to_json = role_doc_to_json show_time\<rparr>"

section \<open>Which role\<close>

record ResolvedRole =
  rr_name :: string
  rr_node :: string
  rr_hold_pending :: bool
  rr_warning :: "(string \<times> string) option"

record Choice =
  ch_name :: string
  ch_assigned :: bool
  ch_stale :: "string option"

definition choose_role :: "Layout \<Rightarrow> Holder \<Rightarrow> RoleEntry option \<Rightarrow> string option \<Rightarrow> Choice" where
  "choose_role l holder entry agent_type =
     (let recorded = Option.bind entry re_role in
      case (case recorded of Some name \<Rightarrow> if role_of l name \<noteq> None then Some name else None | None \<Rightarrow> None) of
        Some name \<Rightarrow> \<lparr>ch_name = name, ch_assigned = True, ch_stale = None\<rparr>
      | None \<Rightarrow>
          (let typed = (case agent_type of Some a \<Rightarrow> Some a | None \<Rightarrow> Option.bind entry re_agent_type);
               by_type = Option.bind typed (\<lambda>a. find (\<lambda>(_, role). a \<in> set (rc_agent_types role)) (tc_roles (ly_config l)))
           in case (if holder \<noteq> session_of holder then by_type else None) of
                Some (name, _) \<Rightarrow> \<lparr>ch_name = name, ch_assigned = True, ch_stale = recorded\<rparr>
              | None \<Rightarrow> \<lparr>ch_name = (if holder = session_of holder then ''main'' else ''subagent''), ch_assigned = False,
                  ch_stale = recorded\<rparr>))"

section \<open>The operations\<close>

datatype role_fault = LayoutFault layout_fault | LayoutLoops | BuiltinMissing | TerminalCaller | NoSuchRole string

definition node_for :: "Layout \<Rightarrow> Facts \<Rightarrow> string \<Rightarrow> role_fault + string" where
  "node_for l facts scope =
     (case layout_fill l facts scope of None \<Rightarrow> Inl LayoutLoops | Some (Inl e) \<Rightarrow> Inl (LayoutFault e) | Some (Inr node) \<Rightarrow> Inr node)"

definition pending_for :: "Layout \<Rightarrow> Facts \<Rightarrow> string \<Rightarrow> role_fault + bool" where
  "pending_for l facts role =
     (case role_hold_pending l facts role of None \<Rightarrow> Inl LayoutLoops | Some (Inl e) \<Rightarrow> Inl (LayoutFault e) | Some (Inr b) \<Rightarrow> Inr b)"

definition roles_read :: "RoleDoc document \<Rightarrow> io \<Rightarrow> doc_fs \<Rightarrow> role_fault store_error + RoleDoc" where
  "roles_read doc io fs = fst (with_file_lock io (\<lambda>fs. (try_load doc io fs, fs)) fs)"

definition month :: int where
  "month = 30 * 86400 * 10 ^ 9"

definition recent_entries :: "int \<Rightarrow> RoleDoc \<Rightarrow> RoleDoc" where
  "recent_entries now d = d\<lparr>rd_entries := bt_retain (\<lambda>_ e. now - month \<le> re_at e) (rd_entries d)\<rparr>"

definition roles_write :: "RoleDoc document \<Rightarrow> io \<Rightarrow> int \<Rightarrow> (RoleDoc \<Rightarrow> role_fault + 'a \<times> RoleDoc) \<Rightarrow> doc_fs \<Rightarrow>
    (role_fault store_error + 'a) \<times> doc_fs" where
  "roles_write doc io now f fs = with_lock_strict doc io (\<lambda>d. f (recent_entries now d)) fs"

definition entry_or_fresh :: "RoleDoc \<Rightarrow> Holder \<Rightarrow> int \<Rightarrow> RoleEntry" where
  "entry_or_fresh d holder now = (case bt_get (rd_entries d) holder of Some e \<Rightarrow> e | None \<Rightarrow> fresh_entry now)"

definition put_entry :: "Holder \<Rightarrow> RoleEntry \<Rightarrow> RoleDoc \<Rightarrow> RoleDoc" where
  "put_entry holder e d = d\<lparr>rd_entries := bt_insert holder e (rd_entries d)\<rparr>"

definition resolve_choice :: "Layout \<Rightarrow> Facts \<Rightarrow> Choice \<Rightarrow> role_fault + ResolvedRole" where
  "resolve_choice l facts choice =
     (case role_of l (ch_name choice) of
        None \<Rightarrow> Inl BuiltinMissing
      | Some role \<Rightarrow>
          (case node_for l facts (rc_scope role) of
             Inl e \<Rightarrow> Inl e
           | Inr node \<Rightarrow>
               (case pending_for l facts (ch_name choice) of
                  Inl e \<Rightarrow> Inl e
                | Inr b \<Rightarrow> Inr \<lparr>rr_name = ch_name choice, rr_node = node, rr_hold_pending = b,
                    rr_warning = map_option (\<lambda>stale. (stale, ch_name choice)) (ch_stale choice)\<rparr>)))"

definition role_resolve :: "RoleDoc document \<Rightarrow> io \<Rightarrow> Layout \<Rightarrow> Facts \<Rightarrow> Holder \<Rightarrow> string option \<Rightarrow> doc_fs \<Rightarrow>
    role_fault store_error + ResolvedRole" where
  "role_resolve doc io l facts holder agent_type fs =
     (case roles_read doc io fs of
        Inl e \<Rightarrow> Inl e
      | Inr d \<Rightarrow> map_sum Op id (resolve_choice l facts (choose_role l holder (bt_get (rd_entries d) holder) agent_type)))"

definition with_checkout :: "string option \<Rightarrow> RoleEntry \<Rightarrow> RoleEntry" where
  "with_checkout checkout e = (case checkout of Some dir \<Rightarrow> e\<lparr>re_checkout := Some dir\<rparr> | None \<Rightarrow> e)"

definition record_entry :: "Holder \<Rightarrow> string \<Rightarrow> string option \<Rightarrow> int \<Rightarrow> RoleDoc \<Rightarrow> RoleDoc" where
  "record_entry holder name checkout now d =
     put_entry holder ((with_checkout checkout ((entry_or_fresh d holder now)\<lparr>re_role := Some name\<rparr>))\<lparr>re_at := now\<rparr>) d"

definition role_record :: "RoleDoc document \<Rightarrow> io \<Rightarrow> int \<Rightarrow> Layout \<Rightarrow> Holder \<Rightarrow> string \<Rightarrow> string option \<Rightarrow> doc_fs \<Rightarrow>
    (role_fault store_error + unit) \<times> doc_fs" where
  "role_record doc io now l holder name checkout fs =
     (if is_human holder then (Inl (Op TerminalCaller), fs)
      else if role_of l name = None then (Inl (Op (NoSuchRole name)), fs)
      else roles_write doc io now (\<lambda>d. Inr ((), record_entry holder name checkout now d)) fs)"

definition role_checkout :: "RoleDoc document \<Rightarrow> io \<Rightarrow> Holder \<Rightarrow> doc_fs \<Rightarrow> role_fault store_error + string option" where
  "role_checkout doc io holder fs =
     (case roles_read doc io fs of Inl e \<Rightarrow> Inl e | Inr d \<Rightarrow> Inr (Option.bind (bt_get (rd_entries d) holder) re_checkout))"

definition spawn_entry :: "Layout \<Rightarrow> Holder \<Rightarrow> string option \<Rightarrow> string option \<Rightarrow> int \<Rightarrow> RoleDoc \<Rightarrow> RoleDoc" where
  "spawn_entry l holder agent_type checkout now d =
     (let e = with_checkout checkout ((entry_or_fresh d holder now)\<lparr>re_agent_type := agent_type\<rparr>);
          choice = choose_role l holder (Some e) agent_type;
          e = (if re_role e = None \<and> ch_assigned choice then e\<lparr>re_role := Some (ch_name choice)\<rparr> else e)
      in put_entry holder (e\<lparr>re_at := now\<rparr>) d)"

definition role_spawn :: "RoleDoc document \<Rightarrow> io \<Rightarrow> int \<Rightarrow> Layout \<Rightarrow> Holder \<Rightarrow> string option \<Rightarrow> string option \<Rightarrow> doc_fs \<Rightarrow>
    (role_fault store_error + unit) \<times> doc_fs" where
  "role_spawn doc io now l holder agent_type checkout fs =
     roles_write doc io now (\<lambda>d. Inr ((), spawn_entry l holder agent_type checkout now d)) fs"

text \<open>The roles a nudge offers, each with the node it writes to; the first node that cannot be filled fails the nudge.\<close>

definition candidate :: "Facts \<Rightarrow> string \<Rightarrow> string \<times> RoleConfig \<Rightarrow> bool" where
  "candidate facts parent_role row =
     (if ft_subagent facts then rc_parent (snd row) = Some parent_role
      else rc_parent (snd row) = None \<and> fst row \<noteq> ''main'' \<and> fst row \<noteq> ''subagent'')"

fun candidate_texts :: "Layout \<Rightarrow> Facts \<Rightarrow> (string \<times> RoleConfig) list \<Rightarrow> role_fault + string list" where
  "candidate_texts l facts [] = Inr []"
| "candidate_texts l facts ((name, role) # rows) =
     (case node_for l facts (rc_scope role) of
        Inl e \<Rightarrow> Inl e
      | Inr node \<Rightarrow> map_sum id (Cons (name @ '' (writing to '' @ [CHR 0x60] @ node @ [CHR 0x60] @ '')'')) (candidate_texts l facts rows))"

definition nudge_text :: "string \<Rightarrow> string \<Rightarrow> string list \<Rightarrow> string" where
  "nudge_text current node choices =
     ''Your todo role is the default '' @ [CHR 0x60] @ current @ [CHR 0x60] @ '', writing to '' @ [CHR 0x60] @ node @ [CHR 0x60]
     @ ''. Todo roles you can take: '' @ join '', '' choices @ ''. Select the role matching your work with ''
     @ [CHR 0x60] @ ''devkit todo role <name>'' @ [CHR 0x60] @ '' before adding the rest of your plan.''"

definition nudge_entry :: "Layout \<Rightarrow> Facts \<Rightarrow> Holder \<Rightarrow> int \<Rightarrow> RoleDoc \<Rightarrow> role_fault + string option \<times> RoleDoc" where
  "nudge_entry l facts holder now d =
     (let entry = bt_get (rd_entries d) holder;
          current = choose_role l holder entry None in
      if (case entry of Some e \<Rightarrow> re_nudged e | None \<Rightarrow> False) \<or> ch_assigned current then Inr (None, d)
      else
        (let parent = session_of holder;
             parent_role = ch_name (choose_role l parent (bt_get (rd_entries d) parent) None) in
         case candidate_texts l facts (filter (candidate facts parent_role) (tc_roles (ly_config l))) of
           Inl e \<Rightarrow> Inl e
         | Inr candidates \<Rightarrow>
             if candidates = [] then Inr (None, d)
             else case role_of l (ch_name current) of
               None \<Rightarrow> Inl BuiltinMissing
             | Some role \<Rightarrow>
                 (case node_for l facts (rc_scope role) of
                    Inl e \<Rightarrow> Inl e
                  | Inr node \<Rightarrow>
                      Inr (Some (nudge_text (ch_name current) node candidates),
                           put_entry holder ((entry_or_fresh d holder now)\<lparr>re_nudged := True, re_at := now\<rparr>) d))))"

definition role_nudge :: "RoleDoc document \<Rightarrow> io \<Rightarrow> int \<Rightarrow> Layout \<Rightarrow> Facts \<Rightarrow> Holder \<Rightarrow> doc_fs \<Rightarrow>
    (role_fault store_error + string option) \<times> doc_fs" where
  "role_nudge doc io now l facts holder fs = roles_write doc io now (nudge_entry l facts holder now) fs"

section \<open>A run of callers\<close>

datatype role_request =
    CallResolve Layout Facts Holder "string option"
  | CallRecord Layout Holder string "string option"
  | CallCheckout Holder
  | CallSpawn Layout Holder "string option" "string option"
  | CallNudge Layout Facts Holder

datatype role_answer =
    AnsResolved "role_fault store_error + ResolvedRole"
  | AnsUnit "role_fault store_error + unit"
  | AnsCheckout "role_fault store_error + string option"
  | AnsNudge "role_fault store_error + string option"

fun role_call :: "RoleDoc document \<Rightarrow> io \<times> int \<times> role_request \<Rightarrow> doc_fs \<Rightarrow> role_answer \<times> doc_fs" where
  "role_call doc (io, now, CallResolve l facts holder agent_type) fs = (AnsResolved (role_resolve doc io l facts holder agent_type fs), fs)"
| "role_call doc (io, now, CallRecord l holder name checkout) fs = map_prod AnsUnit id (role_record doc io now l holder name checkout fs)"
| "role_call doc (io, now, CallCheckout holder) fs = (AnsCheckout (role_checkout doc io holder fs), fs)"
| "role_call doc (io, now, CallSpawn l holder agent_type checkout) fs = map_prod AnsUnit id (role_spawn doc io now l holder agent_type checkout fs)"
| "role_call doc (io, now, CallNudge l facts holder) fs = map_prod AnsNudge id (role_nudge doc io now l facts holder fs)"

fun role_calls :: "RoleDoc document \<Rightarrow> (io \<times> int \<times> role_request) list \<Rightarrow> doc_fs \<Rightarrow> role_answer list \<times> doc_fs" where
  "role_calls doc [] fs = ([], fs)"
| "role_calls doc (c # cs) fs =
     (case role_call doc c fs of (a, fs1) \<Rightarrow> map_prod (Cons a) id (role_calls doc cs fs1))"

end
