(* ===== verification/Todo_Scope_Safety.thy ===== *)
theory Todo_Scope_Safety
  imports Todo_Scope
begin

text \<open>
  A parsed template reads back exactly what it fills, and a checked configuration gives every role a node: the walks up
  its scopes end and never meet a missing one.
\<close>

section \<open>What parsing guarantees\<close>

fun value_name :: "Part \<Rightarrow> string option" where
  "value_name (Value name) = Some name"
| "value_name (Literal _) = None"

abbreviation names_in :: "Part list \<Rightarrow> string list" where
  "names_in parts \<equiv> List.map_filter value_name parts"

definition segment_ok :: "Part list \<Rightarrow> bool" where
  "segment_ok parts \<longleftrightarrow> (\<forall>s. Literal s \<in> set parts \<longrightarrow> CHR ''.'' \<notin> set s)
     \<and> length (filter (\<lambda>n. n \<noteq> ''harness'') (names_in parts)) \<le> 1"

definition template_ok :: "Template \<Rightarrow> bool" where
  "template_ok t \<longleftrightarrow> t \<noteq> [] \<and> (\<forall>parts\<in>set t. segment_ok parts) \<and> distinct (names_in (concat t))"

lemma names_in_append [simp]: "names_in (xs @ ys) = names_in xs @ names_in ys"
  by (induction xs) (simp_all add: map_filter_simps split: option.split)

lemma names_in_simps [simp]:
  "names_in [] = []" "names_in (Literal s # ps) = names_in ps" "names_in (Value n # ps) = n # names_in ps"
  by (simp_all add: map_filter_simps)

lemma contains_names: "template_contains t name \<longleftrightarrow> name \<in> set (names_in (concat t))"
proof -
  have "Value name \<in> set ps \<longleftrightarrow> name \<in> set (names_in ps)" for ps
  proof (induction ps)
    case (Cons p ps)
    then show ?case by (cases p) auto
  qed simp
  from this [of "concat t"] show ?thesis unfolding template_contains_def .
qed

lemma parse_parts_Inr:
  assumes "parse_parts seen opened rest = Inr (parts, seen')"
  obtains (literal) "seen' = seen" "parts = [] \<or> parts = [Literal (takeWhile not_brace rest)]"
  | (placed) name after ps where "split_placeholder (dropWhile not_brace rest) = Some (name, after)"
      "name \<notin> set seen" "name = ''harness'' \<or> opened = 0"
      "parse_parts (name # seen) (if name = ''harness'' then opened else Suc opened) after = Inr (ps, seen')"
      "parts = (if takeWhile not_brace rest = [] then [] else [Literal (takeWhile not_brace rest)]) @ Value name # ps"
proof (cases "dropWhile not_brace rest = []")
  case True
  then show thesis using assms literal by (auto simp: parse_parts.simps [of seen opened rest] split: if_splits)
next
  case False
  with assms obtain name after where s: "split_placeholder (dropWhile not_brace rest) = Some (name, after)"
    by (auto simp: parse_parts.simps [of seen opened rest] Let_def split: option.splits if_splits)
  with assms False have c: "name \<notin> set seen" "name = ''harness'' \<or> opened = 0"
    and eq: "map_sum id (map_prod (\<lambda>ps. (if takeWhile not_brace rest = [] then [] else [Literal (takeWhile not_brace rest)]) @ Value name # ps) id)
      (parse_parts (name # seen) (if name = ''harness'' then opened else Suc opened) after) = Inr (parts, seen')"
    by (auto simp: parse_parts.simps [of seen opened rest] Let_def split: if_splits)
  from eq show thesis
    by (cases "parse_parts (name # seen) (if name = ''harness'' then opened else Suc opened) after") (auto intro: placed [OF s c])
qed

lemma parse_parts_ok:
  "parse_parts seen opened rest = Inr (parts, seen') \<Longrightarrow> CHR ''.'' \<notin> set rest \<Longrightarrow> opened \<le> 1 \<Longrightarrow>
     set seen' = set seen \<union> set (names_in parts) \<and> distinct (names_in parts) \<and> set seen \<inter> set (names_in parts) = {}
     \<and> (\<forall>s. Literal s \<in> set parts \<longrightarrow> CHR ''.'' \<notin> set s)
     \<and> length (filter (\<lambda>n. n \<noteq> ''harness'') (names_in parts)) + opened \<le> 1"
proof (induction rest arbitrary: seen opened parts rule: measure_induct_rule [where f = length])
  case (less rest)
  have lit: "CHR ''.'' \<notin> set (takeWhile not_brace rest)" using less.prems(2) by (auto dest: set_takeWhileD)
  from less.prems(1) show ?case
  proof (cases rule: parse_parts_Inr)
    case literal
    with lit less.prems(3) show ?thesis by auto
  next
    case (placed name after ps)
    have shorter: "length after < length rest"
      using split_placeholder_shorter [OF placed(1)] length_dropWhile_le [of not_brace rest] by simp
    have "set after \<subseteq> set rest"
      using placed(1) by (auto simp: split_placeholder_def Let_def split: option.splits if_splits dest!: in_set_dropD)
        (metis list.set_intros(2) set_dropWhileD)
    with less.prems(2) have dot: "CHR ''.'' \<notin> set after" by blast
    have op: "(if name = ''harness'' then opened else Suc opened) \<le> 1" using placed(3) less.prems(3) by auto
    from less.IH [OF shorter placed(4) dot op] placed(2,5) lit show ?thesis by (auto split: if_splits)
  qed
qed

lemma parse_segments_ok:
  "parse_segments seen segments = Inr t \<Longrightarrow> \<forall>s\<in>set segments. CHR ''.'' \<notin> set s \<Longrightarrow>
     length t = length segments \<and> (\<forall>parts\<in>set t. segment_ok parts)
     \<and> distinct (names_in (concat t)) \<and> set seen \<inter> set (names_in (concat t)) = {}"
proof (induction seen segments arbitrary: t rule: parse_segments.induct)
  case (2 seen segment segments)
  then obtain parts seen' ts where p: "parse_parts seen 0 segment = Inr (parts, seen')"
    and ts: "parse_segments seen' segments = Inr ts" "t = parts # ts"
    by (auto split: if_splits sum.splits prod.splits simp: map_sum_def)
  have "segment \<noteq> []" using 2(2) by (auto split: if_splits)
  from parse_parts_ok [OF p] 2(3) have ok: "set seen' = set seen \<union> set (names_in parts)" "distinct (names_in parts)"
    "set seen \<inter> set (names_in parts) = {}" "segment_ok parts" by (auto simp: segment_ok_def)
  from 2(1) [OF \<open>segment \<noteq> []\<close> p refl ts(1)] 2(3) ok ts(2) show ?case by auto
qed auto

lemma template_parse_ok:
  assumes "template_parse text = Inr t"
  shows "template_ok t"
proof -
  from assms have p: "parse_segments [] (split_on (CHR ''.'') text) = Inr t"
    by (auto simp: template_parse_def split: sum.splits if_splits)
  have "\<forall>s\<in>set (split_on (CHR ''.'') text). CHR ''.'' \<notin> set s" by (intro ballI split_on_pieces)
  from parse_segments_ok [OF p this] show ?thesis by (auto simp: template_ok_def)
qed

section \<open>A segment as text\<close>

definition closed :: "Part list \<Rightarrow> bool" where
  "closed parts \<longleftrightarrow> set (names_in parts) \<subseteq> {''harness''}"

lemma closed_simps [simp]:
  "closed []" "closed (Literal s # ps) = closed ps" "closed (Value n # ps) \<longleftrightarrow> n = ''harness'' \<and> closed ps"
  by (auto simp: closed_def)

definition text_as :: "string \<Rightarrow> Part list \<Rightarrow> string" where
  "text_as h parts = concat (map (\<lambda>p. case p of Literal s \<Rightarrow> s | Value _ \<Rightarrow> h) parts)"

lemma text_as_simps [simp]:
  "text_as h [] = []" "text_as h (Literal s # ps) = s @ text_as h ps" "text_as h (Value n # ps) = h @ text_as h ps"
  "text_as h (ps @ qs) = text_as h ps @ text_as h qs"
  by (simp_all add: text_as_def)

lemma text_as_closed: "closed ps \<Longrightarrow> ''harness'' \<notin> set (names_in ps) \<Longrightarrow> text_as h ps = text_as h' ps"
proof (induction ps)
  case (Cons p ps)
  then show ?case by (cases p) auto
qed simp

lemma fold_closed:
  "closed ps \<Longrightarrow> fold (add_part h) ps f =
     (let g = push_text (text_as h ps) f in g\<lparr>sf_harness := sf_harness f \<or> ''harness'' \<in> set (names_in ps)\<rparr>)"
proof (induction ps arbitrary: f)
  case Nil
  show ?case by (cases f) (simp add: push_text_def Let_def)
next
  case (Cons p ps)
  have push: "push_text b (push_text a f) = push_text (a @ b) f" for a b f
    by (simp add: push_text_def)
  show ?case
  proof (cases p)
    case (Literal s)
    have "sf_harness (push_text s f) = sf_harness f" by (simp add: push_text_def)
    with Cons Literal show ?thesis by (simp add: add_part_def push Let_def)
  next
    case (Value n)
    have "push_text a (g\<lparr>sf_harness := True\<rparr>) = (push_text a g)\<lparr>sf_harness := True\<rparr>" "sf_harness (push_text a g) = sf_harness g"
      for a g by (simp_all add: push_text_def)
    with Cons Value show ?thesis by (simp add: add_part_def push Let_def)
  qed
qed

lemma segment_closed:
  "closed parts \<Longrightarrow> segment_of h parts =
     \<lparr>sf_prefix = text_as h parts, sf_suffix = [], sf_open = None, sf_harness = (''harness'' \<in> set (names_in parts))\<rparr>"
  by (simp add: segment_of_def fold_closed push_text_def)

lemma segment_open:
  assumes "closed A" and "closed B" and "n \<noteq> ''harness''"
  shows "segment_of h (A @ Value n # B) = \<lparr>sf_prefix = text_as h A, sf_suffix = text_as h B, sf_open = Some n,
     sf_harness = (''harness'' \<in> set (names_in (A @ B)))\<rparr>"
  using assms by (simp add: segment_of_def fold_closed push_text_def add_part_def)

lemma segment_cases:
  assumes "segment_ok parts"
  obtains "closed parts" | A n B where "parts = A @ Value n # B" "n \<noteq> ''harness''" "closed A" "closed B"
proof (cases "closed parts")
  case False
  then obtain n where n: "n \<in> set (names_in parts)" "n \<noteq> ''harness''" by (auto simp: closed_def)
  then have "Value n \<in> set parts"
  proof -
    have "n \<in> set (names_in ps) \<Longrightarrow> Value n \<in> set ps" for ps
    proof (induction ps)
      case (Cons p ps)
      then show ?case by (cases p) auto
    qed simp
    with n show ?thesis by blast
  qed
  then obtain A B where parts: "parts = A @ Value n # B" by (meson split_list)
  from assms n(2) have "filter (\<lambda>n. n \<noteq> ''harness'') (names_in A) = []" "filter (\<lambda>n. n \<noteq> ''harness'') (names_in B) = []"
    by (auto simp: segment_ok_def parts)
  then have "closed A" "closed B" by (auto simp: closed_def filter_empty_conv)
  with parts n(2) show ?thesis by (rule that(2))
qed (rule that(1))

lemma strip_suffix_Some [simp]: "strip_suffix p s = Some r \<longleftrightarrow> s = r @ p"
  by (auto simp: strip_suffix_def) (metis rev_append rev_rev_ident)

text \<open>What a segment reads of one harness's spelling.\<close>

lemma read_closed:
  assumes "closed parts"
  shows "read_segment parts node h = Some m \<longleftrightarrow>
     node = text_as h parts \<and> m = (if ''harness'' \<in> set (names_in parts) then [(''harness'', h)] else [])"
  using assms by (auto simp: read_segment_def segment_closed Let_def)

lemma read_open:
  assumes "closed A" and "closed B" and "n \<noteq> ''harness''"
  shows "read_segment (A @ Value n # B) node h = Some m \<longleftrightarrow>
     (\<exists>v. node = text_as h A @ v @ text_as h B \<and> v \<noteq> [] \<and> CHR ''/'' \<notin> set v \<and> CHR 0x5C \<notin> set v
        \<and> m = (if ''harness'' \<in> set (names_in (A @ B)) then bt_insert ''harness'' h [(n, v)] else [(n, v)]))"
proof -
  have s: "Option.bind (strip_prefix (text_as h A) node) (strip_suffix (text_as h B)) = Some v
      \<longleftrightarrow> node = text_as h A @ v @ text_as h B" for v
    by (auto simp: bind_eq_Some_conv)
  define found where "found = Option.bind (strip_prefix (text_as h A) node) (strip_suffix (text_as h B))"
  have read: "read_segment (A @ Value n # B) node h =
      map_option (\<lambda>m. if ''harness'' \<in> set (names_in (A @ B)) then bt_insert ''harness'' h m else m)
        (case found of None \<Rightarrow> None
         | Some v \<Rightarrow> if v = [] \<or> CHR ''/'' \<in> set v \<or> CHR 0x5C \<in> set v then None else Some [(n, v)])"
    by (simp add: read_segment_def segment_open [OF assms] Let_def found_def)
  show ?thesis
  proof (cases found)
    case None
    with s show ?thesis by (simp add: read found_def [symmetric])
  next
    case (Some v)
    with s have "node = text_as h A @ w @ text_as h B \<longleftrightarrow> w = v" for w by (auto simp: found_def [symmetric])
    with Some show ?thesis by (auto simp: read)
  qed
qed

lemma harness_split:
  assumes "closed ps" and "''harness'' \<in> set (names_in ps)" and "distinct (names_in ps)"
  obtains P Q where "\<And>h. text_as h ps = P @ h @ Q"
proof -
  have "\<exists>A B. ps = A @ Value ''harness'' # B"
    using assms(2)
  proof (induction ps)
    case (Cons p ps)
    then show ?case by (cases p) (metis append_Cons append_Nil names_in_simps(2,3) set_ConsD)+
  qed simp
  then obtain A B where ps: "ps = A @ Value ''harness'' # B" by blast
  with assms have "''harness'' \<notin> set (names_in A)" "''harness'' \<notin> set (names_in B)" "closed A" "closed B"
    by (auto simp: closed_def)
  then obtain P Q where "\<And>h. text_as h A = P" "\<And>h. text_as h B = Q" by (metis text_as_closed)
  then show ?thesis by (intro that [of P Q]) (simp add: ps)
qed

lemma prefixes_differ:
  assumes "h \<in> set harness_prefixes" and "h' \<in> set harness_prefixes"
  shows "h @ q = h' @ q' \<Longrightarrow> h = h'" and "q @ h = q' @ h' \<Longrightarrow> h = h'"
proof -
  show "h @ q = h' @ q' \<Longrightarrow> h = h'" using assms by (auto simp: harness_prefixes_def)
  assume "q @ h = q' @ h'"
  then have "rev h @ rev q = rev h' @ rev q'" by (metis rev_append)
  then show "h = h'" using assms by (auto simp: harness_prefixes_def)
qed

text \<open>No two harnesses' spellings match one node.\<close>

lemma read_unique:
  assumes ok: "segment_ok parts" "distinct (names_in parts)"
    and h: "h \<in> set harness_prefixes" "h' \<in> set harness_prefixes"
    and r: "read_segment parts node h = Some m" "read_segment parts node h' = Some m'"
  shows "m' = m"
proof (cases "''harness'' \<in> set (names_in parts)")
  case False
  from ok(1) show ?thesis
  proof (cases rule: segment_cases)
    case 1
    with r False show ?thesis by (simp add: read_closed)
  next
    case (2 A n B)
    with False have "text_as h A = text_as h' A" "text_as h B = text_as h' B" by (auto intro: text_as_closed)
    with r False 2 show ?thesis by (auto simp: read_open)
  qed
next
  case True
  have "h = h'"
    using ok(1)
  proof (cases rule: segment_cases)
    case 1
    obtain P Q where "\<And>h. text_as h parts = P @ h @ Q" by (rule harness_split [OF 1 True ok(2)]) blast
    with r 1 have "h @ Q = h' @ Q" by (simp add: read_closed)
    then show ?thesis by simp
  next
    case (2 A n B)
    then obtain v w where eq: "text_as h A @ v @ text_as h B = text_as h' A @ w @ text_as h' B" using r by (auto simp: read_open)
    show ?thesis
    proof (cases "''harness'' \<in> set (names_in A)")
      case True
      obtain P Q where "\<And>h. text_as h A = P @ h @ Q"
        by (rule harness_split [OF 2(3) True]) (use ok(2) 2(1) in auto)
      with eq have "h @ (Q @ v @ text_as h B) = h' @ (Q @ w @ text_as h' B)" by simp
      with prefixes_differ(1) [OF h] show ?thesis by blast
    next
      case no: False
      with True 2 have B: "''harness'' \<in> set (names_in B)" by auto
      obtain P Q where "\<And>h. text_as h B = P @ h @ Q"
        by (rule harness_split [OF 2(4) B]) (use ok(2) 2(1) in auto)
      with eq have "(text_as h A @ v @ P) @ h = (text_as h' A @ w @ P) @ h'" by simp
      with prefixes_differ(2) [OF h] show ?thesis by blast
    qed
  qed
  with r show ?thesis by simp
qed

lemma first_some_iff:
  assumes "\<And>x x' y y'. x \<in> set xs \<Longrightarrow> x' \<in> set xs \<Longrightarrow> f x = Some y \<Longrightarrow> f x' = Some y' \<Longrightarrow> y' = y"
  shows "first_some f xs = Some y \<longleftrightarrow> (\<exists>x\<in>set xs. f x = Some y)"
  using assms
proof (induction xs)
  case (Cons x xs)
  have "first_some f xs = Some y \<longleftrightarrow> (\<exists>x\<in>set xs. f x = Some y)" by (rule Cons.IH) (use Cons.prems in auto)
  then show ?case using Cons.prems [of x] by (auto split: option.split)
qed simp

section \<open>Filling and reading one segment\<close>

definition fills :: "facts \<Rightarrow> Part list \<Rightarrow> string \<Rightarrow> bool" where
  "fills vs parts node \<longleftrightarrow> map_option concat (those (map (fill_part vs) parts)) = Some node"

lemma fills_simps [simp]:
  "fills vs [] node \<longleftrightarrow> node = []"
  "fills vs (p # ps) node \<longleftrightarrow> (\<exists>a b. fill_part vs p = Some a \<and> fills vs ps b \<and> node = a @ b)"
  by (auto simp: fills_def split: option.split)

lemma fills_append: "fills vs (ps @ qs) node \<longleftrightarrow> (\<exists>a b. fills vs ps a \<and> fills vs qs b \<and> node = a @ b)"
proof (induction ps arbitrary: node)
  case (Cons p ps)
  show ?case
  proof
    assume "fills vs ((p # ps) @ qs) node"
    then obtain a c d where "fill_part vs p = Some a" "fills vs ps c" "fills vs qs d" "node = a @ c @ d"
      by (auto simp: Cons.IH)
    then show "\<exists>a b. fills vs (p # ps) a \<and> fills vs qs b \<and> node = a @ b"
      by (intro exI [of _ "a @ c"] exI [of _ d]) simp
  next
    assume "\<exists>a b. fills vs (p # ps) a \<and> fills vs qs b \<and> node = a @ b"
    then obtain a c d where "fill_part vs p = Some a" "fills vs ps c" "fills vs qs d" "node = a @ c @ d" by auto
    then have "fills vs (ps @ qs) (c @ d)" using Cons.IH by blast
    with \<open>fill_part vs p = Some a\<close> \<open>node = a @ c @ d\<close> show "fills vs ((p # ps) @ qs) node" by simp
  qed
qed simp

lemma harness_fits: "value_fits ''harness'' v \<longleftrightarrow> v \<in> set harness_prefixes"
  by (auto simp: value_fits_def harness_prefixes_def)

lemma fill_value: "fill_part vs (Value n) = Some a \<longleftrightarrow> bt_get vs n = Some a \<and> value_fits n a"
  by (auto simp: fill_part_def split: option.splits if_splits)

lemma fill_literal [simp]: "fill_part vs (Literal s) = Some s"
  by (simp add: fill_part_def)

lemma fills_closed:
  "closed ps \<Longrightarrow> fills vs ps node \<longleftrightarrow>
     (''harness'' \<in> set (names_in ps) \<longrightarrow> (\<exists>h\<in>set harness_prefixes. bt_get vs ''harness'' = Some h))
     \<and> node = text_as (the (bt_get vs ''harness'')) ps"
proof (induction ps arbitrary: node)
  case (Cons p ps)
  show ?case
  proof (cases p)
    case (Literal s)
    with Cons show ?thesis by simp
  next
    case (Value n)
    then have n: "n = ''harness''" "closed ps" using Cons.prems by simp_all
    show ?thesis
      by (cases "bt_get vs ''harness''") (use Cons.IH [OF n(2)] in \<open>auto simp: Value n(1) fill_value harness_fits\<close>)
  qed
qed simp

lemma fills_open:
  assumes "closed A" and "closed B"
  shows "fills vs (A @ Value n # B) node \<longleftrightarrow> (\<exists>v. bt_get vs n = Some v \<and> value_fits n v
    \<and> (''harness'' \<in> set (names_in (A @ B)) \<longrightarrow> (\<exists>h\<in>set harness_prefixes. bt_get vs ''harness'' = Some h))
    \<and> node = text_as (the (bt_get vs ''harness'')) A @ v @ text_as (the (bt_get vs ''harness'')) B)"
  using assms by (auto simp: fills_append fills_closed fill_value)

lemma read_keys:
  assumes "segment_ok parts" and "read_segment parts node h = Some m"
  shows "(bt_get m n = None \<longleftrightarrow> n \<notin> set (names_in parts)) \<and> bt_wf m"
  using assms(1)
proof (cases rule: segment_cases)
  case 1
  with assms(2) show ?thesis by (auto simp: read_closed bt_get_def bt_wf_def closed_def)
next
  case (2 A k B)
  from assms(2) 2 obtain v where m: "m = (if ''harness'' \<in> set (names_in (A @ B)) then bt_insert ''harness'' h [(k, v)] else [(k, v)])"
    by (auto simp: read_open)
  have "set (names_in parts) = insert k (if ''harness'' \<in> set (names_in (A @ B)) then {''harness''} else {})"
    using 2 by (auto simp: closed_def)
  moreover have "bt_wf [(k, v)]" by (simp add: bt_wf_def)
  moreover have "bt_get m n = (if n = ''harness'' \<and> ''harness'' \<in> set (names_in (A @ B)) then Some h
      else if n = k then Some v else None)"
    unfolding m bt_get_def [symmetric] by (simp add: bt_insert_get) (simp add: bt_get_def)
  moreover have "bt_wf m" using \<open>bt_wf [(k, v)]\<close> by (simp add: m bt_insert_wf del: bt_insert.simps)
  ultimately show ?thesis by (simp split: if_splits)
qed

lemma fills_reads:
  assumes ok: "segment_ok parts" "distinct (names_in parts)" and f: "fills vs parts node"
  shows "\<exists>h\<in>set harness_prefixes. \<exists>m. read_segment parts node h = Some m \<and> (\<forall>n\<in>set (names_in parts). bt_get m n = bt_get vs n)"
proof -
  define h where "h = (if ''harness'' \<in> set (names_in parts) then the (bt_get vs ''harness'') else ''claude'')"
  from ok(1) show ?thesis
  proof (cases rule: segment_cases)
    case 1
    from f 1 have h: "h \<in> set harness_prefixes" by (auto simp: fills_closed h_def harness_prefixes_def)
    have "node = text_as h parts"
      using f 1 text_as_closed [OF 1, of "the (bt_get vs ''harness'')" h] by (auto simp: fills_closed h_def)
    moreover have "bt_get vs ''harness'' = Some h" if "''harness'' \<in> set (names_in parts)"
      using f 1 that by (auto simp: fills_closed h_def)
    ultimately show ?thesis using h 1 by (intro bexI [of _ h]) (auto simp: read_closed bt_get_def closed_def)
  next
    case (2 A k B)
    with f obtain v where v: "bt_get vs k = Some v" "value_fits k v"
      and hs: "''harness'' \<in> set (names_in (A @ B)) \<longrightarrow> (\<exists>h\<in>set harness_prefixes. bt_get vs ''harness'' = Some h)"
      and node: "node = text_as (the (bt_get vs ''harness'')) A @ v @ text_as (the (bt_get vs ''harness'')) B"
      by (auto simp: fills_open)
    have names: "''harness'' \<in> set (names_in parts) \<longleftrightarrow> ''harness'' \<in> set (names_in (A @ B))" using 2 by auto
    have h: "h \<in> set harness_prefixes" "''harness'' \<in> set (names_in (A @ B)) \<Longrightarrow> bt_get vs ''harness'' = Some h"
      using hs by (auto simp: h_def names harness_prefixes_def)
    have spell: "text_as (the (bt_get vs ''harness'')) X = text_as h X" if "closed X" "set (names_in X) \<subseteq> set (names_in (A @ B))" for X
    proof (cases "''harness'' \<in> set (names_in X)")
      case True
      then show ?thesis using that names by (auto simp: h_def)
    qed (use text_as_closed [OF that(1)] in blast)
    have "node = text_as h A @ v @ text_as h B" using node spell [of A] spell [of B] 2 by simp
    moreover have "v \<noteq> []" "CHR ''/'' \<notin> set v" "CHR 0x5C \<notin> set v" using v(2) by (auto simp: value_fits_def)
    moreover define m where "m = (if ''harness'' \<in> set (names_in (A @ B)) then bt_insert ''harness'' h [(k, v)] else [(k, v)])"
    ultimately have "read_segment parts node h = Some m" using 2 read_open [OF 2(3,4,2)] by simp
    moreover have "bt_get m n = bt_get vs n" if "n \<in> set (names_in parts)" for n
    proof -
      have "n = k \<or> n = ''harness'' \<and> ''harness'' \<in> set (names_in (A @ B))" using that 2 by (auto simp: closed_def)
      with v(1) h(2) 2(2) show ?thesis by (auto simp: m_def bt_insert_get bt_get_def)
    qed
    ultimately show ?thesis using h(1) by blast
  qed
qed

lemma reads_fill:
  assumes ok: "segment_ok parts" and h: "h \<in> set harness_prefixes" and dot: "CHR ''.'' \<notin> set node"
    and r: "read_segment parts node h = Some m" and vs: "\<forall>n\<in>set (names_in parts). bt_get vs n = bt_get m n"
  shows "fills vs parts node"
  using ok
proof (cases rule: segment_cases)
  case 1
  have "bt_get vs ''harness'' = Some h" if "''harness'' \<in> set (names_in parts)"
    using r 1 vs that by (auto simp: read_closed bt_get_def)
  moreover have "text_as (the (bt_get vs ''harness'')) parts = text_as h parts" if "''harness'' \<notin> set (names_in parts)"
    by (rule text_as_closed [OF 1 that])
  ultimately have "text_as (the (bt_get vs ''harness'')) parts = text_as h parts" by fastforce
  with \<open>''harness'' \<in> set (names_in parts) \<Longrightarrow> bt_get vs ''harness'' = Some h\<close> r 1 h show ?thesis
    by (auto simp: read_closed fills_closed)
next
  case (2 A k B)
  from r 2 obtain v where node: "node = text_as h A @ v @ text_as h B" and v: "v \<noteq> []" "CHR ''/'' \<notin> set v" "CHR 0x5C \<notin> set v"
    and m: "m = (if ''harness'' \<in> set (names_in (A @ B)) then bt_insert ''harness'' h [(k, v)] else [(k, v)])"
    by (auto simp: read_open)
  have k: "bt_get vs k = Some v" using vs 2 m by (auto simp: bt_insert_get bt_get_def)
  have hs: "bt_get vs ''harness'' = Some h" if "''harness'' \<in> set (names_in (A @ B))"
    using vs 2 m that by (auto simp: bt_insert_get bt_get_def)
  have spell: "text_as (the (bt_get vs ''harness'')) X = text_as h X" if "closed X" "set (names_in X) \<subseteq> set (names_in (A @ B))" for X
  proof (cases "''harness'' \<in> set (names_in X)")
    case True
    then show ?thesis using that hs by auto
  qed (use text_as_closed [OF that(1)] in blast)
  have "value_fits k v" using v dot node 2(2) by (auto simp: value_fits_def)
  with k hs h node spell [of A] spell [of B] 2 show ?thesis by (auto simp: fills_open)
qed

section \<open>Templates\<close>

lemma those_Some: "those xs = Some ys \<longleftrightarrow> xs = map Some ys"
proof (induction xs arbitrary: ys)
  case (Cons x xs)
  show ?case by (cases x; cases ys) (auto simp: Cons.IH)
qed auto

lemma those_fills:
  "those (map (\<lambda>parts. map_option concat (those (map (fill_part vs) parts))) t) = Some nodes
     \<longleftrightarrow> list_all2 (fills vs) t nodes"
  by (auto simp: those_Some fills_def list_all2_conv_all_nth list_eq_iff_nth_eq)

lemma fills_no_dot:
  assumes "segment_ok parts" and "fills vs parts node"
  shows "CHR ''.'' \<notin> set node"
proof -
  have "\<forall>s. Literal s \<in> set ps \<longrightarrow> CHR ''.'' \<notin> set s \<Longrightarrow> fills vs ps node \<Longrightarrow> CHR ''.'' \<notin> set node" for ps
  proof (induction ps arbitrary: node)
    case (Cons p ps)
    then show ?case by (cases p) (auto simp: fill_value value_fits_def)
  qed simp
  from this [OF _ assms(2)] assms(1) show ?thesis by (simp add: segment_ok_def)
qed

lemma fold_insert_get:
  "bt_wf found \<Longrightarrow> bt_get (fold (\<lambda>(k, v). bt_insert k v) found acc) n =
     (case bt_get found n of Some v \<Rightarrow> Some v | None \<Rightarrow> bt_get acc n)"
proof (induction found arbitrary: acc)
  case (Cons row found)
  from Cons.prems have "bt_wf found" "fst row \<notin> fst ` set found" by (auto simp: bt_wf_Cons)
  moreover from this(2) have "bt_get found (fst row) = None" by (simp add: bt_get_None)
  ultimately show ?case
    by (cases row) (auto simp: Cons.IH bt_insert_get bt_get_Cons split: option.split)
qed (simp add: bt_get_def)

lemma first_read:
  assumes "segment_ok parts" and "distinct (names_in parts)"
  shows "first_some (read_segment parts node) harness_prefixes = Some m
    \<longleftrightarrow> (\<exists>h\<in>set harness_prefixes. read_segment parts node h = Some m)"
  by (rule first_some_iff) (rule read_unique [OF assms])

text \<open>A node's segments, each read for some harness as the values \<open>v\<close> have it.\<close>

definition segments_read :: "facts \<Rightarrow> Template \<Rightarrow> string list \<Rightarrow> bool" where
  "segments_read v = list_all2 (\<lambda>parts node. \<exists>h\<in>set harness_prefixes. \<exists>m. read_segment parts node h = Some m
     \<and> (\<forall>n\<in>set (names_in parts). bt_get m n = bt_get v n))"

lemma segments_read_fills:
  assumes "\<forall>parts\<in>set t. segment_ok parts \<and> distinct (names_in parts)" and "\<forall>node\<in>set nodes. CHR ''.'' \<notin> set node"
  shows "segments_read v t nodes \<longleftrightarrow> list_all2 (fills v) t nodes"
proof -
  have "(\<exists>h\<in>set harness_prefixes. \<exists>m. read_segment parts node h = Some m \<and> (\<forall>n\<in>set (names_in parts). bt_get m n = bt_get v n))
      \<longleftrightarrow> fills v parts node" if "parts \<in> set t" "node \<in> set nodes" for parts node
    using fills_reads [of parts v node] reads_fill [of parts _ node _ v] assms that by metis
  then show ?thesis unfolding segments_read_def by (intro list.rel_cong_simp refl) (simp add: simp_implies_def)
qed

lemma read_segments_get:
  "length t = length nodes \<Longrightarrow> \<forall>parts\<in>set t. segment_ok parts \<Longrightarrow> distinct (names_in (concat t)) \<Longrightarrow>
     read_segments t nodes acc = Some vs \<Longrightarrow>
     segments_read vs t nodes \<and> (\<forall>n. n \<notin> set (names_in (concat t)) \<longrightarrow> bt_get vs n = bt_get acc n)"
proof (induction t nodes acc rule: read_segments.induct)
  case (1 parts t node nodes acc)
  then obtain found where found: "first_some (read_segment parts node) harness_prefixes = Some found"
    and rest: "read_segments t nodes (fold (\<lambda>(k, v). bt_insert k v) found acc) = Some vs"
    by (auto split: option.splits)
  have ok: "segment_ok parts" "distinct (names_in parts)" "distinct (names_in (concat t))"
    "set (names_in parts) \<inter> set (names_in (concat t)) = {}" using 1(3,4) by auto
  obtain h where h: "h \<in> set harness_prefixes" "read_segment parts node h = Some found"
    using found first_read [OF ok(1,2)] by blast
  have keys: "bt_get found k = None \<longleftrightarrow> k \<notin> set (names_in parts)" "bt_wf found" for k
    using read_keys [OF ok(1) h(2)] by auto
  have IH: "segments_read vs t nodes"
    "n \<notin> set (names_in (concat t)) \<Longrightarrow> bt_get vs n = (case bt_get found n of Some v \<Rightarrow> Some v | None \<Rightarrow> bt_get acc n)" for n
    using 1(1) [OF found _ _ ok(3) rest] 1(2,3) by (simp_all add: fold_insert_get [OF keys(2)])
  have "bt_get found n = bt_get vs n" if "n \<in> set (names_in parts)" for n
  proof -
    have "n \<notin> set (names_in (concat t))" using ok(4) that by blast
    with IH(2) [of n] keys(1) [of n] that show ?thesis by (auto split: option.splits)
  qed
  with h IH(1) have "segments_read vs (parts # t) (node # nodes)" unfolding segments_read_def by auto
  moreover have "bt_get vs n = bt_get acc n" if "n \<notin> set (names_in (concat (parts # t)))" for n
    using IH(2) [of n] keys(1) [of n] that by (auto split: option.splits)
  ultimately show ?case by blast
qed (auto simp: segments_read_def)

lemma read_segments_exist:
  "segments_read v t nodes \<Longrightarrow> \<forall>parts\<in>set t. segment_ok parts \<Longrightarrow> distinct (names_in (concat t)) \<Longrightarrow>
     \<exists>vs. read_segments t nodes acc = Some vs"
proof (induction t nodes acc rule: read_segments.induct)
  case (1 parts t node nodes acc)
  then obtain h m where h: "h \<in> set harness_prefixes" "read_segment parts node h = Some m" by (auto simp: segments_read_def)
  have "segment_ok parts" "distinct (names_in parts)" using 1(3,4) by auto
  from first_read [OF this] h have f: "first_some (read_segment parts node) harness_prefixes = Some m" by blast
  have "\<exists>vs. read_segments t nodes (fold (\<lambda>(k, v). bt_insert k v) m acc) = Some vs"
    by (rule 1(1) [OF f]) (use 1(2-4) in \<open>auto simp: segments_read_def\<close>)
  with f show ?case by simp
qed (auto simp: segments_read_def)

text \<open>
  C17: a node says exactly which values it was filled from: reading the node a template fills gives back the values of the
  template's placeholders and no others, and filling a template with what it reads of a node gives that node.
\<close>

theorem node_reads_back:
  assumes "template_parse text = Inr t"
  shows "(\<forall>v node. template_fill t v = Some node \<longrightarrow>
      (\<exists>v'. template_read t node = Some v' \<and>
         (\<forall>n. bt_get v' n = (if template_contains t n then bt_get v n else None))))
    \<and> (\<forall>v node. template_read t node = Some v \<longrightarrow> template_fill t v = Some node)"
proof (intro conjI allI impI)
  have ok: "t \<noteq> []" "\<forall>parts\<in>set t. segment_ok parts" "distinct (names_in (concat t))"
    using template_parse_ok [OF assms] by (auto simp: template_ok_def)
  have "distinct (names_in parts)" if "parts \<in> set ps" "distinct (names_in (concat ps))" for parts ps
    using that by (induction ps) auto
  with ok have okd: "\<forall>parts\<in>set t. segment_ok parts \<and> distinct (names_in parts)" by blast
  show "\<exists>v'. template_read t node = Some v' \<and> (\<forall>n. bt_get v' n = (if template_contains t n then bt_get v n else None))"
    if "template_fill t v = Some node" for v node
  proof -
    from that obtain nodes where nodes: "list_all2 (fills v) t nodes" "node = join ''.'' nodes"
      by (auto simp: template_fill_def those_fills)
    have dot: "\<forall>x\<in>set nodes. CHR ''.'' \<notin> set x"
    proof
      fix x assume "x \<in> set nodes"
      with nodes(1) obtain parts where "parts \<in> set t" "fills v parts x"
        by (metis in_set_conv_nth list_all2_conv_all_nth)
      with ok(2) show "CHR ''.'' \<notin> set x" using fills_no_dot by blast
    qed
    have len: "length t = length nodes" using nodes(1) by (rule list_all2_lengthD)
    then have "nodes \<noteq> []" using ok(1) by auto
    from split_on_join [OF this dot] have split: "split_on (CHR ''.'') node = nodes" by (simp add: nodes(2))
    have sr: "segments_read v t nodes" using segments_read_fills [OF okd dot] nodes(1) by simp
    from read_segments_exist [OF sr ok(2,3)] obtain vs where vs: "read_segments t nodes [] = Some vs" by blast
    from read_segments_get [OF len ok(2,3) vs] have sr': "segments_read vs t nodes"
      and other: "\<And>n. n \<notin> set (names_in (concat t)) \<Longrightarrow> bt_get vs n = None" by (auto simp: bt_get_def)
    have "bt_get vs n = bt_get v n" if "n \<in> set (names_in (concat t))" for n
      using sr sr' okd that unfolding segments_read_def
    proof (induction t nodes rule: list_all2_induct)
      case (Cons parts t node nodes)
      then obtain h m h' m' where "h \<in> set harness_prefixes" "read_segment parts node h = Some m" "\<forall>n\<in>set (names_in parts). bt_get m n = bt_get v n"
        "h' \<in> set harness_prefixes" "read_segment parts node h' = Some m'" "\<forall>n\<in>set (names_in parts). bt_get m' n = bt_get vs n"
        by auto
      with read_unique [of parts h h' node m m'] Cons show ?case by auto
    qed simp
    with vs other len split show ?thesis by (auto simp: template_read_def contains_names)
  qed
  show "template_fill t v = Some node" if r: "template_read t node = Some v" for v node
  proof -
    define nodes where "nodes = split_on (CHR ''.'') node"
    from r have len: "length t = length nodes" and vs: "read_segments t nodes [] = Some v"
      by (auto simp: template_read_def nodes_def Let_def split: if_splits)
    have dot: "\<forall>x\<in>set nodes. CHR ''.'' \<notin> set x" unfolding nodes_def by (intro ballI split_on_pieces)
    from read_segments_get [OF len ok(2,3) vs] segments_read_fills [OF okd dot]
    have "list_all2 (fills v) t nodes" by simp
    then have "those (map (\<lambda>parts. map_option concat (those (map (fill_part v) parts))) t) = Some nodes"
      by (simp only: those_fills)
    then show ?thesis by (simp add: template_fill_def nodes_def)
  qed
qed

theorem node_reads_back_witness:
  "template_read [[Value ''repo''], [Value ''harness'', Literal ''-'', Value ''session'']] ''devkit.codex-a-b''
     = Some [(''harness'', ''codex''), (''repo'', ''devkit''), (''session'', ''a-b'')]
   \<and> template_fill [[Value ''repo''], [Value ''harness'', Literal ''-'', Value ''session'']]
       [(''harness'', ''codex''), (''repo'', ''devkit''), (''session'', ''a-b'')] = Some ''devkit.codex-a-b''"
proof -
  have p: "template_parse ''{repo}.{harness}-{session}'' = Inr [[Value ''repo''], [Value ''harness'', Literal ''-'', Value ''session'']]"
    by code_simp
  have "template_read [[Value ''repo''], [Value ''harness'', Literal ''-'', Value ''session'']] ''devkit.codex-a-b''
     = Some [(''harness'', ''codex''), (''repo'', ''devkit''), (''session'', ''a-b'')]" by code_simp
  with node_reads_back [OF p] show ?thesis by blast
qed

section \<open>A checked configuration\<close>

text \<open>What the check finds of the scopes: each parses, has its parent among them, is on no cycle, and a root has no placeholder.\<close>

definition scope_row_ok :: "(string, ScopeConfig) btree \<Rightarrow> string \<times> ScopeConfig \<Rightarrow> bool" where
  "scope_row_ok scopes row \<longleftrightarrow> parent_cycle scopes sc_parent [] (fst row) = None \<and>
     (\<exists>t. template_parse (sc_node (snd row)) = Inr t
        \<and> (case sc_parent (snd row) of Some up \<Rightarrow> bt_get scopes up \<noteq> None | None \<Rightarrow> names_in (concat t) = []))"

lemma no_value: "\<not> list_ex (\<lambda>p. case p of Value _ \<Rightarrow> True | Literal _ \<Rightarrow> False) ps \<Longrightarrow> names_in ps = []"
proof (induction ps)
  case (Cons p ps)
  then show ?case by (cases p) auto
qed simp

lemma validate_scopes_ok:
  "validate_scopes scopes rows roots = Inr roots' \<Longrightarrow> \<forall>row\<in>set rows. scope_row_ok scopes row"
proof (induction scopes rows roots rule: validate_scopes.induct)
  case (2 scopes name scope rows roots)
  from 2(3) obtain t where t: "template_parse (sc_node scope) = Inr t" by (auto split: sum.splits)
  show ?case
  proof (cases "sc_parent scope")
    case None
    with 2(3) t have "\<not> list_ex (\<lambda>p. case p of Value _ \<Rightarrow> True | Literal _ \<Rightarrow> False) (concat t)"
      "parent_cycle scopes sc_parent [] name = None" "validate_scopes scopes rows (roots @ [name]) = Inr roots'"
      by (auto simp del: parent_cycle.simps split: if_splits option.splits)
    with 2(1) [OF t None] None t no_value [of "concat t"] show ?thesis by (auto simp: scope_row_ok_def simp del: parent_cycle.simps)
  next
    case (Some up)
    with 2(3) t have "bt_get scopes up \<noteq> None" "parent_cycle scopes sc_parent [] name = None"
      "validate_scopes scopes rows roots = Inr roots'"
      by (auto simp del: parent_cycle.simps split: if_splits option.splits)
    with 2(2) [OF t Some] Some t show ?thesis by (auto simp: scope_row_ok_def simp del: parent_cycle.simps)
  qed
qed simp

text \<open>The parents of a scope on no cycle: a walk up that ends.\<close>

inductive climbs :: "(string, ScopeConfig) btree \<Rightarrow> string \<Rightarrow> bool" for scopes where
  "(\<And>up. Option.bind (bt_get scopes here) sc_parent = Some up \<Longrightarrow> climbs scopes up) \<Longrightarrow> climbs scopes here"

lemma no_cycle_climbs: "parent_cycle scopes sc_parent visited here = None \<Longrightarrow> climbs scopes here"
proof (induction scopes "sc_parent :: ScopeConfig \<Rightarrow> string option" visited here rule: parent_cycle.induct)
  case (1 scopes visited here)
  show ?case
  proof (rule climbs.intros)
    fix up assume "Option.bind (bt_get scopes here) sc_parent = Some up"
    with 1 show "climbs scopes up" by (simp split: if_splits)
  qed
qed

definition layout_ok :: "Layout \<Rightarrow> bool" where
  "layout_ok l \<longleftrightarrow> (\<forall>name config. scope_at l name = Some config \<longrightarrow> climbs (tc_scopes (ly_config l)) name
     \<and> (\<exists>t. bt_get (ly_templates l) name = Some t
         \<and> (case sc_parent config of Some up \<Rightarrow> scope_at l up \<noteq> None | None \<Rightarrow> names_in (concat t) = [])))
     \<and> (\<forall>name role. role_of l name = Some role \<longrightarrow> scope_at l (rc_scope role) \<noteq> None)"

lemma parse_scopes_get:
  "parse_scopes rows = Inr ts \<Longrightarrow> bt_get ts name = Option.bind (bt_get rows name) (\<lambda>c. case template_parse (sc_node c) of Inr t \<Rightarrow> Some t | Inl _ \<Rightarrow> None)"
  by (induction rows arbitrary: ts rule: parse_scopes.induct)
    (auto simp: bt_get_def map_sum_Inr split: sum.splits)

lemma validate_roles_ok:
  "validate_roles config rows types = Inr () \<Longrightarrow> \<forall>row\<in>set rows. bt_get (tc_scopes config) (rc_scope (snd row)) \<noteq> None"
  by (induction config rows types rule: validate_roles.induct)
    (auto simp del: parent_cycle.simps split: if_splits option.splits sum.splits)

lemma layout_new_ok:
  assumes "layout_new config = Inr l"
  shows "layout_ok l"
proof -
  from assms obtain ts where v: "validate_config config = Inr ()" and ts: "parse_scopes (tc_scopes config) = Inr ts"
    and l: "l = \<lparr>ly_config = config, ly_templates = ts\<rparr>"
    by (cases "parse_scopes (tc_scopes config)") (auto simp: layout_new_def split: sum.splits)
  from v obtain roots where s: "validate_scopes (tc_scopes config) (tc_scopes config) [] = Inr roots"
    and r: "validate_roles config (tc_roles config) [] = Inr ()"
    by (auto simp: validate_config_def split: sum.splits if_splits)
  show ?thesis
    unfolding layout_ok_def
  proof (intro conjI allI impI)
    fix name config' assume c: "scope_at l name = Some config'"
    then have "(name, config') \<in> set (tc_scopes config)" using bt_get_in_set by (fastforce simp: l)
    with validate_scopes_ok [OF s] have row: "scope_row_ok (tc_scopes config) (name, config')" by blast
    then show "climbs (tc_scopes (ly_config l)) name"
      using no_cycle_climbs by (auto simp: scope_row_ok_def l simp del: parent_cycle.simps)
    from row c parse_scopes_get [OF ts, of name]
    show "\<exists>t. bt_get (ly_templates l) name = Some t
         \<and> (case sc_parent config' of Some up \<Rightarrow> scope_at l up \<noteq> None | None \<Rightarrow> names_in (concat t) = [])"
      by (auto simp: scope_row_ok_def l simp del: parent_cycle.simps split: option.splits)
  next
    fix name role assume "role_of l name = Some role"
    then have "(name, role) \<in> set (tc_roles config)" using bt_get_in_set by (fastforce simp: l role_of_def)
    with validate_roles_ok [OF r] show "scope_at l (rc_scope role) \<noteq> None" by (fastforce simp: l)
  qed
qed

lemma closed_fills: "names_in (concat t) = [] \<Longrightarrow> \<exists>node. template_fill t vs = Some node"
proof (induction t)
  case (Cons parts t)
  have "names_in ps = [] \<Longrightarrow> \<exists>ss. those (map (fill_part vs) ps) = Some ss" for ps
  proof (induction ps)
    case (Cons p ps)
    then show ?case by (cases p) auto
  qed simp
  with Cons show ?case by (fastforce simp: template_fill_def)
qed (simp add: template_fill_def)

lemma filled_scope_ends:
  assumes "layout_ok l" and "climbs (tc_scopes (ly_config l)) here" and "scope_at l here \<noteq> None"
  shows "\<exists>scope node. filled_scope l vs here = Some (Inr (scope, node)) \<and> scope_at l scope \<noteq> None"
  using assms(2,3)
proof (induction rule: climbs.induct)
  case (1 here)
  then obtain config where c: "scope_at l here = Some config" by auto
  with assms(1) obtain t where t: "bt_get (ly_templates l) here = Some t"
    "case sc_parent config of Some up \<Rightarrow> scope_at l up \<noteq> None | None \<Rightarrow> names_in (concat t) = []"
    unfolding layout_ok_def by blast
  show ?case
  proof (cases "template_fill t vs")
    case (Some node)
    with c t show ?thesis by (simp add: filled_scope.simps)
  next
    case None
    with t(2) closed_fills [of t vs] obtain up where up: "sc_parent config = Some up" "scope_at l up \<noteq> None"
      by (auto split: option.splits)
    with 1 c have "\<exists>scope node. filled_scope l vs up = Some (Inr (scope, node)) \<and> scope_at l scope \<noteq> None" by auto
    with c t None up show ?thesis by (simp add: filled_scope.simps [of l vs here])
  qed
qed

lemma layout_climbs: "layout_ok l \<Longrightarrow> scope_at l here \<noteq> None \<Longrightarrow> climbs (tc_scopes (ly_config l)) here"
  unfolding layout_ok_def by blast

lemma parents_up_ends:
  assumes l: "layout_ok l" and "climbs (tc_scopes (ly_config l)) scope" and "scope_at l scope \<noteq> None"
  shows "\<exists>nodes'. parents_up l facts (Some scope) nodes = Some (Inr (nodes @ nodes'))"
  using assms(2,3)
proof (induction arbitrary: nodes rule: climbs.induct)
  case (1 here)
  then obtain config where c: "scope_at l here = Some config" by auto
  from filled_scope_ends [OF l layout_climbs [OF l "1.prems"] "1.prems"] obtain s node where
    n: "layout_fill l facts here = Some (Inr node)" by (fastforce simp: layout_fill_def)
  define nodes1 where "nodes1 = (if Exact node \<in> set nodes then nodes else nodes @ [Exact node])"
  have "\<exists>more. nodes1 = nodes @ more" by (simp add: nodes1_def)
  then obtain more where more: "nodes1 = nodes @ more" by blast
  have "\<exists>nodes'. parents_up l facts (sc_parent config) nodes1 = Some (Inr (nodes1 @ nodes'))"
  proof (cases "sc_parent config")
    case None
    then show ?thesis by (simp add: parents_up.simps)
  next
    case (Some up)
    moreover have "scope_at l up \<noteq> None" using l c Some unfolding layout_ok_def by fastforce
    ultimately show ?thesis using "1.IH" [of up nodes1] c by auto
  qed
  with c n more show ?case by (auto simp: parents_up.simps [of l facts "Some here"] nodes1_def [symmetric])
qed

text \<open>
  A checked configuration gives every role its nodes: for any caller, the walk up from the role's scope ends at
  a scope that fills, so the caller has a node to write to, sees it and the nodes above it, and the hold is decided.
\<close>

lemma roles_have_nodes:
  assumes "layout_new config = Inr l" and "role_of l role = Some r"
  shows "\<exists>own nodes hold. layout_fill l facts (rc_scope r) = Some (Inr own)
    \<and> visible l facts role = Some (Inr (Exact own # nodes)) \<and> role_hold_pending l facts role = Some (Inr hold)"
proof -
  note ok = layout_new_ok [OF assms(1)]
  have at: "scope_at l (rc_scope r) \<noteq> None" using ok assms(2) unfolding layout_ok_def by blast
  from filled_scope_ends [OF ok layout_climbs [OF ok at] at] obtain scope own config' where
    f: "filled_scope l (ft_values facts) (rc_scope r) = Some (Inr (scope, own))" "scope_at l scope = Some config'" by fastforce
  have "\<exists>nodes. parents_up l facts (sc_parent config') [Exact own] = Some (Inr ([Exact own] @ nodes))"
  proof (cases "sc_parent config'")
    case None
    then show ?thesis by (simp add: parents_up.simps)
  next
    case (Some up)
    have "scope_at l up \<noteq> None" using ok f(2) Some unfolding layout_ok_def by fastforce
    from parents_up_ends [OF ok layout_climbs [OF ok this] this, of facts "[Exact own]"] Some show ?thesis by simp
  qed
  then obtain nodes where "parents_up l facts (sc_parent config') [Exact own] = Some (Inr (Exact own # nodes))" by auto
  moreover obtain t where "bt_get (ly_templates l) scope = Some t" using ok f(2) unfolding layout_ok_def by blast
  ultimately show ?thesis using assms(2) f
    by (auto simp: layout_fill_def visible_def role_hold_pending_def split: option.split)
qed

definition demo_config :: TodoConfig where
  "demo_config = \<lparr>tc_scopes = default_scopes, tc_roles = default_roles\<rparr>"

text \<open>The built-in scopes and roles pass the check.\<close>

lemma demo_config_checked: "\<exists>l. layout_new demo_config = Inr l"
proof -
  have "case layout_new demo_config of Inr _ \<Rightarrow> True | Inl _ \<Rightarrow> False" by code_simp
  then show ?thesis by (simp split: sum.splits)
qed

end
