(* ===== verification/Todo_Roles_Safety.thy ===== *)
theory Todo_Roles_Safety
  imports Todo_Roles Todo_Scope_Safety
begin

text \<open>
  What the role document promises under any calls and faults of the file: a recorded role stays until its holder records
  another, a holder is shown roles once, and under a checked configuration a resolve only fails where the store does.
\<close>

section \<open>The file reads back\<close>

definition roles_ok :: "RoleDoc \<Rightarrow> bool" where
  "roles_ok d \<longleftrightarrow> bt_wf (rd_entries d)"

lemma role_entry_roundtrip:
  assumes "\<forall>t. read_time (show_time t) = Some t"
  shows "role_entry_of_json read_time (role_entry_to_json show_time e) = Some e"
  using assms by (simp add: role_entry_of_json_def role_entry_to_json_def read_field_def struct_field_def)

lemma role_document_ok:
  assumes "\<forall>t. read_time (show_time t) = Some t"
  shows "document (role_document show_time read_time) roles_ok"
proof
  fix d :: RoleDoc assume "roles_ok d"
  then have "of_map Some (role_entry_of_json read_time) (to_map id (role_entry_to_json show_time) (rd_entries d)) = Some (rd_entries d)"
    using role_entry_roundtrip [OF assms] by (intro of_map_to_map) (auto simp: roles_ok_def)
  then show "doc_of_json (role_document show_time read_time) (doc_to_json (role_document show_time read_time) d) = Some d"
    by (simp add: role_document_def role_doc_of_json_def role_doc_to_json_def read_field_def struct_field_def)
next
  fix j d assume "doc_of_json (role_document show_time read_time) j = Some d"
  then show "roles_ok d"
    by (auto simp: role_document_def role_doc_of_json_def read_field_def roles_ok_def
        split: json.splits Option.bind_splits field_read.splits dest: of_map_wf)
qed (simp_all add: role_document_def roles_ok_def)

section \<open>An entry that every call keeps\<close>

definition keeps_entry :: "RoleDoc document \<Rightarrow> Holder \<Rightarrow> (RoleEntry \<Rightarrow> bool) \<Rightarrow> int \<Rightarrow> doc_fs \<Rightarrow> bool" where
  "keeps_entry doc h Q since fs \<longleftrightarrow> (\<exists>d e. fs_data fs = Some (Text (doc_to_json doc d)) \<and> roles_ok d
     \<and> bt_get (rd_entries d) h = Some e \<and> Q e \<and> since \<le> re_at e)"

lemma loaded:
  assumes "document doc ok" and "ok d" and "fs_data fs = Some (Text (doc_to_json doc d))" and "try_load doc io fs = Inr d'"
  shows "d' = d"
  using assms(3,4) document.roundtrip [OF assms(1,2)] by (auto simp: try_load_def read_strict_def split: if_splits)

lemma recent_get:
  "roles_ok d \<Longrightarrow> bt_get (rd_entries d) h = Some e \<Longrightarrow> now - month \<le> re_at e \<Longrightarrow> bt_get (rd_entries (recent_entries now d)) h = Some e"
  by (simp add: recent_entries_def roles_ok_def bt_get_retain)

lemma recent_ok [simp]: "roles_ok d \<Longrightarrow> roles_ok (recent_entries now d)"
  by (simp add: recent_entries_def roles_ok_def devkit_wf)

lemma put_entry_ok [simp]: "roles_ok d \<Longrightarrow> roles_ok (put_entry h e d)"
  by (simp add: put_entry_def roles_ok_def devkit_wf)

lemma put_entry_get [simp]: "roles_ok d \<Longrightarrow> bt_get (rd_entries (put_entry h e d)) h' = (if h' = h then Some e else bt_get (rd_entries d) h')"
  by (simp add: put_entry_def roles_ok_def bt_insert_get)

text \<open>What a call does to one holder's entry: nothing, or it writes it now.\<close>

definition touches :: "Holder \<Rightarrow> (RoleEntry \<Rightarrow> bool) \<Rightarrow> int \<Rightarrow> (RoleDoc \<Rightarrow> role_fault + 'a \<times> RoleDoc) \<Rightarrow> bool" where
  "touches h Q now f \<longleftrightarrow> (\<forall>d e a d'. roles_ok d \<longrightarrow> bt_get (rd_entries d) h = Some e \<longrightarrow> Q e \<longrightarrow> f d = Inr (a, d') \<longrightarrow>
     (\<exists>e'. bt_get (rd_entries d') h = Some e' \<and> Q e' \<and> (e' = e \<or> re_at e' = now)))"

definition keeps_ok :: "(RoleDoc \<Rightarrow> role_fault + 'a \<times> RoleDoc) \<Rightarrow> bool" where
  "keeps_ok f \<longleftrightarrow> (\<forall>d a d'. roles_ok d \<longrightarrow> f d = Inr (a, d') \<longrightarrow> roles_ok d')"

text \<open>What a write that landed read and left.\<close>

lemma roles_write_landed:
  assumes "document doc roles_ok" and "keeps_ok f" and "roles_write doc io now f fs = (Inr a, fs')"
  obtains d d' where "try_load doc io fs = (Inr d :: role_fault store_error + RoleDoc)" "roles_ok d" "f (recent_entries now d) = Inr (a, d')"
    "roles_ok d'" "fs_data fs' = Some (Text (doc_to_json doc (doc_stamp doc d')))"
proof -
  have w: "with_lock_strict doc io (\<lambda>d. f (recent_entries now d)) fs = (Inr a, fs')" using assms(3) by (simp add: roles_write_def)
  have keeps: "\<forall>d b d'. roles_ok d \<longrightarrow> f (recent_entries now d) = Inr (b, d') \<longrightarrow> roles_ok d'"
    using assms(2) recent_ok unfolding keeps_ok_def by blast
  from document.strict_outcome [OF assms(1) keeps, where io = io and fs = fs, unfolded w prod.case sum.case] obtain d d' where
    d: "try_load doc io fs = (Inr d :: role_fault store_error + RoleDoc)" "roles_ok d" "f (recent_entries now d) = Inr (a, d')" "roles_ok d'"
      "fs' = fs\<lparr>fs_data := Some (Text (doc_to_json doc (doc_stamp doc d')))\<rparr>" by blast
  then show thesis by (intro that) simp_all
qed

lemma roles_write_failed:
  "roles_write doc io now f fs = (Inl e, fs') \<Longrightarrow> fs' = fs"
  by (auto simp: roles_write_def with_lock_strict_def with_lock_via_def with_file_lock_def doc_write_def
      split: if_splits sum.splits prod.splits)

lemma roles_write_keeps:
  assumes doc: "document (role_document show_time read_time) roles_ok" and f: "keeps_ok f" "touches h Q now f"
    and k: "keeps_entry (role_document show_time read_time) h Q since fs" and now: "since \<le> now" "now \<le> since + month"
    and w: "roles_write (role_document show_time read_time) io now f fs = (r, fs')"
  shows "keeps_entry (role_document show_time read_time) h Q since fs'"
proof (cases r)
  case (Inl e)
  with w have "fs' = fs" by (auto dest: roles_write_failed)
  with k show ?thesis by simp
next
  case (Inr a)
  from k obtain d e where d: "fs_data fs = Some (Text (doc_to_json (role_document show_time read_time) d))" "roles_ok d"
    "bt_get (rd_entries d) h = Some e" "Q e" "since \<le> re_at e"
    unfolding keeps_entry_def by blast
  from roles_write_landed [OF doc f(1) w [unfolded Inr]] obtain d1 d' where
    d': "try_load (role_document show_time read_time) io fs = (Inr d1 :: role_fault store_error + RoleDoc)" "f (recent_entries now d1) = Inr (a, d')"
      "roles_ok d'" "fs_data fs' = Some (Text (doc_to_json (role_document show_time read_time) (doc_stamp (role_document show_time read_time) d')))"
    by blast
  have "d1 = d" using loaded [OF doc d(2,1) d'(1)] .
  moreover have "bt_get (rd_entries (recent_entries now d)) h = Some e" using d(2,3,5) now by (intro recent_get) auto
  ultimately obtain e' where "bt_get (rd_entries d') h = Some e'" "Q e'" "e' = e \<or> re_at e' = now"
    using f(2) d(2,4) d'(2) recent_ok unfolding touches_def by blast
  then have "bt_get (rd_entries (d'\<lparr>rd_version := 1\<rparr>)) h = Some e' \<and> Q e' \<and> since \<le> re_at e'"
    using d(5) now(1) by auto
  moreover have "roles_ok (d'\<lparr>rd_version := 1\<rparr>)" using d'(3) by (simp add: roles_ok_def)
  ultimately show ?thesis
    using d'(4) unfolding keeps_entry_def by (auto simp: role_document_def)
qed

section \<open>Each operation\<close>

lemma record_ok: "keeps_ok (\<lambda>d. Inr ((), record_entry holder name checkout now d))"
  by (auto simp: keeps_ok_def record_entry_def)

lemma spawn_ok: "keeps_ok (\<lambda>d. Inr ((), spawn_entry l holder agent_type checkout now d))"
  by (auto simp: keeps_ok_def spawn_entry_def Let_def)

lemma nudge_entry_Inr:
  assumes "nudge_entry l facts holder now d = Inr (a, d')"
  obtains (quiet) "a = None" "d' = d"
  | (said) t where "a = Some t" "d' = put_entry holder ((entry_or_fresh d holder now)\<lparr>re_nudged := True, re_at := now\<rparr>) d"
      "\<forall>e. bt_get (rd_entries d) holder = Some e \<longrightarrow> \<not> re_nudged e"
      "\<not> ch_assigned (choose_role l holder (bt_get (rd_entries d) holder) None)"
  using assms by (auto simp: nudge_entry_def Let_def split: if_splits sum.splits option.splits)

lemma nudge_ok: "keeps_ok (nudge_entry l facts holder now)"
  by (auto simp: keeps_ok_def elim: nudge_entry_Inr)

lemma with_checkout_simps [simp]:
  "re_role (with_checkout c e) = re_role e" "re_nudged (with_checkout c e) = re_nudged e" "re_at (with_checkout c e) = re_at e"
  by (simp_all add: with_checkout_def split: option.split)

lemma nudged_touched:
  "touches h re_nudged now (\<lambda>d. Inr ((), record_entry holder name checkout now d))"
  "touches h re_nudged now (\<lambda>d. Inr ((), spawn_entry l holder agent_type checkout now d))"
  "touches h re_nudged now (nudge_entry l facts holder now)"
  by (auto simp: touches_def record_entry_def spawn_entry_def Let_def entry_or_fresh_def elim!: nudge_entry_Inr)

lemma role_touched:
  "holder \<noteq> h \<or> name = name' \<Longrightarrow> touches h (\<lambda>e. re_role e = Some name') now (\<lambda>d. Inr ((), record_entry holder name checkout now d))"
  "touches h (\<lambda>e. re_role e = Some name') now (\<lambda>d. Inr ((), spawn_entry l holder agent_type checkout now d))"
  "touches h (\<lambda>e. re_role e = Some name') now (nudge_entry l facts holder now)"
  by (auto simp: touches_def record_entry_def spawn_entry_def Let_def entry_or_fresh_def elim!: nudge_entry_Inr)

section \<open>Runs of calls\<close>

definition within :: "int \<Rightarrow> (io \<times> int \<times> role_request) list \<Rightarrow> bool" where
  "within since calls \<longleftrightarrow> (\<forall>c\<in>set calls. since \<le> fst (snd c) \<and> fst (snd c) \<le> since + month)"

definition records_other :: "Holder \<Rightarrow> string \<Rightarrow> role_request \<Rightarrow> bool" where
  "records_other h name c = (case c of CallRecord _ holder other _ \<Rightarrow> holder = h \<and> other \<noteq> name | _ \<Rightarrow> False)"

lemma nudged_kept:
  assumes "document (role_document show_time read_time) roles_ok" and "since \<le> now" "now \<le> since + month"
    and "keeps_entry (role_document show_time read_time) h re_nudged since fs"
  shows "keeps_entry (role_document show_time read_time) h re_nudged since (snd (role_call (role_document show_time read_time) (io, now, c) fs))"
proof -
  note keeps = roles_write_keeps [OF assms(1) _ _ assms(4,2,3) surjective_pairing]
  show ?thesis
  proof (cases c)
    case (CallRecord l holder name checkout)
    with keeps [OF record_ok nudged_touched(1)] assms(4) show ?thesis by (simp add: role_record_def)
  next
    case (CallSpawn l holder agent_type checkout)
    with keeps [OF spawn_ok nudged_touched(2)] show ?thesis by (simp add: role_spawn_def)
  next
    case (CallNudge l facts holder)
    with keeps [OF nudge_ok nudged_touched(3)] show ?thesis by (simp add: role_nudge_def)
  qed (use assms(4) in simp_all)
qed

lemma role_kept:
  assumes "document (role_document show_time read_time) roles_ok" and "since \<le> now" "now \<le> since + month"
    and "\<not> records_other h name c"
    and "keeps_entry (role_document show_time read_time) h (\<lambda>e. re_role e = Some name) since fs"
  shows "keeps_entry (role_document show_time read_time) h (\<lambda>e. re_role e = Some name) since
    (snd (role_call (role_document show_time read_time) (io, now, c) fs))"
proof -
  note keeps = roles_write_keeps [OF assms(1) _ _ assms(5,2,3) surjective_pairing]
  show ?thesis
  proof (cases c)
    case (CallRecord l holder other checkout)
    with assms(4) have "holder \<noteq> h \<or> other = name" by (auto simp: records_other_def)
    with keeps [OF record_ok role_touched(1)] assms(5) CallRecord show ?thesis by (simp add: role_record_def)
  next
    case (CallSpawn l holder agent_type checkout)
    with keeps [OF spawn_ok role_touched(2)] show ?thesis by (simp add: role_spawn_def)
  next
    case (CallNudge l facts holder)
    with keeps [OF nudge_ok role_touched(3)] show ?thesis by (simp add: role_nudge_def)
  qed (use assms(5) in simp_all)
qed

text \<open>The state a call of a run starts from.\<close>

fun state_at :: "RoleDoc document \<Rightarrow> (io \<times> int \<times> role_request) list \<Rightarrow> doc_fs \<Rightarrow> nat \<Rightarrow> doc_fs" where
  "state_at doc (c # cs) fs (Suc i) = state_at doc cs (snd (role_call doc c fs)) i"
| "state_at doc cs fs i = fs"

lemma role_calls_at:
  "i < length cs \<Longrightarrow> fst (role_calls doc cs fs) ! i = fst (role_call doc (cs ! i) (state_at doc cs fs i))"
proof (induction cs arbitrary: fs i)
  case (Cons c cs)
  then show ?case by (cases i) (auto simp: case_prod_beta)
qed simp

lemma state_at_keeps:
  assumes "\<And>c fs. c \<in> set cs \<Longrightarrow> P fs \<Longrightarrow> P (snd (role_call doc c fs))" and "P fs" and "i < length cs"
  shows "P (state_at doc cs fs i)"
  using assms by (induction doc cs fs i rule: state_at.induct) auto

section \<open>What a caller sees\<close>

lemma nudged_once_at:
  assumes doc: "document (role_document show_time read_time) roles_ok" and now: "since \<le> now" "now \<le> since + month"
    and k: "keeps_entry (role_document show_time read_time) h re_nudged since fs"
    and n: "role_nudge (role_document show_time read_time) io now l facts h fs = (Inr shown, fs')"
  shows "shown = None"
proof -
  from k obtain d e where d: "fs_data fs = Some (Text (doc_to_json (role_document show_time read_time) d))" "roles_ok d"
    "bt_get (rd_entries d) h = Some e" "re_nudged e" "since \<le> re_at e"
    unfolding keeps_entry_def by blast
  from roles_write_landed [OF doc nudge_ok n [unfolded role_nudge_def]] obtain d1 d' where
    d': "try_load (role_document show_time read_time) io fs = (Inr d1 :: role_fault store_error + RoleDoc)"
      "nudge_entry l facts h now (recent_entries now d1) = Inr (shown, d')" by blast
  have "d1 = d" using loaded [OF doc d(2,1) d'(1)] .
  moreover have "bt_get (rd_entries (recent_entries now d)) h = Some e" using d(2,3,5) now by (intro recent_get) auto
  ultimately show ?thesis using d'(2) d(4) by (auto elim: nudge_entry_Inr)
qed

lemma nudge_marks:
  assumes doc: "document (role_document show_time read_time) roles_ok"
    and n: "role_nudge (role_document show_time read_time) io now l facts h fs = (Inr (Some offer), fs')"
  shows "keeps_entry (role_document show_time read_time) h re_nudged now fs'"
proof -
  from roles_write_landed [OF doc nudge_ok n [unfolded role_nudge_def]] obtain d d' where
    d: "roles_ok d" "nudge_entry l facts h now (recent_entries now d) = Inr (Some offer, d')" "roles_ok d'"
    "fs_data fs' = Some (Text (doc_to_json (role_document show_time read_time) (doc_stamp (role_document show_time read_time) d')))" by blast
  from d(2) have "bt_get (rd_entries d') h = Some ((entry_or_fresh (recent_entries now d) h now)\<lparr>re_nudged := True, re_at := now\<rparr>)"
    by (rule nudge_entry_Inr) (use d(1) in auto)
  with d(3,4) show ?thesis
    unfolding keeps_entry_def
    by (intro exI [where x = "d'\<lparr>rd_version := 1\<rparr>"]
        exI [where x = "(entry_or_fresh (recent_entries now d) h now)\<lparr>re_nudged := True, re_at := now\<rparr>"])
      (simp add: role_document_def roles_ok_def)
qed

lemma record_marks:
  assumes doc: "document (role_document show_time read_time) roles_ok"
    and n: "role_record (role_document show_time read_time) io now l h name checkout fs = (Inr (), fs')"
  shows "keeps_entry (role_document show_time read_time) h (\<lambda>e. re_role e = Some name) now fs'"
proof -
  from n have w: "roles_write (role_document show_time read_time) io now (\<lambda>d. Inr ((), record_entry h name checkout now d)) fs = (Inr (), fs')"
    by (simp add: role_record_def split: if_splits)
  from roles_write_landed [OF doc record_ok w] obtain d d' where
    d: "roles_ok d" "d' = record_entry h name checkout now (recent_entries now d)" "roles_ok d'"
    "fs_data fs' = Some (Text (doc_to_json (role_document show_time read_time) (doc_stamp (role_document show_time read_time) d')))"
    by (metis Inr_inject Pair_inject)
  have "\<exists>e. bt_get (rd_entries d') h = Some e \<and> re_role e = Some name \<and> re_at e = now"
    using d(1) by (simp add: d(2) record_entry_def)
  then obtain e where "bt_get (rd_entries (d'\<lparr>rd_version := 1\<rparr>)) h = Some e" "re_role e = Some name" "now \<le> re_at e" by auto
  moreover have "roles_ok (d'\<lparr>rd_version := 1\<rparr>)" using d(3) by (simp add: roles_ok_def)
  ultimately show ?thesis using d(4) unfolding keeps_entry_def by (auto simp: role_document_def)
qed

lemma recorded_resolves:
  assumes doc: "document (role_document show_time read_time) roles_ok"
    and k: "keeps_entry (role_document show_time read_time) h (\<lambda>e. re_role e = Some name) since fs" and l: "role_of l name \<noteq> None"
    and r: "role_resolve (role_document show_time read_time) io l facts h agent_type fs = Inr r"
  shows "rr_name r = name \<and> rr_warning r = None"
proof -
  from k obtain d e where d: "fs_data fs = Some (Text (doc_to_json (role_document show_time read_time) d))" "roles_ok d"
    "bt_get (rd_entries d) h = Some e" "re_role e = Some name"
    unfolding keeps_entry_def by blast
  from r obtain d1 where d1: "roles_read (role_document show_time read_time) io fs = Inr d1"
    "resolve_choice l facts (choose_role l h (bt_get (rd_entries d1) h) agent_type) = Inr r"
    by (auto simp: role_resolve_def map_sum_Inr split: sum.splits)
  then have "try_load (role_document show_time read_time) io fs = (Inr d1 :: role_fault store_error + RoleDoc)"
    by (simp add: roles_read_def with_file_lock_def split: if_splits)
  then have "d1 = d" by (rule loaded [OF doc d(2,1)])
  with d1(2) d(3,4) l show ?thesis
    by (auto simp: choose_role_def resolve_choice_def Let_def split: option.splits sum.splits)
qed

text \<open>
  C21: a recorded role stays. Once \<open>record\<close> has answered, whatever calls any holders make in the next thirty days, and
  whatever faults the file has, every resolve of that holder that answers gives the recorded role, with no warning, as long
  as the layout has it and the holder records no other.
\<close>

theorem role_persists:
  assumes "\<forall>t. read_time (show_time t) = Some t"
    and "role_record (role_document show_time read_time) io now l h name checkout fs = (Inr (), fs1)"
    and "within now calls" and "\<forall>c\<in>set calls. \<not> records_other h name (snd (snd c))"
    and "i < length calls" and "calls ! i = (io', at, CallResolve l' facts h agent_type)" and "role_of l' name \<noteq> None"
    and "fst (role_calls (role_document show_time read_time) calls fs1) ! i = AnsResolved (Inr r)"
  shows "rr_name r = name \<and> rr_warning r = None"
proof -
  note doc = role_document_ok [OF assms(1)]
  let ?doc = "role_document show_time read_time"
  have "keeps_entry ?doc h (\<lambda>e. re_role e = Some name) now (snd (role_call ?doc c fs))"
    if "c \<in> set calls" "keeps_entry ?doc h (\<lambda>e. re_role e = Some name) now fs" for c fs
    using role_kept [OF doc, of now "fst (snd c)" h name "snd (snd c)" fs "fst c"] that assms(3,4) by (auto simp: within_def)
  from state_at_keeps [OF this record_marks [OF doc assms(2)] assms(5)]
  have "keeps_entry ?doc h (\<lambda>e. re_role e = Some name) now (state_at ?doc calls fs1 i)" .
  from recorded_resolves [OF doc this assms(7)] assms(5,6,8) show ?thesis by (simp add: role_calls_at)
qed

text \<open>
  C22: a holder is shown roles once. After a nudge that showed its text, no nudge of that holder in the next thirty days
  shows one again, whatever calls are made between them and whatever faults the file has.
\<close>

theorem nudged_once:
  assumes "\<forall>t. read_time (show_time t) = Some t"
    and "role_nudge (role_document show_time read_time) io now l facts h fs = (Inr (Some offer), fs1)"
    and "within now calls"
    and "i < length calls" and "calls ! i = (io', at, CallNudge l' facts' h)"
    and "fst (role_calls (role_document show_time read_time) calls fs1) ! i = AnsNudge (Inr again)"
  shows "again = None"
proof -
  note doc = role_document_ok [OF assms(1)]
  let ?doc = "role_document show_time read_time"
  have at: "now \<le> at" "at \<le> now + month" using assms(3-5) by (auto simp: within_def dest!: nth_mem)
  have "keeps_entry ?doc h re_nudged now (snd (role_call ?doc c fs))"
    if "c \<in> set calls" "keeps_entry ?doc h re_nudged now fs" for c fs
    using nudged_kept [OF doc, of now "fst (snd c)" h fs "fst c" "snd (snd c)"] that assms(3) by (auto simp: within_def)
  from state_at_keeps [OF this nudge_marks [OF doc assms(2)] assms(4)]
  have "keeps_entry ?doc h re_nudged now (state_at ?doc calls fs1 i)" .
  from nudged_once_at [OF doc at this] assms(4-6) show ?thesis by (simp add: role_calls_at map_prod_def split: prod.splits)
qed

section \<open>Under a checked configuration\<close>

lemma parse_scopes_checked:
  "\<forall>row\<in>set rows. \<exists>t. template_parse (sc_node (snd row)) = Inr t \<Longrightarrow> \<exists>ts. parse_scopes rows = Inr ts"
  by (induction rows rule: parse_scopes.induct) (auto split: sum.splits simp: map_sum_Inr)

lemma inserted_keys: "bt_get (fold (\<lambda>(k, v). bt_insert k v) rows m) k = None \<Longrightarrow> bt_get m k = None"
proof (induction rows arbitrary: m)
  case (Cons row rows)
  then have "bt_get (bt_insert (fst row) (snd row) m) k = None" by (cases row) auto
  then show ?case using bt_keys_insert [of "fst row" "snd row" m] by (auto simp: bt_get_None)
qed simp

lemma todo_config_layout:
  assumes "todo_config scopes roles = Inr config"
  obtains l where "layout_new config = Inr l" "role_of l ''main'' \<noteq> None" "role_of l ''subagent'' \<noteq> None"
proof -
  from assms have v: "validate_config config = Inr ()" and roles: "tc_roles config = fold (\<lambda>(k, v). bt_insert k v) roles default_roles"
    by (auto simp: todo_config_def Let_def map_sum_Inr)
  from v obtain roots where "validate_scopes (tc_scopes config) (tc_scopes config) [] = Inr roots"
    by (auto simp: validate_config_def split: sum.splits if_splits)
  from validate_scopes_ok [OF this] have "\<forall>row\<in>set (tc_scopes config). \<exists>t. template_parse (sc_node (snd row)) = Inr t"
    unfolding scope_row_ok_def by blast
  from parse_scopes_checked [OF this] obtain ts where ts: "parse_scopes (tc_scopes config) = Inr ts" by blast
  let ?l = "\<lparr>ly_config = config, ly_templates = ts\<rparr>"
  have "bt_get default_roles ''main'' \<noteq> None" "bt_get default_roles ''subagent'' \<noteq> None"
    by (simp_all add: default_roles_def bt_get_def)
  then have "role_of ?l ''main'' \<noteq> None" "role_of ?l ''subagent'' \<noteq> None"
    unfolding role_of_def by (simp_all add: roles) (metis inserted_keys not_Some_eq)+
  moreover have "layout_new config = Inr ?l" by (simp add: layout_new_def v ts)
  ultimately show thesis using that by blast
qed

lemma chosen_exists:
  assumes "role_of l ''main'' \<noteq> None" and "role_of l ''subagent'' \<noteq> None"
  shows "role_of l (ch_name (choose_role l holder entry agent_type)) \<noteq> None"
proof -
  have "role_of l name \<noteq> None" if "find P (tc_roles (ly_config l)) = Some (name, r)" for P name r
    using find_Some_set [OF that] by (auto simp: role_of_def bt_get_None intro: rev_image_eqI)
  with assms show ?thesis by (auto simp: choose_role_def Let_def bind_eq_Some_conv split: option.splits)
qed

lemma role_row_fills:
  assumes "layout_new config = Inr l" and "(name, r) \<in> set (tc_roles (ly_config l))"
  shows "\<exists>node. node_for l facts (rc_scope r) = Inr node"
proof -
  from assms(1) have v: "validate_config config = Inr ()" and l: "ly_config l = config"
    by (auto simp: layout_new_def map_sum_Inr split: sum.splits)
  then have "validate_roles config (tc_roles config) [] = Inr ()"
    by (auto simp: validate_config_def split: sum.splits if_splits)
  with validate_roles_ok assms(2) l have at: "scope_at l (rc_scope r) \<noteq> None" by fastforce
  note ok = layout_new_ok [OF assms(1)]
  from filled_scope_ends [OF ok layout_climbs [OF ok at] at, of "ft_values facts"] show ?thesis
    by (auto simp: node_for_def layout_fill_def)
qed

lemma candidate_texts_exist:
  assumes "layout_new config = Inr l" and "set rows \<subseteq> set (tc_roles (ly_config l))"
  shows "\<exists>ts. candidate_texts l facts rows = Inr ts"
  using assms(2)
proof (induction rows)
  case (Cons row rows)
  then obtain node ts where "node_for l facts (rc_scope (snd row)) = Inr node" "candidate_texts l facts rows = Inr ts"
    using role_row_fills [OF assms(1), of "fst row" "snd row" facts] by auto
  then show ?case by (cases row) simp
qed simp

lemma role_node: "layout_new config = Inr l \<Longrightarrow> role_of l name = Some r \<Longrightarrow> \<exists>node. node_for l facts (rc_scope r) = Inr node"
  using role_row_fills bt_get_in_set by (fastforce simp: role_of_def)

lemma nudge_entry_total:
  assumes "layout_new config = Inr l" and "role_of l ''main'' \<noteq> None" and "role_of l ''subagent'' \<noteq> None"
  shows "\<exists>x. nudge_entry l facts holder now d = Inr x"
proof -
  define current where "current = choose_role l holder (bt_get (rd_entries d) holder) None"
  obtain r node where "role_of l (ch_name current) = Some r" "node_for l facts (rc_scope r) = Inr node"
    using chosen_exists [OF assms(2,3)] role_node [OF assms(1)] unfolding current_def by blast
  moreover obtain ts where "candidate_texts l facts (filter (candidate facts
      (ch_name (choose_role l (session_of holder) (bt_get (rd_entries d) (session_of holder)) None))) (tc_roles (ly_config l))) = Inr ts"
    using candidate_texts_exist [OF assms(1)] by (meson filter_is_subset)
  ultimately show ?thesis by (simp add: nudge_entry_def Let_def current_def [symmetric])
qed

text \<open>
  C18: a configuration that was read always has a layout, and no call on it fails for the layout's sake. Whatever is known of
  the caller, every role has a node to write to, sees that node and the ones above it, and has its hold decided; the walk
  up from any scope of the layout ends, adding nodes to the ones it was given. A resolve, a spawn and a nudge
  fail only where the store of roles does; a recording also fails for a caller at a terminal, and for a name that is no role.
\<close>

theorem layout_serves_every_caller:
  assumes "todo_config scopes roles = Inr config"
  shows "\<exists>l. layout_new config = Inr l
    \<and> (\<forall>role r facts. role_of l role = Some r \<longrightarrow> (\<exists>own nodes hold. layout_fill l facts (rc_scope r) = Some (Inr own)
        \<and> visible l facts role = Some (Inr (Exact own # nodes)) \<and> role_hold_pending l facts role = Some (Inr hold)))
    \<and> (\<forall>scope facts nodes. scope_at l scope \<noteq> None \<longrightarrow>
        (\<exists>above. parents_up l facts (Some scope) nodes = Some (Inr (nodes @ above))))
    \<and> (\<forall>doc io now holder name checkout fs e. fst (role_record doc io now l holder name checkout fs) = Inl (Op e) \<longleftrightarrow>
        (if is_human holder then e = TerminalCaller else role_of l name = None \<and> e = NoSuchRole name))
    \<and> (\<forall>doc io now holder agent_type checkout fs e. fst (role_spawn doc io now l holder agent_type checkout fs) \<noteq> Inl (Op e))
    \<and> (\<forall>doc io facts holder agent_type fs e. role_resolve doc io l facts holder agent_type fs \<noteq> Inl (Op e))
    \<and> (\<forall>doc io now facts holder fs e. fst (role_nudge doc io now l facts holder fs) \<noteq> Inl (Op e))"
proof -
  obtain l where l: "layout_new config = Inr l" "role_of l ''main'' \<noteq> None" "role_of l ''subagent'' \<noteq> None"
    using assms by (rule todo_config_layout)
  have no_op: "(try_load doc io fs :: role_fault store_error + RoleDoc) \<noteq> Inl (Op e)" for doc io fs e
    by (auto simp: try_load_def read_strict_def split: sum.splits option.splits if_splits)
  have "role_resolve doc io l facts holder agent_type fs \<noteq> Inl (Op e)" for doc io facts holder agent_type fs e
  proof -
    have "\<exists>x. resolve_choice l facts (choose_role l holder entry agent_type) = Inr x" for entry
    proof -
      obtain r where r: "role_of l (ch_name (choose_role l holder entry agent_type)) = Some r"
        using chosen_exists [OF l(2,3)] by blast
      from roles_have_nodes [OF l(1) r, of facts] obtain node hold where
        "layout_fill l facts (rc_scope r) = Some (Inr node)"
        "role_hold_pending l facts (ch_name (choose_role l holder entry agent_type)) = Some (Inr hold)" by blast
      with r show ?thesis by (simp add: resolve_choice_def node_for_def pending_for_def)
    qed
    then show ?thesis
      using no_op [of doc io fs e]
      by (auto simp: role_resolve_def roles_read_def with_file_lock_def split: sum.splits dest: sym)
        (metis map_sum.simps(2) old.sum.distinct(1))+
  qed
  moreover have "fst (role_nudge doc io now l facts holder fs) \<noteq> Inl (Op e)" for doc io now facts holder fs e
  proof -
    have "\<forall>d. \<exists>x. nudge_entry l facts holder now d = Inr x" using nudge_entry_total [OF l] by blast
    then show ?thesis
      using no_op [of doc io fs e]
      by (auto simp: role_nudge_def roles_write_def with_lock_strict_def with_lock_via_def with_file_lock_def doc_write_def
          split: sum.splits prod.splits) (metis old.sum.distinct(1))+
  qed
  moreover have writes_only: "fst (roles_write doc io now (\<lambda>d. Inr ((), f d)) fs) \<noteq> Inl (Op e)" for doc io now f fs e
    using no_op [of doc io fs e]
    by (auto simp: roles_write_def with_lock_strict_def with_lock_via_def with_file_lock_def doc_write_def
        split: sum.splits prod.splits)
  then have "fst (role_spawn doc io now l holder agent_type checkout fs) \<noteq> Inl (Op e)" for doc io now holder agent_type checkout fs e
    by (simp add: role_spawn_def)
  moreover have "fst (role_record doc io now l holder name checkout fs) = Inl (Op e) \<longleftrightarrow>
      (if is_human holder then e = TerminalCaller else role_of l name = None \<and> e = NoSuchRole name)"
    for doc io now holder name checkout fs e
    using writes_only by (auto simp: role_record_def)
  moreover have "\<exists>above. parents_up l facts (Some scope) nodes = Some (Inr (nodes @ above))"
    if "scope_at l scope \<noteq> None" for scope facts nodes
    by (rule parents_up_ends [OF layout_new_ok [OF l(1)] layout_climbs [OF layout_new_ok [OF l(1)] that] that])
  moreover note roles_have_nodes [OF l(1)]
  ultimately show ?thesis using l(1) by blast
qed

section \<open>A worked example\<close>

definition demo_show :: "int \<Rightarrow> string" where
  "demo_show t = (if t < 0 then CHR ''-'' # dec (nat (- t)) else dec (nat t))"

definition demo_read :: "string \<Rightarrow> int option" where
  "demo_read s = (case strip_prefix [CHR ''-''] s of
     Some ds \<Rightarrow> map_option (\<lambda>n. - int n) (undec 0 ds)
   | None \<Rightarrow> map_option int (undec 0 s))"

lemma demo_times: "\<forall>t. demo_read (demo_show t) = Some t"
proof
  fix t
  show "demo_read (demo_show t) = Some t"
  proof (cases "t < 0")
    case True
    then show ?thesis by (simp add: demo_read_def demo_show_def undec_dec_acc)
  next
    case False
    have "dec (nat t) \<noteq> CHR ''-'' # cs" for cs
      using undec_dec_acc [of "nat t"] by (auto simp: digit_val_def)
    then have "strip_prefix [CHR ''-''] (dec (nat t)) = None"
      by (cases "dec (nat t)") auto
    with False show ?thesis by (simp add: demo_read_def demo_show_def undec_dec_acc)
  qed
qed

abbreviation demo_roles :: "RoleDoc document" where
  "demo_roles \<equiv> role_document demo_show demo_read"

definition review_config :: TodoConfig where
  "review_config = (case todo_config [] [(''review'', \<lparr>rc_scope = ''workspace'', rc_parent = None, rc_agent_types = [],
     rc_hold_pending = None\<rparr>)] of Inr c \<Rightarrow> c | Inl _ \<Rightarrow> \<lparr>tc_scopes = [], tc_roles = []\<rparr>)"

definition review_layout :: Layout where
  "review_layout = (case layout_new review_config of Inr l \<Rightarrow> l | Inl _ \<Rightarrow> \<lparr>ly_config = review_config, ly_templates = []\<rparr>)"

definition review_facts :: Facts where
  "review_facts = facts_of (Workspace ''devkit'' ''main'') (Some \<lparr>se_harness = Claude, se_id = ''S''\<rparr>) ''S''"

abbreviation no_roles :: doc_fs where
  "no_roles \<equiv> \<lparr>fs_data = None, fs_bak = None\<rparr>"

theorem layout_serves_every_caller_witness:
  "\<exists>l. layout_new review_config = Inr l
    \<and> (\<forall>e. role_resolve demo_roles clean_io l review_facts ''S'' None no_roles \<noteq> Inl (Op e))"
proof -
  have "case todo_config [] [(''review'', \<lparr>rc_scope = ''workspace'', rc_parent = None, rc_agent_types = [], rc_hold_pending = None\<rparr>)] of
      Inr _ \<Rightarrow> True | Inl _ \<Rightarrow> False" by code_simp
  then have "todo_config [] [(''review'', \<lparr>rc_scope = ''workspace'', rc_parent = None, rc_agent_types = [], rc_hold_pending = None\<rparr>)]
      = Inr review_config" by (simp add: review_config_def split: sum.splits)
  from layout_serves_every_caller [OF this] show ?thesis by (elim exE conjE) (intro exI conjI allI, assumption, elim allE, assumption)
qed

theorem nudged_once_witness:
  "\<exists>offer fs. role_nudge demo_roles clean_io 0 review_layout review_facts ''S'' no_roles = (Inr (Some offer), fs)
    \<and> fst (role_calls demo_roles [(clean_io, 5, CallNudge review_layout review_facts ''S'')] fs) = [AnsNudge (Inr None)]"
proof -
  have "case role_nudge demo_roles clean_io 0 review_layout review_facts ''S'' no_roles of
      (Inr (Some offer), fs) \<Rightarrow>
        (case role_nudge demo_roles clean_io 5 review_layout review_facts ''S'' fs of (Inr _, _) \<Rightarrow> True | _ \<Rightarrow> False)
    | _ \<Rightarrow> False" by code_simp
  then obtain offer fs again fs' where
    n: "role_nudge demo_roles clean_io 0 review_layout review_facts ''S'' no_roles = (Inr (Some offer), fs)"
      "role_nudge demo_roles clean_io 5 review_layout review_facts ''S'' fs = (Inr again, fs')"
    by (auto split: prod.splits sum.splits option.splits)
  have calls: "fst (role_calls demo_roles [(clean_io, 5, CallNudge review_layout review_facts ''S'')] fs) = [AnsNudge (Inr again)]"
    by (simp add: n(2))
  have "again = None"
    by (rule nudged_once [OF demo_times n(1), of "[(clean_io, 5, CallNudge review_layout review_facts ''S'')]" 0])
      (simp_all add: within_def month_def n(2))
  with n(1) calls show ?thesis by blast
qed

theorem role_persists_witness:
  "\<exists>fs r. role_record demo_roles clean_io 0 review_layout ''S'' ''review'' None no_roles = (Inr (), fs)
    \<and> fst (role_calls demo_roles [(clean_io, 5, CallResolve review_layout review_facts ''S'' None)] fs) = [AnsResolved (Inr r)]
    \<and> rr_name r = ''review''"
proof -
  have "case role_record demo_roles clean_io 0 review_layout ''S'' ''review'' None no_roles of
      (Inr _, fs) \<Rightarrow>
        (case role_resolve demo_roles clean_io review_layout review_facts ''S'' None fs of Inr _ \<Rightarrow> True | _ \<Rightarrow> False)
    | _ \<Rightarrow> False" by code_simp
  then obtain fs r where
    n: "role_record demo_roles clean_io 0 review_layout ''S'' ''review'' None no_roles = (Inr (), fs)"
      "role_resolve demo_roles clean_io review_layout review_facts ''S'' None fs = Inr r"
    by (auto split: prod.splits sum.splits option.splits)
  have there: "role_of review_layout ''review'' \<noteq> None"
    using n(1) by (auto simp: role_record_def split: if_splits)
  have "rr_name r = ''review'' \<and> rr_warning r = None"
    by (rule role_persists [OF demo_times n(1), of "[(clean_io, 5, CallResolve review_layout review_facts ''S'' None)]" 0])
      (use there in \<open>simp_all add: within_def month_def n(2) records_other_def\<close>)
  with n show ?thesis by (intro exI [where x = fs] exI [where x = r]) simp
qed

end
