(* ===== verification/Todo_Activity.thy ===== *)
theory Todo_Activity
  imports Todo_Model "HOL-Library.AList"
begin

text \<open>
  Subagent runs, claim intervals and sessions (\<open>crates/devkit-todo/src/activity.rs\<close>): the log of events, the marks of the
  last hook of each agent, the records paired from them, and the store that logs the claims its edits make.

  A time is an integer count of nanoseconds. The log is the list of the events its lines parse to, in the order they were
  appended; the marks are the files under \<open>seen\<close>, by the names they have there, in the order the directory lists them.
  A hash map is an association list. Whether bytes are UTF-8 is the argument \<open>utf8\<close>.
\<close>

section \<open>Events and records\<close>

datatype ClaimEnd = EndCompleted | EndCancelled | EndReleased | EndHanded

datatype RunEnd = Stopped | SessionEnded | Lost

datatype What =
    SessionStart string
  | SubagentStart string string "string option"
  | SubagentStop string string "string option"
  | SessionEnd string
  | Claim string string Holder
  | Unclaim string Holder ClaimEnd

record ActEvent =
  ev_at :: int
  ev_what :: What

record ActRun =
  ru_session :: string
  ru_agent :: string
  ru_agent_type :: "string option"
  ru_start :: int
  ru_end :: "int option"
  ru_outcome :: "RunEnd option"

record Interval =
  iv_todo :: string
  iv_node :: string
  iv_holder :: Holder
  iv_start :: int
  iv_end :: "int option"
  iv_outcome :: "ClaimEnd option"

record Session =
  ss_session :: string
  ss_first :: int
  ss_last_seen :: "int option"
  ss_ended :: "int option"

datatype SessionState = Ended int | Silent int | Active

record Activity =
  ac_runs :: "ActRun list"
  ac_claims :: "Interval list"
  ac_sessions :: "Session list"
  ac_as_of :: int

record Seen =
  sn_session :: string
  sn_agent :: string
  sn_at :: int

definition backstop :: int where
  "backstop = 30 * 60 * 10 ^ 9"

definition main_agent :: string where
  "main_agent = []"

definition run_label :: "ActRun \<Rightarrow> string" where
  "run_label r = (case ru_agent_type r of Some t \<Rightarrow> t | None \<Rightarrow> ''subagent'')"

definition session_state_at :: "Session \<Rightarrow> int \<Rightarrow> SessionState" where
  "session_state_at s now =
     (case (ss_last_seen s, ss_ended s) of
        (None, Some at) \<Rightarrow> Ended at
      | (Some seen, Some at) \<Rightarrow> if seen \<le> at then Ended at else if backstop < now - seen then Silent seen else Active
      | (Some seen, None) \<Rightarrow> if backstop < now - seen then Silent seen else Active
      | (None, None) \<Rightarrow> Active)"

definition later :: "int option \<Rightarrow> int \<Rightarrow> int option" where
  "later t at = Some (case t of None \<Rightarrow> at | Some t \<Rightarrow> max t at)"

definition session_last :: "Session \<Rightarrow> int" where
  "session_last s =
     (case (ss_last_seen s, ss_ended s) of
        (Some a, Some b) \<Rightarrow> max a b | (Some a, None) \<Rightarrow> a | (None, Some b) \<Rightarrow> b | (None, None) \<Rightarrow> ss_first s)"

section \<open>Sessions\<close>

text \<open>The sessions in order of first sight, and where each one is in the list.\<close>

type_synonym sightings = "Session list \<times> (string \<times> nat) list"

definition sight :: "bool \<Rightarrow> int \<Rightarrow> Session \<Rightarrow> Session" where
  "sight ends at s =
     (let s = s\<lparr>ss_first := min (ss_first s) at\<rparr> in
      if ends then s\<lparr>ss_ended := later (ss_ended s) at\<rparr> else s\<lparr>ss_last_seen := later (ss_last_seen s) at\<rparr>)"

definition note_session :: "string \<Rightarrow> int \<Rightarrow> bool \<Rightarrow> sightings \<Rightarrow> sightings" where
  "note_session session at ends st =
     (case st of (sessions, index) \<Rightarrow>
        (case map_of index session of
           Some i \<Rightarrow> (sessions[i := sight ends at (sessions ! i)], index)
         | None \<Rightarrow> (sessions @ [sight ends at \<lparr>ss_session = session, ss_first = at, ss_last_seen = None, ss_ended = None\<rparr>],
                    (session, length sessions) # index)))"

definition note_event :: "ActEvent \<Rightarrow> sightings \<Rightarrow> sightings" where
  "note_event e st =
     (case ev_what e of
        SessionStart session \<Rightarrow> note_session session (ev_at e) False st
      | SubagentStart session _ _ \<Rightarrow> note_session session (ev_at e) False st
      | SubagentStop session _ _ \<Rightarrow> note_session session (ev_at e) False st
      | SessionEnd session \<Rightarrow> note_session session (ev_at e) True st
      | Claim _ _ holder \<Rightarrow> if \<not> is_human holder then note_session (session_of holder) (ev_at e) False st else st
      | Unclaim _ _ _ \<Rightarrow> st)"

definition sessions_of :: "ActEvent list \<Rightarrow> Seen list \<Rightarrow> Session list" where
  "sessions_of events seen =
     sort_key ss_first (fst (fold (\<lambda>m. note_session (sn_session m) (sn_at m) False) seen (fold note_event events ([], []))))"

section \<open>Runs and claims\<close>

record Deriving =
  dv_runs :: "ActRun list"
  dv_claims :: "Interval list"
  dv_open_runs :: "((string \<times> string) \<times> nat) list"
  dv_open_claims :: "(string \<times> nat) list"

definition close_run :: "int \<Rightarrow> RunEnd \<Rightarrow> ActRun \<Rightarrow> ActRun" where
  "close_run at outcome r = r\<lparr>ru_end := Some at, ru_outcome := Some outcome\<rparr>"

definition close_claim :: "int \<Rightarrow> ClaimEnd \<Rightarrow> Interval \<Rightarrow> Interval" where
  "close_claim at outcome c = c\<lparr>iv_end := Some at, iv_outcome := Some outcome\<rparr>"

definition end_run :: "(string \<times> string) \<Rightarrow> int \<Rightarrow> RunEnd \<Rightarrow> Deriving \<Rightarrow> Deriving" where
  "end_run key at outcome dv =
     (case map_of (dv_open_runs dv) key of
        Some i \<Rightarrow> dv\<lparr>dv_runs := (dv_runs dv)[i := close_run at outcome (dv_runs dv ! i)],
                      dv_open_runs := AList.delete key (dv_open_runs dv)\<rparr>
      | None \<Rightarrow> dv)"

definition end_claim :: "string \<Rightarrow> int \<Rightarrow> ClaimEnd \<Rightarrow> Deriving \<Rightarrow> Deriving" where
  "end_claim todo at outcome dv =
     (case map_of (dv_open_claims dv) todo of
        Some i \<Rightarrow> dv\<lparr>dv_claims := (dv_claims dv)[i := close_claim at outcome (dv_claims dv ! i)],
                      dv_open_claims := AList.delete todo (dv_open_claims dv)\<rparr>
      | None \<Rightarrow> dv)"

definition start_run :: "string \<Rightarrow> string \<Rightarrow> string option \<Rightarrow> int \<Rightarrow> Deriving \<Rightarrow> Deriving" where
  "start_run session agent agent_type at dv =
     (if map_of (dv_open_runs dv) (session, agent) \<noteq> None then dv
      else dv\<lparr>dv_runs := dv_runs dv @ [\<lparr>ru_session = session, ru_agent = agent, ru_agent_type = agent_type, ru_start = at,
                ru_end = None, ru_outcome = None\<rparr>],
              dv_open_runs := ((session, agent), length (dv_runs dv)) # dv_open_runs dv\<rparr>)"

definition start_claim :: "string \<Rightarrow> string \<Rightarrow> Holder \<Rightarrow> int \<Rightarrow> Deriving \<Rightarrow> Deriving" where
  "start_claim todo node holder at dv =
     dv\<lparr>dv_claims := dv_claims dv @ [\<lparr>iv_todo = todo, iv_node = node, iv_holder = holder, iv_start = at, iv_end = None,
          iv_outcome = None\<rparr>],
        dv_open_claims := (todo, length (dv_claims dv)) # dv_open_claims dv\<rparr>"

definition derive_event :: "ActEvent \<Rightarrow> Deriving \<Rightarrow> Deriving" where
  "derive_event e dv =
     (case ev_what e of
        SubagentStart session agent agent_type \<Rightarrow> start_run session agent agent_type (ev_at e) dv
      | SubagentStop session agent _ \<Rightarrow> end_run (session, agent) (ev_at e) Stopped dv
      | SessionEnd session \<Rightarrow>
          fold (\<lambda>key. end_run key (ev_at e) SessionEnded) (filter (\<lambda>key. fst key = session) (map fst (dv_open_runs dv))) dv
      | Claim todo node holder \<Rightarrow> start_claim todo node holder (ev_at e) (end_claim todo (ev_at e) EndHanded dv)
      | Unclaim todo _ outcome \<Rightarrow> end_claim todo (ev_at e) outcome dv
      | SessionStart _ \<Rightarrow> dv)"

definition derive :: "ActEvent list \<Rightarrow> Deriving" where
  "derive events = fold derive_event events \<lparr>dv_runs = [], dv_claims = [], dv_open_runs = [], dv_open_claims = []\<rparr>"

text \<open>The last mark of an agent in the list is the one its map keeps.\<close>

definition mark_of :: "Seen list \<Rightarrow> string \<times> string \<rightharpoonup> int" where
  "mark_of seen = map_of (rev (map (\<lambda>m. ((sn_session m, sn_agent m), sn_at m)) seen))"

definition judge_run :: "Seen list \<Rightarrow> int \<Rightarrow> ActRun \<Rightarrow> ActRun" where
  "judge_run seen now r =
     (if ru_end r \<noteq> None then r
      else
        let last = (case mark_of seen (ru_session r, ru_agent r) of None \<Rightarrow> ru_start r | Some at \<Rightarrow> max at (ru_start r))
        in if backstop < now - last then r\<lparr>ru_end := Some last, ru_outcome := Some Lost\<rparr> else r)"

definition activity_of :: "ActEvent list \<Rightarrow> Seen list \<Rightarrow> int \<Rightarrow> Activity" where
  "activity_of events seen now =
     (let events = sort_key ev_at events; dv = derive events
      in \<lparr>ac_runs = map (judge_run seen now) (dv_runs dv), ac_claims = dv_claims dv, ac_sessions = sessions_of events seen,
          ac_as_of = now\<rparr>)"

definition holder_state :: "Activity \<Rightarrow> Holder \<Rightarrow> SessionState option" where
  "holder_state a holder =
     map_option (\<lambda>s. session_state_at s (ac_as_of a)) (find (\<lambda>s. ss_session s = session_of holder) (ac_sessions a))"

section \<open>The log in a directory\<close>

definition plain_byte :: "char \<Rightarrow> bool" where
  "plain_byte c = (let n = of_char c :: nat in
     (97 \<le> n \<and> n \<le> 122) \<or> (65 \<le> n \<and> n \<le> 90) \<or> (48 \<le> n \<and> n \<le> 57) \<or> c = CHR ''_'' \<or> c = CHR ''-'')"

definition hex_upper :: "nat \<Rightarrow> char" where
  "hex_upper n = char_of (if n < 10 then 48 + n else 55 + n)"

definition segment :: "string \<Rightarrow> string" where
  "segment i = concat (map (\<lambda>c. if plain_byte c then [c]
     else [CHR ''%'', hex_upper (of_char c div 16), hex_upper (of_char c mod 16)]) i)"

text \<open>\<open>u8::from_str_radix\<close> on two bytes: digits of either case, and a plus sign before one digit.\<close>

definition hex_value :: "char \<Rightarrow> nat option" where
  "hex_value c = (let n = of_char c :: nat in
     if 48 \<le> n \<and> n \<le> 57 then Some (n - 48)
     else if 97 \<le> n \<and> n \<le> 102 then Some (n - 87)
     else if 65 \<le> n \<and> n \<le> 70 then Some (n - 55)
     else None)"

definition hex_pair :: "char \<Rightarrow> char \<Rightarrow> nat option" where
  "hex_pair a b =
     (if a = CHR ''+'' then hex_value b
      else case (hex_value a, hex_value b) of (Some x, Some y) \<Rightarrow> Some (16 * x + y) | _ \<Rightarrow> None)"

fun unsegment_bytes :: "string \<Rightarrow> string option" where
  "unsegment_bytes [] = Some []"
| "unsegment_bytes (c # rest) =
     (if c = CHR ''%'' then
        (case rest of
           a # b # rest' \<Rightarrow> (case hex_pair a b of Some n \<Rightarrow> map_option (Cons (char_of n)) (unsegment_bytes rest') | None \<Rightarrow> None)
         | _ \<Rightarrow> None)
      else if plain_byte c then map_option (Cons c) (unsegment_bytes rest)
      else None)"

definition unsegment :: "(string \<Rightarrow> bool) \<Rightarrow> string \<Rightarrow> string option" where
  "unsegment utf8 name = (case unsegment_bytes name of Some bytes \<Rightarrow> if utf8 bytes then Some bytes else None | None \<Rightarrow> None)"

definition main_file :: string where
  "main_file = ''@main''"

record ActivityLog =
  lg_events :: "ActEvent list"
  lg_seen :: "((string \<times> string) \<times> int) list"

text \<open>Every operation is told whether the file system let it: one that failed leaves the directory as it was.\<close>

definition log_record :: "bool \<Rightarrow> ActEvent \<Rightarrow> ActivityLog \<Rightarrow> ActivityLog" where
  "log_record ok e l = (if ok then l\<lparr>lg_events := lg_events l @ [e]\<rparr> else l)"

fun log_record_all :: "bool list \<Rightarrow> ActEvent list \<Rightarrow> ActivityLog \<Rightarrow> ActivityLog" where
  "log_record_all (ok # oks) (e # es) l = (if ok then log_record_all oks es (log_record True e l) else l)"
| "log_record_all _ _ l = l"

definition agent_file :: "string \<Rightarrow> string" where
  "agent_file agent = (if agent = main_agent then main_file else segment agent)"

definition log_seen_at :: "bool \<Rightarrow> string \<Rightarrow> string \<Rightarrow> int \<Rightarrow> ActivityLog \<Rightarrow> ActivityLog" where
  "log_seen_at ok session agent at l =
     (if ok then l\<lparr>lg_seen := AList.update (segment session, agent_file agent) at (lg_seen l)\<rparr> else l)"

definition log_forget :: "bool \<Rightarrow> string \<Rightarrow> string option \<Rightarrow> ActivityLog \<Rightarrow> ActivityLog" where
  "log_forget ok session agent l =
     (if \<not> ok then l
      else case agent of
        Some a \<Rightarrow> l\<lparr>lg_seen := AList.delete (segment session, agent_file a) (lg_seen l)\<rparr>
      | None \<Rightarrow> l\<lparr>lg_seen := filter (\<lambda>m. fst (fst m) \<noteq> segment session) (lg_seen l)\<rparr>)"

definition log_marks :: "(string \<Rightarrow> bool) \<Rightarrow> ActivityLog \<Rightarrow> Seen list" where
  "log_marks utf8 l =
     List.map_filter (\<lambda>((dir, name), at).
       case (unsegment utf8 dir, if name = main_file then Some main_agent else unsegment utf8 name) of
         (Some session, Some agent) \<Rightarrow> Some \<lparr>sn_session = session, sn_agent = agent, sn_at = at\<rparr>
       | _ \<Rightarrow> None) (lg_seen l)"

definition log_read :: "(string \<Rightarrow> bool) \<Rightarrow> ActivityLog \<Rightarrow> int \<Rightarrow> Activity" where
  "log_read utf8 l now = activity_of (lg_events l) (log_marks utf8 l) now"

section \<open>A store whose claims are logged\<close>

definition claim_events :: "StatusChange \<Rightarrow> What list" where
  "claim_events change =
     (let unclaim = (\<lambda>holder outcome. Unclaim (sc_todo change) holder outcome);
          claim = (\<lambda>holder. Claim (sc_todo change) (sc_node change) holder)
      in case (sc_from change, sc_to change) of
           (InProgress by, Some (InProgress to)) \<Rightarrow> if by \<noteq> to then [unclaim by EndHanded, claim to] else []
         | (InProgress by, Some (Completed _)) \<Rightarrow> [unclaim by EndCompleted]
         | (InProgress by, Some (Cancelled _)) \<Rightarrow> [unclaim by EndCancelled]
         | (InProgress by, None) \<Rightarrow> [unclaim by EndCancelled]
         | (InProgress by, Some Pending) \<Rightarrow> [unclaim by EndReleased]
         | (_, Some (InProgress by)) \<Rightarrow> [claim by]
         | _ \<Rightarrow> [])"

definition change_events :: "StatusChange list \<Rightarrow> ActEvent list" where
  "change_events changes =
     concat (map (\<lambda>c. map (\<lambda>what. \<lparr>ev_at = sc_at c, ev_what = what\<rparr>) (claim_events c)) changes)"

definition recorded_apply :: "(Edit \<Rightarrow> 's \<Rightarrow> ('e + StatusChange list) \<times> 's) \<Rightarrow> (ActEvent list \<Rightarrow> 'l \<Rightarrow> 'l) \<Rightarrow>
    Edit \<Rightarrow> 's \<times> 'l \<Rightarrow> ('e + StatusChange list) \<times> 's \<times> 'l" where
  "recorded_apply apply_edit record_all edit st =
     (case apply_edit edit (fst st) of
        (Inl e, s) \<Rightarrow> (Inl e, s, snd st)
      | (Inr changes, s) \<Rightarrow>
          (Inr changes, s, if change_events changes = [] then snd st else record_all (change_events changes) (snd st)))"

end
