(* ===== verification/Todo_Activity_Safety.thy ===== *)
theory Todo_Activity_Safety
  imports Todo_Activity Todo_Store_Ids
begin

text \<open>
  What the activity records promise: the intervals of one todo never overlap, and a run is open exactly while its agent
  shows signs of life.
\<close>

section \<open>Open claims\<close>

definition claims_ok :: "Deriving \<Rightarrow> bool" where
  "claims_ok dv \<longleftrightarrow> distinct (map fst (dv_open_claims dv))
     \<and> (\<forall>row\<in>set (dv_open_claims dv). snd row < length (dv_claims dv) \<and> iv_todo (dv_claims dv ! snd row) = fst row
          \<and> iv_end (dv_claims dv ! snd row) = None)
     \<and> (\<forall>i<length (dv_claims dv). iv_end (dv_claims dv ! i) = None \<longrightarrow> (iv_todo (dv_claims dv ! i), i) \<in> set (dv_open_claims dv))"

text \<open>The intervals of one todo, each closed before the next begins, and nothing later than \<open>til\<close>.\<close>

definition spans_ok :: "int \<Rightarrow> Interval list \<Rightarrow> bool" where
  "spans_ok til cs \<longleftrightarrow>
     (\<forall>i<length cs. iv_start (cs ! i) \<le> til \<and> (\<forall>e. iv_end (cs ! i) = Some e \<longrightarrow> iv_start (cs ! i) \<le> e \<and> e \<le> til))
     \<and> (\<forall>i j. i < j \<longrightarrow> j < length cs \<longrightarrow> iv_todo (cs ! i) = iv_todo (cs ! j) \<longrightarrow>
          (\<exists>e. iv_end (cs ! i) = Some e \<and> e \<le> iv_start (cs ! j)))"

lemma map_update_self: "(map f xs)[i := f (xs ! i)] = map f xs"
  by (metis list_update_id map_update)

lemma end_claim_other [simp]:
  "dv_runs (end_claim todo at outcome dv) = dv_runs dv" "dv_open_runs (end_claim todo at outcome dv) = dv_open_runs dv"
  "map iv_todo (dv_claims (end_claim todo at outcome dv)) = map iv_todo (dv_claims dv)"
  "length (dv_claims (end_claim todo at outcome dv)) = length (dv_claims dv)"
  by (auto simp: end_claim_def close_claim_def map_update map_update_self split: option.split)

lemma claims_okD:
  assumes "claims_ok dv" and "map_of (dv_open_claims dv) todo = Some i"
  shows "i < length (dv_claims dv)" "iv_todo (dv_claims dv ! i) = todo" "iv_end (dv_claims dv ! i) = None"
  using assms map_of_SomeD [OF assms(2)] by (auto simp: claims_ok_def)

lemma open_todo:
  assumes "claims_ok dv" and "i < length (dv_claims dv)" and "iv_end (dv_claims dv ! i) = None"
  shows "map_of (dv_open_claims dv) (iv_todo (dv_claims dv ! i)) = Some i"
  using assms by (auto simp: claims_ok_def intro: map_of_is_SomeI)

lemma end_claim_cases:
  assumes "claims_ok dv"
  obtains "map_of (dv_open_claims dv) todo = None" "end_claim todo at outcome dv = dv"
  | (closed) i where "map_of (dv_open_claims dv) todo = Some i" "i < length (dv_claims dv)" "iv_todo (dv_claims dv ! i) = todo"
      "iv_end (dv_claims dv ! i) = None"
      "dv_claims (end_claim todo at outcome dv) = (dv_claims dv)[i := close_claim at outcome (dv_claims dv ! i)]"
      "dv_open_claims (end_claim todo at outcome dv) = AList.delete todo (dv_open_claims dv)"
proof (cases "map_of (dv_open_claims dv) todo")
  case None
  then show thesis by (intro that(1)) (simp_all add: end_claim_def)
next
  case (Some i)
  with claims_okD [OF assms Some] show thesis by (intro that(2)) (simp_all add: end_claim_def)
qed

lemma delete_set: "set (AList.delete k m) = {row \<in> set m. fst row \<noteq> k}"
  by (auto simp: AList.delete_eq)

lemma end_claim_ok:
  assumes "claims_ok dv"
  shows "claims_ok (end_claim todo at outcome dv)"
  using assms
proof (cases rule: end_claim_cases [where todo = todo and at = at and outcome = outcome])
  case (closed i)
  have other: "j \<noteq> i" if "iv_todo (dv_claims dv ! j) \<noteq> todo" for j using that closed(3) by auto
  show ?thesis
    using assms closed(2) unfolding claims_ok_def closed(5,6)
    by (auto simp: delete_set nth_list_update close_claim_def closed(3) distinct_delete other split: if_splits)
      (metis closed(1,2,4) map_of_is_SomeI old.prod.exhaust open_todo [OF assms] option.inject)
qed (use assms in simp)

lemma start_claim_ok:
  assumes "claims_ok dv" and "map_of (dv_open_claims dv) todo = None"
  shows "claims_ok (start_claim todo node holder at dv)"
  using assms by (auto simp: claims_ok_def start_claim_def nth_append map_of_eq_None_iff less_Suc_eq)

lemma end_claim_gone: "map_of (dv_open_claims (end_claim todo at outcome dv)) todo = None"
  by (auto simp: end_claim_def delete_conv' split: option.split)

lemma end_claim_spans:
  assumes ok: "claims_ok dv" and s: "spans_ok til (dv_claims dv)" and at: "til \<le> at"
  shows "spans_ok at (dv_claims (end_claim todo at outcome dv))"
  using ok
proof (cases rule: end_claim_cases [where todo = todo and at = at and outcome = outcome])
  case 1
  with s at show ?thesis by (fastforce simp: spans_ok_def)
next
  case (closed i)
  have "\<exists>e. iv_end ((dv_claims dv)[i := close_claim at outcome (dv_claims dv ! i)] ! j) = Some e
      \<and> e \<le> iv_start ((dv_claims dv)[i := close_claim at outcome (dv_claims dv ! i)] ! k)"
    if jk: "j < k" "k < length (dv_claims dv)" "iv_todo ((dv_claims dv)[i := close_claim at outcome (dv_claims dv ! i)] ! j)
      = iv_todo ((dv_claims dv)[i := close_claim at outcome (dv_claims dv ! i)] ! k)" for j k
  proof -
    have "iv_todo (dv_claims dv ! j) = iv_todo (dv_claims dv ! k)"
      using jk closed(2) by (auto simp: nth_list_update close_claim_def split: if_splits)
    with s jk obtain e where e: "iv_end (dv_claims dv ! j) = Some e" "e \<le> iv_start (dv_claims dv ! k)"
      unfolding spans_ok_def by blast
    with closed(4) have "j \<noteq> i" by auto
    with e jk closed(2) show ?thesis by (auto simp: nth_list_update close_claim_def)
  qed
  moreover have "\<forall>j<length (dv_claims dv). iv_start (dv_claims dv ! j) \<le> at
      \<and> (\<forall>e. iv_end (dv_claims dv ! j) = Some e \<longrightarrow> iv_start (dv_claims dv ! j) \<le> e \<and> e \<le> at)"
    using s at unfolding spans_ok_def by fastforce
  ultimately show ?thesis
    unfolding spans_ok_def closed(5) using closed(2) by (auto simp: nth_list_update close_claim_def split: if_splits)
qed

lemma start_claim_spans:
  assumes ok: "claims_ok dv" and s: "spans_ok at (dv_claims dv)" and none: "map_of (dv_open_claims dv) todo = None"
  shows "spans_ok at (dv_claims (start_claim todo node holder at dv))"
proof -
  have "\<exists>e. iv_end (dv_claims dv ! i) = Some e \<and> e \<le> at" if "i < length (dv_claims dv)" "iv_todo (dv_claims dv ! i) = todo" for i
  proof -
    from that none open_todo [OF ok that(1)] obtain e where "iv_end (dv_claims dv ! i) = Some e"
      by (cases "iv_end (dv_claims dv ! i)") auto
    with s that(1) show ?thesis unfolding spans_ok_def by blast
  qed
  with s show ?thesis by (auto simp: spans_ok_def start_claim_def nth_append less_Suc_eq)
qed

section \<open>The events of a log\<close>

lemma end_run_claims [simp]:
  "dv_claims (end_run key at outcome dv) = dv_claims dv" "dv_open_claims (end_run key at outcome dv) = dv_open_claims dv"
  by (auto simp: end_run_def split: option.split)

lemma end_runs_claims [simp]:
  "dv_claims (fold (\<lambda>key. end_run key at outcome) ks dv) = dv_claims dv"
  "dv_open_claims (fold (\<lambda>key. end_run key at outcome) ks dv) = dv_open_claims dv"
  by (induction ks arbitrary: dv) simp_all

lemma start_run_claims [simp]:
  "dv_claims (start_run s a t at dv) = dv_claims dv" "dv_open_claims (start_run s a t at dv) = dv_open_claims dv"
  by (simp_all add: start_run_def)

lemma claims_ok_cong: "dv_claims dv = dv_claims dv' \<Longrightarrow> dv_open_claims dv = dv_open_claims dv' \<Longrightarrow> claims_ok dv = claims_ok dv'"
  by (simp add: claims_ok_def)

lemma spans_later: "spans_ok til cs \<Longrightarrow> til \<le> at \<Longrightarrow> spans_ok at cs"
  unfolding spans_ok_def by fastforce

lemma derive_event_ok:
  assumes ok: "claims_ok dv" and s: "spans_ok til (dv_claims dv)" and at: "til \<le> ev_at e"
  shows "claims_ok (derive_event e dv) \<and> spans_ok (ev_at e) (dv_claims (derive_event e dv))"
proof (cases "ev_what e")
  case (Claim todo node holder)
  let ?dv = "end_claim todo (ev_at e) EndHanded dv"
  have "claims_ok ?dv" "spans_ok (ev_at e) (dv_claims ?dv)" "map_of (dv_open_claims ?dv) todo = None"
    using end_claim_ok [OF ok] end_claim_spans [OF ok s at] end_claim_gone by blast+
  with start_claim_ok start_claim_spans show ?thesis by (simp add: derive_event_def Claim)
next
  case (Unclaim todo holder outcome)
  with end_claim_ok [OF ok] end_claim_spans [OF ok s at] show ?thesis by (simp add: derive_event_def)
qed (use ok spans_later [OF s at] in \<open>simp_all add: derive_event_def cong: claims_ok_cong\<close>)

lemma derive_ok:
  assumes "sorted (map ev_at events)" and "claims_ok dv" and "spans_ok til (dv_claims dv)" and "\<forall>e\<in>set events. til \<le> ev_at e"
  shows "claims_ok (fold derive_event events dv) \<and> (\<exists>til'. spans_ok til' (dv_claims (fold derive_event events dv)))"
  using assms
proof (induction events arbitrary: dv til)
  case (Cons e events)
  from Cons.prems derive_event_ok [of dv til e] have "claims_ok (derive_event e dv)" "spans_ok (ev_at e) (dv_claims (derive_event e dv))"
    by simp_all
  with Cons.IH [of "derive_event e dv" "ev_at e"] Cons.prems(1) show ?case by simp
qed auto

lemma derive_claims:
  assumes "sorted (map ev_at events)"
  shows "claims_ok (derive events) \<and> (\<exists>til. spans_ok til (dv_claims (derive events)))"
proof (cases events)
  case Nil
  then show ?thesis by (simp add: derive_def claims_ok_def spans_ok_def)
next
  case (Cons e es)
  with derive_ok [OF assms, of "\<lparr>dv_runs = [], dv_claims = [], dv_open_runs = [], dv_open_claims = []\<rparr>" "ev_at e"] assms
  show ?thesis by (simp add: derive_def claims_ok_def spans_ok_def)
qed

text \<open>
  C24: the claim intervals a log is read as never overlap: whatever the log holds, in whatever order its lines were appended, of
  two intervals of one todo the earlier one is closed, no later than the next begins. So at most one is open, and every
  closed one ends no earlier than it starts.
\<close>

theorem claims_disjoint:
  assumes "cs = ac_claims (activity_of events seen now)"
    and "i < j" and "j < length cs" and "iv_todo (cs ! i) = iv_todo (cs ! j)"
  shows "\<exists>e. iv_end (cs ! i) = Some e \<and> iv_start (cs ! i) \<le> e \<and> e \<le> iv_start (cs ! j)"
proof -
  have cs: "cs = dv_claims (derive (sort_key ev_at events))" by (simp add: assms(1) activity_of_def Let_def)
  from derive_claims [OF sorted_sort_key] obtain til where s: "spans_ok til cs" by (auto simp: cs)
  have "i < length cs" using assms(2,3) by simp
  with s have start: "\<forall>e. iv_end (cs ! i) = Some e \<longrightarrow> iv_start (cs ! i) \<le> e" unfolding spans_ok_def by blast
  from s assms(2-4) have "\<exists>e. iv_end (cs ! i) = Some e \<and> e \<le> iv_start (cs ! j)" unfolding spans_ok_def by blast
  with start show ?thesis by blast
qed

theorem claims_disjoint_witness:
  "\<exists>e. iv_end (ac_claims (activity_of [\<lparr>ev_at = 9, ev_what = Claim ''1'' ''n'' ''B''\<rparr>, \<lparr>ev_at = 2, ev_what = Claim ''1'' ''n'' ''A''\<rparr>]
      [] 20) ! 0) = Some e \<and> e \<le> 9"
proof -
  let ?cs = "ac_claims (activity_of [\<lparr>ev_at = 9, ev_what = Claim ''1'' ''n'' ''B''\<rparr>, \<lparr>ev_at = 2, ev_what = Claim ''1'' ''n'' ''A''\<rparr>] [] 20)"
  have "length ?cs = 2" "iv_todo (?cs ! 0) = iv_todo (?cs ! 1)" "iv_start (?cs ! 1) = 9"
    by (simp_all add: activity_of_def derive_def derive_event_def start_claim_def end_claim_def close_claim_def)
  with claims_disjoint [OF refl, of 0 1 "[\<lparr>ev_at = 9, ev_what = Claim ''1'' ''n'' ''B''\<rparr>, \<lparr>ev_at = 2, ev_what = Claim ''1'' ''n'' ''A''\<rparr>]" "[]" 20]
  show ?thesis by auto
qed

section \<open>Runs\<close>

definition runs_ok :: "int \<Rightarrow> ActRun list \<Rightarrow> bool" where
  "runs_ok til rs \<longleftrightarrow> (\<forall>r\<in>set rs. ru_start r \<le> til \<and> (case ru_end r of Some e \<Rightarrow> ru_start r \<le> e | None \<Rightarrow> True) \<and> ru_outcome r \<noteq> Some Lost)"

lemma end_run_ok:
  assumes "runs_ok til (dv_runs dv)" and "til \<le> at" and "outcome \<noteq> Lost"
  shows "runs_ok at (dv_runs (end_run key at outcome dv))"
proof (cases "map_of (dv_open_runs dv) key")
  case (Some i)
  have ok: "runs_ok at (dv_runs dv)" using assms(1,2) by (fastforce simp: runs_ok_def)
  show ?thesis
  proof (cases "i < length (dv_runs dv)")
    case True
    with ok have "ru_start (dv_runs dv ! i) \<le> at" by (auto simp: runs_ok_def)
    with ok Some assms(3) show ?thesis
      by (auto simp: end_run_def runs_ok_def close_run_def dest!: set_update_subset_insert [THEN subsetD])
  qed (use ok Some in \<open>simp add: end_run_def list_update_beyond\<close>)
qed (use assms(1,2) in \<open>fastforce simp: end_run_def runs_ok_def\<close>)

lemma end_runs_ok:
  "runs_ok at (dv_runs dv) \<Longrightarrow> outcome \<noteq> Lost \<Longrightarrow> runs_ok at (dv_runs (fold (\<lambda>key. end_run key at outcome) ks dv))"
  by (induction ks arbitrary: dv) (simp_all add: end_run_ok)

lemma claim_runs [simp]: "dv_runs (start_claim todo node holder at dv) = dv_runs dv"
  by (simp add: start_claim_def)

lemma derive_runs:
  assumes "sorted (map ev_at events)" and "runs_ok til (dv_runs dv)" and "\<forall>e\<in>set events. til \<le> ev_at e"
  shows "\<exists>til'. runs_ok til' (dv_runs (fold derive_event events dv))"
  using assms
proof (induction events arbitrary: dv til)
  case (Cons e events)
  have later: "runs_ok (ev_at e) (dv_runs dv)" using Cons.prems(2,3) by (fastforce simp: runs_ok_def)
  have "runs_ok (ev_at e) (dv_runs (derive_event e dv))"
  proof (cases "ev_what e")
    case (SubagentStart s a t)
    with later show ?thesis by (auto simp: derive_event_def start_run_def runs_ok_def)
  qed (use later end_run_ok [OF later] end_runs_ok [OF later] in \<open>auto simp: derive_event_def\<close>)
  with Cons.IH [of "ev_at e" "derive_event e dv"] Cons.prems(1) show ?case by simp
qed auto

text \<open>The run the log has open for an agent: from the first start after its last end.\<close>

definition run_next :: "string \<times> string \<Rightarrow> ActEvent \<Rightarrow> int option \<Rightarrow> int option" where
  "run_next key e running =
     (case ev_what e of
        SubagentStart session agent _ \<Rightarrow>
          if (session, agent) = key then (case running of None \<Rightarrow> Some (ev_at e) | Some at \<Rightarrow> Some at) else running
      | SubagentStop session agent _ \<Rightarrow> if (session, agent) = key then None else running
      | SessionEnd session \<Rightarrow> if session = fst key then None else running
      | _ \<Rightarrow> running)"

definition running_since :: "string \<times> string \<Rightarrow> ActEvent list \<Rightarrow> int option" where
  "running_since key events = fold (run_next key) events None"

definition run_key :: "ActRun \<Rightarrow> string \<times> string" where
  "run_key r = (ru_session r, ru_agent r)"

definition runs_indexed :: "Deriving \<Rightarrow> bool" where
  "runs_indexed dv \<longleftrightarrow>
     (\<forall>key i. map_of (dv_open_runs dv) key = Some i \<longrightarrow>
        i < length (dv_runs dv) \<and> run_key (dv_runs dv ! i) = key \<and> ru_end (dv_runs dv ! i) = None)
     \<and> (\<forall>i<length (dv_runs dv). ru_end (dv_runs dv ! i) = None \<longrightarrow> map_of (dv_open_runs dv) (run_key (dv_runs dv ! i)) = Some i)"

definition open_run :: "Deriving \<Rightarrow> string \<times> string \<Rightarrow> int option" where
  "open_run dv key = map_option (\<lambda>i. ru_start (dv_runs dv ! i)) (map_of (dv_open_runs dv) key)"

lemma runs_indexedD:
  assumes "runs_indexed dv" and "map_of (dv_open_runs dv) key = Some i"
  shows "i < length (dv_runs dv)" "run_key (dv_runs dv ! i) = key" "ru_end (dv_runs dv ! i) = None"
  using assms unfolding runs_indexed_def by blast+

lemma close_run_simps [simp]: "run_key (close_run at outcome r) = run_key r" "ru_end (close_run at outcome r) = Some at"
  by (simp_all add: close_run_def run_key_def)

lemma end_run_indexed:
  assumes ok: "runs_indexed dv"
  shows "runs_indexed (end_run key at outcome dv) \<and> open_run (end_run key at outcome dv) = (open_run dv)(key := None)"
proof (cases "map_of (dv_open_runs dv) key")
  case None
  then have "(open_run dv)(key := None) = open_run dv" by (auto simp: open_run_def)
  with None ok show ?thesis by (simp add: end_run_def)
next
  case (Some i)
  let ?dv = "end_run key at outcome dv"
  have i: "i < length (dv_runs dv)" "run_key (dv_runs dv ! i) = key" "ru_end (dv_runs dv ! i) = None"
    by (rule runs_indexedD [OF ok Some])+
  have runs: "dv_runs ?dv = (dv_runs dv)[i := close_run at outcome (dv_runs dv ! i)]" using Some by (simp add: end_run_def)
  have maps: "map_of (dv_open_runs ?dv) = (map_of (dv_open_runs dv))(key := None)"
    using Some by (simp add: end_run_def delete_conv')
  have other: "j \<noteq> i" if "map_of (dv_open_runs dv) k = Some j" "k \<noteq> key" for k j
    using runs_indexedD(2) [OF ok that(1)] that(2) i(2) by auto
  have "runs_indexed ?dv"
    unfolding runs_indexed_def runs maps
  proof (intro conjI allI impI)
    fix k j assume "((map_of (dv_open_runs dv))(key := None)) k = Some j"
    then have k: "map_of (dv_open_runs dv) k = Some j" "k \<noteq> key" by (auto split: if_splits)
    with runs_indexedD [OF ok k(1)] other [OF k] show "j < length ((dv_runs dv)[i := close_run at outcome (dv_runs dv ! i)])"
      "run_key ((dv_runs dv)[i := close_run at outcome (dv_runs dv ! i)] ! j) = k"
      "ru_end ((dv_runs dv)[i := close_run at outcome (dv_runs dv ! i)] ! j) = None"
      by auto
  next
    fix j assume j: "j < length ((dv_runs dv)[i := close_run at outcome (dv_runs dv ! i)])"
      "ru_end ((dv_runs dv)[i := close_run at outcome (dv_runs dv ! i)] ! j) = None"
    then have "j \<noteq> i" using i(1) by auto
    with j have "map_of (dv_open_runs dv) (run_key (dv_runs dv ! j)) = Some j" using ok by (simp add: runs_indexed_def)
    moreover from this \<open>j \<noteq> i\<close> Some have "run_key (dv_runs dv ! j) \<noteq> key" by auto
    ultimately show "((map_of (dv_open_runs dv))(key := None)) (run_key ((dv_runs dv)[i := close_run at outcome (dv_runs dv ! i)] ! j)) = Some j"
      using \<open>j \<noteq> i\<close> by simp
  qed
  moreover have "open_run ?dv k = ((open_run dv)(key := None)) k" for k
    using other [of k] by (cases "map_of (dv_open_runs dv) k") (auto simp: open_run_def runs maps)
  ultimately show ?thesis by blast
qed

lemma end_runs_indexed:
  assumes "runs_indexed dv"
  shows "runs_indexed (fold (\<lambda>key. end_run key at outcome) ks dv)
    \<and> open_run (fold (\<lambda>key. end_run key at outcome) ks dv) key = (if key \<in> set ks then None else open_run dv key)"
  using assms
proof (induction ks arbitrary: dv)
  case (Cons k ks)
  with end_run_indexed [OF Cons.prems, of k at outcome] show ?case by simp
qed simp

lemma start_run_indexed:
  assumes ok: "runs_indexed dv"
  shows "runs_indexed (start_run session agent agent_type at dv)
    \<and> open_run (start_run session agent agent_type at dv) key = (if (session, agent) = key
        then (case open_run dv key of None \<Rightarrow> Some at | Some s \<Rightarrow> Some s) else open_run dv key)"
proof (cases "map_of (dv_open_runs dv) (session, agent)")
  case (Some i)
  with ok show ?thesis by (auto simp: start_run_def open_run_def split: option.splits)
next
  case None
  have lt: "i < length (dv_runs dv)" if "map_of (dv_open_runs dv) k = Some i" for k i
    by (rule runs_indexedD(1) [OF ok that])
  let ?dv = "start_run session agent agent_type at dv"
  obtain new where runs: "dv_runs ?dv = dv_runs dv @ [new]" and new: "run_key new = (session, agent)" "ru_end new = None"
    using None by (simp add: start_run_def run_key_def)
  have maps: "map_of (dv_open_runs ?dv) = (map_of (dv_open_runs dv))((session, agent) \<mapsto> length (dv_runs dv))"
    using None by (simp add: start_run_def)
  have "runs_indexed ?dv"
    unfolding runs_indexed_def runs maps
  proof (intro conjI allI impI)
    fix k i assume "((map_of (dv_open_runs dv))((session, agent) \<mapsto> length (dv_runs dv))) k = Some i"
    then consider "k = (session, agent)" "i = length (dv_runs dv)" | "map_of (dv_open_runs dv) k = Some i"
      by (cases "k = (session, agent)") simp_all
    then have "i < length (dv_runs dv @ [new]) \<and> run_key ((dv_runs dv @ [new]) ! i) = k \<and> ru_end ((dv_runs dv @ [new]) ! i) = None"
    proof cases
      case 1
      with new show ?thesis by simp
    next
      case 2
      with runs_indexedD [OF ok 2] show ?thesis by (simp add: nth_append)
    qed
    then show "i < length (dv_runs dv @ [new])" "run_key ((dv_runs dv @ [new]) ! i) = k"
      "ru_end ((dv_runs dv @ [new]) ! i) = None" by blast+
  next
    fix i assume i: "i < length (dv_runs dv @ [new])" "ru_end ((dv_runs dv @ [new]) ! i) = None"
    show "((map_of (dv_open_runs dv))((session, agent) \<mapsto> length (dv_runs dv))) (run_key ((dv_runs dv @ [new]) ! i)) = Some i"
    proof (cases "i = length (dv_runs dv)")
      case True
      with new show ?thesis by simp
    next
      case False
      with i have "map_of (dv_open_runs dv) (run_key (dv_runs dv ! i)) = Some i"
        using ok by (simp add: runs_indexed_def nth_append)
      moreover from this None have "run_key (dv_runs dv ! i) \<noteq> (session, agent)" by auto
      ultimately show ?thesis using False i(1) by (simp add: nth_append)
    qed
  qed
  moreover have "open_run (start_run session agent agent_type at dv) key = (if (session, agent) = key
        then (case open_run dv key of None \<Rightarrow> Some at | Some s \<Rightarrow> Some s) else open_run dv key)"
    using None by (cases "map_of (dv_open_runs dv) key") (auto simp: start_run_def open_run_def nth_append dest: lt)
  ultimately show ?thesis by blast
qed

lemma claims_keep_runs:
  "runs_indexed (start_claim todo node holder at dv) = runs_indexed dv" "open_run (start_claim todo node holder at dv) = open_run dv"
  "runs_indexed (end_claim todo at out dv) = runs_indexed dv" "open_run (end_claim todo at out dv) = open_run dv"
  by (simp_all add: runs_indexed_def open_run_def start_claim_def fun_eq_iff)

lemma derive_event_run:
  assumes "runs_indexed dv"
  shows "runs_indexed (derive_event e dv) \<and> open_run (derive_event e dv) key = run_next key e (open_run dv key)"
proof (cases "ev_what e")
  case (SessionEnd session)
  have "open_run dv key = None" if "key \<notin> set (map fst (dv_open_runs dv))"
    using that by (simp add: open_run_def map_of_eq_None_iff [symmetric])
  with end_runs_indexed [OF assms] show ?thesis by (auto simp: derive_event_def SessionEnd run_next_def)
qed (use assms start_run_indexed [OF assms] end_run_indexed [OF assms] in
      \<open>auto simp: derive_event_def run_next_def claims_keep_runs\<close>)

lemma derived_runs: "runs_indexed (derive events) \<and> open_run (derive events) key = running_since key events"
proof -
  have "runs_indexed (fold derive_event events dv)
      \<and> open_run (fold derive_event events dv) key = fold (run_next key) events (open_run dv key)" if "runs_indexed dv" for dv
    using that derive_event_run by (induction events arbitrary: dv) simp_all
  from this [of "\<lparr>dv_runs = [], dv_claims = [], dv_open_runs = [], dv_open_claims = []\<rparr>"]
  show ?thesis by (simp add: derive_def running_since_def runs_indexed_def open_run_def)
qed

lemma open_run_iff:
  assumes "runs_indexed dv"
  shows "(\<exists>r\<in>set (dv_runs dv). run_key r = key \<and> ru_start r = s \<and> ru_end r = None) \<longleftrightarrow> open_run dv key = Some s"
proof
  assume "\<exists>r\<in>set (dv_runs dv). run_key r = key \<and> ru_start r = s \<and> ru_end r = None"
  then obtain i where "i < length (dv_runs dv)" "run_key (dv_runs dv ! i) = key" "ru_start (dv_runs dv ! i) = s" "ru_end (dv_runs dv ! i) = None"
    by (auto simp: in_set_conv_nth)
  with assms show "open_run dv key = Some s" by (auto simp: runs_indexed_def open_run_def)
next
  assume "open_run dv key = Some s"
  then obtain i where "map_of (dv_open_runs dv) key = Some i" "ru_start (dv_runs dv ! i) = s" by (auto simp: open_run_def)
  with runs_indexedD [OF assms] show "\<exists>r\<in>set (dv_runs dv). run_key r = key \<and> ru_start r = s \<and> ru_end r = None"
    by (intro bexI [of _ "dv_runs dv ! i"]) simp_all
qed

text \<open>The signs of life of a run: its start, and the last hook of its agent.\<close>

definition signs :: "Seen list \<Rightarrow> string \<times> string \<Rightarrow> int \<Rightarrow> int set" where
  "signs seen key s = insert s (sn_at ` {m \<in> set seen. (sn_session m, sn_agent m) = key})"

definition one_mark_each :: "Seen list \<Rightarrow> bool" where
  "one_mark_each seen \<longleftrightarrow> distinct (map (\<lambda>m. (sn_session m, sn_agent m)) seen)"

lemma signs_mark:
  assumes "one_mark_each seen"
  shows "signs seen key s = insert s (case mark_of seen key of None \<Rightarrow> {} | Some at \<Rightarrow> {at})"
proof -
  let ?rows = "rev (map (\<lambda>m. ((sn_session m, sn_agent m), sn_at m)) seen)"
  have "distinct (map fst ?rows)" using assms by (simp add: one_mark_each_def rev_map [symmetric] comp_def)
  then have "map_of ?rows key = Some at \<longleftrightarrow> (key, at) \<in> set ?rows" for at by (rule map_of_eq_Some_iff)
  then have mem: "mark_of seen key = Some at \<longleftrightarrow> at \<in> sn_at ` {m \<in> set seen. (sn_session m, sn_agent m) = key}" for at
    by (auto simp: mark_of_def)
  obtain A where A: "A = sn_at ` {m \<in> set seen. (sn_session m, sn_agent m) = key}" by blast
  have "A = {at. mark_of seen key = Some at}" unfolding A using mem by blast
  then have "A = (case mark_of seen key of None \<Rightarrow> {} | Some at \<Rightarrow> {at})" by (cases "mark_of seen key") simp_all
  with A show ?thesis by (simp add: signs_def)
qed

lemma judge_run_signs:
  assumes "one_mark_each seen" and "ru_end q = None"
  shows "judge_run seen now q = (let last_sign = Max (signs seen (run_key q) (ru_start q)) in
    if backstop < now - last_sign then q\<lparr>ru_end := Some last_sign, ru_outcome := Some Lost\<rparr> else q)"
  using assms(2) by (auto simp: judge_run_def signs_mark [OF assms(1)] run_key_def Let_def max.commute split: option.split)

text \<open>
  C25: how a run is judged. As of \<open>now\<close>, a run is open exactly when the log has it running and its agent started or fired a
  hook within the last half hour; it is closed as lost, at its last sign of life, exactly when the log has it running and that
  sign is longer ago. And no run ends before it starts. Here the log, sorted by time, has an agent running since its
  first start after its last stop or the last end of its session, and there is one mark per agent, as there is one file.
\<close>

theorem runs_judged:
  assumes "one_mark_each seen" and "rs = set (ac_runs (activity_of events seen now))"
    and "since = running_since key (sort_key ev_at events)"
  shows "((\<exists>r\<in>rs. run_key r = key \<and> ru_start r = s \<and> ru_end r = None)
      \<longleftrightarrow> since = Some s \<and> (\<exists>t\<in>signs seen key s. now - t \<le> backstop))
    \<and> ((\<exists>r\<in>rs. run_key r = key \<and> ru_start r = s \<and> ru_outcome r = Some Lost \<and> ru_end r = Some e)
      \<longleftrightarrow> since = Some s \<and> e = Max (signs seen key s) \<and> (\<forall>t\<in>signs seen key s. backstop < now - t))
    \<and> (\<forall>r\<in>rs. \<forall>e. ru_end r = Some e \<longrightarrow> ru_start r \<le> e)"
proof -
  define dv where "dv = derive (sort_key ev_at events)"
  have rs: "rs = judge_run seen now ` set (dv_runs dv)" by (simp add: assms(2) activity_of_def dv_def Let_def)
  have since: "(\<exists>q\<in>set (dv_runs dv). run_key q = key \<and> ru_start q = s \<and> ru_end q = None) \<longleftrightarrow> since = Some s"
    unfolding dv_def assms(3) derived_runs [THEN conjunct2, symmetric] by (rule open_run_iff [OF derived_runs [THEN conjunct1]])
  obtain til where "runs_ok til (dv_runs dv)"
  proof (cases "sort_key ev_at events")
    case Nil
    then show thesis by (intro that [of 0]) (simp add: dv_def derive_def runs_ok_def)
  next
    case (Cons e es)
    with derive_runs [of "sort_key ev_at events" "ev_at e" "\<lparr>dv_runs = [], dv_claims = [], dv_open_runs = [], dv_open_claims = []\<rparr>"]
      sorted_sort_key [of ev_at events] that show thesis by (auto simp: dv_def derive_def runs_ok_def)
  qed
  then have ok: "\<forall>e. ru_end q = Some e \<longrightarrow> ru_start q \<le> e" "ru_outcome q \<noteq> Some Lost" if "q \<in> set (dv_runs dv)" for q
    using that by (auto simp: runs_ok_def)
  have kept: "judge_run seen now q = q" if "ru_end q \<noteq> None" for q using that by (simp add: judge_run_def)
  have same: "run_key (judge_run seen now q) = run_key q" "ru_start (judge_run seen now q) = ru_start q" for q
    by (simp_all add: judge_run_def run_key_def Let_def)
  have fin: "finite (signs seen key s)" "signs seen key s \<noteq> {}" for key s by (simp_all add: signs_def)
  have silent: "backstop < now - Max (signs seen key s) \<longleftrightarrow> (\<forall>t\<in>signs seen key s. backstop < now - t)" for key s
  proof -
    have "backstop < now - x \<longleftrightarrow> x < now - backstop" for x by linarith
    then show ?thesis using Max_less_iff [OF fin] by simp
  qed
  have opened: "ru_end (judge_run seen now q) = None
      \<longleftrightarrow> ru_end q = None \<and> (\<exists>t\<in>signs seen (run_key q) (ru_start q). now - t \<le> backstop)" for q
  proof (cases "ru_end q")
    case None
    with silent [of "run_key q" "ru_start q"] show ?thesis by (auto simp: judge_run_signs [OF assms(1)] Let_def not_less)
  qed (simp add: kept)
  have lost: "ru_outcome (judge_run seen now q) = Some Lost \<and> ru_end (judge_run seen now q) = Some e
      \<longleftrightarrow> ru_end q = None \<and> e = Max (signs seen (run_key q) (ru_start q)) \<and> (\<forall>t\<in>signs seen (run_key q) (ru_start q). backstop < now - t)"
    if "q \<in> set (dv_runs dv)" for q
  proof (cases "ru_end q")
    case None
    with silent [of "run_key q" "ru_start q"] ok(2) [OF that] show ?thesis by (auto simp: judge_run_signs [OF assms(1)] Let_def)
  next
    case (Some x)
    with ok(2) [OF that] show ?thesis by (simp add: kept)
  qed
  have "(\<exists>r\<in>rs. run_key r = key \<and> ru_start r = s \<and> ru_end r = None)
      \<longleftrightarrow> since = Some s \<and> (\<exists>t\<in>signs seen key s. now - t \<le> backstop)"
    unfolding rs since [symmetric] by (auto simp: same opened)
  moreover have "(\<exists>r\<in>rs. run_key r = key \<and> ru_start r = s \<and> ru_outcome r = Some Lost \<and> ru_end r = Some e)
      \<longleftrightarrow> since = Some s \<and> e = Max (signs seen key s) \<and> (\<forall>t\<in>signs seen key s. backstop < now - t)"
  proof -
    have "(\<exists>r\<in>rs. run_key r = key \<and> ru_start r = s \<and> ru_outcome r = Some Lost \<and> ru_end r = Some e)
      \<longleftrightarrow> (\<exists>q\<in>set (dv_runs dv). run_key q = key \<and> ru_start q = s \<and> ru_end q = None
          \<and> e = Max (signs seen (run_key q) (ru_start q)) \<and> (\<forall>t\<in>signs seen (run_key q) (ru_start q). backstop < now - t))"
      unfolding rs bex_simps using lost by (simp only: same) blast
    also have "\<dots> \<longleftrightarrow> (\<exists>q\<in>set (dv_runs dv). (run_key q = key \<and> ru_start q = s \<and> ru_end q = None)
          \<and> e = Max (signs seen key s) \<and> (\<forall>t\<in>signs seen key s. backstop < now - t))"
      by (intro bex_cong refl) auto
    finally show ?thesis unfolding since [symmetric] by blast
  qed
  moreover have "ru_start (judge_run seen now q) \<le> x" if "q \<in> set (dv_runs dv)" "ru_end (judge_run seen now q) = Some x" for q x
  proof (cases "ru_end q")
    case None
    with that(2) have "x = Max (signs seen (run_key q) (ru_start q))"
      by (auto simp: judge_run_signs [OF assms(1)] Let_def split: if_splits)
    moreover have "ru_start q \<in> signs seen (run_key q) (ru_start q)" by (simp add: signs_def)
    ultimately show ?thesis using Max_ge [OF fin(1)] by (simp add: same)
  next
    case (Some y)
    with ok(1) [OF that(1)] that(2) show ?thesis by (simp add: kept)
  qed
  ultimately show ?thesis unfolding rs by blast
qed

text \<open>An agent that started an hour ago, and fired a hook a minute ago or never.\<close>

definition demo_start :: "ActEvent list" where
  "demo_start = [\<lparr>ev_at = 5, ev_what = SubagentStart ''S'' ''a'' None\<rparr>]"

definition demo_mark :: Seen where
  "demo_mark = \<lparr>sn_session = ''S'', sn_agent = ''a'', sn_at = 5 + backstop\<rparr>"

theorem runs_judged_witness:
  "(\<exists>r\<in>set (ac_runs (activity_of demo_start [demo_mark] (6 + 2 * backstop - 1))). run_key r = (''S'', ''a'') \<and> ru_start r = 5 \<and> ru_end r = None)
   \<and> (\<exists>r\<in>set (ac_runs (activity_of demo_start [] (6 + 2 * backstop - 1))). run_key r = (''S'', ''a'') \<and> ru_start r = 5
        \<and> ru_outcome r = Some Lost \<and> ru_end r = Some 5)"
proof -
  have pos: "0 < backstop" by (simp add: backstop_def)
  have since: "Some 5 = running_since (''S'', ''a'') (sort_key ev_at demo_start)"
    by (simp add: demo_start_def running_since_def run_next_def)
  have marks: "one_mark_each [demo_mark]" "one_mark_each []" by (simp_all add: one_mark_each_def)
  have signs: "signs [demo_mark] (''S'', ''a'') 5 = {5, 5 + backstop}" "signs [] (''S'', ''a'') 5 = {5}"
    by (auto simp: signs_def demo_mark_def)
  from runs_judged [OF marks(1) refl since, of "6 + 2 * backstop - 1" 5, THEN conjunct1]
    runs_judged [OF marks(2) refl since, of "6 + 2 * backstop - 1" 5 5, THEN conjunct2, THEN conjunct1]
  show ?thesis using pos by (simp add: signs)
qed

section \<open>The names of the marks\<close>

lemma hex_value_upper:
  assumes "n < 16"
  shows "hex_value (hex_upper n) = Some n \<and> hex_upper n \<noteq> CHR ''+''"
proof -
  have "of_char (char_of m :: char) = m" if "m < 256" for m :: nat using that by (simp only: of_char_of mod_less)
  then have code: "of_char (hex_upper n) = (if n < 10 then 48 + n else 55 + n)"
    unfolding hex_upper_def using assms by (cases "n < 10") simp_all
  then have "hex_upper n \<noteq> CHR ''+''"
  proof -
    have "of_char (CHR ''+'') = (43 :: nat)" by simp
    moreover have "of_char (hex_upper n) \<noteq> (43 :: nat)" using code by (simp split: if_splits)
    ultimately show ?thesis by metis
  qed
  moreover have "hex_value (hex_upper n) = Some n" using assms by (simp add: hex_value_def code Let_def)
  ultimately show ?thesis by blast
qed

lemma segment_read: "unsegment_bytes (segment i) = Some i"
proof (induction i)
  case (Cons c i)
  have "(of_char c :: nat) < 256" by (rule nat_of_char_less_256)
  then have "of_char c div 16 < (16 :: nat)" "of_char c mod 16 < (16 :: nat)" by (auto simp: div_less_iff_less_mult)
  with hex_value_upper have "hex_pair (hex_upper (of_char c div 16)) (hex_upper (of_char c mod 16)) = Some (16 * (of_char c div 16) + of_char c mod 16)"
    by (simp add: hex_pair_def)
  moreover have "16 * (of_char c div 16) + of_char c mod 16 = (of_char c :: nat)" by simp
  ultimately have "hex_pair (hex_upper (of_char c div 16)) (hex_upper (of_char c mod 16)) = Some (of_char c)" by simp
  moreover have "plain_byte c \<Longrightarrow> c \<noteq> CHR ''%''" by (auto simp: plain_byte_def)
  ultimately show ?case using Cons by (simp add: segment_def)
qed (simp add: segment_def)

text \<open>A name devkit spelled reads back; so do names it never spells, in the other case of a digit or with a plus sign.\<close>

lemma unsegment_segment: "utf8 i \<Longrightarrow> unsegment utf8 (segment i) = Some i"
  by (simp add: unsegment_def segment_read)

lemma unsegment_unspelled:
  "segment ''/'' = ''%2F'' \<and> unsegment (\<lambda>_. True) ''%2f'' = Some ''/'' \<and> unsegment (\<lambda>_. True) ''%+F'' = Some [CHR 0x0F]
    \<and> unsegment (\<lambda>_. True) ''%41'' = Some ''A''"
  by code_simp

end
