(* ===== verification/Todo_Activity_Log.thy ===== *)
theory Todo_Activity_Log
  imports Todo_Activity_Safety "HOL-Library.Multiset"
begin

text \<open>
  The activity log beside its store: what the log says is claimed is what the store has in progress, over any adds and
  edits, with appends that fail or arrive late.
\<close>

section \<open>The claimant a log names\<close>

definition open_of :: "Deriving \<Rightarrow> string \<rightharpoonup> Holder" where
  "open_of dv todo = map_option (\<lambda>i. iv_holder (dv_claims dv ! i)) (map_of (dv_open_claims dv) todo)"

lemma open_of_end:
  assumes "claims_ok dv"
  shows "open_of (end_claim todo at outcome dv) = (open_of dv)(todo := None)"
  using assms
proof (cases rule: end_claim_cases [where todo = todo and at = at and outcome = outcome])
  case 1
  then show ?thesis by (auto simp: open_of_def)
next
  case (closed i)
  have "i \<noteq> j" if "map_of (dv_open_claims dv) other = Some j" "other \<noteq> todo" for other j
    using claims_okD(2) [OF assms that(1)] closed(3) that(2) by auto
  then have "open_of (end_claim todo at outcome dv) other = ((open_of dv)(todo := None)) other" for other
    by (cases "map_of (dv_open_claims dv) other"; cases "other = todo") (simp_all add: open_of_def closed(5,6) delete_conv' nth_list_update)
  then show ?thesis by (rule ext)
qed

lemma open_of_start:
  assumes "claims_ok dv"
  shows "open_of (start_claim todo node holder at dv) = (open_of dv)(todo \<mapsto> holder)"
proof
  fix other
  show "open_of (start_claim todo node holder at dv) other = ((open_of dv)(todo \<mapsto> holder)) other"
    using claims_okD(1) [OF assms] by (cases "map_of (dv_open_claims dv) other") (auto simp: open_of_def start_claim_def nth_append)
qed

text \<open>What the log says of one todo depends only on that todo's claim events, and the last of them decides.\<close>

definition concerns :: "string \<Rightarrow> ActEvent \<Rightarrow> bool" where
  "concerns todo e = (case ev_what e of Claim t _ _ \<Rightarrow> t = todo | Unclaim t _ _ \<Rightarrow> t = todo | _ \<Rightarrow> False)"

definition holder_next :: "ActEvent \<Rightarrow> Holder option \<Rightarrow> Holder option" where
  "holder_next e h = (case ev_what e of Claim _ _ by \<Rightarrow> Some by | Unclaim _ _ _ \<Rightarrow> None | _ \<Rightarrow> h)"

definition logged_holder :: "string \<Rightarrow> ActEvent list \<Rightarrow> Holder option" where
  "logged_holder todo log = fold holder_next (filter (concerns todo) log) None"

lemma derive_event_open:
  assumes "claims_ok dv"
  shows "claims_ok (derive_event e dv)
    \<and> open_of (derive_event e dv) todo = (if concerns todo e then holder_next e (open_of dv todo) else open_of dv todo)"
proof (cases "ev_what e")
  case (Claim t node holder)
  have c: "claims_ok (end_claim t (ev_at e) EndHanded dv)" by (rule end_claim_ok [OF assms])
  from start_claim_ok [OF c end_claim_gone] open_of_start [OF c] open_of_end [OF assms]
  show ?thesis by (simp add: derive_event_def Claim concerns_def holder_next_def)
next
  case (Unclaim t holder outcome)
  with end_claim_ok [OF assms] open_of_end [OF assms] show ?thesis
    by (simp add: derive_event_def concerns_def holder_next_def)
qed (use assms in \<open>simp_all add: derive_event_def concerns_def open_of_def cong: claims_ok_cong\<close>)

lemma derived_holder: "claims_ok (derive log) \<and> open_of (derive log) todo = logged_holder todo log"
proof -
  have "claims_ok (fold derive_event log dv)
      \<and> open_of (fold derive_event log dv) todo = fold holder_next (filter (concerns todo) log) (open_of dv todo)"
    if "claims_ok dv" for dv
    using that derive_event_open by (induction log arbitrary: dv) simp_all
  from this [of "\<lparr>dv_runs = [], dv_claims = [], dv_open_runs = [], dv_open_claims = []\<rparr>"]
  show ?thesis by (simp add: derive_def logged_holder_def claims_ok_def open_of_def)
qed

definition claimant :: "Status option \<Rightarrow> Holder option" where
  "claimant s = (case s of Some (InProgress by) \<Rightarrow> Some by | _ \<Rightarrow> None)"

lemma change_events_Cons: "change_events (c # cs) = change_events [c] @ change_events cs"
  by (simp add: change_events_def)

lemma change_concerns: "filter (concerns todo) (change_events [c]) = (if sc_todo c = todo then change_events [c] else [])"
  by (cases "sc_from c"; cases "sc_to c"; cases "the (sc_to c)")
    (auto simp: change_events_def claim_events_def concerns_def Let_def)

lemma changes_concern:
  assumes "distinct (map sc_todo cs)"
  shows "filter (concerns todo) (change_events cs)
    = (case find (\<lambda>c. sc_todo c = todo) cs of Some c \<Rightarrow> change_events [c] | None \<Rightarrow> [])"
  using assms
proof (induction cs)
  case (Cons c cs)
  have "sc_todo c \<notin> set (map sc_todo cs)" using Cons.prems by simp
  then have "find (\<lambda>c'. sc_todo c' = sc_todo c) cs = None" unfolding find_None_iff set_map by (metis image_eqI)
  with Cons show ?case by (auto simp: change_events_Cons [of c cs] change_concerns)
qed (simp add: change_events_def)

lemma change_holder:
  "change_events [c] = [] \<Longrightarrow> claimant (sc_to c) = claimant (Some (sc_from c))"
  "change_events [c] \<noteq> [] \<Longrightarrow> fold holder_next (change_events [c]) h = claimant (sc_to c)"
  by (cases "sc_from c"; cases "sc_to c"; cases "the (sc_to c)";
    auto simp: change_events_def claim_events_def holder_next_def claimant_def Let_def split: if_splits)+

section \<open>A store and its log\<close>

text \<open>
  The store with its log. Each edit is told which of its appends land; the log stops at the first that fails. The
  last part of the state is the todos whose latest claim events were not all logged.
\<close>

datatype recorded_op = AddTodo io string NewTodo | ApplyEdit io int string Edit "bool list"

definition landed_events :: "bool list \<Rightarrow> ActEvent list \<Rightarrow> ActEvent list" where
  "landed_events oks es = take (length (takeWhile id oks)) es"

definition now_missed :: "ActEvent list \<Rightarrow> bool list \<Rightarrow> string set \<Rightarrow> string set" where
  "now_missed es oks missed =
     {todo. if filter (concerns todo) es = [] then todo \<in> missed
        else filter (concerns todo) (landed_events oks es) \<noteq> filter (concerns todo) es}"

fun recorded_step :: "recorded_op \<Rightarrow> doc_fs \<times> ActivityLog \<times> string set \<Rightarrow> doc_fs \<times> ActivityLog \<times> string set" where
  "recorded_step (AddTodo io stamp new) (fs, l, missed) = (snd (store_add io stamp new fs), l, missed)"
| "recorded_step (ApplyEdit io at stamp e oks) (fs, l, missed) =
     (case recorded_apply (store_apply io at stamp) (log_record_all oks) e (fs, l) of
        (Inl _, fs', l') \<Rightarrow> (fs', l', missed)
      | (Inr changes, fs', l') \<Rightarrow> (fs', l', now_missed (change_events changes) oks missed))"

lemma log_record_all_landed: "lg_events (log_record_all oks es l) = lg_events l @ landed_events oks es"
  by (induction oks es l rule: log_record_all.induct) (simp_all add: landed_events_def log_record_def)

definition op_fits :: "recorded_op \<Rightarrow> bool" where
  "op_fits op = (case op of AddTodo _ _ new \<Rightarrow> order_fits (nt_order new) | ApplyEdit _ _ _ e _ \<Rightarrow> edit_fits e)"

definition op_times :: "recorded_op list \<Rightarrow> int list" where
  "op_times ops = List.map_filter (\<lambda>op. case op of ApplyEdit _ at _ _ _ \<Rightarrow> Some at | AddTodo _ _ _ \<Rightarrow> None) ops"

text \<open>What the log says is open is what the document has in progress, for every todo that was not missed.\<close>

definition claimed_by :: "TodoDoc \<Rightarrow> string \<Rightarrow> Holder option" where
  "claimed_by d todo = (case parse_uint todo of
     Some k \<Rightarrow> if show_uint k = todo then claimant (row_status d k) else None | None \<Rightarrow> None)"

definition log_matches :: "TodoDoc \<Rightarrow> ActEvent list \<Rightarrow> string set \<Rightarrow> bool" where
  "log_matches d log missed \<longleftrightarrow> (\<forall>todo. todo \<notin> missed \<longrightarrow> logged_holder todo log = claimed_by d todo)"

lemma reported_todo:
  assumes ok: "builtin_ok d" and r: "reported at d d' ch" and s: "shrunk d d'"
  shows "distinct (map sc_todo ch)"
    and "\<forall>c\<in>set ch. \<exists>k. sc_todo c = show_uint k \<and> row_status d k = Some (sc_from c) \<and> sc_to c = row_status d' k \<and> sc_at c = at"
    and "find (\<lambda>c. sc_todo c = show_uint k) ch = None \<Longrightarrow> row_status d' k = row_status d k"
proof -
  from r obtain ks where ks: "distinct ks" "set ks = {k. row_status d k \<noteq> None \<and> row_status d' k \<noteq> row_status d k}"
    "ch = map (change_at at d d') ks" unfolding reported_def by blast
  have c: "sc_todo (change_at at d d' k) = show_uint k \<and> row_status d k = Some (sc_from (change_at at d d' k))
      \<and> sc_to (change_at at d d' k) = row_status d' k \<and> sc_at (change_at at d d' k) = at" if "k \<in> set ks" for k
  proof -
    from that ks(2) obtain t where t: "bt_get (bd_todos d) k = Some t" by (auto simp: row_status_def)
    with builtin_ok_row [OF ok t] show ?thesis by (simp add: change_at_def change_of_def row_status_def row_ok_def)
  qed
  have inj: "show_uint k = show_uint j \<Longrightarrow> k = j" for k j :: u64 by (metis option.inject parse_show_uint)
  have "map sc_todo ch = map show_uint ks" using c by (simp add: ks(3))
  with ks(1) inj show "distinct (map sc_todo ch)" by (simp add: distinct_map inj_on_def)
  show "\<forall>c\<in>set ch. \<exists>k. sc_todo c = show_uint k \<and> row_status d k = Some (sc_from c) \<and> sc_to c = row_status d' k \<and> sc_at c = at"
    using c by (auto simp: ks(3))
  show "row_status d' k = row_status d k" if none: "find (\<lambda>c. sc_todo c = show_uint k) ch = None"
  proof -
    have "k \<notin> set ks" using none c by (auto simp: find_None_iff ks(3))
    moreover have "row_status d k = None \<Longrightarrow> row_status d' k = None"
      using s unfolding row_status_def shrunk_def by (metis not_Some_eq option.map_disc_iff)
    ultimately show ?thesis using ks(2) by auto
  qed
qed

lemma apply_matches:
  assumes ok: "builtin_ok d" and m: "log_matches d log missed"
    and a: "builtin_apply at stamp e d = Inr (ch, d')" and fits: "edit_fits e"
  shows "log_matches d' (log @ landed_events oks (change_events ch)) (now_missed (change_events ch) oks missed)"
  unfolding log_matches_def
proof (intro allI impI)
  fix todo assume n: "todo \<notin> now_missed (change_events ch) oks missed"
  have w: "bt_wf (bd_todos d)" using ok by (simp add: builtin_ok_def)
  note r = reported_todo [OF ok builtin_reports [OF a w] apply_shrunk [OF a fits w]]
  note about = changes_concern [OF r(1), of todo]
  have logged: "logged_holder todo (log @ landed_events oks (change_events ch))
      = fold holder_next (filter (concerns todo) (landed_events oks (change_events ch))) (logged_holder todo log)"
    by (simp add: logged_holder_def)
  have found: "\<exists>k. todo = show_uint k \<and> row_status d k = Some (sc_from c) \<and> sc_to c = row_status d' k"
    if "find (\<lambda>c. sc_todo c = todo) ch = Some c" for c
    using r(2) find_Some_set [OF that] by auto
  show "logged_holder todo (log @ landed_events oks (change_events ch)) = claimed_by d' todo"
  proof (cases "filter (concerns todo) (change_events ch) = []")
    case True
    then have "filter (concerns todo) (landed_events oks (change_events ch)) = []"
      by (simp add: landed_events_def filter_empty_conv) (meson in_set_takeD)
    moreover have "todo \<notin> missed" using n True by (simp add: now_missed_def)
    moreover have "claimed_by d' todo = claimed_by d todo"
    proof (cases "find (\<lambda>c. sc_todo c = todo) ch")
      case None
      then have "row_status d' k = row_status d k" if "show_uint k = todo" for k using r(3) that by blast
      then show ?thesis by (auto simp: claimed_by_def split: option.split)
    next
      case (Some c)
      with True about have "change_events [c] = []" by simp
      from change_holder(1) [OF this] found [OF Some] show ?thesis by (auto simp: claimed_by_def)
    qed
    ultimately show ?thesis using m by (simp add: logged log_matches_def)
  next
    case False
    then obtain c where c: "find (\<lambda>c. sc_todo c = todo) ch = Some c" "change_events [c] \<noteq> []"
      "filter (concerns todo) (change_events ch) = change_events [c]"
      using about by (cases "find (\<lambda>c. sc_todo c = todo) ch") auto
    have "filter (concerns todo) (landed_events oks (change_events ch)) = change_events [c]"
      using n False c(3) by (simp add: now_missed_def)
    with change_holder(2) [OF c(2)] found [OF c(1)] show ?thesis by (auto simp: logged claimed_by_def)
  qed
qed

lemma add_matches:
  assumes ok: "builtin_ok d" and m: "log_matches d log missed" and a: "builtin_add stamp new d = Inr (i, d')"
  shows "log_matches d' log missed"
proof -
  have "claimant (row_status d' k) = claimant (row_status d k)" for k
    using builtin_add_Inr [OF a] fresh_key_new [OF ok] ok
    by (auto simp: row_status_def put_def claimant_def new_todo_def builtin_ok_def bt_insert_get)
  then have "claimed_by d' todo = claimed_by d todo" for todo by (simp add: claimed_by_def split: option.split)
  with m show ?thesis by (simp add: log_matches_def)
qed

lemma landed_times:
  assumes "builtin_ok d" and "reported at d d' ch" and "shrunk d d'"
    and "sorted (map ev_at log)" and "\<forall>e\<in>set log. ev_at e \<le> at"
  shows "sorted (map ev_at (log @ landed_events oks (change_events ch)))
    \<and> (\<forall>e\<in>set (log @ landed_events oks (change_events ch)). ev_at e \<le> at)"
proof -
  have at: "\<forall>e\<in>set (landed_events oks (change_events ch)). ev_at e = at"
  proof
    fix e assume "e \<in> set (landed_events oks (change_events ch))"
    then have "e \<in> set (change_events ch)" unfolding landed_events_def by (rule in_set_takeD)
    then obtain c where "c \<in> set ch" "ev_at e = sc_at c" by (auto simp: change_events_def)
    with reported_todo(2) [OF assms(1-3)] show "ev_at e = at" by auto
  qed
  then have "map ev_at (landed_events oks (change_events ch)) = replicate (length (landed_events oks (change_events ch))) at"
    by (simp add: map_idI list_eq_iff_nth_eq)
  with at assms(4,5) show ?thesis by (auto simp: sorted_append)
qed

lemma next_key_bound:
  assumes "max (unat (bd_next_id d)) 1 + n < 2 ^ 64 - 1"
  shows "unat (fresh_key d + 1) = max (unat (bd_next_id d)) 1 + 1"
proof -
  have "unat (fresh_key d) = max (unat (bd_next_id d)) 1"
    by (auto simp: fresh_key_def max_def word_le_nat_alt)
  with assms show ?thesis by (simp add: unat_word_ariths)
qed

definition log_state :: "doc_fs \<Rightarrow> ActivityLog \<Rightarrow> string set \<Rightarrow> recorded_op list \<Rightarrow> TodoDoc \<Rightarrow> bool" where
  "log_state fs l missed ops d \<longleftrightarrow> todo_file fs = Inr d \<and> builtin_ok d \<and> log_matches d (lg_events l) missed
     \<and> sorted (map ev_at (lg_events l)) \<and> (\<forall>e\<in>set (lg_events l). \<forall>t\<in>set (op_times ops). ev_at e \<le> t)
     \<and> max (unat (bd_next_id d)) 1 + length ops < 2 ^ 64 - 1"

lemma log_matches_version [simp]: "log_matches (d\<lparr>bd_version := v\<rparr>) log missed = log_matches d log missed"
  by (simp add: log_matches_def claimed_by_def split: option.split)

lemma step_state:
  assumes s: "log_state fs l missed (op # ops) d" and fits: "op_fits op" and times: "sorted (op_times (op # ops))"
  shows "\<exists>fs' l' missed' d'. recorded_step op (fs, l, missed) = (fs', l', missed') \<and> log_state fs' l' missed' ops d'"
proof -
  have ok: "builtin_ok d" and room: "max (unat (bd_next_id d)) 1 + length ops < 2 ^ 64 - 2"
    and rest: "set (op_times ops) \<subseteq> set (op_times (op # ops))"
    using s by (auto simp: log_state_def op_times_def map_filter_simps split: option.split)
  show ?thesis
  proof (cases op)
    case (AddTodo io stamp new)
    have order: "order_fits (nt_order new)" using fits by (simp add: op_fits_def AddTodo)
    have w: "with_lock_strict todo_document io (builtin_add stamp new) fs
        = (fst (store_add io stamp new fs), snd (store_add io stamp new fs))" by (simp add: store_add_def)
    have "\<forall>d b d'. todo_doc_ok d \<longrightarrow> builtin_add stamp new d = Inr (b, d') \<longrightarrow> todo_doc_ok d'" using add_doc_ok order by blast
    from file_after [OF w this] consider (same) "snd (store_add io stamp new fs) = fs"
      | (moved) i d' where "builtin_add stamp new d = Inr (i, d')"
          "todo_file (snd (store_add io stamp new fs)) = Inr (d'\<lparr>bd_version := todo_doc_version\<rparr>)"
      using s by (auto simp: log_state_def)
    then show ?thesis
    proof cases
      case same
      with s rest AddTodo have "log_state fs l missed ops d" by (auto simp: log_state_def)
      with same AddTodo show ?thesis by auto
    next
      case moved
      have "unat (bd_next_id d) < 2 ^ 64 - 1" using room by simp
      moreover have "unat (- 1 :: u64) = 2 ^ 64 - 1" by (simp add: unsigned_minus_1_eq_mask mask_eq_exp_minus_1)
      ultimately have "bd_next_id d < - 1" by (simp add: word_less_nat_alt)
      with add_ok [OF ok moved(1) order] have "builtin_ok d'" by simp
      moreover have "max (unat (bd_next_id d')) 1 \<le> max (unat (bd_next_id d)) 1 + 1"
        using builtin_add_Inr [OF moved(1)] room next_key_bound [of d "length ops"] by (auto simp: put_def)
      ultimately have "log_state (snd (store_add io stamp new fs)) l missed ops (d'\<lparr>bd_version := todo_doc_version\<rparr>)"
        using s rest moved(2) add_matches [OF ok _ moved(1)] room by (auto simp: log_state_def)
      with AddTodo show ?thesis by auto
    qed
  next
    case (ApplyEdit io at stamp e oks)
    have fits': "edit_fits e" using fits by (simp add: op_fits_def ApplyEdit)
    have w: "with_lock_strict todo_document io (builtin_apply at stamp e) fs
        = (fst (store_apply io at stamp e fs), snd (store_apply io at stamp e fs))" by (simp add: store_apply_def)
    have "\<forall>d b d'. todo_doc_ok d \<longrightarrow> builtin_apply at stamp e d = Inr (b, d') \<longrightarrow> todo_doc_ok d'" using apply_doc_ok fits' by blast
    from file_after [OF w this] consider (same) x where "store_apply io at stamp e fs = (Inl x, fs)"
      | (moved) ch d' fs' where "store_apply io at stamp e fs = (Inr ch, fs')" "builtin_apply at stamp e d = Inr (ch, d')"
          "todo_file fs' = Inr (d'\<lparr>bd_version := todo_doc_version\<rparr>)"
      using s by (cases "store_apply io at stamp e fs") (auto simp: log_state_def)
    then show ?thesis
    proof cases
      case same
      have "log_state fs l missed ops d" using s rest by (auto simp: log_state_def)
      with same ApplyEdit show ?thesis by (auto simp: recorded_apply_def)
    next
      case moved
      define l' where "l' = (if change_events ch = [] then l else log_record_all oks (change_events ch) l)"
      have l': "lg_events l' = lg_events l @ landed_events oks (change_events ch)"
        by (simp add: l'_def log_record_all_landed landed_events_def)
      have bw: "bt_wf (bd_todos d)" using ok by (simp add: builtin_ok_def)
      note sh = apply_shrunk [OF moved(2) fits' bw]
      have op: "op_times (op # ops) = at # op_times ops" by (simp add: op_times_def ApplyEdit map_filter_simps)
      have "log_matches d' (lg_events l') (now_missed (change_events ch) oks missed)"
        unfolding l' using apply_matches [OF ok _ moved(2) fits'] s by (simp add: log_state_def)
      moreover have "sorted (map ev_at (lg_events l')) \<and> (\<forall>e\<in>set (lg_events l'). ev_at e \<le> at)"
        unfolding l' using s op by (intro landed_times [OF ok builtin_reports [OF moved(2) bw] sh]) (auto simp: log_state_def)
      moreover have "builtin_ok d'" "bd_next_id d' = bd_next_id d" using shrunk_ok [OF ok sh] sh by (simp_all add: shrunk_def)
      moreover have "\<forall>t\<in>set (op_times ops). at \<le> t" using times op by simp
      ultimately have "log_state fs' l' (now_missed (change_events ch) oks missed) ops (d'\<lparr>bd_version := todo_doc_version\<rparr>)"
        unfolding log_state_def using moved(3) room
        by (intro conjI ballI) (auto intro: order_trans)
      moreover have "recorded_step op (fs, l, missed) = (fs', l', now_missed (change_events ch) oks missed)"
        using moved(1) by (simp add: ApplyEdit recorded_apply_def l'_def)
      ultimately show ?thesis by blast
    qed
  qed
qed

lemma steps_state:
  assumes "log_state fs l missed ops d" and "\<forall>op\<in>set ops. op_fits op" and "sorted (op_times ops)"
  shows "\<exists>fs' l' missed' d'. fold recorded_step ops (fs, l, missed) = (fs', l', missed') \<and> log_state fs' l' missed' [] d'"
  using assms
proof (induction ops arbitrary: fs l missed d)
  case (Cons op ops)
  obtain fs' l' missed' d' where st: "recorded_step op (fs, l, missed) = (fs', l', missed')" "log_state fs' l' missed' ops d'"
    using step_state [OF Cons.prems(1) _ Cons.prems(3)] Cons.prems(2) by auto
  have "sorted (op_times ops)" using Cons.prems(3) by (auto simp: op_times_def map_filter_simps split: option.splits)
  with Cons.IH [OF st(2)] Cons.prems(2) st(1) show ?case by simp
qed auto

lemma open_interval:
  assumes "claims_ok dv"
  shows "(\<exists>c\<in>set (dv_claims dv). iv_todo c = todo \<and> iv_holder c = by \<and> iv_end c = None) \<longleftrightarrow> open_of dv todo = Some by"
proof
  assume "\<exists>c\<in>set (dv_claims dv). iv_todo c = todo \<and> iv_holder c = by \<and> iv_end c = None"
  then obtain i where i: "i < length (dv_claims dv)" "iv_todo (dv_claims dv ! i) = todo" "iv_holder (dv_claims dv ! i) = by"
    "iv_end (dv_claims dv ! i) = None" by (auto simp: in_set_conv_nth)
  from open_todo [OF assms i(1,4)] i(2,3) show "open_of dv todo = Some by" by (simp add: open_of_def)
next
  assume "open_of dv todo = Some by"
  then obtain i where i: "map_of (dv_open_claims dv) todo = Some i" "iv_holder (dv_claims dv ! i) = by" by (auto simp: open_of_def)
  from claims_okD [OF assms i(1)] i(2)
  show "\<exists>c\<in>set (dv_claims dv). iv_todo c = todo \<and> iv_holder c = by \<and> iv_end c = None"
    by (intro bexI [of _ "dv_claims dv ! i"]) simp_all
qed

lemma claimed_row:
  assumes "builtin_ok d"
  shows "claimed_by d todo = Some by
    \<longleftrightarrow> (\<exists>k t. bt_get (bd_todos d) k = Some t \<and> td_id t = todo \<and> td_status t = InProgress by)"
proof
  assume "claimed_by d todo = Some by"
  then obtain k where k: "parse_uint todo = Some k" "show_uint k = todo" "claimant (row_status d k) = Some by"
    by (auto simp: claimed_by_def split: option.splits if_splits)
  then obtain t where "bt_get (bd_todos d) k = Some t" "td_status t = InProgress by"
    by (auto simp: claimant_def row_status_def split: option.splits Status.splits)
  with builtin_ok_row [OF assms] k(2) show "\<exists>k t. bt_get (bd_todos d) k = Some t \<and> td_id t = todo \<and> td_status t = InProgress by"
    by (metis row_ok_def)
next
  assume "\<exists>k t. bt_get (bd_todos d) k = Some t \<and> td_id t = todo \<and> td_status t = InProgress by"
  then obtain k t where "bt_get (bd_todos d) k = Some t" "td_id t = todo" "td_status t = InProgress by" by blast
  with builtin_ok_row [OF assms] show "claimed_by d todo = Some by"
    by (fastforce simp: claimed_by_def row_ok_def claimant_def row_status_def)
qed

text \<open>
  C23: the activity log mirrors the store. After any adds and edits of a store that began empty, by however many
  processes and whatever faults its file met, with a clock that does not run back from one edit to the next, take the
  lines that reached the log, in any order that keeps those of one instant in theirs. Then for every todo, unless an
  append of its last change of claimant failed, the open claim interval read from the log is the claim it has in the file:
  there is one exactly if it is in progress, with its holder.
\<close>

theorem log_follows_store:
  assumes "fs_data fs = None" and "lg_events l = []" and "\<forall>op\<in>set ops. op_fits op" and "sorted (op_times ops)"
    and "length ops < 2 ^ 64 - 2" and "fold recorded_step ops (fs, l, {}) = (fs', l', missed)"
    and "\<forall>at. filter (\<lambda>e. ev_at e = at) (lg_events arrived) = filter (\<lambda>e. ev_at e = at) (lg_events l')"
  shows "\<exists>d. todo_file fs' = Inr d \<and> (\<forall>todo by. todo \<notin> missed \<longrightarrow>
    ((\<exists>c\<in>set (ac_claims (log_read utf8 arrived now)). iv_todo c = todo \<and> iv_holder c = by \<and> iv_end c = None)
      \<longleftrightarrow> (\<exists>k t. bt_get (bd_todos d) k = Some t \<and> td_id t = todo \<and> td_status t = InProgress by)))"
proof -
  have "todo_file fs = Inr (doc_default todo_document)"
    using assms(1) by (simp add: todo_file_def try_load_def read_strict_def)
  moreover have "log_matches (doc_default todo_document) [] {}"
    by (simp add: log_matches_def logged_holder_def claimed_by_def row_status_def todo_document_def claimant_def bt_get_def split: option.split)
  ultimately have "log_state fs l {} ops (doc_default todo_document)"
    using assms(2,5) by (simp add: log_state_def builtin_ok_empty todo_document_def)
  from steps_state [OF this assms(3,4)] assms(6) obtain d where d: "log_state fs' l' missed [] d" by auto
  have m: "mset (lg_events arrived) = mset (lg_events l')"
  proof (rule multiset_eqI)
    fix e :: ActEvent
    have c: "count (mset xs) e = count (mset (filter (\<lambda>e'. ev_at e' = ev_at e) xs)) e" for xs :: "ActEvent list" by simp
    have "count (mset (lg_events arrived)) e = count (mset (filter (\<lambda>e'. ev_at e' = ev_at e) (lg_events l'))) e"
      unfolding c [of "lg_events arrived"] by (simp only: assms(7) [THEN spec])
    then show "count (mset (lg_events arrived)) e = count (mset (lg_events l')) e"
      by (rule trans [OF _ c [of "lg_events l'", symmetric]])
  qed
  have log: "sort_key ev_at (lg_events arrived) = lg_events l'"
  proof (rule properties_for_sort_key)
    show "mset (lg_events l') = mset (lg_events arrived)" by (rule m [symmetric])
    have flip: "(\<lambda>e :: ActEvent. ev_at k = ev_at e) = (\<lambda>e. ev_at e = ev_at k)" for k :: ActEvent by auto
    show "filter (\<lambda>e. ev_at k = ev_at e) (lg_events l') = filter (\<lambda>e. ev_at k = ev_at e) (lg_events arrived)" for k :: ActEvent
      unfolding flip by (rule assms(7) [THEN spec, symmetric])
    show "sorted (map ev_at (lg_events l'))" using d by (simp add: log_state_def)
  qed
  have ok: "builtin_ok d" and holder: "todo \<notin> missed \<Longrightarrow> open_of (derive (lg_events l')) todo = claimed_by d todo" for todo
    using d derived_holder by (simp_all add: log_state_def log_matches_def)
  have cl: "ac_claims (log_read utf8 arrived now) = dv_claims (derive (lg_events l'))"
    by (simp add: log_read_def activity_of_def log Let_def)
  have "(\<exists>c\<in>set (ac_claims (log_read utf8 arrived now)). iv_todo c = todo \<and> iv_holder c = by \<and> iv_end c = None)
      \<longleftrightarrow> (\<exists>k t. bt_get (bd_todos d) k = Some t \<and> td_id t = todo \<and> td_status t = InProgress by)" if "todo \<notin> missed" for todo "by"
    unfolding cl open_interval [OF derived_holder [THEN conjunct1]] holder [OF that] by (rule claimed_row [OF ok])
  with d show ?thesis by (auto simp: log_state_def)
qed

abbreviation demo_recorded :: "recorded_op list" where
  "demo_recorded \<equiv> [AddTodo clean_io ''t'' demo_task, ApplyEdit clean_io 5 ''u'' (SetStatus ''1'' KInProgress ''S'') [True]]"

abbreviation no_log :: ActivityLog where
  "no_log \<equiv> \<lparr>lg_events = [], lg_seen = []\<rparr>"

theorem log_follows_store_witness:
  "\<exists>fs log d. fold recorded_step demo_recorded (no_file, no_log, {}) = (fs, log, {})
     \<and> lg_events log = [\<lparr>ev_at = 5, ev_what = Claim ''1'' ''global'' ''S''\<rparr>] \<and> todo_file fs = Inr d
     \<and> (\<exists>k t. bt_get (bd_todos d) k = Some t \<and> td_id t = ''1'' \<and> td_status t = InProgress ''S'')"
proof -
  obtain fs1 where 1: "store_add clean_io ''t'' demo_task no_file = (Inr ''1'', fs1)" "todo_file fs1 = Inr one_doc"
    using demo_story by blast
  have status: "td_status demo_first = Pending" by (simp add: demo_first_def)
  have e: "builtin_apply 5 ''u'' (SetStatus ''1'' KInProgress ''S'') one_doc = Inr ([change_of 5 demo_first (Some (InProgress ''S''))],
      put 1 (demo_first\<lparr>td_status := InProgress ''S'', td_modified := Some ''u''\<rparr>) one_doc)"
    by (simp add: builtin_apply_def set_todo_status_def demo_at status move_to_def transition_def moved_to_def kind_def)
  from store_apply_lands [OF 1(2) demo_ok(2) e] obtain fs where
    2: "store_apply clean_io 5 ''u'' (SetStatus ''1'' KInProgress ''S'') fs1 = (Inr [change_of 5 demo_first (Some (InProgress ''S''))], fs)"
    by auto
  define log where "log = \<lparr>lg_events = [\<lparr>ev_at = 5, ev_what = Claim ''1'' ''global'' ''S''\<rparr>], lg_seen = []\<rparr>"
  have ev: "change_events [change_of 5 demo_first (Some (InProgress ''S''))] = lg_events log"
    by (simp add: log_def change_events_def claim_events_def change_of_def demo_first_def node_of_def global_node_def)
  have f: "fold recorded_step demo_recorded (no_file, no_log, {}) = (fs, log, {})"
    using 1 2 by (simp add: recorded_apply_def ev log_record_def now_missed_def landed_events_def) (simp add: log_def log_record_def)
  have opened: "\<exists>c\<in>set (ac_claims (log_read (\<lambda>_. True) log 9)). iv_todo c = ''1'' \<and> iv_holder c = ''S'' \<and> iv_end c = None"
    by (simp add: log_def log_read_def activity_of_def derive_def derive_event_def end_claim_def start_claim_def Let_def)
  have fits: "\<forall>op\<in>set demo_recorded. op_fits op" by (simp add: op_fits_def order_fits_def demo_task_def)
  have times: "sorted (op_times demo_recorded)" by (simp add: op_times_def map_filter_simps)
  have none: "fs_data no_file = None" by (simp add: no_file_def)
  have len: "length demo_recorded < 2 ^ 64 - 2" by simp
  have empty: "lg_events no_log = []" by simp
  have same: "\<forall>at. filter (\<lambda>e. ev_at e = at) (lg_events log) = filter (\<lambda>e. ev_at e = at) (lg_events log)" by simp
  from log_follows_store [OF none empty fits times len f same, of "\<lambda>_. True" 9] obtain d where
    d: "todo_file fs = Inr d" and open_iff: "\<forall>todo by. todo \<notin> {} \<longrightarrow>
      ((\<exists>c\<in>set (ac_claims (log_read (\<lambda>_. True) log 9)). iv_todo c = todo \<and> iv_holder c = by \<and> iv_end c = None)
      \<longleftrightarrow> (\<exists>k t. bt_get (bd_todos d) k = Some t \<and> td_id t = todo \<and> td_status t = InProgress by))" by blast
  from open_iff [THEN spec, THEN spec, THEN mp, of "''1''" "''S''"] opened
  have "\<exists>k t. bt_get (bd_todos d) k = Some t \<and> td_id t = ''1'' \<and> td_status t = InProgress ''S''" by blast
  moreover have "lg_events log = [\<lparr>ev_at = 5, ev_what = Claim ''1'' ''global'' ''S''\<rparr>]" by (simp add: log_def)
  ultimately show ?thesis using f d by blast
qed

end
