(* ===== verification/Run_Ledger.thy ===== *)
theory Run_Ledger
  imports DK_Text "HOL-Library.AList" "HOL-Library.Product_Lexorder"
begin

text \<open>
  The run ledger (\<open>crates/devkit-ports/src/ledger.rs\<close>): what a task run records, which run satisfies a gate, where a server
  was launched from, and the tail of the captured output.

  The directory is the list of its files, each with the record it parses to. What the version control answers, whether two
  paths are the same, a process's start time, the name and the times of a record, and the lossy reading of bytes as UTF-8 are
  arguments.
\<close>

section \<open>Records\<close>

record LiveServer =
  ls_app :: string
  ls_started_at :: string

record RunStep =
  rs_task :: string
  rs_argv :: "string list"
  rs_up :: "string option"
  rs_ports :: "(string, u16) btree"

record LedgerRun =
  lr_task :: string
  lr_args :: "(string, string) btree"
  lr_arg_files :: "(string, string) btree"
  lr_repo :: string
  lr_worktree :: string
  lr_dir :: "string option"
  lr_head :: "string option"
  lr_clean :: bool
  lr_env :: "string list"
  lr_env_file :: "string option"
  lr_steps :: "RunStep list"
  lr_reused_servers :: "string list"
  lr_reused_at_head :: "string list"
  lr_live_servers :: "LiveServer list"
  lr_exit_code :: "int option"
  lr_started_at :: string
  lr_ended_at :: string
  lr_tail :: "string list option"
  lr_path :: "string option"

definition run_proves :: "LedgerRun \<Rightarrow> string \<Rightarrow> (string, string) btree \<Rightarrow> string \<Rightarrow> bool" where
  "run_proves r task args sha \<longleftrightarrow>
     lr_task r = task \<and> lr_exit_code r = Some 0 \<and> lr_clean r \<and> lr_head r = Some sha \<and> lr_args r = args"

definition run_qualifies :: "LedgerRun \<Rightarrow> string \<Rightarrow> (string, string) btree \<Rightarrow> string \<Rightarrow> bool" where
  "run_qualifies r task args sha \<longleftrightarrow> run_proves r task args sha \<and> lr_reused_servers r = []"

section \<open>The directory of records\<close>

type_synonym ledger_files = "(string \<times> LedgerRun option) list"

text \<open>Written whole and renamed into place: a record is there with its content or not at all.\<close>

definition ledger_record :: "bool \<Rightarrow> string \<Rightarrow> LedgerRun \<Rightarrow> ledger_files \<Rightarrow> ledger_files" where
  "ledger_record ok name r files = (if ok then AList.update name (Some r) files else files)"

text \<open>The extension is what follows the last dot of a name that does not begin with it.\<close>

definition is_json :: "string \<Rightarrow> bool" where
  "is_json name = (case strip_prefix (rev ''.json'') (rev name) of Some stem \<Rightarrow> stem \<noteq> [] | None \<Rightarrow> False)"

definition ledger_runs :: "ledger_files \<Rightarrow> LedgerRun list" where
  "ledger_runs files =
     sort_key (\<lambda>r. (lr_started_at r, the (lr_path r)))
       (List.map_filter (\<lambda>(name, content). map_option (\<lambda>r. r\<lparr>lr_path := Some name\<rparr>) content) (filter (\<lambda>f. is_json (fst f)) files))"

definition runs_in :: "(string \<Rightarrow> string \<Rightarrow> bool) \<Rightarrow> ledger_files \<Rightarrow> string \<Rightarrow> LedgerRun list" where
  "runs_in same_path files repo = filter (\<lambda>r. same_path (lr_repo r) repo) (ledger_runs files)"

definition ledger_passed :: "(string \<Rightarrow> string \<Rightarrow> bool) \<Rightarrow> ledger_files \<Rightarrow> string \<Rightarrow> string \<Rightarrow> (string, string) btree \<Rightarrow> string \<Rightarrow>
    LedgerRun option" where
  "ledger_passed same_path files repo task args sha =
     find (\<lambda>r. run_qualifies r task args sha) (rev (runs_in same_path files repo))"

section \<open>Origins\<close>

record Origin =
  og_commit :: string
  og_plan :: string

record OriginRecord =
  or_pid :: u32
  or_started :: "string option"
  or_origin :: Origin

text \<open>The file of each port, as the record it parses to. \<open>started\<close> is the start time of a process, if there is one.\<close>

type_synonym origin_files = "u16 \<rightharpoonup> OriginRecord"

definition set_origin :: "bool \<Rightarrow> (u32 \<rightharpoonup> string) \<Rightarrow> u16 \<Rightarrow> u32 \<Rightarrow> Origin option \<Rightarrow> origin_files \<Rightarrow> origin_files" where
  "set_origin ok started port pid origin files =
     (if \<not> ok then files
      else files(port := map_option (\<lambda>o'. \<lparr>or_pid = pid, or_started = started pid, or_origin = o'\<rparr>) origin))"

definition origin_of :: "(u32 \<rightharpoonup> string) \<Rightarrow> origin_files \<Rightarrow> u16 \<Rightarrow> u32 \<Rightarrow> Origin option" where
  "origin_of started files port pid =
     (case files port of
        None \<Rightarrow> None
      | Some r \<Rightarrow>
          (case (if or_pid r = pid then or_started r else None) of
             None \<Rightarrow> None
           | Some at \<Rightarrow>
               (case started pid of None \<Rightarrow> None | Some now \<Rightarrow> if now = at then Some (or_origin r) else None)))"

section \<open>A run\<close>

text \<open>What the version control says of a tree: the revision, and whether it is dirty; an error is \<open>None\<close>.\<close>

definition tree_state :: "string option \<Rightarrow> bool option \<Rightarrow> string option \<times> bool" where
  "tree_state revision dirty =
     (case revision of Some s \<Rightarrow> if s = [] then None else Some s | None \<Rightarrow> None, dirty = Some False)"

record RunStart =
  st_task :: string
  st_args :: "(string, string) btree"
  st_arg_files :: "(string, string) btree"
  st_repo :: string
  st_worktree :: string
  st_dir :: "string option"
  st_head :: "string option"
  st_clean :: bool
  st_env :: "string list"
  st_env_file :: "string option"
  st_started_at :: string

record Servers =
  sv_reused :: "string list"
  sv_reused_at_head :: "string list"
  sv_live :: "LiveServer list"

definition start_capture :: "string option \<times> bool \<Rightarrow> string \<Rightarrow> string \<Rightarrow> string option \<Rightarrow> string \<Rightarrow> string \<Rightarrow>
    (string, string) btree \<Rightarrow> (string, string) btree \<Rightarrow> string list \<Rightarrow> string option \<Rightarrow> RunStart" where
  "start_capture tree repo worktree dir now task args arg_files env env_file =
     \<lparr>st_task = task, st_args = args, st_arg_files = arg_files, st_repo = repo, st_worktree = worktree, st_dir = dir,
      st_head = fst tree, st_clean = snd tree, st_env = env, st_env_file = env_file, st_started_at = now\<rparr>"

definition start_finish :: "string option \<times> bool \<Rightarrow> string \<Rightarrow> RunStart \<Rightarrow> int option \<Rightarrow> string list option \<Rightarrow> RunStep list \<Rightarrow>
    Servers \<Rightarrow> LedgerRun" where
  "start_finish tree now s exit_code tail_lines steps servers =
     \<lparr>lr_task = st_task s, lr_args = st_args s, lr_arg_files = st_arg_files s, lr_repo = st_repo s, lr_worktree = st_worktree s,
      lr_dir = st_dir s, lr_head = st_head s,
      lr_clean = (st_clean s \<and> st_env s = [] \<and> st_env_file s = None \<and> snd tree \<and> fst tree = st_head s),
      lr_env = st_env s, lr_env_file = st_env_file s, lr_steps = steps, lr_reused_servers = sv_reused servers,
      lr_reused_at_head = sv_reused_at_head servers, lr_live_servers = sv_live servers, lr_exit_code = exit_code,
      lr_started_at = st_started_at s, lr_ended_at = now, lr_tail = tail_lines, lr_path = None\<rparr>"

text \<open>The directories whose \<open>devkit.toml\<close> layers a run in \<open>dir\<close> had, and the layers committed at a revision.\<close>

definition config_dirs :: "string \<Rightarrow> string list" where
  "config_dirs dir =
     fold (\<lambda>part dirs. dirs @ [if last dirs = [] then part else last dirs @ CHR ''/'' # part])
       (filter (\<lambda>p. p \<noteq> []) (split_on (CHR ''/'') dir)) [[]]"

definition config_path :: "string \<Rightarrow> string" where
  "config_path d = (if d = [] then ''devkit.toml'' else d @ ''/devkit.toml'')"

fun committed_layers :: "(string \<Rightarrow> 'e + string option) \<Rightarrow> string list \<Rightarrow> 'e + (string \<times> string) list" where
  "committed_layers file_at [] = Inr []"
| "committed_layers file_at (d # ds) =
     (case file_at (config_path d) of
        Inl e \<Rightarrow> Inl e
      | Inr None \<Rightarrow> committed_layers file_at ds
      | Inr (Some s) \<Rightarrow> map_sum id (Cons (config_path d, s)) (committed_layers file_at ds))"

section \<open>The tail of the output\<close>

definition tail_limit :: nat where
  "tail_limit = 100"

definition max_line_bytes :: nat where
  "max_line_bytes = 4096"

record Tail =
  tl_lines :: "string list"
  tl_captured :: bool

definition new_tail :: Tail where
  "new_tail = \<lparr>tl_lines = [], tl_captured = False\<rparr>"

definition trim_line_end :: "string \<Rightarrow> string" where
  "trim_line_end s = rev (dropWhile (\<lambda>c. c = CHR 0x0D \<or> c = CHR 0x0A) (rev s))"

definition tail_push :: "(string \<Rightarrow> string) \<Rightarrow> string \<Rightarrow> Tail \<Rightarrow> Tail" where
  "tail_push lossy bytes t =
     (let line = trim_line_end (lossy (take max_line_bytes bytes));
          kept = (if length (tl_lines t) = tail_limit then tl (tl_lines t) else tl_lines t)
      in t\<lparr>tl_lines := kept @ [line]\<rparr>)"

definition tail_lines :: "Tail \<Rightarrow> string list option" where
  "tail_lines t = (if tl_captured t then Some (tl_lines t) else None)"

text \<open>What each \<open>read\<close> returns: some bytes, an interrupt to read again after, or the end or an error, which both end the loop.\<close>

datatype read_result = Bytes string | Interrupted | EndOrError

definition push_lines :: "(string \<Rightarrow> string) \<Rightarrow> string \<Rightarrow> Tail \<Rightarrow> string \<times> Tail" where
  "push_lines lossy partial t =
     (last (split_on (CHR 0x0A) partial), fold (tail_push lossy) (butlast (split_on (CHR 0x0A) partial)) t)"

fun pump_loop :: "(string \<Rightarrow> string) \<Rightarrow> read_result list \<Rightarrow> string \<Rightarrow> Tail \<Rightarrow> string \<times> Tail" where
  "pump_loop lossy (Bytes bytes # reads) partial t =
     (if bytes = [] then (partial, t)
      else case push_lines lossy (partial @ bytes) t of
        (partial, t) \<Rightarrow>
          if max_line_bytes < length partial then pump_loop lossy reads [] (tail_push lossy partial t)
          else pump_loop lossy reads partial t)"
| "pump_loop lossy (Interrupted # reads) partial t = pump_loop lossy reads partial t"
| "pump_loop lossy _ partial t = (partial, t)"

definition pump :: "(string \<Rightarrow> string) \<Rightarrow> read_result list \<Rightarrow> Tail \<Rightarrow> Tail" where
  "pump lossy reads t =
     (case pump_loop lossy reads [] (t\<lparr>tl_captured := True\<rparr>) of
        (partial, t) \<Rightarrow> if partial \<noteq> [] then tail_push lossy partial t else t)"

text \<open>The bytes echoed to the run's own stream.\<close>

fun echoed :: "read_result list \<Rightarrow> string" where
  "echoed (Bytes bytes # reads) = (if bytes = [] then [] else bytes @ echoed reads)"
| "echoed (Interrupted # reads) = echoed reads"
| "echoed _ = []"

end
