(* ===== verification/Run_Ledger_Safety.thy ===== *)
theory Run_Ledger_Safety
  imports Run_Ledger
begin

text \<open>
  What the ledger promises: a gate is satisfied exactly by a run that was seen to pass on a clean tree at the commit, an origin
  only by the process that recorded it, and the tail is the last lines of the output however it was read.
\<close>

section \<open>The gate\<close>

text \<open>What devrun observed of one run.\<close>

record Observed =
  ob_task :: string
  ob_args :: "(string, string) btree"
  ob_arg_files :: "(string, string) btree"
  ob_repo :: string
  ob_worktree :: string
  ob_dir :: "string option"
  ob_env :: "string list"
  ob_env_file :: "string option"
  ob_before :: "string option \<times> bool option"
  ob_after :: "string option \<times> bool option"
  ob_exit :: "int option"
  ob_tail :: "string list option"
  ob_steps :: "RunStep list"
  ob_servers :: Servers
  ob_times :: "string \<times> string"

definition observed_run :: "Observed \<Rightarrow> LedgerRun" where
  "observed_run b =
     start_finish (case ob_after b of (at, dirty) \<Rightarrow> tree_state at dirty) (snd (ob_times b))
       (start_capture (case ob_before b of (at, dirty) \<Rightarrow> tree_state at dirty) (ob_repo b) (ob_worktree b) (ob_dir b)
          (fst (ob_times b)) (ob_task b) (ob_args b) (ob_arg_files b) (ob_env b) (ob_env_file b))
       (ob_exit b) (ob_tail b) (ob_steps b) (ob_servers b)"

definition seen_to_pass :: "string \<Rightarrow> (string, string) btree \<Rightarrow> string \<Rightarrow> Observed \<Rightarrow> bool" where
  "seen_to_pass task args sha b \<longleftrightarrow> ob_task b = task \<and> ob_args b = args \<and> ob_exit b = Some 0
     \<and> ob_before b = (Some sha, Some False) \<and> ob_after b = (Some sha, Some False) \<and> sha \<noteq> []
     \<and> ob_env b = [] \<and> ob_env_file b = None \<and> sv_reused (ob_servers b) = []"

lemma observed_qualifies: "run_qualifies (observed_run b) task args sha \<longleftrightarrow> seen_to_pass task args sha b"
  by (cases "ob_before b"; cases "ob_after b")
    (auto simp: run_qualifies_def run_proves_def observed_run_def start_finish_def start_capture_def seen_to_pass_def tree_state_def
      split: option.splits if_splits)

lemma path_irrelevant [simp]:
  "run_qualifies (r\<lparr>lr_path := p\<rparr>) task args sha = run_qualifies r task args sha" "lr_repo (r\<lparr>lr_path := p\<rparr>) = lr_repo r"
  by (simp_all add: run_qualifies_def run_proves_def)

text \<open>The ledger after the runs were recorded, each under its name.\<close>

definition ledger_of :: "(string \<times> Observed) list \<Rightarrow> ledger_files" where
  "ledger_of runs = fold (\<lambda>(name, b). ledger_record True name (observed_run b)) runs []"

lemma ledger_rows:
  "map_of (ledger_of runs) name = map_option (\<lambda>b. Some (observed_run b)) (map_of (rev runs) name) \<and> distinct (map fst (ledger_of runs))"
proof (induction runs rule: rev_induct)
  case (snoc run runs)
  then show ?case
    by (cases run) (auto simp: ledger_of_def ledger_record_def update_conv' distinct_update)
qed (simp add: ledger_of_def)

lemma ledger_runs_set:
  "set (ledger_runs files) = {r\<lparr>lr_path := Some name\<rparr> | name r. (name, Some r) \<in> set files \<and> is_json name}"
  by (force simp: ledger_runs_def in_map_filter)

text \<open>
  C26: a gate is satisfied exactly by a run seen to pass. When the ledger holds what devrun recorded, under names of their own,
  \<open>passed\<close> finds a run for a task, its args and a commit exactly when one of the runs in that repository exited 0, with those
  args, on a tree that was clean at that commit when it started and when it ended, with no variable set and no server reused;
  and the one it finds is such a run.
\<close>

theorem gate_honest:
  assumes "\<forall>run\<in>set runs. is_json (fst run)" and "distinct (map fst runs)"
  shows "(ledger_passed same_path (ledger_of runs) repo task args sha \<noteq> None \<longleftrightarrow>
      (\<exists>(name, b)\<in>set runs. same_path (ob_repo b) repo \<and> seen_to_pass task args sha b))
    \<and> (\<forall>r. ledger_passed same_path (ledger_of runs) repo task args sha = Some r \<longrightarrow>
        (\<exists>(name, b)\<in>set runs. r = (observed_run b)\<lparr>lr_path := Some name\<rparr> \<and> same_path (ob_repo b) repo \<and> seen_to_pass task args sha b))"
proof -
  have rows: "(name, Some r) \<in> set (ledger_of runs) \<longleftrightarrow> (\<exists>b. (name, b) \<in> set runs \<and> r = observed_run b)" for name r
  proof -
    have "(name, Some r) \<in> set (ledger_of runs) \<longleftrightarrow> map_of (ledger_of runs) name = Some (Some r)"
      using ledger_rows [of runs name, THEN conjunct2] by (simp add: map_of_eq_Some_iff)
    also have "\<dots> \<longleftrightarrow> (\<exists>b. map_of (rev runs) name = Some b \<and> r = observed_run b)"
      using ledger_rows [of runs name, THEN conjunct1] unfolding map_option_eq_Some by (cases "map_of (rev runs) name") auto
    also have "\<dots> \<longleftrightarrow> (\<exists>b. (name, b) \<in> set runs \<and> r = observed_run b)"
      using assms(2) by (simp add: map_of_eq_Some_iff rev_map [symmetric])
    finally show ?thesis .
  qed
  have repo: "lr_repo (observed_run b) = ob_repo b" for b
    by (simp add: observed_run_def start_finish_def start_capture_def)
  have found: "r \<in> set (runs_in same_path (ledger_of runs) repo) \<and> run_qualifies r task args sha \<longleftrightarrow>
      (\<exists>(name, b)\<in>set runs. r = (observed_run b)\<lparr>lr_path := Some name\<rparr> \<and> same_path (ob_repo b) repo \<and> seen_to_pass task args sha b)" for r
    using assms(1) by (auto simp: runs_in_def ledger_runs_set rows repo observed_qualifies) force+
  let ?passed = "ledger_passed same_path (ledger_of runs) repo task args sha"
  let ?seen = "\<lambda>r. \<exists>(name, b)\<in>set runs. r = (observed_run b)\<lparr>lr_path := Some name\<rparr> \<and> same_path (ob_repo b) repo \<and> seen_to_pass task args sha b"
  have some: "?seen r" if "?passed = Some r" for r
    using found [of r] find_Some_set [OF that [unfolded ledger_passed_def]] by simp
  have none: "?passed \<noteq> None" if "?seen r" for r
    using found [of r] that by (auto simp: ledger_passed_def find_None_iff)
  show ?thesis
  proof (intro conjI iffI allI impI)
    assume "?passed \<noteq> None"
    then obtain r where "?passed = Some r" by blast
    from some [OF this] show "\<exists>(name, b)\<in>set runs. same_path (ob_repo b) repo \<and> seen_to_pass task args sha b" by blast
  next
    assume "\<exists>(name, b)\<in>set runs. same_path (ob_repo b) repo \<and> seen_to_pass task args sha b"
    then obtain name b where "(name, b) \<in> set runs" "same_path (ob_repo b) repo" "seen_to_pass task args sha b" by blast
    then have "?seen ((observed_run b)\<lparr>lr_path := Some name\<rparr>)" by blast
    then show "?passed \<noteq> None" by (rule none)
  qed (rule some)
qed

section \<open>Origins\<close>

text \<open>Whoever asks, an origin is the one last recorded for the port, by a process that is the one asked about.\<close>

lemma origin_sound:
  assumes "origin_of now files port pid = Some o'"
  shows "\<exists>r. files port = Some r \<and> or_origin r = o' \<and> or_pid r = pid \<and> or_started r \<noteq> None \<and> now pid = or_started r"
  using assms by (auto simp: origin_of_def split: option.splits if_splits)

lemma origin_read_back:
  "earlier pid \<noteq> None \<Longrightarrow> origin_of now (set_origin True earlier port pid (Some o') files) port pid
     = (if now pid = earlier pid then Some o' else None)"
  by (auto simp: origin_of_def set_origin_def split: option.split)

lemma origin_cleared: "origin_of now (set_origin True earlier port pid None files) port pid' = None"
  by (simp add: origin_of_def set_origin_def)

section \<open>The tail\<close>

definition last_lines :: "'a list \<Rightarrow> 'a list" where
  "last_lines xs = drop (length xs - tail_limit) xs"

lemma last_lines_append [simp]: "last_lines (last_lines xs @ ys) = last_lines (xs @ ys)"
  by (cases "tail_limit \<le> length xs") (simp_all add: last_lines_def add.commute)













text \<open>A longer line is not cut once: what the reads happened to bring makes it one line or two.\<close>

lemma long_line_split:
  "length (tl_lines (pump id [Bytes (replicate 8000 CHR ''a'')] new_tail)) = 1
    \<and> length (tl_lines (pump id [Bytes (replicate 5000 CHR ''a''), Bytes (replicate 3000 CHR ''a'')] new_tail)) = 2"
proof -
  have one: "split_on (CHR 0x0A) (replicate n CHR ''a'') = [replicate n CHR ''a'']" for n by (rule split_on_no_sep) simp
  have some: "n \<noteq> 0 \<Longrightarrow> replicate n x \<noteq> []" for n and x :: char by simp
  show ?thesis
    by (simp add: pump_def push_lines_def one some max_line_bytes_def tail_push_def new_tail_def tail_limit_def Let_def)
qed

theorem gate_honest_witness:
  "\<exists>b. ledger_passed (=) (ledger_of [(''1.json'', b)]) ''/r'' ''test'' [] ''c0ffee'' \<noteq> None
    \<and> ledger_passed (=) (ledger_of [(''1.json'', b\<lparr>ob_after := (Some ''c0ffee'', Some True)\<rparr>)]) ''/r'' ''test'' [] ''c0ffee'' = None"
proof -
  define b where "b = \<lparr>ob_task = ''test'', ob_args = [], ob_arg_files = [], ob_repo = ''/r'', ob_worktree = ''/r'', ob_dir = None, ob_env = [],
    ob_env_file = None, ob_before = (Some ''c0ffee'', Some False), ob_after = (Some ''c0ffee'', Some False), ob_exit = Some 0,
    ob_tail = None, ob_steps = [], ob_servers = \<lparr>sv_reused = [], sv_reused_at_head = [], sv_live = []\<rparr>, ob_times = (''t'', ''u'')\<rparr>"
  have j: "is_json ''1.json''" by code_simp
  from gate_honest [of "[(''1.json'', b)]" "(=)" "''/r''" "''test''" "[]" "''c0ffee''"] j
  have "ledger_passed (=) (ledger_of [(''1.json'', b)]) ''/r'' ''test'' [] ''c0ffee'' \<noteq> None"
    by (simp add: seen_to_pass_def b_def)
  moreover from gate_honest [of "[(''1.json'', b\<lparr>ob_after := (Some ''c0ffee'', Some True)\<rparr>)]" "(=)" "''/r''" "''test''" "[]" "''c0ffee''"] j
  have "ledger_passed (=) (ledger_of [(''1.json'', b\<lparr>ob_after := (Some ''c0ffee'', Some True)\<rparr>)]) ''/r'' ''test'' [] ''c0ffee'' = None"
    by (simp add: seen_to_pass_def b_def)
  ultimately show ?thesis by blast
qed

end
