(* ===== verification/Todo_Hold.thy ===== *)
theory Todo_Hold
  imports Todo_Graph
begin

text \<open>
  The todo hold at a stop: whose stop is refused (\<open>src/bin/devkit/todo/hold.rs\<close>, \<open>HoldStop\<close> of the configuration crate), over
  which todos (\<open>crates/devkit-todo/src/hold.rs\<close>), and once per list (\<open>hold\<close>, \<open>rearm\<close> and \<open>forget_holds\<close> of
  \<open>src/bin/devkit/hook/todo.rs\<close>).

  The files are a map from the names of a session's directory and of the file in it; \<open>digest\<close> gives a holder's name. The
  store's answer, the role's node and whether the payload can block are arguments, and an effect that fails is told by a flag.
\<close>

section \<open>Whose stop\<close>

datatype HoldStop = HoldAlways | HoldSubagents | HoldNever

datatype HoldSource = HoldSession | HoldEnv | HoldConfig | HoldDefault

definition hold_stop_parse :: "string \<Rightarrow> HoldStop option" where
  "hold_stop_parse s =
     (if eq_ascii_case s ''always'' \<or> eq_ascii_case s ''true'' then Some HoldAlways
      else if eq_ascii_case s ''subagents'' then Some HoldSubagents
      else if eq_ascii_case s ''never'' \<or> eq_ascii_case s ''false'' then Some HoldNever
      else None)"

definition hold_stop_show :: "HoldStop \<Rightarrow> string" where
  "hold_stop_show m = (case m of HoldAlways \<Rightarrow> ''always'' | HoldSubagents \<Rightarrow> ''subagents'' | HoldNever \<Rightarrow> ''never'')"

definition hold_mode_holds :: "HoldStop \<Rightarrow> bool \<Rightarrow> bool" where
  "hold_mode_holds m subagent = (case m of HoldAlways \<Rightarrow> True | HoldSubagents \<Rightarrow> subagent | HoldNever \<Rightarrow> False)"

text \<open>The files of the holds: the mode of a session under the name \<open>mode\<close>, a fingerprint under a holder's own.\<close>

type_synonym hold_files = "string \<times> string \<rightharpoonup> string"

definition mode_path :: "(string \<Rightarrow> string) \<Rightarrow> Holder \<Rightarrow> string \<times> string" where
  "mode_path digest holder = (digest (session_of holder), ''mode'')"

definition hold_path :: "(string \<Rightarrow> string) \<Rightarrow> Holder \<Rightarrow> string \<times> string" where
  "hold_path digest holder = (digest (session_of holder), digest holder)"

definition session_mode :: "(string \<Rightarrow> string) \<Rightarrow> hold_files \<Rightarrow> Holder \<Rightarrow> HoldStop option" where
  "session_mode digest files session = Option.bind (files (mode_path digest session)) (\<lambda>s. hold_stop_parse (trim s))"

definition effective_hold :: "(string \<Rightarrow> string) \<Rightarrow> hold_files \<Rightarrow> Holder option \<Rightarrow> string option \<Rightarrow> HoldStop option \<Rightarrow>
    string + HoldStop \<times> HoldSource" where
  "effective_hold digest files session env config =
     (case Option.bind session (session_mode digest files) of
        Some mode \<Rightarrow> Inr (mode, HoldSession)
      | None \<Rightarrow>
          (case (case map_option trim env of Some v \<Rightarrow> if v = [] then None else Some v | None \<Rightarrow> None) of
             Some name \<Rightarrow> (case hold_stop_parse name of Some mode \<Rightarrow> Inr (mode, HoldEnv) | None \<Rightarrow> Inl name)
           | None \<Rightarrow> (case config of Some mode \<Rightarrow> Inr (mode, HoldConfig) | None \<Rightarrow> Inr (HoldSubagents, HoldDefault))))"

section \<open>Over which todos\<close>

definition hold_status :: "StatusKind \<Rightarrow> string" where
  "hold_status k = (case k of KPending \<Rightarrow> ''pending'' | KInProgress \<Rightarrow> ''in_progress'' | KCompleted \<Rightarrow> ''completed''
     | KCancelled \<Rightarrow> ''cancelled'')"

definition fingerprint_line :: "Todo \<Rightarrow> string" where
  "fingerprint_line t = td_id t @ '' '' @ hold_status (kind (td_status t)) @ [CHR 0x0A]"

definition fingerprint :: "Todo list \<Rightarrow> string" where
  "fingerprint todos = concat (map fingerprint_line (sort_key td_id todos))"

section \<open>A stop\<close>

text \<open>The stop of one agent: the variable, the configured mode, the node its role holds, the store's list (\<open>None\<close> when the role or the list cannot
  be read), whether the payload can block, whether the fingerprint is written, and what its file holds after a write that failed.\<close>

record Stop =
  sp_holder :: Holder
  sp_env :: "string option"
  sp_config :: HoldStop
  sp_pending_node :: "string option"
  sp_todos :: "Todo list option"
  sp_blocks :: bool
  sp_writes :: bool
  sp_left :: "string option \<Rightarrow> string option"

definition stop_holds :: "(string \<Rightarrow> string) \<Rightarrow> hold_files \<Rightarrow> Stop \<Rightarrow> bool" where
  "stop_holds digest files s =
     (case effective_hold digest files (Some (session_of (sp_holder s))) (sp_env s) (Some (sp_config s)) of
        Inl _ \<Rightarrow> False
      | Inr (mode, _) \<Rightarrow> hold_mode_holds mode (sp_holder s \<noteq> session_of (sp_holder s)))"

definition stop_open :: "Stop \<Rightarrow> Todo list" where
  "stop_open s =
     (case sp_todos s of None \<Rightarrow> [] | Some todos \<Rightarrow> open_for todos (sp_holder s) (sp_pending_node s) (is_blocked todos))"

definition hold :: "(string \<Rightarrow> string) \<Rightarrow> Stop \<Rightarrow> hold_files \<Rightarrow> Todo list option \<times> hold_files" where
  "hold digest s files =
     (if \<not> stop_holds digest files s \<or> stop_open s = [] then (None, files)
      else
        let seen = fingerprint (stop_open s); path = hold_path digest (sp_holder s) in
        if files path = Some seen then (None, files)
        else if \<not> sp_blocks s then (None, files)
        else if \<not> sp_writes s then (None, files(path := sp_left s (files path)))
        else (Some (stop_open s), files(path \<mapsto> seen)))"

definition rearm :: "(string \<Rightarrow> string) \<Rightarrow> bool \<Rightarrow> Holder \<Rightarrow> hold_files \<Rightarrow> hold_files" where
  "rearm digest removed holder files = (if removed then files(hold_path digest holder := None) else files)"

text \<open>The whole directory goes, but for the files that could not be removed.\<close>

definition forget_holds :: "(string \<Rightarrow> string) \<Rightarrow> (string \<Rightarrow> bool) \<Rightarrow> Holder \<Rightarrow> hold_files \<Rightarrow> hold_files" where
  "forget_holds digest stays session files = (\<lambda>p. if fst p = digest session \<and> \<not> stays (snd p) then None else files p)"

text \<open>\<open>devkit todo hold\<close>: sets a mode for the session, or clears it.\<close>

definition set_hold_mode :: "(string \<Rightarrow> string) \<Rightarrow> Holder \<Rightarrow> HoldStop option \<Rightarrow> hold_files \<Rightarrow> hold_files" where
  "set_hold_mode digest session mode files = files(mode_path digest session := map_option hold_stop_show mode)"

datatype hold_event =
    StopEvent Stop
  | RearmEvent bool Holder
  | EndEvent "string \<Rightarrow> bool" Holder
  | ModeEvent Holder "HoldStop option"

fun hold_step :: "(string \<Rightarrow> string) \<Rightarrow> hold_event \<Rightarrow> hold_files \<Rightarrow> hold_files" where
  "hold_step digest (StopEvent s) files = snd (hold digest s files)"
| "hold_step digest (RearmEvent removed holder) files = rearm digest removed holder files"
| "hold_step digest (EndEvent stays session) files = forget_holds digest stays session files"
| "hold_step digest (ModeEvent session mode) files = set_hold_mode digest session mode files"

end
