(* ===== verification/Todo_Hold_Safety.thy ===== *)
theory Todo_Hold_Safety
  imports Todo_Hold "HOL-Library.Multiset"
begin

text \<open>
  A stop is refused once per list: again as soon as the open todos differ from the ones it was last refused over, or the
  hold was armed again, and not before.
\<close>

section \<open>What a fingerprint tells\<close>

definition open_state :: "Todo list \<Rightarrow> (string \<times> StatusKind) set" where
  "open_state todos = (\<lambda>t. (td_id t, kind (td_status t))) ` set todos"

definition well_named :: "Todo list \<Rightarrow> bool" where
  "well_named todos \<longleftrightarrow> distinct (map td_id todos) \<and> (\<forall>t\<in>set todos. CHR '' '' \<notin> set (td_id t) \<and> CHR 0x0A \<notin> set (td_id t))"

lemma hold_status_plain: "CHR 0x0A \<notin> set (hold_status k) \<and> CHR '' '' \<notin> set (hold_status k)"
  by (cases k) (simp_all add: hold_status_def)

lemma hold_status_inj: "hold_status k = hold_status k' \<longleftrightarrow> k = k'"
  by (cases k; cases k') (simp_all add: hold_status_def)

lemma lines_split:
  "\<forall>x\<in>set xs. CHR 0x0A \<notin> set x \<Longrightarrow> split_on (CHR 0x0A) (concat (map (\<lambda>x. x @ [CHR 0x0A]) xs)) = xs @ [[]]"
  by (induction xs) (simp_all add: split_on_append_sep split_on_no_sep)

lemma line_inj:
  assumes "CHR '' '' \<notin> set i" and "CHR '' '' \<notin> set j" and "i @ '' '' @ s = j @ '' '' @ t"
  shows "i = j \<and> s = t"
proof -
  have "takeWhile (\<lambda>c. c \<noteq> CHR '' '') (i @ '' '' @ s) = i" "takeWhile (\<lambda>c. c \<noteq> CHR '' '') (j @ '' '' @ t) = j"
    using assms(1,2) by (subst takeWhile_append2; auto)+
  with assms(3) show ?thesis by auto
qed

definition entries :: "Todo list \<Rightarrow> (string \<times> StatusKind) list" where
  "entries todos = map (\<lambda>t. (td_id t, kind (td_status t))) (sort_key td_id todos)"

lemma fingerprint_entries:
  assumes "well_named xs" and "well_named ys"
  shows "fingerprint xs = fingerprint ys \<longleftrightarrow> entries xs = entries ys"
proof
  let ?line = "\<lambda>e. fst e @ '' '' @ hold_status (snd e)"
  have fp: "fingerprint zs = concat (map (\<lambda>x. x @ [CHR 0x0A]) (map ?line (entries zs)))" for zs
    by (simp add: fingerprint_def fingerprint_line_def [abs_def] entries_def comp_def)
  have plain: "CHR '' '' \<notin> set (fst e) \<and> CHR 0x0A \<notin> set (fst e)" if "well_named zs" "e \<in> set (entries zs)" for zs e
    using that by (auto simp: well_named_def entries_def)
  have nl: "\<forall>x\<in>set (map ?line (entries zs)). CHR 0x0A \<notin> set x" if "well_named zs" for zs
    using plain [OF that] hold_status_plain by auto
  show "entries xs = entries ys" if "fingerprint xs = fingerprint ys"
  proof -
    from that lines_split [OF nl [OF assms(1)]] lines_split [OF nl [OF assms(2)]]
    have "map ?line (entries xs) = map ?line (entries ys)" by (simp add: fp)
    moreover have "inj_on ?line (set (entries xs) \<union> set (entries ys))"
      using plain [OF assms(1)] plain [OF assms(2)] line_inj
      by (intro inj_onI) (metis (no_types, lifting) UnE hold_status_inj prod.expand)
    ultimately show ?thesis by (simp add: inj_on_map_eq_map)
  qed
  show "fingerprint xs = fingerprint ys" if "entries xs = entries ys" using that by (simp add: fp)
qed

lemma entries_state:
  assumes "well_named xs" and "well_named ys"
  shows "entries xs = entries ys \<longleftrightarrow> open_state xs = open_state ys"
proof
  have set: "set (entries zs) = open_state zs" for zs by (simp add: entries_def open_state_def)
  have keys: "map fst (entries zs) = sort (map td_id zs)" for zs
  proof -
    have "map fst (entries zs) = map td_id (sort_key td_id zs)" by (simp add: entries_def comp_def)
    also have "\<dots> = sort (map td_id zs)" by (rule properties_for_sort [symmetric]) (simp_all add: mset_map)
    finally show ?thesis .
  qed
  have distinct: "distinct (map fst (entries zs))" if "well_named zs" for zs using that by (simp add: keys well_named_def)
  show "entries xs = entries ys" if eq: "open_state xs = open_state ys"
  proof -
    have ids: "map fst (entries xs) = map fst (entries ys)"
    proof (rule sorted_distinct_set_unique)
      show "set (map fst (entries xs)) = set (map fst (entries ys))" using eq by (simp add: set)
    qed (use distinct [OF assms(1)] distinct [OF assms(2)] in \<open>simp_all add: keys\<close>)
    have "map_of (entries xs) = map_of (entries ys)"
      using map_of_inject_set [OF distinct [OF assms(1)] distinct [OF assms(2)]] eq by (simp add: set)
    moreover have "zs = map (\<lambda>k. (k, the (map_of zs k))) (map fst zs)" if "distinct (map fst zs)" for zs :: "(string \<times> StatusKind) list"
      using map_of_is_SomeI [OF that] by (auto simp: comp_def intro!: map_idI [symmetric])
    ultimately show ?thesis using ids distinct [OF assms(1)] distinct [OF assms(2)] by metis
  qed
  show "open_state xs = open_state ys" if "entries xs = entries ys" using that by (simp add: set [symmetric])
qed

section \<open>Once per list\<close>

text \<open>
  What an agent was last refused over, by the answers its stops got: nothing once its fingerprint was
  removed by a rearm (a prompt, a compaction, a sub-agent's stop that went through) or by the end of its session.
\<close>

type_synonym refused_state = "(string \<times> StatusKind) set option"

definition refused_next :: "(string \<Rightarrow> string) \<Rightarrow> Holder \<Rightarrow> hold_event \<Rightarrow> hold_files \<Rightarrow> refused_state \<Rightarrow> refused_state" where
  "refused_next digest h e files prev =
     (case e of
        StopEvent s \<Rightarrow> if sp_holder s = h \<and> fst (hold digest s files) \<noteq> None then Some (open_state (stop_open s)) else prev
      | RearmEvent removed h' \<Rightarrow> if h' = h \<and> removed then None else prev
      | EndEvent stays session \<Rightarrow> if session = session_of h \<and> \<not> stays (digest h) then None else prev
      | ModeEvent _ _ \<Rightarrow> prev)"

fun refused_over :: "(string \<Rightarrow> string) \<Rightarrow> Holder \<Rightarrow> hold_event list \<Rightarrow> hold_files \<Rightarrow> refused_state \<Rightarrow> refused_state" where
  "refused_over digest h [] files prev = prev"
| "refused_over digest h (e # es) files prev =
     refused_over digest h es (hold_step digest e files) (refused_next digest h e files prev)"

text \<open>The holders and sessions an event names, and what an agent's own stops must be.\<close>

definition event_names :: "hold_event \<Rightarrow> Holder set" where
  "event_names e = (case e of
     StopEvent s \<Rightarrow> {sp_holder s, session_of (sp_holder s)} | RearmEvent _ h \<Rightarrow> {h, session_of h} | EndEvent _ s \<Rightarrow> {s}
   | ModeEvent s _ \<Rightarrow> {session_of s})"

definition own_stop_ok :: "Holder \<Rightarrow> hold_event \<Rightarrow> bool" where
  "own_stop_ok h e = (case e of StopEvent s \<Rightarrow> sp_holder s = h \<longrightarrow> sp_writes s \<and> well_named (stop_open s) | _ \<Rightarrow> True)"

definition names_of :: "Holder \<Rightarrow> hold_event list \<Rightarrow> Holder set" where
  "names_of h events = {h, session_of h} \<union> (\<Union>e\<in>set events. event_names e)"

definition remembers :: "(string \<Rightarrow> string) \<Rightarrow> Holder \<Rightarrow> refused_state \<Rightarrow> hold_files \<Rightarrow> bool" where
  "remembers digest h prev files \<longleftrightarrow>
     (case prev of
        None \<Rightarrow> files (hold_path digest h) = None
      | Some st \<Rightarrow> \<exists>todos. well_named todos \<and> open_state todos = st \<and> files (hold_path digest h) = Some (fingerprint todos))"

lemma own_stop_remembers:
  assumes "remembers digest h prev files" and "well_named (stop_open s)" and h: "sp_holder s = h"
  shows "fst (hold digest s files) \<noteq> None \<longleftrightarrow> stop_holds digest files s \<and> stop_open s \<noteq> [] \<and> sp_blocks s \<and> sp_writes s
      \<and> prev \<noteq> Some (open_state (stop_open s))"
    and "sp_writes s \<Longrightarrow> remembers digest h (refused_next digest h (StopEvent s) files prev) (snd (hold digest s files))"
proof -
  have eq: "files (hold_path digest h) = Some (fingerprint (stop_open s)) \<longleftrightarrow> prev = Some (open_state (stop_open s))"
  proof (cases prev)
    case None
    with assms(1) show ?thesis by (simp add: remembers_def)
  next
    case (Some st)
    with assms(1) obtain todos where t: "well_named todos" "open_state todos = st"
      "files (hold_path digest h) = Some (fingerprint todos)" by (auto simp: remembers_def)
    with fingerprint_entries [OF t(1) assms(2)] entries_state [OF t(1) assms(2)] Some show ?thesis by auto
  qed
  show "fst (hold digest s files) \<noteq> None \<longleftrightarrow> stop_holds digest files s \<and> stop_open s \<noteq> [] \<and> sp_blocks s \<and> sp_writes s
      \<and> prev \<noteq> Some (open_state (stop_open s))"
    unfolding eq [symmetric] by (auto simp: hold_def Let_def h)
  show "remembers digest h (refused_next digest h (StopEvent s) files prev) (snd (hold digest s files))" if "sp_writes s"
  proof (cases "fst (hold digest s files)")
    case None
    with that have "snd (hold digest s files) = files" by (auto simp: hold_def Let_def split: if_splits)
    with None assms(1) show ?thesis by (simp add: refused_next_def)
  next
    case (Some shown)
    then have "snd (hold digest s files) (hold_path digest h) = Some (fingerprint (stop_open s))"
      by (auto simp: hold_def Let_def h split: if_splits)
    with Some assms(2) h show ?thesis by (auto simp: refused_next_def remembers_def)
  qed
qed

lemma event_remembers:
  assumes inj: "inj_on digest (names_of h (e # events))" and mode: "\<forall>n\<in>names_of h (e # events). digest n \<noteq> ''mode''"
    and "remembers digest h prev files" and "own_stop_ok h e"
  shows "remembers digest h (refused_next digest h e files prev) (hold_step digest e files)"
proof (cases "\<exists>s. e = StopEvent s \<and> sp_holder s = h")
  case True
  with assms(4) own_stop_remembers(2) [OF assms(3)] show ?thesis by (auto simp: own_stop_ok_def)
next
  case False
  have h: "h \<in> names_of h (e # events)" "session_of h \<in> names_of h (e # events)" by (simp_all add: names_of_def)
  have same: "digest n = digest m \<longleftrightarrow> n = m" if "n \<in> names_of h (e # events)" "m \<in> names_of h (e # events)" for n m
    using inj that by (auto simp: inj_on_def)
  show ?thesis
  proof (cases e)
    case (StopEvent s)
    with False have ne: "sp_holder s \<noteq> h" by blast
    have "sp_holder s \<in> names_of h (e # events)" by (simp add: names_of_def event_names_def StopEvent)
    with same h(1) ne have "hold_path digest h \<noteq> hold_path digest (sp_holder s)" by (auto simp: hold_path_def)
    then have "snd (hold digest s files) (hold_path digest h) = files (hold_path digest h)"
      by (simp add: hold_def Let_def)
    with assms(3) ne show ?thesis by (simp add: StopEvent refused_next_def remembers_def split: option.splits)
  next
    case (RearmEvent removed h')
    have "h' \<in> names_of h (e # events)" by (simp add: names_of_def event_names_def RearmEvent)
    with same h(1) have "hold_path digest h = hold_path digest h' \<longrightarrow> h' = h" by (auto simp: hold_path_def)
    with assms(3) show ?thesis
      by (auto simp: RearmEvent refused_next_def remembers_def rearm_def split: option.splits)
  next
    case (EndEvent stays session)
    have "session \<in> names_of h (e # events)" by (simp add: names_of_def event_names_def EndEvent)
    with same h(2) have "digest (session_of h) = digest session \<longleftrightarrow> session_of h = session" by blast
    with assms(3) show ?thesis
      by (auto simp: EndEvent refused_next_def remembers_def forget_holds_def hold_path_def split: option.splits)
  next
    case (ModeEvent session m)
    have "digest h \<noteq> ''mode''" using mode h(1) by blast
    with assms(3) show ?thesis
      by (simp add: ModeEvent refused_next_def remembers_def set_hold_mode_def hold_path_def mode_path_def split: option.splits)
  qed
qed

lemma events_remember:
  assumes "inj_on digest (names_of h events)" and "\<forall>n\<in>names_of h events. digest n \<noteq> ''mode''"
    and "remembers digest h prev files" and "\<forall>e\<in>set events. own_stop_ok h e"
  shows "remembers digest h (refused_over digest h events files prev) (fold (hold_step digest) events files)"
  using assms
proof (induction events arbitrary: files prev)
  case (Cons e events)
  have sub: "names_of h events \<subseteq> names_of h (e # events)" by (auto simp: names_of_def)
  have "remembers digest h (refused_next digest h e files prev) (hold_step digest e files)"
    by (rule event_remembers [OF Cons.prems(1-3)]) (use Cons.prems(4) in simp)
  with Cons.IH [of "refused_next digest h e files prev" "hold_step digest e files"] Cons.prems sub show ?case
    by (auto intro: inj_on_subset)
qed simp

text \<open>
  C28: a stop is refused once per list. Whatever an agent's own stops, those of others, prompts, compactions, session ends and
  mode changes came before, an agent's stop is refused exactly when the mode in effect holds it, it has open todos,
  the harness can block it and the fingerprint is written, and the set of its open todos with their statuses is not the
  one it was last refused over since the hold was last armed again. The names involved must not collide
  under the 64-bit digest their files are named by, and the agent's earlier fingerprints must have been written.
\<close>

theorem refused_once_per_list:
  assumes "inj_on digest (names_of (sp_holder s) events)" and "\<forall>n\<in>names_of (sp_holder s) events. digest n \<noteq> ''mode''"
    and "files (hold_path digest (sp_holder s)) = None"
    and "\<forall>e\<in>set events. own_stop_ok (sp_holder s) e" and "well_named (stop_open s)"
  shows "fst (hold digest s (fold (hold_step digest) events files)) \<noteq> None
    \<longleftrightarrow> stop_holds digest (fold (hold_step digest) events files) s \<and> stop_open s \<noteq> [] \<and> sp_blocks s \<and> sp_writes s
      \<and> refused_over digest (sp_holder s) events files None \<noteq> Some (open_state (stop_open s))"
proof -
  have "remembers digest (sp_holder s) None files" using assms(3) by (simp add: remembers_def)
  from own_stop_remembers(1) [OF events_remember [OF assms(1,2) this assms(4)] assms(5) refl] show ?thesis .
qed

definition demo_stop :: "Todo list \<Rightarrow> Stop" where
  "demo_stop todos = \<lparr>sp_holder = ''S'', sp_env = Some '' Always '', sp_config = HoldNever, sp_pending_node = None, sp_todos = Some todos,
     sp_blocks = True, sp_writes = True, sp_left = id\<rparr>"

definition demo_held :: "string \<Rightarrow> Todo" where
  "demo_held i = \<lparr>td_id = i, td_description = ''d'', td_status = InProgress ''S'', td_parent = None, td_order = None, td_project = None,
     td_entry = None, td_modified = None, td_blocked_by = [], td_ticket = None\<rparr>"

lemma demo_hold:
  "stop_open (demo_stop [demo_held ''1'']) = [demo_held ''1'']"
  "sp_holder (demo_stop todos) = ''S''" "sp_blocks (demo_stop todos)" "sp_writes (demo_stop todos)"
  "files (''xS'', ''mode'') = None \<Longrightarrow> stop_holds (Cons CHR ''x'') files (demo_stop todos)"
  "session_of ''S'' = ''S''" "well_named [demo_held ''1'']"
proof -
  show s: "session_of ''S'' = ''S''" by code_simp
  have mode: "trim '' Always '' = ''Always''" "hold_stop_parse ''Always'' = Some HoldAlways" by code_simp+
  show "files (''xS'', ''mode'') = None \<Longrightarrow> stop_holds (Cons CHR ''x'') files (demo_stop todos)"
    using mode by (simp add: stop_holds_def effective_hold_def demo_stop_def session_mode_def mode_path_def s hold_mode_holds_def)
qed (simp_all add: stop_open_def demo_stop_def open_for_def demo_held_def node_of_def well_named_def)

text \<open>Refused, let through twice over the same list, refused again after a prompt.\<close>

theorem refused_once_per_list_witness:
  "let stop = demo_stop [demo_held ''1'']; hold_files = fold (hold_step (Cons CHR ''x'')) in
     fst (hold (Cons CHR ''x'') stop (hold_files [] Map.empty)) \<noteq> None
     \<and> fst (hold (Cons CHR ''x'') stop (hold_files [StopEvent stop, StopEvent stop] Map.empty)) = None
     \<and> fst (hold (Cons CHR ''x'') stop (hold_files [StopEvent stop, StopEvent stop, RearmEvent True ''S''] Map.empty)) \<noteq> None"
proof -
  let ?d = "Cons CHR ''x''" and ?s = "demo_stop [demo_held ''1'']"
  let ?st = "open_state [demo_held ''1'']"
  have hold: "hold ?d ?s files = (if files (''xS'', ''xS'') = Some (fingerprint [demo_held ''1'']) then (None, files)
      else (Some [demo_held ''1''], files((''xS'', ''xS'') \<mapsto> fingerprint [demo_held ''1''])))"
    if "files (''xS'', ''mode'') = None" for files
    using that by (simp add: hold_def demo_hold Let_def hold_path_def)
  have ok: "inj_on ?d A" "\<forall>n\<in>A. ?d n \<noteq> ''mode''" "Map.empty (hold_path ?d (sp_holder ?s)) = None"
    "well_named (stop_open ?s)" for A :: "string set" by (simp_all add: inj_on_def demo_hold)
  have own: "\<forall>e\<in>set [StopEvent ?s, StopEvent ?s, RearmEvent True ''S'']. own_stop_ok (sp_holder ?s) e"
    by (simp add: own_stop_ok_def demo_hold)
  have exact: "fst (hold ?d ?s (fold (hold_step ?d) events Map.empty)) \<noteq> None
      \<longleftrightarrow> stop_holds ?d (fold (hold_step ?d) events Map.empty) ?s \<and> stop_open ?s \<noteq> [] \<and> sp_blocks ?s \<and> sp_writes ?s
        \<and> refused_over ?d (sp_holder ?s) events Map.empty None \<noteq> Some (open_state (stop_open ?s))"
    if "set events \<subseteq> set [StopEvent ?s, StopEvent ?s, RearmEvent True ''S'']" for events
    by (rule refused_once_per_list [OF ok(1-3) _ ok(4)]) (use own that in blast)
  have r: "refused_over ?d ''S'' [] Map.empty None = None"
    "refused_over ?d ''S'' [StopEvent ?s, StopEvent ?s] Map.empty None = Some ?st"
    "refused_over ?d ''S'' [StopEvent ?s, StopEvent ?s, RearmEvent True ''S''] Map.empty None = None"
    by (simp_all add: refused_next_def hold demo_hold)
  have m: "fold (hold_step ?d) [StopEvent ?s, StopEvent ?s] Map.empty (''xS'', ''mode'') = None"
    "fold (hold_step ?d) [StopEvent ?s, StopEvent ?s, RearmEvent True ''S''] Map.empty (''xS'', ''mode'') = None"
    by (simp_all add: hold rearm_def)
  have "fst (hold ?d ?s (fold (hold_step ?d) [] Map.empty)) \<noteq> None"
    using exact [of "[]"] r(1) by (simp add: demo_hold)
  moreover have "fst (hold ?d ?s (fold (hold_step ?d) [StopEvent ?s, StopEvent ?s] Map.empty)) = None"
    using exact [of "[StopEvent ?s, StopEvent ?s]"] r(2) by (simp add: demo_hold)
  moreover have "fst (hold ?d ?s (fold (hold_step ?d) [StopEvent ?s, StopEvent ?s, RearmEvent True ''S''] Map.empty)) \<noteq> None"
    using exact [of "[StopEvent ?s, StopEvent ?s, RearmEvent True ''S'']"] r(3)
      demo_hold(5) [where files = "fold (hold_step ?d) [StopEvent ?s, StopEvent ?s, RearmEvent True ''S''] Map.empty"] m(2) by (simp add: demo_hold(1-4))
  ultimately show ?thesis by (simp only: Let_def simp_thms)
qed

end
