(* ===== verification/Spec2Isabelle.thy ===== *)
theory Spec2Isabelle
  imports Lock_Paths_Safety Port_Safety Devkitd_Safety Todo_Prune Todo_Rules Todo_Claims Todo_Diff Todo_Topo Todo_Store_Ids Ticket_Demo Ticket_Push_Safety Todo_Queue Todo_Capture Todo_Roles_Safety Todo_Activity_Log Run_Ledger_Safety Todo_Hold_Safety
begin

text \<open>
  The core of the devkit workspace: the services by which several coding agents and people share one machine and one plan.

  \<^bold>\<open>The program.\<close> Processes of one user, the command \<open>devkit\<close> and its hooks, share three kinds of state. Advisory \<^emph>\<open>locks\<close> on paths
  (\<open>crates/devkit-locks\<close>) and \<^emph>\<open>ports\<close> for development servers (\<open>crates/devkit-ports\<close>) are JSON documents under a file lock
  (\<open>crates/devkit-common/src/store.rs\<close>); a daemon (\<open>src/bin/devkitd\<close>) may hold either in memory, write it through, and supervise
  the servers. \<^emph>\<open>Todos\<close> (\<open>crates/devkit-todo\<close>) live in a store chosen by configuration: the status rule, the blocking graph,
  roles, the activity log and the hold at a stop are common to every store. A harness's own task and plan tools are mirrored into
  the store by hooks, and todos of tickets are synced with an issue tracker and their changes pushed to it.

  \<^bold>\<open>Conventions.\<close> A Rust \<open>String\<close> or path is the list of its bytes; a \<open>BTreeMap\<close> is an association list in key order
  (the \<open>bt_\<close> operations of \<^theory_text>\<open>DK_Prelude\<close>, with its laws in the locale \<open>ordered_map\<close>), a \<open>HashMap\<close> an association list or a map,
  a \<open>HashSet\<close> a set. Unsigned integers are words and wrap, saturate or are checked as the code does; the \<open>i64\<close> orders of todos
  are integers with the wrap written out (\<open>i64_add\<close>). An error is the left of a sum with the error's own datatype; an index out
  of range is such a fault, or is proved away. State is passed explicitly, and a fault of the file system, a process probe, the
  clock, a digest, the text of a time, Unicode case and a tracker's answers are arguments, so every theorem holds for all of them.

  \<^bold>\<open>Locks.\<close> \<^theory_text>\<open>Lock_Model\<close> is \<open>model.rs\<close>, the table and its operations; \<^theory_text>\<open>Lock_Safety\<close> what each does to it.
  \<^theory_text>\<open>Doc_Store\<close> is \<open>store.rs\<close>: a document behind a file lock and the same document in memory, written through; the locales
  \<open>store\<close> and \<open>document\<close> say what an operation over either may rely on. \<^theory_text>\<open>Lock_Store\<close> is the registry as a document, the
  requests of \<open>daemon/proto.rs\<close>, the daemon's handler and the client's facade; its step relation \<open>lock_step\<close> has one step per
  request by either route, per daemon start or stop, and per fault. \<^theory_text>\<open>Lock_System\<close> shows over all its runs that paths stay
  exclusive, that the daemon's memory is its file, that both routes give one answer, and that nobody writes behind a daemon.
  \<^theory_text>\<open>Lock_Paths\<close> is what comes before a request, \<open>ident.rs\<close>, the facade of \<open>lib.rs\<close> and \<open>Checkout\<close> of
  \<open>crates/devkit-common/src/vcs.rs\<close>: the holder of a call, the checkout of a directory and the key of a path, over the paths of
  \<^theory_text>\<open>Path_Model\<close>; \<^theory_text>\<open>Lock_Paths_Safety\<close> shows that a claim is met by every write whose path leads to its place, which
  spellings lead there, and where a path escapes.
  \<^theory_text>\<open>Caller\<close> tells an agent from a person (\<open>caller.rs\<close>), and what a half-known assignment may claim.

  \<^bold>\<open>Ports and the daemon.\<close> \<^theory_text>\<open>Port_Registry\<close> is \<open>registry.rs\<close> over the same \<open>document\<close>; \<^theory_text>\<open>Port_Safety\<close> has its operations,
  with the snapshot and the later commit as two steps, on a machine that may have changed. \<^theory_text>\<open>Supervisor\<close> is the table of
  children: health, memory, and restarts within their budget over any life of the table. \<^theory_text>\<open>Devkitd\<close> is the daemon's request handlers and its tick over both, a stop in the parts other threads may run
  between; \<^theory_text>\<open>Devkitd_Safety\<close> shows what they start, stop and leave. \<^theory_text>\<open>Run_Ledger\<close> is \<open>ledger.rs\<close>: records of task runs, the gate that asks for a clean passing run, and the tail of an
  output; \<^theory_text>\<open>Run_Ledger_Safety\<close> shows both are what they claim.

  \<^bold>\<open>Todos.\<close> \<^theory_text>\<open>Todo_Model\<close> has holders, statuses, the status rule and a todo's record; \<^theory_text>\<open>Todo_Rules\<close> says what its answers mean.
  \<^theory_text>\<open>Todo_Prune\<close> is \<open>prune.rs\<close>. \<^theory_text>\<open>Todo_Graph\<close> is \<open>graph.rs\<close>, with \<^theory_text>\<open>Todo_Cycles\<close> on its searches, \<^theory_text>\<open>Todo_Plan\<close> on the batches and
  \<^theory_text>\<open>Todo_Topo\<close> on the order and the critical path. \<^theory_text>\<open>Todo_Store\<close> is the built-in store, a document again; \<^theory_text>\<open>Todo_Store_Safety\<close>
  shows that its file reads back and its reports are exact, \<^theory_text>\<open>Todo_Store_Ids\<close> its invariant over runs with faults, and \<^theory_text>\<open>Todo_Claims\<close> which edits end a claim.
  \<^theory_text>\<open>Todo_Scope\<close> is the templates and scopes of the configuration and the layout that fills them for a caller, \<^theory_text>\<open>Todo_Roles\<close>
  the document of roles; their safety theories show that a checked configuration serves every caller. \<^theory_text>\<open>Todo_Activity\<close> is the log
  of claims and runs; \<^theory_text>\<open>Todo_Activity_Safety\<close> shows how they are judged, \<^theory_text>\<open>Todo_Activity_Log\<close> that the log agrees with the store
  also when appends fail or arrive late. \<^theory_text>\<open>Todo_Hold\<close> is the refusal of a stop. \<^theory_text>\<open>Todo_Queue\<close> is the queue of
  hook writes, a step relation over processes that append and drain, with writes that are cut short.

  \<^bold>\<open>Harness and tracker.\<close> \<^theory_text>\<open>Todo_Diff\<close> compares a resent plan with the stored one. \<^theory_text>\<open>Todo_Native\<close> is the handlers of the
  harness tools over any store and map; \<^theory_text>\<open>Todo_Native_Safety\<close> proves in the locale \<open>capture\<close>, built from \<open>capture_rows\<close> and
  \<open>native_map\<close>, that they leave tickets and the graph alone, and \<^theory_text>\<open>Todo_Capture\<close> interprets it on the built-in store.
  \<^theory_text>\<open>Ticket_Sync\<close> is the plan and landing of a sync, \<^theory_text>\<open>Ticket_Plan\<close> what is planned, \<^theory_text>\<open>Ticket_Land\<close> and \<^theory_text>\<open>Ticket_Settle\<close> what a
  landing does in any store with the interface \<open>todo_rows\<close>, which \<^theory_text>\<open>Ticket_Builtin\<close> shows of the built-in one.
  \<^theory_text>\<open>Ticket_Push\<close> is the way back to the tracker, \<^theory_text>\<open>Ticket_Push_Safety\<close> what it may write and when.

  \<^bold>\<open>Loops and bounds.\<close> A loop over a list is structural recursion. The searches of the graph end by a measure: the todos not
  yet visited, then the stack. The walk up of \<^theory_text>\<open>Todo_Prune\<close> ends since each round marks a new todo. The topological order has
  fuel, one round for each member and one more, and \<open>topo_total\<close> shows this is enough. The walks up the scopes do not end under
  an arbitrary configuration: they are partial functions, and \<open>layout_serves_every_caller\<close> shows that they return under one that
  passed the check. A port scan is bounded by the largest port.

  \<^bold>\<open>Not modelled.\<close> Text for people (help, tables, messages), argument parsing and the MCP server are glue over the operations
  above. Clients of GitHub, Linear and Jira, the docs cache and the SQL stores are network and database input, an argument here.
  The bytes of JSON and TOML are a JSON tree or the value read. Sockets, signals, cgroups and the service unit belong to the
  operating system; a request that does not get through is an argument. How long a wait takes is not part of the model.
\<close>

end
